(* ===== verification/Prelude.thy ===== *)
theory Prelude
  imports Main "HOL-Library.Word" "HOL-Library.Multiset" "HOL-Library.List_Lexorder"
begin

unbundle bit_operations_syntax

text \<open>
  What every component of the development shares.

  \<^item> The result of fallible code: \<open>Ok\<close> a value, \<open>Err\<close> an error value the code returns
    (\<^verbatim>\<open>cc::result\<close>), and \<open>Fault\<close>, which stands for everything the code may not do at all: a
    \<^verbatim>\<open>CC_ASSERT\<close> or \<^verbatim>\<open>CC_UNREACHABLE\<close> that fires, or a read outside a buffer.  A theorem that an
    operation does not fault is therefore a memory-safety and assertion-freedom statement.
  \<^item> Bytes are 8-bit words and byte sequences are lists.  \<^verbatim>\<open>cc::string_view\<close> has no encoding, so
    a string is a byte list too.
  \<^item> \<^verbatim>\<open>isize\<close> offsets and sizes are natural numbers.  Every one of them is bounded by a buffer
    length plus \<open>2\<^sup>3\<^sup>2 + 9\<close>, far below the \<open>2\<^sup>6\<^sup>3\<close> at which a signed 64-bit value would overflow.
\<close>

type_synonym byte = "8 word"
type_synonym bytes = "8 word list"
type_synonym str = "8 word list"

named_theorems codec_simps
  "unfolding rules that evaluate the byte-level encoders to explicit byte lists"
named_theorems result_simps
  "case distinctions on the result of fallible code"

subsection \<open>Fallible code\<close>

datatype ('e, 'a) result = Fault | Err 'e | Ok 'a

primrec rbind :: "('e, 'a) result \<Rightarrow> ('a \<Rightarrow> ('e, 'b) result) \<Rightarrow> ('e, 'b) result" where
  "rbind Fault f = Fault"
| "rbind (Err e) f = Err e"
| "rbind (Ok x) f = f x"

definition check :: "bool \<Rightarrow> ('e, unit) result" where
  "check b = (if b then Ok () else Fault)"

primrec map_err :: "('e \<Rightarrow> 'f) \<Rightarrow> ('e, 'a) result \<Rightarrow> ('f, 'a) result" where
  "map_err f Fault = Fault"
| "map_err f (Err e) = Err (f e)"
| "map_err f (Ok x) = Ok x"

lemma rbind_cong [fundef_cong]:
  "m = m' \<Longrightarrow> (\<And>x. m' = Ok x \<Longrightarrow> f x = g x) \<Longrightarrow> rbind m f = rbind m' g"
  by (cases m') auto

lemma rbind_eq_Ok [result_simps]: "rbind m f = Ok y \<longleftrightarrow> (\<exists>x. m = Ok x \<and> f x = Ok y)"
  by (cases m) auto

lemma rbind_eq_Fault [result_simps]:
  "rbind m f = Fault \<longleftrightarrow> m = Fault \<or> (\<exists>x. m = Ok x \<and> f x = Fault)"
  by (cases m) auto

lemma rbind_eq_Err [result_simps]:
  "rbind m f = Err e \<longleftrightarrow> m = Err e \<or> (\<exists>x. m = Ok x \<and> f x = Err e)"
  by (cases m) auto

lemma rbind_assoc: "rbind (rbind m f) g = rbind m (\<lambda>x. rbind (f x) g)"
  by (cases m) auto

lemma check_eq_Ok [result_simps]: "check b = Ok u \<longleftrightarrow> b"
  by (simp add: check_def)

lemma check_eq_Fault [result_simps]: "check b = Fault \<longleftrightarrow> \<not> b"
  by (simp add: check_def)

lemma check_not_Err [simp]: "check b \<noteq> Err e"
  by (simp add: check_def)

lemma check_True [simp]: "check True = Ok ()"
  by (simp add: check_def)

lemma map_err_Ok [result_simps]: "map_err f m = Ok x \<longleftrightarrow> m = Ok x"
  by (cases m) auto

lemma map_err_Fault [result_simps]: "map_err f m = Fault \<longleftrightarrow> m = Fault"
  by (cases m) auto

subsection \<open>Reading a buffer\<close>

text \<open>A single byte (\<^verbatim>\<open>b[i]\<close>) and a window (\<^verbatim>\<open>span(b.data() + off, size)\<close>), both faulting out of bounds.\<close>

definition byte_at :: "bytes \<Rightarrow> nat \<Rightarrow> ('e, byte) result" where
  "byte_at b i = (if i < length b then Ok (b ! i) else Fault)"

definition slice :: "bytes \<Rightarrow> nat \<Rightarrow> nat \<Rightarrow> ('e, bytes) result" where
  "slice b off n = (if off + n \<le> length b then Ok (take n (drop off b)) else Fault)"

lemma byte_at_append [simp]: "byte_at (pre @ x # post) (length pre) = Ok x"
  by (simp add: byte_at_def)

lemma byte_at_eq_Ok [result_simps]: "byte_at b i = Ok x \<longleftrightarrow> i < length b \<and> x = b ! i"
  by (auto simp: byte_at_def)

lemma byte_at_eq_Fault [result_simps]: "byte_at b i = Fault \<longleftrightarrow> length b \<le> i"
  by (auto simp: byte_at_def)

lemma byte_at_not_Err [simp]: "byte_at b i \<noteq> Err e"
  by (simp add: byte_at_def)

lemma slice_append [simp]: "slice (pre @ mid @ post) (length pre) (length mid) = Ok mid"
  by (simp add: slice_def)

lemma slice_append_end [simp]: "slice (pre @ mid) (length pre) (length mid) = Ok mid"
  by (simp add: slice_def)

lemma slice_eq_Ok [result_simps]:
  "slice b off n = Ok x \<longleftrightarrow> off + n \<le> length b \<and> x = take n (drop off b)"
  by (auto simp: slice_def)

lemma slice_eq_Fault [result_simps]: "slice b off n = Fault \<longleftrightarrow> length b < off + n"
  by (auto simp: slice_def)

lemma slice_not_Err [simp]: "slice b off n \<noteq> Err e"
  by (simp add: slice_def)

text \<open>
  \<open>holds_at b off xs\<close>: the bytes \<open>xs\<close> lie in the buffer \<open>b\<close> at offset \<open>off\<close>.
  The codec proofs are conducted in terms of it, so that they never split a buffer by hand.
\<close>

definition holds_at :: "bytes \<Rightarrow> nat \<Rightarrow> bytes \<Rightarrow> bool" where
  "holds_at b off xs \<longleftrightarrow> off + length xs \<le> length b \<and> take (length xs) (drop off b) = xs"

lemma holds_at_Nil: "holds_at b off [] \<longleftrightarrow> off \<le> length b"
  by (simp add: holds_at_def)

lemma holds_at_Cons:
  "holds_at b off (x # xs) \<longleftrightarrow> off < length b \<and> b ! off = x \<and> holds_at b (Suc off) xs"
proof (cases "off < length b")
  case True
  then have "drop off b = b ! off # drop (Suc off) b" by (simp add: Cons_nth_drop_Suc)
  then show ?thesis by (auto simp: holds_at_def)
qed (simp add: holds_at_def)

lemma holds_at_append:
  "holds_at b off (xs @ ys) \<longleftrightarrow> holds_at b off xs \<and> holds_at b (off + length xs) ys"
proof (induction xs arbitrary: off)
  case Nil
  then show ?case by (auto simp: holds_at_def)
next
  case (Cons x xs)
  then show ?case by (simp add: holds_at_Cons)
qed

lemma holds_at_slice: "holds_at b off xs \<Longrightarrow> n = length xs \<Longrightarrow> slice b off n = Ok xs"
  by (simp add: holds_at_def slice_def)

lemma holds_at_take_drop: "off + n \<le> length b \<Longrightarrow> holds_at b off (take n (drop off b))"
  by (simp add: holds_at_def)

lemma holds_at_whole: "holds_at b 0 b"
  by (simp add: holds_at_def)

lemma holds_at_eq: "holds_at b off xs \<Longrightarrow> holds_at b off ys \<Longrightarrow> length xs = length ys \<Longrightarrow> xs = ys"
  by (auto simp: holds_at_def)

lemma holds_at_length: "holds_at b off xs \<Longrightarrow> off + length xs \<le> length b"
  by (simp add: holds_at_def)

lemma holds_at_shift:
  assumes "holds_at b off xs" "holds_at xs i ys"
  shows "holds_at b (off + i) ys"
proof -
  have "drop i xs = ys @ drop (length ys) (drop i xs)"
    using assms(2) by (metis holds_at_def append_take_drop_id)
  then have "xs = take i xs @ ys @ drop (length ys) (drop i xs)"
    by (metis append_take_drop_id)
  moreover have "length (take i xs) = i" using assms(2) by (simp add: holds_at_def)
  ultimately show ?thesis using assms(1) by (metis holds_at_append)
qed

lemmas holds_at_simps = holds_at_Nil holds_at_Cons holds_at_append

text \<open>Writing a window (\<^verbatim>\<open>memcpy\<close> into a buffer), faulting out of bounds.\<close>

definition memcpy_at :: "bytes \<Rightarrow> nat \<Rightarrow> bytes \<Rightarrow> ('e, bytes) result" where
  "memcpy_at dst off src =
     (if off + length src \<le> length dst
      then Ok (take off dst @ src @ drop (off + length src) dst) else Fault)"

definition put_byte :: "bytes \<Rightarrow> nat \<Rightarrow> byte \<Rightarrow> ('e, bytes) result" where
  "put_byte b i x = (if i < length b then Ok (b[i := x]) else Fault)"

subsection \<open>Walking self-delimiting items\<close>

text \<open>
  The interface of every sequential container format of the repository: \<open>step\<close> reads one item's extent,
  \<open>walk\<close> iterates it.  What a client may rely on is that the walk lands on the \<open>i\<close>-th item.
\<close>

locale item_walk =
  fixes step :: "bytes \<Rightarrow> nat \<Rightarrow> ('e, nat) result"
    and walk :: "bytes \<Rightarrow> nat \<Rightarrow> nat \<Rightarrow> ('e, nat) result"
    and item :: "'a \<Rightarrow> bytes"
    and wf :: "'a \<Rightarrow> bool"
  assumes step_item: "wf x \<Longrightarrow> holds_at b off (item x) \<Longrightarrow> step b off = Ok (off + length (item x))"
    and walk_0: "walk b 0 off = Ok off"
    and walk_Suc: "walk b (Suc n) off = rbind (step b off) (walk b n)"
begin

lemma walk_items:
  "\<forall>x \<in> set xs. wf x \<Longrightarrow> holds_at b off (concat (map item xs)) \<Longrightarrow> n \<le> length xs \<Longrightarrow>
   walk b n off = Ok (off + length (concat (map item (take n xs))))"
proof (induction xs arbitrary: off n)
  case Nil
  then show ?case by (simp add: walk_0)
next
  case (Cons x xs)
  show ?case
  proof (cases n)
    case (Suc m)
    have "step b off = Ok (off + length (item x))"
      using Cons.prems(1,2) by (intro step_item) (simp_all add: holds_at_append)
    with Cons Suc show ?thesis by (simp add: walk_Suc holds_at_append)
  qed (simp add: walk_0)
qed

lemma item_at_walk:
  assumes "\<forall>x \<in> set xs. wf x" "holds_at b off (concat (map item xs))" "i < length xs"
  shows "\<exists>c. walk b i off = Ok c \<and> holds_at b c (item (xs ! i))"
proof -
  have "concat (map item xs) = concat (map item (take i xs)) @ item (xs ! i) @ concat (map item (drop (Suc i) xs))"
    using id_take_nth_drop [OF assms(3)] by (metis concat.simps(2) concat_append list.simps(9) map_append)
  then show ?thesis
    using walk_items [OF assms(1,2), of i] assms(2,3) by (simp add: holds_at_append)
qed

end

subsection \<open>Words, lists and orders\<close>

lemma word_unat_eqI: "unat a = unat b \<Longrightarrow> a = b"
  by (rule unsigned_word_eqI)

lemma unat_byte_less: "unat (x :: byte) < 256"
  using unsigned_less [of x, where 'a = nat] by simp

lemma sorted_wrt_less_distinct:
  "sorted_wrt (<) (xs :: 'a::linorder list) \<longleftrightarrow> sorted xs \<and> distinct xs"
  by (rule strict_sorted_iff)

lemma sorted_wrt_less_unique:
  fixes xs ys :: "'a::linorder list"
  assumes "sorted_wrt (<) xs" "sorted_wrt (<) ys" "set xs = set ys"
  shows "xs = ys"
  using assms by (metis strict_sorted_equal)

lemma sorted_wrt_map_filter:
  "sorted_wrt P (map f xs) \<Longrightarrow> sorted_wrt P (map f (filter Q xs))"
  by (induction xs) auto

lemma map_of_sorted_filter_None:
  "k \<notin> fst ` set xs \<Longrightarrow> map_of xs k = None"
  by (simp add: map_of_eq_None_iff)

end
