(* ===== verification/Endian.thy ===== *)
theory Endian
  imports Prelude
begin

unbundle bit_operations_syntax

text \<open>
  Model of \<^verbatim>\<open>clean-core/common/endian.hh\<close>: \<^verbatim>\<open>load_bytes_le\<close> and \<^verbatim>\<open>store_bytes_le\<close>, the two
  functions every binary format of the repository is written with.  Both loops run over a 64-bit
  accumulator, byte by byte, as in the source; the width \<open>n\<close> is \<^verbatim>\<open>sizeof(T)\<close>.

  The lemmas reduce both loops to \<open>le_nat\<close> and \<open>le_bytes\<close>, the mathematical value of a
  little-endian byte list and its inverse, and show that a store is read back by a load.
\<close>

primrec load_bits_le :: "bytes \<Rightarrow> nat \<Rightarrow> nat \<Rightarrow> 64 word" where
  "load_bits_le b off 0 = 0"
| "load_bits_le b off (Suc i) = load_bits_le b off i OR push_bit (i * 8) (ucast (b ! (off + i)))"

definition load_bytes_le :: "nat \<Rightarrow> bytes \<Rightarrow> nat \<Rightarrow> ('e, 64 word) result" where
  "load_bytes_le n b off =
     (if off + n \<le> length b then Ok (take_bit (8 * n) (load_bits_le b off n)) else Fault)"

primrec store_bits_le :: "bytes \<Rightarrow> nat \<Rightarrow> nat \<Rightarrow> 64 word \<Rightarrow> bytes" where
  "store_bits_le b off 0 bits = b"
| "store_bits_le b off (Suc i) bits =
     (store_bits_le b off i bits)[off + i := ucast (drop_bit (i * 8) bits AND 0xFF)]"

definition store_bytes_le :: "nat \<Rightarrow> bytes \<Rightarrow> nat \<Rightarrow> 64 word \<Rightarrow> ('e, bytes) result" where
  "store_bytes_le n b off v =
     (if off + n \<le> length b then Ok (store_bits_le b off n v) else Fault)"

text \<open>\<^verbatim>\<open>isize(cc::load_bytes_le<u32>(b, off))\<close>, the read every length prefix goes through.\<close>

definition load_u32 :: "bytes \<Rightarrow> nat \<Rightarrow> ('e, nat) result" where
  "load_u32 b off = rbind (load_bytes_le 4 b off) (\<lambda>w. Ok (unat w))"

subsection \<open>The value of a little-endian byte list\<close>

fun le_nat :: "bytes \<Rightarrow> nat" where
  "le_nat [] = 0"
| "le_nat (x # xs) = unat x + 256 * le_nat xs"

fun le_bytes :: "nat \<Rightarrow> nat \<Rightarrow> bytes" where
  "le_bytes 0 v = []"
| "le_bytes (Suc n) v = word_of_nat (v mod 256) # le_bytes n (v div 256)"

abbreviation u32le :: "nat \<Rightarrow> bytes" where
  "u32le n \<equiv> le_bytes 4 n"

abbreviation u64le :: "nat \<Rightarrow> bytes" where
  "u64le n \<equiv> le_bytes 8 n"

lemma length_le_bytes [simp]: "length (le_bytes n v) = n"
  by (induction n arbitrary: v) auto

lemma le_nat_bound: "le_nat xs < 256 ^ length xs"
proof (induction xs)
  case (Cons x xs)
  have "unat x < 256" by (rule unat_byte_less)
  with Cons show ?case by simp
qed simp

lemma le_nat_le_bytes: "le_nat (le_bytes n v) = v mod 256 ^ n"
proof (induction n arbitrary: v)
  case (Suc n)
  have "unat (word_of_nat (v mod 256) :: byte) = v mod 256"
    by (simp add: unat_of_nat)
  then show ?case
    by (simp add: Suc mod_mult2_eq)
qed simp

lemma le_bytes_le_nat: "length xs = n \<Longrightarrow> le_bytes n (le_nat xs) = xs"
proof (induction xs arbitrary: n)
  case (Cons x xs)
  have "unat x < 256" by (rule unat_byte_less)
  with Cons show ?case by auto
qed simp

lemma le_nat_u32le [simp]: "v < 2 ^ 32 \<Longrightarrow> le_nat (u32le v) = v"
  by (simp add: le_nat_le_bytes)

lemma le_nat_u64le [simp]: "v < 2 ^ 64 \<Longrightarrow> le_nat (u64le v) = v"
  by (simp add: le_nat_le_bytes)

lemma le_bytes_inject: "v < 256 ^ n \<Longrightarrow> w < 256 ^ n \<Longrightarrow> le_bytes n v = le_bytes n w \<longleftrightarrow> v = w"
  by (metis le_nat_le_bytes mod_less)

lemma le_nat_append: "le_nat (xs @ ys) = le_nat xs + 256 ^ length xs * le_nat ys"
  by (induction xs) (auto simp: algebra_simps)

lemma le_nat_less_u32: "length xs = 4 \<Longrightarrow> le_nat xs < 2 ^ 32"
  using le_nat_bound [of xs] by simp

lemma u32le_le_nat [simp]: "length xs = 4 \<Longrightarrow> u32le (le_nat xs) = xs"
  by (rule le_bytes_le_nat)

subsection \<open>The loops compute these values\<close>

lemma or_push_bit_eq_plus:
  assumes "a < (2::nat) ^ k"
  shows "a OR push_bit k c = a + 2 ^ k * c"
proof -
  have "a AND push_bit k c = 0"
    using assms by (auto simp: bit_eq_iff bit_and_iff bit_push_bit_iff bit_take_bit_iff
        dest: take_bit_nat_eq_self [symmetric]) (metis bit_take_bit_iff not_le take_bit_nat_eq_self)
  then have "a + push_bit k c = a OR push_bit k c"
    by (rule disjunctive_add_eq_or)
  then show ?thesis by (simp add: push_bit_eq_mult mult.commute)
qed

lemma unat_load_bits_le:
  assumes "n \<le> 8" "off + n \<le> length b"
  shows "unat (load_bits_le b off n) = le_nat (take n (drop off b))"
  using assms
proof (induction n)
  case (Suc i)
  let ?x = "b ! (off + i)"
  have IH: "unat (load_bits_le b off i) = le_nat (take i (drop off b))"
    using Suc by simp
  have len: "length (take i (drop off b)) = i" using Suc.prems by simp
  have lt: "unat (load_bits_le b off i) < 2 ^ (8 * i)"
    using le_nat_bound [of "take i (drop off b)", unfolded len] by (simp add: IH power_mult)
  have "unat ?x * 2 ^ (8 * i) < 2 ^ 8 * 2 ^ (8 * i)"
    using unsigned_less [of ?x] by simp
  also have "\<dots> = 2 ^ (8 + 8 * i)" by (simp add: power_add)
  also have "\<dots> \<le> (2::nat) ^ 64"
    using Suc.prems by (intro power_increasing) auto
  finally have small: "unat ?x * 2 ^ (8 * i) < 2 ^ 64" .
  have "unat (push_bit (i * 8) (ucast ?x :: 64 word)) = push_bit (8 * i) (unat ?x)"
  proof -
    have "unat (ucast ?x :: 64 word) = unat ?x"
      using unat_byte_less [of ?x] by (simp add: unsigned_ucast_eq take_bit_nat_eq_self)
    then have "unat (push_bit (i * 8) (ucast ?x :: 64 word)) = take_bit 64 (push_bit (8 * i) (unat ?x))"
      by (simp add: unsigned_push_bit_eq mult.commute)
    also have "\<dots> = push_bit (8 * i) (unat ?x)"
      using small by (intro take_bit_nat_eq_self) (simp add: push_bit_eq_mult)
    finally show ?thesis .
  qed
  then have "unat (load_bits_le b off (Suc i)) =
      unat (load_bits_le b off i) OR push_bit (8 * i) (unat ?x)"
    by (simp add: unsigned_or_eq)
  also have "\<dots> = le_nat (take i (drop off b)) + 2 ^ (8 * i) * unat ?x"
    using or_push_bit_eq_plus [OF lt] by (simp add: IH)
  also have "\<dots> = le_nat (take (Suc i) (drop off b))"
    using Suc.prems len by (simp add: take_Suc_conv_app_nth le_nat_append power_mult)
  finally show ?case .
qed simp

lemma load_bytes_le_eq:
  assumes "n \<le> 8"
  shows "load_bytes_le n b off =
    (if off + n \<le> length b then Ok (word_of_nat (le_nat (take n (drop off b)))) else Fault)"
proof (cases "off + n \<le> length b")
  case True
  let ?w = "load_bits_le b off n"
  have u: "unat ?w = le_nat (take n (drop off b))" using assms True by (rule unat_load_bits_le)
  have "unat ?w < 2 ^ (8 * n)"
    using le_nat_bound [of "take n (drop off b)"] True by (simp add: u power_mult)
  then have "take_bit (8 * n) ?w = ?w"
    by (intro word_unat_eqI) (simp add: unsigned_take_bit_eq take_bit_nat_eq_self)
  then show ?thesis using True by (simp add: load_bytes_le_def flip: u)
qed (simp add: load_bytes_le_def)

lemma load_u32_eq:
  "load_u32 b off = (if off + 4 \<le> length b then Ok (le_nat (take 4 (drop off b))) else Fault)"
proof -
  have "le_nat (take 4 (drop off b)) < 2 ^ 64"
    using le_nat_bound [of "take 4 (drop off b)"]
    by (rule less_le_trans) (simp add: power_increasing_iff [of 256 _ 4, simplified]
        order_trans [OF power_increasing [of _ 4 "256::nat"]])
  then show ?thesis
    by (simp add: load_u32_def load_bytes_le_eq unat_of_nat)
qed

lemma load_u32_append [simp]:
  "v < 2 ^ 32 \<Longrightarrow> load_u32 (pre @ u32le v @ post) (length pre) = Ok v"
  by (simp add: load_u32_eq)

lemma load_u32_eq_Ok [result_simps]:
  "load_u32 b off = Ok v \<longleftrightarrow> off + 4 \<le> length b \<and> v = le_nat (take 4 (drop off b))"
  by (auto simp: load_u32_eq)

lemma load_u32_eq_Fault [result_simps]: "load_u32 b off = Fault \<longleftrightarrow> length b < off + 4"
  by (auto simp: load_u32_eq)

lemma load_u32_not_Err [simp]: "load_u32 b off \<noteq> Err e"
  by (simp add: load_u32_eq)

lemma length_store_bits_le [simp]: "length (store_bits_le b off n v) = length b"
  by (induction n) auto

lemma ucast_drop_bit_byte:
  "(ucast (drop_bit (i * 8) v AND 0xFF :: 64 word) :: byte) = word_of_nat (unat v div 256 ^ i)"
proof -
  have "(0xFF :: 64 word) = mask 8" by (simp add: mask_eq_exp_minus_1)
  then have "(ucast (drop_bit (i * 8) v AND 0xFF :: 64 word) :: byte) = ucast (drop_bit (i * 8) v)"
    by (simp add: bit_eq_iff bit_ucast_iff bit_and_iff bit_mask_iff)
  also have "\<dots> = word_of_nat (unat (drop_bit (i * 8) v))"
    by (rule word_unat_eqI) (simp add: unsigned_ucast_eq unat_of_nat take_bit_eq_mod)
  also have "unat (drop_bit (i * 8) v) = unat v div 256 ^ i"
  proof -
    have "unat (drop_bit (i * 8) v) = drop_bit (i * 8) (unat v)"
      by (simp add: unsigned_drop_bit_eq take_bit_nat_eq_self unsigned_less [of v, simplified])
    then show ?thesis by (simp only: drop_bit_eq_div) (simp add: power_mult mult.commute [of i])
  qed
  finally show ?thesis .
qed

lemma le_bytes_snoc: "le_bytes (Suc n) v = le_bytes n v @ [word_of_nat (v div 256 ^ n)]"
proof (induction n arbitrary: v)
  case 0
  have "word_of_nat (v mod 256) = (word_of_nat v :: byte)"
    by (rule word_unat_eqI) (simp add: unat_of_nat)
  then show ?case by simp
next
  case (Suc n)
  have "le_bytes (Suc (Suc n)) v = word_of_nat (v mod 256) # le_bytes (Suc n) (v div 256)" by simp
  also have "\<dots> = word_of_nat (v mod 256) # le_bytes n (v div 256) @ [word_of_nat (v div 256 ^ Suc n)]"
    by (simp only: Suc div_mult2_eq [symmetric] power_Suc)
  finally show ?case by simp
qed

lemma store_bits_le_eq:
  "off + n \<le> length b \<Longrightarrow> store_bits_le b off n v = take off b @ le_bytes n (unat v) @ drop (off + n) b"
proof (induction n)
  case (Suc i)
  then have "drop (off + i) b = b ! (off + i) # drop (Suc (off + i)) b"
    by (simp add: Cons_nth_drop_Suc)
  with Suc show ?case
    by (simp add: ucast_drop_bit_byte le_bytes_snoc list_update_append del: le_bytes.simps)
qed simp

lemma store_bytes_le_eq:
  "store_bytes_le n b off v =
    (if off + n \<le> length b then Ok (take off b @ le_bytes n (unat v) @ drop (off + n) b) else Fault)"
  by (simp add: store_bytes_le_def store_bits_le_eq)

lemma holds_at_load_u32:
  "holds_at b off (u32le v) \<Longrightarrow> v < 2 ^ 32 \<Longrightarrow> load_u32 b off = Ok v"
  by (simp add: holds_at_def load_u32_eq)

lemma load_u32_holds_at:
  "load_u32 b off = Ok v \<Longrightarrow> holds_at b off (u32le v) \<and> v < 2 ^ 32"
proof -
  assume a: "load_u32 b off = Ok v"
  then have v: "off + 4 \<le> length b" "v = le_nat (take 4 (drop off b))"
    by (simp_all add: load_u32_eq_Ok)
  then have "length (take 4 (drop off b)) = 4" by simp
  then have "u32le v = take 4 (drop off b)" "v < 2 ^ 32"
    unfolding v(2) by (rule u32le_le_nat, rule le_nat_less_u32)
  with v(1) show ?thesis by (simp add: holds_at_take_drop)
qed

end
