(* ===== verification/String_View.thy ===== *)
theory String_View
  imports Prelude
begin

text \<open>
  Model of \<^verbatim>\<open>cc::string_view::compare\<close>, the one byte order of the repository: it sorts object
  keys, entity, component and property ids, and through them everything that is hashed.
  The lemmas identify it with the lexicographic order on lists of unsigned bytes, so that
  the library's \<open>sorted\<close>, \<open>sort\<close> and order automation apply to it.
\<close>

fun sv_compare :: "str \<Rightarrow> str \<Rightarrow> int" where
  "sv_compare (x # xs) (y # ys) = (if x \<noteq> y then uint x - uint y else sv_compare xs ys)"
| "sv_compare [] [] = 0"
| "sv_compare [] (y # ys) = -1"
| "sv_compare (x # xs) [] = 1"

text \<open>\<^verbatim>\<open>vdoc::impl::bytes_equal\<close>: equal sizes, then \<^verbatim>\<open>memcmp\<close>.\<close>

fun memcmp_eq :: "bytes \<Rightarrow> bytes \<Rightarrow> nat \<Rightarrow> bool" where
  "memcmp_eq a b 0 = True"
| "memcmp_eq a b (Suc n) = (memcmp_eq a b n \<and> a ! n = b ! n)"

definition bytes_equal :: "bytes \<Rightarrow> bytes \<Rightarrow> bool" where
  "bytes_equal a b = (if length a \<noteq> length b then False else memcmp_eq a b (length a))"

lemma sv_compare_less_iff [simp]: "sv_compare a b < 0 \<longleftrightarrow> a < b"
  by (induction a b rule: sv_compare.induct) (auto simp: word_less_def)

lemma sv_compare_eq_iff [simp]: "sv_compare a b = 0 \<longleftrightarrow> a = b"
  by (induction a b rule: sv_compare.induct) (auto dest: unsigned_word_eqI)

lemma sv_compare_greater_iff [simp]: "0 < sv_compare a b \<longleftrightarrow> b < a"
  by (induction a b rule: sv_compare.induct) (auto simp: word_less_def)

lemma memcmp_eq_iff: "memcmp_eq a b n \<longleftrightarrow> (\<forall>i < n. a ! i = b ! i)"
  by (induction n) (auto simp: less_Suc_eq)

lemma bytes_equal_iff [simp]: "bytes_equal a b \<longleftrightarrow> a = b"
  by (auto simp: bytes_equal_def memcmp_eq_iff intro: nth_equalityI)

lemma Nil_le_str [simp]: "[] \<le> (x :: str)"
  by (cases x) (auto simp: less_imp_le)

end
