(* ===== verification/Value.thy ===== *)
theory Value
  imports Endian String_View
begin

text \<open>
  Model of \<^verbatim>\<open>versioned-document/value.hh\<close> and \<^verbatim>\<open>value.cc\<close>: the canonical binary value codec.
  A value view and an owning value are both the encoded bytes, as in the source; every accessor
  reads those bytes and faults where the source asserts or reads out of bounds.
\<close>

datatype value_kind = Kind_null | Kind_boolean | Kind_integer | Kind_number
  | Kind_string | Kind_bytes | Kind_array | Kind_object

datatype value_decode_error_kind = VE_truncated | VE_unknown_tag | VE_invalid_boolean
  | VE_length_mismatch | VE_count_mismatch | VE_trailing_bytes | VE_unsorted_keys
  | VE_duplicate_key | VE_depth_exceeded

datatype value_decode_error =
  Value_decode_error (vde_kind: value_decode_error_kind) (vde_offset: nat)

type_synonym value_view = bytes
type_synonym owned_value = bytes

fun tag_of_kind :: "value_kind \<Rightarrow> byte" where
  "tag_of_kind Kind_null = 0"
| "tag_of_kind Kind_boolean = 1"
| "tag_of_kind Kind_integer = 2"
| "tag_of_kind Kind_number = 3"
| "tag_of_kind Kind_string = 4"
| "tag_of_kind Kind_bytes = 5"
| "tag_of_kind Kind_array = 6"
| "tag_of_kind Kind_object = 7"

text \<open>The cast \<^verbatim>\<open>value_kind(u8(tag))\<close>; \<open>None\<close> is a value no enumerator has, so that a switch over it falls through.\<close>

definition value_kind_of :: "byte \<Rightarrow> value_kind option" where
  "value_kind_of t =
     (if t = 0 then Some Kind_null else if t = 1 then Some Kind_boolean
      else if t = 2 then Some Kind_integer else if t = 3 then Some Kind_number
      else if t = 4 then Some Kind_string else if t = 5 then Some Kind_bytes
      else if t = 6 then Some Kind_array else if t = 7 then Some Kind_object else None)"

definition max_depth :: nat where "max_depth = 64"

text \<open>\<^verbatim>\<open>payload_offset\<close>, \<^verbatim>\<open>length_prefix_size\<close>, \<^verbatim>\<open>container_count_offset\<close>, \<^verbatim>\<open>container_entries_offset\<close>.\<close>

abbreviation (input) "payload_offset \<equiv> (1::nat)"
abbreviation (input) "length_prefix_size \<equiv> (4::nat)"
abbreviation (input) "container_count_offset \<equiv> (5::nat)"
abbreviation (input) "container_entries_offset \<equiv> (9::nat)"

definition compare_key_bytes :: "str \<Rightarrow> str \<Rightarrow> int" where
  "compare_key_bytes a b = sv_compare a b"

definition chars_at :: "bytes \<Rightarrow> nat \<Rightarrow> nat \<Rightarrow> ('e, str) result" where
  "chars_at b off n = slice b off n"

definition encoded_size_at :: "bytes \<Rightarrow> nat \<Rightarrow> ('e, nat) result" where
  "encoded_size_at b offset =
     rbind (byte_at b offset) (\<lambda>t.
       case value_kind_of t of
         None \<Rightarrow> Fault
       | Some k \<Rightarrow> (case k of
           Kind_null \<Rightarrow> Ok 1
         | Kind_boolean \<Rightarrow> Ok 2
         | Kind_integer \<Rightarrow> Ok (1 + 8)
         | Kind_number \<Rightarrow> Ok (1 + 8)
         | _ \<Rightarrow> rbind (load_u32 b (offset + payload_offset)) (\<lambda>n. Ok (1 + length_prefix_size + n))))"

definition decode_failure :: "value_decode_error_kind \<Rightarrow> nat \<Rightarrow> (value_decode_error, 'a) result" where
  "decode_failure k off = Err (Value_decode_error k off)"

subsection \<open>Validation\<close>

text \<open>The key part of one object entry: its bounds, its order against the previous key, and the offset behind it.\<close>

definition read_entry_key ::
  "bytes \<Rightarrow> nat \<Rightarrow> nat \<Rightarrow> str option \<Rightarrow> (value_decode_error, nat \<times> str option) result" where
  "read_entry_key b stop cursor previous_key =
     (if cursor + length_prefix_size > stop then decode_failure VE_length_mismatch cursor
      else rbind (load_u32 b cursor) (\<lambda>key_size.
        if cursor + length_prefix_size + key_size > stop then decode_failure VE_length_mismatch cursor
        else rbind (chars_at b (cursor + length_prefix_size) key_size) (\<lambda>key.
          (case previous_key of
             None \<Rightarrow> Ok (cursor + length_prefix_size + key_size, Some key)
           | Some prev \<Rightarrow>
               (let order = compare_key_bytes prev key in
                if order = 0 then decode_failure VE_duplicate_key cursor
                else if order > 0 then decode_failure VE_unsorted_keys cursor
                else Ok (cursor + length_prefix_size + key_size, Some key))))))"

function (sequential)
  validate :: "bytes \<Rightarrow> nat \<Rightarrow> nat \<Rightarrow> nat \<Rightarrow> (value_decode_error, nat) result" and
  validate_entries :: "bytes \<Rightarrow> bool \<Rightarrow> nat \<Rightarrow> nat \<Rightarrow> nat \<Rightarrow> nat \<Rightarrow> str option
    \<Rightarrow> (value_decode_error, nat) result"
where
  "validate b offset limit depth =
     (if depth > max_depth then decode_failure VE_depth_exceeded offset
      else if offset \<ge> limit then decode_failure VE_truncated offset
      else rbind (byte_at b offset) (\<lambda>tag.
        if tag > tag_of_kind Kind_object then decode_failure VE_unknown_tag offset
        else (case value_kind_of tag of
          None \<Rightarrow> Fault
        | Some kind \<Rightarrow> (case kind of
            Kind_null \<Rightarrow> Ok (offset + 1)
          | Kind_boolean \<Rightarrow>
              (if offset + 2 > limit then decode_failure VE_truncated (offset + payload_offset)
               else rbind (byte_at b (offset + payload_offset)) (\<lambda>p.
                 if p > 1 then decode_failure VE_invalid_boolean (offset + payload_offset)
                 else Ok (offset + 2)))
          | Kind_integer \<Rightarrow>
              (if offset + 1 + 8 > limit then decode_failure VE_truncated (offset + payload_offset)
               else Ok (offset + 1 + 8))
          | Kind_number \<Rightarrow>
              (if offset + 1 + 8 > limit then decode_failure VE_truncated (offset + payload_offset)
               else Ok (offset + 1 + 8))
          | Kind_string \<Rightarrow>
              (if offset + 1 + length_prefix_size > limit
               then decode_failure VE_truncated (offset + payload_offset)
               else rbind (load_u32 b (offset + payload_offset)) (\<lambda>n.
                 if offset + 1 + length_prefix_size + n > limit
                 then decode_failure VE_length_mismatch (offset + payload_offset)
                 else Ok (offset + 1 + length_prefix_size + n)))
          | Kind_bytes \<Rightarrow>
              (if offset + 1 + length_prefix_size > limit
               then decode_failure VE_truncated (offset + payload_offset)
               else rbind (load_u32 b (offset + payload_offset)) (\<lambda>n.
                 if offset + 1 + length_prefix_size + n > limit
                 then decode_failure VE_length_mismatch (offset + payload_offset)
                 else Ok (offset + 1 + length_prefix_size + n)))
          | _ \<Rightarrow>
              (if offset + 1 + length_prefix_size > limit
               then decode_failure VE_truncated (offset + payload_offset)
               else rbind (load_u32 b (offset + payload_offset)) (\<lambda>payload_size.
                 if payload_size < length_prefix_size
                 then decode_failure VE_length_mismatch (offset + payload_offset)
                 else
                   (let stop = offset + 1 + length_prefix_size + payload_size in
                    if stop > limit
                    then decode_failure VE_length_mismatch (offset + payload_offset)
                    else rbind (load_u32 b (offset + container_count_offset)) (\<lambda>count.
                      rbind (validate_entries b (kind = Kind_object) stop depth count
                               (offset + container_entries_offset) None) (\<lambda>cursor.
                        if cursor \<noteq> stop then decode_failure VE_count_mismatch cursor
                        else Ok stop)))))))))"
| "validate_entries b is_object stop depth 0 cursor previous_key = Ok cursor"
| "validate_entries b is_object stop depth (Suc remaining) cursor previous_key =
     (if cursor \<ge> stop then decode_failure VE_count_mismatch cursor
      else rbind (if is_object then read_entry_key b stop cursor previous_key
                  else Ok (cursor, previous_key)) (\<lambda>(cursor', key).
        rbind (validate b cursor' stop (depth + 1)) (\<lambda>cursor''.
          validate_entries b is_object stop depth remaining cursor'' key)))"
  by pat_completeness auto
termination
  by (relation "measures
       [\<lambda>p. case p of Inl (b, offset, limit, depth) \<Rightarrow>
                       (if depth \<le> max_depth then 2 * (66 - depth) else 0)
                   | Inr (b, is_object, stop, depth, remaining, cursor, key) \<Rightarrow>
                       2 * (65 - depth) + 1,
        \<lambda>p. case p of Inl _ \<Rightarrow> 0
                   | Inr (b, is_object, stop, depth, remaining, cursor, key) \<Rightarrow> remaining]")
    (auto simp: max_depth_def)

declare validate.simps [simp del]

definition try_decode :: "bytes \<Rightarrow> (value_decode_error, value_view) result" where
  "try_decode bs =
     rbind (validate bs 0 (length bs) 1) (\<lambda>stop.
       if stop \<noteq> length bs then decode_failure VE_trailing_bytes stop else Ok bs)"

definition encoded_size :: "bytes \<Rightarrow> ('e, nat) result" where
  "encoded_size bs = rbind (check (bs \<noteq> [])) (\<lambda>_. encoded_size_at bs 0)"

definition skip_value :: "bytes \<Rightarrow> ('e, bytes) result" where
  "skip_value bs = rbind (encoded_size bs) (\<lambda>n.
     rbind (check (n \<le> length bs)) (\<lambda>_. Ok (drop n bs)))"

subsection \<open>Accessors of a validated view\<close>

text \<open>\<^verbatim>\<open>value_view::kind()\<close>; a tag outside the enumeration makes every accessor below fault.\<close>

definition vv_kind :: "value_view \<Rightarrow> ('e, value_kind) result" where
  "vv_kind b = rbind (byte_at b 0) (\<lambda>t. case value_kind_of t of None \<Rightarrow> Fault | Some k \<Rightarrow> Ok k)"

definition is_null :: "value_view \<Rightarrow> ('e, bool) result" where
  "is_null b = rbind (vv_kind b) (\<lambda>k. Ok (k = Kind_null))"

definition as_bool :: "value_view \<Rightarrow> ('e, bool) result" where
  "as_bool b = rbind (vv_kind b) (\<lambda>k. rbind (check (k = Kind_boolean)) (\<lambda>_.
     rbind (byte_at b payload_offset) (\<lambda>p. Ok (p \<noteq> 0))))"

text \<open>An \<^verbatim>\<open>i64\<close> and an \<^verbatim>\<open>f64\<close> are their 64-bit object representation (\<^verbatim>\<open>cc::bit_cast\<close>).\<close>

definition as_i64 :: "value_view \<Rightarrow> ('e, 64 word) result" where
  "as_i64 b = rbind (vv_kind b) (\<lambda>k. rbind (check (k = Kind_integer)) (\<lambda>_.
     load_bytes_le 8 b payload_offset))"

definition as_f64 :: "value_view \<Rightarrow> ('e, 64 word) result" where
  "as_f64 b = rbind (vv_kind b) (\<lambda>k. rbind (check (k = Kind_number)) (\<lambda>_.
     load_bytes_le 8 b payload_offset))"

definition as_string :: "value_view \<Rightarrow> ('e, str) result" where
  "as_string b = rbind (vv_kind b) (\<lambda>k. rbind (check (k = Kind_string)) (\<lambda>_.
     rbind (load_u32 b payload_offset) (\<lambda>n. chars_at b (1 + length_prefix_size) n)))"

definition as_bytes :: "value_view \<Rightarrow> ('e, bytes) result" where
  "as_bytes b = rbind (vv_kind b) (\<lambda>k. rbind (check (k = Kind_bytes)) (\<lambda>_.
     rbind (load_u32 b payload_offset) (\<lambda>n. slice b (1 + length_prefix_size) n)))"

definition vv_size :: "value_view \<Rightarrow> ('e, nat) result" where
  "vv_size b = rbind (vv_kind b) (\<lambda>k.
     if k \<noteq> Kind_array \<and> k \<noteq> Kind_object then Ok 0 else load_u32 b container_count_offset)"

text \<open>The two steps of the entry walk: past an object's key, and past \<open>n\<close> whole entries.\<close>

definition skip_key :: "value_view \<Rightarrow> bool \<Rightarrow> nat \<Rightarrow> ('e, nat) result" where
  "skip_key b is_object cursor =
     (if is_object then rbind (load_u32 b cursor) (\<lambda>n. Ok (cursor + (length_prefix_size + n)))
      else Ok cursor)"

primrec walk_entries :: "value_view \<Rightarrow> bool \<Rightarrow> nat \<Rightarrow> nat \<Rightarrow> ('e, nat) result" where
  "walk_entries b is_object 0 cursor = Ok cursor"
| "walk_entries b is_object (Suc n) cursor =
     rbind (skip_key b is_object cursor) (\<lambda>c.
       rbind (encoded_size_at b c) (\<lambda>sz. walk_entries b is_object n (c + sz)))"

definition element_at :: "value_view \<Rightarrow> nat \<Rightarrow> ('e, value_view) result" where
  "element_at b i =
     rbind (vv_kind b) (\<lambda>k.
     rbind (check (k = Kind_array \<or> k = Kind_object)) (\<lambda>_.
     rbind (vv_size b) (\<lambda>n.
     rbind (check (i < n)) (\<lambda>_.
     rbind (walk_entries b (k = Kind_object) i container_entries_offset) (\<lambda>c.
     rbind (skip_key b (k = Kind_object) c) (\<lambda>cursor.
     rbind (encoded_size_at b cursor) (\<lambda>sz. slice b cursor sz)))))))"

definition key_at :: "value_view \<Rightarrow> nat \<Rightarrow> ('e, str) result" where
  "key_at b i =
     rbind (vv_kind b) (\<lambda>k.
     rbind (check (k = Kind_object)) (\<lambda>_.
     rbind (vv_size b) (\<lambda>n.
     rbind (check (i < n)) (\<lambda>_.
     rbind (walk_entries b True i container_entries_offset) (\<lambda>cursor.
     rbind (load_u32 b cursor) (\<lambda>sz. chars_at b (cursor + length_prefix_size) sz))))))"

primrec find_entry :: "value_view \<Rightarrow> str \<Rightarrow> nat \<Rightarrow> nat \<Rightarrow> ('e, value_view option) result" where
  "find_entry b key 0 cursor = Ok None"
| "find_entry b key (Suc n) cursor =
     rbind (load_u32 b cursor) (\<lambda>key_size.
     rbind (chars_at b (cursor + length_prefix_size) key_size) (\<lambda>entry_key.
       (let c = cursor + (length_prefix_size + key_size);
            order = compare_key_bytes entry_key key in
        if order = 0 then
          rbind (encoded_size_at b c) (\<lambda>sz. rbind (slice b c sz) (\<lambda>v. Ok (Some v)))
        else if order > 0 then Ok None
        else rbind (encoded_size_at b c) (\<lambda>sz. find_entry b key n (c + sz)))))"

definition try_find :: "value_view \<Rightarrow> str \<Rightarrow> ('e, value_view option) result" where
  "try_find b key =
     rbind (vv_kind b) (\<lambda>k.
       if k \<noteq> Kind_object then Ok None
       else rbind (vv_size b) (\<lambda>count. find_entry b key count container_entries_offset))"

subsection \<open>Owning values\<close>

text \<open>
  \<^verbatim>\<open>make_uninitialized\<close> hands out storage with undefined contents, here zeros; every factory writes
  every byte of it, as the encoding lemmas below show.
\<close>

definition make_uninitialized :: "nat \<Rightarrow> bytes" where
  "make_uninitialized n = replicate n 0"

definition of_null :: owned_value where
  "of_null = [tag_of_kind Kind_null]"

definition of_bool :: "bool \<Rightarrow> ('e, owned_value) result" where
  "of_bool v = rbind (put_byte (make_uninitialized 2) 0 (tag_of_kind Kind_boolean)) (\<lambda>b.
     put_byte b payload_offset (if v then 1 else 0))"

definition of_i64 :: "64 word \<Rightarrow> ('e, owned_value) result" where
  "of_i64 v = rbind (put_byte (make_uninitialized (1 + 8)) 0 (tag_of_kind Kind_integer)) (\<lambda>b.
     store_bytes_le 8 b payload_offset v)"

definition of_f64 :: "64 word \<Rightarrow> ('e, owned_value) result" where
  "of_f64 v = rbind (put_byte (make_uninitialized (1 + 8)) 0 (tag_of_kind Kind_number)) (\<lambda>b.
     store_bytes_le 8 b payload_offset v)"

definition of_string :: "str \<Rightarrow> ('e, owned_value) result" where
  "of_string v =
     rbind (check (length v \<le> 0xFFFFFFFF)) (\<lambda>_.
     rbind (put_byte (make_uninitialized (1 + length_prefix_size + length v)) 0 (tag_of_kind Kind_string)) (\<lambda>b.
     rbind (store_bytes_le 4 b payload_offset (word_of_nat (length v))) (\<lambda>b.
       if length v > 0 then memcpy_at b (1 + length_prefix_size) v else Ok b)))"

definition of_bytes :: "bytes \<Rightarrow> ('e, owned_value) result" where
  "of_bytes v =
     rbind (check (length v \<le> 0xFFFFFFFF)) (\<lambda>_.
     rbind (put_byte (make_uninitialized (1 + length_prefix_size + length v)) 0 (tag_of_kind Kind_bytes)) (\<lambda>b.
     rbind (store_bytes_le 4 b payload_offset (word_of_nat (length v))) (\<lambda>b.
       if length v > 0 then memcpy_at b (1 + length_prefix_size) v else Ok b)))"

definition from_validated_bytes :: "bytes \<Rightarrow> ('e, owned_value) result" where
  "from_validated_bytes bs =
     rbind (check (bs \<noteq> [])) (\<lambda>_. memcpy_at (make_uninitialized (length bs)) 0 bs)"

subsection \<open>What the factories build\<close>

lemma length_make_uninitialized [simp]: "length (make_uninitialized n) = n"
  by (simp add: make_uninitialized_def)

lemma of_bool_eq [codec_simps]: "of_bool v = Ok [1, if v then 1 else 0]"
  by (simp add: of_bool_def put_byte_def make_uninitialized_def numeral_2_eq_2)

lemma take_tagged_storage:
  "0 < n \<Longrightarrow> take (Suc 0) ((make_uninitialized n)[0 := t]) = [t]"
  by (cases n) (auto simp: make_uninitialized_def)

lemma of_i64_eq [codec_simps]: "of_i64 v = Ok (2 # u64le (unat v))"
  by (simp add: of_i64_def put_byte_def take_tagged_storage store_bytes_le_eq)

lemma of_f64_eq [codec_simps]: "of_f64 v = Ok (3 # u64le (unat v))"
  by (simp add: of_f64_def put_byte_def take_tagged_storage store_bytes_le_eq)

lemma unat_word_of_nat_u32: "n \<le> 0xFFFFFFFF \<Longrightarrow> unat (word_of_nat n :: 64 word) = n"
  by (simp add: unat_of_nat)

lemma of_string_eq [codec_simps]:
  "of_string v = (if length v < 2 ^ 32 then Ok (4 # u32le (length v) @ v) else Fault)"
  by (simp add: of_string_def put_byte_def take_tagged_storage store_bytes_le_eq memcpy_at_def
      check_def unat_word_of_nat_u32 less_Suc_eq_le [symmetric])

lemma of_bytes_eq [codec_simps]:
  "of_bytes v = (if length v < 2 ^ 32 then Ok (5 # u32le (length v) @ v) else Fault)"
  by (simp add: of_bytes_def put_byte_def take_tagged_storage store_bytes_le_eq memcpy_at_def
      check_def unat_word_of_nat_u32 less_Suc_eq_le [symmetric])

lemma from_validated_bytes_eq [codec_simps]:
  "from_validated_bytes bs = (if bs = [] then Fault else Ok bs)"
  by (simp add: from_validated_bytes_def memcpy_at_def check_def)

end
