(* ===== verification/Value_Canonical.thy ===== *)
theory Value_Canonical
  imports Value
begin

text \<open>
  The abstract specification of the value codec, and the proof that the decoder of
  \<^verbatim>\<open>value.cc\<close> implements it.

  \<open>val\<close> is what a value means; \<open>enc\<close> is its encoding; \<open>canonical\<close> says that every length fits its
  \<^verbatim>\<open>u32\<close> prefix and that object keys strictly ascend.  The decoder accepts a byte sequence exactly
  when it is the encoding of a canonical value nested at most \<open>max_depth\<close> levels deep, it never
  reads outside the buffer or trips an assertion, and no two values share an encoding.
\<close>

datatype val = VNull | VBool bool | VInt "64 word" | VNum "64 word" | VStr str | VBytes bytes
  | VArr "val list" | VObj "(str \<times> val) list"

text \<open>The body of a container and its framing: \<^verbatim>\<open>tag | u32 payload length | u32 count | entries\<close>.\<close>

definition enc_container :: "value_kind \<Rightarrow> nat \<Rightarrow> bytes \<Rightarrow> bytes" where
  "enc_container k n body = tag_of_kind k # u32le (4 + length body) @ u32le n @ body"

fun enc :: "val \<Rightarrow> bytes" where
  "enc VNull = [0]"
| "enc (VBool x) = [1, if x then 1 else 0]"
| "enc (VInt w) = 2 # u64le (unat w)"
| "enc (VNum w) = 3 # u64le (unat w)"
| "enc (VStr s) = 4 # u32le (length s) @ s"
| "enc (VBytes s) = 5 # u32le (length s) @ s"
| "enc (VArr vs) = enc_container Kind_array (length vs) (concat (map enc vs))"
| "enc (VObj kvs) = enc_container Kind_object (length kvs)
     (concat (map (\<lambda>(k, v). u32le (length k) @ k @ enc v) kvs))"

fun vdepth :: "val \<Rightarrow> nat" where
  "vdepth (VArr vs) = Suc (Max (insert 0 (set (map vdepth vs))))"
| "vdepth (VObj kvs) = Suc (Max (insert 0 (set (map (\<lambda>(k, v). vdepth v) kvs))))"
| "vdepth _ = 1"

text \<open>One entry as the container stores it; an array entry has no key part.\<close>

definition enc_entry :: "bool \<Rightarrow> str \<times> val \<Rightarrow> bytes" where
  "enc_entry is_object kv = (if is_object then u32le (length (fst kv)) @ fst kv else []) @ enc (snd kv)"

definition enc_entries :: "bool \<Rightarrow> (str \<times> val) list \<Rightarrow> bytes" where
  "enc_entries is_object kvs = concat (map (enc_entry is_object) kvs)"

fun canonical :: "val \<Rightarrow> bool" where
  "canonical (VStr s) = (length s < 2 ^ 32)"
| "canonical (VBytes s) = (length s < 2 ^ 32)"
| "canonical (VArr vs) = ((\<forall>v \<in> set vs. canonical v) \<and> 4 + length (concat (map enc vs)) < 2 ^ 32)"
| "canonical (VObj kvs) = ((\<forall>(k, v) \<in> set kvs. canonical v) \<and> sorted_wrt (<) (map fst kvs) \<and>
     4 + length (concat (map (\<lambda>(k, v). u32le (length k) @ k @ enc v) kvs)) < 2 ^ 32)"
| "canonical _ = True"

lemma enc_entries_array: "enc_entries False (map (Pair []) vs) = concat (map enc vs)"
  by (simp add: enc_entries_def enc_entry_def comp_def)

lemma enc_entries_object:
  "enc_entries True kvs = concat (map (\<lambda>(k, v). u32le (length k) @ k @ enc v) kvs)"
  by (auto simp: enc_entries_def enc_entry_def intro!: arg_cong [of _ _ concat] map_cong)

lemma enc_entries_Cons [simp]:
  "enc_entries obj (kv # kvs) = enc_entry obj kv @ enc_entries obj kvs"
  by (simp add: enc_entries_def)

lemma enc_entries_Nil [simp]: "enc_entries obj [] = []"
  by (simp add: enc_entries_def)

lemma enc_not_Nil [simp]: "enc v \<noteq> []"
  by (cases v) (simp_all add: enc_container_def)

lemma length_enc_pos: "0 < length (enc v)"
  by simp

lemma vdepth_pos: "0 < vdepth v"
  by (cases v) auto

lemma vdepth_arr_le: "vdepth (VArr vs) \<le> n \<longleftrightarrow> 0 < n \<and> (\<forall>v \<in> set vs. vdepth v < n)"
  by (cases n) (auto simp: less_Suc_eq_le)

lemma vdepth_obj_le: "vdepth (VObj kvs) \<le> n \<longleftrightarrow> 0 < n \<and> (\<forall>(k, v) \<in> set kvs. vdepth v < n)"
  by (cases n) (auto simp: less_Suc_eq_le)

declare vdepth.simps(1,2) [simp del]


subsection \<open>The decoder never faults\<close>

lemma decode_failure_simps [simp]:
  "decode_failure k off \<noteq> Fault" "decode_failure k off \<noteq> Ok x"
  "decode_failure k off = Err e \<longleftrightarrow> e = Value_decode_error k off"
  by (auto simp: decode_failure_def)

lemma value_kind_of_tag [simp]: "value_kind_of (tag_of_kind k) = Some k"
  by (cases k) (simp_all add: value_kind_of_def)

lemma value_kind_of_eq_Some: "value_kind_of t = Some k \<longleftrightarrow> t = tag_of_kind k"
  by (cases k) (auto simp: value_kind_of_def)

lemma value_kind_of_None: "value_kind_of t = None \<longleftrightarrow> 7 < t"
proof -
  have "unat t \<le> 7 \<longleftrightarrow> unat t \<in> {0, 1, 2, 3, 4, 5, 6, 7}" by auto
  then have "t \<le> 7 \<longleftrightarrow> t \<in> {0, 1, 2, 3, 4, 5, 6, 7}"
    by (auto simp: word_le_nat_alt intro: word_unat_eqI)
  then show ?thesis by (auto simp: value_kind_of_def not_less [symmetric])
qed

lemma tag_of_kind_le: "tag_of_kind k \<le> 7"
  by (cases k) simp_all

lemma read_entry_key_no_Fault: "stop \<le> length b \<Longrightarrow> read_entry_key b stop cursor prev \<noteq> Fault"
  by (auto simp: read_entry_key_def chars_at_def Let_def result_simps split: option.splits if_splits)

lemma read_entry_key_Ok:
  assumes "read_entry_key b stop cursor prev = Ok (c, k)" "stop \<le> length b"
  shows "\<exists>key. k = Some key \<and> (\<forall>p. prev = Some p \<longrightarrow> p < key) \<and> length key < 2 ^ 32 \<and>
     holds_at b cursor (u32le (length key) @ key) \<and> c = cursor + 4 + length key \<and> c \<le> stop"
proof -
  from assms(1) obtain n key where n: "load_u32 b cursor = (Ok n :: (value_decode_error, nat) result)"
    and key: "chars_at b (cursor + 4) n = (Ok key :: (value_decode_error, str) result)"
    and c: "c = cursor + 4 + n" "c \<le> stop" and k: "k = Some key"
    and prev: "\<forall>p. prev = Some p \<longrightarrow> p < key"
    by (cases prev) (auto simp: read_entry_key_def rbind_eq_Ok compare_key_bytes_def Let_def not_less
        split: if_splits intro: le_neq_trans)
  have len: "length key = n" using key by (auto simp: chars_at_def slice_eq_Ok)
  have "holds_at b (cursor + 4) key"
    using key by (auto simp: chars_at_def slice_eq_Ok holds_at_take_drop)
  then show ?thesis
    using load_u32_holds_at [OF n] c k prev len by (auto simp: holds_at_append)
qed

lemma validate_no_Fault:
  shows "limit \<le> length b \<Longrightarrow> validate b offset limit depth \<noteq> Fault"
    and "stop \<le> length b \<Longrightarrow> validate_entries b is_object stop depth n cursor prev \<noteq> Fault"
proof (induction b offset limit depth and b is_object stop depth n cursor prev
    rule: validate_validate_entries.induct)
  case (1 b offset limit depth)
  then show ?case
    by (subst validate.simps)
      (auto simp: result_simps Let_def value_kind_of_None split: if_splits option.splits value_kind.splits)
next
  case (3 b is_object stop depth remaining cursor prev)
  then show ?case
    by (auto simp: result_simps read_entry_key_no_Fault split: if_splits)
qed simp

subsection \<open>The decoder accepts exactly the canonical encodings\<close>

text \<open>What the branch of the switch for one kind demands in order to accept up to offset \<open>e\<close>.\<close>

definition accepts :: "bytes \<Rightarrow> nat \<Rightarrow> nat \<Rightarrow> nat \<Rightarrow> value_kind \<Rightarrow> nat \<Rightarrow> bool" where
  "accepts b off lim d k e = (case k of
     Kind_null \<Rightarrow> e = off + 1
   | Kind_boolean \<Rightarrow> e = off + 2 \<and> e \<le> lim \<and> off + 1 < length b \<and> b ! (off + 1) \<le> 1
   | Kind_integer \<Rightarrow> e = off + 9 \<and> e \<le> lim
   | Kind_number \<Rightarrow> e = off + 9 \<and> e \<le> lim
   | Kind_string \<Rightarrow> (\<exists>n. load_u32 b (off + 1) = (Ok n :: (value_decode_error, nat) result) \<and> e = off + 5 + n \<and> e \<le> lim)
   | Kind_bytes \<Rightarrow> (\<exists>n. load_u32 b (off + 1) = (Ok n :: (value_decode_error, nat) result) \<and> e = off + 5 + n \<and> e \<le> lim)
   | _ \<Rightarrow> (\<exists>n c. load_u32 b (off + 1) = (Ok n :: (value_decode_error, nat) result) \<and> 4 \<le> n \<and> e = off + 5 + n \<and> e \<le> lim \<and>
            load_u32 b (off + 5) = (Ok c :: (value_decode_error, nat) result) \<and>
            validate_entries b (k = Kind_object) e d c (off + 9) None = Ok e))"

lemma validate_eq_Ok:
  "validate b off lim d = Ok e \<longleftrightarrow> d \<le> max_depth \<and> off < lim \<and> off < length b \<and>
     (\<exists>k. b ! off = tag_of_kind k \<and> accepts b off lim d k e)" (is "?l \<longleftrightarrow> ?r")
proof (cases "value_kind_of (b ! off)")
  case None
  then have "7 < b ! off" by (simp add: value_kind_of_None)
  then show ?thesis
    using tag_of_kind_le by (subst validate.simps) (auto simp: rbind_eq_Ok byte_at_eq_Ok not_less [symmetric])
next
  case (Some k)
  then have t: "b ! off = tag_of_kind k" by (simp add: value_kind_of_eq_Some)
  have "tag_of_kind k = tag_of_kind k' \<longleftrightarrow> k' = k" for k' by (cases k; cases k'; simp)
  then have ex: "(\<exists>k. b ! off = tag_of_kind k \<and> accepts b off lim d k e) \<longleftrightarrow> accepts b off lim d k e"
    by (auto simp: t)
  have nl: "\<not> b ! off > tag_of_kind Kind_object" using tag_of_kind_le [of k] t by simp
  show ?thesis
    unfolding ex
    by (subst validate.simps, cases k)
      (auto simp: rbind_eq_Ok byte_at_eq_Ok Let_def Some nl accepts_def add.commute [of _ off] add.assoc
        not_less simp del: tag_of_kind.simps)
qed

text \<open>The keys of an entry list against the key before it, as the entry loop threads it through.\<close>

definition keys_ok :: "bool \<Rightarrow> str option \<Rightarrow> (str \<times> val) list \<Rightarrow> bool" where
  "keys_ok obj prev kvs =
     (if obj then sorted_wrt (<) ((case prev of None \<Rightarrow> [] | Some p \<Rightarrow> [p]) @ map fst kvs)
      else \<forall>kv \<in> set kvs. fst kv = [])"

lemma keys_ok_Nil: "keys_ok obj prev []"
  by (simp add: keys_ok_def split: option.splits)

lemma keys_ok_array_Cons: "keys_ok False prev (([], v) # kvs) \<longleftrightarrow> keys_ok False prev' kvs"
  by (simp add: keys_ok_def)

lemma keys_ok_object_Cons:
  "keys_ok True prev ((k, v) # kvs) \<longleftrightarrow> (\<forall>p. prev = Some p \<longrightarrow> p < k) \<and> keys_ok True (Some k) kvs"
  by (auto simp: keys_ok_def split: option.splits)

definition encodes :: "bytes \<Rightarrow> nat \<Rightarrow> nat \<Rightarrow> val \<Rightarrow> bool" where
  "encodes b off d v \<longleftrightarrow> canonical v \<and> vdepth v + d \<le> Suc max_depth \<and> holds_at b off (enc v)"

lemma holds_at_u64: "off + 8 \<le> length b \<Longrightarrow> \<exists>w :: 64 word. holds_at b off (u64le (unat w))"
proof -
  assume "off + 8 \<le> length b"
  then have h: "holds_at b off (take 8 (drop off b))" and l: "length (take 8 (drop off b)) = 8"
    by (simp_all add: holds_at_take_drop)
  let ?n = "le_nat (take 8 (drop off b))"
  have "?n < 2 ^ 64" using le_nat_bound [of "take 8 (drop off b)", unfolded l] by simp
  then have "unat (word_of_nat ?n :: 64 word) = ?n" by (simp add: unat_of_nat)
  then have "u64le (unat (word_of_nat ?n :: 64 word)) = take 8 (drop off b)"
    using le_bytes_le_nat [OF l] by simp
  with h show ?thesis by metis
qed

lemma encodes_scalar:
  assumes "accepts b off lim d k e" "k \<noteq> Kind_array" "k \<noteq> Kind_object" "d \<le> max_depth"
    "off < length b" "b ! off = tag_of_kind k" "lim \<le> length b" "off < lim"
  shows "\<exists>v. encodes b off d v \<and> e = off + length (enc v) \<and> e \<le> lim"
proof (cases k)
  case Kind_null
  with assms show ?thesis
    by (intro exI [of _ VNull]) (simp add: encodes_def accepts_def holds_at_simps)
next
  case Kind_boolean
  with assms have p: "b ! Suc off \<le> 1" "Suc off < length b" by (simp_all add: accepts_def)
  then have "b ! Suc off = 0 \<or> b ! Suc off = 1"
    by (metis le_less word_less_1)
  with assms Kind_boolean show ?thesis
    by (intro exI [of _ "VBool (b ! Suc off = 1)"]) (auto simp: encodes_def accepts_def holds_at_simps)
next
  case Kind_integer
  with assms have "Suc off + 8 \<le> length b" by (simp add: accepts_def)
  then obtain w where "holds_at b (Suc off) (u64le (unat (w :: 64 word)))" using holds_at_u64 by blast
  with assms Kind_integer show ?thesis
    by (intro exI [of _ "VInt w"]) (simp add: encodes_def accepts_def holds_at_Cons)
next
  case Kind_number
  with assms have "Suc off + 8 \<le> length b" by (simp add: accepts_def)
  then obtain w where "holds_at b (Suc off) (u64le (unat (w :: 64 word)))" using holds_at_u64 by blast
  with assms Kind_number show ?thesis
    by (intro exI [of _ "VNum w"]) (simp add: encodes_def accepts_def holds_at_Cons)
next
  case Kind_string
  with assms obtain n where n: "load_u32 b (off + 1) = (Ok n :: (value_decode_error, nat) result)"
    "e = off + 5 + n" "e \<le> lim" by (auto simp: accepts_def)
  let ?s = "take n (drop (off + 5) b)"
  have "length ?s = n" "holds_at b (off + 5) ?s" using n assms by (simp_all add: holds_at_take_drop)
  with assms n load_u32_holds_at [OF n(1)] Kind_string show ?thesis
    by (intro exI [of _ "VStr ?s"]) (simp add: encodes_def holds_at_simps add.commute [of _ off])
next
  case Kind_bytes
  with assms obtain n where n: "load_u32 b (off + 1) = (Ok n :: (value_decode_error, nat) result)"
    "e = off + 5 + n" "e \<le> lim" by (auto simp: accepts_def)
  let ?s = "take n (drop (off + 5) b)"
  have "length ?s = n" "holds_at b (off + 5) ?s" using n assms by (simp_all add: holds_at_take_drop)
  with assms n load_u32_holds_at [OF n(1)] Kind_bytes show ?thesis
    by (intro exI [of _ "VBytes ?s"]) (simp add: encodes_def holds_at_simps add.commute [of _ off])
qed (use assms in simp_all)

definition encodes_entries ::
  "bytes \<Rightarrow> bool \<Rightarrow> nat \<Rightarrow> nat \<Rightarrow> str option \<Rightarrow> (str \<times> val) list \<Rightarrow> bool" where
  "encodes_entries b obj cursor d prev kvs \<longleftrightarrow>
     (\<forall>(k, v) \<in> set kvs. canonical v \<and> vdepth v + Suc d \<le> Suc max_depth) \<and>
     keys_ok obj prev kvs \<and> holds_at b cursor (enc_entries obj kvs)"

lemma encodes_container:
  assumes "encodes_entries b (k = Kind_object) (off + 9) d None kvs" "k = Kind_array \<or> k = Kind_object"
    and "load_u32 b (off + 1) = (Ok n :: (value_decode_error, nat) result)"
    and "load_u32 b (off + 5) = (Ok (length kvs) :: (value_decode_error, nat) result)"
    and "n = 4 + length (enc_entries (k = Kind_object) kvs)" "d \<le> max_depth"
    and "off < length b" "b ! off = tag_of_kind k"
  shows "\<exists>v. encodes b off d v \<and> length (enc v) = 5 + n"
proof -
  note h = load_u32_holds_at [OF assms(3)] load_u32_holds_at [OF assms(4)]
  show ?thesis
  proof (cases "k = Kind_object")
    case True
    with assms h show ?thesis
      by (intro exI [of _ "VObj kvs"])
        (auto simp: encodes_def encodes_entries_def keys_ok_def enc_container_def holds_at_simps add.commute [of _ off]
          enc_entries_object vdepth_obj_le [of _ "Suc max_depth - d"] le_diff_conv2 [symmetric])
  next
    case False
    let ?vs = "map snd kvs"
    from False assms have "\<forall>kv \<in> set kvs. fst kv = []"
      by (simp add: encodes_entries_def keys_ok_def)
    then have kvs: "kvs = map (Pair []) ?vs" by (induction kvs) auto
    have "concat (map enc ?vs) = enc_entries False kvs"
      by (subst (2) kvs) (simp only: enc_entries_array)
    with False assms h show ?thesis
      by (intro exI [of _ "VArr ?vs"])
        (auto simp: encodes_def encodes_entries_def enc_container_def holds_at_simps add.commute [of _ off]
          vdepth_arr_le [of _ "Suc max_depth - d"] le_diff_conv2 [symmetric])
  qed
qed

lemma validate_sound:
  shows "validate b off lim d = Ok e \<Longrightarrow> lim \<le> length b \<Longrightarrow>
      \<exists>v. encodes b off d v \<and> e = off + length (enc v) \<and> e \<le> lim"
    and "validate_entries b obj stop d n cursor prev = Ok c \<Longrightarrow> stop \<le> length b \<Longrightarrow> cursor \<le> stop \<Longrightarrow>
      \<exists>kvs. length kvs = n \<and> encodes_entries b obj cursor d prev kvs \<and>
        c = cursor + length (enc_entries obj kvs) \<and> c \<le> stop"
proof (induction b off lim d and b obj stop d n cursor prev
    arbitrary: e and c rule: validate_validate_entries.induct)
  case (1 b off lim d)
  from "1.prems"(1) obtain k where k: "d \<le> max_depth" "off < lim" "off < length b"
    "b ! off = tag_of_kind k" "accepts b off lim d k e"
    by (auto simp: validate_eq_Ok)
  show ?case
  proof (cases "k = Kind_array \<or> k = Kind_object")
    case True
    with k(5) obtain n c where n: "load_u32 b (off + 1) = (Ok n :: (value_decode_error, nat) result)"
      and c: "load_u32 b (off + 5) = (Ok c :: (value_decode_error, nat) result)"
      and e: "4 \<le> n" "e = off + 5 + n" "e \<le> lim"
      and loop: "validate_entries b (k = Kind_object) e d c (off + 9) None = Ok e"
      by (auto simp: accepts_def)
    have e': "e = off + 1 + 4 + n" using e by simp
    have kind: "value_kind_of (b ! off) = Some k" by (simp add: k(4))
    have ex: "\<exists>kvs. length kvs = c \<and> encodes_entries b (k = Kind_object) (off + 9) d None kvs \<and>
        e = off + 9 + length (enc_entries (k = Kind_object) kvs) \<and> e \<le> e"
    proof (cases "k = Kind_array")
      case True
      show ?thesis
        by (rule "1.IH"(1) [of "b ! off" k n e c])
          (use k n c e e' loop kind True "1.prems"(2) in \<open>auto simp: byte_at_eq_Ok\<close>)
    next
      case False
      with \<open>k = Kind_array \<or> k = Kind_object\<close> have "k = Kind_object" by simp
      show ?thesis
        by (rule "1.IH"(2) [of "b ! off" k n e c])
          (use k n c e e' loop kind \<open>k = Kind_object\<close> "1.prems"(2) in \<open>auto simp: byte_at_eq_Ok\<close>)
    qed
    then obtain kvs where kvs: "length kvs = c" "encodes_entries b (k = Kind_object) (off + 9) d None kvs"
      "e = off + 9 + length (enc_entries (k = Kind_object) kvs)" by blast
    have "n = 4 + length (enc_entries (k = Kind_object) kvs)" using kvs(3) e by simp
    from encodes_container [OF kvs(2) True n c [folded kvs(1)] this k(1,3,4)] e show ?thesis by auto
  next
    case False
    then show ?thesis using encodes_scalar [OF k(5) _ _ k(1,3,4) "1.prems"(2) k(2)] by simp
  qed
next
  case (2 b obj stop d cursor prev)
  then show ?case by (auto simp: encodes_entries_def keys_ok_Nil holds_at_Nil)
next
  case (3 b obj stop d remaining cursor prev)
  from "3.prems"(1) obtain c1 key c2 where lt: "cursor < stop"
    and key: "(if obj then read_entry_key b stop cursor prev else Ok (cursor, prev)) = Ok (c1, key)"
    and v: "validate b c1 stop (d + 1) = Ok c2"
    and rest: "validate_entries b obj stop d remaining c2 key = Ok c"
    by (auto simp: rbind_eq_Ok split: if_splits)
  have nle: "\<not> stop \<le> cursor" using lt by simp
  obtain v where v': "encodes b c1 (Suc d) v" "c2 = c1 + length (enc v)" "c2 \<le> stop"
    using "3.IH"(1) [OF nle key refl v "3.prems"(2)] by auto
  obtain kvs where kvs: "length kvs = remaining" "encodes_entries b obj c2 d key kvs"
    "c = c2 + length (enc_entries obj kvs)" "c \<le> stop"
    using "3.IH"(2) [OF nle key refl v rest "3.prems"(2) v'(3)] by blast
  show ?case
  proof (cases obj)
    case True
    with key have "read_entry_key b stop cursor prev = Ok (c1, key)" by simp
    from read_entry_key_Ok [OF this "3.prems"(2)] obtain s where s: "key = Some s"
      "\<forall>p. prev = Some p \<longrightarrow> p < s" "length s < 2 ^ 32"
      "holds_at b cursor (u32le (length s) @ s)" "c1 = cursor + 4 + length s" by blast
    show ?thesis
      by (intro exI [of _ "(s, v) # kvs"])
        (use True v' kvs s in \<open>auto simp: encodes_def encodes_entries_def keys_ok_object_Cons enc_entry_def
          holds_at_append add.assoc\<close>)
  next
    case False
    with key have "c1 = cursor" by simp
    with False v' kvs show ?thesis
      by (intro exI [of _ "([], v) # kvs"])
        (auto simp: encodes_def encodes_entries_def keys_ok_array_Cons [of prev v kvs key] enc_entry_def
          holds_at_append)
  qed
qed

lemma read_entry_key_enc:
  assumes "holds_at b cursor (u32le (length key) @ key)" "length key < 2 ^ 32"
    "cursor + 4 + length key \<le> stop" "\<forall>p. prev = Some p \<longrightarrow> p < key"
  shows "read_entry_key b stop cursor prev = Ok (cursor + (4 + length key), Some key)"
  using assms
  by (auto simp: read_entry_key_def holds_at_append holds_at_load_u32 chars_at_def holds_at_slice
      compare_key_bytes_def Let_def not_less [symmetric] add.assoc split: option.splits)

lemma enc_beyond: "off < off + length (enc v)"
  by simp

lemma validate_scalar_complete:
  assumes "canonical v" "d \<le> max_depth" "holds_at b off (enc v)" "off + length (enc v) \<le> lim"
    "\<And>vs. v \<noteq> VArr vs" "\<And>kvs. v \<noteq> VObj kvs"
  shows "validate b off lim d = Ok (off + length (enc v))"
proof -
  have "\<exists>k. b ! off = tag_of_kind k \<and> accepts b off lim d k (off + length (enc v))"
  proof (cases v)
    case VNull
    with assms show ?thesis by (intro exI [of _ Kind_null]) (simp add: accepts_def holds_at_simps)
  next
    case (VBool x)
    with assms show ?thesis
      by (intro exI [of _ Kind_boolean]) (auto simp: accepts_def holds_at_simps split: if_splits)
  next
    case (VInt w)
    with assms show ?thesis by (intro exI [of _ Kind_integer]) (simp add: accepts_def holds_at_simps)
  next
    case (VNum w)
    with assms show ?thesis by (intro exI [of _ Kind_number]) (simp add: accepts_def holds_at_simps)
  next
    case (VStr s)
    with assms show ?thesis
      by (intro exI [of _ Kind_string]) (simp add: accepts_def holds_at_simps holds_at_load_u32)
  next
    case (VBytes s)
    with assms show ?thesis
      by (intro exI [of _ Kind_bytes]) (simp add: accepts_def holds_at_simps holds_at_load_u32)
  qed (use assms in auto)
  then show ?thesis
    using assms(2) less_le_trans [OF enc_beyond assms(4)] less_le_trans [OF enc_beyond holds_at_length [OF assms(3)]]
    by (simp add: validate_eq_Ok)
qed

lemma length_enc_entries_ge: "length kvs \<le> length (enc_entries obj kvs)"
proof (induction kvs)
  case (Cons kv kvs)
  have "enc_entry obj kv \<noteq> []" by (simp add: enc_entry_def)
  then have "1 \<le> length (enc_entry obj kv)" by (cases "enc_entry obj kv") simp_all
  with Cons show ?case unfolding enc_entries_Cons by simp
qed simp

lemma length_key_enc_entries:
  "kv \<in> set kvs \<Longrightarrow> length (fst kv) \<le> length (enc_entries True kvs)"
  by (induction kvs) (auto simp: enc_entry_def)

definition complete_at :: "bytes \<Rightarrow> nat \<Rightarrow> val \<Rightarrow> bool" where
  "complete_at b d v \<longleftrightarrow> (\<forall>off lim. holds_at b off (enc v) \<longrightarrow> off + length (enc v) \<le> lim \<longrightarrow>
     validate b off lim d = Ok (off + length (enc v)))"

lemma complete_at_scalar:
  assumes "canonical v" "d \<le> max_depth" "\<And>vs. v \<noteq> VArr vs" "\<And>kvs. v \<noteq> VObj kvs"
  shows "complete_at b d v"
  using validate_scalar_complete [OF assms(1,2) _ _ assms(3,4)] by (simp add: complete_at_def)

lemma validate_entries_complete:
  assumes "\<forall>(k, v) \<in> set kvs. length k < 2 ^ 32 \<and> complete_at b (Suc d) v"
    and "keys_ok obj prev kvs" "holds_at b cursor (enc_entries obj kvs)"
    and "cursor + length (enc_entries obj kvs) \<le> stop"
  shows "validate_entries b obj stop d (length kvs) cursor prev = Ok (cursor + length (enc_entries obj kvs))"
  using assms
proof (induction kvs arbitrary: cursor prev)
  case (Cons kv kvs)
  obtain k v where kv: "kv = (k, v)" by (cases kv)
  have "enc_entry obj kv \<noteq> []" by (simp add: enc_entry_def)
  then have lt: "cursor < stop" using Cons.prems(4) by (cases "enc_entry obj kv") simp_all
  define c1 where "c1 = cursor + (if obj then 4 + length k else 0)"
  define key where "key = (if obj then Some k else prev)"
  have key: "(if obj then read_entry_key b stop cursor prev else Ok (cursor, prev)) = Ok (c1, key)"
    using Cons.prems
    by (auto simp: kv c1_def key_def keys_ok_object_Cons enc_entry_def holds_at_append
        intro!: read_entry_key_enc)
  have v: "validate b c1 stop (Suc d) = Ok (c1 + length (enc v))"
    using Cons.prems
    by (auto simp: kv c1_def complete_at_def enc_entry_def holds_at_append add.assoc)
  have ok: "keys_ok obj key kvs"
  proof (cases obj)
    case True
    with Cons.prems(2) show ?thesis by (simp add: kv key_def keys_ok_object_Cons)
  next
    case False
    with Cons.prems(2) show ?thesis by (simp add: keys_ok_def)
  qed
  have rest: "validate_entries b obj stop d (length kvs) (c1 + length (enc v)) key =
      Ok (c1 + length (enc v) + length (enc_entries obj kvs))"
    by (rule Cons.IH)
      (use Cons.prems ok in \<open>auto simp: kv c1_def enc_entry_def holds_at_append add.assoc\<close>)
  show ?case using lt key v rest by (simp add: kv c1_def enc_entry_def)
qed simp

lemma validate_container_complete:
  assumes "holds_at b off (enc_container k (length kvs) (enc_entries (k = Kind_object) kvs))"
    and "k = Kind_array \<or> k = Kind_object" "keys_ok (k = Kind_object) None kvs"
    and "\<forall>(k, v) \<in> set kvs. length k < 2 ^ 32 \<and> complete_at b (Suc d) v"
    and "4 + length (enc_entries (k = Kind_object) kvs) < 2 ^ 32" "d \<le> max_depth"
    and "off + 9 + length (enc_entries (k = Kind_object) kvs) \<le> lim"
  shows "validate b off lim d = Ok (off + 9 + length (enc_entries (k = Kind_object) kvs))"
proof -
  let ?body = "enc_entries (k = Kind_object) kvs" and ?e = "off + 9 + length (enc_entries (k = Kind_object) kvs)"
  have h: "off < length b" "b ! off = tag_of_kind k" "holds_at b (Suc off) (u32le (4 + length ?body))"
    "holds_at b (off + 5) (u32le (length kvs))" "holds_at b (off + 9) ?body"
    using assms(1) by (auto simp: enc_container_def holds_at_simps add.commute [of _ off])
  have len: "length kvs < 2 ^ 32" using assms(5) length_enc_entries_ge [of kvs] by (meson le_less_trans le_add2)
  have "validate_entries b (k = Kind_object) ?e d (length kvs) (off + 9) None = Ok ?e"
    by (rule validate_entries_complete) (use assms h in auto)
  then have "accepts b off lim d k ?e"
    using assms(2,5,7) h(3,4) len by (auto simp: accepts_def holds_at_load_u32)
  then show ?thesis using h(1,2) assms(6,7) by (auto simp: validate_eq_Ok)
qed

lemma validate_complete:
  "canonical v \<Longrightarrow> vdepth v + d \<le> Suc max_depth \<Longrightarrow> complete_at b d v"
proof (induction v arbitrary: d)
  case (VArr vs)
  let ?kvs = "map (Pair ([] :: str)) vs"
  have "d \<le> max_depth" using VArr.prems(2) vdepth_pos [of "VArr vs"] by simp
  have "\<forall>(k, v) \<in> set ?kvs. length k < 2 ^ 32 \<and> complete_at b (Suc d) v"
  proof -
    have "\<forall>v \<in> set vs. vdepth v < Suc max_depth - d"
      using VArr.prems(2) vdepth_arr_le [of vs "Suc max_depth - d"] by (simp add: le_diff_conv2 \<open>d \<le> max_depth\<close>)
    with VArr show ?thesis by auto
  qed
  from validate_container_complete [OF _ _ _ this, where k = Kind_array] VArr.prems(1) \<open>d \<le> max_depth\<close>
  show ?case
    by (simp add: complete_at_def enc_entries_array keys_ok_def enc_container_def)
next
  case (VObj kvs)
  have "d \<le> max_depth" using VObj.prems(2) vdepth_pos [of "VObj kvs"] by simp
  have "\<forall>(k, v) \<in> set kvs. length k < 2 ^ 32 \<and> complete_at b (Suc d) v"
  proof -
    have "\<forall>(k, v) \<in> set kvs. vdepth v < Suc max_depth - d"
      using VObj.prems(2) vdepth_obj_le [of kvs "Suc max_depth - d"] by (simp add: le_diff_conv2 \<open>d \<le> max_depth\<close>)
    moreover have "\<forall>kv \<in> set kvs. length (fst kv) < 2 ^ 32"
      using VObj.prems(1) length_key_enc_entries [of _ kvs] by (fastforce simp: enc_entries_object)
    ultimately show ?thesis using VObj by fastforce
  qed
  from validate_container_complete [OF _ _ _ this, where k = Kind_object] VObj.prems(1) \<open>d \<le> max_depth\<close>
  show ?case
    by (simp add: complete_at_def enc_entries_object keys_ok_def enc_container_def)
qed (rule complete_at_scalar; simp)+

lemma try_decode_no_Fault: "try_decode bs \<noteq> Fault"
  using validate_no_Fault(1) [of "length bs" bs 0 1]
  by (auto simp: try_decode_def rbind_eq_Fault)

lemma try_decode_enc: "canonical v \<Longrightarrow> vdepth v \<le> max_depth \<Longrightarrow> try_decode (enc v) = Ok (enc v)"
  using validate_complete [of v 1 "enc v"] by (simp add: try_decode_def complete_at_def holds_at_whole)

lemma try_decode_Ok:
  assumes "try_decode bs = Ok b"
  shows "b = bs \<and> (\<exists>v. canonical v \<and> vdepth v \<le> max_depth \<and> bs = enc v)"
proof -
  from assms have v: "validate bs 0 (length bs) 1 = Ok (length bs)" and b: "b = bs"
    by (auto simp: try_decode_def rbind_eq_Ok split: if_splits)
  from validate_sound(1) [OF v] obtain w where w: "encodes bs 0 1 w" "length bs = length (enc w)"
    by auto
  then have "bs = enc w"
    using holds_at_eq [OF holds_at_whole [of bs], of "enc w"] by (simp add: encodes_def)
  with w b show ?thesis by (auto simp: encodes_def)
qed

subsection \<open>No two values share an encoding\<close>

lemma concat_prefix_free:
  assumes "\<And>x y us ws. x \<in> set xs \<Longrightarrow> P y \<Longrightarrow> f x @ us = f y @ ws \<Longrightarrow> x = y \<and> us = ws"
    and "concat (map f xs) @ us = concat (map f ys) @ ws" "length xs = length ys" "\<forall>y \<in> set ys. P y"
  shows "xs = ys \<and> us = ws"
  using assms
proof (induction xs arbitrary: ys)
  case (Cons x xs)
  then obtain y ys' where ys: "ys = y # ys'" by (cases ys) auto
  have "f x @ concat (map f xs) @ us = f y @ concat (map f ys') @ ws"
    using Cons.prems(2) ys by simp
  then have "x = y" and rest: "concat (map f xs) @ us = concat (map f ys') @ ws"
    using Cons.prems(1) [of x y] Cons.prems(4) ys by auto
  moreover have "xs = ys' \<and> us = ws"
    by (rule Cons.IH) (use Cons.prems rest ys in auto)
  ultimately show ?case using ys by simp
qed auto

lemma u32le_eq: "m < 2 ^ 32 \<Longrightarrow> n < 2 ^ 32 \<Longrightarrow> u32le m = u32le n \<longleftrightarrow> m = n"
  using le_bytes_inject [of m 4 n] by simp

lemma u64le_unat_eq: "u64le (unat (x :: 64 word)) = u64le (unat y) \<longleftrightarrow> x = y"
proof -
  have "unat x < 256 ^ 8" "unat y < 256 ^ 8"
    using unsigned_less [of x, where 'a = nat] unsigned_less [of y, where 'a = nat] by simp_all
  then show ?thesis using word_unat_eqI [of x y] by (auto simp: le_bytes_inject)
qed

lemma u32le_append_eq:
  "m < 2 ^ 32 \<Longrightarrow> n < 2 ^ 32 \<Longrightarrow> u32le m @ xs = u32le n @ ys \<longleftrightarrow> m = n \<and> xs = ys"
  using u32le_eq [of m n] by (simp del: le_bytes.simps)

lemma enc_container_append_eq:
  assumes "enc_container k m xs @ us = enc_container k n ys @ ws"
    "4 + length xs < 2 ^ 32" "4 + length ys < 2 ^ 32" "m < 2 ^ 32" "n < 2 ^ 32"
  shows "m = n \<and> xs @ us = ys @ ws"
  using assms by (auto simp: enc_container_def u32le_eq simp del: le_bytes.simps)

lemma enc_prefix_free:
  "canonical v \<Longrightarrow> canonical w \<Longrightarrow> enc v @ us = enc w @ ws \<Longrightarrow> v = w \<and> us = ws"
proof (induction v arbitrary: w us ws)
  case (VArr vs)
  then obtain ws' where w: "w = VArr ws'"
    by (cases w) (auto simp: enc_container_def)
  have len: "length vs < 2 ^ 32" "length ws' < 2 ^ 32"
    using VArr.prems length_enc_entries_ge [of "map (Pair []) vs" False]
      length_enc_entries_ge [of "map (Pair []) ws'" False] w by (simp_all add: enc_entries_array)
  have "length vs = length ws' \<and> concat (map enc vs) @ us = concat (map enc ws') @ ws"
    using VArr.prems len unfolding w by (intro enc_container_append_eq) auto
  with concat_prefix_free [of vs canonical enc us ws' ws] VArr w show ?case by auto
next
  case (VObj kvs)
  let ?f = "\<lambda>(k, v). u32le (length k) @ k @ enc v"
  from VObj obtain kws where w: "w = VObj kws"
    by (cases w) (auto simp: enc_container_def)
  have len: "length kvs < 2 ^ 32" "length kws < 2 ^ 32"
    using VObj.prems length_enc_entries_ge [of kvs True] length_enc_entries_ge [of kws True] w
    by (simp_all add: enc_entries_object)
  have e: "length kvs = length kws \<and> concat (map ?f kvs) @ us = concat (map ?f kws) @ ws"
    using VObj.prems len unfolding w by (intro enc_container_append_eq) auto
  have small: "\<forall>kv \<in> set kvs. length (fst kv) < 2 ^ 32" "\<forall>kv \<in> set kws. length (fst kv) < 2 ^ 32"
    using VObj.prems w length_key_enc_entries [of _ kvs] length_key_enc_entries [of _ kws]
    by (fastforce simp: enc_entries_object)+
  have "kvs = kws \<and> us = ws"
  proof (rule concat_prefix_free [of kvs "\<lambda>kw. canonical (snd kw) \<and> length (fst kw) < 2 ^ 32" ?f])
    fix x y us ws
    assume a: "x \<in> set kvs" "canonical (snd y) \<and> length (fst y) < 2 ^ 32" "?f x @ us = ?f y @ ws"
    then have "length (fst x) = length (fst y) \<and> fst x @ enc (snd x) @ us = fst y @ enc (snd y) @ ws"
      using small(1) by (auto simp: case_prod_beta u32le_eq simp del: le_bytes.simps)
    then have "fst x = fst y" "enc (snd x) @ us = enc (snd y) @ ws" by auto
    moreover have "canonical (snd x)" using VObj.prems(1) a(1) by auto
    ultimately show "x = y \<and> us = ws"
      using VObj.IH [of x "snd x" "snd y" us ws] a by (auto simp: prod_eq_iff snds.simps)
  qed (use e small VObj.prems w in auto)
  with w show ?case by simp
next
  case (VStr s)
  then show ?case
    by (cases w) (auto simp: enc_container_def u32le_eq simp del: le_bytes.simps)
next
  case (VBytes s)
  then show ?case
    by (cases w) (auto simp: enc_container_def u32le_eq simp del: le_bytes.simps)
next
  case (VInt x)
  then show ?case
    by (cases w) (auto simp: enc_container_def u64le_unat_eq simp del: le_bytes.simps)
next
  case (VNum x)
  then show ?case
    by (cases w) (auto simp: enc_container_def u64le_unat_eq simp del: le_bytes.simps)
qed (case_tac [!] w, auto simp: enc_container_def split: if_splits)

lemma enc_inject: "canonical v \<Longrightarrow> canonical w \<Longrightarrow> enc v = enc w \<longleftrightarrow> v = w"
  using enc_prefix_free [of v w "[]" "[]"] by auto

end
