(* ===== verification/Value_Access.thy ===== *)
theory Value_Access
  imports Value_Canonical
begin

text \<open>
  What the accessors of \<^verbatim>\<open>value_view\<close> return on the encoding of a canonical value: the entry walk is an
  interpretation of the prelude's \<open>item_walk\<close>, and element, key and lookup access follow from it.
\<close>

subsection \<open>The entry walk\<close>

lemma encoded_size_at_enc:
  "canonical v \<Longrightarrow> holds_at b off (enc v) \<Longrightarrow> encoded_size_at b off = Ok (length (enc v))"
  by (cases v)
    (auto simp: encoded_size_at_def enc_container_def holds_at_simps holds_at_load_u32 byte_at_def
      value_kind_of_def)

definition entry_ok :: "bool \<Rightarrow> str \<times> val \<Rightarrow> bool" where
  "entry_ok obj kv \<longleftrightarrow> canonical (snd kv) \<and> (obj \<longrightarrow> length (fst kv) < 2 ^ 32)"

definition entry_step :: "bytes \<Rightarrow> bool \<Rightarrow> nat \<Rightarrow> ('e, nat) result" where
  "entry_step b obj c = rbind (skip_key b obj c) (\<lambda>c. rbind (encoded_size_at b c) (\<lambda>sz. Ok (c + sz)))"

lemma skip_key_enc:
  "entry_ok obj kv \<Longrightarrow> holds_at b c (enc_entry obj kv) \<Longrightarrow>
   \<exists>c'. skip_key b obj c = Ok c' \<and> holds_at b c' (enc (snd kv)) \<and>
     c' + length (enc (snd kv)) = c + length (enc_entry obj kv)"
  by (auto simp: skip_key_def entry_ok_def enc_entry_def holds_at_append holds_at_load_u32 add.assoc)

interpretation entries: item_walk "\<lambda>b. entry_step b obj" "\<lambda>b. walk_entries b obj" "enc_entry obj" "entry_ok obj"
proof
  fix kv b off
  assume a: "entry_ok obj kv" "holds_at b off (enc_entry obj kv)"
  from skip_key_enc [OF this] obtain c' where "skip_key b obj off = (Ok c' :: ('e, nat) result)"
    "holds_at b c' (enc (snd kv))" "c' + length (enc (snd kv)) = off + length (enc_entry obj kv)" by blast
  moreover from this a(1) have "encoded_size_at b c' = (Ok (length (enc (snd kv))) :: ('e, nat) result)"
    by (intro encoded_size_at_enc) (simp_all add: entry_ok_def)
  ultimately show "entry_step b obj off = (Ok (off + length (enc_entry obj kv)) :: ('e, nat) result)"
    by (simp add: entry_step_def entry_ok_def)
next
  show "walk_entries b obj (Suc n) off = rbind (entry_step b obj off) (walk_entries b obj n)" for b n off
    by (simp add: entry_step_def rbind_assoc)
qed simp


subsection \<open>Accessors on an encoding\<close>

fun kind_of_val :: "val \<Rightarrow> value_kind" where
  "kind_of_val VNull = Kind_null"
| "kind_of_val (VBool _) = Kind_boolean"
| "kind_of_val (VInt _) = Kind_integer"
| "kind_of_val (VNum _) = Kind_number"
| "kind_of_val (VStr _) = Kind_string"
| "kind_of_val (VBytes _) = Kind_bytes"
| "kind_of_val (VArr _) = Kind_array"
| "kind_of_val (VObj _) = Kind_object"

fun val_entries :: "val \<Rightarrow> (str \<times> val) list" where
  "val_entries (VArr vs) = map (Pair []) vs"
| "val_entries (VObj kvs) = kvs"
| "val_entries _ = []"

fun is_container :: "val \<Rightarrow> bool" where
  "is_container (VArr _) = True"
| "is_container (VObj _) = True"
| "is_container _ = False"

lemma vv_kind_enc [simp]: "vv_kind (enc v) = Ok (kind_of_val v)"
  by (cases v) (simp_all add: vv_kind_def byte_at_def enc_container_def value_kind_of_def)

lemma is_container_kind: "is_container v \<longleftrightarrow> kind_of_val v = Kind_array \<or> kind_of_val v = Kind_object"
  by (cases v) simp_all

lemma enc_is_container:
  "is_container v \<Longrightarrow> enc v =
    enc_container (kind_of_val v) (length (val_entries v)) (enc_entries (kind_of_val v = Kind_object) (val_entries v))"
  by (cases v) (simp_all add: enc_entries_array enc_entries_object)

lemma canonical_entries:
  assumes "canonical v" "is_container v"
  shows "\<forall>kv \<in> set (val_entries v). entry_ok (kind_of_val v = Kind_object) kv"
    and "4 + length (enc_entries (kind_of_val v = Kind_object) (val_entries v)) < 2 ^ 32"
    and "length (val_entries v) < 2 ^ 32"
proof -
  show 2: "4 + length (enc_entries (kind_of_val v = Kind_object) (val_entries v)) < 2 ^ 32"
    using assms by (cases v) (simp_all add: enc_entries_array enc_entries_object)
  then show "length (val_entries v) < 2 ^ 32"
    by (meson le_less_trans length_enc_entries_ge le_add2)
  show "\<forall>kv \<in> set (val_entries v). entry_ok (kind_of_val v = Kind_object) kv"
  proof
    fix kv assume kv: "kv \<in> set (val_entries v)"
    have "canonical (snd kv)" using assms kv by (cases v) auto
    moreover have "length (fst kv) < 2 ^ 32" if "kind_of_val v = Kind_object"
      using length_key_enc_entries [OF kv] 2 that by simp
    ultimately show "entry_ok (kind_of_val v = Kind_object) kv" by (simp add: entry_ok_def)
  qed
qed

lemma holds_at_container:
  assumes "is_container v"
  shows "holds_at (enc v) 5 (u32le (length (val_entries v)))"
    and "holds_at (enc v) 9 (concat (map (enc_entry (kind_of_val v = Kind_object)) (val_entries v)))"
  using holds_at_whole [of "enc v"]
  unfolding enc_is_container [OF assms] enc_container_def
  by (simp_all only: holds_at_simps length_le_bytes) (simp_all add: enc_entries_def)

lemma vv_size_enc: "canonical v \<Longrightarrow> vv_size (enc v) = Ok (length (val_entries v))"
proof (cases "is_container v")
  case True
  assume v: "canonical v"
  note load = holds_at_load_u32 [OF holds_at_container(1) [OF True] canonical_entries(3) [OF v True]]
  show ?thesis using True is_container_kind [of v] by (auto simp: vv_size_def load)
next
  case False
  then have "kind_of_val v \<noteq> Kind_array \<and> kind_of_val v \<noteq> Kind_object \<and> val_entries v = []" by (cases v) simp_all
  then show ?thesis by (simp add: vv_size_def)
qed

lemma element_at_enc:
  assumes "canonical v"
  shows "element_at (enc v) i =
    (if i < length (val_entries v) then Ok (enc (snd (val_entries v ! i))) else Fault)"
proof (cases "is_container v \<and> i < length (val_entries v)")
  case True
  let ?obj = "kind_of_val v = Kind_object" and ?kv = "val_entries v ! i"
  note ok = canonical_entries [OF assms conjunct1 [OF True]]
  have kv: "entry_ok ?obj ?kv" using ok(1) True by simp
  from entries.item_at_walk [OF ok(1) holds_at_container(2) [OF conjunct1 [OF True]] conjunct2 [OF True]]
  obtain c where c: "walk_entries (enc v) ?obj i 9 = (Ok c :: ('a, nat) result)"
    "holds_at (enc v) c (enc_entry ?obj ?kv)" by blast
  from skip_key_enc [OF kv c(2)] obtain c' where c': "skip_key (enc v) ?obj c = (Ok c' :: ('a, nat) result)"
    "holds_at (enc v) c' (enc (snd ?kv))" by blast
  have sz: "encoded_size_at (enc v) c' = (Ok (length (enc (snd ?kv))) :: ('a, nat) result)"
    using kv c'(2) by (intro encoded_size_at_enc) (simp_all add: entry_ok_def)
  show ?thesis
    using True is_container_kind [of v]
    by (simp add: element_at_def vv_size_enc assms c(1) c'(1) sz holds_at_slice [OF c'(2)])
next
  case False
  then have "\<not> i < length (val_entries v)" by (cases v) simp_all
  then show ?thesis
    by (simp add: element_at_def vv_size_enc assms check_def)
qed

lemma key_at_enc:
  assumes "canonical v"
  shows "key_at (enc v) i =
    (if kind_of_val v = Kind_object \<and> i < length (val_entries v) then Ok (fst (val_entries v ! i)) else Fault)"
proof (cases "kind_of_val v = Kind_object \<and> i < length (val_entries v)")
  case True
  let ?kv = "val_entries v ! i"
  have cont: "is_container v" using True by (simp add: is_container_kind)
  note ok = canonical_entries [OF assms cont]
  have kv: "entry_ok True ?kv" using ok(1) True by simp
  from entries.item_at_walk [OF ok(1) holds_at_container(2) [OF cont] conjunct2 [OF True]] True
  obtain c where c: "walk_entries (enc v) True i 9 = (Ok c :: ('a, nat) result)"
    "holds_at (enc v) c (enc_entry True ?kv)" by auto
  then have "holds_at (enc v) c (u32le (length (fst ?kv)))" "holds_at (enc v) (c + 4) (fst ?kv)"
    by (simp_all add: enc_entry_def holds_at_append)
  with kv True show ?thesis
    by (simp add: key_at_def vv_size_enc assms c(1) entry_ok_def holds_at_load_u32 chars_at_def holds_at_slice)
next
  case False
  then show ?thesis
    by (auto simp: key_at_def vv_size_enc assms check_def)
qed

lemma find_entry_enc:
  assumes "\<forall>kv \<in> set kvs. entry_ok True kv" "sorted_wrt (<) (map fst kvs)"
    "holds_at b c (concat (map (enc_entry True) kvs))"
  shows "find_entry b key (length kvs) c =
    (Ok (map_option enc (map_of kvs key)) :: ('e, value_view option) result)"
  using assms
proof (induction kvs arbitrary: c)
  case (Cons kv kvs)
  obtain k v where kv: "kv = (k, v)" by (cases kv)
  have h: "length k < 2 ^ 32" "holds_at b c (u32le (length k))" "holds_at b (c + 4) k"
    "holds_at b (c + (4 + length k)) (enc v)" "canonical v"
    using Cons.prems by (auto simp: kv enc_entry_def holds_at_append entry_ok_def add.assoc)
  note sz = encoded_size_at_enc [OF h(5,4)]
  have greater: "map_of kvs key = None" if "key < k"
    using Cons.prems(2) that by (auto simp: kv map_of_eq_None_iff)
  have "find_entry b key (length kvs) (c + (4 + length k) + length (enc v)) =
      (Ok (map_option enc (map_of kvs key)) :: ('e, value_view option) result)"
    using Cons.prems by (intro Cons.IH) (auto simp: kv enc_entry_def holds_at_append add.assoc)
  then show ?case
    using h greater
    by (cases key k rule: linorder_cases)
      (auto simp: kv holds_at_load_u32 chars_at_def holds_at_slice [OF h(3)] holds_at_slice [OF h(4)]
        Let_def compare_key_bytes_def sz)
qed simp

lemma try_find_enc:
  assumes "canonical v"
  shows "try_find (enc v) key =
    Ok (if kind_of_val v = Kind_object then map_option enc (map_of (val_entries v) key) else None)"
proof (cases "kind_of_val v = Kind_object")
  case True
  then have cont: "is_container v" and sorted: "sorted_wrt (<) (map fst (val_entries v))"
    using assms by (cases v; simp)+
  note ok = canonical_entries(1) [OF assms cont] and h = holds_at_container(2) [OF cont]
  show ?thesis
    using find_entry_enc [of "val_entries v" "enc v" 9 key] ok h sorted True
    by (simp add: try_find_def vv_size_enc assms)
qed (simp add: try_find_def)

lemma load_u64_holds_at:
  assumes "holds_at b off (u64le (unat (w :: 64 word)))"
  shows "load_bytes_le 8 b off = Ok w"
proof -
  have "le_nat (u64le (unat w)) = unat w"
    using unsigned_less [of w, where 'a = nat] by (intro le_nat_u64le) simp
  with assms show ?thesis by (simp add: holds_at_def load_bytes_le_eq)
qed

lemma scalar_accessors_enc:
  shows "as_bool (enc (VBool x)) = Ok x"
    and "as_i64 (enc (VInt w)) = Ok w"
    and "as_f64 (enc (VNum w)) = Ok w"
    and "length s < 2 ^ 32 \<Longrightarrow> as_string (enc (VStr s)) = Ok s"
    and "length s < 2 ^ 32 \<Longrightarrow> as_bytes (enc (VBytes s)) = Ok s"
proof -
  show "as_bool (enc (VBool x)) = Ok x"
    unfolding as_bool_def vv_kind_enc by (simp add: byte_at_def)
  have "holds_at (enc (VInt w)) 1 (u64le (unat w))" "holds_at (enc (VNum w)) 1 (u64le (unat w))"
    by (simp_all add: holds_at_def del: le_bytes.simps)
  then show "as_i64 (enc (VInt w)) = Ok w" "as_f64 (enc (VNum w)) = Ok w"
    unfolding as_i64_def as_f64_def vv_kind_enc
    by (simp_all add: load_u64_holds_at del: enc.simps)
  have "holds_at (enc (VStr s)) 1 (u32le (length s))" "holds_at (enc (VStr s)) 5 s"
     "holds_at (enc (VBytes s)) 1 (u32le (length s))" "holds_at (enc (VBytes s)) 5 s"
    by (simp_all add: holds_at_def del: le_bytes.simps)
  then show "length s < 2 ^ 32 \<Longrightarrow> as_string (enc (VStr s)) = Ok s"
    "length s < 2 ^ 32 \<Longrightarrow> as_bytes (enc (VBytes s)) = Ok s"
    unfolding as_string_def as_bytes_def vv_kind_enc
    by (simp_all add: holds_at_load_u32 holds_at_slice chars_at_def del: enc.simps)
qed

lemma skip_value_enc:
  "canonical v \<Longrightarrow> skip_value (enc v @ rest) = (Ok rest :: ('e, bytes) result)"
proof -
  assume v: "canonical v"
  have h: "holds_at (enc v @ rest) 0 (enc v)" by (simp add: holds_at_def)
  show "skip_value (enc v @ rest) = (Ok rest :: ('e, bytes) result)"
    by (simp add: skip_value_def encoded_size_def encoded_size_at_enc [OF v h])
qed

subsection \<open>Properties\<close>

text \<open>
  C8.  The decoder is memory safe and accepts exactly the canonical encodings: on every byte sequence it
  returns without an out-of-bounds read or a failed assertion, and it succeeds if and only if the bytes
  are the encoding of a canonical value nested at most \<open>max_depth\<close> levels deep.
\<close>

theorem try_decode_exact:
  "try_decode bs \<noteq> Fault \<and>
   (try_decode bs = Ok b \<longleftrightarrow> b = bs \<and> (\<exists>v. canonical v \<and> vdepth v \<le> max_depth \<and> bs = enc v))"
  using try_decode_no_Fault try_decode_Ok [of bs b] try_decode_enc by metis

lemma accepted_value: "try_decode bs = Ok a \<Longrightarrow> a = bs \<and> (\<exists>!v. canonical v \<and> bs = enc v)"
  using try_decode_Ok [of bs a] enc_inject by blast

text \<open>
  C31.  What the decoder accepts is canonical and self-delimiting.  Accepted bytes are the encoding of exactly one value
  and are handed on as they are; comparing the bytes of two accepted values compares the values; no accepted byte
  string is a proper prefix of another, so a sequence of accepted values written one after the other can be taken apart
  in one way only.
\<close>

theorem encoding_prefix_free:
  assumes "try_decode bs = Ok a" "try_decode cs = Ok b"
  shows "(\<exists>!v. canonical v \<and> a = enc v) \<and>
    (\<forall>v w. canonical v \<and> a = enc v \<and> canonical w \<and> b = enc w \<longrightarrow> bytes_equal a b = (v = w)) \<and>
    (\<forall>us ws. bs @ us = cs @ ws \<longrightarrow> bs = cs \<and> us = ws)"
proof -
  obtain v w where v: "canonical v" "a = bs" "bs = enc v" and w: "canonical w" "b = cs" "cs = enc w"
    using accepted_value [OF assms(1)] accepted_value [OF assms(2)] by blast
  have "bs = cs \<and> us = ws" if "bs @ us = cs @ ws" for us ws
    using enc_prefix_free [OF v(1) w(1), of us ws] that by (simp add: v(3) w(3))
  moreover have "bytes_equal a b = (v' = w')" if "canonical v'" "a = enc v'" "canonical w'" "b = enc w'" for v' w'
    using that enc_inject [of v' w'] by auto
  ultimately show ?thesis using accepted_value [OF assms(1)] by blast
qed

theorem encoding_prefix_free_witness:
  "\<not> bytes_equal (enc (VArr [VBool True])) (enc (VBool True)) \<and>
   (\<forall>us ws. enc (VArr [VBool True]) @ us \<noteq> enc (VBool True) @ ws)"
proof -
  have "try_decode (enc (VArr [VBool True])) = Ok (enc (VArr [VBool True]))" "try_decode (enc (VBool True)) = Ok (enc (VBool True))"
    by (intro try_decode_enc; simp add: vdepth.simps max_depth_def enc_container_def)+
  note both = encoding_prefix_free [OF this]
  from both have "bytes_equal (enc (VArr [VBool True])) (enc (VBool True)) = (VArr [VBool True] = VBool True)"
    by (elim conjE allE [of _ "VArr [VBool True]"] allE [of _ "VBool True"]) (simp add: enc_container_def)
  moreover from this have "enc (VArr [VBool True]) \<noteq> enc (VBool True)" by auto
  ultimately show ?thesis using both by blast
qed

text \<open>
  C30.  On every accepted value the container accessors read what the value means: the entry count, the
  \<open>i\<close>-th element and key (asserting exactly when the index or the kind is wrong), and lookup by key,
  whose early exit on a greater key never misses an entry.
\<close>

theorem container_access_correct:
  assumes "canonical v"
  shows "vv_size (enc v) = (Ok (length (val_entries v)) :: ('e, nat) result) \<and>
    element_at (enc v) i =
      (if i < length (val_entries v) then Ok (enc (snd (val_entries v ! i))) else Fault :: ('e, bytes) result) \<and>
    key_at (enc v) i =
      (if kind_of_val v = Kind_object \<and> i < length (val_entries v) then Ok (fst (val_entries v ! i))
       else Fault :: ('e, str) result) \<and>
    try_find (enc v) key =
      (Ok (if kind_of_val v = Kind_object then map_option enc (map_of (val_entries v) key) else None)
       :: ('e, bytes option) result) \<and>
    skip_value (enc v @ rest) = (Ok rest :: ('e, bytes) result)"
  using assms by (simp only: vv_size_enc element_at_enc key_at_enc try_find_enc skip_value_enc)

theorem container_access_correct_witness:
  "try_find (enc (VObj [([97], VNull), ([98], VBool True)])) [98] = (Ok (Some [1, 1]) :: (nat, value_view option) result)"
  using container_access_correct [of "VObj [([97], VNull), ([98], VBool True)]",
      where key = "[98]" and i = 0 and rest = "[]" and 'e = nat] by simp

text \<open>
  Every scalar factory builds the canonical encoding of its argument, which the matching accessor
  reads back unchanged: booleans, 64-bit integers and doubles bit by bit, strings and byte strings up to
  the length the \<^verbatim>\<open>u32\<close> prefix can hold.
\<close>

theorem scalar_roundtrip:
  "rbind (of_bool x) as_bool = (Ok x :: ('e, bool) result) \<and>
   rbind (of_i64 i) as_i64 = (Ok i :: ('e, 64 word) result) \<and>
   rbind (of_f64 d) as_f64 = (Ok d :: ('e, 64 word) result) \<and>
   rbind (of_string s) as_string = (if length s < 2 ^ 32 then Ok s else Fault :: ('e, str) result) \<and>
   rbind (of_bytes s) as_bytes = (if length s < 2 ^ 32 then Ok s else Fault :: ('e, bytes) result)"
  by (simp add: codec_simps scalar_accessors_enc [unfolded enc.simps])

end
