(* ===== verification/Sort.thy ===== *)
theory Sort
  imports Prelude "HOL-Library.Product_Lexorder"
begin

text \<open>
  Model of the sorting seam of \<^verbatim>\<open>clean-core/algorithm\<close>: the index-swap range over one vector
  (\<^verbatim>\<open>index_swap_range.hh\<close>), \<^verbatim>\<open>sort_insertion\<close> and the small-range leaf of \<^verbatim>\<open>sort_loop\<close>
  (\<^verbatim>\<open>impl/sort_impl.hh\<close>), and \<^verbatim>\<open>cc::sort\<close> and \<^verbatim>\<open>cc::sort_indices\<close> on top of them (\<^verbatim>\<open>sort.hh\<close>).

  A range of at most 16 elements is insertion-sorted by the code, and \<open>cc_sort\<close> runs exactly that
  loop; on longer ranges the code partitions first, which \<open>cc_sort\<close> does not follow.  Every
  client below therefore uses \<^verbatim>\<open>cc::sort\<close> only through the contract of the locale
  \<open>range_sort\<close> (the result is an ordered permutation), which determines the result uniquely
  wherever the comparator is a total order on the elements, as it is for all of them.
\<close>

definition element_swap :: "'a list \<Rightarrow> nat \<Rightarrow> nat \<Rightarrow> 'a list" where
  "element_swap xs a b = xs[a := xs ! b, b := xs ! a]"

fun insertion_inner :: "('a \<Rightarrow> 'a \<Rightarrow> bool) \<Rightarrow> nat \<Rightarrow> 'a list \<Rightarrow> nat \<Rightarrow> 'a list" where
  "insertion_inner lt start xs 0 = xs"
| "insertion_inner lt start xs (Suc j) =
     (if Suc j > start \<and> lt (xs ! Suc j) (xs ! j)
      then insertion_inner lt start (element_swap xs j (Suc j)) j else xs)"

function insertion_outer :: "('a \<Rightarrow> 'a \<Rightarrow> bool) \<Rightarrow> nat \<Rightarrow> nat \<Rightarrow> 'a list \<Rightarrow> nat \<Rightarrow> 'a list" where
  "insertion_outer lt start n xs i =
     (if i < start + n then insertion_outer lt start n (insertion_inner lt start xs i) (i + 1) else xs)"
  by pat_completeness auto
termination
  by (relation "measure (\<lambda>(lt, start, n, xs, i). start + n - i)") auto

declare insertion_outer.simps [simp del]

definition sort_insertion :: "('a \<Rightarrow> 'a \<Rightarrow> bool) \<Rightarrow> nat \<Rightarrow> nat \<Rightarrow> 'a list \<Rightarrow> 'a list" where
  "sort_insertion lt start n xs = insertion_outer lt start n xs (start + 1)"

definition cc_sort :: "('a \<Rightarrow> 'a \<Rightarrow> bool) \<Rightarrow> 'a list \<Rightarrow> 'a list" where
  "cc_sort lt xs = sort_insertion lt 0 (length xs) xs"

definition sort_index_compare :: "'k list \<Rightarrow> ('k \<Rightarrow> 'k \<Rightarrow> bool) \<Rightarrow> nat \<Rightarrow> nat \<Rightarrow> bool" where
  "sort_index_compare keys lt ia ib =
     (if lt (keys ! ia) (keys ! ib) then True
      else if lt (keys ! ib) (keys ! ia) then False
      else ia < ib)"

definition sort_indices :: "'k list \<Rightarrow> ('k \<Rightarrow> 'k \<Rightarrow> bool) \<Rightarrow> nat list \<Rightarrow> nat list" where
  "sort_indices keys lt indices = cc_sort (sort_index_compare keys lt) indices"

subsection \<open>The contract of a comparator and of a sort\<close>

locale strict_weak_order =
  fixes lt :: "'a \<Rightarrow> 'a \<Rightarrow> bool"
  assumes lt_asym: "lt a b \<Longrightarrow> \<not> lt b a"
    and lt_negtrans: "\<not> lt a b \<Longrightarrow> \<not> lt b c \<Longrightarrow> \<not> lt a c"
begin

definition ordered :: "'a list \<Rightarrow> bool" where
  "ordered = sorted_wrt (\<lambda>a b. \<not> lt b a)"

lemma ordered_iff_nth: "ordered xs \<longleftrightarrow> (\<forall>p q. p < q \<longrightarrow> q < length xs \<longrightarrow> \<not> lt (xs ! q) (xs ! p))"
  by (simp add: ordered_def sorted_wrt_iff_nth_less)

end

locale range_sort = strict_weak_order lt for lt :: "'a \<Rightarrow> 'a \<Rightarrow> bool" +
  fixes srt :: "'a list \<Rightarrow> 'a list"
  assumes srt_mset: "mset (srt xs) = mset xs"
    and srt_ordered: "ordered (srt xs)"
begin

lemma srt_set: "set (srt xs) = set xs"
  by (metis srt_mset set_mset_mset)

lemma srt_length: "length (srt xs) = length xs"
  by (metis srt_mset size_mset)

lemma srt_distinct: "distinct (srt xs) \<longleftrightarrow> distinct xs"
  by (metis srt_mset mset_eq_imp_distinct_iff)

end

subsection \<open>Insertion sort meets the contract\<close>

lemma length_element_swap [simp]: "length (element_swap xs a b) = length xs"
  by (simp add: element_swap_def)

lemma mset_element_swap:
  "a < length xs \<Longrightarrow> b < length xs \<Longrightarrow> mset (element_swap xs a b) = mset xs"
  by (simp add: element_swap_def mset_swap)

lemma nth_element_swap:
  "a < length xs \<Longrightarrow> b < length xs \<Longrightarrow>
   element_swap xs a b ! k = (if k = a then xs ! b else if k = b then xs ! a else xs ! k)"
  by (simp add: element_swap_def nth_list_update)

lemma mset_insertion_inner:
  "j < length xs \<Longrightarrow> mset (insertion_inner lt start xs j) = mset xs"
  by (induction lt start xs j rule: insertion_inner.induct) (auto simp: mset_element_swap)

lemma length_insertion_inner [simp]: "length (insertion_inner lt start xs j) = length xs"
  by (induction lt start xs j rule: insertion_inner.induct) auto

lemma mset_insertion_outer:
  "start + n \<le> length xs \<Longrightarrow> mset (insertion_outer lt start n xs i) = mset xs"
proof (induction lt start n xs i rule: insertion_outer.induct)
  case (1 lt start n xs i)
  then show ?case
    by (subst insertion_outer.simps) (simp add: mset_insertion_inner)
qed

context strict_weak_order
begin

definition ordered_between :: "'a list \<Rightarrow> nat \<Rightarrow> nat \<Rightarrow> bool" where
  "ordered_between xs lo hi \<longleftrightarrow> (\<forall>p q. lo \<le> p \<and> p < q \<and> q < hi \<longrightarrow> \<not> lt (xs ! q) (xs ! p))"

text \<open>Position \<open>j\<close> holds the element being sifted down; everything else up to \<open>i\<close> is ordered.\<close>

definition sifting :: "nat \<Rightarrow> nat \<Rightarrow> 'a list \<Rightarrow> nat \<Rightarrow> bool" where
  "sifting start i xs j \<longleftrightarrow> start \<le> j \<and> j \<le> i \<and> i < length xs \<and>
     (\<forall>p q. start \<le> p \<and> p < q \<and> q \<le> i \<and> p \<noteq> j \<and> q \<noteq> j \<longrightarrow> \<not> lt (xs ! q) (xs ! p)) \<and>
     (\<forall>q. j < q \<and> q \<le> i \<longrightarrow> \<not> lt (xs ! q) (xs ! j))"

lemma sifting_step:
  assumes "sifting start i xs (Suc j)" "start < Suc j" "lt (xs ! Suc j) (xs ! j)"
  shows "sifting start i (element_swap xs j (Suc j)) j"
proof -
  from assms have b: "start \<le> j" "Suc j \<le> i" "i < length xs"
    and o: "\<And>p q. start \<le> p \<Longrightarrow> p < q \<Longrightarrow> q \<le> i \<Longrightarrow> p \<noteq> Suc j \<Longrightarrow> q \<noteq> Suc j \<Longrightarrow> \<not> lt (xs ! q) (xs ! p)"
    and r: "\<And>q. Suc j < q \<Longrightarrow> q \<le> i \<Longrightarrow> \<not> lt (xs ! q) (xs ! Suc j)"
    by (auto simp: sifting_def)
  have sw: "element_swap xs j (Suc j) ! k =
      (if k = j then xs ! Suc j else if k = Suc j then xs ! j else xs ! k)" for k
    using b by (simp add: nth_element_swap)
  show ?thesis
    unfolding sifting_def
  proof (intro conjI allI impI)
    fix p q assume pq: "start \<le> p \<and> p < q \<and> q \<le> i \<and> p \<noteq> j \<and> q \<noteq> j"
    show "\<not> lt (element_swap xs j (Suc j) ! q) (element_swap xs j (Suc j) ! p)"
      using pq b(1) o [of p j] o [of j q] o [of p q] by (auto simp: sw)
  next
    fix q assume q: "j < q \<and> q \<le> i"
    show "\<not> lt (element_swap xs j (Suc j) ! q) (element_swap xs j (Suc j) ! j)"
      using q r [of q] lt_asym [OF assms(3)] by (auto simp: sw)
  qed (use b in simp_all)
qed

lemma sifting_stop:
  assumes "sifting start i xs j" "j = start \<or> \<not> lt (xs ! j) (xs ! (j - 1))"
  shows "ordered_between xs start (Suc i)"
  unfolding ordered_between_def
proof (intro allI impI)
  fix p q assume pq: "start \<le> p \<and> p < q \<and> q < Suc i"
  show "\<not> lt (xs ! q) (xs ! p)"
  proof (cases "q = j")
    case True
    then have lt: "\<not> lt (xs ! j) (xs ! (j - 1))" using assms(2) pq by auto
    show ?thesis
    proof (cases "p = j - 1")
      case False
      then have "start \<le> p" "p < j - 1" "j - 1 \<le> i" "p \<noteq> j" "j - 1 \<noteq> j" using pq True by auto
      then have "\<not> lt (xs ! (j - 1)) (xs ! p)"
        using assms(1) unfolding sifting_def by blast
      with lt True show ?thesis using lt_negtrans by blast
    qed (use lt True in simp)
  next
    case False
    then show ?thesis using assms(1) pq by (cases "p = j") (auto simp: sifting_def)
  qed
qed

lemma insertion_inner_ordered:
  "sifting start i xs j \<Longrightarrow> ordered_between (insertion_inner lt start xs j) start (Suc i)"
proof (induction j arbitrary: xs)
  case 0
  then show ?case using sifting_stop [of start i xs 0] by (auto simp: sifting_def)
next
  case (Suc j)
  show ?case
  proof (cases "start < Suc j \<and> lt (xs ! Suc j) (xs ! j)")
    case True
    then show ?thesis using Suc sifting_step by auto
  next
    case False
    moreover have "start \<le> Suc j" using Suc.prems by (simp add: sifting_def)
    ultimately show ?thesis using sifting_stop [OF Suc.prems] by auto
  qed
qed

lemma sifting_start:
  "ordered_between xs start i \<Longrightarrow> start \<le> i \<Longrightarrow> i < length xs \<Longrightarrow> sifting start i xs i"
  by (auto simp: sifting_def ordered_between_def)

lemma insertion_outer_ordered:
  "ordered_between xs start i \<Longrightarrow> start \<le> i \<Longrightarrow> i \<le> start + n \<Longrightarrow> start + n \<le> length xs \<Longrightarrow>
   ordered_between (insertion_outer lt start n xs i) start (start + n)"
proof (induction "start + n - i" arbitrary: xs i)
  case 0
  then show ?case by (subst insertion_outer.simps) simp
next
  case (Suc k)
  then have "i < start + n" by simp
  moreover have "ordered_between (insertion_inner lt start xs i) start (Suc i)"
    using Suc.prems \<open>i < start + n\<close> by (intro insertion_inner_ordered sifting_start) auto
  ultimately show ?case
    using Suc.hyps(1) [of "Suc i" "insertion_inner lt start xs i"] Suc.hyps(2) Suc.prems
    by (subst insertion_outer.simps) simp
qed

lemma cc_sort_ordered: "ordered (cc_sort lt xs)"
proof -
  have len: "length (insertion_outer lt 0 (length xs) xs 1) = length xs"
    using mset_insertion_outer [of 0 "length xs" xs lt 1] by (metis size_mset add_0 order_refl)
  have "ordered_between (insertion_outer lt 0 (length xs) xs 1) 0 (length xs)"
  proof (cases xs)
    case Nil
    then show ?thesis by (simp add: ordered_between_def)
  next
    case (Cons a list)
    then show ?thesis
      using insertion_outer_ordered [of xs 0 1 "length xs"] by (simp add: ordered_between_def)
  qed
  then show ?thesis
    using len by (auto simp: ordered_iff_nth ordered_between_def cc_sort_def sort_insertion_def)
qed

end

lemma mset_cc_sort [simp]: "mset (cc_sort lt xs) = mset xs"
  by (simp add: cc_sort_def sort_insertion_def mset_insertion_outer)

lemma set_cc_sort [simp]: "set (cc_sort lt xs) = set xs"
  by (metis mset_cc_sort set_mset_mset)

lemma length_cc_sort [simp]: "length (cc_sort lt xs) = length xs"
  by (metis mset_cc_sort size_mset)

lemma distinct_cc_sort [simp]: "distinct (cc_sort lt xs) = distinct xs"
  by (metis mset_cc_sort mset_eq_imp_distinct_iff)

interpretation key_order: strict_weak_order "\<lambda>a b. f a < f b" for f :: "'a \<Rightarrow> 'k::linorder"
  by unfold_locales auto

interpretation key_sort: range_sort "\<lambda>a b. f a < f b" "cc_sort (\<lambda>a b. f a < f b)"
  for f :: "'a \<Rightarrow> 'k::linorder"
  by unfold_locales (simp_all add: key_order.cc_sort_ordered)

text \<open>Sorting by a key into a linear order: the keys come out ascending.\<close>

lemma cc_sort_sorted: "sorted (map f (cc_sort (\<lambda>a b. (f a :: 'k::linorder) < f b) xs))"
  using key_sort.srt_ordered [of f xs]
  by (simp add: key_order.ordered_def sorted_map sorted_wrt_map not_less)

lemma cc_sort_strict_sorted:
  "distinct (map f xs) \<Longrightarrow> sorted_wrt (<) (map f (cc_sort (\<lambda>a b. (f a :: 'k::linorder) < f b) xs))"
  using cc_sort_sorted [of f xs] mset_cc_sort [of "\<lambda>a b. f a < f b" xs]
  by (metis mset_map mset_eq_imp_distinct_iff strict_sorted_iff)

lemma cc_sort_eq_sort: "cc_sort (<) (xs :: 'k::linorder list) = sort xs"
  using cc_sort_sorted [of "\<lambda>x. x" xs] properties_for_sort [of "cc_sort (<) xs" xs] by simp

text \<open>Elements with distinct keys come out in one order, whatever order they went in.\<close>

lemma strict_sorted_map_unique:
  assumes "sorted_wrt (<) (map f xs)" "sorted_wrt (<) (map (f :: 'a \<Rightarrow> 'k::linorder) ys)" "set xs = set ys"
  shows "xs = ys"
proof -
  have "map f xs = map f ys" using assms by (intro sorted_wrt_less_unique) auto
  moreover have "inj_on f (set xs \<union> set ys)"
    using assms by (auto simp: strict_sorted_iff distinct_map)
  ultimately show ?thesis by (rule map_inj_on)
qed

lemma cc_sort_unique:
  assumes "mset xs = mset ys" "distinct (map f xs)"
  shows "cc_sort (\<lambda>a b. (f a :: 'k::linorder) < f b) xs = cc_sort (\<lambda>a b. f a < f b) ys"
proof -
  let ?s = "cc_sort (\<lambda>a b. f a < f b)"
  have inj: "inj_on f (set xs)" and dx: "distinct xs" using assms(2) by (auto simp: distinct_map)
  have dy: "distinct (map f ys)" using assms by (metis mset_map mset_eq_imp_distinct_iff)
  have set: "set xs = set ys" using assms(1) by (metis set_mset_mset)
  have "map f (?s xs) = map f (?s ys)"
    by (rule sorted_wrt_less_unique) (use assms(2) dy set in \<open>auto intro: cc_sort_strict_sorted\<close>)
  then show ?thesis
    using inj set by (intro map_inj_on [of f "?s xs" "?s ys"]) auto
qed

lemma cc_sort_ident:
  assumes "sorted_wrt (<) (map f xs)"
  shows "cc_sort (\<lambda>a b. (f a :: 'k::linorder) < f b) xs = xs"
proof -
  let ?s = "cc_sort (\<lambda>a b. f a < f b) xs"
  have d: "distinct (map f xs)" using assms by (simp add: strict_sorted_iff)
  have "map f ?s = map f xs"
    by (rule sorted_wrt_less_unique) (use assms d in \<open>auto intro: cc_sort_strict_sorted\<close>)
  then show ?thesis
    using d by (intro map_inj_on [of f]) (auto simp: distinct_map)
qed

subsection \<open>Sorting indices\<close>

lemma sort_index_compare_key:
  "sort_index_compare keys (\<lambda>a b. f a < f b) = (\<lambda>i j. (f (keys ! i), i) < (f (keys ! j), j))"
  for f :: "'a \<Rightarrow> 'k::linorder"
  by (auto simp: sort_index_compare_def fun_eq_iff)

lemma mset_sort_indices [simp]: "mset (sort_indices keys lt is) = mset is"
  by (simp add: sort_indices_def)

lemma set_sort_indices [simp]: "set (sort_indices keys lt is) = set is"
  by (simp add: sort_indices_def)

lemma length_sort_indices [simp]: "length (sort_indices keys lt is) = length is"
  by (simp add: sort_indices_def)

lemma sort_indices_sorted:
  fixes f :: "'a \<Rightarrow> 'k::linorder"
  shows "sorted (map (\<lambda>i. f (keys ! i)) (sort_indices keys (\<lambda>a b. f a < f b) is))"
proof -
  have "sorted (map (\<lambda>i. (f (keys ! i), i)) (sort_indices keys (\<lambda>a b. f a < f b) is))"
    unfolding sort_indices_def sort_index_compare_key by (rule cc_sort_sorted)
  then show ?thesis
    by (auto simp: sorted_map less_eq_prod_def elim: sorted_wrt_mono_rel [rotated])
qed

lemma mset_map_sort_indices:
  "mset (map ((!) keys) (sort_indices keys lt [0..<length keys])) = mset keys"
proof -
  have "mset (map ((!) keys) (sort_indices keys lt [0..<length keys])) =
      mset (map ((!) keys) [0..<length keys])"
    by (metis mset_map mset_sort_indices)
  then show ?thesis by (simp add: map_nth)
qed

end
