(* ===== verification/Value_Builder.thy ===== *)
theory Value_Builder
  imports Value_Access Sort
begin

text \<open>
  Model of \<^verbatim>\<open>versioned-document/value_builder.hh\<close> and \<^verbatim>\<open>value_builder.cc\<close>: the two container builders.
  \<open>try_build\<close> is written as the source writes it: the index permutation, the duplicate scan, the size
  accumulation with its early exits, and the writes into one preallocated buffer.  The assertion behind
  \<^verbatim>\<open>CC_ASSERT_ENABLED\<close> is part of the model, so a result that the decoder would reject is a \<open>Fault\<close>.
\<close>

datatype value_build_error = BE_duplicate_key | BE_too_large

record builder_entry =
  be_key :: str
  be_encoded :: bytes

record value_builder =
  vb_kind :: value_kind
  vb_entries :: "builder_entry list"

definition builder_array :: value_builder where
  "builder_array = \<lparr>vb_kind = Kind_array, vb_entries = []\<rparr>"

definition builder_object :: value_builder where
  "builder_object = \<lparr>vb_kind = Kind_object, vb_entries = []\<rparr>"

definition push_encoded :: "value_builder \<Rightarrow> bytes \<Rightarrow> ('e, value_builder) result" where
  "push_encoded vb encoded =
     rbind (check (vb_kind vb = Kind_array)) (\<lambda>_.
       Ok (vb\<lparr>vb_entries := vb_entries vb @ [\<lparr>be_key = [], be_encoded = encoded\<rparr>]\<rparr>))"

definition set_encoded :: "value_builder \<Rightarrow> str \<Rightarrow> bytes \<Rightarrow> ('e, value_builder) result" where
  "set_encoded vb key encoded =
     rbind (check (vb_kind vb = Kind_object)) (\<lambda>_.
       Ok (vb\<lparr>vb_entries := vb_entries vb @ [\<lparr>be_key = key, be_encoded = encoded\<rparr>]\<rparr>))"

definition max_prefixed_size :: nat where
  "max_prefixed_size = 0xFFFFFFFF"

definition builder_order :: "value_kind \<Rightarrow> builder_entry list \<Rightarrow> nat list" where
  "builder_order k es =
     (if k = Kind_object
      then sort_indices es (\<lambda>a b. compare_key_bytes (be_key a) (be_key b) < 0) [0..<length es]
      else [0..<length es])"

text \<open>The scan for two adjacent equal keys, over the entries in emission order.\<close>

fun has_adjacent_duplicate :: "builder_entry list \<Rightarrow> bool" where
  "has_adjacent_duplicate (a # b # es) =
     (compare_key_bytes (be_key a) (be_key b) = 0 \<or> has_adjacent_duplicate (b # es))"
| "has_adjacent_duplicate _ = False"

fun accumulate_size :: "value_kind \<Rightarrow> builder_entry list \<Rightarrow> nat \<Rightarrow> (value_build_error, nat) result" where
  "accumulate_size k [] payload_size = Ok payload_size"
| "accumulate_size k (e # es) payload_size =
     (if k = Kind_object \<and> length (be_key e) > max_prefixed_size then Err BE_too_large
      else
        (let payload_size = (if k = Kind_object then payload_size + (length_prefix_size + length (be_key e))
                             else payload_size) + length (be_encoded e) in
         if payload_size > max_prefixed_size then Err BE_too_large
         else accumulate_size k es payload_size))"

fun emit_entries :: "value_kind \<Rightarrow> bytes \<Rightarrow> nat \<Rightarrow> builder_entry list \<Rightarrow> ('e, bytes) result" where
  "emit_entries k out cursor [] = Ok out"
| "emit_entries k out cursor (e # es) =
     rbind (if k = Kind_object then
              rbind (store_bytes_le 4 out cursor (word_of_nat (length (be_key e)))) (\<lambda>out.
              rbind (if length (be_key e) > 0 then memcpy_at out (cursor + length_prefix_size) (be_key e)
                     else Ok out) (\<lambda>out.
                Ok (out, cursor + length_prefix_size + length (be_key e))))
            else Ok (out, cursor)) (\<lambda>(out, cursor).
       rbind (memcpy_at out cursor (be_encoded e)) (\<lambda>out.
         emit_entries k out (cursor + length (be_encoded e)) es))"

definition emit_container :: "value_kind \<Rightarrow> nat \<Rightarrow> builder_entry list \<Rightarrow> ('e, bytes) result" where
  "emit_container k payload_size emitted =
     rbind (put_byte (make_uninitialized (1 + length_prefix_size + payload_size)) 0 (tag_of_kind k)) (\<lambda>out.
     rbind (store_bytes_le 4 out 1 (word_of_nat payload_size)) (\<lambda>out.
     rbind (store_bytes_le 4 out (1 + length_prefix_size) (word_of_nat (length emitted))) (\<lambda>out.
       emit_entries k out container_entries_offset emitted)))"

definition try_build :: "value_builder \<Rightarrow> (value_build_error, owned_value) result" where
  "try_build vb =
     (let k = vb_kind vb; es = vb_entries vb in
      if length es > max_prefixed_size then Err BE_too_large
      else
        (let emitted = map (\<lambda>i. es ! i) (builder_order k es) in
         if k = Kind_object \<and> has_adjacent_duplicate emitted then Err BE_duplicate_key
         else
           rbind (accumulate_size k es length_prefix_size) (\<lambda>payload_size.
           rbind (emit_container k payload_size emitted) (\<lambda>out.
           rbind (from_validated_bytes out) (\<lambda>r.
           rbind (check (case try_decode r of Ok _ \<Rightarrow> True | _ \<Rightarrow> False)) (\<lambda>_. Ok r))))))"

definition build :: "value_builder \<Rightarrow> ('e, owned_value) result" where
  "build vb = (case try_build vb of Ok v \<Rightarrow> Ok v | _ \<Rightarrow> Fault)"

subsection \<open>The size pass and the write pass\<close>

definition entry_bytes :: "value_kind \<Rightarrow> builder_entry \<Rightarrow> bytes" where
  "entry_bytes k e =
     (if k = Kind_object then u32le (length (be_key e)) @ be_key e else []) @ be_encoded e"

lemma accumulate_size_eq:
  assumes "p \<le> max_prefixed_size"
  shows "accumulate_size k es p =
    (let n = p + length (concat (map (entry_bytes k) es)) in
     if n > max_prefixed_size then Err BE_too_large else Ok n)"
  using assms
  by (induction es arbitrary: p) (auto simp: Let_def entry_bytes_def not_less)

lemma memcpy_at_eq:
  "off + length src \<le> length dst \<Longrightarrow> memcpy_at dst off src = Ok (take off dst @ src @ drop (off + length src) dst)"
  by (simp add: memcpy_at_def)

lemma memcpy_at_Nil: "off \<le> length dst \<Longrightarrow> memcpy_at dst off [] = Ok dst"
  by (simp add: memcpy_at_def)

lemma emit_entries_eq:
  assumes "cursor + length (concat (map (entry_bytes k) es)) \<le> length out"
    and "k = Kind_object \<Longrightarrow> \<forall>e \<in> set es. length (be_key e) \<le> max_prefixed_size"
  shows "emit_entries k out cursor es =
    (Ok (take cursor out @ concat (map (entry_bytes k) es) @
        drop (cursor + length (concat (map (entry_bytes k) es))) out) :: ('e, bytes) result)"
  using assms
proof (induction es arbitrary: cursor out)
  case (Cons e es)
  let ?b = "entry_bytes k e" and ?rest = "concat (map (entry_bytes k) es)"
  define out' where "out' = take cursor out @ ?b @ drop (cursor + length ?b) out"
  have fits: "cursor + length ?b \<le> length out" using Cons.prems(1) by simp
  have "k = Kind_object \<longrightarrow> unat (word_of_nat (length (be_key e)) :: 64 word) = length (be_key e)"
    using Cons.prems(2) by (auto intro!: unat_word_of_nat_u32 simp: max_prefixed_size_def)
  then have "emit_entries k out cursor (e # es) = (emit_entries k out' (cursor + length ?b) es :: ('e, bytes) result)"
    using fits
    by (auto simp: out'_def entry_bytes_def store_bytes_le_eq memcpy_at_def ac_simps simp del: le_bytes.simps)
  also have "\<dots> = Ok (take (cursor + length ?b) out' @ ?rest @ drop (cursor + length ?b + length ?rest) out')"
    using Cons.prems by (intro Cons.IH) (auto simp: out'_def)
  finally show ?case using fits by (simp add: out'_def ac_simps)
qed simp

definition built :: "value_kind \<Rightarrow> builder_entry list \<Rightarrow> bytes" where
  "built k es = enc_container k (length es) (concat (map (entry_bytes k) es))"

lemma write_container:
  assumes "4 + length (concat (map (entry_bytes k) es)) \<le> max_prefixed_size" "length es \<le> max_prefixed_size"
    and "k = Kind_object \<Longrightarrow> \<forall>e \<in> set es. length (be_key e) \<le> max_prefixed_size"
    and "n = 4 + length (concat (map (entry_bytes k) es))"
  shows "emit_container k n es = Ok (built k es)"
proof -
  let ?body = "concat (map (entry_bytes k) es)"
  define b0 where "b0 = (make_uninitialized (1 + 4 + n))[0 := tag_of_kind k]"
  define b1 where "b1 = take 1 b0 @ u32le n @ drop 5 b0"
  define b2 where "b2 = take 5 b1 @ u32le (length es) @ drop 9 b1"
  have u: "unat (word_of_nat n :: 64 word) = n" "unat (word_of_nat (length es) :: 64 word) = length es"
    using assms(1,2) unfolding assms(4) max_prefixed_size_def by (intro unat_word_of_nat_u32; simp)+
  have l0: "length b0 = 5 + n" by (simp add: b0_def)
  have t0: "take 1 b0 = [tag_of_kind k]" by (simp add: b0_def take_tagged_storage)
  have l1: "length b1 = 5 + n" by (simp add: b1_def l0)
  have l2: "length b2 = 5 + n" using assms(4) by (simp add: b2_def l1)
  have t2: "take 9 b2 = tag_of_kind k # u32le n @ u32le (length es)"
    using l0 t0 by (simp add: b2_def b1_def del: le_bytes.simps)
  have s1: "store_bytes_le 4 b0 1 (word_of_nat n) = Ok b1"
    unfolding b1_def using u(1) l0 by (simp add: store_bytes_le_eq del: le_bytes.simps)
  have s2: "store_bytes_le 4 b1 (1 + 4) (word_of_nat (length es)) = Ok b2"
    unfolding b2_def using u(2) l1 assms(4) by (simp add: store_bytes_le_eq del: le_bytes.simps)
  have "emit_container k n es = emit_entries k b2 9 es"
    unfolding emit_container_def put_byte_def b0_def [symmetric] by (simp add: s1 [simplified] s2 [simplified])
  also have "\<dots> = Ok (take 9 b2 @ ?body @ drop (9 + length ?body) b2)"
    by (rule emit_entries_eq) (use assms l2 in auto)
  finally show ?thesis
    using l2 t2 assms(4) by (simp add: built_def enc_container_def del: le_bytes.simps)
qed

subsection \<open>The emission order\<close>

lemma has_adjacent_duplicate_iff:
  "sorted (map be_key es) \<Longrightarrow> has_adjacent_duplicate es \<longleftrightarrow> \<not> distinct (map be_key es)"
proof (induction es rule: has_adjacent_duplicate.induct)
  case (1 a b es)
  then show ?case by (auto simp: compare_key_bytes_def)
qed auto

definition emission :: "value_kind \<Rightarrow> builder_entry list \<Rightarrow> builder_entry list" where
  "emission k es = map ((!) es) (builder_order k es)"

lemma emission_array: "k \<noteq> Kind_object \<Longrightarrow> emission k es = es"
  by (simp add: emission_def builder_order_def map_nth)

lemma mset_emission: "mset (emission k es) = mset es"
proof (cases "k = Kind_object")
  case True
  then show ?thesis using mset_map_sort_indices [of es] by (simp add: emission_def builder_order_def)
qed (simp add: emission_array)

lemma emission_sorted: "sorted (map be_key (emission Kind_object es))"
  using sort_indices_sorted [of be_key es "[0..<length es]"]
  by (simp add: emission_def builder_order_def compare_key_bytes_def comp_def)

lemma length_emission [simp]: "length (emission k es) = length es"
  by (metis mset_emission size_mset)

lemma set_emission [simp]: "set (emission k es) = set es"
  by (metis mset_emission set_mset_mset)

lemma length_concat_mset: "mset xs = mset ys \<Longrightarrow> length (concat (map f xs)) = length (concat (map f ys))"
  by (metis (no_types, lifting) length_concat map_map mset_map sum_mset_sum_list)

lemma distinct_emission [simp]: "distinct (map be_key (emission k es)) \<longleftrightarrow> distinct (map be_key es)"
  by (metis mset_emission mset_map mset_eq_imp_distinct_iff)

lemma try_build_eq:
  assumes "vb_kind vb = k" "vb_entries vb = es" 
  shows "try_build vb =
    (if length es > max_prefixed_size then Err BE_too_large
     else if k = Kind_object \<and> \<not> distinct (map be_key es) then Err BE_duplicate_key
     else if 4 + length (concat (map (entry_bytes k) es)) > max_prefixed_size then Err BE_too_large
     else if (\<exists>v. try_decode (built k (emission k es)) = Ok v) then Ok (built k (emission k es))
     else Fault)"
proof -
  let ?n = "4 + length (concat (map (entry_bytes k) es))"
  have dup: "k = Kind_object \<and> has_adjacent_duplicate (emission k es) \<longleftrightarrow> k = Kind_object \<and> \<not> distinct (map be_key es)"
    using has_adjacent_duplicate_iff [OF emission_sorted [of es]] by auto
  have n: "?n = 4 + length (concat (map (entry_bytes k) (emission k es)))"
    by (simp add: length_concat_mset [OF mset_emission [of k es]])
  have keys: "\<forall>e \<in> set es. length (be_key e) \<le> max_prefixed_size" if "?n \<le> max_prefixed_size" "k = Kind_object"
  proof -
    have "length (be_key e) \<le> length (concat (map (entry_bytes k) es))" if "e \<in> set es" for e
      using that \<open>k = Kind_object\<close> by (induction es) (auto simp: entry_bytes_def)
    with that show ?thesis by fastforce
  qed
  show ?thesis
  proof (cases "length es > max_prefixed_size \<or> (k = Kind_object \<and> \<not> distinct (map be_key es)) \<or> ?n > max_prefixed_size")
    case True
    then show ?thesis
      using assms dup
      by (auto simp: try_build_def Let_def emission_def [symmetric] accumulate_size_eq max_prefixed_size_def)
  next
    case False
    then have "\<not> (k = Kind_object \<and> has_adjacent_duplicate (emission k es))" using dup by simp
    moreover have "accumulate_size k es 4 = Ok ?n"
      using False by (simp add: accumulate_size_eq Let_def max_prefixed_size_def)
    moreover have "built k (emission k es) \<noteq> []" by (simp add: built_def enc_container_def)
    moreover have "emit_container k ?n (emission k es) = (Ok (built k (emission k es)) :: (value_build_error, bytes) result)"
      by (rule write_container) (use False keys n in auto)
    ultimately show ?thesis
      using False assms
      by (auto simp: try_build_def Let_def emission_def [symmetric] check_def from_validated_bytes_eq
          split: result.split)
  qed
qed

lemma emission_unique:
  assumes "distinct (map be_key es)" "sorted_wrt (<) (map be_key es')" "set es = set es'"
  shows "emission Kind_object es = es'"
  by (rule strict_sorted_map_unique [of be_key])
    (use assms emission_sorted in \<open>auto simp: strict_sorted_iff\<close>)

lemma emission_perm:
  assumes "distinct (map be_key es)" "mset es = mset es'"
  shows "emission Kind_object es = emission Kind_object es'"
proof (rule emission_unique [OF assms(1)])
  have "distinct (map be_key es')" using assms by (metis mset_map mset_eq_imp_distinct_iff)
  then show "sorted_wrt (<) (map be_key (emission Kind_object es'))"
    by (simp add: strict_sorted_iff emission_sorted)
  show "set es = set (emission Kind_object es')" using assms(2) by (metis set_emission set_mset_mset)
qed

subsection \<open>What a builder builds\<close>

definition entries_of :: "(str \<times> val) list \<Rightarrow> builder_entry list" where
  "entries_of kvs = map (\<lambda>(k, v). \<lparr>be_key = k, be_encoded = enc v\<rparr>) kvs"

lemma be_key_entries_of [simp]: "map be_key (entries_of kvs) = map fst kvs"
  by (induction kvs) (auto simp: entries_of_def)

lemma length_entries_of [simp]: "length (entries_of kvs) = length kvs"
  by (simp add: entries_of_def)

lemma concat_entries_of: "concat (map (entry_bytes k) (entries_of kvs)) = enc_entries (k = Kind_object) kvs"
  by (induction kvs) (auto simp: entries_of_def entry_bytes_def enc_entry_def)

lemma built_entries_of:
  "built Kind_object (entries_of kvs) = enc (VObj kvs)"
  "built Kind_array (entries_of (map (Pair []) vs)) = enc (VArr vs)"
  unfolding built_def concat_entries_of by (simp_all add: enc_entries_object enc_entries_array)

lemma sort_key_strict: "distinct (map fst kvs) \<Longrightarrow> sorted_wrt (<) (map fst (sort_key fst kvs))"
  for kvs :: "(str \<times> val) list"
  by (simp add: strict_sorted_iff) (metis mset_map mset_sort mset_eq_imp_distinct_iff)

lemma emission_entries_of:
  "distinct (map fst kvs) \<Longrightarrow> emission Kind_object (entries_of kvs) = entries_of (sort_key fst kvs)"
  by (rule emission_unique) (simp_all add: sort_key_strict, simp add: entries_of_def)

lemma try_decode_enc_iff:
  "canonical v \<Longrightarrow> (\<exists>b. try_decode (enc v) = Ok b) \<longleftrightarrow> vdepth v \<le> max_depth"
  using try_decode_enc [of v] try_decode_Ok [of "enc v"] enc_inject [of v] by metis

lemma canonical_VObj_sort:
  assumes "\<forall>(k, v) \<in> set kvs. canonical v" "distinct (map fst kvs)" "4 + length (enc_entries True kvs) \<le> max_prefixed_size"
  shows "canonical (VObj (sort_key fst kvs))"
proof -
  have "length (enc_entries True (sort_key fst kvs)) = length (enc_entries True kvs)"
    unfolding enc_entries_def by (rule length_concat_mset) simp
  then show ?thesis using assms sort_key_strict [of kvs] by (simp add: enc_entries_object max_prefixed_size_def)
qed

lemma try_build_object:
  assumes "\<forall>(k, v) \<in> set kvs. canonical v"
  shows "try_build \<lparr>vb_kind = Kind_object, vb_entries = entries_of kvs\<rparr> =
    (if length kvs > max_prefixed_size then Err BE_too_large
     else if \<not> distinct (map fst kvs) then Err BE_duplicate_key
     else if 4 + length (enc_entries True kvs) > max_prefixed_size then Err BE_too_large
     else if vdepth (VObj kvs) \<le> max_depth then Ok (enc (VObj (sort_key fst kvs))) else Fault)"
proof -
  have d: "vdepth (VObj (sort_key fst kvs)) = vdepth (VObj kvs)" by (simp add: vdepth.simps)
  note eq = try_build_eq [of "\<lparr>vb_kind = Kind_object, vb_entries = entries_of kvs\<rparr>", OF refl refl, simplified]
  show ?thesis
    unfolding eq
    using canonical_VObj_sort [OF assms] try_decode_enc_iff [of "VObj (sort_key fst kvs)"]
    by (auto simp: concat_entries_of emission_entries_of built_entries_of d simp del: enc.simps)
qed

lemma try_build_array:
  assumes "\<forall>v \<in> set vs. canonical v"
  shows "try_build \<lparr>vb_kind = Kind_array, vb_entries = entries_of (map (Pair []) vs)\<rparr> =
    (if length vs > max_prefixed_size \<or> 4 + length (concat (map enc vs)) > max_prefixed_size then Err BE_too_large
     else if vdepth (VArr vs) \<le> max_depth then Ok (enc (VArr vs)) else Fault)"
proof -
  have "canonical (VArr vs)" if "4 + length (concat (map enc vs)) \<le> max_prefixed_size"
    using that assms by (simp add: max_prefixed_size_def)
  then show ?thesis
    using try_decode_enc_iff [of "VArr vs"]
    by (auto simp: try_build_eq [OF refl refl] concat_entries_of emission_array built_entries_of
        enc_entries_array simp del: enc.simps)
qed

lemma try_build_perm:
  assumes "mset es = mset es'"
  shows "try_build \<lparr>vb_kind = Kind_object, vb_entries = es\<rparr> = try_build \<lparr>vb_kind = Kind_object, vb_entries = es'\<rparr>"
proof -
  have "length es = length es'" using assms by (metis size_mset)
  moreover have "distinct (map be_key es) = distinct (map be_key es')"
    using assms by (metis mset_map mset_eq_imp_distinct_iff)
  ultimately show ?thesis
    using length_concat_mset [OF assms, of "entry_bytes Kind_object"] emission_perm [OF _ assms]
    by (auto simp: try_build_eq [OF refl refl])
qed


text \<open>A chain of \<^verbatim>\<open>set\<close> (or \<^verbatim>\<open>push\<close>) calls on a fresh builder.\<close>

primrec set_all :: "value_builder \<Rightarrow> (str \<times> val) list \<Rightarrow> ('e, value_builder) result" where
  "set_all vb [] = Ok vb"
| "set_all vb (kv # kvs) = rbind (set_encoded vb (fst kv) (enc (snd kv))) (\<lambda>vb. set_all vb kvs)"

primrec push_all :: "value_builder \<Rightarrow> val list \<Rightarrow> ('e, value_builder) result" where
  "push_all vb [] = Ok vb"
| "push_all vb (v # vs) = rbind (push_encoded vb (enc v)) (\<lambda>vb. push_all vb vs)"

lemma set_all_eq:
  "set_all \<lparr>vb_kind = Kind_object, vb_entries = es\<rparr> kvs =
     (Ok \<lparr>vb_kind = Kind_object, vb_entries = es @ entries_of kvs\<rparr> :: ('e, value_builder) result)"
  by (induction kvs arbitrary: es) (auto simp: set_encoded_def entries_of_def)

lemma push_all_eq:
  "push_all \<lparr>vb_kind = Kind_array, vb_entries = es\<rparr> vs =
     (Ok \<lparr>vb_kind = Kind_array, vb_entries = es @ entries_of (map (Pair []) vs)\<rparr> :: ('e, value_builder) result)"
  by (induction vs arbitrary: es) (auto simp: push_encoded_def entries_of_def)

subsection \<open>Properties\<close>

text \<open>
  C20.  An object builder turns any sequence of \<^verbatim>\<open>set\<close> calls into the canonical encoding of the object with
  the keys sorted; it reports a duplicate key or an oversized payload exactly when there is one, and its
  closing assertion fires exactly when the nesting exceeds what the decoder accepts.
\<close>

theorem object_builder_correct:
  assumes "\<forall>(k, v) \<in> set kvs. canonical v"
  shows "rbind (set_all builder_object kvs) try_build =
    (if length kvs > max_prefixed_size then Err BE_too_large
     else if \<not> distinct (map fst kvs) then Err BE_duplicate_key
     else if 4 + length (enc_entries True kvs) > max_prefixed_size then Err BE_too_large
     else if vdepth (VObj kvs) \<le> max_depth then Ok (enc (VObj (sort_key fst kvs))) else Fault)"
  using try_build_object [OF assms] by (simp add: builder_object_def set_all_eq)

theorem object_builder_correct_witness:
  "rbind (set_all builder_object [([98], VNull), ([97], VBool True)]) try_build =
     Ok (enc (VObj [([97], VBool True), ([98], VNull)]))"
  using object_builder_correct [of "[([98], VNull), ([97], VBool True)]"]
  by (simp add: max_prefixed_size_def max_depth_def vdepth.simps enc_entry_def)

text \<open>
  An array builder appends in call order: the result is the encoding of exactly the pushed values, or
  the size error, or the depth assertion.
\<close>

theorem array_builder_correct:
  assumes "\<forall>v \<in> set vs. canonical v"
  shows "rbind (push_all builder_array vs) try_build =
    (if length vs > max_prefixed_size \<or> 4 + length (concat (map enc vs)) > max_prefixed_size then Err BE_too_large
     else if vdepth (VArr vs) \<le> max_depth then Ok (enc (VArr vs)) else Fault)"
  using try_build_array [OF assms] by (simp add: builder_array_def push_all_eq)

theorem array_builder_correct_witness:
  "rbind (push_all builder_array [VBool True, VNull]) try_build = Ok (enc (VArr [VBool True, VNull]))"
  using array_builder_correct [of "[VBool True, VNull]"]
  by (simp add: max_prefixed_size_def max_depth_def vdepth.simps)

text \<open>
  An object literal is order-independent: two builders holding the same entries in any order produce
  the same bytes or the same error, whatever the entries are.
\<close>

theorem object_builder_order_independent:
  assumes "mset es = mset es'"
  shows "try_build \<lparr>vb_kind = Kind_object, vb_entries = es\<rparr> = try_build \<lparr>vb_kind = Kind_object, vb_entries = es'\<rparr>"
  by (rule try_build_perm [OF assms])

theorem object_builder_order_independent_witness:
  "try_build \<lparr>vb_kind = Kind_object, vb_entries = entries_of [([98], VNull), ([97], VNull)]\<rparr> =
   try_build \<lparr>vb_kind = Kind_object, vb_entries = entries_of [([97], VNull), ([98], VNull)]\<rparr>"
  by (rule object_builder_order_independent) (simp add: entries_of_def)

end
