(* ===== verification/Search.thy ===== *)
theory Search
  imports Prelude
begin

text \<open>
  Model of \<^verbatim>\<open>clean-core/algorithm/search.hh\<close>: binary search over a range that is partitioned by a
  predicate, and the two searches over a sorted range that are built on it.
\<close>

fun search_partition_point :: "'a list \<Rightarrow> nat \<Rightarrow> nat \<Rightarrow> ('a \<Rightarrow> bool) \<Rightarrow> nat" where
  "search_partition_point values start n pred =
     (if n > 0 then
        (let half = n div 2; mid = start + half in
         if pred (values ! mid)
         then search_partition_point values (mid + 1) (n - (half + 1)) pred
         else search_partition_point values start half pred)
      else start)"

declare search_partition_point.simps [simp del]

definition partition_point :: "'a list \<Rightarrow> ('a \<Rightarrow> bool) \<Rightarrow> nat" where
  "partition_point values pred = search_partition_point values 0 (length values) pred"

definition first_at_least_in_sorted :: "'a list \<Rightarrow> 'b \<Rightarrow> ('a \<Rightarrow> 'b \<Rightarrow> bool) \<Rightarrow> nat" where
  "first_at_least_in_sorted values v compare =
     search_partition_point values 0 (length values) (\<lambda>e. compare e v)"

definition first_greater_in_sorted :: "'a list \<Rightarrow> 'a \<Rightarrow> ('a \<Rightarrow> 'a \<Rightarrow> bool) \<Rightarrow> nat" where
  "first_greater_in_sorted values v compare =
     search_partition_point values 0 (length values) (\<lambda>e. \<not> compare v e)"

definition find_in_sorted :: "'a list \<Rightarrow> 'a \<Rightarrow> ('a \<Rightarrow> 'a \<Rightarrow> bool) \<Rightarrow> nat option" where
  "find_in_sorted values v compare =
     (let idx = first_at_least_in_sorted values v compare in
      if idx < length values \<and> \<not> compare v (values ! idx) then Some idx else None)"

definition find_range_in_sorted :: "'a list \<Rightarrow> 'a \<Rightarrow> ('a \<Rightarrow> 'a \<Rightarrow> bool) \<Rightarrow> nat \<times> nat" where
  "find_range_in_sorted values v compare =
     (let size = length values;
          first = first_at_least_in_sorted values v compare;
          last = search_partition_point values first (size - first) (\<lambda>e. \<not> compare v e)
      in (first, last - first))"

text \<open>The range is partitioned: every element that satisfies the predicate is in front.\<close>

definition partitioned :: "('a \<Rightarrow> bool) \<Rightarrow> 'a list \<Rightarrow> bool" where
  "partitioned p xs \<longleftrightarrow> (\<forall>i j. i < j \<and> j < length xs \<and> p (xs ! j) \<longrightarrow> p (xs ! i))"

lemma search_step_right:
  "n > 0 \<Longrightarrow> p (xs ! (start + n div 2)) \<Longrightarrow>
   search_partition_point xs start n p =
   search_partition_point xs (start + n div 2 + 1) (n - (n div 2 + 1)) p"
  by (subst search_partition_point.simps) (simp add: Let_def)

lemma search_step_left:
  "n > 0 \<Longrightarrow> \<not> p (xs ! (start + n div 2)) \<Longrightarrow>
   search_partition_point xs start n p = search_partition_point xs start (n div 2) p"
  by (subst search_partition_point.simps) (simp add: Let_def)

lemma search_stop [simp]: "search_partition_point xs start 0 p = start"
  by (subst search_partition_point.simps) simp

definition splits_at :: "('a \<Rightarrow> bool) \<Rightarrow> 'a list \<Rightarrow> nat \<Rightarrow> nat \<Rightarrow> nat \<Rightarrow> bool" where
  "splits_at p xs lo hi r \<longleftrightarrow> lo \<le> r \<and> r \<le> hi \<and>
     (\<forall>i. lo \<le> i \<and> i < r \<longrightarrow> p (xs ! i)) \<and> (\<forall>i. r \<le> i \<and> i < hi \<longrightarrow> \<not> p (xs ! i))"

lemma search_partition_point_spec:
  assumes "partitioned p xs" "start + n \<le> length xs"
  shows "splits_at p xs start (start + n) (search_partition_point xs start n p)"
  using assms
proof (induction xs start n p rule: search_partition_point.induct)
  case (1 xs start n p)
  show ?case
  proof (cases "n > 0")
    case True
    let ?mid = "start + n div 2"
    have mid: "?mid < start + n" "?mid < length xs" using True "1.prems"(2) by auto
    show ?thesis
    proof (cases "p (xs ! ?mid)")
      case p: True
      have before: "\<forall>i. start \<le> i \<and> i < ?mid + 1 \<longrightarrow> p (xs ! i)"
        using p "1.prems"(1) mid by (auto simp: partitioned_def less_Suc_eq)
      have sum: "?mid + 1 + (n - (n div 2 + 1)) = start + n" using True by auto
      have "splits_at p xs (?mid + 1) (start + n) (search_partition_point xs start n p)"
        using "1.IH"(1) [OF True refl refl p "1.prems"(1)] "1.prems"(2)
        unfolding sum search_step_right [OF True, of p xs start, OF p] by simp
      then show ?thesis
        using before mid(1) unfolding splits_at_def by (meson not_le le_trans less_imp_le le_add1)
    next
      case p: False
      have after: "\<forall>i. ?mid \<le> i \<and> i < start + n \<longrightarrow> \<not> p (xs ! i)"
        using p "1.prems" unfolding partitioned_def by (metis le_less less_le_trans)
      have "splits_at p xs start ?mid (search_partition_point xs start n p)"
        using "1.IH"(2) [OF True refl refl p "1.prems"(1)] mid(2)
        unfolding search_step_left [OF True, of p xs start, OF p] by simp
      then show ?thesis
        using after mid(1) unfolding splits_at_def by (meson not_le le_trans less_imp_le)
    qed
  next
    case False
    then show ?thesis by (auto simp: splits_at_def)
  qed
qed

lemma partition_point_spec:
  assumes "partitioned p xs"
  shows "splits_at p xs 0 (length xs) (partition_point xs p)"
  using search_partition_point_spec [OF assms, of 0 "length xs"] by (simp add: partition_point_def)

lemma partitioned_less:
  "sorted_wrt (<) (xs :: 'a::linorder list) \<Longrightarrow> partitioned (\<lambda>e. e < v) xs"
  by (fastforce simp: partitioned_def sorted_wrt_iff_nth_less intro: less_trans)

lemma first_at_least_spec:
  assumes "sorted_wrt (<) (xs :: 'a::linorder list)"
  shows "splits_at (\<lambda>e. e < v) xs 0 (length xs) (first_at_least_in_sorted xs v (<))"
  using partition_point_spec [OF partitioned_less [OF assms, of v]]
  by (simp add: first_at_least_in_sorted_def partition_point_def)

lemma splits_at_not_less:
  "splits_at p xs lo hi r \<Longrightarrow> splits_at p xs lo hi r' \<Longrightarrow> \<not> r < r'"
  unfolding splits_at_def by (meson le_refl less_le_trans)

lemma splits_at_unique: "splits_at p xs lo hi r \<Longrightarrow> splits_at p xs lo hi r' \<Longrightarrow> r = r'"
  using splits_at_not_less [of p xs lo hi r r'] splits_at_not_less [of p xs lo hi r' r]
  by simp

lemma splits_at_nth:
  assumes "sorted_wrt (<) (xs :: 'a::linorder list)" "i < length xs"
  shows "splits_at (\<lambda>e. e < xs ! i) xs 0 (length xs) i"
  using assms by (auto simp: splits_at_def sorted_wrt_iff_nth_less not_less)
    (metis le_less linorder_not_less order.asym)

lemma find_in_sorted_Some:
  assumes "sorted_wrt (<) (xs :: 'a::linorder list)"
  shows "find_in_sorted xs v (<) = Some i \<longleftrightarrow> i < length xs \<and> xs ! i = v"
proof -
  let ?k = "first_at_least_in_sorted xs v (<)"
  have k: "?k = i" if "i < length xs" "xs ! i = v" for i
    using splits_at_unique [OF first_at_least_spec [OF assms, of v]] splits_at_nth [OF assms that(1)]
      that(2) by simp
  have "v \<le> xs ! ?k" if "?k < length xs"
    using first_at_least_spec [OF assms, of v] that by (auto simp: splits_at_def not_less)
  then have "find_in_sorted xs v (<) = (if ?k < length xs \<and> xs ! ?k = v then Some ?k else None)"
    by (auto simp: find_in_sorted_def Let_def not_less)
  then show ?thesis by (metis k option.distinct(1) option.inject)
qed

lemma find_in_sorted_None:
  assumes "sorted_wrt (<) (xs :: 'a::linorder list)"
  shows "find_in_sorted xs v (<) = None \<longleftrightarrow> v \<notin> set xs"
  using find_in_sorted_Some [OF assms, of v]
  by (metis in_set_conv_nth not_None_eq)

end
