(* ===== verification/Ids.thy ===== *)
theory Ids
  imports Endian String_View "HOL-Library.Product_Lexorder"
begin

text \<open>
  Model of \<^verbatim>\<open>versioned-document/ids.hh\<close>, \<^verbatim>\<open>clean-core/bytes/hash256\<close> and the id part of \<^verbatim>\<open>op.hh\<close>.

  An interned id is its canonical bytes: the intern table hands out one entry per byte sequence, so the
  pointer comparison of the source is equality of the bytes, and the order is by bytes only.
  A \<^verbatim>\<open>std::strong_ordering\<close> is an integer read by its sign.  Both the path order and the op-id order are
  written as the source's comparison functions and then shown to be linear orders, by instantiating the
  library's \<open>linorder\<close> class with them; the sorts and searches of the other components rest on that.
\<close>

type_synonym entity_id = str
type_synonym component_type_id = str
type_synonym property_id = str

definition id_compare_bytes :: "str \<Rightarrow> str \<Rightarrow> int" where
  "id_compare_bytes a b = sgn (sv_compare a b)"

datatype property_path =
  Property_path (pp_entity: entity_id) (pp_component: component_type_id) (pp_property: property_id)

definition path_compare_bytes :: "property_path \<Rightarrow> property_path \<Rightarrow> int" where
  "path_compare_bytes a b =
     (let by_entity = id_compare_bytes (pp_entity a) (pp_entity b) in
      if by_entity \<noteq> 0 then by_entity
      else
        (let by_component = id_compare_bytes (pp_component a) (pp_component b) in
         if by_component \<noteq> 0 then by_component
         else id_compare_bytes (pp_property a) (pp_property b)))"

text \<open>The 256-bit digest as four limbs, and its canonical 32 bytes.\<close>

datatype hash256 = Hash256 (l0: "64 word") (l1: "64 word") (l2: "64 word") (l3: "64 word")

definition hash_to_bytes :: "hash256 \<Rightarrow> bytes" where
  "hash_to_bytes h =
     concat (map (\<lambda>limb. map (\<lambda>b. ucast (drop_bit (b * 8) limb AND 0xFF)) [0..<8])
       [l0 h, l1 h, l2 h, l3 h])"

definition hash_from_bytes :: "bytes \<Rightarrow> ('e, hash256) result" where
  "hash_from_bytes data =
     rbind (check (length data = 32)) (\<lambda>_.
       Ok (Hash256 (load_bits_le data (0 * 8) 8) (load_bits_le data (1 * 8) 8)
                   (load_bits_le data (2 * 8) 8) (load_bits_le data (3 * 8) 8)))"

datatype op_id = Op_id (digest: hash256)

definition op_id_to_bytes :: "op_id \<Rightarrow> bytes" where
  "op_id_to_bytes i = hash_to_bytes (digest i)"

definition op_id_from_bytes :: "bytes \<Rightarrow> ('e, op_id) result" where
  "op_id_from_bytes data = rbind (hash_from_bytes data) (\<lambda>h. Ok (Op_id h))"

fun compare_byte_arrays :: "bytes \<Rightarrow> bytes \<Rightarrow> nat \<Rightarrow> int" where
  "compare_byte_arrays (a # as) (b # bs) (Suc n) =
     (if a \<noteq> b then (if a < b then -1 else 1) else compare_byte_arrays as bs n)"
| "compare_byte_arrays _ _ _ = 0"

definition op_id_compare_bytes :: "op_id \<Rightarrow> op_id \<Rightarrow> int" where
  "op_id_compare_bytes a b = compare_byte_arrays (op_id_to_bytes a) (op_id_to_bytes b) 32"

subsection \<open>Paths are linearly ordered\<close>

lemma id_compare_bytes_sign [simp]:
  "id_compare_bytes a b < 0 \<longleftrightarrow> a < b" "id_compare_bytes a b = 0 \<longleftrightarrow> a = b" "0 < id_compare_bytes a b \<longleftrightarrow> b < a"
  by (simp_all add: id_compare_bytes_def sgn_0_0)

definition path_key :: "property_path \<Rightarrow> str \<times> str \<times> str" where
  "path_key p = (pp_entity p, pp_component p, pp_property p)"

lemma path_key_inject [simp]: "path_key a = path_key b \<longleftrightarrow> a = b"
  by (cases a; cases b) (simp add: path_key_def)

lemma path_compare_key:
  "path_compare_bytes a b < 0 \<longleftrightarrow> path_key a < path_key b"
  "path_compare_bytes a b = 0 \<longleftrightarrow> a = b"
  "0 < path_compare_bytes a b \<longleftrightarrow> path_key b < path_key a"
  by (cases a; cases b; auto simp: path_compare_bytes_def path_key_def Let_def)+

instantiation property_path :: linorder
begin

definition less_property_path :: "property_path \<Rightarrow> property_path \<Rightarrow> bool" where
  "less_property_path a b \<longleftrightarrow> path_compare_bytes a b < 0"

definition less_eq_property_path :: "property_path \<Rightarrow> property_path \<Rightarrow> bool" where
  "less_eq_property_path a b \<longleftrightarrow> path_compare_bytes a b \<le> 0"

instance
proof
  fix x y z :: property_path
  have le: "a \<le> b \<longleftrightarrow> path_key a \<le> path_key b" for a b
    unfolding less_eq_property_path_def le_less path_compare_key by simp
  show "x < y \<longleftrightarrow> x \<le> y \<and> \<not> y \<le> x"
    unfolding le less_property_path_def path_compare_key by (auto simp: less_le)
  show "x \<le> x" "x \<le> y \<Longrightarrow> y \<le> z \<Longrightarrow> x \<le> z" "x \<le> y \<Longrightarrow> y \<le> x \<Longrightarrow> x = y" "x \<le> y \<or> y \<le> x"
    unfolding le by auto
qed

end

lemma path_compare_bytes_sign [simp]:
  "path_compare_bytes a b < 0 \<longleftrightarrow> a < b" "path_compare_bytes a b = 0 \<longleftrightarrow> a = b"
  "0 < path_compare_bytes a b \<longleftrightarrow> b < a"
  by (simp_all add: less_property_path_def path_compare_key)

subsection \<open>Op ids and their canonical bytes\<close>

lemma limb_bytes:
  "map (\<lambda>b. ucast (drop_bit (b * 8) limb AND 0xFF)) [0..<n] = le_bytes n (unat (limb :: 64 word))"
proof (induction n)
  case (Suc n)
  then show ?case by (simp only: upt_Suc_append le0 map_append list.map ucast_drop_bit_byte le_bytes_snoc)
qed simp

lemma hash_to_bytes_eq: "hash_to_bytes h = u64le (unat (l0 h)) @ u64le (unat (l1 h)) @ u64le (unat (l2 h)) @ u64le (unat (l3 h))"
  unfolding hash_to_bytes_def list.map concat.simps limb_bytes by simp

lemma length_hash_to_bytes [simp]: "length (hash_to_bytes h) = 32"
  by (simp add: hash_to_bytes_eq del: le_bytes.simps)

lemma length_op_id_to_bytes [simp]: "length (op_id_to_bytes i) = 32"
  by (simp add: op_id_to_bytes_def)

lemma load_limb:
  assumes "holds_at b off (u64le (unat (w :: 64 word)))"
  shows "load_bits_le b off 8 = w"
proof -
  have "le_nat (u64le (unat w)) = unat w"
    using unsigned_less [of w, where 'a = nat] by (intro le_nat_u64le) simp
  then have "unat (load_bits_le b off 8) = unat w"
    using unat_load_bits_le [of 8 off b] assms by (simp add: holds_at_def del: le_bytes.simps)
  then show ?thesis by (rule word_unat_eqI)
qed

lemma hash_from_to_bytes: "hash_from_bytes (hash_to_bytes h) = Ok h"
proof -
  have "holds_at (hash_to_bytes h) 0 (u64le (unat (l0 h)))" "holds_at (hash_to_bytes h) 8 (u64le (unat (l1 h)))"
    "holds_at (hash_to_bytes h) 16 (u64le (unat (l2 h)))" "holds_at (hash_to_bytes h) 24 (u64le (unat (l3 h)))"
    by (simp_all add: holds_at_def hash_to_bytes_eq del: le_bytes.simps)
  then show ?thesis by (simp add: hash_from_bytes_def load_limb)
qed

lemma hash_to_from_bytes:
  assumes "hash_from_bytes bs = Ok h"
  shows "hash_to_bytes h = bs"
proof -
  have len: "length bs = 32" using assms by (simp add: hash_from_bytes_def result_simps)
  have limb: "u64le (unat (load_bits_le bs off 8)) = take 8 (drop off bs)" if "off + 8 \<le> 32" for off
  proof -
    have "length (take 8 (drop off bs)) = 8" using that len by simp
    then show ?thesis
      using unat_load_bits_le [of 8 off bs] that len by (simp add: le_bytes_le_nat del: le_bytes.simps)
  qed
  have "hash_to_bytes h = take 8 (drop 0 bs) @ take 8 (drop 8 bs) @ take 8 (drop 16 bs) @ take 8 (drop 24 bs)"
    using assms by (auto simp: hash_from_bytes_def result_simps hash_to_bytes_eq limb simp del: le_bytes.simps)
  also have "\<dots> = bs"
    by (rule nth_equalityI) (use len in \<open>auto simp: nth_append\<close>)
  finally show ?thesis .
qed

lemma op_id_to_bytes_inject [simp]: "op_id_to_bytes a = op_id_to_bytes b \<longleftrightarrow> a = b"
proof
  assume "op_id_to_bytes a = op_id_to_bytes b"
  then have "(Ok (digest a) :: (unit, hash256) result) = Ok (digest b)"
    by (metis hash_from_to_bytes op_id_to_bytes_def)
  then show "a = b" by (cases a; cases b) simp
qed simp

lemma compare_byte_arrays_eq:
  "length as = n \<Longrightarrow> length bs = n \<Longrightarrow>
   compare_byte_arrays as bs n = (if as < bs then -1 else if as = bs then 0 else 1)"
  by (induction as bs n rule: compare_byte_arrays.induct) auto

instantiation op_id :: linorder
begin

definition less_op_id :: "op_id \<Rightarrow> op_id \<Rightarrow> bool" where
  "less_op_id a b \<longleftrightarrow> op_id_compare_bytes a b < 0"

definition less_eq_op_id :: "op_id \<Rightarrow> op_id \<Rightarrow> bool" where
  "less_eq_op_id a b \<longleftrightarrow> op_id_compare_bytes a b \<le> 0"

instance
proof
  fix x y z :: op_id
  have le: "a \<le> b \<longleftrightarrow> op_id_to_bytes a \<le> op_id_to_bytes b" for a b :: op_id
    by (auto simp: less_eq_op_id_def op_id_compare_bytes_def compare_byte_arrays_eq)
  show "x < y \<longleftrightarrow> x \<le> y \<and> \<not> y \<le> x"
    unfolding le by (auto simp: less_op_id_def op_id_compare_bytes_def compare_byte_arrays_eq)
  show "x \<le> x" "x \<le> y \<Longrightarrow> y \<le> z \<Longrightarrow> x \<le> z" "x \<le> y \<Longrightarrow> y \<le> x \<Longrightarrow> x = y" "x \<le> y \<or> y \<le> x"
    unfolding le by (auto dest: order.antisym)
qed

end

lemma op_id_compare_bytes_sign [simp]:
  "op_id_compare_bytes a b < 0 \<longleftrightarrow> a < b" "op_id_compare_bytes a b = 0 \<longleftrightarrow> a = b"
  "0 < op_id_compare_bytes a b \<longleftrightarrow> b < a"
proof -
  show "op_id_compare_bytes a b < 0 \<longleftrightarrow> a < b" by (simp add: less_op_id_def)
  show "op_id_compare_bytes a b = 0 \<longleftrightarrow> a = b"
    by (simp add: op_id_compare_bytes_def compare_byte_arrays_eq)
  show "0 < op_id_compare_bytes a b \<longleftrightarrow> b < a"
    by (auto simp: less_op_id_def op_id_compare_bytes_def compare_byte_arrays_eq)
qed

lemma op_id_less_iff: "a < b \<longleftrightarrow> op_id_to_bytes a < op_id_to_bytes b"
  by (simp add: less_op_id_def op_id_compare_bytes_def compare_byte_arrays_eq)

lemma Property_path_less [simp]:
  "Property_path e c q < Property_path e' c' q' \<longleftrightarrow> e < e' \<or> e = e' \<and> (c < c' \<or> c = c' \<and> q < q')"
  by (auto simp: less_property_path_def path_compare_key path_key_def simp del: path_compare_bytes_sign)

subsection \<open>Properties\<close>

text \<open>
  An op id survives its canonical 32-byte form in both directions, reading anything but 32 bytes trips
  the assertion, and the comparison used for sorting parents is the order of those bytes.
\<close>

theorem op_id_bytes_roundtrip:
  "op_id_from_bytes (op_id_to_bytes i) = (Ok i :: ('e, op_id) result) \<and>
   (op_id_from_bytes bs = (Fault :: ('e, op_id) result) \<longleftrightarrow> length bs \<noteq> 32) \<and>
   (op_id_from_bytes bs = (Ok i :: ('e, op_id) result) \<longleftrightarrow> bs = op_id_to_bytes i) \<and>
   (op_id_compare_bytes i j < 0 \<longleftrightarrow> op_id_to_bytes i < op_id_to_bytes j)"
proof (intro conjI)
  show 1: "op_id_from_bytes (op_id_to_bytes i) = (Ok i :: ('e, op_id) result)"
    by (simp add: op_id_from_bytes_def op_id_to_bytes_def hash_from_to_bytes)
  show "op_id_from_bytes bs = (Fault :: ('e, op_id) result) \<longleftrightarrow> length bs \<noteq> 32"
    by (auto simp: op_id_from_bytes_def hash_from_bytes_def result_simps)
  show "op_id_from_bytes bs = (Ok i :: ('e, op_id) result) \<longleftrightarrow> bs = op_id_to_bytes i"
    using 1 hash_to_from_bytes [of bs, where 'a = 'e]
    by (auto simp: op_id_from_bytes_def result_simps op_id_to_bytes_def)
  show "op_id_compare_bytes i j < 0 \<longleftrightarrow> op_id_to_bytes i < op_id_to_bytes j"
    using op_id_less_iff by simp
qed

end
