(* ===== verification/Op.thy ===== *)
theory Op
  imports Ids Value_Access
begin

text \<open>
  Model of \<^verbatim>\<open>versioned-document/op.hh\<close> and \<^verbatim>\<open>op.cc\<close>: content-addressed ops, their assignment blob, the
  cursor that walks it, and the verifying decoder.

  BLAKE3 is vendored code, so it is a parameter \<open>H\<close> of every definition that hashes: a function from the
  whole appended byte sequence to a digest, which is what \<^verbatim>\<open>cc::blake3\<close> documents (splitting the sequence
  into chunks never changes the result).  Nothing is assumed about it; where content addressing needs
  collision freedom, the theorem exhibits the collision instead.
\<close>

datatype op_decode_error = OE_truncated | OE_unsorted_parents | OE_duplicate_parent
  | OE_unknown_assignment_encoding | OE_unknown_assignment_kind | OE_invalid_value
  | OE_unsorted_assignments | OE_duplicate_assignment | OE_trailing_bytes | OE_hash_mismatch

datatype op_verification = OV_verified | OV_unverifiable | OV_mismatch

datatype assignment_kind = AK_set | AK_abstain

fun byte_of_assignment_kind :: "assignment_kind \<Rightarrow> byte" where
  "byte_of_assignment_kind AK_set = 0"
| "byte_of_assignment_kind AK_abstain = 1"

text \<open>The cast from a byte; \<open>None\<close> is a value that no enumerator has.\<close>

definition assignment_kind_of :: "byte \<Rightarrow> assignment_kind option" where
  "assignment_kind_of t = (if t = 0 then Some AK_set else if t = 1 then Some AK_abstain else None)"

record assignment =
  a_path :: property_path
  a_value :: value_view
  a_kind :: assignment_kind

record op_payload =
  metadata_bytes :: bytes
  assignment_bytes :: bytes

record op =
  o_id :: op_id
  o_parents :: "op_id list"
  o_payload :: "op_payload option"

definition is_abstain :: "assignment \<Rightarrow> bool" where
  "is_abstain a \<longleftrightarrow> a_kind a = AK_abstain"

definition is_skeleton :: "op \<Rightarrow> bool" where
  "is_skeleton o1 \<longleftrightarrow> o_payload o1 = None"

abbreviation (input) "encoding_tag_size \<equiv> (1::nat)"
abbreviation (input) "assignment_kind_size \<equiv> (1::nat)"
abbreviation (input) "sorted_v1 \<equiv> (1::byte)"

subsection \<open>The hash preimage\<close>

text \<open>\<open>vdoc::op/v1\<close> in ASCII.\<close>

definition op_domain :: str where
  "op_domain = [118, 100, 111, 99, 58, 58, 111, 112, 47, 118, 49]"

definition hash_length_prefixed :: "bytes \<Rightarrow> bytes \<Rightarrow> bytes" where
  "hash_length_prefixed hasher bs =
     hasher @ store_bits_le (replicate 8 0) 0 8 (word_of_nat (length bs)) @ bs"

definition op_preimage :: "op_id list \<Rightarrow> bytes \<Rightarrow> bytes \<Rightarrow> bytes" where
  "op_preimage parents metadata assigns =
     (let hasher = hash_length_prefixed [] op_domain;
          hasher = hasher @ store_bits_le (replicate 4 0) 0 4 (word_of_nat (length parents));
          hasher = foldl (\<lambda>h parent. h @ op_id_to_bytes parent) hasher parents;
          hasher = hash_length_prefixed hasher metadata
      in hash_length_prefixed hasher assigns)"

definition compute_op_id :: "(bytes \<Rightarrow> hash256) \<Rightarrow> op_id list \<Rightarrow> bytes \<Rightarrow> bytes \<Rightarrow> op_id" where
  "compute_op_id H parents metadata assigns = Op_id (H (op_preimage parents metadata assigns))"

definition verify_op :: "(bytes \<Rightarrow> hash256) \<Rightarrow> op \<Rightarrow> op_verification" where
  "verify_op H o1 =
     (case o_payload o1 of
        None \<Rightarrow> OV_unverifiable
      | Some p \<Rightarrow>
          (if compute_op_id H (o_parents o1) (metadata_bytes p) (assignment_bytes p) = o_id o1
           then OV_verified else OV_mismatch))"

subsection \<open>The cursor\<close>

record assignment_cursor =
  ac_bytes :: bytes
  ac_cursor :: nat
  ac_remaining :: nat

definition empty_cursor :: assignment_cursor where
  "empty_cursor = \<lparr>ac_bytes = [], ac_cursor = 0, ac_remaining = 0\<rparr>"

definition cursor_from_validated_bytes :: "bytes \<Rightarrow> ('e, assignment_cursor) result" where
  "cursor_from_validated_bytes bs =
     (if bs = [] then Ok empty_cursor
      else rbind (load_u32 bs encoding_tag_size) (\<lambda>n.
        Ok \<lparr>ac_bytes = bs, ac_cursor = encoding_tag_size + length_prefix_size, ac_remaining = n\<rparr>))"

definition at_end :: "assignment_cursor \<Rightarrow> bool" where
  "at_end c \<longleftrightarrow> ac_remaining c = 0"

definition read_kind :: "bytes \<Rightarrow> nat \<Rightarrow> ('e, assignment_kind) result" where
  "read_kind b cursor = rbind (byte_at b cursor) (\<lambda>t.
     case assignment_kind_of t of None \<Rightarrow> Fault | Some k \<Rightarrow> Ok k)"

definition read_id :: "bytes \<Rightarrow> nat \<Rightarrow> ('e, str \<times> nat) result" where
  "read_id b cursor =
     rbind (load_u32 b cursor) (\<lambda>n.
     rbind (slice b (cursor + length_prefix_size) n) (\<lambda>chars.
       Ok (chars, cursor + length_prefix_size + n)))"

text \<open>\<^verbatim>\<open>span(_bytes.data() + cursor, _bytes.size() - cursor)\<close>.\<close>

definition tail_at :: "bytes \<Rightarrow> nat \<Rightarrow> ('e, bytes) result" where
  "tail_at b cursor = rbind (check (cursor \<le> length b)) (\<lambda>_. Ok (drop cursor b))"

definition cursor_get :: "assignment_cursor \<Rightarrow> ('e, assignment) result" where
  "cursor_get c =
     rbind (check (\<not> at_end c)) (\<lambda>_.
     rbind (read_kind (ac_bytes c) (ac_cursor c)) (\<lambda>kind.
     rbind (read_id (ac_bytes c) (ac_cursor c + assignment_kind_size)) (\<lambda>(entity, cur).
     rbind (read_id (ac_bytes c) cur) (\<lambda>(component, cur).
     rbind (read_id (ac_bytes c) cur) (\<lambda>(property, cur).
       (let path = Property_path entity component property in
        if kind = AK_abstain then Ok \<lparr>a_path = path, a_value = of_null, a_kind = kind\<rparr>
        else
          rbind (tail_at (ac_bytes c) cur) (\<lambda>value_bytes.
          rbind (encoded_size value_bytes) (\<lambda>n.
          rbind (slice value_bytes 0 n) (\<lambda>v.
            Ok \<lparr>a_path = path, a_value = v, a_kind = kind\<rparr>)))))))))"

definition skip_id :: "bytes \<Rightarrow> nat \<Rightarrow> ('e, nat) result" where
  "skip_id b cursor = rbind (load_u32 b cursor) (\<lambda>n. Ok (cursor + (length_prefix_size + n)))"

definition cursor_advance :: "assignment_cursor \<Rightarrow> ('e, assignment_cursor) result" where
  "cursor_advance c =
     rbind (check (\<not> at_end c)) (\<lambda>_.
     rbind (read_kind (ac_bytes c) (ac_cursor c)) (\<lambda>kind.
     rbind (skip_id (ac_bytes c) (ac_cursor c + assignment_kind_size)) (\<lambda>cur.
     rbind (skip_id (ac_bytes c) cur) (\<lambda>cur.
     rbind (skip_id (ac_bytes c) cur) (\<lambda>cur.
     rbind (if kind \<noteq> AK_abstain
            then rbind (tail_at (ac_bytes c) cur) (\<lambda>value_bytes.
                 rbind (encoded_size value_bytes) (\<lambda>n. Ok (cur + n)))
            else Ok cur) (\<lambda>cur.
       Ok (c\<lparr>ac_cursor := cur, ac_remaining := ac_remaining c - 1\<rparr>)))))))"

definition op_metadata :: "op \<Rightarrow> value_view" where
  "op_metadata o1 = (case o_payload o1 of None \<Rightarrow> of_null | Some p \<Rightarrow> metadata_bytes p)"

definition op_assignments :: "op \<Rightarrow> ('e, assignment_cursor) result" where
  "op_assignments o1 =
     (case o_payload o1 of None \<Rightarrow> Ok empty_cursor
      | Some p \<Rightarrow> cursor_from_validated_bytes (assignment_bytes p))"

text \<open>The range-for over a cursor: read, advance, until none remain.\<close>

function collect_assignments :: "assignment_cursor \<Rightarrow> ('e, assignment list) result" where
  "collect_assignments c =
     (if at_end c then Ok []
      else rbind (cursor_get c) (\<lambda>a. rbind (cursor_advance c) (\<lambda>c'.
        rbind (collect_assignments c') (\<lambda>as. Ok (a # as)))))"
  by pat_completeness auto
termination
  by (relation "measure ac_remaining")
    (auto simp: cursor_advance_def at_end_def result_simps split: if_splits)

declare collect_assignments.simps [simp del]

definition try_decode_assignments :: "op \<Rightarrow> (op_decode_error, assignment list) result" where
  "try_decode_assignments o1 =
     (case o_payload o1 of
        None \<Rightarrow> Ok []
      | Some p \<Rightarrow>
          rbind (byte_at (assignment_bytes p) 0) (\<lambda>t.
            if t \<noteq> sorted_v1 then Err OE_unknown_assignment_encoding
            else rbind (op_assignments o1) collect_assignments))"

subsection \<open>The decoder\<close>

definition try_value_extent :: "bytes \<Rightarrow> nat \<Rightarrow> (op_decode_error, nat) result" where
  "try_value_extent b offset =
     (if offset \<ge> length b then Err OE_truncated
      else rbind (byte_at b offset) (\<lambda>t.
        case value_kind_of t of
          None \<Rightarrow> Err OE_invalid_value
        | Some k \<Rightarrow> (case k of
            Kind_null \<Rightarrow> Ok 1
          | Kind_boolean \<Rightarrow> Ok 2
          | Kind_integer \<Rightarrow> Ok (1 + 8)
          | Kind_number \<Rightarrow> Ok (1 + 8)
          | _ \<Rightarrow>
              (if offset + payload_offset + length_prefix_size > length b then Err OE_truncated
               else rbind (load_u32 b (offset + payload_offset)) (\<lambda>prefix.
                 Ok (1 + length_prefix_size + prefix))))))"

definition try_read_id_bytes :: "bytes \<Rightarrow> nat \<Rightarrow> (op_decode_error, str \<times> nat) result" where
  "try_read_id_bytes b cursor =
     (if cursor + length_prefix_size > length b then Err OE_truncated
      else rbind (load_u32 b cursor) (\<lambda>n.
        if cursor + length_prefix_size + n > length b then Err OE_truncated
        else rbind (slice b (cursor + length_prefix_size) n) (\<lambda>chars.
          Ok (chars, cursor + length_prefix_size + n))))"

fun check_parents :: "op_id list \<Rightarrow> (op_decode_error, unit) result" where
  "check_parents (p # q # ps) =
     (let order = op_id_compare_bytes p q in
      if order = 0 then Err OE_duplicate_parent
      else if order > 0 then Err OE_unsorted_parents
      else check_parents (q # ps))"
| "check_parents _ = Ok ()"

definition decode_set_value :: "bytes \<Rightarrow> nat \<Rightarrow> (op_decode_error, nat) result" where
  "decode_set_value b cursor =
     rbind (try_value_extent b cursor) (\<lambda>extent.
       if cursor + extent > length b then Err OE_truncated
       else rbind (slice b cursor extent) (\<lambda>value_bytes.
         (case try_decode value_bytes of
            Fault \<Rightarrow> Fault
          | Err _ \<Rightarrow> Err OE_invalid_value
          | Ok _ \<Rightarrow> Ok (cursor + extent))))"

definition decode_assignment :: "bytes \<Rightarrow> nat \<Rightarrow> (op_decode_error, property_path \<times> nat) result" where
  "decode_assignment b cursor =
     (if cursor + assignment_kind_size > length b then Err OE_truncated
      else rbind (byte_at b cursor) (\<lambda>t.
        (case assignment_kind_of t of
           None \<Rightarrow> Err OE_unknown_assignment_kind
         | Some kind \<Rightarrow>
             rbind (try_read_id_bytes b (cursor + assignment_kind_size)) (\<lambda>(entity, cur).
             rbind (try_read_id_bytes b cur) (\<lambda>(component, cur).
             rbind (try_read_id_bytes b cur) (\<lambda>(property, cur).
             rbind (if kind \<noteq> AK_abstain then decode_set_value b cur else Ok cur) (\<lambda>cur.
               Ok (Property_path entity component property, cur))))))))"

definition check_assignment_order ::
  "property_path option \<Rightarrow> property_path \<Rightarrow> (op_decode_error, unit) result" where
  "check_assignment_order previous path =
     (case previous of
        None \<Rightarrow> Ok ()
      | Some prev \<Rightarrow>
          (let order = path_compare_bytes prev path in
           if order = 0 then Err OE_duplicate_assignment
           else if order > 0 then Err OE_unsorted_assignments
           else Ok ()))"

primrec decode_assignment_loop ::
  "bytes \<Rightarrow> nat \<Rightarrow> nat \<Rightarrow> property_path option \<Rightarrow> (op_decode_error, nat) result" where
  "decode_assignment_loop b 0 cursor previous = Ok cursor"
| "decode_assignment_loop b (Suc n) cursor previous =
     rbind (decode_assignment b cursor) (\<lambda>(path, cur).
     rbind (check_assignment_order previous path) (\<lambda>_.
       decode_assignment_loop b n cur (Some path)))"

definition try_decode_skeleton_op :: "op_id \<Rightarrow> op_id list \<Rightarrow> (op_decode_error, op) result" where
  "try_decode_skeleton_op i parents =
     rbind (check_parents parents) (\<lambda>_. Ok \<lparr>o_id = i, o_parents = parents, o_payload = None\<rparr>)"

definition try_decode_op ::
  "(bytes \<Rightarrow> hash256) \<Rightarrow> op_id \<Rightarrow> op_id list \<Rightarrow> bytes \<Rightarrow> bytes \<Rightarrow> (op_decode_error, op) result" where
  "try_decode_op H expected_id parents metadata assigns =
     rbind (check_parents parents) (\<lambda>_.
     rbind (map_err (\<lambda>_. OE_invalid_value) (try_decode metadata)) (\<lambda>_.
       if length assigns < encoding_tag_size + length_prefix_size then Err OE_truncated
       else rbind (byte_at assigns 0) (\<lambda>tag.
         if tag \<noteq> sorted_v1 then Err OE_unknown_assignment_encoding
         else rbind (load_u32 assigns encoding_tag_size) (\<lambda>count.
           rbind (decode_assignment_loop assigns count (encoding_tag_size + length_prefix_size) None) (\<lambda>cursor.
             if cursor \<noteq> length assigns then Err OE_trailing_bytes
             else if compute_op_id H parents metadata assigns \<noteq> expected_id then Err OE_hash_mismatch
             else Ok \<lparr>o_id = expected_id, o_parents = parents,
                      o_payload = Some \<lparr>metadata_bytes = metadata, assignment_bytes = assigns\<rparr>\<rparr>)))))"

subsection \<open>The encoder\<close>

definition append_id :: "bytes \<Rightarrow> str \<Rightarrow> bytes" where
  "append_id out chars = out @ store_bits_le (replicate 4 0) 0 4 (word_of_nat (length chars)) @ chars"

primrec encode_assignment_loop ::
  "bytes \<Rightarrow> property_path option \<Rightarrow> assignment list \<Rightarrow> ('e, bytes) result" where
  "encode_assignment_loop out previous [] = Ok out"
| "encode_assignment_loop out previous (a # as) =
     rbind (check (case previous of None \<Rightarrow> True | Some p \<Rightarrow> path_compare_bytes p (a_path a) < 0)) (\<lambda>_.
       (let out = out @ [byte_of_assignment_kind (a_kind a)];
            out = append_id out (pp_entity (a_path a));
            out = append_id out (pp_component (a_path a));
            out = append_id out (pp_property (a_path a));
            out = (if is_abstain a then out else out @ a_value a)
        in encode_assignment_loop out (Some (a_path a)) as))"

definition encode_assignments :: "assignment list \<Rightarrow> ('e, bytes) result" where
  "encode_assignments sorted_assignments =
     encode_assignment_loop
       (sorted_v1 # store_bits_le (replicate 4 0) 0 4 (word_of_nat (length sorted_assignments))) None
       sorted_assignments"

end
