(* ===== verification/Op_Codec.thy ===== *)
theory Op_Codec
  imports Op
begin

text \<open>
  The contract of the op codec: the decoder accepts exactly the blobs that encode a strictly sorted list of
  well-formed assignments, the cursor reads that list back, and an op that decoded verifies.
\<close>

subsection \<open>One assignment record\<close>

definition enc_id :: "str \<Rightarrow> bytes" where
  "enc_id s = u32le (length s) @ s"

definition enc_path :: "property_path \<Rightarrow> bytes" where
  "enc_path p = enc_id (pp_entity p) @ enc_id (pp_component p) @ enc_id (pp_property p)"

definition enc_assignment :: "assignment \<Rightarrow> bytes" where
  "enc_assignment a = byte_of_assignment_kind (a_kind a) # enc_path (a_path a) @
     (if is_abstain a then [] else a_value a)"

definition id_ok :: "str \<Rightarrow> bool" where
  "id_ok s \<longleftrightarrow> length s < 2 ^ 32"

definition path_ok :: "property_path \<Rightarrow> bool" where
  "path_ok p \<longleftrightarrow> id_ok (pp_entity p) \<and> id_ok (pp_component p) \<and> id_ok (pp_property p)"

definition value_ok :: "bytes \<Rightarrow> bool" where
  "value_ok b \<longleftrightarrow> (\<exists>v. canonical v \<and> vdepth v \<le> max_depth \<and> b = enc v)"

definition assignment_ok :: "assignment \<Rightarrow> bool" where
  "assignment_ok a \<longleftrightarrow> path_ok (a_path a) \<and> (if is_abstain a then a_value a = of_null else value_ok (a_value a))"

lemma value_ok_iff: "value_ok b \<longleftrightarrow> try_decode b = Ok b"
  using try_decode_Ok [of b b] try_decode_enc by (auto simp: value_ok_def)

lemma enc_id_holds:
  "holds_at b c (enc_id s) \<longleftrightarrow> holds_at b c (u32le (length s)) \<and> holds_at b (c + 4) s"
  by (simp add: enc_id_def holds_at_append del: le_bytes.simps)

lemma length_enc_id [simp]: "length (enc_id s) = 4 + length s"
  by (simp add: enc_id_def)

lemma try_read_id_bytes_no_Fault: "try_read_id_bytes b c \<noteq> Fault"
  by (auto simp: try_read_id_bytes_def result_simps split: if_splits)

lemma try_read_id_bytes_iff:
  "try_read_id_bytes b c = Ok (s, c') \<longleftrightarrow> id_ok s \<and> holds_at b c (enc_id s) \<and> c' = c + length (enc_id s)"
proof
  assume "try_read_id_bytes b c = Ok (s, c')"
  then obtain n where n: "load_u32 b c = (Ok n :: (op_decode_error, nat) result)" "c + 4 + n \<le> length b"
    "s = take n (drop (c + 4) b)" "c' = c + 4 + n"
    by (auto simp: try_read_id_bytes_def result_simps split: if_splits)
  then have "length s = n" "holds_at b (c + 4) s" by (simp_all add: holds_at_take_drop)
  with load_u32_holds_at [OF n(1)] n show "id_ok s \<and> holds_at b c (enc_id s) \<and> c' = c + length (enc_id s)"
    by (simp add: id_ok_def enc_id_holds del: le_bytes.simps)
next
  assume a: "id_ok s \<and> holds_at b c (enc_id s) \<and> c' = c + length (enc_id s)"
  then have h: "load_u32 b c = (Ok (length s) :: (op_decode_error, nat) result)" "holds_at b (c + 4) s"
    by (simp_all add: id_ok_def enc_id_holds holds_at_load_u32 del: le_bytes.simps)
  with a holds_at_length [OF h(2)] show "try_read_id_bytes b c = Ok (s, c')"
    by (simp add: try_read_id_bytes_def holds_at_slice)
qed

lemma read_id_enc:
  "id_ok s \<Longrightarrow> holds_at b c (enc_id s) \<Longrightarrow> read_id b c = Ok (s, c + length (enc_id s))"
  by (auto simp: read_id_def enc_id_holds id_ok_def holds_at_load_u32 holds_at_slice add.assoc simp del: le_bytes.simps)

lemma skip_id_enc:
  "id_ok s \<Longrightarrow> holds_at b c (enc_id s) \<Longrightarrow> skip_id b c = Ok (c + length (enc_id s))"
  by (auto simp: skip_id_def enc_id_holds id_ok_def holds_at_load_u32 simp del: le_bytes.simps)

lemma assignment_kind_of_byte [simp]: "assignment_kind_of (byte_of_assignment_kind k) = Some k"
  by (cases k) (simp_all add: assignment_kind_of_def)

lemma assignment_kind_of_Some: "assignment_kind_of t = Some k \<longleftrightarrow> t = byte_of_assignment_kind k"
  by (cases k) (auto simp: assignment_kind_of_def)

lemma try_value_extent_no_Fault: "try_value_extent b c \<noteq> Fault"
  by (auto simp: try_value_extent_def result_simps split: if_splits option.splits value_kind.splits)

lemma try_value_extent_enc:
  "canonical v \<Longrightarrow> holds_at b c (enc v) \<Longrightarrow> try_value_extent b c = Ok (length (enc v))"
  using holds_at_length [of b c "enc v"]
  by (cases v)
    (auto simp: try_value_extent_def enc_container_def holds_at_simps holds_at_load_u32 byte_at_def
      value_kind_of_def simp del: le_bytes.simps)

lemma decode_set_value_no_Fault: "decode_set_value b c \<noteq> Fault"
  using try_value_extent_no_Fault try_decode_no_Fault
  by (auto simp: decode_set_value_def result_simps split: if_splits result.splits)

lemma decode_set_value_iff:
  "decode_set_value b c = Ok c' \<longleftrightarrow> (\<exists>w. value_ok w \<and> holds_at b c w \<and> c' = c + length w)"
proof
  assume "decode_set_value b c = Ok c'"
  then obtain n w where n: "c + n \<le> length b" "c' = c + n" "try_decode (take n (drop c b)) = Ok w"
    by (auto simp: decode_set_value_def result_simps split: if_splits result.splits)
  then show "\<exists>w. value_ok w \<and> holds_at b c w \<and> c' = c + length w"
    by (intro exI [of _ "take n (drop c b)"])
      (auto simp: value_ok_iff holds_at_take_drop dest: try_decode_Ok)
next
  assume "\<exists>w. value_ok w \<and> holds_at b c w \<and> c' = c + length w"
  then obtain v where v: "canonical v" "vdepth v \<le> max_depth" "holds_at b c (enc v)" "c' = c + length (enc v)"
    by (auto simp: value_ok_def)
  with holds_at_length [OF v(3)] show "decode_set_value b c = Ok c'"
    by (simp add: decode_set_value_def try_value_extent_enc holds_at_slice [OF v(3)] try_decode_enc)
qed

lemma decode_assignment_no_Fault: "decode_assignment b c \<noteq> Fault"
  using try_read_id_bytes_no_Fault decode_set_value_no_Fault
  by (auto simp: decode_assignment_def result_simps split: if_splits option.splits)

lemma decode_assignment_iff:
  "decode_assignment b c = Ok (p, c') \<longleftrightarrow>
   (\<exists>a. a_path a = p \<and> assignment_ok a \<and> holds_at b c (enc_assignment a) \<and> c' = c + length (enc_assignment a))"
  (is "?l \<longleftrightarrow> ?r")
proof
  assume ?l
  then obtain k e c1 m c2 q c3 where
    k: "c < length b" "assignment_kind_of (b ! c) = Some k" and
    e: "try_read_id_bytes b (c + 1) = Ok (e, c1)" "try_read_id_bytes b c1 = Ok (m, c2)"
      "try_read_id_bytes b c2 = Ok (q, c3)" and
    v: "(if k \<noteq> AK_abstain then decode_set_value b c3 else Ok c3) = Ok c'" and
    p: "p = Property_path e m q"
    by (auto simp: decode_assignment_def result_simps byte_at_def split: if_splits option.splits)
  have path: "path_ok p" "holds_at b (c + 1) (enc_path p)" "c3 = c + 1 + length (enc_path p)"
    using e by (auto simp: try_read_id_bytes_iff p path_ok_def enc_path_def holds_at_append ac_simps)
  show ?r
  proof (cases k)
    case AK_abstain
    with k v path show ?thesis
      by (intro exI [of _ "\<lparr>a_path = p, a_value = of_null, a_kind = k\<rparr>"])
        (auto simp: assignment_ok_def is_abstain_def enc_assignment_def holds_at_Cons assignment_kind_of_Some)
  next
    case AK_set
    with v obtain w where "value_ok w" "holds_at b c3 w" "c' = c3 + length w"
      by (auto simp: decode_set_value_iff)
    with AK_set k path show ?thesis
      by (intro exI [of _ "\<lparr>a_path = p, a_value = w, a_kind = k\<rparr>"])
        (auto simp: assignment_ok_def is_abstain_def enc_assignment_def holds_at_Cons holds_at_append
          assignment_kind_of_Some)
  qed
next
  assume ?r
  then obtain a where a: "a_path a = p" "assignment_ok a" "holds_at b c (enc_assignment a)"
    "c' = c + length (enc_assignment a)" by blast
  define c1 where "c1 = c + 1 + length (enc_id (pp_entity p))"
  define c2 where "c2 = c1 + length (enc_id (pp_component p))"
  define c3 where "c3 = c2 + length (enc_id (pp_property p))"
  have ids: "try_read_id_bytes b (c + 1) = Ok (pp_entity p, c1)"
    "try_read_id_bytes b c1 = Ok (pp_component p, c2)" "try_read_id_bytes b c2 = Ok (pp_property p, c3)"
    using a by (auto simp: try_read_id_bytes_iff assignment_ok_def path_ok_def enc_assignment_def
        enc_path_def holds_at_Cons holds_at_append ac_simps c1_def c2_def c3_def)
  have val: "(if a_kind a \<noteq> AK_abstain then decode_set_value b c3 else Ok c3) = Ok c'"
    using a by (auto simp: decode_set_value_iff is_abstain_def assignment_ok_def enc_assignment_def
        enc_path_def holds_at_Cons holds_at_append ac_simps c1_def c2_def c3_def intro!: exI [of _ "a_value a"])
  have "c < length b" "b ! c = byte_of_assignment_kind (a_kind a)"
    using a(3) by (simp_all add: enc_assignment_def holds_at_Cons)
  with ids val show ?l
    by (simp add: decode_assignment_def byte_at_def)
qed

subsection \<open>The assignment blob\<close>

definition assignments_ok :: "property_path option \<Rightarrow> assignment list \<Rightarrow> bool" where
  "assignments_ok prev as \<longleftrightarrow> (\<forall>a \<in> set as. assignment_ok a) \<and>
     sorted_wrt (<) ((case prev of None \<Rightarrow> [] | Some p \<Rightarrow> [p]) @ map a_path as)"

lemma assignments_ok_Nil [simp]: "assignments_ok prev []"
  by (simp add: assignments_ok_def split: option.splits)

lemma assignments_ok_Cons:
  "assignments_ok prev (a # as) \<longleftrightarrow> assignment_ok a \<and> (\<forall>p. prev = Some p \<longrightarrow> p < a_path a) \<and>
     assignments_ok (Some (a_path a)) as"
  by (auto simp: assignments_ok_def split: option.splits)

definition enc_assignments :: "assignment list \<Rightarrow> bytes" where
  "enc_assignments as = concat (map enc_assignment as)"

lemma enc_assignments_simps [simp]:
  "enc_assignments [] = []" "enc_assignments (a # as) = enc_assignment a @ enc_assignments as"
  by (simp_all add: enc_assignments_def)

definition blob :: "assignment list \<Rightarrow> bytes" where
  "blob as = 1 # u32le (length as) @ enc_assignments as"

lemma check_assignment_order_simps [simp]:
  "check_assignment_order prev path \<noteq> Fault"
  "check_assignment_order prev path = Ok u \<longleftrightarrow> (\<forall>p. prev = Some p \<longrightarrow> p < path)"
  by (auto simp: check_assignment_order_def Let_def split: option.splits)

lemma decode_loop_no_Fault: "decode_assignment_loop b n c prev \<noteq> Fault"
  by (induction n arbitrary: c prev)
    (auto simp: result_simps decode_assignment_no_Fault)

lemma decode_loop_iff:
  "c \<le> length b \<Longrightarrow> decode_assignment_loop b n c prev = Ok c' \<longleftrightarrow>
   (\<exists>as. length as = n \<and> assignments_ok prev as \<and> holds_at b c (enc_assignments as) \<and>
      c' = c + length (enc_assignments as))"
proof (induction n arbitrary: c prev)
  case 0
  then show ?case by (auto simp: holds_at_Nil)
next
  case (Suc n)
  have step: "decode_assignment_loop b (Suc n) c prev = Ok c' \<longleftrightarrow>
    (\<exists>a. assignment_ok a \<and> holds_at b c (enc_assignment a) \<and> (\<forall>p. prev = Some p \<longrightarrow> p < a_path a) \<and>
      decode_assignment_loop b n (c + length (enc_assignment a)) (Some (a_path a)) = Ok c')"
    by (auto simp: result_simps decode_assignment_iff)
  have IH: "decode_assignment_loop b n (c + length (enc_assignment a)) (Some (a_path a)) = Ok c' \<longleftrightarrow>
    (\<exists>as. length as = n \<and> assignments_ok (Some (a_path a)) as \<and>
       holds_at b (c + length (enc_assignment a)) (enc_assignments as) \<and>
       c' = c + length (enc_assignment a) + length (enc_assignments as))"
    if "holds_at b c (enc_assignment a)" for a
    by (rule Suc.IH) (use holds_at_length [OF that] in simp)
  show ?case
  proof
    assume "decode_assignment_loop b (Suc n) c prev = Ok c'"
    with step IH obtain a as where "assignment_ok a" "holds_at b c (enc_assignment a)"
      "\<forall>p. prev = Some p \<longrightarrow> p < a_path a" "length as = n" "assignments_ok (Some (a_path a)) as"
      "holds_at b (c + length (enc_assignment a)) (enc_assignments as)"
      "c' = c + length (enc_assignment a) + length (enc_assignments as)" by blast
    then show "\<exists>as. length as = Suc n \<and> assignments_ok prev as \<and> holds_at b c (enc_assignments as) \<and>
        c' = c + length (enc_assignments as)"
      by (intro exI [of _ "a # as"]) (auto simp: assignments_ok_Cons holds_at_append)
  next
    assume "\<exists>as. length as = Suc n \<and> assignments_ok prev as \<and> holds_at b c (enc_assignments as) \<and>
        c' = c + length (enc_assignments as)"
    then obtain a as where "length as = n" "assignments_ok prev (a # as)" "holds_at b c (enc_assignments (a # as))"
      "c' = c + length (enc_assignments (a # as))" by (metis length_Suc_conv)
    then show "decode_assignment_loop b (Suc n) c prev = Ok c'"
      unfolding step using IH [of a] by (auto simp: assignments_ok_Cons holds_at_append add.assoc)
  qed
qed

lemma length_enc_assignments_ge: "length as \<le> length (enc_assignments as)"
  by (induction as) (auto simp: enc_assignment_def)

lemma check_parents_simps [simp]:
  "check_parents ps \<noteq> Fault" "check_parents ps = Ok u \<longleftrightarrow> sorted_wrt (<) ps"
proof -
  show "check_parents ps \<noteq> Fault" by (induction ps rule: check_parents.induct) (auto simp: Let_def)
  show "check_parents ps = Ok u \<longleftrightarrow> sorted_wrt (<) ps"
    by (induction ps rule: check_parents.induct) (auto simp: Let_def)
qed

definition blob_body :: "bytes \<Rightarrow> bool" where
  "blob_body b \<longleftrightarrow> (\<exists>as. length as < 2 ^ 32 \<and> assignments_ok None as \<and> b = blob as)"

lemma blob_decodes:
  "length b \<ge> 5 \<and> b ! 0 = 1 \<and> (\<exists>n. load_u32 b 1 = (Ok n :: (op_decode_error, nat) result) \<and>
     decode_assignment_loop b n 5 None = Ok (length b)) \<longleftrightarrow> blob_body b" (is "?l \<longleftrightarrow> ?r")
proof
  assume ?l
  then obtain n where n: "length b \<ge> 5" "b ! 0 = 1" "load_u32 b 1 = (Ok n :: (op_decode_error, nat) result)"
    "decode_assignment_loop b n 5 None = Ok (length b)" by blast
  from n(4) obtain as where as: "length as = n" "assignments_ok None as" "holds_at b 5 (enc_assignments as)"
    "length b = 5 + length (enc_assignments as)" using decode_loop_iff [OF n(1)] by auto
  have "holds_at b 0 (blob as)"
    using n(1,2) load_u32_holds_at [OF n(3)] as by (auto simp: blob_def holds_at_simps simp del: le_bytes.simps)
  then have "b = blob as"
    using holds_at_eq [OF holds_at_whole [of b], of "blob as"] as(4) by (simp add: blob_def)
  with as load_u32_holds_at [OF n(3)] show ?r by (auto simp: blob_body_def)
next
  assume ?r
  then obtain as where as: "length as < 2 ^ 32" "assignments_ok None as" "b = blob as"
    by (auto simp: blob_body_def)
  have h: "holds_at b 1 (u32le (length as))" "holds_at b 5 (enc_assignments as)" "length b = 5 + length (enc_assignments as)"
    by (simp_all add: as(3) blob_def holds_at_def del: le_bytes.simps)
  have "load_u32 b 1 = (Ok (length as) :: (op_decode_error, nat) result)"
    using holds_at_load_u32 [OF h(1) as(1)] .
  moreover have "decode_assignment_loop b (length as) 5 None = Ok (length b)"
    using decode_loop_iff [of 5 b] as(2) h by auto
  ultimately show ?l using h(3) by (auto simp: as(3) blob_def)
qed

lemma try_decode_op_no_Fault: "try_decode_op H i ps m b \<noteq> Fault"
  by (auto simp: try_decode_op_def result_simps try_decode_no_Fault decode_loop_no_Fault split: if_splits)

lemma try_decode_op_iff:
  "try_decode_op H i ps m b = Ok x \<longleftrightarrow>
   sorted_wrt (<) ps \<and> value_ok m \<and> blob_body b \<and> i = compute_op_id H ps m b \<and>
   x = \<lparr>o_id = i, o_parents = ps, o_payload = Some \<lparr>metadata_bytes = m, assignment_bytes = b\<rparr>\<rparr>"
proof -
  have "(\<exists>v. try_decode m = Ok v) \<longleftrightarrow> value_ok m"
    by (auto simp: value_ok_iff dest: try_decode_Ok)
  then show ?thesis
    unfolding blob_decodes [symmetric]
    by (auto simp: try_decode_op_def result_simps byte_at_def split: if_splits)
qed


subsection \<open>The cursor\<close>

lemma byte_at_holds: "holds_at b c (x # xs) \<Longrightarrow> byte_at b c = Ok x"
  by (simp add: holds_at_Cons byte_at_def)

lemma encoded_size_drop:
  assumes "value_ok w" "holds_at b c w"
  shows "tail_at b c = Ok (drop c b)" "encoded_size (drop c b) = Ok (length w)" "slice (drop c b) 0 (length w) = Ok w"
proof -
  obtain v where v: "canonical v" "w = enc v" using assms(1) by (auto simp: value_ok_def)
  have h: "holds_at (drop c b) 0 (enc v)" using assms(2) v(2) by (auto simp: holds_at_def)
  show "tail_at b c = Ok (drop c b)" using holds_at_length [OF assms(2)] by (simp add: tail_at_def)
  show "encoded_size (drop c b) = Ok (length w)"
    using encoded_size_at_enc [OF v(1) h] holds_at_length [OF h] v(2)
    by (auto simp: encoded_size_def encoded_size_at_enc [OF v(1) h] check_def)
  show "slice (drop c b) 0 (length w) = Ok w" using h v(2) by (simp add: holds_at_slice)
qed

lemma cursor_step:
  assumes "assignment_ok a" "holds_at b c (enc_assignment a)" "0 < n"
  shows "cursor_get \<lparr>ac_bytes = b, ac_cursor = c, ac_remaining = n\<rparr> = (Ok a :: ('e, assignment) result)"
    and "cursor_advance \<lparr>ac_bytes = b, ac_cursor = c, ac_remaining = n\<rparr> =
      (Ok \<lparr>ac_bytes = b, ac_cursor = c + length (enc_assignment a), ac_remaining = n - 1\<rparr>
       :: ('e, assignment_cursor) result)"
proof -
  let ?p = "a_path a"
  define c1 where "c1 = c + 1 + length (enc_id (pp_entity ?p))"
  define c2 where "c2 = c1 + length (enc_id (pp_component ?p))"
  define c3 where "c3 = c2 + length (enc_id (pp_property ?p))"
  have kind: "read_kind b c = Ok (a_kind a)"
    using assms(2) by (simp add: read_kind_def enc_assignment_def byte_at_holds)
  have holds: "holds_at b (c + 1) (enc_id (pp_entity ?p))" "holds_at b c1 (enc_id (pp_component ?p))"
    "holds_at b c2 (enc_id (pp_property ?p))" "\<not> is_abstain a \<Longrightarrow> holds_at b c3 (a_value a)"
    using assms(2) by (auto simp: enc_assignment_def enc_path_def holds_at_Cons holds_at_append c1_def c2_def c3_def ac_simps)
  have ok: "id_ok (pp_entity ?p)" "id_ok (pp_component ?p)" "id_ok (pp_property ?p)"
    using assms(1) by (simp_all add: assignment_ok_def path_ok_def)
  note ids = read_id_enc [OF ok(1) holds(1), folded c1_def] read_id_enc [OF ok(2) holds(2), folded c2_def]
    read_id_enc [OF ok(3) holds(3), folded c3_def]
  note skips = skip_id_enc [OF ok(1) holds(1), folded c1_def] skip_id_enc [OF ok(2) holds(2), folded c2_def]
    skip_id_enc [OF ok(3) holds(3), folded c3_def]
  have len: "c + length (enc_assignment a) = c3 + (if is_abstain a then 0 else length (a_value a))"
    by (simp add: enc_assignment_def enc_path_def c1_def c2_def c3_def)
  have "cursor_get \<lparr>ac_bytes = b, ac_cursor = c, ac_remaining = n\<rparr> = (Ok a :: ('e, assignment) result) \<and>
    cursor_advance \<lparr>ac_bytes = b, ac_cursor = c, ac_remaining = n\<rparr> =
      (Ok \<lparr>ac_bytes = b, ac_cursor = c + length (enc_assignment a), ac_remaining = n - 1\<rparr>
       :: ('e, assignment_cursor) result)"
  proof (cases "is_abstain a")
    case True
    then show ?thesis
      using assms(1,3)
      by (simp add: cursor_get_def cursor_advance_def at_end_def kind ids [simplified] skips [simplified] len
          is_abstain_def assignment_ok_def)
  next
    case False
    then have "value_ok (a_value a)" using assms(1) by (simp add: assignment_ok_def)
    note val = encoded_size_drop [OF this holds(4) [OF False]]
    from False show ?thesis
      using assms(1,3)
      by (simp add: cursor_get_def cursor_advance_def at_end_def kind ids [simplified] skips [simplified] len
          is_abstain_def val)
  qed
  then show "cursor_get \<lparr>ac_bytes = b, ac_cursor = c, ac_remaining = n\<rparr> = (Ok a :: ('e, assignment) result)"
    and "cursor_advance \<lparr>ac_bytes = b, ac_cursor = c, ac_remaining = n\<rparr> =
      (Ok \<lparr>ac_bytes = b, ac_cursor = c + length (enc_assignment a), ac_remaining = n - 1\<rparr>
       :: ('e, assignment_cursor) result)" by simp_all
qed

lemma collect_assignments_enc:
  assumes "\<forall>a \<in> set as. assignment_ok a" "holds_at b c (enc_assignments as)"
  shows "collect_assignments \<lparr>ac_bytes = b, ac_cursor = c, ac_remaining = length as\<rparr> =
    (Ok as :: ('e, assignment list) result)"
  using assms
proof (induction as arbitrary: c)
  case Nil
  then show ?case by (subst collect_assignments.simps) (simp add: at_end_def)
next
  case (Cons a as)
  then have a: "assignment_ok a" "holds_at b c (enc_assignment a)"
    and rest: "collect_assignments \<lparr>ac_bytes = b, ac_cursor = c + length (enc_assignment a), ac_remaining = length as\<rparr> =
      (Ok as :: ('e, assignment list) result)"
    by (auto simp: holds_at_append)
  show ?case
    using cursor_step [OF a, of "Suc (length as)", where 'e = 'e] rest
    by (subst collect_assignments.simps) (simp add: at_end_def)
qed

lemma op_assignments_blob:
  assumes "o_payload o1 = Some p" "assignment_bytes p = blob as" "length as < 2 ^ 32"
  shows "op_assignments o1 = (Ok \<lparr>ac_bytes = blob as, ac_cursor = 5, ac_remaining = length as\<rparr>
    :: ('e, assignment_cursor) result)"
proof -
  have "holds_at (blob as) 1 (u32le (length as))"
    by (simp add: blob_def holds_at_def del: le_bytes.simps)
  from holds_at_load_u32 [OF this assms(3)] show ?thesis
    using assms(1,2) holds_at_load_u32 [OF \<open>holds_at (blob as) 1 (u32le (length as))\<close> assms(3), where 'a = 'e]
    by (simp add: op_assignments_def cursor_from_validated_bytes_def) (simp add: blob_def)
qed

lemma try_decode_assignments_blob:
  assumes "o_payload o1 = Some p" "assignment_bytes p = blob as" "length as < 2 ^ 32" "assignments_ok None as"
  shows "try_decode_assignments o1 = Ok as"
proof -
  have "holds_at (blob as) 5 (enc_assignments as)"
    by (simp add: blob_def holds_at_def del: le_bytes.simps)
  then have "collect_assignments \<lparr>ac_bytes = blob as, ac_cursor = 5, ac_remaining = length as\<rparr> =
      (Ok as :: (op_decode_error, assignment list) result)"
    using assms(4) by (intro collect_assignments_enc) (auto simp: assignments_ok_def)
  moreover have "byte_at (blob as) 0 = (Ok 1 :: (op_decode_error, byte) result)"
    by (simp add: blob_def byte_at_def)
  ultimately show ?thesis
    using assms(1,2) by (simp add: try_decode_assignments_def op_assignments_blob [OF assms(1-3)])
qed

subsection \<open>The encoder\<close>

lemma store_u32_replicate:
  "n < 2 ^ 64 \<Longrightarrow> store_bits_le (replicate 4 0) 0 4 (word_of_nat n) = u32le n"
  "n < 2 ^ 64 \<Longrightarrow> store_bits_le (replicate 8 0) 0 8 (word_of_nat n) = u64le n"
  by (simp_all add: store_bits_le_eq unat_of_nat del: le_bytes.simps store_bits_le.simps)

lemma encode_loop_eq:
  assumes "\<forall>a \<in> set as. assignment_ok a"
  shows "encode_assignment_loop out prev as =
    (if sorted_wrt (<) ((case prev of None \<Rightarrow> [] | Some p \<Rightarrow> [p]) @ map a_path as)
     then Ok (out @ enc_assignments as) else (Fault :: ('e, bytes) result))"
  using assms
proof (induction as arbitrary: out prev)
  case Nil
  then show ?case by (simp split: option.splits)
next
  case (Cons a as)
  have app: "append_id out s = out @ enc_id s" if "id_ok s" for out s
    using that by (simp add: append_id_def enc_id_def id_ok_def store_u32_replicate del: le_bytes.simps store_bits_le.simps)
  let ?prevs = "case prev of None \<Rightarrow> [] | Some p \<Rightarrow> [p]"
  have sorted: "sorted_wrt (<) (?prevs @ map a_path (a # as)) \<longleftrightarrow>
      (case prev of None \<Rightarrow> True | Some p \<Rightarrow> path_compare_bytes p (a_path a) < 0) \<and>
      sorted_wrt (<) (a_path a # map a_path as)"
    by (auto split: option.splits)
  have ids: "id_ok (pp_entity (a_path a))" "id_ok (pp_component (a_path a))" "id_ok (pp_property (a_path a))"
    using Cons.prems by (simp_all add: assignment_ok_def path_ok_def)
  have rest: "\<forall>a \<in> set as. assignment_ok a" using Cons.prems by simp
  show ?case
    unfolding sorted
    by (simp add: Cons.IH [OF rest] Let_def app ids check_def enc_assignment_def enc_path_def)
qed

lemma encode_assignments_eq:
  assumes "\<forall>a \<in> set as. assignment_ok a" "length as < 2 ^ 32"
  shows "encode_assignments as =
    (if sorted_wrt (<) (map a_path as) then Ok (blob as) else (Fault :: ('e, bytes) result))"
  using assms
  by (simp add: encode_assignments_def encode_loop_eq blob_def store_u32_replicate del: le_bytes.simps store_bits_le.simps)

subsection \<open>The preimage determines the op\<close>

lemma hash_length_prefixed_eq:
  "length bs < 2 ^ 64 \<Longrightarrow> hash_length_prefixed h bs = h @ u64le (length bs) @ bs"
  by (simp add: hash_length_prefixed_def store_u32_replicate del: le_bytes.simps store_bits_le.simps)

lemma foldl_append_concat: "foldl (\<lambda>h x. h @ f x) h xs = h @ concat (map f xs)"
  by (induction xs arbitrary: h) auto

lemma length_op_domain [simp]: "length op_domain = 11"
  by (simp add: op_domain_def)

lemma op_preimage_eq:
  assumes "length ps < 2 ^ 32" "length m < 2 ^ 64" "length b < 2 ^ 64"
  shows "op_preimage ps m b = u64le 11 @ op_domain @ u32le (length ps) @
    concat (map op_id_to_bytes ps) @ u64le (length m) @ m @ u64le (length b) @ b"
  using assms
  by (simp add: op_preimage_def hash_length_prefixed_eq foldl_append_concat store_u32_replicate
      del: le_bytes.simps store_bits_le.simps)

lemma concat_ids_prefix_free:
  assumes "concat (map op_id_to_bytes ps) @ xs = concat (map op_id_to_bytes qs) @ ys" "length ps = length qs"
  shows "ps = qs \<and> xs = ys"
  by (rule concat_prefix_free [of ps "\<lambda>_. True" op_id_to_bytes]) (use assms in auto)

lemma u64le_append_eq:
  assumes "u64le m @ xs = u64le n @ ys" "m < 2 ^ 64" "n < 2 ^ 64"
  shows "m = n \<and> xs = ys"
  using assms le_bytes_inject [of m 8 n] by (simp del: le_bytes.simps)

lemma op_preimage_inject:
  assumes eq: "op_preimage ps m b = op_preimage qs m' b'"
    and "length ps < 2 ^ 32" "length m < 2 ^ 64" "length b < 2 ^ 64"
    and "length qs < 2 ^ 32" "length m' < 2 ^ 64" "length b' < 2 ^ 64"
  shows "ps = qs \<and> m = m' \<and> b = b'"
proof -
  have "length ps = length qs \<and> concat (map op_id_to_bytes ps) @ u64le (length m) @ m @ u64le (length b) @ b =
      concat (map op_id_to_bytes qs) @ u64le (length m') @ m' @ u64le (length b') @ b'"
    using eq assms(2-) by (simp add: op_preimage_eq u32le_eq del: le_bytes.simps)
  then have "ps = qs" and 1: "u64le (length m) @ m @ u64le (length b) @ b = u64le (length m') @ m' @ u64le (length b') @ b'"
    using concat_ids_prefix_free by blast+
  from u64le_append_eq [OF 1 assms(3,6)] have "m = m'" and 2: "u64le (length b) @ b = u64le (length b') @ b'"
    by auto
  from u64le_append_eq [OF 2 assms(4,7)] have "b = b'" by simp
  with \<open>ps = qs\<close> \<open>m = m'\<close> show ?thesis by simp
qed

subsection \<open>Properties\<close>

text \<open>
  C9.  The op decoder is memory safe and exact: it never faults, and it returns an op if and only if the
  parents strictly ascend, the metadata is a canonical value, the blob encodes a list of well-formed
  assignments in strictly ascending path order with nothing behind it, and the recomputed hash is the
  expected id; the op then holds exactly the bytes it was given.
\<close>

theorem try_decode_op_exact:
  "try_decode_op H i ps m b \<noteq> Fault \<and>
   (try_decode_op H i ps m b = Ok x \<longleftrightarrow>
     sorted_wrt (<) ps \<and> try_decode m = Ok m \<and>
     (\<exists>as. length as < 2 ^ 32 \<and> assignments_ok None as \<and> b = blob as) \<and>
     i = compute_op_id H ps m b \<and>
     x = \<lparr>o_id = i, o_parents = ps, o_payload = Some \<lparr>metadata_bytes = m, assignment_bytes = b\<rparr>\<rparr>)"
  using try_decode_op_no_Fault [of H i ps m b]
  by (simp add: try_decode_op_iff value_ok_iff blob_body_def)

text \<open>
  C24.  Producer and loader agree: assignments in canonical order encode without tripping an assertion, the
  blob decodes under the id stamped from it, the loaded op verifies, and its cursor yields the very
  assignments that went in.
\<close>

theorem op_roundtrip:
  assumes "sorted_wrt (<) ps" "try_decode m = Ok m" "assignments_ok None as" "length as < 2 ^ 32"
  shows "\<exists>b x. encode_assignments as = (Ok b :: ('e, bytes) result) \<and>
    try_decode_op H (compute_op_id H ps m b) ps m b = Ok x \<and> verify_op H x = OV_verified \<and>
    op_metadata x = m \<and> try_decode_assignments x = Ok as"
proof -
  let ?b = "blob as"
  let ?x = "\<lparr>o_id = compute_op_id H ps m ?b, o_parents = ps,
    o_payload = Some \<lparr>metadata_bytes = m, assignment_bytes = ?b\<rparr>\<rparr>"
  have "encode_assignments as = (Ok ?b :: ('e, bytes) result)"
    using assms by (simp add: encode_assignments_eq assignments_ok_def)
  moreover have "try_decode_op H (compute_op_id H ps m ?b) ps m ?b = Ok ?x"
    using assms by (auto simp: try_decode_op_iff value_ok_iff blob_body_def)
  moreover have "try_decode_assignments ?x = Ok as"
    by (rule try_decode_assignments_blob) (use assms in auto)
  ultimately show ?thesis by (auto simp: verify_op_def op_metadata_def)
qed

theorem op_roundtrip_witness:
  "\<exists>b x. encode_assignments
      [\<lparr>a_path = Property_path [97] [98] [99], a_value = [1, 1], a_kind = AK_set\<rparr>,
       \<lparr>a_path = Property_path [97] [98] [100], a_value = [0], a_kind = AK_abstain\<rparr>] = (Ok b :: (nat, bytes) result) \<and>
    try_decode_op (\<lambda>_. Hash256 1 2 3 4) (compute_op_id (\<lambda>_. Hash256 1 2 3 4) [] [0] b) [] [0] b = Ok x \<and>
    verify_op (\<lambda>_. Hash256 1 2 3 4) x = OV_verified \<and> op_metadata x = [0] \<and>
    try_decode_assignments x = Ok
      [\<lparr>a_path = Property_path [97] [98] [99], a_value = [1, 1], a_kind = AK_set\<rparr>,
       \<lparr>a_path = Property_path [97] [98] [100], a_value = [0], a_kind = AK_abstain\<rparr>]"
proof (rule op_roundtrip)
  show "try_decode [0] = Ok [0]" using try_decode_enc [of VNull] by (simp add: max_depth_def)
  have "value_ok [1, 1]" unfolding value_ok_def by (rule exI [of _ "VBool True"]) (simp add: max_depth_def)
  then show "assignments_ok None
      [\<lparr>a_path = Property_path [97] [98] [99], a_value = [1, 1], a_kind = AK_set\<rparr>,
       \<lparr>a_path = Property_path [97] [98] [100], a_value = [0], a_kind = AK_abstain\<rparr>]"
    by (simp add: assignments_ok_def assignment_ok_def path_ok_def id_ok_def is_abstain_def of_null_def)
qed simp_all

text \<open>
  C10.  Content addressing: two ops accepted under one id have the same parents, metadata and assignments,
  or the hash function has collided on two different preimages.
\<close>

theorem content_addressed:
  assumes "try_decode_op H i ps m b = Ok x" "try_decode_op H i qs m' b' = Ok y"
    and "length ps < 2 ^ 32" "length m < 2 ^ 64" "length b < 2 ^ 64"
    and "length qs < 2 ^ 32" "length m' < 2 ^ 64" "length b' < 2 ^ 64"
  shows "x = y \<or> (op_preimage ps m b \<noteq> op_preimage qs m' b' \<and>
    H (op_preimage ps m b) = H (op_preimage qs m' b'))"
  using assms(1,2) op_preimage_inject [OF _ assms(3-8)]
  by (auto simp: try_decode_op_iff compute_op_id_def)

theorem content_addressed_witness:
  "\<exists>x. try_decode_op (\<lambda>_. Hash256 1 2 3 4) (Op_id (Hash256 1 2 3 4)) [] [0] (blob []) = Ok x \<and>
     (x = x \<or> (op_preimage [] [0] (blob []) \<noteq> op_preimage [] [0] (blob []) \<and>
       Hash256 1 2 3 4 = Hash256 1 2 3 4))"
proof -
  let ?x = "\<lparr>o_id = Op_id (Hash256 1 2 3 4), o_parents = [],
    o_payload = Some \<lparr>metadata_bytes = [0], assignment_bytes = blob []\<rparr>\<rparr>"
  have m: "value_ok [0]" unfolding value_ok_def by (rule exI [of _ VNull]) (simp add: max_depth_def)
  have x: "try_decode_op (\<lambda>_. Hash256 1 2 3 4) (Op_id (Hash256 1 2 3 4)) [] [0] (blob []) = Ok ?x"
    using m by (auto simp: try_decode_op_iff blob_body_def compute_op_id_def intro!: exI [of _ "[]"])
  have "length (blob []) = 5" by (simp add: blob_def)
  with content_addressed [OF x x] x show ?thesis by auto
qed

text \<open>
  A skeleton decodes exactly when its parents strictly ascend, it never verifies and never counts as
  a mismatch, and it presents null metadata and no assignments.
\<close>

theorem skeleton_op_correct:
  "try_decode_skeleton_op i ps \<noteq> Fault \<and>
   (try_decode_skeleton_op i ps = Ok x \<longleftrightarrow>
      sorted_wrt (<) ps \<and> x = \<lparr>o_id = i, o_parents = ps, o_payload = None\<rparr>) \<and>
   verify_op H \<lparr>o_id = i, o_parents = ps, o_payload = None\<rparr> = OV_unverifiable \<and>
   is_null (op_metadata \<lparr>o_id = i, o_parents = ps, o_payload = None\<rparr>) = (Ok True :: ('e, bool) result) \<and>
   try_decode_assignments \<lparr>o_id = i, o_parents = ps, o_payload = None\<rparr> = Ok []"
  by (auto simp: try_decode_skeleton_op_def result_simps verify_op_def op_metadata_def is_null_def of_null_def
      vv_kind_def byte_at_def value_kind_of_def try_decode_assignments_def)

end
