(* ===== verification/Op_Graph.thy ===== *)
theory Op_Graph
  imports Op_Codec Sort
begin

text \<open>
  Model of the container part of \<^verbatim>\<open>versioned-document/op_graph.hh\<close> and \<^verbatim>\<open>op_graph.cc\<close>: the op set with its
  child index, and the reachability walks.  Materialization, the other half of the file, is in
  \<open>Materialize\<close>.

  \<^verbatim>\<open>_ops\<close> is an association list with distinct keys, since \<open>leaves\<close> iterates it; nothing depends on its
  order, because every operation that iterates sorts what it returns.  \<^verbatim>\<open>_children\<close> is only probed and is a
  map.  A stack is a list whose head is its back.
\<close>

record op_graph =
  g_ops :: "(op_id \<times> op) list"
  g_children :: "op_id \<rightharpoonup> op_id list"

definition empty_graph :: op_graph where
  "empty_graph = \<lparr>g_ops = [], g_children = Map.empty\<rparr>"

definition find_op :: "op_graph \<Rightarrow> op_id \<Rightarrow> op option" where
  "find_op g i = map_of (g_ops g) i"

definition contains_op :: "op_graph \<Rightarrow> op_id \<Rightarrow> bool" where
  "contains_op g i \<longleftrightarrow> find_op g i \<noteq> None"

fun contains_id :: "op_id list \<Rightarrow> op_id \<Rightarrow> bool" where
  "contains_id [] i = False"
| "contains_id (v # ids) i = (if v = i then True else contains_id ids i)"

definition children :: "op_graph \<Rightarrow> op_id \<Rightarrow> op_id list" where
  "children g i = (case g_children g i of None \<Rightarrow> [] | Some siblings \<Rightarrow> siblings)"

text \<open>\<^verbatim>\<open>_children[parent]\<close> default-constructs a missing entry.\<close>

definition link_child :: "op_id \<Rightarrow> (op_id \<rightharpoonup> op_id list) \<Rightarrow> op_id \<Rightarrow> (op_id \<rightharpoonup> op_id list)" where
  "link_child i idx parent =
     (let siblings = (case idx parent of None \<Rightarrow> [] | Some s \<Rightarrow> s) in
      idx(parent \<mapsto> (if \<not> contains_id siblings i then siblings @ [i] else siblings)))"

definition graph_add :: "op_graph \<Rightarrow> op \<Rightarrow> op_graph \<times> op_id" where
  "graph_add g o1 =
     (let i = o_id o1 in
      if contains_op g i then (g, i)
      else (\<lparr>g_ops = g_ops g @ [(i, o1)],
             g_children = foldl (link_child i) (g_children g) (o_parents o1)\<rparr>, i))"

function collect_loop ::
  "op_graph \<Rightarrow> (op_id \<Rightarrow> bool) \<Rightarrow> op_id set \<Rightarrow> op_id list \<Rightarrow> op_id list \<Rightarrow> op_id list" where
  "collect_loop g is_terminator seen [] out = out"
| "collect_loop g is_terminator seen (i # stack) out =
     (if i \<in> seen then collect_loop g is_terminator seen stack out
      else (case find_op g i of
              None \<Rightarrow> collect_loop g is_terminator seen stack out
            | Some o1 \<Rightarrow>
                collect_loop g is_terminator (insert i seen)
                  (if is_terminator i then stack else rev (o_parents o1) @ stack) (out @ [i])))"
  by pat_completeness auto
termination
proof (relation "measures [\<lambda>(g, t, seen, stack, out). card (fst ` set (g_ops g) - seen),
                           \<lambda>(g, t, seen, stack, out). length stack]", goal_cases)
  case (4 g t seen i stack out o1)
  then have "i \<in> fst ` set (g_ops g) - seen"
    by (auto simp: find_op_def dest: map_of_SomeD) (metis fst_conv image_eqI map_of_SomeD)
  then have "card (fst ` set (g_ops g) - insert i seen) < card (fst ` set (g_ops g) - seen)"
    by (intro psubset_card_mono) auto
  then show ?case by simp
qed auto

definition collect_reachable_until :: "op_graph \<Rightarrow> op_id list \<Rightarrow> (op_id \<Rightarrow> bool) \<Rightarrow> op_id list" where
  "collect_reachable_until g heads is_terminator =
     cc_sort (<) (collect_loop g is_terminator {} (rev heads) [])"

text \<open>The untruncated walk runs the same loop without the terminator test.\<close>

definition collect_reachable :: "op_graph \<Rightarrow> op_id list \<Rightarrow> op_id list" where
  "collect_reachable g heads = cc_sort (<) (collect_loop g (\<lambda>_. False) {} (rev heads) [])"

definition modify_op :: "op_graph \<Rightarrow> op_id \<Rightarrow> (op \<Rightarrow> op) \<Rightarrow> op_graph" where
  "modify_op g i f = g\<lparr>g_ops := map (\<lambda>(k, o1). (k, if k = i then f o1 else o1)) (g_ops g)\<rparr>"

definition skeletonize :: "op_graph \<Rightarrow> op_id \<Rightarrow> op_graph \<times> bool" where
  "skeletonize g i =
     (case find_op g i of
        None \<Rightarrow> (g, False)
      | Some o1 \<Rightarrow> (modify_op g i (\<lambda>o1. o1\<lparr>o_payload := None\<rparr>), True))"

definition fill_payload :: "op_graph \<Rightarrow> op_id \<Rightarrow> op_payload \<Rightarrow> op_graph \<times> bool" where
  "fill_payload g i payload =
     (case find_op g i of
        None \<Rightarrow> (g, False)
      | Some o1 \<Rightarrow>
          (if is_skeleton o1 then modify_op g i (\<lambda>o1. o1\<lparr>o_payload := Some payload\<rparr>) else g, True))"

text \<open>Removing one sibling by shifting: the index scan, the shift, and the pop.\<close>

function sibling_index :: "op_id list \<Rightarrow> op_id \<Rightarrow> nat \<Rightarrow> nat" where
  "sibling_index siblings i at =
     (if at < length siblings \<and> \<not> siblings ! at = i then sibling_index siblings i (at + 1) else at)"
  by pat_completeness auto
termination
  by (relation "measure (\<lambda>(s, i, at). length s - at)") auto

function shift_left :: "op_id list \<Rightarrow> nat \<Rightarrow> op_id list" where
  "shift_left siblings i =
     (if i + 1 < length siblings then shift_left (siblings[i := siblings ! (i + 1)]) (i + 1) else siblings)"
  by pat_completeness auto
termination
  by (relation "measure (\<lambda>(s, i). length s - i)") auto

declare sibling_index.simps [simp del] shift_left.simps [simp del]

definition remove_sibling :: "op_id list \<Rightarrow> op_id \<Rightarrow> op_id list" where
  "remove_sibling siblings i =
     (let at = sibling_index siblings i 0;
          shifted = shift_left siblings at in
      if at < length shifted then butlast shifted else shifted)"

definition unlink_child :: "op_id \<Rightarrow> (op_id \<rightharpoonup> op_id list) \<Rightarrow> op_id \<Rightarrow> (op_id \<rightharpoonup> op_id list)" where
  "unlink_child i idx parent =
     (case idx parent of
        None \<Rightarrow> idx
      | Some siblings \<Rightarrow>
          (let siblings = remove_sibling siblings i in
           if siblings = [] then idx(parent := None) else idx(parent \<mapsto> siblings)))"

definition drop_leaf :: "op_graph \<Rightarrow> op_id \<Rightarrow> ('e, op_graph \<times> bool) result" where
  "drop_leaf g i =
     (case find_op g i of
        None \<Rightarrow> Ok (g, False)
      | Some o1 \<Rightarrow>
          rbind (check (children g i = [])) (\<lambda>_.
            Ok (\<lparr>g_ops = filter (\<lambda>(k, _). k \<noteq> i) (g_ops g),
                 g_children = foldl (unlink_child i) ((g_children g)(i := None)) (o_parents o1)\<rparr>, True)))"

definition leaves :: "op_graph \<Rightarrow> op_id list" where
  "leaves g = cc_sort (<) (map fst (filter (\<lambda>(i, o1). children g i = []) (g_ops g)))"

subsection \<open>The graph invariant\<close>

text \<open>
  Keys are distinct and each op sits under its own id; the child index lists, without repetition and
  without empty entries, exactly the ops that name a parent.
\<close>

definition graph_ok :: "op_graph \<Rightarrow> bool" where
  "graph_ok g \<longleftrightarrow> distinct (map fst (g_ops g)) \<and> (\<forall>(i, o1) \<in> set (g_ops g). o_id o1 = i) \<and>
     (\<forall>p. distinct (children g p) \<and> g_children g p \<noteq> Some [] \<and>
        (\<forall>c. c \<in> set (children g p) \<longleftrightarrow> (\<exists>o1. find_op g c = Some o1 \<and> p \<in> set (o_parents o1))))"

lemma contains_id_iff [simp]: "contains_id ids i \<longleftrightarrow> i \<in> set ids"
  by (induction ids) auto

lemma graph_ok_empty: "graph_ok empty_graph"
  by (simp add: graph_ok_def empty_graph_def children_def find_op_def)

definition index_children :: "(op_id \<rightharpoonup> op_id list) \<Rightarrow> op_id \<Rightarrow> op_id list" where
  "index_children idx p = (case idx p of None \<Rightarrow> [] | Some s \<Rightarrow> s)"

lemma children_index: "children g p = index_children (g_children g) p"
  by (simp add: children_def index_children_def)

lemma foldl_link_child:
  "index_children (foldl (link_child i) idx ps) p =
    (if p \<in> set ps \<and> i \<notin> set (index_children idx p) then index_children idx p @ [i] else index_children idx p)"
  "(\<forall>q. idx q \<noteq> Some []) \<Longrightarrow> foldl (link_child i) idx ps q \<noteq> Some []"
proof -
  have step: "index_children (link_child i idx q) p =
      (if p = q \<and> i \<notin> set (index_children idx p) then index_children idx p @ [i] else index_children idx p)" for idx q
    by (auto simp: link_child_def index_children_def Let_def split: option.splits)
  show "index_children (foldl (link_child i) idx ps) p =
    (if p \<in> set ps \<and> i \<notin> set (index_children idx p) then index_children idx p @ [i] else index_children idx p)"
    by (induction ps arbitrary: idx) (auto simp: step)
  have ne: "(\<forall>q. idx q \<noteq> Some []) \<Longrightarrow> \<forall>q. link_child i idx r q \<noteq> Some []" for idx r
    by (auto simp: link_child_def Let_def split: option.splits)
  show "(\<forall>q. idx q \<noteq> Some []) \<Longrightarrow> foldl (link_child i) idx ps q \<noteq> Some []"
    by (induction ps arbitrary: idx) (use ne in auto)
qed

lemma graph_add_ok:
  assumes "graph_ok g"
  shows "graph_ok (fst (graph_add g o1))"
proof (cases "contains_op g (o_id o1)")
  case True
  with assms show ?thesis by (simp add: graph_add_def Let_def)
next
  case False
  let ?i = "o_id o1" and ?g = "fst (graph_add g o1)"
  have g: "g_ops ?g = g_ops g @ [(?i, o1)]" "g_children ?g = foldl (link_child ?i) (g_children g) (o_parents o1)"
    using False by (simp_all add: graph_add_def Let_def)
  have new: "?i \<notin> fst ` set (g_ops g)" using False by (simp add: contains_op_def find_op_def map_of_eq_None_iff)
  have find: "find_op ?g c = (if c = ?i then Some o1 else find_op g c)" for c
    using False by (auto simp: find_op_def contains_op_def g map_add_def split: option.splits)
  have kids: "children ?g p = (if p \<in> set (o_parents o1) then children g p @ [?i] else children g p)" for p
  proof -
    have "?i \<notin> set (children g p)" using assms False by (auto simp: graph_ok_def contains_op_def)
    then show ?thesis by (simp add: children_index g foldl_link_child)
  qed
  have fresh: "?i \<notin> set (children g p)" for p using assms False by (auto simp: graph_ok_def contains_op_def)
  have "distinct (children ?g p) \<and> g_children ?g p \<noteq> Some [] \<and>
      (\<forall>c. c \<in> set (children ?g p) \<longleftrightarrow> (\<exists>o1. find_op ?g c = Some o1 \<and> p \<in> set (o_parents o1)))" for p
  proof (intro conjI allI)
    show "distinct (children ?g p)" using assms fresh [of p] by (auto simp: kids graph_ok_def)
    show "g_children ?g p \<noteq> Some []"
      unfolding g by (rule foldl_link_child(2)) (use assms in \<open>simp add: graph_ok_def\<close>)
    fix c
    show "c \<in> set (children ?g p) \<longleftrightarrow> (\<exists>o1. find_op ?g c = Some o1 \<and> p \<in> set (o_parents o1))"
      using assms fresh [of p] by (auto simp: kids find graph_ok_def)
  qed
  then show ?thesis
    using assms new by (auto simp: graph_ok_def g(1))
qed

lemma find_modify_op:
  "find_op (modify_op g i f) c = (if c = i then map_option f (find_op g i) else find_op g c)"
proof -
  have "map_of (map (\<lambda>(k, o1). (k, if k = i then f o1 else o1)) xs) c =
      (if c = i then map_option f (map_of xs i) else map_of xs c)" for xs :: "(op_id \<times> op) list"
    by (induction xs) auto
  then show ?thesis by (simp add: find_op_def modify_op_def)
qed

lemma graph_ok_modify:
  assumes "graph_ok g" "\<And>o1. o_id (f o1) = o_id o1" "\<And>o1. o_parents (f o1) = o_parents o1"
  shows "graph_ok (modify_op g i f)"
proof -
  have kids: "children (modify_op g i f) p = children g p" "g_children (modify_op g i f) p = g_children g p" for p
    by (simp_all add: children_def modify_op_def)
  have "(\<exists>o1. find_op (modify_op g i f) c = Some o1 \<and> p \<in> set (o_parents o1)) \<longleftrightarrow>
      (\<exists>o1. find_op g c = Some o1 \<and> p \<in> set (o_parents o1))" for c p
    by (auto simp: find_modify_op assms(3))
  moreover have "map fst (g_ops (modify_op g i f)) = map fst (g_ops g)"
    by (auto simp: modify_op_def)
  moreover have "\<forall>(k, o1) \<in> set (g_ops (modify_op g i f)). o_id o1 = k"
    using assms(1,2) by (auto simp: modify_op_def graph_ok_def)
  ultimately show ?thesis
    using assms(1) unfolding graph_ok_def kids by simp
qed

lemma skeletonize_ok: "graph_ok g \<Longrightarrow> graph_ok (fst (skeletonize g i))"
  by (auto simp: skeletonize_def split: option.splits intro!: graph_ok_modify)

lemma fill_payload_ok: "graph_ok g \<Longrightarrow> graph_ok (fst (fill_payload g i p))"
  by (auto simp: fill_payload_def split: option.splits intro!: graph_ok_modify)

subsection \<open>Dropping a leaf\<close>

lemma sibling_index_eq: "at \<le> length s \<Longrightarrow> sibling_index s i at = at + length (takeWhile (\<lambda>x. x \<noteq> i) (drop at s))"
proof (induction s i at rule: sibling_index.induct)
  case (1 s i at)
  show ?case
  proof (cases "at < length s")
    case True
    then have "drop at s = s ! at # drop (Suc at) s" by (simp add: Cons_nth_drop_Suc)
    then show ?thesis using 1 True by (subst sibling_index.simps) auto
  qed (use "1.prems" in \<open>subst sibling_index.simps, auto\<close>)
qed

lemma shift_left_eq:
  "i < length s \<Longrightarrow> shift_left s i = take i s @ drop (Suc i) s @ [last s]"
proof (induction s i rule: shift_left.induct)
  case (1 s i)
  show ?case
  proof (cases "i + 1 < length s")
    case True
    have "shift_left s i = shift_left (s[i := s ! (i + 1)]) (i + 1)"
      using True by (subst shift_left.simps) simp
    also have "\<dots> = take (i + 1) (s[i := s ! (i + 1)]) @ drop (Suc (i + 1)) (s[i := s ! (i + 1)]) @ [last (s[i := s ! (i + 1)])]"
      using 1 True by simp
    also have "last (s[i := s ! (i + 1)]) = last s"
      using True by (subst last_list_update) auto
    also have "take (i + 1) (s[i := s ! (i + 1)]) = take i s @ [s ! (i + 1)]"
      using True by (simp add: take_Suc_conv_app_nth)
    finally show ?thesis
      using True Cons_nth_drop_Suc [of "Suc i" s] by (simp add: drop_update_cancel)
  next
    case False
    with "1.prems" have "length s = Suc i" by simp
    then show ?thesis
      using False by (subst shift_left.simps) (simp, metis append_butlast_last_id butlast_conv_take diff_Suc_1 length_0_conv nat.distinct(1))
  qed
qed

lemma remove_sibling_eq: "remove_sibling s i = remove1 i s"
proof (cases "i \<in> set s")
  case True
  let ?k = "length (takeWhile (\<lambda>x. x \<noteq> i) s)"
  have k: "?k < length s" using True by (induction s) auto
  have idx: "sibling_index s i 0 = ?k" by (simp add: sibling_index_eq)
  have "remove_sibling s i = take ?k s @ drop (Suc ?k) s"
    using k by (simp add: remove_sibling_def Let_def idx shift_left_eq butlast_append)
  moreover have "take ?k s = takeWhile (\<lambda>x. x \<noteq> i) s"
    by (rule takeWhile_eq_take [symmetric])
  moreover have "remove1 i s = takeWhile (\<lambda>x. x \<noteq> i) s @ drop (Suc ?k) s"
    using True by (induction s) auto
  ultimately show ?thesis by simp
next
  case False
  then have "length (takeWhile (\<lambda>x. x \<noteq> i) s) = length s" by (induction s) auto
  then have idx: "sibling_index s i 0 = length s" by (simp add: sibling_index_eq)
  have "shift_left s (length s) = s" by (subst shift_left.simps) simp
  with False idx show ?thesis by (simp add: remove_sibling_def Let_def remove1_idem)
qed

lemma foldl_unlink_child:
  assumes "\<forall>q. idx q \<noteq> Some [] \<and> distinct (index_children idx q)"
  shows "set (index_children (foldl (unlink_child i) idx ps) p) =
      (if p \<in> set ps then set (index_children idx p) - {i} else set (index_children idx p))"
    and "foldl (unlink_child i) idx ps p \<noteq> Some [] \<and> distinct (index_children (foldl (unlink_child i) idx ps) p)"
proof -
  have step: "set (index_children (unlink_child i idx q) p) =
      (if p = q then set (index_children idx p) - {i} else set (index_children idx p))"
    and ok: "\<forall>p. unlink_child i idx q p \<noteq> Some [] \<and> distinct (index_children (unlink_child i idx q) p)"
    if "\<forall>q. idx q \<noteq> Some [] \<and> distinct (index_children idx q)" for idx p q
    using that by (auto simp: unlink_child_def index_children_def remove_sibling_eq Let_def
        set_remove1_eq split: option.splits if_splits) (metis in_set_remove1 length_pos_if_in_set less_numeral_extra(3) list.size(3))
  have "set (index_children (foldl (unlink_child i) idx ps) p) =
      (if p \<in> set ps then set (index_children idx p) - {i} else set (index_children idx p)) \<and>
      foldl (unlink_child i) idx ps p \<noteq> Some [] \<and> distinct (index_children (foldl (unlink_child i) idx ps) p)"
    using assms
  proof (induction ps arbitrary: idx)
    case (Cons q ps)
    from Cons.IH [OF ok [OF Cons.prems, of q]] step [OF Cons.prems, of q p] show ?case by auto
  qed simp
  then show "set (index_children (foldl (unlink_child i) idx ps) p) =
      (if p \<in> set ps then set (index_children idx p) - {i} else set (index_children idx p))"
    and "foldl (unlink_child i) idx ps p \<noteq> Some [] \<and> distinct (index_children (foldl (unlink_child i) idx ps) p)"
    by simp_all
qed

lemma drop_leaf_Ok:
  assumes "graph_ok g" "drop_leaf g i = Ok (g', dropped)" "dropped"
  shows "graph_ok g'" "find_op g' c = (if c = i then None else find_op g c)"
    "set (children g' p) = set (children g p) - {i}" "find_op g i \<noteq> None" "children g i = []"
proof -
  from assms(2,3) obtain o1 where o1: "find_op g i = Some o1" "children g i = []"
    and g': "g_ops g' = filter (\<lambda>(k, _). k \<noteq> i) (g_ops g)"
      "g_children g' = foldl (unlink_child i) ((g_children g)(i := None)) (o_parents o1)"
    by (auto simp: drop_leaf_def result_simps split: option.splits)
  define idx where "idx = (g_children g)(i := None)"
  have idx: "index_children idx q = children g q" for q
    using o1(2) by (auto simp: idx_def index_children_def children_def)
  have ok: "\<forall>q. idx q \<noteq> Some [] \<and> distinct (index_children idx q)"
    using assms(1) unfolding idx by (auto simp: graph_ok_def idx_def)
  have map_filter: "map_of (filter (\<lambda>(k, _). k \<noteq> i) xs) c = (if c = i then None else map_of xs c)"
    for xs :: "(op_id \<times> op) list" and c
    by (induction xs) auto
  have find: "find_op g' c = (if c = i then None else find_op g c)" for c
    by (simp add: find_op_def g'(1) map_filter)
  have parents: "p \<in> set (o_parents o1)" if "i \<in> set (children g p)" for p
    using that assms(1) o1(1) by (auto simp: graph_ok_def)
  have kids: "set (children g' p) = set (children g p) - {i}" for p
    using foldl_unlink_child(1) [OF ok, of i "o_parents o1" p] parents [of p]
    by (auto simp: children_index [of g'] g'(2) [folded idx_def] idx)
  show "find_op g' c = (if c = i then None else find_op g c)" "set (children g' p) = set (children g p) - {i}"
    "find_op g i \<noteq> None" "children g i = []"
    using find kids o1 by simp_all
  have "distinct (children g' p) \<and> g_children g' p \<noteq> Some []" for p
    using foldl_unlink_child(2) [OF ok, of i "o_parents o1" p]
    by (simp add: children_index [of g'] g'(2) [folded idx_def])
  moreover have "c \<in> set (children g' p) \<longleftrightarrow> (\<exists>o1. find_op g' c = Some o1 \<and> p \<in> set (o_parents o1))" for c p
    using assms(1) by (auto simp: kids find graph_ok_def)
  moreover have "distinct (map fst (g_ops g'))" "\<forall>(k, o1) \<in> set (g_ops g'). o_id o1 = k"
    using assms(1) by (auto simp: graph_ok_def g'(1) distinct_map inj_on_def)
  ultimately show "graph_ok g'" by (simp add: graph_ok_def)
qed

subsection \<open>Reachability\<close>

definition parent_edges :: "op_graph \<Rightarrow> (op_id \<Rightarrow> bool) \<Rightarrow> (op_id \<times> op_id) set" where
  "parent_edges g is_terminator = {(y, p). \<exists>o1. find_op g y = Some o1 \<and> \<not> is_terminator y \<and>
     p \<in> set (o_parents o1) \<and> contains_op g p}"

definition reach_until :: "op_graph \<Rightarrow> (op_id \<Rightarrow> bool) \<Rightarrow> op_id list \<Rightarrow> op_id set" where
  "reach_until g t heads = (parent_edges g t)\<^sup>* `` {h \<in> set heads. contains_op g h}"

definition closed_under :: "op_graph \<Rightarrow> (op_id \<Rightarrow> bool) \<Rightarrow> op_id set \<Rightarrow> op_id set \<Rightarrow> bool" where
  "closed_under g t seen stack \<longleftrightarrow> (\<forall>y \<in> seen. \<forall>p. (y, p) \<in> parent_edges g t \<longrightarrow> p \<in> seen \<union> stack)"



lemma collect_loop_closed:
  assumes "closed_under g t seen (set stack)" "distinct out" "set out = seen"
  shows "distinct (collect_loop g t seen stack out) \<and>
    seen \<union> {h \<in> set stack. contains_op g h} \<subseteq> set (collect_loop g t seen stack out) \<and>
    closed_under g t (set (collect_loop g t seen stack out)) {}"
  using assms
proof (induction g t seen stack out rule: collect_loop.induct)
  case (1 g t seen out)
  then show ?case by simp
next
  case (2 g t seen i stack out)
  show ?case
  proof (cases "i \<in> seen \<or> find_op g i = None")
    case True
    then have same: "collect_loop g t seen (i # stack) out = collect_loop g t seen stack out" by auto
    have "closed_under g t seen (set stack)"
      using "2.prems"(1) True unfolding closed_under_def parent_edges_def contains_op_def
      by (auto; metis option.distinct(1))
    then show ?thesis
      unfolding same using "2.IH"(1,2) "2.prems"(2,3) True by (auto simp: contains_op_def)
  next
    case False
    then obtain o1 where o1: "i \<notin> seen" "find_op g i = Some o1" by auto
    let ?stack = "if t i then stack else rev (o_parents o1) @ stack"
    have "closed_under g t (insert i seen) (set ?stack)"
      using "2.prems"(1) o1 by (auto simp: closed_under_def parent_edges_def)
    then have "distinct (collect_loop g t (insert i seen) ?stack (out @ [i])) \<and>
        insert i seen \<union> {h \<in> set ?stack. contains_op g h} \<subseteq> set (collect_loop g t (insert i seen) ?stack (out @ [i])) \<and>
        closed_under g t (set (collect_loop g t (insert i seen) ?stack (out @ [i]))) {}"
      by (rule "2.IH"(3) [OF o1]) (use "2.prems" o1 in auto)
    then show ?thesis using o1 by (auto split: if_splits)
  qed
qed

lemma collect_loop_sound:
  "set (collect_loop g t seen stack out) \<subseteq> set out \<union> (parent_edges g t)\<^sup>* `` {h \<in> set stack. contains_op g h}"
proof (induction g t seen stack out rule: collect_loop.induct)
  case (2 g t seen i stack out)
  show ?case
  proof (cases "i \<in> seen \<or> find_op g i = None")
    case True
    then have "set (collect_loop g t seen (i # stack) out) \<subseteq>
        set out \<union> (parent_edges g t)\<^sup>* `` {h \<in> set stack. contains_op g h}"
      using "2.IH"(1,2) by (cases "i \<in> seen") simp_all
    then show ?thesis by auto
  next
    case False
    then obtain o1 where o1: "i \<notin> seen" "find_op g i = Some o1" by auto
    have edge: "(i, p) \<in> parent_edges g t" if "p \<in> set (o_parents o1)" "contains_op g p" "\<not> t i" for p
      using that o1 by (auto simp: parent_edges_def)
    let ?stack = "if t i then stack else rev (o_parents o1) @ stack" and ?E = "parent_edges g t"
    have "?E\<^sup>* `` {h \<in> set ?stack. contains_op g h} \<subseteq> ?E\<^sup>* `` {h \<in> set (i # stack). contains_op g h}"
    proof
      fix y assume "y \<in> ?E\<^sup>* `` {h \<in> set ?stack. contains_op g h}"
      then obtain h where h: "h \<in> set ?stack" "contains_op g h" "(h, y) \<in> ?E\<^sup>*" by auto
      have i: "contains_op g i" using o1 by (simp add: contains_op_def)
      show "y \<in> ?E\<^sup>* `` {h \<in> set (i # stack). contains_op g h}"
      proof (cases "h \<in> set stack")
        case False
        then have "h \<in> set (o_parents o1)" "\<not> t i" using h(1) by (auto split: if_splits)
        then have "(i, y) \<in> ?E\<^sup>*" using edge h(2,3) by (meson converse_rtrancl_into_rtrancl)
        with i show ?thesis by auto
      qed (use h in auto)
    qed
    moreover have "i \<in> ?E\<^sup>* `` {h \<in> set (i # stack). contains_op g h}"
      using o1 by (auto simp: contains_op_def)
    moreover have "set (collect_loop g t seen (i # stack) out) \<subseteq>
        set (out @ [i]) \<union> ?E\<^sup>* `` {h \<in> set ?stack. contains_op g h}"
      using "2.IH"(3) [OF o1] o1 by simp
    ultimately show ?thesis by (simp only: set_append list.set) blast
  qed
qed simp

lemma rtrancl_closed:
  assumes "closed_under g t S {}" "x \<in> S" "(x, y) \<in> (parent_edges g t)\<^sup>*"
  shows "y \<in> S"
  using assms(3,2) by (induction rule: rtrancl_induct) (use assms(1) in \<open>auto simp: closed_under_def\<close>)

lemma collect_loop_set:
  "distinct (collect_loop g t {} stack [])" "set (collect_loop g t {} stack []) = reach_until g t stack"
proof -
  have c: "closed_under g t {} (set stack)" by (simp add: closed_under_def)
  note closed = collect_loop_closed [OF c, of "[]"]
  show "distinct (collect_loop g t {} stack [])" using closed by simp
  show "set (collect_loop g t {} stack []) = reach_until g t stack"
    using closed collect_loop_sound [of g t "{}" stack "[]"] rtrancl_closed
    by (fastforce simp: reach_until_def)
qed

lemma reach_until_rev [simp]: "reach_until g t (rev heads) = reach_until g t heads"
  by (simp add: reach_until_def)

lemma collect_reachable_until_spec:
  "sorted_wrt (<) (collect_reachable_until g heads t)"
  "set (collect_reachable_until g heads t) = reach_until g t heads"
  using collect_loop_set [of g t "rev heads"]
  by (simp_all add: collect_reachable_until_def cc_sort_eq_sort strict_sorted_iff)

lemma collect_reachable_spec:
  "sorted_wrt (<) (collect_reachable g heads)"
  "set (collect_reachable g heads) = reach_until g (\<lambda>_. False) heads"
  using collect_reachable_until_spec [of g heads "\<lambda>_. False"]
  by (simp_all add: collect_reachable_def collect_reachable_until_def)

lemma leaves_spec:
  assumes "graph_ok g"
  shows "sorted_wrt (<) (leaves g)"
    and "i \<in> set (leaves g) \<longleftrightarrow> contains_op g i \<and> (\<forall>c o1. find_op g c = Some o1 \<longrightarrow> i \<notin> set (o_parents o1))"
proof -
  have "distinct (map fst (filter (\<lambda>(i, o1). children g i = []) (g_ops g)))"
    using assms by (auto simp: graph_ok_def distinct_map inj_on_def)
  then show "sorted_wrt (<) (leaves g)"
    by (simp add: leaves_def cc_sort_eq_sort strict_sorted_iff)
  have "i \<in> set (leaves g) \<longleftrightarrow> i \<in> fst ` set (g_ops g) \<and> children g i = []"
    by (auto simp: leaves_def image_iff) force
  moreover have "children g i = [] \<longleftrightarrow> (\<forall>c o1. find_op g c = Some o1 \<longrightarrow> i \<notin> set (o_parents o1))"
    using assms by (metis graph_ok_def list.set_intros(1) neq_Nil_conv empty_iff list.set(1))
  ultimately show "i \<in> set (leaves g) \<longleftrightarrow> contains_op g i \<and> (\<forall>c o1. find_op g c = Some o1 \<longrightarrow> i \<notin> set (o_parents o1))"
    by (simp add: contains_op_def find_op_def map_of_eq_None_iff)
qed

subsection \<open>Every reachable graph is consistent\<close>

text \<open>The states a graph can be in: any sequence of its mutating operations from the empty graph.\<close>

inductive graph_reachable :: "op_graph \<Rightarrow> bool" where
  reachable_empty: "graph_reachable empty_graph"
| reachable_add: "graph_reachable g \<Longrightarrow> graph_reachable (fst (graph_add g o1))"
| reachable_skeletonize: "graph_reachable g \<Longrightarrow> graph_reachable (fst (skeletonize g i))"
| reachable_fill: "graph_reachable g \<Longrightarrow> graph_reachable (fst (fill_payload g i p))"
| reachable_drop: "graph_reachable g \<Longrightarrow> drop_leaf g i = (Ok (g', b) :: (unit, op_graph \<times> bool) result) \<Longrightarrow> graph_reachable g'"

lemma graph_reachable_ok: "graph_reachable g \<Longrightarrow> graph_ok g"
proof (induction rule: graph_reachable.induct)
  case (reachable_drop g i g' b)
  show ?case
  proof (cases b)
    case True
    with drop_leaf_Ok(1) [OF reachable_drop.IH reachable_drop.hyps(2)] show ?thesis by simp
  next
    case False
    with reachable_drop have "g' = g" by (auto simp: drop_leaf_def result_simps split: option.splits)
    with reachable_drop.IH show ?thesis by simp
  qed
qed (auto intro: graph_ok_empty graph_add_ok skeletonize_ok fill_payload_ok)

lemma find_op_id: "graph_ok g \<Longrightarrow> find_op g i = Some o1 \<Longrightarrow> o_id o1 = i"
  by (auto simp: graph_ok_def find_op_def dest: map_of_SomeD)

lemma find_graph_add:
  "find_op (fst (graph_add g o1)) c = (if c = o_id o1 \<and> \<not> contains_op g c then Some o1 else find_op g c)"
  by (auto simp: graph_add_def find_op_def contains_op_def map_add_def Let_def split: option.splits)

subsection \<open>Properties\<close>

text \<open>
  C12.  Whatever sequence of adds, skeletonizations, payload fills and leaf drops a graph has been through,
  its child index lists exactly the ops that name a parent, each once, and every op sits under its own id.
\<close>

theorem graph_index_consistent:
  assumes "graph_reachable g"
  shows "distinct (children g p) \<and>
    (c \<in> set (children g p) \<longleftrightarrow> (\<exists>o1. find_op g c = Some o1 \<and> p \<in> set (o_parents o1))) \<and>
    (\<forall>o1. find_op g c = Some o1 \<longrightarrow> o_id o1 = c)"
  using graph_reachable_ok [OF assms] by (auto simp: graph_ok_def intro: find_op_id graph_reachable_ok [OF assms])

theorem graph_index_consistent_witness:
  "let o1 = \<lparr>o_id = Op_id (Hash256 1 0 0 0), o_parents = [Op_id (Hash256 2 0 0 0)], o_payload = None\<rparr> in
   distinct (children (fst (graph_add empty_graph o1)) (Op_id (Hash256 2 0 0 0)))"
  using graph_index_consistent [OF reachable_add [OF reachable_empty], of _ "Op_id (Hash256 2 0 0 0)"]
  by (simp add: Let_def)

text \<open>
  C25.  The reachability walks return, in ascending id order and without repetition, exactly the ops on some
  parent path from a head: ops the graph does not have end a path, and in the truncated walk so do
  terminators, which are themselves included.
\<close>

theorem collect_reachable_exact:
  "sorted_wrt (<) (collect_reachable g heads) \<and>
   set (collect_reachable g heads) = reach_until g (\<lambda>_. False) heads \<and>
   sorted_wrt (<) (collect_reachable_until g heads t) \<and>
   set (collect_reachable_until g heads t) = reach_until g t heads"
  by (simp add: collect_reachable_spec collect_reachable_until_spec)

text \<open>
  Adding is idempotent and changes no op that is already there; skeletonizing empties exactly one op's
  payload and keeps its edges; filling restores a payload only to a skeleton.
\<close>

theorem graph_updates_local:
  "find_op (fst (graph_add g o1)) c = (if c = o_id o1 \<and> \<not> contains_op g c then Some o1 else find_op g c) \<and>
   graph_add (fst (graph_add g o1)) o1 = (fst (graph_add g o1), o_id o1) \<and>
   find_op (fst (skeletonize g i)) c =
     (if c = i then map_option (\<lambda>x. x\<lparr>o_payload := None\<rparr>) (find_op g i) else find_op g c) \<and>
   children (fst (skeletonize g i)) c = children g c \<and>
   find_op (fst (fill_payload g i p)) c =
     (if c = i then map_option (\<lambda>x. if is_skeleton x then x\<lparr>o_payload := Some p\<rparr> else x) (find_op g i)
      else find_op g c) \<and>
   children (fst (fill_payload g i p)) c = children g c"
proof (intro conjI)
  show "graph_add (fst (graph_add g o1)) o1 = (fst (graph_add g o1), o_id o1)"
    using find_graph_add [of g o1 "o_id o1"] by (auto simp: graph_add_def [of "fst (graph_add g o1)"] contains_op_def Let_def)
  have "children (modify_op g i f) c = children g c" for f by (simp add: children_def modify_op_def)
  then show "children (fst (skeletonize g i)) c = children g c" "children (fst (fill_payload g i p)) c = children g c"
    by (auto simp: skeletonize_def fill_payload_def split: option.splits)
qed (auto simp: find_graph_add skeletonize_def fill_payload_def find_modify_op split: option.splits)

text \<open>
  C28.  Dropping removes one leaf and nothing else: an unknown id is reported and leaves the graph alone, an
  op that something descends from trips the assertion, and an op of the graph that nothing descends from is dropped and
  reported as dropped: exactly that op disappears from the op set and from its parents' child lists, and the graph it
  leaves can be used as any other.
\<close>

theorem drop_leaf_exact:
  assumes "graph_reachable g"
  shows "(contains_op g i \<and> children g i \<noteq> [] \<longrightarrow> drop_leaf g i = (Fault :: ('e, op_graph \<times> bool) result)) \<and>
    (\<not> contains_op g i \<longrightarrow> drop_leaf g i = (Ok (g, False) :: ('e, op_graph \<times> bool) result)) \<and>
    (contains_op g i \<and> children g i = [] \<longrightarrow>
       (\<exists>g'. drop_leaf g i = (Ok (g', True) :: ('e, op_graph \<times> bool) result) \<and> graph_reachable g' \<and>
         (\<forall>c. find_op g' c = (if c = i then None else find_op g c)) \<and>
         (\<forall>p. set (children g' p) = set (children g p) - {i})))"
proof (intro conjI impI)
  assume i: "contains_op g i \<and> children g i = []"
  then obtain g' where d: "drop_leaf g i = (Ok (g', True) :: ('e, op_graph \<times> bool) result)"
    "drop_leaf g i = (Ok (g', True) :: (unit, op_graph \<times> bool) result)"
    by (auto simp: drop_leaf_def contains_op_def check_def)
  show "\<exists>g'. drop_leaf g i = (Ok (g', True) :: ('e, op_graph \<times> bool) result) \<and> graph_reachable g' \<and>
         (\<forall>c. find_op g' c = (if c = i then None else find_op g c)) \<and>
         (\<forall>p. set (children g' p) = set (children g p) - {i})"
    using drop_leaf_Ok(2,3) [OF graph_reachable_ok [OF assms] d(1)] reachable_drop [OF assms d(2)] d(1)
    by (intro exI [of _ g']) simp
qed (auto simp: drop_leaf_def contains_op_def result_simps split: option.splits)

theorem drop_leaf_exact_witness:
  "\<exists>g'. drop_leaf (fst (graph_add empty_graph \<lparr>o_id = Op_id (Hash256 1 0 0 0), o_parents = [], o_payload = None\<rparr>)) (Op_id (Hash256 1 0 0 0)) =
       (Ok (g', True) :: (nat, op_graph \<times> bool) result) \<and> find_op g' (Op_id (Hash256 1 0 0 0)) = None"
proof -
  let ?g = "fst (graph_add empty_graph \<lparr>o_id = Op_id (Hash256 1 0 0 0), o_parents = [], o_payload = None\<rparr>)"
  have "contains_op ?g (Op_id (Hash256 1 0 0 0)) \<and> children ?g (Op_id (Hash256 1 0 0 0)) = []" by code_simp
  then show ?thesis
    using drop_leaf_exact [OF reachable_add [OF reachable_empty], of "\<lparr>o_id = Op_id (Hash256 1 0 0 0), o_parents = [], o_payload = None\<rparr>"
      "Op_id (Hash256 1 0 0 0)", where 'e = nat] by auto
qed

end
