(* ===== verification/Raw_Document.thy ===== *)
theory Raw_Document
  imports Ids Value
begin

text \<open>
  Model of \<^verbatim>\<open>versioned-document/raw_document.hh\<close> and \<^verbatim>\<open>raw_document.cc\<close>: the materialized document as three
  nested levels of vectors sorted by canonical id bytes, with lookup by binary search.

  \<open>flatten\<close> is the abstract view: the list of all paths with their surviving writes.  On a well-formed
  document lookup is lookup in that list, which is how the other components use it.
\<close>

record property_value =
  pv_writer :: op_id
  pv_value :: value_view

record raw_property =
  rp_writers :: "property_value list"

record raw_component =
  rc_properties :: "(property_id \<times> raw_property) list"

record raw_entity =
  re_components :: "(component_type_id \<times> raw_component) list"

record raw_document =
  rd_entities :: "(entity_id \<times> raw_entity) list"

definition is_multi_valued :: "raw_property \<Rightarrow> bool" where
  "is_multi_valued p \<longleftrightarrow> length (rp_writers p) > 1"

definition single :: "raw_property \<Rightarrow> ('e, value_view) result" where
  "single p = rbind (check (length (rp_writers p) = 1)) (\<lambda>_. Ok (pv_value (rp_writers p ! 0)))"

text \<open>The binary search every level shares, over the window \<open>[lo, hi)\<close>.\<close>

function find_sorted_in :: "(str \<times> 'v) list \<Rightarrow> str \<Rightarrow> nat \<Rightarrow> nat \<Rightarrow> 'v option" where
  "find_sorted_in entries i lo hi =
     (if lo < hi then
        (let mid = lo + (hi - lo) div 2;
             order = id_compare_bytes (fst (entries ! mid)) i in
         if order = 0 then Some (snd (entries ! mid))
         else if order < 0 then find_sorted_in entries i (mid + 1) hi
         else find_sorted_in entries i lo mid)
      else None)"
  by pat_completeness auto
termination
  by (relation "measure (\<lambda>(entries, i, lo, hi). hi - lo)") auto

declare find_sorted_in.simps [simp del]

definition find_sorted :: "(str \<times> 'v) list \<Rightarrow> str \<Rightarrow> 'v option" where
  "find_sorted entries i = find_sorted_in entries i 0 (length entries)"

definition component_try_get :: "raw_component \<Rightarrow> property_id \<Rightarrow> raw_property option" where
  "component_try_get c p = find_sorted (rc_properties c) p"

definition entity_try_get :: "raw_entity \<Rightarrow> component_type_id \<Rightarrow> raw_component option" where
  "entity_try_get e c = find_sorted (re_components e) c"

definition document_try_get_entity :: "raw_document \<Rightarrow> entity_id \<Rightarrow> raw_entity option" where
  "document_try_get_entity d e = find_sorted (rd_entities d) e"

definition document_try_get :: "raw_document \<Rightarrow> property_path \<Rightarrow> raw_property option" where
  "document_try_get d path =
     (case document_try_get_entity d (pp_entity path) of
        None \<Rightarrow> None
      | Some e \<Rightarrow>
          (case entity_try_get e (pp_component path) of
             None \<Rightarrow> None
           | Some c \<Rightarrow> component_try_get c (pp_property path)))"

definition property_count :: "raw_document \<Rightarrow> nat" where
  "property_count d =
     foldl (\<lambda>count (e, ent). foldl (\<lambda>count (c, cmp). count + length (rc_properties cmp)) count
       (re_components ent)) 0 (rd_entities d)"

subsection \<open>Lookup in a sorted level\<close>

lemma find_sorted_in_spec:
  assumes "sorted_wrt (<) (map fst es)" "hi \<le> length es"
    and "\<forall>k < length es. (k < lo \<longrightarrow> fst (es ! k) < i) \<and> (hi \<le> k \<longrightarrow> i < fst (es ! k))"
  shows "find_sorted_in es i lo hi = map_of es i"
  using assms
proof (induction es i lo hi rule: find_sorted_in.induct)
  case (1 es i lo hi)
  have mono: "fst (es ! k) < fst (es ! l)" if "k < l" "l < length es" for k l
    using sorted_wrt_nth_less [OF "1.prems"(1), of k l] that by simp
  show ?case
  proof (cases "lo < hi")
    case True
    define mid where "mid = lo + (hi - lo) div 2"
    have mid: "lo \<le> mid" "mid < hi" "mid < length es" using True "1.prems"(2) by (auto simp: mid_def)
    let ?o = "id_compare_bytes (fst (es ! mid)) i"
    have eq: "find_sorted_in es i lo hi =
      (if ?o = 0 then Some (snd (es ! mid)) else if ?o < 0 then find_sorted_in es i (mid + 1) hi
       else find_sorted_in es i lo mid)"
      using True by (subst find_sorted_in.simps) (simp add: Let_def mid_def)
    consider "fst (es ! mid) = i" | "fst (es ! mid) < i" | "i < fst (es ! mid)" by (metis linorder_less_linear)
    then show ?thesis
    proof cases
      case 1
      have "distinct (map fst es)" using "1.prems"(1) by (simp add: strict_sorted_iff)
      then have "map_of es i = Some (snd (es ! mid))"
        using mid(3) 1 by (metis map_of_is_SomeI nth_mem prod.collapse)
      with 1 eq show ?thesis by simp
    next
      case 2
      have "find_sorted_in es i (mid + 1) hi = map_of es i"
      proof (unfold mid_def, rule "1.IH"(1) [OF True refl refl])
        show "\<forall>k<length es. (k < lo + (hi - lo) div 2 + 1 \<longrightarrow> fst (es ! k) < i) \<and> (hi \<le> k \<longrightarrow> i < fst (es ! k))"
        proof (intro allI impI)
          fix k assume k: "k < length es"
          have "fst (es ! k) < i" if "k < mid + 1"
          proof (cases "k = mid")
            case False
            with that mono [of k mid] mid(3) 2 show ?thesis by simp
          qed (use 2 in simp)
          with "1.prems"(3) k
          show "(k < lo + (hi - lo) div 2 + 1 \<longrightarrow> fst (es ! k) < i) \<and> (hi \<le> k \<longrightarrow> i < fst (es ! k))"
            by (simp add: mid_def)
        qed
      qed (use 2 "1.prems" in \<open>auto simp: mid_def\<close>)
      with 2 eq show ?thesis by auto
    next
      case 3
      have "find_sorted_in es i lo mid = map_of es i"
      proof (unfold mid_def, rule "1.IH"(2) [OF True refl refl])
        show "\<forall>k<length es. (k < lo \<longrightarrow> fst (es ! k) < i) \<and> (lo + (hi - lo) div 2 \<le> k \<longrightarrow> i < fst (es ! k))"
        proof (intro allI impI)
          fix k assume k: "k < length es"
          have "i < fst (es ! k)" if "mid \<le> k"
          proof (cases "k = mid")
            case False
            with that mono [of mid k] k 3 show ?thesis by simp
          qed (use 3 in simp)
          with "1.prems"(3) k
          show "(k < lo \<longrightarrow> fst (es ! k) < i) \<and> (lo + (hi - lo) div 2 \<le> k \<longrightarrow> i < fst (es ! k))"
            by (simp add: mid_def)
        qed
      qed (use 3 "1.prems" mid in \<open>auto simp: mid_def\<close>)
      with 3 eq show ?thesis by auto
    qed
  next
    case False
    have "map_of es i = None"
    proof (rule ccontr)
      assume "map_of es i \<noteq> None"
      then obtain k where "k < length es" "fst (es ! k) = i"
        by (metis domIff dom_map_of_conv_image_fst image_iff in_set_conv_nth)
      with "1.prems"(3) False show False by (metis less_irrefl not_le le_trans less_imp_le)
    qed
    with False show ?thesis by (subst find_sorted_in.simps) simp
  qed
qed

text \<open>The interface of a sorted level: what a lookup may be taken to mean.\<close>

locale sorted_level =
  fixes lookup :: "(str \<times> 'v) list \<Rightarrow> str \<Rightarrow> 'v option"
  assumes lookup_map_of: "sorted_wrt (<) (map fst es) \<Longrightarrow> lookup es i = map_of es i"
begin

lemma lookup_Some_iff:
  "sorted_wrt (<) (map fst es) \<Longrightarrow> lookup es i = Some v \<longleftrightarrow> (i, v) \<in> set es"
  by (simp add: lookup_map_of strict_sorted_iff)

lemma lookup_None_iff:
  "sorted_wrt (<) (map fst es) \<Longrightarrow> lookup es i = None \<longleftrightarrow> i \<notin> fst ` set es"
  by (simp add: lookup_map_of map_of_eq_None_iff)

end

interpretation level: sorted_level find_sorted
  by unfold_locales (simp add: find_sorted_def find_sorted_in_spec)

subsection \<open>Well-formed documents\<close>

definition property_wf :: "raw_property \<Rightarrow> bool" where
  "property_wf p \<longleftrightarrow> rp_writers p \<noteq> [] \<and> sorted_wrt (<) (map pv_writer (rp_writers p))"

definition component_wf :: "raw_component \<Rightarrow> bool" where
  "component_wf c \<longleftrightarrow> rc_properties c \<noteq> [] \<and> sorted_wrt (<) (map fst (rc_properties c)) \<and>
     (\<forall>(p, v) \<in> set (rc_properties c). property_wf v)"

definition entity_wf :: "raw_entity \<Rightarrow> bool" where
  "entity_wf e \<longleftrightarrow> re_components e \<noteq> [] \<and> sorted_wrt (<) (map fst (re_components e)) \<and>
     (\<forall>(c, v) \<in> set (re_components e). component_wf v)"

definition document_wf :: "raw_document \<Rightarrow> bool" where
  "document_wf d \<longleftrightarrow> sorted_wrt (<) (map fst (rd_entities d)) \<and> (\<forall>(e, v) \<in> set (rd_entities d). entity_wf v)"

definition flatten_component :: "entity_id \<Rightarrow> component_type_id \<Rightarrow> raw_component \<Rightarrow> (property_path \<times> raw_property) list" where
  "flatten_component e c cmp = map (\<lambda>(p, v). (Property_path e c p, v)) (rc_properties cmp)"

definition flatten_entity :: "entity_id \<Rightarrow> raw_entity \<Rightarrow> (property_path \<times> raw_property) list" where
  "flatten_entity e ent = concat (map (\<lambda>(c, cmp). flatten_component e c cmp) (re_components ent))"

definition flatten :: "raw_document \<Rightarrow> (property_path \<times> raw_property) list" where
  "flatten d = concat (map (\<lambda>(e, ent). flatten_entity e ent) (rd_entities d))"

lemma in_flatten_iff:
  "(path, v) \<in> set (flatten d) \<longleftrightarrow>
   (\<exists>ent cmp. (pp_entity path, ent) \<in> set (rd_entities d) \<and>
      (pp_component path, cmp) \<in> set (re_components ent) \<and> (pp_property path, v) \<in> set (rc_properties cmp))"
  by (cases path) (auto simp: flatten_def flatten_entity_def flatten_component_def split: prod.splits; force)

lemma document_try_get_Some_iff:
  assumes "document_wf d"
  shows "document_try_get d path = Some v \<longleftrightarrow> (path, v) \<in> set (flatten d)"
proof -
  have d: "sorted_wrt (<) (map fst (rd_entities d))" using assms by (simp add: document_wf_def)
  have e: "sorted_wrt (<) (map fst (re_components ent))" if "(i, ent) \<in> set (rd_entities d)" for i ent
    using assms that by (auto simp: document_wf_def entity_wf_def)
  have c: "sorted_wrt (<) (map fst (rc_properties cmp))"
    if "(i, ent) \<in> set (rd_entities d)" "(j, cmp) \<in> set (re_components ent)" for i ent j cmp
    using assms that by (fastforce simp: document_wf_def entity_wf_def component_wf_def)
  show ?thesis
    unfolding in_flatten_iff document_try_get_def document_try_get_entity_def entity_try_get_def component_try_get_def
    using level.lookup_Some_iff [OF d] level.lookup_Some_iff [OF e] level.lookup_Some_iff [OF c]
    by (auto split: option.splits; metis option.distinct(1) option.inject)
qed

lemma sorted_concat_levels:
  assumes "sorted_wrt (<) (map fst es)" "\<And>k v. (k, v) \<in> set es \<Longrightarrow> sorted_wrt P (f k v)"
    and "\<And>k v k' v' x y. k < k' \<Longrightarrow> x \<in> set (f k v) \<Longrightarrow> y \<in> set (f k' v') \<Longrightarrow> P x y"
  shows "sorted_wrt P (concat (map (\<lambda>(k, v). f k v) es))"
  using assms(1,2)
proof (induction es)
  case (Cons kv es)
  obtain k v where kv: "kv = (k, v)" by (cases kv)
  have "sorted_wrt P (concat (map (\<lambda>(k, v). f k v) es))" using Cons by simp
  moreover have "sorted_wrt P (f k v)" using Cons.prems kv by simp
  moreover have "P x y" if "x \<in> set (f k v)" "y \<in> set (concat (map (\<lambda>(k, v). f k v) es))" for x y
    using that Cons.prems(1) assms(3) [of k _ x v y] by (auto simp: kv)
  ultimately show ?case by (simp add: kv sorted_wrt_append)
qed simp

lemma set_flatten_component: "x \<in> set (flatten_component e c cmp) \<Longrightarrow> pp_entity (fst x) = e \<and> pp_component (fst x) = c"
  by (auto simp: flatten_component_def)

lemma set_flatten_entity: "x \<in> set (flatten_entity e ent) \<Longrightarrow> pp_entity (fst x) = e"
  by (auto simp: flatten_entity_def dest: set_flatten_component)

lemma path_less_entity: "pp_entity p < pp_entity q \<Longrightarrow> p < q"
  by (cases p; cases q) simp

lemma path_less_component: "pp_entity p = pp_entity q \<Longrightarrow> pp_component p < pp_component q \<Longrightarrow> p < q"
  by (cases p; cases q) simp

lemma flatten_component_sorted:
  "component_wf cmp \<Longrightarrow> sorted_wrt (\<lambda>x y. fst x < fst y) (flatten_component e c cmp)"
  by (auto simp: component_wf_def flatten_component_def sorted_wrt_map case_prod_beta)

lemma flatten_entity_sorted:
  "entity_wf ent \<Longrightarrow> sorted_wrt (\<lambda>x y. fst x < fst y) (flatten_entity e ent)"
  unfolding flatten_entity_def entity_wf_def
  by (rule sorted_concat_levels)
    (auto intro: flatten_component_sorted path_less_component dest!: set_flatten_component)

lemma flatten_sorted:
  assumes "document_wf d"
  shows "sorted_wrt (<) (map fst (flatten d))"
proof -
  have "sorted_wrt (\<lambda>x y. fst x < fst y) (flatten d)"
    using assms unfolding flatten_def document_wf_def
    by (intro sorted_concat_levels)
      (auto intro: flatten_entity_sorted path_less_entity dest!: set_flatten_entity)
  then show ?thesis by (simp add: sorted_wrt_map)
qed

lemma document_try_get_eq: "document_wf d \<Longrightarrow> document_try_get d path = map_of (flatten d) path"
  using document_try_get_Some_iff [of d path] flatten_sorted [of d]
  by (metis map_of_eq_Some_iff not_None_eq sorted_wrt_less_distinct)

lemma foldl_add_lengths: "foldl (\<lambda>n x. n + f x) (m :: nat) xs = m + sum_list (map f xs)"
  by (induction xs arbitrary: m) auto

lemma property_count_flatten: "property_count d = length (flatten d)"
  by (simp add: property_count_def flatten_def flatten_entity_def flatten_component_def foldl_add_lengths
      length_concat comp_def case_prod_unfold)

end
