(* ===== verification/Vectors.thy ===== *)
theory Vectors
  imports Prelude
begin

text \<open>
  Checked indexing of a \<^verbatim>\<open>cc::vector\<close> and the fold a range-for loop over fallible steps becomes, with the
  invariant rule the loop proofs use.
\<close>

text \<open>Code that returns no error value: it succeeds or faults.\<close>

type_synonym 'a checked = "(unit, 'a) result"

primrec lift_checked :: "'a checked \<Rightarrow> ('e, 'a) result" where
  "lift_checked Fault = Fault"
| "lift_checked (Err _) = Fault"
| "lift_checked (Ok x) = Ok x"

definition vat :: "'a list \<Rightarrow> nat \<Rightarrow> ('e, 'a) result" where
  "vat xs i = (if i < length xs then Ok (xs ! i) else Fault)"

definition vset :: "'a list \<Rightarrow> nat \<Rightarrow> 'a \<Rightarrow> ('e, 'a list) result" where
  "vset xs i v = (if i < length xs then Ok (xs[i := v]) else Fault)"

primrec rfold :: "('a \<Rightarrow> 's \<Rightarrow> ('e, 's) result) \<Rightarrow> 'a list \<Rightarrow> 's \<Rightarrow> ('e, 's) result" where
  "rfold f [] s = Ok s"
| "rfold f (x # xs) s = rbind (f x s) (rfold f xs)"

lemma vat_Ok [simp]: "i < length xs \<Longrightarrow> vat xs i = Ok (xs ! i)"
  by (simp add: vat_def)

lemma vset_Ok [simp]: "i < length xs \<Longrightarrow> vset xs i v = Ok (xs[i := v])"
  by (simp add: vset_def)

lemma vat_eq_Ok [result_simps]: "vat xs i = Ok v \<longleftrightarrow> i < length xs \<and> v = xs ! i"
  by (auto simp: vat_def)

lemma vset_eq_Ok [result_simps]: "vset xs i v = Ok ys \<longleftrightarrow> i < length xs \<and> ys = xs[i := v]"
  by (auto simp: vset_def)

lemma rfold_append: "rfold f (xs @ ys) s = rbind (rfold f xs s) (rfold f ys)"
proof (induction xs arbitrary: s)
  case (Cons x xs)
  then show ?case by (cases "f x s") simp_all
qed simp

text \<open>The loop rule: an invariant on what has been consumed and the state.\<close>

lemma rfold_invariant:
  assumes "P [] s"
    and "\<And>ys x zs s. xs = ys @ x # zs \<Longrightarrow> P ys s \<Longrightarrow> \<exists>s'. f x s = Ok s' \<and> P (ys @ [x]) s'"
  shows "\<exists>s'. rfold f xs s = Ok s' \<and> P xs s'"
proof -
  have "\<exists>s'. rfold f zs s = Ok s' \<and> P xs s'" if "xs = ys @ zs" "P ys s" for ys zs s
    using that
  proof (induction zs arbitrary: ys s)
    case (Cons z zs)
    from assms(2) [OF Cons.prems] obtain s' where s': "f z s = Ok s'" "P (ys @ [z]) s'" by blast
    from Cons.IH [of "ys @ [z]" s'] Cons.prems s' show ?case by simp
  qed simp
  from this [of "[]" xs s] assms(1) show ?thesis by simp
qed

text \<open>A loop whose body always succeeds is a pure fold.\<close>

lemma rfold_pure: "(\<And>x s. x \<in> set xs \<Longrightarrow> f x s = Ok (g s x)) \<Longrightarrow> rfold f xs s = Ok (foldl g s xs)"
  by (induction xs arbitrary: s) auto

end
