(* ===== verification/Materialize.thy ===== *)
theory Materialize
  imports Op_Graph Raw_Document Vectors
begin

text \<open>
  Model of the materialization half of \<^verbatim>\<open>versioned-document/op_graph.cc\<close>: the per-path sweep state, the two
  updates of it, the assembly of the sorted document, and \<^verbatim>\<open>impl::materialize\<close> with its passes, its validity
  gate for snapshots, the state stealing and the clearing of superseded writers at articulation points.

  Dense indices stay dense: path slots and per-op arrays are lists, every access is checked, and an index
  outside an array is a \<open>Fault\<close>, as are the assertions of the source.  The binary heap the sweep pops in
  ascending order is a list from which the least element is taken.  The snapshot cache is a lookup
  function here; its own state is the subject of its own component.
\<close>

record sweep_writer =
  sw_writer :: op_id
  sw_value :: value_view
  sw_abstains :: bool

record path_state =
  ps_surviving :: "sweep_writer list"
  ps_superseded :: "op_id list"
  ps_in_occupied :: bool
  ps_in_dirty :: bool

record sweep_state =
  ss_slots :: "path_state list"
  ss_occupied :: "nat list"
  ss_dirty :: "nat list"

definition empty_slot :: path_state where
  "empty_slot = \<lparr>ps_surviving = [], ps_superseded = [], ps_in_occupied = False, ps_in_dirty = False\<rparr>"

definition empty_state :: sweep_state where
  "empty_state = \<lparr>ss_slots = [], ss_occupied = [], ss_dirty = []\<rparr>"

text \<open>\<^verbatim>\<open>slots.resize_to_defaulted(path_count)\<close> on a fresh state.\<close>

definition fresh_state :: "nat \<Rightarrow> sweep_state" where
  "fresh_state path_count = empty_state\<lparr>ss_slots := replicate path_count empty_slot\<rparr>"

definition note_occupied :: "nat \<Rightarrow> sweep_state \<Rightarrow> sweep_state checked" where
  "note_occupied i st =
     rbind (vat (ss_slots st) i) (\<lambda>s.
       if ps_in_occupied s then Ok st
       else rbind (vset (ss_slots st) i (s\<lparr>ps_in_occupied := True\<rparr>)) (\<lambda>slots.
         Ok (st\<lparr>ss_slots := slots, ss_occupied := ss_occupied st @ [i]\<rparr>)))"

definition note_dirty :: "nat \<Rightarrow> sweep_state \<Rightarrow> sweep_state checked" where
  "note_dirty i st =
     rbind (vat (ss_slots st) i) (\<lambda>s.
       if ps_in_dirty s then Ok st
       else rbind (vset (ss_slots st) i (s\<lparr>ps_in_dirty := True\<rparr>)) (\<lambda>slots.
         Ok (st\<lparr>ss_slots := slots, ss_dirty := ss_dirty st @ [i]\<rparr>)))"

fun contains_writer :: "sweep_writer list \<Rightarrow> op_id \<Rightarrow> bool" where
  "contains_writer [] i = False"
| "contains_writer (w # ws) i = (if sw_writer w = i then True else contains_writer ws i)"

fun add_ids :: "op_id list \<Rightarrow> op_id list \<Rightarrow> op_id list" where
  "add_ids d [] = d"
| "add_ids d (i # is) = add_ids (if \<not> contains_id d i then d @ [i] else d) is"

fun add_writers :: "sweep_writer list \<Rightarrow> sweep_writer list \<Rightarrow> sweep_writer list" where
  "add_writers d [] = d"
| "add_writers d (w # ws) = add_writers (if \<not> contains_writer d (sw_writer w) then d @ [w] else d) ws"

definition modify_slot :: "nat \<Rightarrow> (path_state \<Rightarrow> path_state) \<Rightarrow> sweep_state \<Rightarrow> sweep_state checked" where
  "modify_slot i f st =
     rbind (vat (ss_slots st) i) (\<lambda>s.
     rbind (vset (ss_slots st) i (f s)) (\<lambda>slots. Ok (st\<lparr>ss_slots := slots\<rparr>)))"

definition note_slot :: "nat \<Rightarrow> sweep_state \<Rightarrow> sweep_state checked" where
  "note_slot i st =
     rbind (note_occupied i st) (\<lambda>st.
     rbind (vat (ss_slots st) i) (\<lambda>s. if ps_superseded s \<noteq> [] then note_dirty i st else Ok st))"

definition merge_slot :: "sweep_state \<Rightarrow> nat \<Rightarrow> sweep_state \<Rightarrow> sweep_state checked" where
  "merge_slot src i dst =
     rbind (vat (ss_slots src) i) (\<lambda>s.
       if ps_surviving s = [] \<and> ps_superseded s = [] then Ok dst
       else
         rbind (modify_slot i (\<lambda>d. d\<lparr>ps_superseded := add_ids (ps_superseded d) (ps_superseded s)\<rparr>) dst) (\<lambda>dst.
         rbind (modify_slot i (\<lambda>d. d\<lparr>ps_surviving := add_writers (ps_surviving d) (ps_surviving s)\<rparr>) dst) (\<lambda>dst.
         rbind (note_slot i dst) (\<lambda>dst.
         rbind (vat (ss_slots dst) i) (\<lambda>d.
           if ps_superseded d = [] then Ok dst
           else modify_slot i (\<lambda>d. d\<lparr>ps_surviving :=
                  filter (\<lambda>w. \<not> contains_id (ps_superseded d) (sw_writer w)) (ps_surviving d)\<rparr>) dst)))))"

definition merge_into :: "sweep_state \<Rightarrow> sweep_state \<Rightarrow> sweep_state checked" where
  "merge_into dst src = rfold (merge_slot src) (ss_occupied src) dst"

definition apply_write :: "nat \<Rightarrow> op_id \<Rightarrow> value_view \<Rightarrow> bool \<Rightarrow> sweep_state \<Rightarrow> sweep_state checked" where
  "apply_write path writer v abstains st =
     rbind (modify_slot path (\<lambda>s. s\<lparr>ps_superseded := add_ids (ps_superseded s) (map sw_writer (ps_surviving s))\<rparr>) st) (\<lambda>st.
     rbind (modify_slot path (\<lambda>s. s\<lparr>ps_surviving := [\<lparr>sw_writer = writer, sw_value = v, sw_abstains = abstains\<rparr>]\<rparr>) st) (\<lambda>st.
       note_slot path st))"

definition side_lists_cover :: "sweep_state \<Rightarrow> bool" where
  "side_lists_cover st \<longleftrightarrow>
     (\<forall>s \<in> set (ss_slots st).
        ((ps_surviving s \<noteq> [] \<or> ps_superseded s \<noteq> []) \<longrightarrow> ps_in_occupied s) \<and>
        (ps_superseded s \<noteq> [] \<longrightarrow> ps_in_dirty s)) \<and>
     length (filter ps_in_occupied (ss_slots st)) = length (ss_occupied st) \<and>
     length (filter ps_in_dirty (ss_slots st)) = length (ss_dirty st)"

subsection \<open>Assembling the document\<close>

type_synonym flat_entry = "property_path \<times> raw_property"

definition flat_step ::
  "property_path list \<Rightarrow> sweep_state \<Rightarrow> nat \<Rightarrow> flat_entry list \<Rightarrow> (flat_entry list) checked" where
  "flat_step paths st i flat =
     rbind (vat (ss_slots st) i) (\<lambda>s.
       if ps_surviving s = [] then Ok flat
       else
         (let writers = map (\<lambda>w. \<lparr>pv_writer = sw_writer w, pv_value = sw_value w\<rparr>)
                (filter (\<lambda>w. \<not> sw_abstains w) (ps_surviving s)) in
          if writers = [] then Ok flat
          else
            rbind (vat paths i) (\<lambda>path.
              Ok (flat @ [(path, \<lparr>rp_writers =
                cc_sort (\<lambda>a b. op_id_compare_bytes (pv_writer a) (pv_writer b) < 0) writers\<rparr>)]))))"

definition append_property :: "property_id \<Rightarrow> raw_property \<Rightarrow> raw_component \<Rightarrow> raw_component" where
  "append_property p v c = c\<lparr>rc_properties := rc_properties c @ [(p, v)]\<rparr>"

definition append_component :: "component_type_id \<Rightarrow> property_id \<Rightarrow> raw_property \<Rightarrow> raw_entity \<Rightarrow> raw_entity" where
  "append_component c p v e =
     (let cs = (if re_components e = [] \<or> fst (last (re_components e)) \<noteq> c
                then re_components e @ [(c, \<lparr>rc_properties = []\<rparr>)] else re_components e) in
      e\<lparr>re_components := butlast cs @ [(fst (last cs), append_property p v (snd (last cs)))]\<rparr>)"

definition append_flat :: "raw_document \<Rightarrow> flat_entry \<Rightarrow> raw_document" where
  "append_flat d fe =
     (let path = fst fe;
          es = (if rd_entities d = [] \<or> fst (last (rd_entities d)) \<noteq> pp_entity path
                then rd_entities d @ [(pp_entity path, \<lparr>re_components = []\<rparr>)] else rd_entities d) in
      d\<lparr>rd_entities := butlast es @
         [(fst (last es), append_component (pp_component path) (pp_property path) (snd fe) (snd (last es)))]\<rparr>)"

definition assemble :: "flat_entry list \<Rightarrow> raw_document" where
  "assemble flat = foldl append_flat \<lparr>rd_entities = []\<rparr> flat"

definition build_document :: "property_path list \<Rightarrow> sweep_state \<Rightarrow> raw_document checked" where
  "build_document paths st =
     rbind (rfold (flat_step paths st) (ss_occupied st) []) (\<lambda>flat.
       Ok (assemble (cc_sort (\<lambda>a b. path_compare_bytes (fst a) (fst b) < 0) flat)))"


subsection \<open>Indices, filter and edges\<close>

record materialize_stats =
  ms_ops_walked :: nat
  ms_snapshots_used :: nat
  ms_snapshot_entities_read :: nat
  ms_fell_back :: bool

definition default_stats :: materialize_stats where
  "default_stats = \<lparr>ms_ops_walked = 0, ms_snapshots_used = 0, ms_snapshot_entities_read = 0, ms_fell_back = False\<rparr>"

type_synonym snapshot_lookup = "op_id \<Rightarrow> raw_document option"

record materialize_options =
  mo_drop_superseded :: bool
  mo_cache :: "snapshot_lookup option"

definition default_options :: materialize_options where
  "default_options = \<lparr>mo_drop_superseded = True, mo_cache = None\<rparr>"

definition build_index :: "op_id list \<Rightarrow> (op_id \<rightharpoonup> nat)" where
  "build_index reachable = foldl (\<lambda>m i. m(reachable ! i \<mapsto> i)) Map.empty [0..<length reachable]"

definition collect_wanted :: "entity_id list \<Rightarrow> entity_id set \<times> entity_id list" where
  "collect_wanted entities =
     foldl (\<lambda>(wanted, xs) e. if e \<in> wanted then (wanted, xs) else (insert e wanted, xs @ [e])) ({}, []) entities"

text \<open>\<^verbatim>\<open>for_each_wanted_property\<close>: the visited properties in order, and how many entities were read.\<close>

definition wanted_properties ::
  "raw_document \<Rightarrow> bool \<Rightarrow> entity_id list \<Rightarrow> flat_entry list \<times> nat" where
  "wanted_properties snapshot filtered wanted_sorted =
     (if \<not> filtered
      then (concat (map (\<lambda>(i, e). flatten_entity i e) (rd_entities snapshot)), length (rd_entities snapshot))
      else foldl (\<lambda>(acc, n) want.
             (case document_try_get_entity snapshot want of
                None \<Rightarrow> (acc, n)
              | Some e \<Rightarrow> (acc @ flatten_entity want e, n + 1))) ([], 0) wanted_sorted)"

record edges =
  ed_forward :: "nat list list"
  ed_in_degree :: "int list"
  ed_consumers :: "int list"
  ed_unwalked :: "bool list"

definition edge_step ::
  "op_graph \<Rightarrow> (op_id \<rightharpoonup> nat) \<Rightarrow> nat \<Rightarrow> op_id \<Rightarrow> edges \<Rightarrow> edges checked" where
  "edge_step g index_of i parent ed =
     (case index_of parent of
        None \<Rightarrow>
          rbind (vat (ed_unwalked ed) i) (\<lambda>u.
          rbind (vset (ed_unwalked ed) i (u \<or> contains_op g parent)) (\<lambda>us. Ok (ed\<lparr>ed_unwalked := us\<rparr>)))
      | Some p \<Rightarrow>
          rbind (vat (ed_forward ed) p) (\<lambda>f.
          rbind (vset (ed_forward ed) p (f @ [i])) (\<lambda>fs.
          rbind (vat (ed_in_degree ed) i) (\<lambda>d.
          rbind (vset (ed_in_degree ed) i (d + 1)) (\<lambda>ds.
          rbind (vat (ed_consumers ed) p) (\<lambda>c.
          rbind (vset (ed_consumers ed) p (c + 1)) (\<lambda>cs.
            Ok (ed\<lparr>ed_forward := fs, ed_in_degree := ds, ed_consumers := cs\<rparr>))))))))"

text \<open>\<^verbatim>\<open>graph.find(reachable[i])\<close>, dereferenced.\<close>

definition op_at :: "op_graph \<Rightarrow> op_id list \<Rightarrow> nat \<Rightarrow> op checked" where
  "op_at g reachable i =
     rbind (vat reachable i) (\<lambda>r. case find_op g r of None \<Rightarrow> Fault | Some o1 \<Rightarrow> Ok o1)"

definition build_edges :: "op_graph \<Rightarrow> op_id list \<Rightarrow> (op_id \<rightharpoonup> nat) \<Rightarrow> edges checked" where
  "build_edges g reachable index_of =
     (let n = length reachable in
      rfold (\<lambda>i ed. rbind (op_at g reachable i) (\<lambda>o1. rfold (edge_step g index_of i) (o_parents o1) ed)) [0..<n]
        \<lparr>ed_forward = replicate n [], ed_in_degree = replicate n 0, ed_consumers = replicate n 0,
         ed_unwalked = replicate n False\<rparr>)"

text \<open>
  The validity gate.  \<open>None\<close>: the sweep must fall back to a plain replay; \<open>Some seeded\<close>: proceed, seeded at that
  index if there is one.
\<close>

definition sources_of :: "int list \<Rightarrow> nat list" where
  "sources_of in_degree = filter (\<lambda>i. in_degree ! i = 0) [0..<length in_degree]"

definition gate :: "snapshot_lookup option \<Rightarrow> op_id list \<Rightarrow> edges \<Rightarrow> nat option option" where
  "gate cache reachable ed =
     (case cache of
        None \<Rightarrow> Some None
      | Some find_snapshot \<Rightarrow>
          (if \<exists>r \<in> set reachable. find_snapshot r \<noteq> None then
             (let sources = sources_of (ed_in_degree ed);
                  accepted = length sources = 1 \<and> find_snapshot (reachable ! (sources ! 0)) \<noteq> None;
                  accepted = accepted \<and>
                    (\<forall>i \<in> set [0..<length reachable]. \<not> ed_unwalked ed ! i \<or> i = sources ! 0) in
              if accepted then Some (Some (sources ! 0)) else None)
           else Some None))"

subsection \<open>Path indices\<close>

record path_table =
  pt_index :: "property_path \<rightharpoonup> nat"
  pt_paths :: "property_path list"

definition register_path :: "bool \<Rightarrow> entity_id set \<Rightarrow> path_table \<Rightarrow> property_path \<Rightarrow> path_table" where
  "register_path filtered wanted pt path =
     (if filtered \<and> pp_entity path \<notin> wanted then pt
      else (case pt_index pt path of
              Some _ \<Rightarrow> pt
            | None \<Rightarrow> \<lparr>pt_index = (pt_index pt)(path \<mapsto> length (pt_paths pt)), pt_paths = pt_paths pt @ [path]\<rparr>))"

definition op_assignment_list :: "op \<Rightarrow> (assignment list) checked" where
  "op_assignment_list o1 = rbind (op_assignments o1) collect_assignments"

definition snapshot_at :: "snapshot_lookup option \<Rightarrow> op_id \<Rightarrow> raw_document checked" where
  "snapshot_at cache r =
     (case cache of None \<Rightarrow> Fault
      | Some find_snapshot \<Rightarrow> (case find_snapshot r of None \<Rightarrow> Fault | Some d \<Rightarrow> Ok d))"

record sweep_env =
  se_graph :: op_graph
  se_reachable :: "op_id list"
  se_index_of :: "op_id \<rightharpoonup> nat"
  se_filtered :: bool
  se_wanted :: "entity_id set"
  se_wanted_sorted :: "entity_id list"
  se_cache :: "snapshot_lookup option"
  se_seeded :: "nat option"
  se_drop :: bool

definition register_op :: "sweep_env \<Rightarrow> nat \<Rightarrow> path_table \<Rightarrow> path_table checked" where
  "register_op env i pt =
     (if se_seeded env = Some i then
        rbind (vat (se_reachable env) i) (\<lambda>r.
        rbind (snapshot_at (se_cache env) r) (\<lambda>snapshot.
          Ok (foldl (\<lambda>pt fe. register_path (se_filtered env) (se_wanted env) pt (fst fe)) pt
                (fst (wanted_properties snapshot (se_filtered env) (se_wanted_sorted env))))))
      else
        rbind (op_at (se_graph env) (se_reachable env) i) (\<lambda>o1.
        rbind (op_assignment_list o1) (\<lambda>as.
          Ok (foldl (\<lambda>pt a. register_path (se_filtered env) (se_wanted env) pt (a_path a)) pt as))))"

definition register_paths :: "sweep_env \<Rightarrow> path_table checked" where
  "register_paths env = rfold (register_op env) [0..<length (se_reachable env)] \<lparr>pt_index = Map.empty, pt_paths = []\<rparr>"

definition count_head :: "(op_id \<rightharpoonup> nat) \<Rightarrow> op_id \<Rightarrow> int list \<Rightarrow> (int list) checked" where
  "count_head index_of head cs =
     (case index_of head of None \<Rightarrow> Ok cs
      | Some h \<Rightarrow> rbind (vat cs h) (\<lambda>c. vset cs h (c + 1)))"

subsection \<open>The sweep\<close>

record sweep_core =
  sc_states :: "sweep_state list"
  sc_has_state :: "bool list"
  sc_live :: int
  sc_consumers :: "int list"

record sweep_sched =
  sd_ready :: "nat list"
  sd_in_degree :: "int list"
  sd_processed :: nat

definition release_state :: "nat \<Rightarrow> sweep_core \<Rightarrow> sweep_core checked" where
  "release_state p core =
     rbind (vset (sc_states core) p empty_state) (\<lambda>sts.
     rbind (vset (sc_has_state core) p False) (\<lambda>hs.
       Ok (core\<lparr>sc_states := sts, sc_has_state := hs, sc_live := sc_live core - 1\<rparr>)))"

definition steal_step ::
  "nat \<Rightarrow> sweep_state option \<times> sweep_core \<Rightarrow> (sweep_state option \<times> sweep_core) checked" where
  "steal_step p acc =
     (case acc of (stolen, core) \<Rightarrow>
       rbind (vat (sc_has_state core) p) (\<lambda>h.
         if \<not> h then Ok acc
         else rbind (vat (sc_consumers core) p) (\<lambda>c.
           if stolen = None \<and> c = 1 then
             rbind (vat (sc_states core) p) (\<lambda>st.
             rbind (release_state p core) (\<lambda>core. Ok (Some st, core)))
           else Ok acc)))"

definition merge_parent :: "sweep_core \<Rightarrow> nat \<Rightarrow> sweep_state \<Rightarrow> sweep_state checked" where
  "merge_parent core p st =
     rbind (vat (sc_has_state core) p) (\<lambda>h.
       if h then rbind (vat (sc_states core) p) (\<lambda>src. merge_into st src) else Ok st)"

text \<open>\<^verbatim>\<open>path_index[path]\<close> on a map that holds the path; it would insert a default entry otherwise.\<close>

definition path_slot :: "(property_path \<rightharpoonup> nat) \<Rightarrow> property_path \<Rightarrow> nat checked" where
  "path_slot index path = (case index path of None \<Rightarrow> Fault | Some i \<Rightarrow> Ok i)"

definition seed_step :: "(property_path \<rightharpoonup> nat) \<Rightarrow> flat_entry \<Rightarrow> sweep_state \<Rightarrow> sweep_state checked" where
  "seed_step index fe st =
     rbind (path_slot index (fst fe)) (\<lambda>at.
     rbind (modify_slot at (\<lambda>s. s\<lparr>ps_surviving := ps_surviving s @
              map (\<lambda>w. \<lparr>sw_writer = pv_writer w, sw_value = pv_value w, sw_abstains = False\<rparr>)
                (rp_writers (snd fe))\<rparr>) st) (\<lambda>st.
       note_occupied at st))"

definition write_step ::
  "sweep_env \<Rightarrow> (property_path \<rightharpoonup> nat) \<Rightarrow> op_id \<Rightarrow> assignment \<Rightarrow> sweep_state \<Rightarrow> sweep_state checked" where
  "write_step env index writer a st =
     (if se_filtered env \<and> pp_entity (a_path a) \<notin> se_wanted env then Ok st
      else rbind (path_slot index (a_path a)) (\<lambda>i. apply_write i writer (a_value a) (is_abstain a) st))"

definition own_writes ::
  "sweep_env \<Rightarrow> (property_path \<rightharpoonup> nat) \<Rightarrow> nat \<Rightarrow> op \<Rightarrow> sweep_state \<Rightarrow> sweep_state checked" where
  "own_writes env index ix o1 st =
     (if se_seeded env = Some ix then
        rbind (vat (se_reachable env) ix) (\<lambda>r.
        rbind (snapshot_at (se_cache env) r) (\<lambda>snapshot.
          rfold (seed_step index) (fst (wanted_properties snapshot (se_filtered env) (se_wanted_sorted env))) st))
      else rbind (op_assignment_list o1) (\<lambda>as. rfold (write_step env index (o_id o1)) as st))"

definition release_step :: "nat \<Rightarrow> sweep_core \<Rightarrow> sweep_core checked" where
  "release_step p core =
     rbind (vat (sc_consumers core) p) (\<lambda>c.
     rbind (vset (sc_consumers core) p (c - 1)) (\<lambda>cs.
       (let core = core\<lparr>sc_consumers := cs\<rparr> in
        rbind (vat (sc_has_state core) p) (\<lambda>h.
          if c - 1 = 0 \<and> h then release_state p core else Ok core))))"

definition clear_dirty_slot :: "nat \<Rightarrow> sweep_state \<Rightarrow> sweep_state checked" where
  "clear_dirty_slot i st = modify_slot i (\<lambda>s. s\<lparr>ps_superseded := [], ps_in_dirty := False\<rparr>) st"

definition clear_superseded :: "sweep_state \<Rightarrow> sweep_state checked" where
  "clear_superseded st = rbind (rfold clear_dirty_slot (ss_dirty st) st) (\<lambda>st. Ok (st\<lparr>ss_dirty := []\<rparr>))"

definition process_op ::
  "sweep_env \<Rightarrow> path_table \<Rightarrow> nat \<Rightarrow> sweep_core \<Rightarrow> sweep_core checked" where
  "process_op env pt ix core =
     rbind (op_at (se_graph env) (se_reachable env) ix) (\<lambda>o1.
       (let parent_indices = List.map_filter (se_index_of env) (o_parents o1) in
        rbind (rfold steal_step parent_indices (None, core)) (\<lambda>(stolen, core).
        rbind (rfold (merge_parent core) parent_indices
                 (case stolen of Some st \<Rightarrow> st | None \<Rightarrow> fresh_state (length (pt_paths pt)))) (\<lambda>st.
        rbind (own_writes env (pt_index pt) ix o1 st) (\<lambda>st.
        rbind (vset (sc_states core) ix st) (\<lambda>sts.
        rbind (vset (sc_has_state core) ix True) (\<lambda>hs.
        rbind (rfold release_step parent_indices
                 (core\<lparr>sc_states := sts, sc_has_state := hs, sc_live := sc_live core + 1\<rparr>)) (\<lambda>core.
          if se_drop env \<and> sc_live core = 1 then
            rbind (vat (sc_states core) ix) (\<lambda>live.
            rbind (clear_superseded live) (\<lambda>live.
            rbind (vset (sc_states core) ix live) (\<lambda>sts. Ok (core\<lparr>sc_states := sts\<rparr>))))
          else Ok core))))))))"

text \<open>The ready set pops its least index.\<close>

definition least_ready :: "nat list \<Rightarrow> nat" where
  "least_ready ready = foldl min (hd ready) (tl ready)"

definition relax_child :: "nat \<Rightarrow> nat list \<times> int list \<Rightarrow> (nat list \<times> int list) checked" where
  "relax_child child s =
     (case s of (ready, in_degree) \<Rightarrow>
       rbind (vat in_degree child) (\<lambda>d.
       rbind (vset in_degree child (d - 1)) (\<lambda>in_degree.
         Ok (if d - 1 = 0 then ready @ [child] else ready, in_degree))))"

definition relax_children :: "nat list list \<Rightarrow> nat \<Rightarrow> sweep_sched \<Rightarrow> sweep_sched checked" where
  "relax_children forward ix sd =
     rbind (vat forward ix) (\<lambda>cs.
     rbind (rfold relax_child cs (sd_ready sd, sd_in_degree sd)) (\<lambda>(ready, in_degree).
       Ok (sd\<lparr>sd_ready := ready, sd_in_degree := in_degree\<rparr>)))"

definition sched_measure :: "sweep_sched \<Rightarrow> nat" where
  "sched_measure sd = 2 * sum_list (map nat (sd_in_degree sd)) + length (sd_ready sd)"

lemma sum_list_nat_update:
  "i < length xs \<Longrightarrow> sum_list (map nat (xs[i := v])) + nat (xs ! i) = sum_list (map nat xs) + nat v"
  by (induction xs arbitrary: i) (auto split: nat.splits)

lemma relax_child_measure:
  "relax_child c (r, d) = Ok (r', d') \<Longrightarrow>
   2 * sum_list (map nat d') + length r' \<le> 2 * sum_list (map nat d) + length r"
  using sum_list_nat_update [of c d "d ! c - 1"]
  by (auto simp: relax_child_def result_simps split: if_splits)

lemma rfold_relax_measure:
  "rfold relax_child cs (r, d) = Ok (r', d') \<Longrightarrow>
   2 * sum_list (map nat d') + length r' \<le> 2 * sum_list (map nat d) + length r"
proof (induction cs arbitrary: r d)
  case (Cons c cs)
  then obtain r1 d1 where 1: "relax_child c (r, d) = Ok (r1, d1)" "rfold relax_child cs (r1, d1) = Ok (r', d')"
    by (auto simp: rbind_eq_Ok)
  from relax_child_measure [OF 1(1)] Cons.IH [OF 1(2)] show ?case by simp
qed simp

lemma least_ready_in: "ready \<noteq> [] \<Longrightarrow> least_ready ready \<in> set ready"
proof -
  have "foldl min x xs \<in> insert x (set xs)" for x :: nat and xs
  proof (induction xs arbitrary: x)
    case (Cons a xs)
    from Cons.IH [of "min x a"] show ?case by (auto simp: min_def split: if_splits)
  qed simp
  then show "ready \<noteq> [] \<Longrightarrow> least_ready ready \<in> set ready"
    by (metis least_ready_def list.collapse list.simps(15))
qed

function sweep_loop ::
  "sweep_env \<Rightarrow> path_table \<Rightarrow> nat list list \<Rightarrow> sweep_core \<Rightarrow> sweep_sched \<Rightarrow> (sweep_core \<times> sweep_sched) checked" where
  "sweep_loop env pt forward core sd =
     (if sd_ready sd = [] then Ok (core, sd)
      else
        (let ix = least_ready (sd_ready sd);
             sd = sd\<lparr>sd_ready := remove1 ix (sd_ready sd), sd_processed := sd_processed sd + 1\<rparr> in
         rbind (process_op env pt ix core) (\<lambda>core.
         rbind (relax_children forward ix sd) (\<lambda>sd.
           sweep_loop env pt forward core sd))))"
  by pat_completeness auto
termination
proof (relation "measure (\<lambda>(env, pt, forward, core, sd). sched_measure sd)", goal_cases)
  case (2 env pt forward core sd ix sd1 core1 sd2)
  then obtain cs where "rfold relax_child cs (sd_ready sd1, sd_in_degree sd1) = (Ok (sd_ready sd2, sd_in_degree sd2) :: _ checked)"
    by (auto simp: relax_children_def result_simps)
  moreover have "length (sd_ready sd1) < length (sd_ready sd)"
    using 2 least_ready_in [of "sd_ready sd"] length_pos_if_in_set [of "least_ready (sd_ready sd)" "sd_ready sd"]
    by (simp add: length_remove1)
  ultimately show ?case
    using rfold_relax_measure [of cs "sd_ready sd1" "sd_in_degree sd1" "sd_ready sd2" "sd_in_degree sd2"] 2
    by (simp add: sched_measure_def)
qed simp

declare sweep_loop.simps [simp del]

subsection \<open>The whole function\<close>

definition merge_head ::
  "(op_id \<rightharpoonup> nat) \<Rightarrow> sweep_core \<Rightarrow> op_id \<Rightarrow> sweep_state \<Rightarrow> sweep_state checked" where
  "merge_head index_of core head final =
     (case index_of head of None \<Rightarrow> Ok final
      | Some h \<Rightarrow>
          rbind (vat (sc_has_state core) h) (\<lambda>has.
            if \<not> has then Ok final
            else rbind (vat (sc_states core) h) (\<lambda>st.
              rbind (check (side_lists_cover st)) (\<lambda>_. merge_into final st))))"

definition run_sweep ::
  "sweep_env \<Rightarrow> edges \<Rightarrow> op_id list \<Rightarrow> (raw_document \<times> nat) checked" where
  "run_sweep env ed heads =
     (let n = length (se_reachable env) in
      rbind (register_paths env) (\<lambda>pt.
      rbind (rfold (count_head (se_index_of env)) heads (ed_consumers ed)) (\<lambda>consumers.
      rbind (sweep_loop env pt (ed_forward ed)
               \<lparr>sc_states = replicate n empty_state, sc_has_state = replicate n False, sc_live = 0,
                sc_consumers = consumers\<rparr>
               \<lparr>sd_ready = sources_of (ed_in_degree ed), sd_in_degree = ed_in_degree ed, sd_processed = 0\<rparr>)
        (\<lambda>(core, sd).
      rbind (check (sd_processed sd \<le> n)) (\<lambda>_.
      rbind (rfold (merge_head (se_index_of env) core) heads (fresh_state (length (pt_paths pt)))) (\<lambda>final.
      rbind (check (side_lists_cover final)) (\<lambda>_.
      rbind (build_document (pt_paths pt) final) (\<lambda>d. Ok (d, sd_processed sd)))))))))"

definition sweep_env_of ::
  "op_graph \<Rightarrow> op_id list \<Rightarrow> entity_id list \<Rightarrow> materialize_options \<Rightarrow> nat option \<Rightarrow> sweep_env" where
  "sweep_env_of g reachable entities options seeded =
     (let (wanted, wanted_list) = collect_wanted entities in
      \<lparr>se_graph = g, se_reachable = reachable, se_index_of = build_index reachable,
       se_filtered = (entities \<noteq> []), se_wanted = wanted,
       se_wanted_sorted = cc_sort (\<lambda>a b. id_compare_bytes a b < 0) wanted_list,
       se_cache = mo_cache options, se_seeded = seeded, se_drop = mo_drop_superseded options\<rparr>)"

definition materialize_plain ::
  "op_graph \<Rightarrow> op_id list \<Rightarrow> entity_id list \<Rightarrow> materialize_options \<Rightarrow> (raw_document \<times> materialize_stats) checked" where
  "materialize_plain g heads entities options =
     (let reachable = collect_reachable g heads in
      rbind (build_edges g reachable (build_index reachable)) (\<lambda>ed.
      rbind (run_sweep (sweep_env_of g reachable entities options None) ed heads) (\<lambda>(d, n).
        Ok (d, default_stats\<lparr>ms_ops_walked := n\<rparr>))))"

definition seed_entities_read ::
  "snapshot_lookup \<Rightarrow> op_id list \<Rightarrow> entity_id list \<Rightarrow> nat option \<Rightarrow> nat" where
  "seed_entities_read find_snapshot reachable entities seeded =
     (case seeded of
        None \<Rightarrow> 0
      | Some i \<Rightarrow>
          (case find_snapshot (reachable ! i) of
             None \<Rightarrow> 0
           | Some s \<Rightarrow> snd (wanted_properties s (entities \<noteq> [])
               (cc_sort (\<lambda>a b. id_compare_bytes a b < 0) (snd (collect_wanted entities))))))"

definition materialize_impl ::
  "op_graph \<Rightarrow> op_id list \<Rightarrow> entity_id list \<Rightarrow> materialize_options \<Rightarrow> (raw_document \<times> materialize_stats) checked" where
  "materialize_impl g heads entities options =
     (case mo_cache options of
        None \<Rightarrow> materialize_plain g heads entities options
      | Some find_snapshot \<Rightarrow>
          (let reachable = collect_reachable_until g heads (\<lambda>i. find_snapshot i \<noteq> None) in
           rbind (build_edges g reachable (build_index reachable)) (\<lambda>ed.
             (case gate (mo_cache options) reachable ed of
                None \<Rightarrow>
                  rbind (materialize_plain g heads entities (options\<lparr>mo_cache := None\<rparr>)) (\<lambda>(d, stats).
                    Ok (d, stats\<lparr>ms_fell_back := True\<rparr>))
              | Some seeded \<Rightarrow>
                  rbind (run_sweep (sweep_env_of g reachable entities options seeded) ed heads) (\<lambda>(d, n).
                    Ok (d, default_stats\<lparr>ms_ops_walked := n, ms_snapshots_used := (if seeded = None then 0 else 1),
                      ms_snapshot_entities_read := seed_entities_read find_snapshot reachable entities seeded\<rparr>))))))"

definition materialize :: "op_graph \<Rightarrow> op_id list \<Rightarrow> raw_document checked" where
  "materialize g heads = rbind (materialize_impl g heads [] default_options) (\<lambda>(d, _). Ok d)"

definition materialize_entities :: "op_graph \<Rightarrow> op_id list \<Rightarrow> entity_id list \<Rightarrow> raw_document checked" where
  "materialize_entities g heads entities =
     rbind (materialize_impl g heads entities default_options) (\<lambda>(d, _). Ok d)"

definition materialize_cached ::
  "op_graph \<Rightarrow> op_id list \<Rightarrow> entity_id list \<Rightarrow> snapshot_lookup \<Rightarrow> raw_document checked" where
  "materialize_cached g heads entities find_snapshot =
     rbind (materialize_impl g heads entities (default_options\<lparr>mo_cache := Some find_snapshot\<rparr>)) (\<lambda>(d, _). Ok d)"

end
