(* ===== verification/Sweep_State.thy ===== *)
theory Sweep_State
  imports Materialize
begin

text \<open>
  What the updates of a sweep state mean.  A state represents, per path slot, the set of surviving writers
  and the set of superseded ones; \<open>state_ok\<close> says that the side lists cover every non-empty slot, which is
  the assertion the source makes, and is what lets the sparse loops stand for loops over all slots.
\<close>

subsection \<open>Membership lists\<close>

lemma contains_writer_iff [simp]: "contains_writer ws i \<longleftrightarrow> i \<in> sw_writer ` set ws"
  by (induction ws) auto

lemma set_add_ids [simp]: "set (add_ids d is) = set d \<union> set is"
  by (induction d "is" rule: add_ids.induct) auto

lemma distinct_add_ids [simp]: "distinct (add_ids d is) \<longleftrightarrow> distinct d"
  by (induction d "is" rule: add_ids.induct) auto

lemma add_writers_spec:
  "distinct (map sw_writer d) \<Longrightarrow> distinct (map sw_writer (add_writers d ws)) \<and>
   set d \<subseteq> set (add_writers d ws) \<and> set (add_writers d ws) \<subseteq> set d \<union> set ws \<and>
   sw_writer ` set (add_writers d ws) = sw_writer ` set d \<union> sw_writer ` set ws"
proof (induction d ws rule: add_writers.induct)
  case (2 d w ws)
  show ?case
  proof (cases "sw_writer w \<in> sw_writer ` set d")
    case True
    with 2 have "distinct (map sw_writer (add_writers d ws)) \<and> set d \<subseteq> set (add_writers d ws) \<and>
      set (add_writers d ws) \<subseteq> set d \<union> set ws \<and>
      sw_writer ` set (add_writers d ws) = sw_writer ` set d \<union> sw_writer ` set ws" by simp
    with True show ?thesis by auto
  next
    case False
    with 2 have "distinct (map sw_writer (add_writers (d @ [w]) ws)) \<and> set (d @ [w]) \<subseteq> set (add_writers (d @ [w]) ws) \<and>
      set (add_writers (d @ [w]) ws) \<subseteq> set (d @ [w]) \<union> set ws \<and>
      sw_writer ` set (add_writers (d @ [w]) ws) = sw_writer ` set (d @ [w]) \<union> sw_writer ` set ws" by auto
    with False show ?thesis by auto
  qed
qed simp

subsection \<open>Consistency of a state\<close>

definition slot_ok :: "path_state \<Rightarrow> bool" where
  "slot_ok s \<longleftrightarrow> distinct (map sw_writer (ps_surviving s)) \<and> distinct (ps_superseded s) \<and>
     (ps_surviving s \<noteq> [] \<or> ps_superseded s \<noteq> [] \<longrightarrow> ps_in_occupied s) \<and>
     (ps_superseded s \<noteq> [] \<longrightarrow> ps_in_dirty s)"

definition lists_ok :: "nat \<Rightarrow> sweep_state \<Rightarrow> bool" where
  "lists_ok n st \<longleftrightarrow> length (ss_slots st) = n \<and>
     distinct (ss_occupied st) \<and> (\<forall>i. i \<in> set (ss_occupied st) \<longleftrightarrow> i < n \<and> ps_in_occupied (ss_slots st ! i)) \<and>
     distinct (ss_dirty st) \<and> (\<forall>i. i \<in> set (ss_dirty st) \<longleftrightarrow> i < n \<and> ps_in_dirty (ss_slots st ! i))"

definition state_ok :: "nat \<Rightarrow> sweep_state \<Rightarrow> bool" where
  "state_ok n st \<longleftrightarrow> lists_ok n st \<and> (\<forall>i < n. slot_ok (ss_slots st ! i))"

lemma length_filter_flags:
  assumes "distinct xs" "\<forall>i. i \<in> set xs \<longleftrightarrow> i < length ys \<and> f (ys ! i)"
  shows "length (filter f ys) = length xs"
proof -
  have "length (filter f ys) = card {i. i < length ys \<and> f (ys ! i)}" by (rule length_filter_conv_card)
  also have "{i. i < length ys \<and> f (ys ! i)} = set xs" using assms(2) by auto
  finally show ?thesis using assms(1) by (simp add: distinct_card)
qed

lemma state_ok_cover: "state_ok n st \<Longrightarrow> side_lists_cover st"
  by (auto simp: state_ok_def lists_ok_def side_lists_cover_def slot_ok_def in_set_conv_nth
      intro!: length_filter_flags)

lemma state_ok_fresh: "state_ok n (fresh_state n)"
  by (auto simp: state_ok_def lists_ok_def fresh_state_def empty_state_def empty_slot_def slot_ok_def)

lemma lists_ok_modify:
  assumes "lists_ok n st" "i < n" "\<And>s. ps_in_occupied (f s) = ps_in_occupied s" "\<And>s. ps_in_dirty (f s) = ps_in_dirty s"
  shows "\<exists>st'. modify_slot i f st = (Ok st' :: sweep_state checked) \<and> lists_ok n st' \<and>
    ss_slots st' = (ss_slots st)[i := f (ss_slots st ! i)]"
  using assms by (auto simp: modify_slot_def lists_ok_def nth_list_update)

lemma note_occupied_spec:
  assumes "lists_ok n st" "i < n"
  shows "\<exists>st'. note_occupied i st = (Ok st' :: sweep_state checked) \<and> lists_ok n st' \<and>
    ss_slots st' = (ss_slots st)[i := (ss_slots st ! i)\<lparr>ps_in_occupied := True\<rparr>]"
proof (cases "ps_in_occupied (ss_slots st ! i)")
  case True
  then have "(ss_slots st ! i)\<lparr>ps_in_occupied := True\<rparr> = ss_slots st ! i" by simp
  then have "(ss_slots st)[i := (ss_slots st ! i)\<lparr>ps_in_occupied := True\<rparr>] = ss_slots st" by (simp only: list_update_id)
  with True assms show ?thesis by (auto simp: note_occupied_def lists_ok_def)
next
  case False
  with assms show ?thesis by (auto simp: note_occupied_def lists_ok_def nth_list_update)
qed

lemma note_dirty_spec:
  assumes "lists_ok n st" "i < n"
  shows "\<exists>st'. note_dirty i st = (Ok st' :: sweep_state checked) \<and> lists_ok n st' \<and>
    ss_slots st' = (ss_slots st)[i := (ss_slots st ! i)\<lparr>ps_in_dirty := True\<rparr>]"
proof (cases "ps_in_dirty (ss_slots st ! i)")
  case True
  then have "(ss_slots st ! i)\<lparr>ps_in_dirty := True\<rparr> = ss_slots st ! i" by simp
  then have "(ss_slots st)[i := (ss_slots st ! i)\<lparr>ps_in_dirty := True\<rparr>] = ss_slots st" by (simp only: list_update_id)
  with True assms show ?thesis by (auto simp: note_dirty_def lists_ok_def)
next
  case False
  with assms show ?thesis by (auto simp: note_dirty_def lists_ok_def nth_list_update)
qed

definition flagged :: "path_state \<Rightarrow> path_state" where
  "flagged s = s\<lparr>ps_in_occupied := True, ps_in_dirty := ps_in_dirty s \<or> ps_superseded s \<noteq> []\<rparr>"

lemma note_slot_spec:
  assumes "lists_ok n st" "i < n"
  shows "\<exists>st'. note_slot i st = (Ok st' :: sweep_state checked) \<and> lists_ok n st' \<and>
    ss_slots st' = (ss_slots st)[i := flagged (ss_slots st ! i)]"
proof -
  from note_occupied_spec [OF assms] obtain st1 where 1: "note_occupied i st = (Ok st1 :: sweep_state checked)"
    "lists_ok n st1" "ss_slots st1 = (ss_slots st)[i := (ss_slots st ! i)\<lparr>ps_in_occupied := True\<rparr>]" by blast
  have len: "i < length (ss_slots st)" "i < length (ss_slots st1)" using assms 1(2) by (simp_all add: lists_ok_def)
  have s1: "ss_slots st1 ! i = (ss_slots st ! i)\<lparr>ps_in_occupied := True\<rparr>" using 1(3) len by simp
  show ?thesis
  proof (cases "ps_superseded (ss_slots st ! i) = []")
    case True
    then have "flagged (ss_slots st ! i) = (ss_slots st ! i)\<lparr>ps_in_occupied := True\<rparr>" by (simp add: flagged_def)
    with True 1 s1 len show ?thesis by (auto simp: note_slot_def)
  next
    case False
    then have f: "flagged (ss_slots st ! i) = (ss_slots st ! i)\<lparr>ps_in_occupied := True, ps_in_dirty := True\<rparr>"
      by (simp add: flagged_def)
    from note_dirty_spec [OF 1(2) assms(2)] obtain st2 where "note_dirty i st1 = (Ok st2 :: sweep_state checked)"
      "lists_ok n st2" "ss_slots st2 = (ss_slots st1)[i := (ss_slots st1 ! i)\<lparr>ps_in_dirty := True\<rparr>]" by blast
    with False 1 s1 len f show ?thesis by (auto simp: note_slot_def)
  qed
qed

subsection \<open>One slot\<close>

definition merged_slot :: "path_state \<Rightarrow> path_state \<Rightarrow> path_state" where
  "merged_slot s d =
     (if ps_surviving s = [] \<and> ps_superseded s = [] then d
      else
        (let sup = add_ids (ps_superseded d) (ps_superseded s);
             surv = add_writers (ps_surviving d) (ps_surviving s) in
         \<lparr>ps_surviving = filter (\<lambda>w. sw_writer w \<notin> set sup) surv, ps_superseded = sup,
          ps_in_occupied = True, ps_in_dirty = ps_in_dirty d \<or> sup \<noteq> []\<rparr>))"

lemma merge_slot_spec:
  assumes "lists_ok n src" "lists_ok n dst" "i < n"
  shows "\<exists>st'. merge_slot src i dst = Ok st' \<and> lists_ok n st' \<and>
    ss_slots st' = (ss_slots dst)[i := merged_slot (ss_slots src ! i) (ss_slots dst ! i)]"
proof -
  let ?s = "ss_slots src ! i" and ?d = "ss_slots dst ! i"
  have len: "i < length (ss_slots src)" "i < length (ss_slots dst)" using assms by (simp_all add: lists_ok_def)
  show ?thesis
  proof (cases "ps_surviving ?s = [] \<and> ps_superseded ?s = []")
    case True
    then show ?thesis using assms len by (auto simp: merge_slot_def merged_slot_def)
  next
    case False
    let ?f1 = "\<lambda>d. d\<lparr>ps_superseded := add_ids (ps_superseded d) (ps_superseded ?s)\<rparr>"
    let ?f2 = "\<lambda>d. d\<lparr>ps_surviving := add_writers (ps_surviving d) (ps_surviving ?s)\<rparr>"
    let ?f3 = "\<lambda>d. d\<lparr>ps_surviving := filter (\<lambda>w. \<not> contains_id (ps_superseded d) (sw_writer w)) (ps_surviving d)\<rparr>"
    obtain st1 where 1: "modify_slot i ?f1 dst = (Ok st1 :: sweep_state checked)" "lists_ok n st1"
      "ss_slots st1 = (ss_slots dst)[i := ?f1 ?d]" using lists_ok_modify [OF assms(2,3), of ?f1] by auto
    obtain st2 where 2: "modify_slot i ?f2 st1 = (Ok st2 :: sweep_state checked)" "lists_ok n st2"
      "ss_slots st2 = (ss_slots st1)[i := ?f2 (ss_slots st1 ! i)]" using lists_ok_modify [OF 1(2) assms(3), of ?f2] by auto
    obtain st3 where 3: "note_slot i st2 = (Ok st3 :: sweep_state checked)" "lists_ok n st3"
      "ss_slots st3 = (ss_slots st2)[i := flagged (ss_slots st2 ! i)]" using note_slot_spec [OF 2(2) assms(3)] by auto
    obtain st4 where 4: "modify_slot i ?f3 st3 = (Ok st4 :: sweep_state checked)" "lists_ok n st4"
      "ss_slots st4 = (ss_slots st3)[i := ?f3 (ss_slots st3 ! i)]" using lists_ok_modify [OF 3(2) assms(3), of ?f3] by auto
    have s3: "ss_slots st3 = (ss_slots dst)[i := flagged (?f2 (?f1 ?d))]" using 1(3) 2(3) 3(3) len by simp
    have len3: "i < length (ss_slots st3)" using 3(2) assms by (simp add: lists_ok_def)
    have eq: "merge_slot src i dst =
        (if ps_superseded (ss_slots st3 ! i) = [] then Ok st3 else modify_slot i ?f3 st3)"
      using False len len3 1(1) 2(1) 3(1) by (auto simp: merge_slot_def)
    have d3: "ss_slots st3 ! i = flagged (?f2 (?f1 ?d))" using s3 len by simp
    show ?thesis
    proof (cases "ps_superseded (ss_slots st3 ! i) = []")
      case True
      then have "flagged (?f2 (?f1 ?d)) = merged_slot ?s ?d"
        using False d3 by (auto simp: merged_slot_def flagged_def Let_def)
      with True eq 3(2) s3 show ?thesis by auto
    next
      case F: False
      then have "?f3 (flagged (?f2 (?f1 ?d))) = merged_slot ?s ?d"
        using False d3 by (auto simp: merged_slot_def flagged_def Let_def)
      with F eq 4 d3 s3 show ?thesis by auto
    qed
  qed
qed

lemma slot_ok_merged: "slot_ok s \<Longrightarrow> slot_ok d \<Longrightarrow> slot_ok (merged_slot s d)"
  using add_writers_spec [of "ps_surviving d" "ps_surviving s"]
  by (auto simp: slot_ok_def merged_slot_def Let_def distinct_map_filter)

lemma merge_into_spec:
  assumes "state_ok n src" "state_ok n dst"
  shows "\<exists>st. merge_into dst src = Ok st \<and> state_ok n st \<and>
    (\<forall>i < n. ss_slots st ! i = merged_slot (ss_slots src ! i) (ss_slots dst ! i))"
proof -
  have "\<exists>st. rfold (merge_slot src) (ss_occupied src) dst = Ok st \<and> lists_ok n st \<and>
    (\<forall>i < n. ss_slots st ! i = (if i \<in> set (ss_occupied src)
      then merged_slot (ss_slots src ! i) (ss_slots dst ! i) else ss_slots dst ! i))"
  proof (rule rfold_invariant [where P = "\<lambda>ys st. lists_ok n st \<and>
      (\<forall>i < n. ss_slots st ! i = (if i \<in> set ys then merged_slot (ss_slots src ! i) (ss_slots dst ! i)
         else ss_slots dst ! i))"])
    fix ys x zs and st :: sweep_state
    assume split: "ss_occupied src = ys @ x # zs"
      and inv: "lists_ok n st \<and> (\<forall>i < n. ss_slots st ! i = (if i \<in> set ys
        then merged_slot (ss_slots src ! i) (ss_slots dst ! i) else ss_slots dst ! i))"
    have x: "x < n" "x \<notin> set ys" using assms(1) split by (auto simp: state_ok_def lists_ok_def)
    have len: "length (ss_slots st) = n" using inv by (simp add: lists_ok_def)
    from merge_slot_spec [of n src st x] assms(1) inv x(1) obtain st' where
      "merge_slot src x st = Ok st'" "lists_ok n st'"
      "ss_slots st' = (ss_slots st)[x := merged_slot (ss_slots src ! x) (ss_slots st ! x)]"
      by (auto simp: state_ok_def)
    with inv x len show "\<exists>s'. merge_slot src x st = Ok s' \<and> lists_ok n s' \<and>
      (\<forall>i < n. ss_slots s' ! i = (if i \<in> set (ys @ [x]) then merged_slot (ss_slots src ! i) (ss_slots dst ! i)
         else ss_slots dst ! i))"
      by (auto simp: nth_list_update)
  qed (use assms in \<open>simp add: state_ok_def\<close>)
  then obtain st where st: "merge_into dst src = Ok st" "lists_ok n st"
    "\<forall>i < n. ss_slots st ! i = (if i \<in> set (ss_occupied src)
      then merged_slot (ss_slots src ! i) (ss_slots dst ! i) else ss_slots dst ! i)"
    by (auto simp: merge_into_def)
  have "merged_slot (ss_slots src ! i) d = d" if "i < n" "i \<notin> set (ss_occupied src)" for i d
    using assms(1) that by (auto simp: state_ok_def lists_ok_def slot_ok_def merged_slot_def)
  then have slots: "\<forall>i < n. ss_slots st ! i = merged_slot (ss_slots src ! i) (ss_slots dst ! i)"
    using st(3) by simp
  moreover have "\<forall>i < n. slot_ok (merged_slot (ss_slots src ! i) (ss_slots dst ! i))"
    using assms by (simp add: state_ok_def slot_ok_merged)
  ultimately show ?thesis using st(1,2) by (auto simp: state_ok_def)
qed

definition written_slot :: "op_id \<Rightarrow> value_view \<Rightarrow> bool \<Rightarrow> path_state \<Rightarrow> path_state" where
  "written_slot w v a s = flagged (s\<lparr>ps_superseded := add_ids (ps_superseded s) (map sw_writer (ps_surviving s)),
     ps_surviving := [\<lparr>sw_writer = w, sw_value = v, sw_abstains = a\<rparr>]\<rparr>)"

lemma apply_write_spec:
  assumes "state_ok n st" "i < n"
  shows "\<exists>st'. apply_write i w v a st = Ok st' \<and> state_ok n st' \<and>
    ss_slots st' = (ss_slots st)[i := written_slot w v a (ss_slots st ! i)]"
proof -
  let ?f1 = "\<lambda>s. s\<lparr>ps_superseded := add_ids (ps_superseded s) (map sw_writer (ps_surviving s))\<rparr>"
  let ?f2 = "\<lambda>s. s\<lparr>ps_surviving := [\<lparr>sw_writer = w, sw_value = v, sw_abstains = a\<rparr>]\<rparr>"
  have l: "lists_ok n st" "i < length (ss_slots st)" using assms by (simp_all add: state_ok_def lists_ok_def)
  obtain st1 where 1: "modify_slot i ?f1 st = (Ok st1 :: sweep_state checked)" "lists_ok n st1"
    "ss_slots st1 = (ss_slots st)[i := ?f1 (ss_slots st ! i)]" using lists_ok_modify [OF l(1) assms(2), of ?f1] by auto
  obtain st2 where 2: "modify_slot i ?f2 st1 = (Ok st2 :: sweep_state checked)" "lists_ok n st2"
    "ss_slots st2 = (ss_slots st1)[i := ?f2 (ss_slots st1 ! i)]" using lists_ok_modify [OF 1(2) assms(2), of ?f2] by auto
  obtain st3 where 3: "note_slot i st2 = (Ok st3 :: sweep_state checked)" "lists_ok n st3"
    "ss_slots st3 = (ss_slots st2)[i := flagged (ss_slots st2 ! i)]" using note_slot_spec [OF 2(2) assms(2)] by auto
  have "ss_slots st3 = (ss_slots st)[i := written_slot w v a (ss_slots st ! i)]"
    using 1(3) 2(3) 3(3) l by (simp add: written_slot_def)
  moreover have "slot_ok (written_slot w v a (ss_slots st ! i))"
    using assms by (auto simp: state_ok_def slot_ok_def written_slot_def flagged_def)
  ultimately show ?thesis
    using 1(1) 2(1) 3(1,2) assms l by (auto simp: apply_write_def state_ok_def nth_list_update)
qed

definition cleared_slot :: "path_state \<Rightarrow> path_state" where
  "cleared_slot s = s\<lparr>ps_superseded := [], ps_in_dirty := False\<rparr>"

lemma clear_superseded_spec:
  assumes "state_ok n st"
  shows "\<exists>st'. clear_superseded st = Ok st' \<and> state_ok n st' \<and>
    (\<forall>i < n. ss_slots st' ! i = cleared_slot (ss_slots st ! i))"
proof -
  have "\<exists>st'. rfold clear_dirty_slot (ss_dirty st) st = (Ok st' :: sweep_state checked) \<and>
      length (ss_slots st') = n \<and> ss_occupied st' = ss_occupied st \<and>
      (\<forall>i < n. ss_slots st' ! i = (if i \<in> set (ss_dirty st) then cleared_slot (ss_slots st ! i) else ss_slots st ! i))"
  proof (rule rfold_invariant [where P = "\<lambda>ys st'. length (ss_slots st') = n \<and> ss_occupied st' = ss_occupied st \<and>
      (\<forall>i < n. ss_slots st' ! i = (if i \<in> set ys then cleared_slot (ss_slots st ! i) else ss_slots st ! i))"])
    fix ys x zs and st' :: sweep_state
    assume split: "ss_dirty st = ys @ x # zs"
      and inv: "length (ss_slots st') = n \<and> ss_occupied st' = ss_occupied st \<and>
      (\<forall>i < n. ss_slots st' ! i = (if i \<in> set ys then cleared_slot (ss_slots st ! i) else ss_slots st ! i))"
    have "x < n" "x \<notin> set ys" using assms split by (auto simp: state_ok_def lists_ok_def)
    with inv show "\<exists>s'. clear_dirty_slot x st' = (Ok s' :: sweep_state checked) \<and> length (ss_slots s') = n \<and> ss_occupied s' = ss_occupied st \<and>
      (\<forall>i < n. ss_slots s' ! i = (if i \<in> set (ys @ [x]) then cleared_slot (ss_slots st ! i) else ss_slots st ! i))"
      by (auto simp: clear_dirty_slot_def modify_slot_def nth_list_update cleared_slot_def)
  qed (use assms in \<open>simp add: state_ok_def lists_ok_def\<close>)
  then obtain st' where st': "rfold clear_dirty_slot (ss_dirty st) st = (Ok st' :: sweep_state checked)"
    "length (ss_slots st') = n" "ss_occupied st' = ss_occupied st"
    "\<forall>i < n. ss_slots st' ! i = (if i \<in> set (ss_dirty st) then cleared_slot (ss_slots st ! i) else ss_slots st ! i)" by blast
  have "cleared_slot (ss_slots st ! i) = ss_slots st ! i" if "i < n" "i \<notin> set (ss_dirty st)" for i
    using assms that by (auto simp: state_ok_def lists_ok_def slot_ok_def cleared_slot_def)
  then have slots: "\<forall>i < n. ss_slots st' ! i = cleared_slot (ss_slots st ! i)" using st'(4) by simp
  have "state_ok n (st'\<lparr>ss_dirty := []\<rparr>)"
    using assms slots st'(2,3) by (auto simp: state_ok_def lists_ok_def slot_ok_def cleared_slot_def)
  with slots st'(1) show ?thesis by (auto simp: clear_superseded_def)
qed

subsection \<open>The sets a state stands for\<close>

text \<open>
  \<open>wr i w\<close> is the record a sweep keeps for writer \<open>w\<close> of path \<open>i\<close>.  A state represents \<open>S\<close> and \<open>U\<close> when slot
  \<open>i\<close> holds the records of the writers \<open>S i\<close> as surviving and the ids \<open>U i\<close> as superseded.
\<close>

definition represents ::
  "(nat \<Rightarrow> op_id \<Rightarrow> sweep_writer) \<Rightarrow> nat \<Rightarrow> sweep_state \<Rightarrow> (nat \<Rightarrow> op_id set) \<Rightarrow> (nat \<Rightarrow> op_id set) \<Rightarrow> bool" where
  "represents wr n st S U \<longleftrightarrow> state_ok n st \<and>
     (\<forall>i < n. set (ps_surviving (ss_slots st ! i)) = wr i ` S i \<and> set (ps_superseded (ss_slots st ! i)) = U i \<and>
        S i \<inter> U i = {})"

locale writer_table =
  fixes wr :: "nat \<Rightarrow> op_id \<Rightarrow> sweep_writer"
  assumes wr_writer [simp]: "sw_writer (wr i w) = w"
begin

lemma wr_inject [simp]: "wr i v = wr i w \<longleftrightarrow> v = w"
  by (metis wr_writer)

lemma wr_image_iff [simp]: "wr i w \<in> wr i ` A \<longleftrightarrow> w \<in> A"
  by auto

lemma writers_of_image: "sw_writer ` (wr i ` A) = A"
  by (simp add: image_image)

lemma represents_cover: "represents wr n st S U \<Longrightarrow> side_lists_cover st"
  by (auto simp: represents_def intro: state_ok_cover)

lemma represents_fresh: "represents wr n (fresh_state n) (\<lambda>_. {}) (\<lambda>_. {})"
  by (simp add: represents_def state_ok_fresh fresh_state_def empty_state_def empty_slot_def)
    (simp add: state_ok_fresh [unfolded fresh_state_def empty_state_def empty_slot_def, simplified])

lemma merged_slot_sets:
  assumes "slot_ok d" "set (ps_surviving d) = wr i ` S" "set (ps_superseded d) = U" "S \<inter> U = {}"
    and "set (ps_surviving s) = wr i ` S'" "set (ps_superseded s) = U'"
  shows "set (ps_surviving (merged_slot s d)) = wr i ` ((S \<union> S') - (U \<union> U'))"
    and "set (ps_superseded (merged_slot s d)) = U \<union> U'"
proof -
  let ?ws = "add_writers (ps_surviving d) (ps_surviving s)"
  have spec: "set (ps_surviving d) \<subseteq> set ?ws" "set ?ws \<subseteq> set (ps_surviving d) \<union> set (ps_surviving s)"
    "sw_writer ` set ?ws = sw_writer ` set (ps_surviving d) \<union> sw_writer ` set (ps_surviving s)"
    using add_writers_spec [of "ps_surviving d" "ps_surviving s"] assms(1) by (simp_all add: slot_ok_def)
  have "set ?ws = wr i ` (S \<union> S')"
  proof
    show "set ?ws \<subseteq> wr i ` (S \<union> S')" using spec(2) assms(2,5) by auto
    show "wr i ` (S \<union> S') \<subseteq> set ?ws"
    proof
      fix x assume "x \<in> wr i ` (S \<union> S')"
      then obtain w where w: "x = wr i w" "w \<in> S \<union> S'" by auto
      then have "w \<in> sw_writer ` set ?ws" using spec(3) assms(2,5) by (simp add: writers_of_image)
      then obtain y where "y \<in> set ?ws" "sw_writer y = w" by auto
      with spec(2) assms(2,5) w(1) show "x \<in> set ?ws" by auto
    qed
  qed
  then have "{w \<in> set ?ws. sw_writer w \<notin> U \<union> U'} = wr i ` ((S \<union> S') - (U \<union> U'))" by auto
  then show "set (ps_surviving (merged_slot s d)) = wr i ` ((S \<union> S') - (U \<union> U'))"
    and "set (ps_superseded (merged_slot s d)) = U \<union> U'"
    using assms by (auto simp: merged_slot_def Let_def)
qed

lemma represents_merge:
  assumes "represents wr n dst S U" "represents wr n src S' U'"
  shows "\<exists>st. merge_into dst src = Ok st \<and> represents wr n st (\<lambda>i. (S i \<union> S' i) - (U i \<union> U' i)) (\<lambda>i. U i \<union> U' i)"
proof -
  have ok: "state_ok n src" "state_ok n dst" using assms by (simp_all add: represents_def)
  obtain st where st: "merge_into dst src = Ok st" "state_ok n st"
    "\<forall>i < n. ss_slots st ! i = merged_slot (ss_slots src ! i) (ss_slots dst ! i)"
    using merge_into_spec [OF ok] by blast
  have "set (ps_surviving (ss_slots st ! i)) = wr i ` ((S i \<union> S' i) - (U i \<union> U' i)) \<and>
      set (ps_superseded (ss_slots st ! i)) = U i \<union> U' i" if "i < n" for i
    using merged_slot_sets [of "ss_slots dst ! i" i "S i" "U i" "ss_slots src ! i" "S' i" "U' i"] assms that st(3)
    by (simp add: represents_def state_ok_def)
  with st show ?thesis by (auto simp: represents_def)
qed

lemma represents_write:
  assumes "represents wr n st S U" "i < n" "w \<notin> S i \<union> U i"
    and "wr i w = \<lparr>sw_writer = w, sw_value = v, sw_abstains = a\<rparr>"
  shows "\<exists>st'. apply_write i w v a st = Ok st' \<and> represents wr n st' (S(i := {w})) (U(i := U i \<union> S i))"
proof -
  have ok: "state_ok n st" using assms(1) by (simp add: represents_def)
  obtain st' where st': "apply_write i w v a st = Ok st'" "state_ok n st'"
    "ss_slots st' = (ss_slots st)[i := written_slot w v a (ss_slots st ! i)]"
    using apply_write_spec [OF ok assms(2)] by blast
  have len: "length (ss_slots st) = n" using ok by (simp add: state_ok_def lists_ok_def)
  have "set (ps_surviving (ss_slots st' ! j)) = wr j ` (S(i := {w})) j \<and>
      set (ps_superseded (ss_slots st' ! j)) = (U(i := U i \<union> S i)) j \<and>
      (S(i := {w})) j \<inter> (U(i := U i \<union> S i)) j = {}" if "j < n" for j
    using assms that len by (auto simp: st'(3) represents_def nth_list_update written_slot_def flagged_def writers_of_image)
  with st'(1,2) show ?thesis by (auto simp: represents_def)
qed

lemma represents_clear:
  assumes "represents wr n st S U"
  shows "\<exists>st'. clear_superseded st = Ok st' \<and> represents wr n st' S (\<lambda>_. {})"
proof -
  have "state_ok n st" using assms by (simp add: represents_def)
  from clear_superseded_spec [OF this] obtain st' where "clear_superseded st = Ok st'" "state_ok n st'"
    "\<forall>i < n. ss_slots st' ! i = cleared_slot (ss_slots st ! i)" by blast
  with assms show ?thesis by (auto simp: represents_def cleared_slot_def)
qed

lemma represents_cong:
  "represents wr n st S U \<Longrightarrow> (\<And>i. i < n \<Longrightarrow> S i = S' i \<and> U i = U' i) \<Longrightarrow> represents wr n st S' U'"
  by (auto simp: represents_def)

end

end
