(* ===== verification/Build_Document.thy ===== *)
theory Build_Document
  imports Sweep_State
begin

text \<open>
  The assembly of the sorted document: appending flat entries in path order keeps every level sorted and
  non-empty, and flattening gives the entries back.
\<close>

lemma strict_sorted_snoc:
  fixes xs :: "'a::linorder list"
  shows "sorted_wrt (<) (xs @ [y]) \<longleftrightarrow> sorted_wrt (<) xs \<and> (xs = [] \<or> last xs < y)"
proof (cases xs rule: rev_cases)
  case (snoc ys z)
  then show ?thesis by (auto simp: sorted_wrt_append intro: less_trans)
qed simp

lemma append_property_wf:
  assumes "rc_properties c = [] \<or> component_wf c" "property_wf v"
    and "rc_properties c \<noteq> [] \<Longrightarrow> fst (last (rc_properties c)) < p"
  shows "component_wf (append_property p v c)"
  using assms by (auto simp: component_wf_def append_property_def strict_sorted_snoc last_map)

lemma flatten_append_property:
  "flatten_component e i (append_property p v c) = flatten_component e i c @ [(Property_path e i p, v)]"
  by (simp add: flatten_component_def append_property_def)

lemma append_component_snoc:
  assumes "re_components ent = xs @ [(k, cmp)]"
  shows "append_component c p v ent =
    (if k = c then ent\<lparr>re_components := xs @ [(c, append_property p v cmp)]\<rparr>
     else ent\<lparr>re_components := xs @ [(k, cmp), (c, append_property p v \<lparr>rc_properties = []\<rparr>)]\<rparr>)"
  using assms by (simp add: append_component_def Let_def butlast_append)

lemma append_component_spec:
  assumes "re_components ent = [] \<or> entity_wf ent" "property_wf v"
    and "re_components ent \<noteq> [] \<Longrightarrow> fst (last (flatten_entity e ent)) < Property_path e c p"
  shows "entity_wf (append_component c p v ent)"
    and "flatten_entity e (append_component c p v ent) = flatten_entity e ent @ [(Property_path e c p, v)]"
proof -
  have new: "component_wf (append_property p v \<lparr>rc_properties = []\<rparr>)"
    using assms(2) by (intro append_property_wf) auto
  have "entity_wf (append_component c p v ent) \<and>
      flatten_entity e (append_component c p v ent) = flatten_entity e ent @ [(Property_path e c p, v)]"
  proof (cases "re_components ent" rule: rev_cases)
    case Nil
    then show ?thesis
      using new by (simp add: append_component_def entity_wf_def flatten_entity_def flatten_component_def append_property_def)
  next
    case (snoc xs kc)
    obtain k cmp where kc: "kc = (k, cmp)" by (cases kc)
    with snoc have ent: "re_components ent = xs @ [(k, cmp)]" by simp
    then have wf: "entity_wf ent" "component_wf cmp" using assms(1) by (auto simp: entity_wf_def)
    then have ne: "rc_properties cmp \<noteq> []" by (simp add: component_wf_def)
    have last: "fst (last (flatten_entity e ent)) = Property_path e k (fst (last (rc_properties cmp)))"
      using ne by (simp add: flatten_entity_def ent flatten_component_def last_map case_prod_beta)
    then have less: "Property_path e k (fst (last (rc_properties cmp))) < Property_path e c p"
      using assms(3) ent by simp
    show ?thesis
    proof (cases "k = c")
      case True
      then have "component_wf (append_property p v cmp)"
        using less wf(2) assms(2) by (intro append_property_wf) auto
      with True wf(1) show ?thesis
        by (auto simp: append_component_snoc [OF ent] entity_wf_def ent flatten_entity_def flatten_append_property)
    next
      case False
      with less have "k < c" by auto
      with False wf(1) new show ?thesis
        by (auto simp: append_component_snoc [OF ent] entity_wf_def ent flatten_entity_def flatten_append_property
            flatten_component_def sorted_wrt_append append_property_def intro: less_trans)
    qed
  qed
  then show "entity_wf (append_component c p v ent)"
    and "flatten_entity e (append_component c p v ent) = flatten_entity e ent @ [(Property_path e c p, v)]"
    by simp_all
qed

lemma append_flat_snoc:
  assumes "rd_entities d = xs @ [(k, ent)]"
  shows "append_flat d (path, v) =
    (if k = pp_entity path
     then d\<lparr>rd_entities := xs @ [(k, append_component (pp_component path) (pp_property path) v ent)]\<rparr>
     else d\<lparr>rd_entities := xs @ [(k, ent), (pp_entity path,
       append_component (pp_component path) (pp_property path) v \<lparr>re_components = []\<rparr>)]\<rparr>)"
  using assms by (simp add: append_flat_def Let_def butlast_append)

lemma entity_wf_flatten_ne: "entity_wf ent \<Longrightarrow> flatten_entity e ent \<noteq> []"
proof -
  assume wf: "entity_wf ent"
  then obtain c cmp where "(c, cmp) \<in> set (re_components ent)"
    by (cases "re_components ent") (auto simp: entity_wf_def)
  moreover from this wf have "rc_properties cmp \<noteq> []" by (auto simp: entity_wf_def component_wf_def)
  ultimately show ?thesis by (fastforce simp: flatten_entity_def flatten_component_def)
qed

lemma append_flat_spec:
  assumes "document_wf d" "property_wf v" "flatten d \<noteq> [] \<Longrightarrow> fst (last (flatten d)) < path"
  shows "document_wf (append_flat d (path, v))"
    and "flatten (append_flat d (path, v)) = flatten d @ [(path, v)]"
proof -
  obtain e c p where path: "path = Property_path e c p" by (cases path)
  let ?new = "append_component c p v \<lparr>re_components = []\<rparr>"
  have new: "entity_wf ?new" "flatten_entity e ?new = [(path, v)]"
    using append_component_spec [of "\<lparr>re_components = []\<rparr>" v e c p] assms(2)
    by (simp_all add: path, simp add: flatten_entity_def)
  have "document_wf (append_flat d (path, v)) \<and> flatten (append_flat d (path, v)) = flatten d @ [(path, v)]"
  proof (cases "rd_entities d" rule: rev_cases)
    case Nil
    then show ?thesis using new by (simp add: append_flat_def document_wf_def flatten_def path)
  next
    case (snoc xs ke)
    obtain k ent where ke: "ke = (k, ent)" by (cases ke)
    with snoc have d: "rd_entities d = xs @ [(k, ent)]" by simp
    then have wf: "entity_wf ent" using assms(1) by (simp add: document_wf_def)
    note ne = entity_wf_flatten_ne [OF wf, of k]
    have last: "last (flatten d) = last (flatten_entity k ent)" "flatten d \<noteq> []"
      using ne by (simp_all add: flatten_def d)
    then have less: "fst (last (flatten_entity k ent)) < path" using assms(3) by simp
    have pe: "pp_entity (fst (last (flatten_entity k ent))) = k"
      using set_flatten_entity last_in_set [OF ne] by blast
    show ?thesis
    proof (cases "k = e")
      case True
      have "entity_wf (append_component c p v ent)"
        "flatten_entity e (append_component c p v ent) = flatten_entity e ent @ [(path, v)]"
        using append_component_spec [of ent v e c p] wf assms(2) less True by (simp_all add: path)
      with True assms(1) show ?thesis
        by (auto simp: append_flat_snoc [OF d] path document_wf_def d flatten_def)
    next
      case False
      have "k < e"
      proof (rule ccontr)
        assume "\<not> k < e"
        with False have "pp_entity path < pp_entity (fst (last (flatten_entity k ent)))" using pe by (simp add: path)
        then have "path < fst (last (flatten_entity k ent))" by (rule path_less_entity)
        with less show False by simp
      qed
      with False assms(1) new show ?thesis
        by (auto simp: append_flat_snoc [OF d] path document_wf_def d flatten_def sorted_wrt_append intro: less_trans)
    qed
  qed
  then show "document_wf (append_flat d (path, v))"
    and "flatten (append_flat d (path, v)) = flatten d @ [(path, v)]" by simp_all
qed

lemma assemble_spec:
  assumes "sorted_wrt (<) (map fst flat)" "\<forall>(p, v) \<in> set flat. property_wf v"
  shows "document_wf (assemble flat) \<and> flatten (assemble flat) = flat"
  using assms
proof (induction flat rule: rev_induct)
  case Nil
  then show ?case by (simp add: assemble_def document_wf_def flatten_def)
next
  case (snoc x xs)
  obtain p v where x: "x = (p, v)" by (cases x)
  have IH: "document_wf (assemble xs)" "flatten (assemble xs) = xs"
    using snoc by (auto simp: sorted_wrt_append)
  have "xs \<noteq> [] \<Longrightarrow> fst (last xs) < p"
    using snoc.prems(1) by (simp add: x strict_sorted_snoc last_map)
  with append_flat_spec [OF IH(1), of v p] IH(2) snoc.prems(2) show ?case
    by (simp add: assemble_def x)
qed

subsection \<open>The document of a sweep state\<close>

context writer_table
begin

definition live_values :: "(nat \<Rightarrow> op_id set) \<Rightarrow> nat \<Rightarrow> property_value set" where
  "live_values S i = (\<lambda>w. \<lparr>pv_writer = w, pv_value = sw_value (wr i w)\<rparr>) ` {w \<in> S i. \<not> sw_abstains (wr i w)}"

lemma sorted_writers:
  assumes "distinct (map sw_writer ws)" "set ws = wr i ` S i"
  shows "let ps = cc_sort (\<lambda>a b. op_id_compare_bytes (pv_writer a) (pv_writer b) < 0)
      (map (\<lambda>w. \<lparr>pv_writer = sw_writer w, pv_value = sw_value w\<rparr>) (filter (\<lambda>w. \<not> sw_abstains w) ws)) in
    sorted_wrt (<) (map pv_writer ps) \<and> set ps = live_values S i"
proof -
  let ?ps = "map (\<lambda>w. \<lparr>pv_writer = sw_writer w, pv_value = sw_value w\<rparr>) (filter (\<lambda>w. \<not> sw_abstains w) ws)"
  have "distinct (map pv_writer ?ps)"
    using assms(1) by (simp add: comp_def distinct_map_filter)
  moreover have "set ?ps = live_values S i"
  proof -
    have "set ?ps = (\<lambda>w. \<lparr>pv_writer = sw_writer w, pv_value = sw_value w\<rparr>) ` {w \<in> wr i ` S i. \<not> sw_abstains w}"
      using assms(2) by simp
    also have "{w \<in> wr i ` S i. \<not> sw_abstains w} = wr i ` {w \<in> S i. \<not> sw_abstains (wr i w)}" by auto
    finally show ?thesis by (simp add: live_values_def image_image)
  qed
  ultimately show ?thesis
    using cc_sort_strict_sorted [of pv_writer ?ps] by (simp add: Let_def)
qed

definition live_property :: "(nat \<Rightarrow> op_id set) \<Rightarrow> nat \<Rightarrow> raw_property \<Rightarrow> bool" where
  "live_property S i v \<longleftrightarrow> live_values S i \<noteq> {} \<and>
     sorted_wrt (<) (map pv_writer (rp_writers v)) \<and> set (rp_writers v) = live_values S i"

lemma live_property_unique: "live_property S i v \<Longrightarrow> live_property S i v' \<Longrightarrow> v' = v"
  using strict_sorted_map_unique [of pv_writer "rp_writers v" "rp_writers v'"] by (simp add: live_property_def)

lemma flat_step_spec:
  assumes "represents wr n st S U" "i < n" "length paths = n"
  shows "\<exists>new. flat_step paths st i flat = Ok (flat @ new) \<and> length new \<le> 1 \<and>
    (\<forall>p v. (p, v) \<in> set new \<longleftrightarrow> p = paths ! i \<and> live_property S i v)"
proof -
  let ?s = "ss_slots st ! i"
  let ?ws = "map (\<lambda>w. \<lparr>pv_writer = sw_writer w, pv_value = sw_value w\<rparr>) (filter (\<lambda>w. \<not> sw_abstains w) (ps_surviving ?s))"
  let ?ps = "cc_sort (\<lambda>a b. op_id_compare_bytes (pv_writer a) (pv_writer b) < 0) ?ws"
  have s: "i < length (ss_slots st)" "distinct (map sw_writer (ps_surviving ?s))" "set (ps_surviving ?s) = wr i ` S i"
    using assms(1,2) by (auto simp: represents_def state_ok_def lists_ok_def slot_ok_def)
  from sorted_writers [of "ps_surviving ?s" i S] s(2,3) have ps: "sorted_wrt (<) (map pv_writer ?ps)" "set ?ps = live_values S i"
    by (simp_all add: Let_def)
  have empty: "?ws = [] \<longleftrightarrow> live_values S i = {}"
    using ps(2) unfolding set_cc_sort set_empty [symmetric] by (rule arg_cong [where f = "\<lambda>A. A = {}"])
  show ?thesis
  proof (cases "?ws = []")
    case True
    then have "flat_step paths st i flat = Ok flat" using s(1) by (simp add: flat_step_def Let_def)
    with True empty show ?thesis by (intro exI [of _ "[]"]) (simp add: live_property_def)
  next
    case False
    then have "ps_surviving ?s \<noteq> []" by auto
    with False have "flat_step paths st i flat = Ok (flat @ [(paths ! i, \<lparr>rp_writers = ?ps\<rparr>)])"
      using s(1) assms(2,3) by (simp add: flat_step_def Let_def)
    moreover have "live_property S i \<lparr>rp_writers = ?ps\<rparr>"
      using False empty ps by (simp add: live_property_def)
    ultimately show ?thesis
      using live_property_unique by (intro exI [of _ "[(paths ! i, \<lparr>rp_writers = ?ps\<rparr>)]"]) auto
  qed
qed

lemma flat_entries_spec:
  assumes "represents wr n st S U" "length paths = n" "distinct paths"
  shows "\<exists>flat. rfold (flat_step paths st) (ss_occupied st) [] = Ok flat \<and> distinct (map fst flat) \<and>
    (\<forall>p v. (p, v) \<in> set flat \<longleftrightarrow> (\<exists>i \<in> set (ss_occupied st). p = paths ! i \<and> live_property S i v))"
proof (rule rfold_invariant [where P = "\<lambda>ys flat. distinct (map fst flat) \<and>
    (\<forall>p v. (p, v) \<in> set flat \<longleftrightarrow> (\<exists>i \<in> set ys. p = paths ! i \<and> live_property S i v))"])
  fix ys x zs and flat :: "flat_entry list"
  assume split: "ss_occupied st = ys @ x # zs" and inv: "distinct (map fst flat) \<and>
    (\<forall>p v. (p, v) \<in> set flat \<longleftrightarrow> (\<exists>i \<in> set ys. p = paths ! i \<and> live_property S i v))"
  have occ: "distinct (ss_occupied st)" "\<forall>i \<in> set (ss_occupied st). i < n"
    using assms(1) by (auto simp: represents_def state_ok_def lists_ok_def)
  then have x: "x < n" "x \<notin> set ys" "\<forall>i \<in> set ys. i < n" using split by auto
  obtain new where new: "flat_step paths st x flat = Ok (flat @ new)" "length new \<le> 1"
    "\<forall>p v. (p, v) \<in> set new \<longleftrightarrow> p = paths ! x \<and> live_property S x v"
    using flat_step_spec [OF assms(1) x(1) assms(2)] by blast
  have "distinct (map fst new)" using new(2) by (cases new) auto
  moreover have "paths ! x \<noteq> paths ! i" if "i \<in> set ys" for i
    using that x assms(2,3) by (metis nth_eq_iff_index_eq)
  then have "set (map fst flat) \<inter> set (map fst new) = {}"
    using inv new(3) by fastforce
  ultimately show "\<exists>flat'. flat_step paths st x flat = Ok flat' \<and> distinct (map fst flat') \<and>
      (\<forall>p v. (p, v) \<in> set flat' \<longleftrightarrow> (\<exists>i \<in> set (ys @ [x]). p = paths ! i \<and> live_property S i v))"
    using new(1,3) inv by auto
qed simp

lemma build_document_spec:
  assumes "represents wr n st S U" "length paths = n" "distinct paths"
  shows "\<exists>d. build_document paths st = Ok d \<and> document_wf d \<and>
    (\<forall>p v. document_try_get d p = Some v \<longleftrightarrow> (\<exists>i < n. p = paths ! i \<and> live_property S i v))"
proof -
  obtain flat where flat: "rfold (flat_step paths st) (ss_occupied st) [] = (Ok flat :: flat_entry list checked)"
    "distinct (map fst flat)"
    "\<forall>p v. (p, v) \<in> set flat \<longleftrightarrow> (\<exists>i \<in> set (ss_occupied st). p = paths ! i \<and> live_property S i v)"
    using flat_entries_spec [OF assms] by blast
  let ?flat = "cc_sort (\<lambda>a b. path_compare_bytes (fst a) (fst b) < 0) flat"
  have "sorted_wrt (<) (map fst ?flat)" using cc_sort_strict_sorted [OF flat(2)] by simp
  moreover have "\<forall>(p, v) \<in> set ?flat. property_wf v"
    using flat(3) by (auto simp: property_wf_def live_property_def)
  ultimately have d: "document_wf (assemble ?flat)" "flatten (assemble ?flat) = ?flat"
    using assemble_spec by blast+
  have occ: "i \<in> set (ss_occupied st)" if "i < n" "live_property S i v" for i v
  proof -
    have "S i \<noteq> {}" using that(2) by (auto simp: live_property_def live_values_def)
    with assms(1) that(1) have "ps_surviving (ss_slots st ! i) \<noteq> []" by (auto simp: represents_def)
    with assms(1) that(1) show ?thesis by (auto simp: represents_def state_ok_def lists_ok_def slot_ok_def)
  qed
  have "i < n" if "i \<in> set (ss_occupied st)" for i
    using assms(1) that by (auto simp: represents_def state_ok_def lists_ok_def)
  with occ have "document_try_get (assemble ?flat) p = Some v \<longleftrightarrow> (\<exists>i < n. p = paths ! i \<and> live_property S i v)" for p v
    unfolding document_try_get_Some_iff [OF d(1)] d(2) using flat(3) by auto
  with d(1) flat(1) show ?thesis by (auto simp: build_document_def)
qed

end

subsection \<open>A well-formed document is determined by its lookups\<close>

lemma foldl_append_properties:
  "foldl append_flat \<lparr>rd_entities = xs @ [(e, \<lparr>re_components = cs @ [(c, \<lparr>rc_properties = qs\<rparr>)]\<rparr>)]\<rparr>
     (map (\<lambda>(p, v). (Property_path e c p, v)) ps) =
   \<lparr>rd_entities = xs @ [(e, \<lparr>re_components = cs @ [(c, \<lparr>rc_properties = qs @ ps\<rparr>)]\<rparr>)]\<rparr>"
proof (induction ps arbitrary: qs)
  case (Cons pv ps)
  obtain p v where pv: "pv = (p, v)" by (cases pv)
  have "append_flat \<lparr>rd_entities = xs @ [(e, \<lparr>re_components = cs @ [(c, \<lparr>rc_properties = qs\<rparr>)]\<rparr>)]\<rparr> (Property_path e c p, v) =
      \<lparr>rd_entities = xs @ [(e, \<lparr>re_components = cs @ [(c, \<lparr>rc_properties = qs @ [(p, v)]\<rparr>)]\<rparr>)]\<rparr>"
    by (simp add: append_flat_def append_component_def append_property_def Let_def)
  with Cons.IH [of "qs @ [(p, v)]"] show ?case by (simp add: pv)
qed simp

lemma foldl_append_component:
  assumes "component_wf cmp" "cs = [] \<or> fst (last cs) \<noteq> c"
  shows "foldl append_flat \<lparr>rd_entities = xs @ [(e, \<lparr>re_components = cs\<rparr>)]\<rparr> (flatten_component e c cmp) =
    \<lparr>rd_entities = xs @ [(e, \<lparr>re_components = cs @ [(c, cmp)]\<rparr>)]\<rparr>"
proof -
  obtain p v ps where ps: "rc_properties cmp = (p, v) # ps"
    using assms(1) by (cases "rc_properties cmp") (auto simp: component_wf_def)
  then have cmp: "cmp = \<lparr>rc_properties = (p, v) # ps\<rparr>" by (cases cmp) simp
  have "append_flat \<lparr>rd_entities = xs @ [(e, \<lparr>re_components = cs\<rparr>)]\<rparr> (Property_path e c p, v) =
      \<lparr>rd_entities = xs @ [(e, \<lparr>re_components = cs @ [(c, \<lparr>rc_properties = [(p, v)]\<rparr>)]\<rparr>)]\<rparr>"
    using assms(2) by (auto simp: append_flat_def append_component_def append_property_def Let_def)
  with foldl_append_properties [of xs e cs c "[(p, v)]" ps] show ?thesis
    by (simp add: flatten_component_def cmp)
qed

lemma foldl_append_components:
  assumes "\<forall>(c, cmp) \<in> set ks. component_wf cmp" "distinct (map fst (cs @ ks))"
  shows "foldl append_flat \<lparr>rd_entities = xs @ [(e, \<lparr>re_components = cs\<rparr>)]\<rparr>
      (concat (map (\<lambda>(c, cmp). flatten_component e c cmp) ks)) =
    \<lparr>rd_entities = xs @ [(e, \<lparr>re_components = cs @ ks\<rparr>)]\<rparr>"
  using assms
proof (induction ks arbitrary: cs)
  case (Cons k ks)
  obtain c cmp where k: "k = (c, cmp)" by (cases k)
  have "cs = [] \<or> fst (last cs) \<noteq> c"
    using Cons.prems(2) by (cases cs rule: rev_cases) (auto simp: k)
  then show ?case
    using foldl_append_component [of cmp cs c xs e] Cons.IH [of "cs @ [(c, cmp)]"] Cons.prems by (simp add: k)
qed simp

lemma foldl_append_entity:
  assumes "entity_wf ent" "xs = [] \<or> fst (last xs) \<noteq> e"
  shows "foldl append_flat \<lparr>rd_entities = xs\<rparr> (flatten_entity e ent) = \<lparr>rd_entities = xs @ [(e, ent)]\<rparr>"
proof -
  obtain c cmp ks where ks: "re_components ent = (c, cmp) # ks"
    using assms(1) by (cases "re_components ent") (auto simp: entity_wf_def)
  then have ent: "ent = \<lparr>re_components = (c, cmp) # ks\<rparr>" by (cases ent) simp
  from ks have wf: "component_wf cmp" "\<forall>(c, cmp) \<in> set ks. component_wf cmp" "distinct (map fst (re_components ent))"
    using assms(1) by (auto simp: entity_wf_def strict_sorted_iff)
  obtain p v ps where ps: "rc_properties cmp = (p, v) # ps"
    using wf(1) by (cases "rc_properties cmp") (auto simp: component_wf_def)
  then have cmp: "cmp = \<lparr>rc_properties = (p, v) # ps\<rparr>" by (cases cmp) simp
  have "append_flat \<lparr>rd_entities = xs\<rparr> (Property_path e c p, v) =
      \<lparr>rd_entities = xs @ [(e, \<lparr>re_components = [(c, \<lparr>rc_properties = [(p, v)]\<rparr>)]\<rparr>)]\<rparr>"
    using assms(2) by (auto simp: append_flat_def append_component_def append_property_def Let_def)
  then have "foldl append_flat \<lparr>rd_entities = xs\<rparr> (flatten_component e c cmp) =
      \<lparr>rd_entities = xs @ [(e, \<lparr>re_components = [(c, cmp)]\<rparr>)]\<rparr>"
    using foldl_append_properties [of xs e "[]" c "[(p, v)]" ps] by (simp add: flatten_component_def cmp)
  with foldl_append_components [of ks "[(c, cmp)]" xs e] wf(2,3) show ?thesis unfolding ks
    by (simp add: flatten_entity_def ent)
qed

lemma assemble_flatten:
  assumes "document_wf d"
  shows "assemble (flatten d) = d"
proof -
  have "foldl append_flat \<lparr>rd_entities = xs\<rparr> (concat (map (\<lambda>(e, ent). flatten_entity e ent) ys)) = \<lparr>rd_entities = xs @ ys\<rparr>"
    if "\<forall>(e, ent) \<in> set ys. entity_wf ent" "distinct (map fst (xs @ ys))" for xs ys
    using that
  proof (induction ys arbitrary: xs)
    case (Cons y ys)
    obtain e ent where y: "y = (e, ent)" by (cases y)
    have "xs = [] \<or> fst (last xs) \<noteq> e"
      using Cons.prems(2) by (cases xs rule: rev_cases) (auto simp: y)
    then show ?case
      using foldl_append_entity [of ent xs e] Cons.IH [of "xs @ [(e, ent)]"] Cons.prems by (simp add: y)
  qed simp
  from this [of "rd_entities d" "[]"] assms show ?thesis
    by (cases d) (simp add: assemble_def flatten_def document_wf_def strict_sorted_iff)
qed

lemma document_ext:
  assumes "document_wf d" "document_wf d'" "\<And>p. document_try_get d p = document_try_get d' p"
  shows "d = d'"
proof -
  have "x \<in> set (flatten d) \<longleftrightarrow> x \<in> set (flatten d')" for x
    using document_try_get_Some_iff [OF assms(1), of "fst x" "snd x"] document_try_get_Some_iff [OF assms(2), of "fst x" "snd x"]
      assms(3) [of "fst x"] by simp
  then have "set (flatten d) = set (flatten d')" by blast
  then have "flatten d = flatten d'"
    using strict_sorted_map_unique [of fst "flatten d" "flatten d'"] flatten_sorted [OF assms(1)] flatten_sorted [OF assms(2)] by simp
  then have "assemble (flatten d) = assemble (flatten d')" by (rule arg_cong)
  then show ?thesis unfolding assemble_flatten [OF assms(1)] assemble_flatten [OF assms(2)] .
qed

end
