(* ===== verification/Dominance.thy ===== *)
theory Dominance
  imports Main
begin

text \<open>
  The order theory behind the sweep: the writers of one path that no other writer in a set of ops sits on
  top of (\<open>mx\<close>), those that some other does (\<open>nx\<close>), and how both behave when ancestor-closed sets are united
  and when a new op lands on top.  \<open>settled\<close> is what a group of partial results must satisfy so that merging
  them is exact although each remembers only some of its superseded writers.
\<close>

definition ancestors :: "('a \<times> 'a) set \<Rightarrow> 'a \<Rightarrow> 'a set" where
  "ancestors E x = E\<^sup>* `` {x}"

definition anc_closed :: "('a \<times> 'a) set \<Rightarrow> 'a set \<Rightarrow> bool" where
  "anc_closed E C \<longleftrightarrow> E `` C \<subseteq> C"

definition mx :: "('a \<times> 'a) set \<Rightarrow> 'a set \<Rightarrow> 'a set \<Rightarrow> 'a set" where
  "mx E W C = {w \<in> W \<inter> C. \<forall>v \<in> W \<inter> C. (v, w) \<in> E\<^sup>* \<longrightarrow> v = w}"

definition nx :: "('a \<times> 'a) set \<Rightarrow> 'a set \<Rightarrow> 'a set \<Rightarrow> 'a set" where
  "nx E W C = W \<inter> C - mx E W C"

lemma anc_closed_rtrancl:
  assumes "anc_closed E C" "v \<in> C" "(v, w) \<in> E\<^sup>*"
  shows "w \<in> C"
  using assms(3,2) by (induction) (use assms(1) in \<open>auto simp: anc_closed_def\<close>)

lemma anc_closed_ancestors: "anc_closed E (ancestors E x)"
  by (auto simp: anc_closed_def ancestors_def intro: rtrancl_into_rtrancl)

lemma anc_closed_Union: "(\<And>C. C \<in> F \<Longrightarrow> anc_closed E C) \<Longrightarrow> anc_closed E (\<Union>F)"
  by (fastforce simp: anc_closed_def)

lemma anc_closed_Un: "anc_closed E C \<Longrightarrow> anc_closed E D \<Longrightarrow> anc_closed E (C \<union> D)"
  by (auto simp: anc_closed_def)

lemma anc_closed_empty [simp]: "anc_closed E {}"
  by (simp add: anc_closed_def)

lemma ancestors_step: "ancestors E x = insert x (\<Union>p \<in> E `` {x}. ancestors E p)"
proof
  show "ancestors E x \<subseteq> insert x (\<Union>p \<in> E `` {x}. ancestors E p)"
    by (auto simp: ancestors_def elim: converse_rtranclE)
  show "insert x (\<Union>p \<in> E `` {x}. ancestors E p) \<subseteq> ancestors E x"
    by (auto simp: ancestors_def intro: converse_rtrancl_into_rtrancl)
qed

lemma ancestors_subset: "anc_closed E P \<Longrightarrow> x \<in> P \<Longrightarrow> ancestors E x \<subseteq> P"
  by (auto simp: ancestors_def intro: anc_closed_rtrancl)

lemma mx_empty [simp]: "mx E W {} = {}" and nx_empty [simp]: "nx E W {} = {}"
  by (simp_all add: mx_def nx_def)

lemma mx_nx: "mx E W C \<union> nx E W C = W \<inter> C" "mx E W C \<inter> nx E W C = {}"
  by (auto simp: mx_def nx_def)

lemma mx_Un:
  assumes "anc_closed E C" "anc_closed E D"
  shows "mx E W (C \<union> D) = (mx E W C \<union> mx E W D) - (nx E W C \<union> nx E W D)"
proof
  show "mx E W (C \<union> D) \<subseteq> (mx E W C \<union> mx E W D) - (nx E W C \<union> nx E W D)"
    by (auto simp: mx_def nx_def)
  have "w \<in> mx E W (A \<union> B)" if "anc_closed E B" "w \<in> mx E W A" "w \<notin> nx E W B" for w A B
  proof -
    have "v = w" if v: "v \<in> W \<inter> (A \<union> B)" "(v, w) \<in> E\<^sup>*" for v
    proof (cases "v \<in> A")
      case True
      with v \<open>w \<in> mx E W A\<close> show ?thesis by (auto simp: mx_def)
    next
      case False
      with v have "v \<in> B" by simp
      with v(2) \<open>anc_closed E B\<close> have "w \<in> B" by (blast intro: anc_closed_rtrancl)
      with that(1,2) \<open>v \<in> B\<close> \<open>w \<in> mx E W A\<close> \<open>w \<notin> nx E W B\<close> show ?thesis by (auto simp: mx_def nx_def)
    qed
    with that show ?thesis by (auto simp: mx_def)
  qed
  from this [OF assms(2), of _ C] this [OF assms(1), of _ D, unfolded Un_commute [of D C]]
  show "(mx E W C \<union> mx E W D) - (nx E W C \<union> nx E W D) \<subseteq> mx E W (C \<union> D)"
    by blast
qed

lemma nx_Un:
  assumes "anc_closed E C" "anc_closed E D"
  shows "nx E W (C \<union> D) = nx E W C \<union> nx E W D"
  unfolding nx_def [of E W "C \<union> D"] mx_Un [OF assms] by (auto simp: mx_def nx_def)

text \<open>A new op on top of everything in \<open>C\<close>.\<close>

lemma mx_insert_top:
  assumes "acyclic E" "anc_closed E C" "x \<notin> C" "\<And>w. w \<in> C \<Longrightarrow> (x, w) \<in> E\<^sup>*"
  shows "mx E W (insert x C) = (if x \<in> W then {x} else mx E W C)"
    and "nx E W (insert x C) = (if x \<in> W then W \<inter> C else nx E W C)"
proof -
  have top: "v = x" if "v \<in> insert x C" "(v, x) \<in> E\<^sup>*" for v
    using that assms(2,3) by (auto dest: anc_closed_rtrancl)
  show mx: "mx E W (insert x C) = (if x \<in> W then {x} else mx E W C)"
    using top assms(3,4) by (auto simp: mx_def)
  then show "nx E W (insert x C) = (if x \<in> W then W \<inter> C else nx E W C)"
    using assms(3) by (auto simp: nx_def)
qed

subsection \<open>Partial results that can be merged\<close>

text \<open>
  A partial result is a closed set of ops with the superseded writers it remembers.  It may forget one only
  if no other result of the group still counts it as surviving.
\<close>

definition settled :: "('a \<times> 'a) set \<Rightarrow> 'a set \<Rightarrow> ('a set \<times> 'a set) set \<Rightarrow> bool" where
  "settled E W F \<longleftrightarrow> (\<forall>(C, U) \<in> F. anc_closed E C \<and> U \<subseteq> nx E W C) \<and>
     (\<forall>(C, U) \<in> F. \<forall>(D, V) \<in> F. mx E W D \<inter> nx E W C \<subseteq> U)"

lemma settled_mono: "settled E W F \<Longrightarrow> G \<subseteq> F \<Longrightarrow> settled E W G"
  unfolding settled_def by blast

lemma settled_empty: "settled E W F \<Longrightarrow> settled E W (insert ({}, {}) F)"
  by (auto simp: settled_def)

lemma settled_single: "anc_closed E C \<Longrightarrow> settled E W {(C, {})}"
  using mx_nx [of E W C] by (auto simp: settled_def)

lemma settled_insert:
  assumes "settled E W F" "anc_closed E C" "U \<subseteq> nx E W C"
    and "\<And>A X. (A, X) \<in> F \<Longrightarrow> mx E W A \<inter> nx E W C \<subseteq> U \<and> mx E W C \<inter> nx E W A \<subseteq> X"
  shows "settled E W (insert (C, U) F)"
proof -
  have "(\<forall>(D, V) \<in> insert (C, U) F. anc_closed E D \<and> V \<subseteq> nx E W D)"
    using assms(1-3) by (simp add: settled_def)
  moreover have "mx E W B \<inter> nx E W A \<subseteq> X" if ab: "(A, X) \<in> insert (C, U) F" "(B, Y) \<in> insert (C, U) F" for A X B Y
  proof -
    consider "(A, X) = (C, U)" "(B, Y) = (C, U)" | "(A, X) = (C, U)" "(B, Y) \<in> F"
      | "(A, X) \<in> F" "(B, Y) = (C, U)" | "(A, X) \<in> F" "(B, Y) \<in> F" using ab by auto
    then show ?thesis
    proof cases
      case 1
      then show ?thesis using mx_nx(2) [of E W C] by simp
    next
      case 4
      then show ?thesis using assms(1) unfolding settled_def by blast
    qed (use assms(4) in \<open>force+\<close>)
  qed
  ultimately show ?thesis unfolding settled_def by blast
qed

lemma settled_merge:
  assumes "settled E W F" "(C, U) \<in> F" "(D, V) \<in> F"
  shows "(mx E W C \<union> mx E W D) - (U \<union> V) = mx E W (C \<union> D)"
    and "settled E W (insert (C \<union> D, U \<union> V) F)"
proof -
  have cl: "anc_closed E C" "anc_closed E D" and sub: "U \<subseteq> nx E W C" "V \<subseteq> nx E W D"
    using assms by (auto simp: settled_def)
  have know: "mx E W D' \<inter> nx E W C' \<subseteq> U'" if "(C', U') \<in> F" "(D', V') \<in> F" for C' U' D' V'
    using assms(1) that unfolding settled_def by blast
  show mx: "(mx E W C \<union> mx E W D) - (U \<union> V) = mx E W (C \<union> D)"
    using sub know [OF assms(2,3)] know [OF assms(3,2)] mx_nx(2) [of E W C] mx_nx(2) [of E W D]
    unfolding mx_Un [OF cl] by blast
  have new: "anc_closed E (C \<union> D)" "U \<union> V \<subseteq> nx E W (C \<union> D)"
    using cl sub by (auto simp: nx_Un intro: anc_closed_Un)
  have "mx E W A \<inter> nx E W (C \<union> D) \<subseteq> U \<union> V" if "(A, X) \<in> F" for A X
    using know [OF assms(2) that] know [OF assms(3) that] by (auto simp: nx_Un [OF cl])
  moreover have "mx E W (C \<union> D) \<inter> nx E W A \<subseteq> X" if "(A, X) \<in> F" for A X
    using know [OF that assms(2)] know [OF that assms(3)] mx by blast
  ultimately show "settled E W (insert (C \<union> D, U \<union> V) F)"
    using assms(1) new by (intro settled_insert) auto
qed

lemma settled_top:
  assumes "settled E W F" "(C, U) \<in> F" "acyclic E" "x \<notin> C" "anc_closed E (insert x C)" "\<And>w. w \<in> C \<Longrightarrow> (x, w) \<in> E\<^sup>*"
    and fresh: "\<And>D V. (D, V) \<in> F \<Longrightarrow> x \<notin> D"
  shows "settled E W (insert (insert x C, if x \<in> W then U \<union> mx E W C else U) F)"
proof -
  have cl: "anc_closed E C" and sub: "U \<subseteq> nx E W C" using assms by (auto simp: settled_def)
  have know: "mx E W D' \<inter> nx E W C' \<subseteq> U'" if "(C', U') \<in> F" "(D', V') \<in> F" for C' U' D' V'
    using assms(1) that unfolding settled_def by blast
  note top = mx_insert_top [OF assms(3) cl assms(4,6)]
  let ?U = "if x \<in> W then U \<union> mx E W C else U"
  have "?U \<subseteq> nx E W (insert x C)" using sub mx_nx(1) [of E W C] by (auto simp: top)
  moreover have "mx E W A \<inter> nx E W (insert x C) \<subseteq> ?U" if "(A, X) \<in> F" for A X
    using know [OF assms(2) that] mx_nx(1) [of E W C] by (auto simp: top)
  moreover have "mx E W (insert x C) \<inter> nx E W A \<subseteq> X" if "(A, X) \<in> F" for A X
    using know [OF that assms(2)] fresh [OF that] by (auto simp: top nx_def)
  ultimately show ?thesis
    using assms(1,5) by (intro settled_insert) simp_all
qed

end
