(* ===== verification/Sweep_Step.thy ===== *)
theory Sweep_Step
  imports Build_Document Dominance
begin

text \<open>
  One iteration of the sweep keeps its invariant: every state still held represents the maximal writers
  below its op, the group of held states is settled, and the bookkeeping of consumers and live states is
  exact.
\<close>

subsection \<open>Stealing and releasing\<close>

definition released :: "nat \<Rightarrow> sweep_core \<Rightarrow> sweep_core" where
  "released p core = core\<lparr>sc_states := (sc_states core)[p := empty_state],
     sc_has_state := (sc_has_state core)[p := False], sc_live := sc_live core - 1\<rparr>"

definition core_lengths :: "nat \<Rightarrow> sweep_core \<Rightarrow> bool" where
  "core_lengths n core \<longleftrightarrow> length (sc_states core) = n \<and> length (sc_has_state core) = n \<and> length (sc_consumers core) = n"

definition live_set :: "nat \<Rightarrow> sweep_core \<Rightarrow> nat set" where
  "live_set n core = {p. p < n \<and> sc_has_state core ! p}"

lemma release_state_Ok: "core_lengths n core \<Longrightarrow> p < n \<Longrightarrow> release_state p core = Ok (released p core)"
  by (simp add: release_state_def released_def core_lengths_def)

lemma core_lengths_released [simp]: "core_lengths n (released p core) = core_lengths n core"
  by (simp add: core_lengths_def released_def)

lemma finite_live_set [simp]: "finite (live_set n core)"
  by (simp add: live_set_def)

lemma live_set_released: "core_lengths n core \<Longrightarrow> p < n \<Longrightarrow> live_set n (released p core) = live_set n core - {p}"
  by (auto simp: live_set_def released_def core_lengths_def nth_list_update)

lemma steal_spec:
  assumes "core_lengths n core" "set ps \<subseteq> {..<n}"
  shows "\<exists>r. rfold steal_step ps (None, core) = Ok r \<and>
    (r = (None, core) \<or> (\<exists>p \<in> set ps. p \<in> live_set n core \<and> sc_consumers core ! p = 1 \<and>
       r = (Some (sc_states core ! p), released p core)))"
proof (rule rfold_invariant [where P = "\<lambda>ys r. r = (None, core) \<or> (\<exists>p \<in> set ys. p \<in> live_set n core \<and>
    sc_consumers core ! p = 1 \<and> r = (Some (sc_states core ! p), released p core))"])
  fix ys x zs and r :: "sweep_state option \<times> sweep_core"
  assume "ps = ys @ x # zs" and inv: "r = (None, core) \<or> (\<exists>p \<in> set ys. p \<in> live_set n core \<and>
    sc_consumers core ! p = 1 \<and> r = (Some (sc_states core ! p), released p core))"
  then have x: "x < n" using assms(2) by auto
  show "\<exists>r'. steal_step x r = Ok r' \<and> (r' = (None, core) \<or> (\<exists>p \<in> set (ys @ [x]). p \<in> live_set n core \<and>
    sc_consumers core ! p = 1 \<and> r' = (Some (sc_states core ! p), released p core)))"
    using inv
  proof
    assume "r = (None, core)"
    with x assms(1) show ?thesis
      by (auto simp: steal_step_def core_lengths_def live_set_def release_state_Ok)
  next
    assume "\<exists>p \<in> set ys. p \<in> live_set n core \<and> sc_consumers core ! p = 1 \<and> r = (Some (sc_states core ! p), released p core)"
    then obtain p where p: "p \<in> set ys" "p \<in> live_set n core" "sc_consumers core ! p = 1"
      "r = (Some (sc_states core ! p), released p core)" by blast
    then have "steal_step x r = Ok r"
      using x assms(1) by (simp add: steal_step_def core_lengths_def released_def)
    with p show ?thesis by auto
  qed
qed simp

definition release_inv :: "nat \<Rightarrow> sweep_core \<Rightarrow> nat list \<Rightarrow> sweep_core \<Rightarrow> bool" where
  "release_inv n core ys core' \<longleftrightarrow> core_lengths n core' \<and>
     (\<forall>p < n. sc_consumers core' ! p = sc_consumers core ! p - int (count_list ys p)) \<and>
     live_set n core' \<subseteq> live_set n core \<and>
     (\<forall>p \<in> live_set n core'. sc_states core' ! p = sc_states core ! p) \<and>
     (\<forall>p \<in> live_set n core - live_set n core'. sc_consumers core' ! p \<le> 0 \<and> p \<in> set ys) \<and>
     sc_live core' = int (card (live_set n core'))"

lemma release_step_inv:
  assumes inv: "release_inv n core ys core'" and x: "x < n"
  shows "\<exists>core''. release_step x core' = Ok core'' \<and> release_inv n core (ys @ [x]) core''"
proof -
  let ?c = "core'\<lparr>sc_consumers := (sc_consumers core')[x := sc_consumers core' ! x - 1]\<rparr>"
  have len: "core_lengths n core'" "core_lengths n ?c" using inv by (auto simp: release_inv_def core_lengths_def)
  have live: "live_set n ?c = live_set n core'" by (simp add: live_set_def)
  have old: "\<forall>p < n. sc_consumers core' ! p = sc_consumers core ! p - int (count_list ys p)"
    "live_set n core' \<subseteq> live_set n core" "\<forall>p \<in> live_set n core'. sc_states core' ! p = sc_states core ! p"
    "\<forall>p \<in> live_set n core - live_set n core'. sc_consumers core' ! p \<le> 0 \<and> p \<in> set ys"
    using inv unfolding release_inv_def by blast+
  show ?thesis
  proof (cases "sc_consumers core' ! x - 1 = 0 \<and> sc_has_state core' ! x")
    case True
    then have "release_step x core' = Ok (released x ?c)"
      using len x release_state_Ok [OF len(2) x] by (simp add: release_step_def core_lengths_def Let_def)
    moreover have "release_inv n core (ys @ [x]) (released x ?c)"
    proof -
      have l: "live_set n (released x ?c) = live_set n core' - {x}" using live_set_released [OF len(2) x] live by simp
      have "x \<in> live_set n core'" using True x by (simp add: live_set_def)
      then have "card (live_set n core') = Suc (card (live_set n core' - {x}))" by (intro card.remove) simp
      then have card: "sc_live (released x ?c) = int (card (live_set n core' - {x}))"
        using inv by (simp add: release_inv_def released_def)
      have consumers: "sc_consumers (released x ?c) ! p = sc_consumers core' ! p - (if p = x then 1 else 0)"
        and states: "p \<noteq> x \<Longrightarrow> sc_states (released x ?c) ! p = sc_states core' ! p" if "p < n" for p
        using len that by (auto simp: released_def core_lengths_def)
      show ?thesis
        unfolding release_inv_def l core_lengths_released
      proof (intro conjI ballI allI impI)
        fix p assume "p \<in> live_set n core - (live_set n core' - {x})"
        then have p: "p < n" "p \<noteq> x \<Longrightarrow> p \<in> live_set n core - live_set n core'" by (auto simp: live_set_def)
        then show "sc_consumers (released x ?c) ! p \<le> 0" "p \<in> set (ys @ [x])"
          using old(4) True consumers [OF p(1)] by (cases "p = x"; simp)+
      next
        fix p assume "p < n"
        then show "sc_consumers (released x ?c) ! p = sc_consumers core ! p - int (count_list (ys @ [x]) p)"
          using old(1) consumers by simp
      next
        fix p assume "p \<in> live_set n core' - {x}"
        then show "sc_states (released x ?c) ! p = sc_states core ! p"
          using old(3) states [of p] by (simp add: live_set_def)
      qed (use old(2) len(2) card in auto)
    qed
    ultimately show ?thesis by blast
  next
    case False
    then have "release_step x core' = Ok ?c"
      using len x by (auto simp: release_step_def core_lengths_def Let_def)
    moreover have "release_inv n core (ys @ [x]) ?c"
      unfolding release_inv_def live
    proof (intro conjI ballI allI impI)
      fix p assume "p \<in> live_set n core - live_set n core'"
      then have "sc_consumers core' ! p \<le> 0" "p \<in> set ys" "p < length (sc_consumers core')"
        using old(4) len(1) by (auto simp: live_set_def core_lengths_def)
      then show "sc_consumers ?c ! p \<le> 0" "p \<in> set (ys @ [x])"
        using x len(1) by (auto simp: nth_list_update core_lengths_def)
    qed (use old(1-3) inv len(2) x in \<open>auto simp: nth_list_update core_lengths_def release_inv_def\<close>)
    ultimately show ?thesis by blast
  qed
qed

lemma release_spec:
  assumes "core_lengths n core" "set ps \<subseteq> {..<n}" "sc_live core = int (card (live_set n core))"
  shows "\<exists>core'. rfold release_step ps core = Ok core' \<and> release_inv n core ps core'"
proof (rule rfold_invariant [where P = "release_inv n core"])
  show "release_inv n core [] core" using assms by (simp add: release_inv_def)
  fix ys x zs and core' :: sweep_core
  assume "ps = ys @ x # zs" "release_inv n core ys core'"
  with assms(2) show "\<exists>s'. release_step x core' = Ok s' \<and> release_inv n core (ys @ [x]) s'"
    by (intro release_step_inv) auto
qed

subsection \<open>The invariant\<close>

definition parent_indices :: "sweep_env \<Rightarrow> nat \<Rightarrow> nat list" where
  "parent_indices env ix =
     (case op_at (se_graph env) (se_reachable env) ix of
        Ok o1 \<Rightarrow> List.map_filter (se_index_of env) (o_parents o1) | _ \<Rightarrow> [])"

definition remaining :: "sweep_env \<Rightarrow> nat set \<Rightarrow> nat \<Rightarrow> nat" where
  "remaining env P p = (\<Sum>i \<in> {..<length (se_reachable env)} - P. count_list (parent_indices env i) p)"

abbreviation (input) "below E env p \<equiv> ancestors E (se_reachable env ! p)"

definition held :: "(op_id \<times> op_id) set \<Rightarrow> sweep_env \<Rightarrow> nat set \<Rightarrow> (nat \<Rightarrow> nat \<Rightarrow> op_id set) \<Rightarrow> nat \<Rightarrow> (op_id set \<times> op_id set) set" where
  "held E env L U i = (\<lambda>p. (below E env p, U p i)) ` L"

lemma held_mono: "L \<subseteq> L' \<Longrightarrow> held E env L U i \<subseteq> held E env L' U i"
  by (auto simp: held_def)

context writer_table
begin

definition writes_law :: "sweep_env \<Rightarrow> path_table \<Rightarrow> (nat \<Rightarrow> op_id set) \<Rightarrow> nat \<Rightarrow> op \<Rightarrow> bool" where
  "writes_law env pt W ix o1 \<longleftrightarrow> (\<forall>st S U. represents wr (length (pt_paths pt)) st S U \<longrightarrow>
     (\<forall>i. se_reachable env ! ix \<notin> S i \<union> U i) \<longrightarrow>
     (\<exists>st'. own_writes env (pt_index pt) ix o1 st = Ok st' \<and>
        represents wr (length (pt_paths pt)) st'
          (\<lambda>i. if se_reachable env ! ix \<in> W i then {se_reachable env ! ix} else S i)
          (\<lambda>i. if se_reachable env ! ix \<in> W i then U i \<union> S i else U i)))"

text \<open>
  What a sweep relies on.  \<open>Z\<close> holds the indices that are not replayed (the op a snapshot seeds) and \<open>X\<close> the ops
  behind them, which the walk did not visit; both are empty in a plain sweep.
\<close>

definition sweep_frame ::
  "sweep_env \<Rightarrow> path_table \<Rightarrow> (op_id \<times> op_id) set \<Rightarrow> (nat \<Rightarrow> op_id set) \<Rightarrow> nat set \<Rightarrow> op_id set \<Rightarrow> bool" where
  "sweep_frame env pt E W Z X \<longleftrightarrow> distinct (se_reachable env) \<and> acyclic E \<and>
     X \<inter> set (se_reachable env) = {} \<and> anc_closed E X \<and> (\<forall>z \<in> Z. E `` {se_reachable env ! z} \<subseteq> X) \<and>
     (\<forall>ix < length (se_reachable env). ix \<notin> Z \<longrightarrow>
        (\<exists>o1. op_at (se_graph env) (se_reachable env) ix = Ok o1 \<and> writes_law env pt W ix o1 \<and>
          set (parent_indices env ix) \<subseteq> {..<length (se_reachable env)} \<and>
          E `` {se_reachable env ! ix} = (\<lambda>p. se_reachable env ! p) ` set (parent_indices env ix)))"

definition states_ok ::
  "sweep_env \<Rightarrow> nat \<Rightarrow> (op_id \<times> op_id) set \<Rightarrow> (nat \<Rightarrow> op_id set) \<Rightarrow> sweep_state list \<Rightarrow> nat set \<Rightarrow>
   (nat \<Rightarrow> nat \<Rightarrow> op_id set) \<Rightarrow> bool" where
  "states_ok env k E W sts L U \<longleftrightarrow>
     (\<forall>p \<in> L. represents wr k (sts ! p) (\<lambda>i. mx E (W i) (below E env p)) (U p)) \<and>
     (\<forall>i. settled E (W i) (held E env L U i))"

definition core_inv ::
  "sweep_env \<Rightarrow> path_table \<Rightarrow> (op_id \<times> op_id) set \<Rightarrow> (nat \<Rightarrow> op_id set) \<Rightarrow> (nat \<Rightarrow> nat) \<Rightarrow> nat set \<Rightarrow> sweep_core \<Rightarrow> bool" where
  "core_inv env pt E W hc P core \<longleftrightarrow>
     (let n = length (se_reachable env) in
      core_lengths n core \<and> P \<subseteq> {..<n} \<and> (\<forall>x \<in> P. set (parent_indices env x) \<subseteq> P) \<and>
      live_set n core \<subseteq> P \<and> (\<forall>p \<in> P. 0 < sc_consumers core ! p \<longrightarrow> p \<in> live_set n core) \<and>
      sc_live core = int (card (live_set n core)) \<and>
      (\<forall>p < n. sc_consumers core ! p = int (remaining env P p + hc p)) \<and>
      (\<exists>U. states_ok env (length (pt_paths pt)) E W (sc_states core) (live_set n core) U))"

lemma frame_step:
  assumes "sweep_frame env pt E W Z X" "ix < length (se_reachable env)" "ix \<notin> Z"
  obtains o1 where "op_at (se_graph env) (se_reachable env) ix = Ok o1" "writes_law env pt W ix o1"
    "set (parent_indices env ix) \<subseteq> {..<length (se_reachable env)}"
    "E `` {se_reachable env ! ix} = (\<lambda>p. se_reachable env ! p) ` set (parent_indices env ix)"
  using assms unfolding sweep_frame_def by blast

lemma merge_parent_step:
  assumes "represents wr k st (\<lambda>i. mx E (W i) C) V" "\<forall>i. settled E (W i) (insert (C, V i) (held E env L U i))"
    and "states_ok env k E W sts L U" "p \<in> L"
  shows "\<exists>st'. merge_into st (sts ! p) = Ok st' \<and>
    represents wr k st' (\<lambda>i. mx E (W i) (C \<union> below E env p)) (\<lambda>i. V i \<union> U p i) \<and>
    (\<forall>i. settled E (W i) (insert (C \<union> below E env p, V i \<union> U p i) (held E env L U i)))"
proof -
  have src: "represents wr k (sts ! p) (\<lambda>i. mx E (W i) (below E env p)) (U p)"
    using assms(3,4) by (simp add: states_ok_def)
  have mem: "(below E env p, U p i) \<in> insert (C, V i) (held E env L U i)" for i
    using assms(4) by (simp add: held_def)
  note m = settled_merge [OF assms(2) [rule_format] insertI1 mem]
  have "settled E (W i) (insert (C \<union> below E env p, V i \<union> U p i) (held E env L U i))" for i
    by (rule settled_mono [OF m(2) [of i]]) blast
  with represents_merge [OF assms(1) src] show ?thesis unfolding m(1) by blast
qed

lemma merge_parents_spec:
  assumes "represents wr k st (\<lambda>i. mx E (W i) C) V" "\<forall>i. settled E (W i) (insert (C, V i) (held E env L U i))"
    and "states_ok env k E W sts L U" "core_lengths n core" "set ps \<subseteq> {..<n}"
    and "live_set n core \<subseteq> L" "\<And>p. p \<in> live_set n core \<Longrightarrow> sc_states core ! p = sts ! p"
  shows "\<exists>st' V'. rfold (merge_parent core) ps st = Ok st' \<and>
    represents wr k st' (\<lambda>i. mx E (W i) (C \<union> (\<Union>p \<in> set ps \<inter> live_set n core. below E env p))) V' \<and>
    (\<forall>i. settled E (W i) (insert (C \<union> (\<Union>p \<in> set ps \<inter> live_set n core. below E env p), V' i) (held E env L U i)))"
proof -
  let ?C = "\<lambda>ys. C \<union> (\<Union>p \<in> set ys \<inter> live_set n core. below E env p)"
  let ?P = "\<lambda>ys st'. \<exists>V'. represents wr k st' (\<lambda>i. mx E (W i) (?C ys)) V' \<and>
    (\<forall>i. settled E (W i) (insert (?C ys, V' i) (held E env L U i)))"
  have "\<exists>st'. rfold (merge_parent core) ps st = Ok st' \<and> ?P ps st'"
  proof (rule rfold_invariant [where P = ?P])
    show "?P [] st" using assms(1,2) by auto
    fix ys x zs and st' :: sweep_state
    assume "ps = ys @ x # zs" and inv: "?P ys st'"
    then have x: "x < n" using assms(5) by auto
    show "\<exists>st''. merge_parent core x st' = Ok st'' \<and> ?P (ys @ [x]) st''"
    proof (cases "x \<in> live_set n core")
      case True
      then have "?C (ys @ [x]) = ?C ys \<union> below E env x" by auto
      moreover have "merge_parent core x st' = merge_into st' (sts ! x)"
        using True x assms(4,7) by (simp add: merge_parent_def core_lengths_def live_set_def)
      moreover obtain V' where "represents wr k st' (\<lambda>i. mx E (W i) (?C ys)) V'"
        "\<forall>i. settled E (W i) (insert (?C ys, V' i) (held E env L U i))" using inv by blast
      note merge_parent_step [OF this assms(3), of x]
      ultimately show ?thesis using True assms(6) by force
    next
      case False
      then have "merge_parent core x st' = Ok st'"
        using x assms(4) by (simp add: merge_parent_def core_lengths_def live_set_def)
      moreover have "?C (ys @ [x]) = ?C ys" using False by auto
      ultimately show ?thesis using inv by simp
    qed
  qed
  then show ?thesis by blast
qed

lemma core_invD:
  assumes "core_inv env pt E W hc P core" "n = length (se_reachable env)"
  shows "core_lengths n core" "P \<subseteq> {..<n}" "\<And>x. x \<in> P \<Longrightarrow> set (parent_indices env x) \<subseteq> P" "live_set n core \<subseteq> P"
    "\<And>p. p \<in> P \<Longrightarrow> 0 < sc_consumers core ! p \<Longrightarrow> p \<in> live_set n core" "sc_live core = int (card (live_set n core))"
    "\<And>p. p < n \<Longrightarrow> sc_consumers core ! p = int (remaining env P p + hc p)"
    "\<exists>U. states_ok env (length (pt_paths pt)) E W (sc_states core) (live_set n core) U"
  using assms unfolding core_inv_def Let_def by blast+

lemma remaining_insert:
  assumes "x < length (se_reachable env)" "x \<notin> P"
  shows "remaining env P p = count_list (parent_indices env x) p + remaining env (insert x P) p"
proof -
  let ?A = "{..<length (se_reachable env)}" and ?f = "\<lambda>i. count_list (parent_indices env i) p"
  have "sum ?f (?A - P) = ?f x + sum ?f (?A - P - {x})" by (rule sum.remove) (use assms in auto)
  moreover have "?A - P - {x} = ?A - insert x P" by auto
  ultimately show ?thesis unfolding remaining_def by simp
qed

lemma parents_live:
  assumes "core_inv env pt E W hc P core" "x < length (se_reachable env)" "x \<notin> P" "set (parent_indices env x) \<subseteq> P"
  shows "set (parent_indices env x) \<subseteq> live_set (length (se_reachable env)) core"
proof
  fix p assume p: "p \<in> set (parent_indices env x)"
  then have "p \<in> P" "p < length (se_reachable env)" using assms(4) core_invD(2) [OF assms(1) refl] by auto
  moreover have "0 < count_list (parent_indices env x) p" using p by (metis count_list_0_iff neq0_conv)
  ultimately show "p \<in> live_set (length (se_reachable env)) core"
    using core_invD(5,7) [OF assms(1) refl] remaining_insert [OF assms(2,3), of p] by simp
qed

lemma gather_spec:
  assumes inv: "core_inv env pt E W hc P core" and x: "x < length (se_reachable env)" "x \<notin> P"
    and ps: "ps = parent_indices env x" "set ps \<subseteq> P"
    and n: "n = length (se_reachable env)" and k: "k = length (pt_paths pt)"
    and U: "states_ok env k E W (sc_states core) (live_set n core) U"
  shows "\<exists>stolen core1 st V. rfold steal_step ps (None, core) = Ok (stolen, core1) \<and>
    rfold (merge_parent core1) ps (case stolen of Some st \<Rightarrow> st | None \<Rightarrow> fresh_state k) = Ok st \<and>
    represents wr k st (\<lambda>i. mx E (W i) (\<Union>p \<in> set ps. below E env p)) V \<and>
    (\<forall>i. settled E (W i) (insert (\<Union>p \<in> set ps. below E env p, V i) (held E env (live_set n core) U i))) \<and>
    core_lengths n core1 \<and> sc_consumers core1 = sc_consumers core \<and> live_set n core1 \<subseteq> live_set n core \<and>
    sc_live core1 = int (card (live_set n core1)) \<and> (\<forall>p \<in> live_set n core1. sc_states core1 ! p = sc_states core ! p) \<and>
    (\<forall>p \<in> live_set n core - live_set n core1. p \<in> set ps \<and> sc_consumers core ! p = 1)"
proof -
  note I = core_invD [OF inv n]
  have live: "set ps \<subseteq> live_set n core" using parents_live [OF inv x] ps n by simp
  have range: "set ps \<subseteq> {..<n}" using I(2) ps(2) by blast
  have st: "settled E (W i) (held E env (live_set n core) U i)" for i using U by (simp add: states_ok_def)
  consider "rfold steal_step ps (None, core) = (Ok (None, core) :: _ checked)"
    | p where "p \<in> set ps" "sc_consumers core ! p = 1"
        "rfold steal_step ps (None, core) = (Ok (Some (sc_states core ! p), released p core) :: _ checked)"
    using steal_spec [OF I(1) range] by blast
  then show ?thesis
  proof cases
    case 1
    have a: "represents wr k (fresh_state k) (\<lambda>i. mx E (W i) {}) (\<lambda>_. {})" using represents_fresh by simp
    have b: "\<forall>i. settled E (W i) (insert ({}, {}) (held E env (live_set n core) U i))"
      using settled_empty [OF st] by blast
    obtain st' V' where "rfold (merge_parent core) ps (fresh_state k) = Ok st'"
      "represents wr k st' (\<lambda>i. mx E (W i) ({} \<union> (\<Union>p \<in> set ps \<inter> live_set n core. below E env p))) V'"
      "\<forall>i. settled E (W i) (insert ({} \<union> (\<Union>p \<in> set ps \<inter> live_set n core. below E env p), V' i) (held E env (live_set n core) U i))"
      using merge_parents_spec [where C = "{}" and V = "\<lambda>_. {}", OF a b U I(1) range subset_refl refl] by blast
    moreover have "set ps \<inter> live_set n core = set ps" using live by blast
    ultimately show ?thesis using 1 I(1,6) by auto
  next
    case (2 p)
    then have p: "p \<in> live_set n core" "p < n" using live by (auto simp: live_set_def)
    note l = live_set_released [OF I(1) p(2)]
    have same: "\<And>q. q \<in> live_set n (released p core) \<Longrightarrow> sc_states (released p core) ! q = sc_states core ! q"
      unfolding l by (simp add: released_def)
    have a: "represents wr k (sc_states core ! p) (\<lambda>i. mx E (W i) (below E env p)) (U p)"
      using U p by (simp add: states_ok_def)
    have "insert (below E env p, U p i) (held E env (live_set n core) U i) = held E env (live_set n core) U i" for i
      using p by (auto simp: held_def)
    then have b: "\<forall>i. settled E (W i) (insert (below E env p, U p i) (held E env (live_set n core) U i))"
      using st by simp
    have len: "core_lengths n (released p core)" "live_set n (released p core) \<subseteq> live_set n core" using I(1) l by auto
    obtain st' V' where m: "rfold (merge_parent (released p core)) ps (sc_states core ! p) = Ok st'"
      "represents wr k st' (\<lambda>i. mx E (W i) (below E env p \<union> (\<Union>p \<in> set ps \<inter> live_set n (released p core). below E env p))) V'"
      "\<forall>i. settled E (W i) (insert (below E env p \<union> (\<Union>p \<in> set ps \<inter> live_set n (released p core). below E env p), V' i) (held E env (live_set n core) U i))"
      using merge_parents_spec [where C = "below E env p" and V = "U p", OF a b U len(1) range len(2) same] by blast
    have C: "below E env p \<union> (\<Union>p \<in> set ps \<inter> live_set n (released p core). below E env p) = (\<Union>p \<in> set ps. below E env p)"
      using live 2(1) l by auto
    have live': "sc_live (released p core) = int (card (live_set n (released p core)))"
      using card.remove [OF finite_live_set p(1)] I(6) unfolding l by (simp add: released_def)
    have gone: "\<forall>q \<in> live_set n core - live_set n (released p core). q \<in> set ps \<and> sc_consumers core ! q = 1"
      using 2(1,2) by (auto simp: l)
    have "sc_consumers (released p core) = sc_consumers core" by (simp add: released_def)
    with m [unfolded C] 2(3) len live' gone same show ?thesis
      by (intro exI [of _ "Some (sc_states core ! p)"] exI [of _ "released p core"] exI [of _ st'] exI [of _ V'])
        simp
  qed
qed

lemma processed_closed:
  assumes "sweep_frame env pt E W Z X" "core_inv env pt E W hc P core"
  shows "anc_closed E ((!) (se_reachable env) ` P \<union> X)"
proof -
  note I = core_invD [OF assms(2) refl]
  have "E `` {se_reachable env ! q} \<subseteq> (!) (se_reachable env) ` P \<union> X" if "q \<in> P" for q
  proof (cases "q \<in> Z")
    case True
    with assms(1) show ?thesis by (auto simp: sweep_frame_def)
  next
    case False
    have q: "q < length (se_reachable env)" using that I(2) by auto
    obtain o1 where "E `` {se_reachable env ! q} = (\<lambda>p. se_reachable env ! p) ` set (parent_indices env q)"
      using frame_step [OF assms(1) q False] by blast
    with I(3) [OF that] show ?thesis by auto
  qed
  moreover have "E `` X \<subseteq> X" using assms(1) by (simp add: sweep_frame_def anc_closed_def)
  ultimately show ?thesis unfolding anc_closed_def by blast
qed

lemma own_writes_spec:
  assumes fr: "sweep_frame env pt E W Z X" "Z \<subseteq> P" and inv: "core_inv env pt E W hc P core"
    and x: "x < length (se_reachable env)" "x \<notin> P" and ps: "set (parent_indices env x) \<subseteq> P"
    and o1: "op_at (se_graph env) (se_reachable env) x = Ok o1"
    and C: "C = (\<Union>p \<in> set (parent_indices env x). below E env p)"
    and st: "represents wr (length (pt_paths pt)) st (\<lambda>i. mx E (W i) C) V"
    and set: "\<forall>i. settled E (W i) (insert (C, V i) (held E env L U i))" and L: "L \<subseteq> P"
  shows "\<exists>st' V'. own_writes env (pt_index pt) x o1 st = Ok st' \<and>
    represents wr (length (pt_paths pt)) st' (\<lambda>i. mx E (W i) (below E env x)) V' \<and>
    (\<forall>i. settled E (W i) (insert (below E env x, V' i) (held E env L U i)))"
proof -
  let ?r = "se_reachable env ! x" and ?P = "(!) (se_reachable env) ` P \<union> X"
  note I = core_invD [OF inv refl]
  have xZ: "x \<notin> Z" using fr(2) x(2) by blast
  have law: "writes_law env pt W x o1"
    and edges: "E `` {?r} = (\<lambda>p. se_reachable env ! p) ` set (parent_indices env x)"
    using frame_step [OF fr(1) x(1) xZ] o1 by (metis result.inject(2))+
  have cl: "anc_closed E ?P" by (rule processed_closed [OF fr(1) inv])
  have below: "below E env p \<subseteq> ?P" if "p \<in> P" for p using ancestors_subset [OF cl] that by blast
  have r: "?r \<notin> ?P" using fr x I(2) nth_mem [OF x(1)] by (auto simp: sweep_frame_def nth_eq_iff_index_eq)
  have CP: "C \<subseteq> ?P" using C ps below by blast
  have anc: "below E env x = insert ?r C" unfolding ancestors_step [of E ?r] edges C by auto
  have V: "V i \<subseteq> C" for i
  proof -
    have "V i \<subseteq> nx E (W i) C" using set by (auto simp: settled_def)
    then show ?thesis by (auto simp: nx_def)
  qed
  have fresh: "?r \<notin> mx E (W i) C \<union> V i" for i using V [of i] CP r by (auto simp: mx_def)
  have top: "(?r, w) \<in> E\<^sup>*" if "w \<in> C" for w using that anc by (auto simp: ancestors_def)
  have closed: "anc_closed E C" "anc_closed E (insert ?r C)"
    using anc_closed_ancestors [of E ?r] anc by (simp_all add: C, intro anc_closed_Union, auto intro: anc_closed_ancestors)
  have acyc: "acyclic E" using fr(1) by (simp add: sweep_frame_def)
  have rC: "?r \<notin> C" using CP r by blast
  have mxi: "mx E (W i) (insert ?r C) = (if ?r \<in> W i then {?r} else mx E (W i) C)" for i
    by (rule mx_insert_top(1) [OF acyc closed(1) rC top])
  define V' where "V' i = (if ?r \<in> W i then V i \<union> mx E (W i) C else V i)" for i
  obtain st' where st': "own_writes env (pt_index pt) x o1 st = Ok st'"
    "represents wr (length (pt_paths pt)) st' (\<lambda>i. if ?r \<in> W i then {?r} else mx E (W i) C) V'"
    using law st fresh unfolding writes_law_def V'_def by blast
  have "settled E (W i) (insert (insert ?r C, V' i) (insert (C, V i) (held E env L U i)))" for i
    unfolding V'_def
  proof (rule settled_top [OF set [rule_format] insertI1 acyc rC closed(2) top])
    fix D X assume "(D, X) \<in> insert (C, V i) (held E env L U i)"
    then have "D \<subseteq> ?P" using CP below L by (auto simp: held_def)
    then show "?r \<notin> D" using r by blast
  qed
  then have "settled E (W i) (insert (below E env x, V' i) (held E env L U i))" for i
    unfolding anc by (rule settled_mono) blast
  with st' show ?thesis unfolding anc mxi by blast
qed

lemma clear_step:
  assumes "represents wr k st (\<lambda>i. mx E (W i) (below E env x)) V"
  shows "\<exists>st'. clear_superseded st = Ok st' \<and> represents wr k st' (\<lambda>i. mx E (W i) (below E env x)) (\<lambda>_. {}) \<and>
    (\<forall>i. settled E (W i) (held E env {x} (\<lambda>_ _. {}) i))"
  using represents_clear [OF assms] settled_single [OF anc_closed_ancestors] by (auto simp: held_def)

lemma install_state:
  assumes "core_lengths n core" "x < n" "x \<notin> live_set n core" "sc_live core = int (card (live_set n core))"
    and "core' = core\<lparr>sc_states := (sc_states core)[x := st], sc_has_state := (sc_has_state core)[x := True],
      sc_live := sc_live core + 1\<rparr>"
  shows "core_lengths n core'" "live_set n core' = insert x (live_set n core)"
    "sc_live core' = int (card (live_set n core'))" "sc_states core' ! x = st"
    "\<And>p. p \<noteq> x \<Longrightarrow> sc_states core' ! p = sc_states core ! p" "sc_consumers core' = sc_consumers core"
proof -
  show live: "live_set n core' = insert x (live_set n core)"
    using assms(1,2,5) by (auto simp: live_set_def core_lengths_def nth_list_update)
  show "sc_live core' = int (card (live_set n core'))"
    unfolding live using assms(3,4) by (simp add: assms(5))
qed (use assms in \<open>auto simp: core_lengths_def\<close>)

lemma core_inv_next:
  assumes inv: "core_inv env pt E W hc P core" and n: "n = length (se_reachable env)"
    and x: "x < n" "x \<notin> P" and ps: "ps = parent_indices env x" "set ps \<subseteq> P"
    and c1: "sc_consumers core1 = sc_consumers core" "live_set n core1 = insert x L1" "L1 \<subseteq> live_set n core"
    and gone: "\<forall>p \<in> live_set n core - L1. p \<in> set ps \<and> sc_consumers core ! p = 1"
    and rel: "release_inv n core1 ps core2"
    and U: "states_ok env (length (pt_paths pt)) E W (sc_states core2) (live_set n core2) U"
  shows "core_inv env pt E W hc (insert x P) core2" "x \<in> live_set n core2"
proof -
  note I = core_invD [OF inv n]
  have R: "core_lengths n core2" "\<And>p. p < n \<Longrightarrow> sc_consumers core2 ! p = sc_consumers core ! p - int (count_list ps p)"
    "live_set n core2 \<subseteq> insert x L1"
    "\<And>p. p \<in> insert x L1 - live_set n core2 \<Longrightarrow> sc_consumers core2 ! p \<le> 0 \<and> p \<in> set ps"
    "sc_live core2 = int (card (live_set n core2))"
    using rel c1 unfolding release_inv_def by auto
  show xl: "x \<in> live_set n core2" using R(4) [of x] ps(2) x(2) by blast
  have alive: "p \<in> live_set n core2" if p: "p \<in> insert x P" "0 < sc_consumers core2 ! p" for p
  proof (rule ccontr)
    assume dead: "p \<notin> live_set n core2"
    with xl p have "p \<in> P" by auto
    then have "p < n" using I(2) by auto
    then have c: "sc_consumers core2 ! p = sc_consumers core ! p - int (count_list ps p)" by (rule R(2))
    with p(2) have "p \<in> live_set n core" using I(5) [OF \<open>p \<in> P\<close>] by simp
    with dead R(4) [of p] p(2) have "p \<in> set ps" "sc_consumers core ! p = 1" using gone by force+
    moreover have "0 < count_list ps p" using \<open>p \<in> set ps\<close> by (metis count_list_0_iff neq0_conv)
    ultimately show False using c p(2) by simp
  qed
  have "sc_consumers core2 ! p = int (remaining env (insert x P) p + hc p)" if "p < n" for p
    using R(2) [OF that] I(7) [OF that] remaining_insert [of x env P p] x n ps(1) by simp
  moreover have "live_set n core2 \<subseteq> insert x P" using R(3) c1(3) I(4) by auto
  moreover have "set (parent_indices env y) \<subseteq> insert x P" if "y \<in> insert x P" for y
    using I(3) [of y] ps that by auto
  ultimately show "core_inv env pt E W hc (insert x P) core2"
    using R(1,5) I(2) x alive U unfolding core_inv_def Let_def n [symmetric] by auto
qed

lemma installed_states_ok:
  assumes "release_inv n core2 ps core3" "live_set n core2 = insert x L1" "sc_states core2 ! x = st'"
    and "\<And>p. p \<noteq> x \<Longrightarrow> sc_states core2 ! p = sc_states core1 ! p" "L1 \<subseteq> L" "\<forall>p \<in> L1. sc_states core1 ! p = sts ! p"
    and "states_ok env k E W sts L U" "represents wr k st' (\<lambda>i. mx E (W i) (below E env x)) V'"
    and "\<forall>i. settled E (W i) (insert (below E env x, V' i) (held E env L U i))" "x \<notin> L"
  shows "states_ok env k E W (sc_states core3) (live_set n core3) (U(x := V'))"
proof -
  have sub: "live_set n core3 \<subseteq> insert x L1" and same: "\<And>p. p \<in> live_set n core3 \<Longrightarrow> sc_states core3 ! p = sc_states core2 ! p"
    using assms(1,2) unfolding release_inv_def by blast+
  have "represents wr k (sc_states core3 ! p) (\<lambda>i. mx E (W i) (below E env p)) ((U(x := V')) p)"
    if "p \<in> live_set n core3" for p
  proof (cases "p = x")
    case True
    with same [OF that] assms(3,8) show ?thesis by simp
  next
    case False
    then have "p \<in> L1" "p \<in> L" using sub that assms(5) by auto
    with False same [OF that] assms(4,6,7) show ?thesis by (simp add: states_ok_def)
  qed
  moreover have "held E env (live_set n core3) (U(x := V')) i \<subseteq> insert (below E env x, V' i) (held E env L U i)" for i
  proof
    fix y assume "y \<in> held E env (live_set n core3) (U(x := V')) i"
    then obtain p where p: "p \<in> live_set n core3" "y = (below E env p, (U(x := V')) p i)" by (auto simp: held_def)
    then show "y \<in> insert (below E env x, V' i) (held E env L U i)"
      using sub assms(5) by (cases "p = x") (auto simp: held_def)
  qed
  then have "settled E (W i) (held E env (live_set n core3) (U(x := V')) i)" for i
    using assms(9) settled_mono by blast
  ultimately show ?thesis by (simp add: states_ok_def)
qed

lemma core_inv_states:
  assumes inv: "core_inv env pt E W hc P core" and n: "n = length (se_reachable env)" and "length sts = n"
    and U: "states_ok env (length (pt_paths pt)) E W sts (live_set n core) U"
  shows "core_inv env pt E W hc P (core\<lparr>sc_states := sts\<rparr>)"
proof -
  note I = core_invD [OF inv n]
  have live: "live_set n (core\<lparr>sc_states := sts\<rparr>) = live_set n core" by (simp add: live_set_def)
  have len: "core_lengths n (core\<lparr>sc_states := sts\<rparr>)" using I(1) assms(3) by (simp add: core_lengths_def)
  have "\<exists>U. states_ok env (length (pt_paths pt)) E W sts (live_set n core) U" using U by blast
  with I(2-7) len show ?thesis
    unfolding core_inv_def Let_def n [symmetric] live by (intro conjI ballI allI impI) simp_all
qed

lemma clear_live:
  assumes inv: "core_inv env pt E W hc P core" and n: "n = length (se_reachable env)"
    and x: "x \<in> live_set n core" and one: "sc_live core = 1"
  shows "\<exists>live sts. vat (sc_states core) x = (Ok live :: sweep_state checked) \<and>
    (\<exists>live'. clear_superseded live = Ok live' \<and> vset (sc_states core) x live' = (Ok sts :: sweep_state list checked)) \<and>
    core_inv env pt E W hc P (core\<lparr>sc_states := sts\<rparr>)"
proof -
  note I = core_invD [OF inv n]
  have "card (live_set n core) = 1" using I(6) one by simp
  then have L: "live_set n core = {x}" using x by (metis card_1_singletonE singletonD)
  have xs: "x < length (sc_states core)" using x I(1) by (simp add: live_set_def core_lengths_def)
  obtain U where U: "states_ok env (length (pt_paths pt)) E W (sc_states core) (live_set n core) U" using I(8) by blast
  then have "represents wr (length (pt_paths pt)) (sc_states core ! x) (\<lambda>i. mx E (W i) (below E env x)) (U x)"
    using x by (simp add: states_ok_def)
  from clear_step [OF this] obtain st' where st': "clear_superseded (sc_states core ! x) = Ok st'"
    "represents wr (length (pt_paths pt)) st' (\<lambda>i. mx E (W i) (below E env x)) (\<lambda>_. {})"
    "\<forall>i. settled E (W i) (held E env {x} (\<lambda>_ _. {}) i)" by blast
  have "states_ok env (length (pt_paths pt)) E W ((sc_states core)[x := st']) (live_set n core) (\<lambda>_ _. {})"
    using st'(2,3) xs unfolding L by (simp add: states_ok_def)
  then have "core_inv env pt E W hc P (core\<lparr>sc_states := (sc_states core)[x := st']\<rparr>)"
    using core_inv_states [OF inv n] I(1) by (simp add: core_lengths_def)
  with st'(1) xs show ?thesis by auto
qed

text \<open>From the gathered state and the state after the op's own writes on, an iteration is the same for every op.\<close>

lemma process_op_finish:
  assumes inv: "core_inv env pt E W hc P core" and nk: "n = length (se_reachable env)" "k = length (pt_paths pt)"
    and ps: "ps = parent_indices env x" "set ps \<subseteq> P" and x: "x < n" "x \<notin> P"
    and o1: "op_at (se_graph env) (se_reachable env) x = Ok o1"
    and U: "states_ok env k E W (sc_states core) (live_set n core) U"
    and g: "rfold steal_step ps (None, core) = (Ok (stolen, core1) :: _ checked)"
      "rfold (merge_parent core1) ps (case stolen of Some st \<Rightarrow> st | None \<Rightarrow> fresh_state k) = (Ok st :: _ checked)"
      "core_lengths n core1" "sc_consumers core1 = sc_consumers core" "live_set n core1 \<subseteq> live_set n core"
      "sc_live core1 = int (card (live_set n core1))" "\<forall>p \<in> live_set n core1. sc_states core1 ! p = sc_states core ! p"
      "\<forall>p \<in> live_set n core - live_set n core1. p \<in> set ps \<and> sc_consumers core ! p = 1"
    and w: "own_writes env (pt_index pt) x o1 st = Ok st'"
      "represents wr k st' (\<lambda>i. mx E (W i) (below E env x)) V'"
      "\<forall>i. settled E (W i) (insert (below E env x, V' i) (held E env (live_set n core) U i))"
  shows "\<exists>core'. process_op env pt x core = Ok core' \<and> core_inv env pt E W hc (insert x P) core'"
proof -
  note I = core_invD [OF inv nk(1)]
  have mf: "List.map_filter (se_index_of env) (o_parents o1) = ps" by (simp add: ps(1) parent_indices_def o1)
  have range: "set ps \<subseteq> {..<n}" using ps(2) I(2) by blast
  have xl: "x \<notin> live_set n core1" using g(5) I(4) x(2) by blast
  define core2 where core2: "core2 = core1\<lparr>sc_states := (sc_states core1)[x := st'],
    sc_has_state := (sc_has_state core1)[x := True], sc_live := sc_live core1 + 1\<rparr>"
  note c2 = install_state [OF g(3) x(1) xl g(6) core2]
  obtain core3 where r: "rfold release_step ps core2 = Ok core3" "release_inv n core2 ps core3"
    using release_spec [OF c2(1) range c2(3)] by blast
  have "states_ok env k E W (sc_states core3) (live_set n core3) (U(x := V'))"
    using installed_states_ok [OF r(2) c2(2,4,5) g(5,7) U w(2,3)] I(4) x(2) by blast
  note next_inv = core_inv_next [OF inv nk(1) x ps _ c2(2) g(5,8) r(2) this [unfolded nk(2)]]
  have inv3: "core_inv env pt E W hc (insert x P) core3" "x \<in> live_set n core3"
    using next_inv c2(6) g(4) by simp_all
  have "process_op env pt x core = (if se_drop env \<and> sc_live core3 = 1 then
      rbind (vat (sc_states core3) x) (\<lambda>live.
      rbind (clear_superseded live) (\<lambda>live.
      rbind (vset (sc_states core3) x live) (\<lambda>sts. Ok (core3\<lparr>sc_states := sts\<rparr>)))) else Ok core3)"
    using o1 mf g(1) g(2) [unfolded nk(2)] g(3) w(1) r(1) x(1) core2
    by (simp add: process_op_def Let_def core_lengths_def)
  moreover have "\<exists>core'. rbind (vat (sc_states core3) x) (\<lambda>live. rbind (clear_superseded live) (\<lambda>live.
      rbind (vset (sc_states core3) x live) (\<lambda>sts. Ok (core3\<lparr>sc_states := sts\<rparr>)))) = Ok core' \<and>
      core_inv env pt E W hc (insert x P) core'" if "sc_live core3 = 1"
    using clear_live [OF inv3(1) nk(1) inv3(2) that] by force
  ultimately show ?thesis using inv3(1) by auto
qed

lemma process_op_spec:
  assumes fr: "sweep_frame env pt E W Z X" "Z \<subseteq> P" and inv: "core_inv env pt E W hc P core"
    and x: "x < length (se_reachable env)" "x \<notin> P" "set (parent_indices env x) \<subseteq> P"
  shows "\<exists>core'. process_op env pt x core = Ok core' \<and> core_inv env pt E W hc (insert x P) core'"
proof -
  define n k ps where nk: "n = length (se_reachable env)" "k = length (pt_paths pt)" "ps = parent_indices env x"
  note I = core_invD [OF inv nk(1)]
  have xZ: "x \<notin> Z" using fr(2) x(2) by blast
  obtain o1 where o1: "op_at (se_graph env) (se_reachable env) x = Ok o1"
    using frame_step [OF fr(1) x(1) xZ] by metis
  obtain U where U: "states_ok env k E W (sc_states core) (live_set n core) U" using I(8) nk(2) by blast
  obtain stolen core1 st V where g: "rfold steal_step ps (None, core) = (Ok (stolen, core1) :: _ checked)"
    "rfold (merge_parent core1) ps (case stolen of Some st \<Rightarrow> st | None \<Rightarrow> fresh_state k) = (Ok st :: _ checked)"
    "represents wr k st (\<lambda>i. mx E (W i) (\<Union>p \<in> set ps. below E env p)) V"
    "\<forall>i. settled E (W i) (insert (\<Union>p \<in> set ps. below E env p, V i) (held E env (live_set n core) U i))"
    "core_lengths n core1" "sc_consumers core1 = sc_consumers core" "live_set n core1 \<subseteq> live_set n core"
    "sc_live core1 = int (card (live_set n core1))" "\<forall>p \<in> live_set n core1. sc_states core1 ! p = sc_states core ! p"
    "\<forall>p \<in> live_set n core - live_set n core1. p \<in> set ps \<and> sc_consumers core ! p = 1"
    using gather_spec [OF inv x(1,2) nk(3) _ nk(1,2) U] x(3) nk(3) by auto
  obtain st' V' where w: "own_writes env (pt_index pt) x o1 st = Ok st'"
    "represents wr k st' (\<lambda>i. mx E (W i) (below E env x)) V'"
    "\<forall>i. settled E (W i) (insert (below E env x, V' i) (held E env (live_set n core) U i))"
    using own_writes_spec [OF fr inv x o1 refl] g(3,4) I(4) nk by blast
  show ?thesis
    using process_op_finish [OF inv nk(1,2,3) _ _ x(2) o1 U g(1,2,5-10) w] x(1,3) nk by simp
qed

text \<open>The op a snapshot seeds has no walked parents and comes first.\<close>

lemma process_seed_spec:
  assumes inv: "core_inv env pt E W hc {} core" and x: "x < length (se_reachable env)" and pi: "parent_indices env x = []"
    and o1: "op_at (se_graph env) (se_reachable env) x = Ok o1"
    and own: "own_writes env (pt_index pt) x o1 (fresh_state (length (pt_paths pt))) = Ok st'"
      "represents wr (length (pt_paths pt)) st' (\<lambda>i. mx E (W i) (below E env x)) (\<lambda>_. {})"
  shows "\<exists>core'. process_op env pt x core = Ok core' \<and> core_inv env pt E W hc {x} core'"
proof -
  define n k where nk: "n = length (se_reachable env)" "k = length (pt_paths pt)"
  note I = core_invD [OF inv nk(1)]
  have live: "live_set n core = {}" using I(4) by simp
  obtain U where U: "states_ok env k E W (sc_states core) (live_set n core) U" using I(8) nk(2) by blast
  have "settled E (W i) (insert (below E env x, {}) (held E env (live_set n core) U i))" for i
    unfolding live held_def using settled_single [OF anc_closed_ancestors] by simp
  moreover have "rfold steal_step [] (None, core) = (Ok (None, core) :: _ checked)"
    "rfold (merge_parent core) [] (case None of Some st \<Rightarrow> st | None \<Rightarrow> fresh_state k) = (Ok (fresh_state k) :: _ checked)"
    by simp_all
  note g = process_op_finish [OF inv nk pi [symmetric] _ _ _ o1 U this]
  ultimately show ?thesis using g [OF _ _ _ I(1) refl _ I(6)] x own live nk by simp
qed

end

end
