(* ===== verification/Sweep_Loop.thy ===== *)
theory Sweep_Loop
  imports Sweep_Step
begin

text \<open>
  The schedule of the sweep.  An op becomes ready when its last walked parent is done, so the loop takes every
  op after its parents and, the history being acyclic, stops only when it has taken them all.
\<close>

lemma filter_insert_count:
  "x \<notin> P \<Longrightarrow> length (filter (\<lambda>p. p \<notin> P) ps) = length (filter (\<lambda>p. p \<notin> insert x P) ps) + count_list ps x"
  by (induction ps) auto

definition relax_inv :: "nat \<Rightarrow> nat list \<Rightarrow> int list \<Rightarrow> nat list \<Rightarrow> nat list \<times> int list \<Rightarrow> bool" where
  "relax_inv n ready ind ys s \<longleftrightarrow> length (snd s) = n \<and>
     (\<forall>i < n. snd s ! i = ind ! i - int (count_list ys i)) \<and> distinct (fst s) \<and>
     set (fst s) = set ready \<union> {i \<in> set ys. ind ! i = int (count_list ys i)}"

lemma relax_spec:
  assumes "length ind = n" "set cs \<subseteq> {..<n}" "\<forall>i < n. int (count_list cs i) \<le> ind ! i" "distinct ready"
    and "set ready \<inter> set cs = {}"
  shows "\<exists>s. rfold relax_child cs (ready, ind) = Ok s \<and> relax_inv n ready ind cs s"
proof (rule rfold_invariant [where P = "relax_inv n ready ind"])
  show "relax_inv n ready ind [] (ready, ind)" using assms by (simp add: relax_inv_def)
  fix ys x zs and s :: "nat list \<times> int list"
  assume cs: "cs = ys @ x # zs" and inv: "relax_inv n ready ind ys s"
  obtain r d where s: "s = (r, d)" by (cases s)
  have x: "x < n" "x \<notin> set ready" using assms(2,5) cs by auto
  have c: "int (count_list ys x) + 1 \<le> ind ! x" using assms(3) x(1) cs by (auto simp: count_list_append)
  have I: "length d = n" "\<And>i. i < n \<Longrightarrow> d ! i = ind ! i - int (count_list ys i)" "distinct r"
    "set r = set ready \<union> {i \<in> set ys. ind ! i = int (count_list ys i)}"
    using inv by (simp_all add: relax_inv_def s)
  have new: "x \<notin> set r" using I(4) x(2) c by simp
  have dx: "d ! x - 1 = 0 \<longleftrightarrow> ind ! x = int (count_list (ys @ [x]) x)" using I(2) [OF x(1)] by (simp add: count_list_append) linarith
  have eq: "{i \<in> set (ys @ [x]). ind ! i = int (count_list (ys @ [x]) i)} =
      {i \<in> set ys. ind ! i = int (count_list ys i)} \<union> (if d ! x - 1 = 0 then {x} else {})"
    using c unfolding dx by (auto simp: count_list_append)
  have "relax_child x s = Ok (if d ! x - 1 = 0 then r @ [x] else r, d[x := d ! x - 1])"
    using x I(1) by (simp add: relax_child_def s)
  moreover have "relax_inv n ready ind (ys @ [x]) (if d ! x - 1 = 0 then r @ [x] else r, d[x := d ! x - 1])"
    unfolding relax_inv_def eq using I x new by (auto simp: nth_list_update count_list_append)
  ultimately show "\<exists>s'. relax_child x s = Ok s' \<and> relax_inv n ready ind (ys @ [x]) s'" by blast
qed

definition forward_ok :: "sweep_env \<Rightarrow> nat list list \<Rightarrow> bool" where
  "forward_ok env forward \<longleftrightarrow>
     (let n = length (se_reachable env) in
      length forward = n \<and> (\<forall>p < n. set (forward ! p) \<subseteq> {..<n} \<and>
        (\<forall>i < n. count_list (forward ! p) i = count_list (parent_indices env i) p)))"

definition sched_inv :: "sweep_env \<Rightarrow> nat set \<Rightarrow> sweep_sched \<Rightarrow> bool" where
  "sched_inv env P sd \<longleftrightarrow>
     (let n = length (se_reachable env) in
      length (sd_in_degree sd) = n \<and>
      (\<forall>i < n. sd_in_degree sd ! i = int (length (filter (\<lambda>p. p \<notin> P) (parent_indices env i)))) \<and>
      distinct (sd_ready sd) \<and> (\<forall>i. i \<in> set (sd_ready sd) \<longleftrightarrow> i < n \<and> i \<notin> P \<and> sd_in_degree sd ! i = 0) \<and>
      sd_processed sd = card P)"

lemma ready_parents:
  assumes "sched_inv env P sd" "x \<in> set (sd_ready sd)"
  shows "x < length (se_reachable env)" "x \<notin> P" "set (parent_indices env x) \<subseteq> P"
  using assms by (auto simp: sched_inv_def Let_def filter_empty_conv)

lemma relax_children_spec:
  assumes inv: "sched_inv env P sd" and fw: "forward_ok env forward" and x: "x \<in> set (sd_ready sd)" and P: "finite P"
    and cl: "\<And>y. y \<in> P \<Longrightarrow> set (parent_indices env y) \<subseteq> P"
  shows "\<exists>sd'. relax_children forward x (sd\<lparr>sd_ready := remove1 x (sd_ready sd), sd_processed := sd_processed sd + 1\<rparr>) = Ok sd' \<and>
    sched_inv env (insert x P) sd'"
proof -
  define n where n: "n = length (se_reachable env)"
  let ?ind = "sd_in_degree sd" and ?cs = "forward ! x" and ?r = "remove1 x (sd_ready sd)"
  let ?left = "\<lambda>Q i. length (filter (\<lambda>p. p \<notin> Q) (parent_indices env i))"
  note rp = ready_parents [OF inv x]
  have I: "length ?ind = n" "\<And>i. i < n \<Longrightarrow> ?ind ! i = int (?left P i)" "distinct (sd_ready sd)"
    "\<And>i. i \<in> set (sd_ready sd) \<longleftrightarrow> i < n \<and> i \<notin> P \<and> ?ind ! i = 0" "sd_processed sd = card P"
    using inv by (auto simp: sched_inv_def Let_def n)
  have F: "x < length forward" "set ?cs \<subseteq> {..<n}" "\<And>i. i < n \<Longrightarrow> count_list ?cs i = count_list (parent_indices env i) x"
    using fw rp(1) by (auto simp: forward_ok_def Let_def n)
  have split: "?left P i = ?left (insert x P) i + count_list (parent_indices env i) x" for i
    by (rule filter_insert_count [OF rp(2)])
  have le: "\<forall>i < n. int (count_list ?cs i) \<le> ?ind ! i" using F(3) I(2) split by simp
  have zero: "count_list ?cs i = 0" if "i < n" "?ind ! i = 0" for i using le that by force
  have disj: "set ?r \<inter> set ?cs = {}"
    using I(3,4) zero by (auto simp: count_list_0_iff)
  obtain r d where rd: "rfold relax_child ?cs (?r, ?ind) = (Ok (r, d) :: _ checked)" "relax_inv n ?r ?ind ?cs (r, d)"
    using relax_spec [OF I(1) F(2) le _ disj] I(3) by auto
  have D: "length d = n" "\<And>i. i < n \<Longrightarrow> d ! i = int (?left (insert x P) i)" "distinct r"
    "set r = set ?r \<union> {i \<in> set ?cs. ?ind ! i = int (count_list ?cs i)}"
    using rd(2) I(2) F(3) split by (auto simp: relax_inv_def)
  have "i \<in> set r \<longleftrightarrow> i < n \<and> i \<notin> insert x P \<and> d ! i = 0" for i
  proof (cases "i < n \<and> i \<notin> P")
    case True
    then have d: "d ! i = ?ind ! i - int (count_list ?cs i)" using rd(2) by (simp add: relax_inv_def)
    have "i \<in> set ?cs \<longleftrightarrow> count_list ?cs i \<noteq> 0" by (simp add: count_list_0_iff)
    then show ?thesis using True I(3,4) x zero d unfolding D(4) by (cases "i = x") auto
  next
    case False
    have "i \<notin> set ?cs" if "i < n" "i \<in> P"
      using F(3) [OF that(1)] cl [OF that(2)] rp(2) by (metis count_list_0_iff subsetD)
    with False F(2) I(3,4) show ?thesis unfolding D(4) by auto
  qed
  then have "sched_inv env (insert x P) (sd\<lparr>sd_ready := r, sd_processed := sd_processed sd + 1, sd_in_degree := d\<rparr>)"
    using D I(5) rp(2) P by (simp add: sched_inv_def Let_def n [symmetric])
  moreover have "relax_children forward x (sd\<lparr>sd_ready := ?r, sd_processed := sd_processed sd + 1\<rparr>) =
      Ok (sd\<lparr>sd_ready := r, sd_processed := sd_processed sd + 1, sd_in_degree := d\<rparr>)"
    using F(1) rd(1) by (simp add: relax_children_def)
  ultimately show ?thesis by blast
qed

context writer_table
begin

lemma sweep_loop_spec:
  assumes "sweep_frame env pt E W Z X" "forward_ok env forward"
    and "core_inv env pt E W hc P core" "sched_inv env P sd" "Z \<subseteq> P"
  shows "\<exists>core' sd' P'. sweep_loop env pt forward core sd = Ok (core', sd') \<and>
    core_inv env pt E W hc P' core' \<and> sched_inv env P' sd' \<and> sd_ready sd' = [] \<and> Z \<subseteq> P'"
  using assms
proof (induction env pt forward core sd arbitrary: P rule: sweep_loop.induct)
  case (1 env pt forward core sd)
  show ?case
  proof (cases "sd_ready sd = []")
    case True
    then show ?thesis using "1.prems" by (subst sweep_loop.simps) auto
  next
    case False
    define x where x: "x = least_ready (sd_ready sd)"
    define sd1 where sd1: "sd1 = sd\<lparr>sd_ready := remove1 x (sd_ready sd), sd_processed := sd_processed sd + 1\<rparr>"
    have xr: "x \<in> set (sd_ready sd)" using least_ready_in [OF False] x by simp
    note rp = ready_parents [OF "1.prems"(4) xr]
    note I = core_invD [OF "1.prems"(3) refl]
    have fin: "finite P" using I(2) finite_subset by blast
    obtain core' where core': "process_op env pt x core = Ok core'" "core_inv env pt E W hc (insert x P) core'"
      using process_op_spec [OF "1.prems"(1,5,3) rp] by blast
    obtain sd' where sd': "relax_children forward x sd1 = Ok sd'" "sched_inv env (insert x P) sd'"
      using relax_children_spec [OF "1.prems"(4,2) xr fin I(3)] sd1 by blast
    have "sweep_loop env pt forward core sd = sweep_loop env pt forward core' sd'"
      using False core'(1) sd'(1) by (subst sweep_loop.simps) (simp add: Let_def x sd1)
    moreover have "Z \<subseteq> insert x P" using "1.prems"(5) by blast
    ultimately show ?thesis using "1.IH" [OF False x sd1 core'(1) sd'(1) "1.prems"(1,2) core'(2) sd'(2)] by simp
  qed
qed

lemma sweep_complete:
  assumes fr: "sweep_frame env pt E W Z X" "Z \<subseteq> P" and inv: "core_inv env pt E W hc P core" and sd: "sched_inv env P sd"
    and fin: "sd_ready sd = []"
  shows "P = {..<length (se_reachable env)}"
proof (rule ccontr)
  let ?n = "length (se_reachable env)" and ?r = "(!) (se_reachable env)"
  note I = core_invD [OF inv refl]
  assume "P \<noteq> {..<?n}"
  define Q where "Q = {..<?n} - P"
  have "Q \<noteq> {}" using I(2) \<open>P \<noteq> {..<?n}\<close> by (auto simp: Q_def)
  let ?R = "E \<inter> (?r ` Q \<times> ?r ` Q)"
  have "finite ?R" by (auto simp: Q_def)
  moreover have "acyclic ?R" using fr by (auto simp: sweep_frame_def intro: acyclic_subset)
  ultimately have "wf (?R\<inverse>)" by (rule finite_acyclic_wf_converse)
  then obtain z where z: "z \<in> ?r ` Q" "\<And>y. (z, y) \<in> ?R \<Longrightarrow> y \<notin> ?r ` Q"
    using \<open>Q \<noteq> {}\<close> by (metis (no_types, lifting) converse_iff image_is_empty wf_eq_minimal ex_in_conv)
  then obtain x where x: "x < ?n" "x \<notin> P" "z = ?r x" by (auto simp: Q_def)
  have xZ: "x \<notin> Z" using fr(2) x(2) by blast
  have range: "set (parent_indices env x) \<subseteq> {..<?n}" and edges: "E `` {?r x} = (\<lambda>p. ?r p) ` set (parent_indices env x)"
    using frame_step [OF fr(1) x(1) xZ] by metis+
  have "set (parent_indices env x) \<subseteq> P"
  proof
    fix p assume p: "p \<in> set (parent_indices env x)"
    show "p \<in> P"
    proof (rule ccontr)
      assume "p \<notin> P"
      with p range have "p \<in> Q" by (auto simp: Q_def)
      moreover have "(z, ?r p) \<in> E" using p edges x(3) by blast
      ultimately show False using z by blast
    qed
  qed
  then have "filter (\<lambda>p. p \<notin> P) (parent_indices env x) = []" by (auto simp: filter_empty_conv)
  then have "x \<in> set (sd_ready sd)" using sd x(1,2) by (simp add: sched_inv_def Let_def)
  with fin show False by simp
qed

end

end
