(* ===== verification/Sweep_Setup.thy ===== *)
theory Sweep_Setup
  imports Sweep_Loop
begin

text \<open>
  The passes before the sweep: the dense index of the walked ops, the forward edges with their in-degrees and
  consumer counts, and the table of path slots.
\<close>

subsection \<open>Index\<close>

lemma foldl_index:
  assumes "distinct xs" "m \<le> length xs"
  shows "foldl (\<lambda>f i. f(xs ! i \<mapsto> i)) Map.empty [0..<m] r = Some i \<longleftrightarrow> i < m \<and> xs ! i = r"
  using assms(2)
proof (induction m)
  case (Suc m)
  with assms(1) show ?case by (auto simp: less_Suc_eq nth_eq_iff_index_eq)
qed simp

lemma build_index_iff: "distinct xs \<Longrightarrow> build_index xs r = Some i \<longleftrightarrow> i < length xs \<and> xs ! i = r"
  unfolding build_index_def by (rule foldl_index) auto

lemma build_index_dom: "distinct xs \<Longrightarrow> build_index xs r = None \<longleftrightarrow> r \<notin> set xs"
  using build_index_iff [of xs r] by (metis in_set_conv_nth not_None_eq option.distinct(1))

lemma map_filter_snoc: "List.map_filter f (xs @ [x]) = List.map_filter f xs @ (case f x of None \<Rightarrow> [] | Some y \<Rightarrow> [y])"
  by (simp add: List.map_filter_def split: option.splits)

lemma set_map_filter: "set (List.map_filter f xs) = {y. \<exists>x \<in> set xs. f x = Some y}"
  by (force simp: List.map_filter_def)

subsection \<open>Edges\<close>

text \<open>\<open>f i\<close> lists the walked parents of op \<open>i\<close> recorded so far.\<close>

definition edges_inv :: "nat \<Rightarrow> (nat \<Rightarrow> nat list) \<Rightarrow> edges \<Rightarrow> bool" where
  "edges_inv n f ed \<longleftrightarrow>
     length (ed_forward ed) = n \<and> length (ed_in_degree ed) = n \<and> length (ed_consumers ed) = n \<and> length (ed_unwalked ed) = n \<and>
     (\<forall>p < n. set (ed_forward ed ! p) \<subseteq> {..<n} \<and> (\<forall>i < n. count_list (ed_forward ed ! p) i = count_list (f i) p)) \<and>
     (\<forall>i < n. ed_in_degree ed ! i = int (length (f i))) \<and>
     (\<forall>p < n. ed_consumers ed ! p = int (\<Sum>i < n. count_list (f i) p))"

lemma edge_step_inv:
  assumes inv: "edges_inv n f ed" and i: "i < n" and range: "\<And>p. index_of parent = Some p \<Longrightarrow> p < n"
  shows "\<exists>ed'. edge_step g index_of i parent ed = Ok ed' \<and>
    edges_inv n (f(i := f i @ (case index_of parent of None \<Rightarrow> [] | Some p \<Rightarrow> [p]))) ed'"
proof (cases "index_of parent")
  case None
  with inv i show ?thesis by (auto simp: edge_step_def edges_inv_def)
next
  case (Some p)
  let ?f = "f(i := f i @ [p])"
  let ?ed = "ed\<lparr>ed_forward := (ed_forward ed)[p := ed_forward ed ! p @ [i]],
    ed_in_degree := (ed_in_degree ed)[i := ed_in_degree ed ! i + 1],
    ed_consumers := (ed_consumers ed)[p := ed_consumers ed ! p + 1]\<rparr>"
  have p: "p < n" using range Some by blast
  have len: "length (ed_forward ed) = n" "length (ed_in_degree ed) = n" "length (ed_consumers ed) = n" "length (ed_unwalked ed) = n"
    and fw: "\<And>q. q < n \<Longrightarrow> set (ed_forward ed ! q) \<subseteq> {..<n}"
      "\<And>q j. q < n \<Longrightarrow> j < n \<Longrightarrow> count_list (ed_forward ed ! q) j = count_list (f j) q"
    and deg: "\<And>j. j < n \<Longrightarrow> ed_in_degree ed ! j = int (length (f j))"
    and con: "\<And>q. q < n \<Longrightarrow> ed_consumers ed ! q = int (\<Sum>j < n. count_list (f j) q)"
    using inv by (auto simp: edges_inv_def)
  have "edge_step g index_of i parent ed = Ok ?ed"
    using Some len i p by (simp add: edge_step_def)
  moreover have "edges_inv n ?f ?ed"
  proof -
    have "(\<Sum>j < n. count_list (?f j) q) = (\<Sum>j < n. count_list (f j) q) + (if p = q then 1 else 0)" for q
    proof -
      have "(\<Sum>j < n. count_list (?f j) q) = (\<Sum>j < n. count_list (f j) q + (if j = i \<and> p = q then 1 else 0))"
        by (rule sum.cong) auto
      also have "\<dots> = (\<Sum>j < n. count_list (f j) q) + (if p = q then 1 else 0)"
        using i by (simp add: sum.distrib)
      finally show ?thesis .
    qed
    then have "\<forall>q < n. ed_consumers ?ed ! q = int (\<Sum>j < n. count_list (?f j) q)"
      using con len p by (simp add: nth_list_update)
    moreover have "\<forall>q < n. set (ed_forward ?ed ! q) \<subseteq> {..<n} \<and>
        (\<forall>j < n. count_list (ed_forward ?ed ! q) j = count_list (?f j) q)"
      using fw len i p by (auto simp: nth_list_update)
    moreover have "\<forall>j < n. ed_in_degree ?ed ! j = int (length (?f j))"
      using deg len i by (auto simp: nth_list_update)
    ultimately show ?thesis using len by (simp add: edges_inv_def)
  qed
  ultimately show ?thesis using Some by auto
qed

lemma build_edges_spec:
  assumes d: "distinct reachable" and ops: "\<And>r. r \<in> set reachable \<Longrightarrow> find_op g r \<noteq> None"
    and env: "se_graph env = g" "se_reachable env = reachable" "se_index_of env = build_index reachable"
  shows "\<exists>ed. build_edges g reachable (build_index reachable) = Ok ed \<and>
    edges_inv (length reachable) (\<lambda>i. if i < length reachable then parent_indices env i else []) ed"
proof -
  define n where n: "n = length reachable"
  let ?ix = "build_index reachable"
  let ?f = "\<lambda>m i. if i < m then parent_indices env i else []"
  have range: "\<And>p r. ?ix r = Some p \<Longrightarrow> p < n" using build_index_iff [OF d] n by blast
  have "\<exists>ed. rfold (\<lambda>i ed. rbind (op_at g reachable i) (\<lambda>o1. rfold (edge_step g ?ix i) (o_parents o1) ed)) [0..<n]
        \<lparr>ed_forward = replicate n [], ed_in_degree = replicate n 0, ed_consumers = replicate n 0,
         ed_unwalked = replicate n False\<rparr> = Ok ed \<and> edges_inv n (?f (length [0..<n])) ed"
  proof (rule rfold_invariant [where P = "\<lambda>ys ed. edges_inv n (?f (length ys)) ed"])
    show "edges_inv n (?f (length [])) \<lparr>ed_forward = replicate n [], ed_in_degree = replicate n 0,
      ed_consumers = replicate n 0, ed_unwalked = replicate n False\<rparr>"
      by (simp add: edges_inv_def)
    fix ys x zs and ed :: edges
    assume split: "[0..<n] = ys @ x # zs" and inv: "edges_inv n (?f (length ys)) ed"
    have "x = [0..<n] ! length ys" "length ys < length [0..<n]" unfolding split by simp_all
    then have x: "x = length ys" "x < n" by simp_all
    obtain o1 where o1: "find_op g (reachable ! x) = Some o1" using ops x(2) n nth_mem by blast
    have at: "op_at g reachable x = Ok o1" using o1 x(2) n by (simp add: op_at_def)
    have "\<exists>ed'. rfold (edge_step g ?ix x) (o_parents o1) ed = (Ok ed' :: edges checked) \<and>
        edges_inv n ((?f (length ys))(x := List.map_filter ?ix (o_parents o1))) ed'"
    proof (rule rfold_invariant [where P = "\<lambda>qs ed. edges_inv n ((?f (length ys))(x := List.map_filter ?ix qs)) ed"])
      have "(?f (length ys))(x := List.map_filter ?ix []) = ?f (length ys)" using x by (auto simp: List.map_filter_def)
      then show "edges_inv n ((?f (length ys))(x := List.map_filter ?ix [])) ed" using inv by (simp only:)
      fix qs q rs and ed' :: edges
      assume "edges_inv n ((?f (length ys))(x := List.map_filter ?ix qs)) ed'"
      from edge_step_inv [OF this x(2) range] show "\<exists>ed''. edge_step g ?ix x q ed' = (Ok ed'' :: edges checked) \<and>
        edges_inv n ((?f (length ys))(x := List.map_filter ?ix (qs @ [q]))) ed''"
        by (simp add: map_filter_snoc)
    qed
    moreover have "(?f (length ys))(x := List.map_filter ?ix (o_parents o1)) = ?f (length (ys @ [x]))"
      using x at env by (intro ext) (simp add: parent_indices_def less_Suc_eq)
    ultimately show "\<exists>ed'. rbind (op_at g reachable x) (\<lambda>o1. rfold (edge_step g ?ix x) (o_parents o1) ed) = Ok ed' \<and>
      edges_inv n (?f (length (ys @ [x]))) ed'" using at by simp
  qed
  then show ?thesis by (simp add: build_edges_def Let_def n)
qed

lemma count_heads_spec:
  assumes "length cs = n" "\<And>p h. index_of h = Some p \<Longrightarrow> p < n"
  shows "\<exists>cs'. rfold (count_head index_of) heads cs = Ok cs' \<and> length cs' = n \<and>
    (\<forall>p < n. cs' ! p = cs ! p + int (count_list (List.map_filter index_of heads) p))"
proof (rule rfold_invariant [where P = "\<lambda>ys cs'. length cs' = n \<and>
    (\<forall>p < n. cs' ! p = cs ! p + int (count_list (List.map_filter index_of ys) p))"])
  fix ys x zs and cs' :: "int list"
  assume inv: "length cs' = n \<and> (\<forall>p < n. cs' ! p = cs ! p + int (count_list (List.map_filter index_of ys) p))"
  show "\<exists>cs''. count_head index_of x cs' = Ok cs'' \<and> length cs'' = n \<and>
    (\<forall>p < n. cs'' ! p = cs ! p + int (count_list (List.map_filter index_of (ys @ [x])) p))"
  proof (cases "index_of x")
    case (Some h)
    then have "h < n" using assms(2) by blast
    with Some inv show ?thesis by (auto simp: count_head_def map_filter_snoc nth_list_update)
  qed (use inv in \<open>simp add: count_head_def map_filter_snoc\<close>)
qed (use assms in \<open>simp add: List.map_filter_def\<close>)

subsection \<open>What an op writes\<close>

definition payload_valid :: "op \<Rightarrow> bool" where
  "payload_valid o1 \<longleftrightarrow> (case o_payload o1 of None \<Rightarrow> True
     | Some p \<Rightarrow> assignment_bytes p = [] \<or> blob_body (assignment_bytes p))"

definition payloads_valid :: "op_graph \<Rightarrow> bool" where
  "payloads_valid g \<longleftrightarrow> (\<forall>(i, o1) \<in> set (g_ops g). payload_valid o1)"

definition op_writes :: "op_graph \<Rightarrow> op_id \<Rightarrow> assignment list" where
  "op_writes g r =
     (case find_op g r of None \<Rightarrow> []
      | Some o1 \<Rightarrow> (case op_assignment_list o1 of Ok as \<Rightarrow> as | _ \<Rightarrow> []))"

definition assignment_at :: "op_graph \<Rightarrow> op_id \<Rightarrow> property_path \<Rightarrow> assignment option" where
  "assignment_at g r p = map_of (map (\<lambda>a. (a_path a, a)) (op_writes g r)) p"

definition writers_of :: "op_graph \<Rightarrow> property_path \<Rightarrow> op_id set" where
  "writers_of g p = {r. assignment_at g r p \<noteq> None}"

definition writer_record :: "op_graph \<Rightarrow> property_path list \<Rightarrow> nat \<Rightarrow> op_id \<Rightarrow> sweep_writer" where
  "writer_record g paths i w =
     (case assignment_at g w (paths ! i) of
        None \<Rightarrow> \<lparr>sw_writer = w, sw_value = [], sw_abstains = False\<rparr>
      | Some a \<Rightarrow> \<lparr>sw_writer = w, sw_value = a_value a, sw_abstains = is_abstain a\<rparr>)"

interpretation records: writer_table "writer_record g paths" for g paths
  by unfold_locales (simp add: writer_record_def split: option.split)

lemma op_assignment_list_Ok:
  assumes "payload_valid o1"
  shows "\<exists>as. op_assignment_list o1 = Ok as \<and> distinct (map a_path as)"
proof (cases "o_payload o1")
  case None
  then show ?thesis
    by (simp add: op_assignment_list_def op_assignments_def empty_cursor_def collect_assignments.simps at_end_def)
next
  case (Some p)
  show ?thesis
  proof (cases "assignment_bytes p = []")
    case True
    with Some show ?thesis
      by (simp add: op_assignment_list_def op_assignments_def empty_cursor_def collect_assignments.simps at_end_def
          cursor_from_validated_bytes_def)
  next
    case False
    with assms Some obtain as where as: "length as < 2 ^ 32" "assignments_ok None as" "assignment_bytes p = blob as"
      by (auto simp: payload_valid_def blob_body_def)
    have "holds_at (blob as) 5 (enc_assignments as)"
      by (simp add: blob_def holds_at_def del: le_bytes.simps)
    then have "collect_assignments \<lparr>ac_bytes = blob as, ac_cursor = 5, ac_remaining = length as\<rparr> =
        (Ok as :: assignment list checked)"
      using as(2) by (intro collect_assignments_enc) (auto simp: assignments_ok_def)
    moreover have "distinct (map a_path as)" using as(2) by (simp add: assignments_ok_def strict_sorted_iff)
    ultimately show ?thesis
      using op_assignments_blob [OF Some as(3,1), where 'e = unit] by (simp add: op_assignment_list_def)
  qed
qed

lemma op_writes_Ok:
  assumes "payloads_valid g" "find_op g r = Some o1"
  shows "op_assignment_list o1 = Ok (op_writes g r)" "distinct (map a_path (op_writes g r))"
proof -
  have "payload_valid o1" using assms by (auto simp: payloads_valid_def find_op_def dest: map_of_SomeD)
  from op_assignment_list_Ok [OF this] assms(2)
  show "op_assignment_list o1 = Ok (op_writes g r)" "distinct (map a_path (op_writes g r))"
    by (auto simp: op_writes_def)
qed

lemma writers_of_iff: "r \<in> writers_of g p \<longleftrightarrow> p \<in> a_path ` set (op_writes g r)"
  by (simp add: writers_of_def assignment_at_def map_of_eq_None_iff image_image)

lemma assignment_at_mem:
  "payloads_valid g \<Longrightarrow> find_op g r = Some o1 \<Longrightarrow> a \<in> set (op_writes g r) \<Longrightarrow> assignment_at g r (a_path a) = Some a"
  unfolding assignment_at_def using op_writes_Ok(2) [of g r o1]
  by (intro map_of_is_SomeI) (auto simp: comp_def)

subsection \<open>Path slots\<close>

definition table_ok :: "path_table \<Rightarrow> bool" where
  "table_ok pt \<longleftrightarrow> distinct (pt_paths pt) \<and>
     (\<forall>p i. pt_index pt p = Some i \<longleftrightarrow> i < length (pt_paths pt) \<and> pt_paths pt ! i = p)"

lemma table_ok_dom: "table_ok pt \<Longrightarrow> pt_index pt p = None \<longleftrightarrow> p \<notin> set (pt_paths pt)"
  unfolding table_ok_def by (metis in_set_conv_nth not_None_eq option.distinct(1))

lemma register_path_ok:
  assumes "table_ok pt"
  shows "table_ok (register_path filtered wanted pt p)"
    and "set (pt_paths (register_path filtered wanted pt p)) =
      set (pt_paths pt) \<union> (if filtered \<and> pp_entity p \<notin> wanted then {} else {p})"
proof -
  have "table_ok (register_path filtered wanted pt p) \<and>
      set (pt_paths (register_path filtered wanted pt p)) =
        set (pt_paths pt) \<union> (if filtered \<and> pp_entity p \<notin> wanted then {} else {p})"
  proof (cases "pt_index pt p")
    case None
    then have "p \<notin> set (pt_paths pt)" using table_ok_dom [OF assms] by blast
    with None assms show ?thesis
      by (auto simp: register_path_def table_ok_def nth_append split: if_splits)
  next
    case (Some i)
    then have "p \<in> set (pt_paths pt)" using table_ok_dom [OF assms] by (metis option.distinct(1))
    with Some assms show ?thesis by (auto simp: register_path_def)
  qed
  then show "table_ok (register_path filtered wanted pt p)"
    and "set (pt_paths (register_path filtered wanted pt p)) =
      set (pt_paths pt) \<union> (if filtered \<and> pp_entity p \<notin> wanted then {} else {p})" by simp_all
qed

lemma register_all_ok:
  "table_ok pt \<Longrightarrow> table_ok (foldl (\<lambda>pt a. register_path filtered wanted pt (f a)) pt as) \<and>
   set (pt_paths (foldl (\<lambda>pt a. register_path filtered wanted pt (f a)) pt as)) =
     set (pt_paths pt) \<union> {p \<in> f ` set as. \<not> (filtered \<and> pp_entity p \<notin> wanted)}"
  by (induction as arbitrary: pt) (auto simp: register_path_ok)

text \<open>\<open>ps i\<close> lists the paths index \<open>i\<close> registers: its assignments, or its snapshot where it is seeded.\<close>

lemma register_paths_all:
  assumes "\<And>i pt. i < length (se_reachable env) \<Longrightarrow>
    register_op env i pt = Ok (foldl (register_path (se_filtered env) (se_wanted env)) pt (ps i))"
  shows "\<exists>pt. register_paths env = Ok pt \<and> table_ok pt \<and>
    set (pt_paths pt) = {p. \<not> (se_filtered env \<and> pp_entity p \<notin> se_wanted env) \<and>
      (\<exists>i < length (se_reachable env). p \<in> set (ps i))}"
proof -
  let ?n = "length (se_reachable env)"
  let ?want = "\<lambda>p. \<not> (se_filtered env \<and> pp_entity p \<notin> se_wanted env)"
  let ?P = "\<lambda>m pt. table_ok pt \<and> set (pt_paths pt) = {p. ?want p \<and> (\<exists>i < m. p \<in> set (ps i))}"
  have "\<exists>pt. rfold (register_op env) [0..<?n] \<lparr>pt_index = Map.empty, pt_paths = []\<rparr> = Ok pt \<and> ?P (length [0..<?n]) pt"
  proof (rule rfold_invariant [where P = "\<lambda>ys. ?P (length ys)"])
    show "?P (length []) \<lparr>pt_index = Map.empty, pt_paths = []\<rparr>" by (simp add: table_ok_def)
    fix ys x zs and pt :: path_table
    assume split: "[0..<?n] = ys @ x # zs" and inv: "?P (length ys) pt"
    have "x = [0..<?n] ! length ys" "length ys < length [0..<?n]" unfolding split by simp_all
    then have x: "x = length ys" "x < ?n" by simp_all
    with register_all_ok [of pt "se_filtered env" "se_wanted env" "\<lambda>p. p" "ps x"] inv assms [OF x(2)]
    show "\<exists>pt'. register_op env x pt = Ok pt' \<and> ?P (length (ys @ [x])) pt'"
      by (auto simp: less_Suc_eq)
  qed
  then show ?thesis by (simp add: register_paths_def)
qed

lemma register_op_unseeded:
  assumes "se_graph env = g" "payloads_valid g" "se_seeded env \<noteq> Some i" "i < length (se_reachable env)"
    and "find_op g (se_reachable env ! i) \<noteq> None"
  shows "register_op env i pt =
    Ok (foldl (register_path (se_filtered env) (se_wanted env)) pt (map a_path (op_writes g (se_reachable env ! i))))"
  using assms op_writes_Ok(1) [OF assms(2)] by (auto simp: register_op_def op_at_def foldl_map)

lemma register_paths_spec:
  assumes g: "se_graph env = g" "payloads_valid g" "se_seeded env = None"
    and ops: "\<And>r. r \<in> set (se_reachable env) \<Longrightarrow> find_op g r \<noteq> None"
  shows "\<exists>pt. register_paths env = Ok pt \<and> table_ok pt \<and>
    set (pt_paths pt) = {p. \<not> (se_filtered env \<and> pp_entity p \<notin> se_wanted env) \<and>
      (\<exists>r \<in> set (se_reachable env). r \<in> writers_of g p)}"
proof -
  have "register_op env i pt = Ok (foldl (register_path (se_filtered env) (se_wanted env)) pt
      (map a_path (op_writes g (se_reachable env ! i))))" if "i < length (se_reachable env)" for i pt
    using register_op_unseeded [OF g(1,2) _ that ops] g(3) nth_mem [OF that] by simp
  from register_paths_all [of env, OF this] show ?thesis by (force simp: writers_of_iff in_set_conv_nth)
qed

end
