(* ===== verification/Materialize_Correct.thy ===== *)
theory Materialize_Correct
  imports Sweep_Setup
begin

text \<open>
  Materialization is correct: the document of a set of heads holds, for every path, the maximal writers among
  the ops reachable from the heads, less those that abstain, sorted by id.
\<close>

abbreviation (input) "slot_writers g pt i \<equiv> writers_of g (pt_paths pt ! i)"

lemma writes_law_holds:
  assumes g: "graph_ok g" "payloads_valid g" "find_op g (se_reachable env ! ix) = Some o1"
    and env: "se_seeded env \<noteq> Some ix"
    and pt: "table_ok pt" "\<And>p. p \<in> set (pt_paths pt) \<Longrightarrow> \<not> (se_filtered env \<and> pp_entity p \<notin> se_wanted env)"
      "\<And>p. \<not> (se_filtered env \<and> pp_entity p \<notin> se_wanted env) \<Longrightarrow> se_reachable env ! ix \<in> writers_of g p \<Longrightarrow> p \<in> set (pt_paths pt)"
  shows "records.writes_law g (pt_paths pt) env pt (\<lambda>i. slot_writers g pt i) ix o1"
  unfolding records.writes_law_def
proof (intro allI impI)
  fix st S U
  let ?r = "se_reachable env ! ix" and ?k = "length (pt_paths pt)" and ?wr = "writer_record g (pt_paths pt)"
  let ?as = "op_writes g ?r" and ?at = "\<lambda>ys i. pt_paths pt ! i \<in> a_path ` set ys"
  assume st: "represents ?wr ?k st S U" and fresh: "\<forall>i. ?r \<notin> S i \<union> U i"
  have d: "distinct (map a_path ?as)" by (rule op_writes_Ok(2) [OF g(2,3)])
  let ?Q = "\<lambda>ys st'. represents ?wr ?k st' (\<lambda>i. if ?at ys i then {?r} else S i) (\<lambda>i. if ?at ys i then U i \<union> S i else U i)"
  have "\<exists>st'. rfold (write_step env (pt_index pt) ?r) ?as st = Ok st' \<and> ?Q ?as st'"
  proof (rule rfold_invariant [where P = ?Q])
    show "?Q [] st" using st by simp
    fix ys a zs and st' :: sweep_state
    assume split: "?as = ys @ a # zs" and inv: "?Q ys st'"
    have a: "a \<in> set ?as" "a_path a \<notin> a_path ` set ys" using split d by auto
    show "\<exists>st''. write_step env (pt_index pt) ?r a st' = Ok st'' \<and> ?Q (ys @ [a]) st''"
    proof (cases "se_filtered env \<and> pp_entity (a_path a) \<notin> se_wanted env")
      case True
      then have "a_path a \<notin> set (pt_paths pt)" using pt(2) by blast
      then have "?at (ys @ [a]) i = ?at ys i" if "i < ?k" for i using that nth_mem by fastforce
      then have "?Q (ys @ [a]) st'" by (intro records.represents_cong [OF inv]) simp
      with True show ?thesis by (auto simp: write_step_def)
    next
      case False
      then have "a_path a \<in> set (pt_paths pt)"
        using a(1) by (intro pt(3)) (auto simp: writers_of_iff)
      then obtain j where j: "j < ?k" "pt_paths pt ! j = a_path a" by (auto simp: in_set_conv_nth)
      have "pt_index pt (a_path a) = Some j" using pt(1) j by (simp add: table_ok_def)
      then have slot: "path_slot (pt_index pt) (a_path a) = Ok j" by (simp add: path_slot_def)
      have "?wr j ?r = \<lparr>sw_writer = ?r, sw_value = a_value a, sw_abstains = is_abstain a\<rparr>"
        using assignment_at_mem [OF g(2,3) a(1)] j by (simp add: writer_record_def)
      moreover have "?r \<notin> (if ?at ys j then {?r} else S j) \<union> (if ?at ys j then U j \<union> S j else U j)"
        using a(2) j fresh by simp
      ultimately obtain st'' where st'': "apply_write j ?r (a_value a) (is_abstain a) st' = Ok st''"
        "represents ?wr ?k st'' ((\<lambda>i. if ?at ys i then {?r} else S i)(j := {?r}))
          ((\<lambda>i. if ?at ys i then U i \<union> S i else U i)(j := (if ?at ys j then U j \<union> S j else U j) \<union> (if ?at ys j then {?r} else S j)))"
        using records.represents_write [OF inv j(1)] by blast
      have at: "?at (ys @ [a]) i \<longleftrightarrow> ?at ys i \<or> i = j" if "i < ?k" for i
      proof -
        have "pt_paths pt ! i = a_path a \<longleftrightarrow> i = j"
          using that j pt(1) unfolding table_ok_def by (metis nth_eq_iff_index_eq)
        then show ?thesis by auto
      qed
      have "?Q (ys @ [a]) st''"
        by (rule records.represents_cong [OF st''(2)]) (use a(2) j at in auto)
      with st''(1) slot False show ?thesis by (auto simp: write_step_def)
    qed
  qed
  moreover have "o_id o1 = ?r" using find_op_id [OF g(1,3)] .
  ultimately obtain st' where st': "own_writes env (pt_index pt) ix o1 st = Ok st'" "?Q ?as st'"
    using env op_writes_Ok(1) [OF g(2,3)] by (auto simp: own_writes_def)
  have "?at ?as i \<longleftrightarrow> ?r \<in> slot_writers g pt i" for i by (simp add: writers_of_iff)
  with st' show "\<exists>st'. own_writes env (pt_index pt) ix o1 st = Ok st' \<and>
     represents ?wr ?k st' (\<lambda>i. if ?r \<in> slot_writers g pt i then {?r} else S i)
       (\<lambda>i. if ?r \<in> slot_writers g pt i then U i \<union> S i else U i)"
    by auto
qed

text \<open>The environment of a plain sweep: the walked ops are closed under the edges and every one is in the graph.\<close>

definition plain_env :: "op_graph \<Rightarrow> (op_id \<times> op_id) set \<Rightarrow> sweep_env \<Rightarrow> bool" where
  "plain_env g E env \<longleftrightarrow> se_graph env = g \<and> se_index_of env = build_index (se_reachable env) \<and> se_seeded env = None \<and>
     distinct (se_reachable env) \<and> acyclic E \<and>
     (\<forall>r \<in> set (se_reachable env). \<exists>o1. find_op g r = Some o1 \<and> E `` {r} = set (o_parents o1) \<inter> set (se_reachable env))"

lemma plain_env_parents:
  assumes "plain_env g E env" "ix < length (se_reachable env)"
  shows "set (parent_indices env ix) \<subseteq> {..<length (se_reachable env)}"
    and "E `` {se_reachable env ! ix} = (\<lambda>p. se_reachable env ! p) ` set (parent_indices env ix)"
    and "\<exists>o1. op_at (se_graph env) (se_reachable env) ix = Ok o1 \<and> find_op g (se_reachable env ! ix) = Some o1"
proof -
  let ?R = "se_reachable env"
  have env: "se_graph env = g" "se_index_of env = build_index ?R" "distinct ?R" using assms(1) by (simp_all add: plain_env_def)
  obtain o1 where o1: "find_op g (?R ! ix) = Some o1" "E `` {?R ! ix} = set (o_parents o1) \<inter> set ?R"
    using assms nth_mem [OF assms(2)] unfolding plain_env_def by blast
  have at: "op_at (se_graph env) ?R ix = Ok o1" using o1(1) assms(2) env by (simp add: op_at_def)
  have pi: "set (parent_indices env ix) = {j. j < length ?R \<and> ?R ! j \<in> set (o_parents o1)}"
    by (auto simp: parent_indices_def at env(2) set_map_filter build_index_iff [OF env(3)])
  show "set (parent_indices env ix) \<subseteq> {..<length ?R}" unfolding pi by auto
  show "E `` {?R ! ix} = (\<lambda>p. ?R ! p) ` set (parent_indices env ix)"
    unfolding pi o1(2) by (auto simp: image_iff) (metis in_set_conv_nth)
  show "\<exists>o1. op_at (se_graph env) ?R ix = Ok o1 \<and> find_op g (?R ! ix) = Some o1" using at o1(1) by blast
qed

lemma plain_frame:
  assumes "plain_env g E env" "graph_ok g" "payloads_valid g"
    and "table_ok pt" "set (pt_paths pt) = {p. \<not> (se_filtered env \<and> pp_entity p \<notin> se_wanted env) \<and>
      (\<exists>r \<in> set (se_reachable env). r \<in> writers_of g p)}"
  shows "records.sweep_frame g (pt_paths pt) env pt E (\<lambda>i. slot_writers g pt i) {} {}"
proof -
  have s: "se_seeded env = None" "distinct (se_reachable env)" "acyclic E" using assms(1) by (simp_all add: plain_env_def)
  have "\<exists>o1. op_at (se_graph env) (se_reachable env) ix = Ok o1 \<and>
      records.writes_law g (pt_paths pt) env pt (\<lambda>i. slot_writers g pt i) ix o1 \<and>
      set (parent_indices env ix) \<subseteq> {..<length (se_reachable env)} \<and>
      E `` {se_reachable env ! ix} = (\<lambda>p. se_reachable env ! p) ` set (parent_indices env ix)"
    if ix: "ix < length (se_reachable env)" for ix
  proof -
    note pe = plain_env_parents [OF assms(1) ix]
    obtain o1 where o1: "op_at (se_graph env) (se_reachable env) ix = Ok o1" "find_op g (se_reachable env ! ix) = Some o1"
      using pe(3) by blast
    have "records.writes_law g (pt_paths pt) env pt (\<lambda>i. slot_writers g pt i) ix o1"
      by (rule writes_law_holds [OF assms(2,3) o1(2) _ assms(4)]) (use s(1) assms(5) nth_mem [OF ix] in auto)
    then show ?thesis using o1(1) pe(1,2) by blast
  qed
  with s show ?thesis unfolding records.sweep_frame_def by simp
qed

lemma initial_sched:
  assumes "edges_inv n (\<lambda>i. if i < n then parent_indices env i else []) ed" "n = length (se_reachable env)"
  shows "sched_inv env {} \<lparr>sd_ready = sources_of (ed_in_degree ed), sd_in_degree = ed_in_degree ed, sd_processed = 0\<rparr>"
    and "forward_ok env (ed_forward ed)"
  using assms by (auto simp: sched_inv_def forward_ok_def edges_inv_def Let_def sources_of_def)

lemma initial_core:
  assumes "edges_inv n (\<lambda>i. if i < n then parent_indices env i else []) ed" and n: "n = length (se_reachable env)"
    and "length consumers = n" "\<forall>p < n. consumers ! p = ed_consumers ed ! p + int (hc p)"
  shows "records.core_inv g paths env pt E W hc {} \<lparr>sc_states = replicate n empty_state, sc_has_state = replicate n False,
    sc_live = 0, sc_consumers = consumers\<rparr>" (is "records.core_inv g paths env pt E W hc {} ?c")
proof -
  have live: "live_set n ?c = {}" by (simp add: live_set_def)
  have "consumers ! p = int (remaining env {} p + hc p)" if "p < n" for p
    using assms that by (simp add: edges_inv_def remaining_def lessThan_def)
  moreover have "records.states_ok g paths env k E W sts {} (\<lambda>_ _. {})" for k sts
    by (simp add: records.states_ok_def held_def settled_def)
  ultimately show ?thesis
    using assms(3) unfolding records.core_inv_def Let_def n [symmetric] live by (auto simp: core_lengths_def)
qed

lemma merge_heads_spec:
  assumes inv: "records.core_inv g paths env pt E W hc {..<n} core" and n: "n = length (se_reachable env)"
    and k: "k = length (pt_paths pt)" and ix: "index_of = build_index (se_reachable env)" "distinct (se_reachable env)"
    and hc: "\<And>p. hc p = count_list (List.map_filter index_of heads) p"
  shows "\<exists>final V. rfold (merge_head index_of core) heads (fresh_state k) = Ok final \<and>
    represents (writer_record g paths) k final
      (\<lambda>i. mx E (W i) (\<Union>h \<in> set heads \<inter> set (se_reachable env). ancestors E h)) V"
proof -
  note I = records.core_invD [OF inv n]
  let ?wr = "writer_record g paths" and ?L = "live_set n core"
  obtain U where U: "records.states_ok g paths env k E W (sc_states core) ?L U" using I(8) k by blast
  let ?C = "\<lambda>ys. \<Union>h \<in> set ys \<inter> set (se_reachable env). ancestors E h"
  let ?Q = "\<lambda>ys st. \<exists>V. represents ?wr k st (\<lambda>i. mx E (W i) (?C ys)) V \<and>
    (\<forall>i. settled E (W i) (insert (?C ys, V i) (held E env ?L U i)))"
  have "\<exists>final. rfold (merge_head index_of core) heads (fresh_state k) = Ok final \<and> ?Q heads final"
  proof (rule rfold_invariant [where P = ?Q])
    have "settled E (W i) (insert ({}, {}) (held E env ?L U i))" for i
      using U unfolding records.states_ok_def by (blast intro: settled_empty)
    then show "?Q [] (fresh_state k)" using records.represents_fresh [of g paths k] by auto
    fix ys h zs and st :: sweep_state
    assume split: "heads = ys @ h # zs" and Q: "?Q ys st"
    show "\<exists>st'. merge_head index_of core h st = Ok st' \<and> ?Q (ys @ [h]) st'"
    proof (cases "index_of h")
      case None
      then have "h \<notin> set (se_reachable env)" using build_index_dom [OF ix(2)] ix(1) by simp
      then have "?C (ys @ [h]) = ?C ys" by auto
      with Q None show ?thesis by (simp add: merge_head_def)
    next
      case (Some p)
      then have p: "p < n" "se_reachable env ! p = h" using build_index_iff [OF ix(2)] ix(1) n by simp_all
      then have hr: "h \<in> set (se_reachable env)" using n nth_mem by blast
      have "0 < hc p" unfolding hc split using Some by (simp add: List.map_filter_def)
      then have live: "p \<in> ?L" using I(5) [of p] I(7) [OF p(1)] p(1) by simp
      have rep: "represents ?wr k (sc_states core ! p) (\<lambda>i. mx E (W i) (ancestors E h)) (U p)"
        using U live p(2) unfolding records.states_ok_def by blast
      obtain V where V: "represents ?wr k st (\<lambda>i. mx E (W i) (?C ys)) V"
        "\<forall>i. settled E (W i) (insert (?C ys, V i) (held E env ?L U i))" using Q by blast
      obtain st' where st': "merge_into st (sc_states core ! p) = Ok st'"
        "represents ?wr k st' (\<lambda>i. mx E (W i) (?C ys \<union> ancestors E h)) (\<lambda>i. V i \<union> U p i)"
        "\<forall>i. settled E (W i) (insert (?C ys \<union> ancestors E h, V i \<union> U p i) (held E env ?L U i))"
        using records.merge_parent_step [OF V U live] p(2) by auto
      have "merge_head index_of core h st = Ok st'"
        using Some p(1) live I(1) st'(1) records.represents_cover [OF rep]
        by (simp add: merge_head_def core_lengths_def live_set_def check_def)
      moreover have "?C (ys @ [h]) = ?C ys \<union> ancestors E h" using hr by auto
      ultimately show ?thesis using st'(2,3) by auto
    qed
  qed
  then show ?thesis by blast
qed

text \<open>The values a path holds: what its maximal writers among the walked ops wrote, abstentions apart.\<close>

definition current_values :: "op_graph \<Rightarrow> (op_id \<times> op_id) set \<Rightarrow> op_id set \<Rightarrow> property_path \<Rightarrow> property_value set" where
  "current_values g E R p = {\<lparr>pv_writer = w, pv_value = a_value a\<rparr> |w a.
     w \<in> mx E (writers_of g p) R \<and> assignment_at g w p = Some a \<and> \<not> is_abstain a}"

lemma live_values_current:
  "records.live_values g paths (\<lambda>i. mx E (writers_of g (paths ! i)) R) i = current_values g E R (paths ! i)"
proof -
  have "assignment_at g w (paths ! i) \<noteq> None" if "w \<in> mx E (writers_of g (paths ! i)) R" for w
    using that by (auto simp: mx_def writers_of_def)
  then show ?thesis
    unfolding records.live_values_def current_values_def writer_record_def by force
qed

text \<open>
  The sweep as a whole, from any frame.  \<open>start\<close> says that the loop gets past the indices that are not replayed.
\<close>

lemma run_sweep_frame:
  assumes env: "se_index_of env = build_index (se_reachable env)" "distinct (se_reachable env)"
    and pt: "register_paths env = Ok pt" "distinct (pt_paths pt)"
    and fr: "records.sweep_frame g (pt_paths pt) env pt E W Z X"
    and n: "n = length (se_reachable env)"
    and ed: "edges_inv n (\<lambda>i. if i < n then parent_indices env i else []) ed"
    and sd0: "sd0 = \<lparr>sd_ready = sources_of (ed_in_degree ed), sd_in_degree = ed_in_degree ed, sd_processed = 0\<rparr>"
    and start: "\<And>core0 hc. records.core_inv g (pt_paths pt) env pt E W hc {} core0 \<Longrightarrow>
      \<exists>core sd P. sweep_loop env pt (ed_forward ed) core0 sd0 = sweep_loop env pt (ed_forward ed) core sd \<and>
        records.core_inv g (pt_paths pt) env pt E W hc P core \<and> sched_inv env P sd \<and> Z \<subseteq> P"
  shows "\<exists>d. run_sweep env ed heads = Ok (d, n) \<and> document_wf d \<and>
    (\<forall>p v. document_try_get d p = Some v \<longleftrightarrow> (\<exists>i < length (pt_paths pt). p = pt_paths pt ! i \<and>
       records.live_property g (pt_paths pt) (\<lambda>i. mx E (W i) (\<Union>h \<in> set heads \<inter> set (se_reachable env). ancestors E h)) i v))"
proof -
  let ?k = "length (pt_paths pt)" and ?R = "\<Union>h \<in> set heads \<inter> set (se_reachable env). ancestors E h"
  have rng: "\<And>p h. se_index_of env h = Some p \<Longrightarrow> p < n" using build_index_iff [OF env(2)] env(1) n by simp
  have lenc: "length (ed_consumers ed) = n" using ed by (simp add: edges_inv_def)
  obtain cs where cs: "rfold (count_head (se_index_of env)) heads (ed_consumers ed) = (Ok cs :: int list checked)" "length cs = n"
    "\<forall>p < n. cs ! p = ed_consumers ed ! p + int (count_list (List.map_filter (se_index_of env) heads) p)"
    using count_heads_spec [OF lenc, of "se_index_of env" heads] rng by blast
  let ?c = "\<lparr>sc_states = replicate n empty_state, sc_has_state = replicate n False, sc_live = 0, sc_consumers = cs\<rparr>"
  let ?hc = "\<lambda>p. count_list (List.map_filter (se_index_of env) heads) p"
  have "records.core_inv g (pt_paths pt) env pt E W ?hc {} ?c" by (rule initial_core [OF ed n cs(2,3)])
  then obtain core1 sd1 P1 where s: "sweep_loop env pt (ed_forward ed) ?c sd0 = sweep_loop env pt (ed_forward ed) core1 sd1"
    "records.core_inv g (pt_paths pt) env pt E W ?hc P1 core1" "sched_inv env P1 sd1" "Z \<subseteq> P1"
    using start by blast
  obtain core sd P where l: "sweep_loop env pt (ed_forward ed) ?c sd0 = Ok (core, sd)"
    "records.core_inv g (pt_paths pt) env pt E W ?hc P core" "sched_inv env P sd" "sd_ready sd = []" "Z \<subseteq> P"
    using records.sweep_loop_spec [OF fr initial_sched(2) [OF ed n] s(2-4)] s(1) by auto
  have P: "P = {..<n}" using records.sweep_complete [OF fr l(5,2-4)] n by simp
  have processed: "sd_processed sd = n" using l(3) P by (simp add: sched_inv_def Let_def)
  obtain final V where f: "rfold (merge_head (se_index_of env) core) heads (fresh_state ?k) = (Ok final :: sweep_state checked)"
    "represents (writer_record g (pt_paths pt)) ?k final (\<lambda>i. mx E (W i) ?R) V"
    using merge_heads_spec [OF l(2) [unfolded P] n refl env refl] by blast
  obtain d where d: "build_document (pt_paths pt) final = Ok d" "document_wf d"
    "\<forall>p v. document_try_get d p = Some v \<longleftrightarrow> (\<exists>i < ?k. p = pt_paths pt ! i \<and>
       records.live_property g (pt_paths pt) (\<lambda>i. mx E (W i) ?R) i v)"
    using records.build_document_spec [OF f(2) refl pt(2)] by blast
  have "run_sweep env ed heads = Ok (d, n)"
    using pt(1) cs(1) l(1) processed f(1) d(1) records.represents_cover [OF f(2)] n sd0
    by (simp add: run_sweep_def Let_def check_def)
  with d(2,3) show ?thesis by blast
qed

text \<open>
  The document lists exactly the current values, once the writers the sweep worked with (\<open>W\<close>) are known to have
  them as their maximal ones and every path with a value has a slot.
\<close>

lemma live_property_current:
  assumes "live_values = current_values g E R (paths ! i)"
    and "records.live_values g paths S i = live_values"
  shows "records.live_property g paths S i v \<longleftrightarrow> current_values g E R (paths ! i) \<noteq> {} \<and>
    sorted_wrt (<) (map pv_writer (rp_writers v)) \<and> set (rp_writers v) = current_values g E R (paths ! i)"
  using assms by (simp add: records.live_property_def)

lemma document_current:
  assumes d: "\<forall>p v. document_try_get d p = Some v \<longleftrightarrow> (\<exists>i < length paths. p = paths ! i \<and> records.live_property g paths S i v)"
    and live: "\<And>i. i < length paths \<Longrightarrow> records.live_values g paths S i = current_values g E R (paths ! i)"
    and want: "\<And>p. p \<in> set paths \<Longrightarrow> want p" and slots: "\<And>p. want p \<Longrightarrow> current_values g E R p \<noteq> {} \<Longrightarrow> p \<in> set paths"
  shows "document_try_get d p = Some v \<longleftrightarrow> want p \<and> current_values g E R p \<noteq> {} \<and>
    sorted_wrt (<) (map pv_writer (rp_writers v)) \<and> set (rp_writers v) = current_values g E R p"
proof -
  have "document_try_get d p = Some v \<longleftrightarrow> (\<exists>i < length paths. p = paths ! i \<and> current_values g E R p \<noteq> {} \<and>
      sorted_wrt (<) (map pv_writer (rp_writers v)) \<and> set (rp_writers v) = current_values g E R p)"
    unfolding d [rule_format] using live_property_current [OF refl live] by blast
  also have "\<dots> \<longleftrightarrow> want p \<and> current_values g E R p \<noteq> {} \<and>
      sorted_wrt (<) (map pv_writer (rp_writers v)) \<and> set (rp_writers v) = current_values g E R p"
    using want slots by (metis in_set_conv_nth)
  finally show ?thesis .
qed

lemma run_sweep_spec:
  assumes pe: "plain_env g E env" and g: "graph_ok g" "payloads_valid g"
    and ed: "edges_inv (length (se_reachable env)) (\<lambda>i. if i < length (se_reachable env) then parent_indices env i else []) ed"
    and R: "R = set (se_reachable env)" "R = (\<Union>h \<in> set heads \<inter> set (se_reachable env). ancestors E h)"
  shows "\<exists>d. run_sweep env ed heads = Ok (d, length (se_reachable env)) \<and> document_wf d \<and>
    (\<forall>p v. document_try_get d p = Some v \<longleftrightarrow> \<not> (se_filtered env \<and> pp_entity p \<notin> se_wanted env) \<and>
       current_values g E R p \<noteq> {} \<and> sorted_wrt (<) (map pv_writer (rp_writers v)) \<and>
       set (rp_writers v) = current_values g E R p)"
proof -
  have env: "se_graph env = g" "se_index_of env = build_index (se_reachable env)" "se_seeded env = None" "distinct (se_reachable env)"
    and ops: "\<And>r. r \<in> set (se_reachable env) \<Longrightarrow> find_op g r \<noteq> None"
    using pe unfolding plain_env_def by fastforce+
  obtain pt where pt: "register_paths env = Ok pt" "table_ok pt"
    "set (pt_paths pt) = {p. \<not> (se_filtered env \<and> pp_entity p \<notin> se_wanted env) \<and>
      (\<exists>r \<in> set (se_reachable env). r \<in> writers_of g p)}"
    using register_paths_spec [OF env(1) g(2) env(3) ops] by blast
  have dp: "distinct (pt_paths pt)" using pt(2) by (simp add: table_ok_def)
  obtain d where d: "run_sweep env ed heads = Ok (d, length (se_reachable env))" "document_wf d"
    "\<forall>p v. document_try_get d p = Some v \<longleftrightarrow> (\<exists>i < length (pt_paths pt). p = pt_paths pt ! i \<and>
       records.live_property g (pt_paths pt) (\<lambda>i. mx E (slot_writers g pt i) R) i v)"
    using run_sweep_frame [OF env(2,4) pt(1) dp plain_frame [OF pe g pt(2,3)] refl ed refl, of heads]
      initial_sched(1) [OF ed refl] R(2) by blast
  have "p \<in> set (pt_paths pt)" if want: "\<not> (se_filtered env \<and> pp_entity p \<notin> se_wanted env)" and ne: "current_values g E R p \<noteq> {}" for p
  proof -
    obtain w where "w \<in> mx E (writers_of g p) R" using ne by (auto simp: current_values_def)
    then show ?thesis using want R(1) pt(3) by (auto simp: mx_def)
  qed
  with pt(3) document_current [OF d(3) live_values_current, where want = "\<lambda>p. \<not> (se_filtered env \<and> pp_entity p \<notin> se_wanted env)"]
  have "document_try_get d p = Some v \<longleftrightarrow> \<not> (se_filtered env \<and> pp_entity p \<notin> se_wanted env) \<and>
       current_values g E R p \<noteq> {} \<and> sorted_wrt (<) (map pv_writer (rp_writers v)) \<and>
       set (rp_writers v) = current_values g E R p" for p v by blast
  with d(1,2) show ?thesis by blast
qed

subsection \<open>The whole function\<close>

abbreviation (input) "history g \<equiv> parent_edges g (\<lambda>_. False)"
abbreviation (input) "reached g heads \<equiv> reach_until g (\<lambda>_. False) heads"

lemma collect_wanted_set: "fst (collect_wanted entities) = set entities"
proof -
  have "fst (foldl (\<lambda>(wanted, xs) e. if e \<in> wanted then (wanted, xs) else (insert e wanted, xs @ [e])) s es) =
      fst s \<union> set es" for s :: "entity_id set \<times> entity_id list" and es
    by (induction es arbitrary: s) (auto split: if_splits)
  then show ?thesis by (simp add: collect_wanted_def)
qed

lemma sweep_env_of_simps [simp]:
  "se_graph (sweep_env_of g r es opt sd) = g" "se_reachable (sweep_env_of g r es opt sd) = r"
  "se_index_of (sweep_env_of g r es opt sd) = build_index r" "se_filtered (sweep_env_of g r es opt sd) \<longleftrightarrow> es \<noteq> []"
  "se_wanted (sweep_env_of g r es opt sd) = set es" "se_seeded (sweep_env_of g r es opt sd) = sd"
  by (simp_all add: sweep_env_of_def collect_wanted_set [symmetric] case_prod_unfold Let_def)

lemma reached_contains: "r \<in> reached g heads \<Longrightarrow> contains_op g r"
  unfolding reach_until_def by (auto elim: rtranclE simp: parent_edges_def)

lemma reached_step: "r \<in> reached g heads \<Longrightarrow> (r, p) \<in> history g \<Longrightarrow> p \<in> reached g heads"
  unfolding reach_until_def by (auto intro: rtrancl_into_rtrancl)

lemma plain_env_of:
  assumes "acyclic (history g)"
  shows "plain_env g (history g) (sweep_env_of g (collect_reachable g heads) entities options None)"
proof -
  note cr = collect_reachable_spec [of g heads]
  have "\<exists>o1. find_op g r = Some o1 \<and> history g `` {r} = set (o_parents o1) \<inter> set (collect_reachable g heads)"
    if "r \<in> set (collect_reachable g heads)" for r
  proof -
    have r: "r \<in> reached g heads" using that cr(2) by simp
    then obtain o1 where o1: "find_op g r = Some o1" using reached_contains [OF r] by (auto simp: contains_op_def)
    have "history g `` {r} = set (o_parents o1) \<inter> reached g heads"
      using reached_step [OF r] reached_contains o1 by (auto simp: parent_edges_def)
    with o1 cr(2) show ?thesis by simp
  qed
  moreover have "distinct (collect_reachable g heads)" using cr(1) by (simp add: strict_sorted_iff)
  ultimately show ?thesis using assms by (simp add: plain_env_def)
qed

lemma reached_ancestors: "reached g heads = (\<Union>h \<in> set heads \<inter> reached g heads. ancestors (history g) h)"
proof
  show "reached g heads \<subseteq> (\<Union>h \<in> set heads \<inter> reached g heads. ancestors (history g) h)"
    by (auto simp: reach_until_def ancestors_def)
  show "(\<Union>h \<in> set heads \<inter> reached g heads. ancestors (history g) h) \<subseteq> reached g heads"
    by (auto simp: reach_until_def ancestors_def intro: rtrancl_trans)
qed

lemma materialize_plain_spec:
  assumes g: "graph_ok g" "payloads_valid g" "acyclic (history g)"
  shows "\<exists>d. materialize_plain g heads entities options = Ok (d, default_stats\<lparr>ms_ops_walked := card (reached g heads)\<rparr>) \<and>
    document_wf d \<and>
    (\<forall>p v. document_try_get d p = Some v \<longleftrightarrow> (entities = [] \<or> pp_entity p \<in> set entities) \<and> rp_writers v \<noteq> [] \<and>
       sorted_wrt (<) (map pv_writer (rp_writers v)) \<and>
       set (rp_writers v) = current_values g (history g) (reached g heads) p)"
proof -
  let ?r = "collect_reachable g heads" and ?env = "sweep_env_of g (collect_reachable g heads) entities options None"
  note cr = collect_reachable_spec [of g heads]
  have dr: "distinct ?r" using cr(1) by (simp add: strict_sorted_iff)
  have ops: "\<And>r. r \<in> set ?r \<Longrightarrow> find_op g r \<noteq> None" using cr(2) reached_contains by (auto simp: contains_op_def)
  obtain ed where ed: "build_edges g ?r (build_index ?r) = Ok ed"
    "edges_inv (length ?r) (\<lambda>i. if i < length ?r then parent_indices ?env i else []) ed"
    using build_edges_spec [OF dr ops, of ?env] by auto
  have ra: "reached g heads = (\<Union>h \<in> set heads \<inter> set ?r. ancestors (history g) h)"
    unfolding cr(2) by (rule reached_ancestors)
  obtain d where d: "run_sweep ?env ed heads = Ok (d, length ?r)" "document_wf d"
    "\<forall>p v. document_try_get d p = Some v \<longleftrightarrow> (entities = [] \<or> pp_entity p \<in> set entities) \<and>
       current_values g (history g) (reached g heads) p \<noteq> {} \<and> sorted_wrt (<) (map pv_writer (rp_writers v)) \<and>
       set (rp_writers v) = current_values g (history g) (reached g heads) p"
    using run_sweep_spec [OF plain_env_of [OF g(3), of heads entities options] g(1,2), of ed "reached g heads" heads,
      unfolded sweep_env_of_simps, OF ed(2) cr(2) [symmetric] ra] by auto
  have "length ?r = card (reached g heads)" using dr cr(2) by (metis distinct_card)
  then have "materialize_plain g heads entities options = Ok (d, default_stats\<lparr>ms_ops_walked := card (reached g heads)\<rparr>)"
    using ed(1) d(1) by (simp add: materialize_plain_def Let_def)
  moreover have "current_values g (history g) (reached g heads) p \<noteq> {} \<longleftrightarrow> rp_writers v \<noteq> []"
    if "set (rp_writers v) = current_values g (history g) (reached g heads) p" for p v
    using that by (metis set_empty)
  ultimately show ?thesis using d(2,3) by metis
qed

subsection \<open>A small history\<close>

definition sample_root :: op where
  "sample_root = \<lparr>o_id = Op_id (Hash256 1 0 0 0), o_parents = [], o_payload = Some \<lparr>metadata_bytes = [0],
     assignment_bytes = blob [\<lparr>a_path = Property_path [97] [98] [99], a_value = [1, 1], a_kind = AK_set\<rparr>]\<rparr>\<rparr>"

definition sample_child :: op where
  "sample_child = \<lparr>o_id = Op_id (Hash256 2 0 0 0), o_parents = [Op_id (Hash256 1 0 0 0)], o_payload = Some \<lparr>metadata_bytes = [0],
     assignment_bytes = blob [\<lparr>a_path = Property_path [97] [98] [99], a_value = [0], a_kind = AK_abstain\<rparr>]\<rparr>\<rparr>"

definition sample_graph :: op_graph where
  "sample_graph = fst (graph_add (fst (graph_add empty_graph sample_root)) sample_child)"

lemma sample_graph_reachable: "graph_reachable sample_graph"
  unfolding sample_graph_def by (intro reachable_add reachable_empty)

lemma sample_graph_ops:
  "g_ops sample_graph = [(Op_id (Hash256 1 0 0 0), sample_root), (Op_id (Hash256 2 0 0 0), sample_child)]"
  by (simp add: sample_graph_def graph_add_def contains_op_def find_op_def empty_graph_def sample_root_def
      sample_child_def Let_def)

lemma sample_payloads_valid: "payloads_valid sample_graph"
proof -
  have "value_ok [1, 1]" unfolding value_ok_def by (rule exI [of _ "VBool True"]) (simp add: max_depth_def)
  then have "assignments_ok None [\<lparr>a_path = Property_path [97] [98] [99], a_value = [1, 1], a_kind = AK_set\<rparr>]"
    "assignments_ok None [\<lparr>a_path = Property_path [97] [98] [99], a_value = [0], a_kind = AK_abstain\<rparr>]"
    by (simp_all add: assignments_ok_def assignment_ok_def path_ok_def id_ok_def is_abstain_def of_null_def)
  then have "payload_valid sample_root" "payload_valid sample_child"
    unfolding payload_valid_def sample_root_def sample_child_def blob_body_def by force+
  then show ?thesis by (simp add: payloads_valid_def sample_graph_ops)
qed

lemma sample_history: "parent_edges sample_graph (\<lambda>_. False) = {(Op_id (Hash256 2 0 0 0), Op_id (Hash256 1 0 0 0))}"
  by (auto simp: parent_edges_def contains_op_def find_op_def sample_graph_ops sample_root_def sample_child_def split: if_splits)

lemma sample_acyclic: "acyclic (parent_edges sample_graph (\<lambda>_. False))"
  by (simp add: sample_history acyclic_insert) (simp add: acyclic_def)

subsection \<open>Properties\<close>

text \<open>
  C1.  Materialization returns the current state of a history.  On any graph built by the container's operations
  whose payloads are valid and whose parent relation has no cycle, materializing without a snapshot cache succeeds:
  no assertion fails, no index is out of range and the sweep processes every reachable op.  The result is a
  well-formed document in which a path of a wanted entity holds, in ascending writer order, exactly the values of
  its maximal non-abstaining writers among the ops reachable from the heads, and is absent if there are none;
  whether superseded writers are dropped at articulation points makes no difference.
\<close>

theorem materialize_correct:
  assumes "graph_reachable g" "payloads_valid g" "acyclic (parent_edges g (\<lambda>_. False))" "mo_cache options = None"
  shows "\<exists>d. materialize_impl g heads entities options =
      Ok (d, default_stats\<lparr>ms_ops_walked := card (reach_until g (\<lambda>_. False) heads)\<rparr>) \<and> document_wf d \<and>
    (\<forall>p v. document_try_get d p = Some v \<longleftrightarrow> (entities = [] \<or> pp_entity p \<in> set entities) \<and> rp_writers v \<noteq> [] \<and>
       sorted_wrt (<) (map pv_writer (rp_writers v)) \<and>
       set (rp_writers v) = current_values g (parent_edges g (\<lambda>_. False)) (reach_until g (\<lambda>_. False) heads) p)"
  using materialize_plain_spec [OF graph_reachable_ok [OF assms(1)] assms(2,3), of heads entities options] assms(4)
  by (simp add: materialize_impl_def)

theorem materialize_correct_witness:
  "\<exists>d. materialize_impl sample_graph [Op_id (Hash256 2 0 0 0)] [] default_options =
      Ok (d, default_stats\<lparr>ms_ops_walked := card (reach_until sample_graph (\<lambda>_. False) [Op_id (Hash256 2 0 0 0)])\<rparr>) \<and>
    document_wf d"
  using materialize_correct [OF sample_graph_reachable sample_payloads_valid sample_acyclic, of default_options
      "[Op_id (Hash256 2 0 0 0)]" "[]"]
  by (auto simp: default_options_def)

text \<open>
  C27.  The document depends only on which heads are given: their order and repetitions, the option to drop
  superseded writers, and the order and repetitions of the requested entities do not change it.
\<close>

theorem materialize_deterministic:
  assumes "graph_reachable g" "payloads_valid g" "acyclic (parent_edges g (\<lambda>_. False))"
    and "mo_cache options = None" "mo_cache options' = None" "set heads = set heads'" "set entities = set entities'"
  shows "materialize_impl g heads entities options = materialize_impl g heads' entities' options'"
proof -
  obtain d where d: "materialize_plain g heads entities options =
      Ok (d, default_stats\<lparr>ms_ops_walked := card (reached g heads)\<rparr>)" "document_wf d"
    "\<forall>p v. document_try_get d p = Some v \<longleftrightarrow> (entities = [] \<or> pp_entity p \<in> set entities) \<and> rp_writers v \<noteq> [] \<and>
       sorted_wrt (<) (map pv_writer (rp_writers v)) \<and> set (rp_writers v) = current_values g (history g) (reached g heads) p"
    using materialize_plain_spec [OF graph_reachable_ok [OF assms(1)] assms(2,3), of heads entities options] by blast
  obtain d' where d': "materialize_plain g heads' entities' options' =
      Ok (d', default_stats\<lparr>ms_ops_walked := card (reached g heads')\<rparr>)" "document_wf d'"
    "\<forall>p v. document_try_get d' p = Some v \<longleftrightarrow> (entities' = [] \<or> pp_entity p \<in> set entities') \<and> rp_writers v \<noteq> [] \<and>
       sorted_wrt (<) (map pv_writer (rp_writers v)) \<and> set (rp_writers v) = current_values g (history g) (reached g heads') p"
    using materialize_plain_spec [OF graph_reachable_ok [OF assms(1)] assms(2,3), of heads' entities' options'] by blast
  have R: "reached g heads = reached g heads'" using assms(6) by (simp add: reach_until_def)
  have E: "entities = [] \<longleftrightarrow> entities' = []" using assms(7) by (metis set_empty)
  have "document_try_get d p = Some v \<longleftrightarrow> document_try_get d' p = Some v" for p v
    unfolding d(3) [rule_format] d'(3) [rule_format] R E assms(7) ..
  then have "document_try_get d p = document_try_get d' p" for p
    by (metis not_None_eq)
  then have "d = d'" by (rule document_ext [OF d(2) d'(2)])
  with d(1) d'(1) R assms(4,5) show ?thesis by (simp add: materialize_impl_def)
qed

theorem materialize_deterministic_witness:
  "materialize_impl sample_graph [Op_id (Hash256 1 0 0 0), Op_id (Hash256 2 0 0 0)] [[97], [98]] \<lparr>mo_drop_superseded = True, mo_cache = None\<rparr> =
   materialize_impl sample_graph [Op_id (Hash256 2 0 0 0), Op_id (Hash256 1 0 0 0)] [[98], [97]] \<lparr>mo_drop_superseded = False, mo_cache = None\<rparr>"
  by (rule materialize_deterministic [OF sample_graph_reachable sample_payloads_valid sample_acyclic]) auto

end
