(* ===== verification/Change_Set.thy ===== *)
theory Change_Set
  imports Ids Search Sort Vectors
begin

text \<open>
  Model of \<^verbatim>\<open>versioned-document/change_set.hh\<close> and \<^verbatim>\<open>change_set.cc\<close>: dirty path sets with a granularity, their
  builder, coarsening and union.

  An entry below the granularity holds default ids, which are the empty byte strings.  \<open>covered\<close> is the set
  of paths a set declares dirty; it is what every operation is specified by.
\<close>

datatype change_granularity = CG_property | CG_component | CG_entity

definition granularity_rank :: "change_granularity \<Rightarrow> nat" where
  "granularity_rank g = (case g of CG_property \<Rightarrow> 0 | CG_component \<Rightarrow> 1 | CG_entity \<Rightarrow> 2)"

definition blanked :: "property_path \<Rightarrow> change_granularity \<Rightarrow> property_path" where
  "blanked path granularity =
     (case granularity of
        CG_component \<Rightarrow> Property_path (pp_entity path) (pp_component path) []
      | CG_entity \<Rightarrow> Property_path (pp_entity path) [] []
      | CG_property \<Rightarrow> path)"

definition coarser_of :: "change_granularity \<Rightarrow> change_granularity \<Rightarrow> change_granularity" where
  "coarser_of a b = (if granularity_rank a > granularity_rank b then a else b)"

record change_set =
  cs_paths :: "property_path list"
  cs_granularity :: change_granularity
  cs_everything :: bool

definition empty_change_set :: change_set where
  "empty_change_set = \<lparr>cs_paths = [], cs_granularity = CG_property, cs_everything = False\<rparr>"

definition change_set_everything :: change_set where
  "change_set_everything = empty_change_set\<lparr>cs_everything := True\<rparr>"

definition change_set_is_empty :: "change_set \<Rightarrow> bool" where
  "change_set_is_empty s \<longleftrightarrow> cs_paths s = [] \<and> \<not> cs_everything s"

definition covers :: "change_set \<Rightarrow> property_path \<Rightarrow> bool" where
  "covers s path =
     (if cs_everything s then True
      else find_in_sorted (cs_paths s) (blanked path (cs_granularity s)) (\<lambda>a b. path_compare_bytes a b < 0) \<noteq> None)"

definition covers_entity :: "change_set \<Rightarrow> entity_id \<Rightarrow> bool" where
  "covers_entity s entity =
     (if cs_everything s then True
      else
        (let key = Property_path entity [] [];
             i = first_at_least_in_sorted (cs_paths s) key (\<lambda>a b. path_compare_bytes a b < 0) in
         i < length (cs_paths s) \<and> pp_entity (cs_paths s ! i) = entity))"

fun collect_entities :: "entity_id list \<Rightarrow> property_path list \<Rightarrow> entity_id list" where
  "collect_entities out [] = out"
| "collect_entities out (p # ps) =
     collect_entities (if out = [] \<or> last out \<noteq> pp_entity p then out @ [pp_entity p] else out) ps"

definition change_set_entities :: "change_set \<Rightarrow> entity_id list checked" where
  "change_set_entities s = rbind (check (\<not> cs_everything s)) (\<lambda>_. Ok (collect_entities [] (cs_paths s)))"

text \<open>\<^verbatim>\<open>impl_normalize\<close>, in place: \<open>kept\<close> entries are final, the rest is still to be read.\<close>

function normalize_loop :: "change_granularity \<Rightarrow> property_path list \<Rightarrow> nat \<Rightarrow> nat \<Rightarrow> property_path list" where
  "normalize_loop g paths i kept =
     (if i < length paths then
        (let key = blanked (paths ! i) g in
         if kept > 0 \<and> paths ! (kept - 1) = key then normalize_loop g paths (i + 1) kept
         else normalize_loop g (paths[kept := key]) (i + 1) (kept + 1))
      else take kept paths)"
  by pat_completeness auto
termination
  by (relation "measure (\<lambda>(g, paths, i, kept). length paths - i)") auto

declare normalize_loop.simps [simp del]

definition impl_normalize :: "change_set \<Rightarrow> change_set" where
  "impl_normalize s = s\<lparr>cs_paths := normalize_loop (cs_granularity s) (cs_paths s) 0 0\<rparr>"

definition coarsen_to :: "change_set \<Rightarrow> change_granularity \<Rightarrow> change_set checked" where
  "coarsen_to s granularity =
     rbind (check (granularity_rank granularity \<ge> granularity_rank (cs_granularity s))) (\<lambda>_.
       if granularity = cs_granularity s then Ok s
       else Ok (impl_normalize (s\<lparr>cs_granularity := granularity\<rparr>)))"

definition push_path :: "property_path list \<Rightarrow> property_path \<Rightarrow> property_path list" where
  "push_path merged key = (if merged = [] \<or> last merged \<noteq> key then merged @ [key] else merged)"

text \<open>The two cursors of the merge are the suffixes they have not passed yet.\<close>

fun union_merge ::
  "change_granularity \<Rightarrow> property_path list \<Rightarrow> property_path list \<Rightarrow> property_path list \<Rightarrow> property_path list" where
  "union_merge g (x # xs) (y # ys) merged =
     (let key = blanked y g; order = path_compare_bytes x key in
      if order \<le> 0
      then union_merge g xs (if order = 0 then ys else y # ys) (push_path merged x)
      else union_merge g (x # xs) ys (push_path merged key))"
| "union_merge g (x # xs) [] merged = union_merge g xs [] (push_path merged x)"
| "union_merge g [] (y # ys) merged = union_merge g [] ys (push_path merged (blanked y g))"
| "union_merge g [] [] merged = merged"

definition union_with :: "change_set \<Rightarrow> change_set \<Rightarrow> change_set checked" where
  "union_with s rhs =
     (if cs_everything s then Ok s
      else if cs_everything rhs then Ok change_set_everything
      else rbind (coarsen_to s (coarser_of (cs_granularity s) (cs_granularity rhs))) (\<lambda>s.
        Ok (s\<lparr>cs_paths := union_merge (cs_granularity s) (cs_paths s) (cs_paths rhs) []\<rparr>)))"

definition change_set_clear :: "change_set \<Rightarrow> change_set" where
  "change_set_clear s = empty_change_set"

subsection \<open>The builder\<close>

record change_set_builder =
  cb_paths :: "property_path list"
  cb_granularity :: change_granularity
  cb_everything :: bool

definition new_change_set_builder :: "change_granularity \<Rightarrow> change_set_builder" where
  "new_change_set_builder granularity = \<lparr>cb_paths = [], cb_granularity = granularity, cb_everything = False\<rparr>"

definition builder_add :: "change_set_builder \<Rightarrow> property_path \<Rightarrow> change_set_builder" where
  "builder_add b path = (if cb_everything b then b else b\<lparr>cb_paths := cb_paths b @ [path]\<rparr>)"

definition builder_add_entity :: "change_set_builder \<Rightarrow> entity_id \<Rightarrow> change_set_builder" where
  "builder_add_entity b entity =
     (if cb_everything b then b
      else b\<lparr>cb_granularity := CG_entity, cb_paths := cb_paths b @ [Property_path entity [] []]\<rparr>)"

definition builder_add_everything :: "change_set_builder \<Rightarrow> change_set_builder" where
  "builder_add_everything b = b\<lparr>cb_everything := True, cb_paths := []\<rparr>"

definition builder_is_empty :: "change_set_builder \<Rightarrow> bool" where
  "builder_is_empty b \<longleftrightarrow> cb_paths b = [] \<and> \<not> cb_everything b"

definition builder_clear :: "change_set_builder \<Rightarrow> change_set_builder" where
  "builder_clear b = b\<lparr>cb_paths := [], cb_everything := False\<rparr>"

text \<open>\<^verbatim>\<open>build() &&\<close>: the finished set and the builder left behind.\<close>

definition build_change_set :: "change_set_builder \<Rightarrow> change_set \<times> change_set_builder" where
  "build_change_set b =
     (let out = empty_change_set\<lparr>cs_granularity := cb_granularity b\<rparr> in
      if cb_everything b then (out\<lparr>cs_everything := True\<rparr>, b\<lparr>cb_everything := False\<rparr>)
      else
        (impl_normalize (out\<lparr>cs_paths := cc_sort (\<lambda>a b. path_compare_bytes a b < 0) (cb_paths b)\<rparr>),
         b\<lparr>cb_paths := []\<rparr>))"

subsection \<open>Blanking\<close>

lemma less_path_iff:
  "Property_path e c p < Property_path e' c' p' \<longleftrightarrow> e < e' \<or> e = e' \<and> (c < c' \<or> c = c' \<and> p < p')"
  unfolding less_property_path_def path_compare_key path_key_def by (auto simp: le_less)

lemma le_path_iff:
  "Property_path e c p \<le> Property_path e' c' p' \<longleftrightarrow> e < e' \<or> e = e' \<and> (c < c' \<or> c = c' \<and> p \<le> p')"
  by (auto simp: le_less less_path_iff)

lemma blanked_mono: "p \<le> q \<Longrightarrow> blanked p g \<le> blanked q g"
  by (cases p; cases q; cases g) (auto simp: blanked_def le_path_iff)

lemma blanked_blanked: "granularity_rank g \<le> granularity_rank g' \<Longrightarrow> blanked (blanked p g) g' = blanked p g'"
  by (cases g; cases g') (auto simp: blanked_def granularity_rank_def)

lemma blanked_idem [simp]: "blanked (blanked p g) g = blanked p g"
  by (simp add: blanked_blanked)

lemma pp_entity_blanked [simp]: "pp_entity (blanked p g) = pp_entity p"
  by (cases g) (auto simp: blanked_def)

lemma entity_key_least: "Property_path (pp_entity p) [] [] \<le> p"
  by (cases p) (simp add: le_path_iff le_less [symmetric])

lemma rank_coarser: "granularity_rank a \<le> granularity_rank (coarser_of a b)"
  "granularity_rank b \<le> granularity_rank (coarser_of a b)"
  by (auto simp: coarser_of_def)

subsection \<open>Normalizing and merging\<close>

lemma push_path_spec:
  assumes "sorted_wrt (<) merged" "\<forall>m \<in> set merged. m \<le> key"
  shows "sorted_wrt (<) (push_path merged key)" "set (push_path merged key) = insert key (set merged)"
proof -
  have "sorted_wrt (<) (push_path merged key) \<and> set (push_path merged key) = insert key (set merged)"
  proof (cases merged rule: rev_cases)
    case (snoc ms m)
    show ?thesis
    proof (cases "m = key")
      case True
      with snoc assms(1) show ?thesis by (auto simp: push_path_def)
    next
      case False
      then have "m < key" using assms(2) snoc by auto
      with False assms(1) snoc show ?thesis by (auto simp: push_path_def sorted_wrt_append intro: less_trans)
    qed
  qed (simp add: push_path_def)
  then show "sorted_wrt (<) (push_path merged key)" "set (push_path merged key) = insert key (set merged)" by simp_all
qed

lemma foldl_push_spec:
  assumes "sorted_wrt (<) merged" "sorted keys" "\<forall>m \<in> set merged. \<forall>k \<in> set keys. m \<le> k"
  shows "sorted_wrt (<) (foldl push_path merged keys) \<and> set (foldl push_path merged keys) = set merged \<union> set keys"
  using assms
proof (induction keys arbitrary: merged)
  case (Cons k keys)
  have "\<forall>m \<in> set merged. m \<le> k" using Cons.prems(3) by simp
  note p = push_path_spec [OF Cons.prems(1) this]
  have "sorted_wrt (<) (foldl push_path (push_path merged k) keys) \<and>
      set (foldl push_path (push_path merged k) keys) = set (push_path merged k) \<union> set keys"
    by (rule Cons.IH [OF p(1)]) (use Cons.prems p(2) in auto)
  then show ?case using p(2) by auto
qed simp

lemma normalize_loop_eq:
  assumes "kept \<le> i" "i \<le> length paths"
  shows "normalize_loop g paths i kept = foldl push_path (take kept paths) (map (\<lambda>p. blanked p g) (drop i paths))"
  using assms
proof (induction g paths i kept rule: normalize_loop.induct)
  case (1 g paths i kept)
  show ?case
  proof (cases "i < length paths")
    case True
    let ?key = "blanked (paths ! i) g"
    have drop: "drop i paths = paths ! i # drop (Suc i) paths" using True by (simp add: Cons_nth_drop_Suc)
    show ?thesis
    proof (cases "kept > 0 \<and> paths ! (kept - 1) = ?key")
      case dup: True
      then obtain k where "kept = Suc k" by (cases kept) auto
      then have "last (take kept paths) = paths ! (kept - 1)" "take kept paths \<noteq> []"
        using True "1.prems" by (auto simp: take_Suc_conv_app_nth)
      then have "push_path (take kept paths) ?key = take kept paths" using dup by (simp add: push_path_def)
      then show ?thesis
        using "1.IH"(1) [OF True refl dup] "1.prems" True dup drop by (subst normalize_loop.simps) simp
    next
      case new: False
      have "take (Suc kept) (paths[kept := ?key]) = take kept paths @ [?key]"
        using True "1.prems" by (simp add: take_Suc_conv_app_nth)
      moreover have "push_path (take kept paths) ?key = take kept paths @ [?key]"
      proof (cases kept)
        case (Suc k)
        then show ?thesis using new True "1.prems" by (auto simp: push_path_def take_Suc_conv_app_nth)
      qed (simp add: push_path_def)
      moreover have "drop (Suc i) (paths[kept := ?key]) = drop (Suc i) paths" using "1.prems" by simp
      ultimately show ?thesis
        using "1.IH"(2) [OF True refl new] "1.prems" True new drop by (subst normalize_loop.simps) (auto simp: Let_def)
    qed
  next
    case False
    with "1.prems" show ?thesis by (subst normalize_loop.simps) simp
  qed
qed

lemma normalize_loop_spec:
  assumes "sorted paths"
  shows "sorted_wrt (<) (normalize_loop g paths 0 0) \<and>
    set (normalize_loop g paths 0 0) = (\<lambda>p. blanked p g) ` set paths"
proof -
  have "sorted (map (\<lambda>p. blanked p g) paths)"
    using assms by (auto simp: sorted_map intro: blanked_mono sorted_wrt_mono_rel)
  with foldl_push_spec [of "[]" "map (\<lambda>p. blanked p g) paths"] normalize_loop_eq [of 0 0 paths g] show ?thesis by simp
qed

text \<open>The merge pushes the keys of both sides in order.\<close>

fun merge_keys :: "property_path list \<Rightarrow> property_path list \<Rightarrow> property_path list" where
  "merge_keys (x # xs) (y # ys) =
     (if x \<le> y then x # merge_keys xs (if x = y then ys else y # ys) else y # merge_keys (x # xs) ys)"
| "merge_keys [] ys = ys"
| "merge_keys xs [] = xs"

lemma set_merge_keys: "set (merge_keys xs ys) = set xs \<union> set ys"
  by (induction xs ys rule: merge_keys.induct) auto

lemma sorted_merge_keys: "sorted xs \<Longrightarrow> sorted ys \<Longrightarrow> sorted (merge_keys xs ys)"
proof (induction xs ys rule: merge_keys.induct)
  case (1 x xs y ys)
  then show ?case by (cases "x = y") (auto simp: set_merge_keys not_le less_imp_le intro: order_trans)
qed auto

lemma union_merge_eq: "union_merge g xs ys merged = foldl push_path merged (merge_keys xs (map (\<lambda>p. blanked p g) ys))"
proof (induction g xs ys merged rule: union_merge.induct)
  case (1 g x xs y ys merged)
  have o: "path_compare_bytes a b \<le> 0 \<longleftrightarrow> a \<le> b" for a b by (simp add: not_less [symmetric])
  show ?case
    using "1.IH" [OF refl refl] unfolding o by (cases "x = blanked y g") (simp_all add: o Let_def)
next
  case (2 g x xs merged)
  then show ?case by (cases xs) simp_all
qed simp_all

lemma union_merge_spec:
  assumes "sorted_wrt (<) xs" "sorted ys"
  shows "sorted_wrt (<) (union_merge g xs ys []) \<and>
    set (union_merge g xs ys []) = set xs \<union> (\<lambda>p. blanked p g) ` set ys"
proof -
  have "sorted (merge_keys xs (map (\<lambda>p. blanked p g) ys))"
    using assms by (intro sorted_merge_keys)
      (auto simp: strict_sorted_iff sorted_map intro: blanked_mono sorted_wrt_mono_rel)
  with foldl_push_spec [of "[]"] show ?thesis by (simp add: union_merge_eq set_merge_keys)
qed

subsection \<open>The invariant and what a set covers\<close>

definition change_set_ok :: "change_set \<Rightarrow> bool" where
  "change_set_ok s \<longleftrightarrow> sorted_wrt (<) (cs_paths s) \<and> (\<forall>p \<in> set (cs_paths s). blanked p (cs_granularity s) = p) \<and>
     (cs_everything s \<longrightarrow> cs_paths s = [])"

definition covered :: "change_set \<Rightarrow> property_path set" where
  "covered s = {p. cs_everything s \<or> blanked p (cs_granularity s) \<in> set (cs_paths s)}"

lemma covers_iff: "change_set_ok s \<Longrightarrow> covers s p \<longleftrightarrow> p \<in> covered s"
  by (auto simp: covers_def covered_def change_set_ok_def find_in_sorted_None)

lemma covers_entity_iff:
  assumes ok: "change_set_ok s"
  shows "covers_entity s e \<longleftrightarrow> (\<exists>p \<in> covered s. pp_entity p = e)"
proof (cases "cs_everything s")
  case True
  then show ?thesis by (auto simp: covers_entity_def covered_def intro!: exI [of _ "Property_path e [] []"])
next
  case False
  let ?xs = "cs_paths s" and ?key = "Property_path e [] []"
  let ?i = "first_at_least_in_sorted ?xs ?key (<)"
  have s: "sorted_wrt (<) ?xs" using ok by (simp add: change_set_ok_def)
  have sp: "splits_at (\<lambda>x. x < ?key) ?xs 0 (length ?xs) ?i" by (rule first_at_least_spec [OF s])
  have "?i < length ?xs \<and> pp_entity (?xs ! ?i) = e" if p: "p \<in> set ?xs" "pp_entity p = e" for p
  proof -
    obtain j where j: "j < length ?xs" "?xs ! j = p" using p(1) by (auto simp: in_set_conv_nth)
    have "\<not> p < ?key" using entity_key_least [of p] p(2) by (simp add: not_less)
    then have "\<not> j < ?i" using sp j by (auto simp: splits_at_def)
    then have "?i \<le> j" by simp
    then have i: "?i < length ?xs" "?xs ! ?i \<le> p"
      using j s by (auto simp: sorted_wrt_iff_nth_less le_less)
    have "?key \<le> ?xs ! ?i" using sp i(1) by (auto simp: splits_at_def not_less)
    then have "pp_entity (?xs ! ?i) = e"
      using i(2) p(2) by (cases "?xs ! ?i"; cases p) (auto simp: le_path_iff)
    with i(1) show ?thesis by simp
  qed
  moreover have "blanked (?xs ! ?i) (cs_granularity s) \<in> set ?xs" if "?i < length ?xs"
    using that ok nth_mem [OF that] by (auto simp: change_set_ok_def)
  moreover have "\<exists>p \<in> set ?xs. pp_entity p = e" if "p \<in> covered s" "pp_entity p = e" for p
    using that False by (intro bexI [of _ "blanked p (cs_granularity s)"]) (auto simp: covered_def)
  ultimately show ?thesis
    using False by (auto simp: covers_entity_def covered_def Let_def)
qed

lemma change_set_ok_empty: "change_set_ok empty_change_set" "change_set_ok change_set_everything"
  by (simp_all add: change_set_ok_def empty_change_set_def change_set_everything_def)

lemma build_change_set_spec:
  "change_set_ok (fst (build_change_set b))"
  "covered (fst (build_change_set b)) =
    {p. cb_everything b \<or> (\<exists>q \<in> set (cb_paths b). blanked p (cb_granularity b) = blanked q (cb_granularity b))}"
proof -
  have "sorted (cc_sort (<) (cb_paths b))" by (simp add: cc_sort_eq_sort)
  note n = normalize_loop_spec [OF this, of "cb_granularity b"]
  show "change_set_ok (fst (build_change_set b))"
    using n by (auto simp: build_change_set_def change_set_ok_def impl_normalize_def empty_change_set_def Let_def)
  show "covered (fst (build_change_set b)) =
    {p. cb_everything b \<or> (\<exists>q \<in> set (cb_paths b). blanked p (cb_granularity b) = blanked q (cb_granularity b))}"
    using n by (auto simp: build_change_set_def covered_def impl_normalize_def empty_change_set_def Let_def image_iff)
qed

text \<open>The paths a coarser reading of a set of paths declares dirty.\<close>

definition widened :: "change_granularity \<Rightarrow> property_path set \<Rightarrow> property_path set" where
  "widened g P = {p. \<exists>q \<in> P. blanked p g = blanked q g}"

lemma widened_superset: "P \<subseteq> widened g P"
  by (auto simp: widened_def)

lemma widened_Un: "widened g (P \<union> Q) = widened g P \<union> widened g Q"
  by (auto simp: widened_def)

lemma covered_widened:
  assumes "change_set_ok s" "granularity_rank (cs_granularity s) \<le> granularity_rank g" "\<not> cs_everything s"
  shows "widened g (covered s) = {p. blanked p g \<in> (\<lambda>q. blanked q g) ` set (cs_paths s)}"
proof -
  have "q \<in> covered s" if "q \<in> set (cs_paths s)" for q
    using that assms(1) by (auto simp: covered_def change_set_ok_def)
  moreover have "\<exists>r \<in> set (cs_paths s). blanked q g = blanked r g" if "q \<in> covered s" for q
    using that assms(2,3) blanked_blanked [of "cs_granularity s" g q]
    by (intro bexI [of _ "blanked q (cs_granularity s)"]) (auto simp: covered_def)
  ultimately show ?thesis by (auto simp: widened_def image_iff)
qed

lemma covered_self: "change_set_ok s \<Longrightarrow> widened (cs_granularity s) (covered s) = covered s"
  by (auto simp: widened_def covered_def)

lemma coarsen_to_spec:
  assumes ok: "change_set_ok s" and g: "granularity_rank (cs_granularity s) \<le> granularity_rank g"
  shows "\<exists>s'. coarsen_to s g = Ok s' \<and> change_set_ok s' \<and> cs_granularity s' = g \<and>
    cs_everything s' = cs_everything s \<and> covered s' = widened g (covered s) \<and>
    (\<not> cs_everything s \<longrightarrow> set (cs_paths s') = (\<lambda>q. blanked q g) ` set (cs_paths s))"
proof (cases "g = cs_granularity s")
  case True
  with ok show ?thesis
    by (auto simp: coarsen_to_def check_def covered_self change_set_ok_def image_iff)
next
  case False
  have "sorted (cs_paths s)" using ok by (auto simp: change_set_ok_def strict_sorted_iff)
  note n = normalize_loop_spec [OF this, of g]
  let ?s = "impl_normalize (s\<lparr>cs_granularity := g\<rparr>)"
  have Ok: "coarsen_to s g = Ok ?s" using False g by (simp add: coarsen_to_def check_def)
  have fields: "cs_granularity ?s = g" "cs_everything ?s = cs_everything s" "cs_paths ?s = normalize_loop g (cs_paths s) 0 0"
    by (simp_all add: impl_normalize_def)
  have "normalize_loop g [] 0 0 = []" by (simp add: normalize_loop.simps)
  then have ok': "change_set_ok ?s" using n ok by (auto simp: change_set_ok_def fields)
  have "covered ?s = widened g (covered s)"
  proof (cases "cs_everything s")
    case True
    then show ?thesis by (auto simp: covered_def fields widened_def)
  next
    case False
    show ?thesis unfolding covered_widened [OF ok g False] using False n by (simp add: covered_def fields)
  qed
  with Ok ok' fields n show ?thesis by auto
qed

lemma union_with_spec:
  assumes "change_set_ok a" "change_set_ok b"
  shows "\<exists>c. union_with a b = Ok c \<and> change_set_ok c \<and>
    covered c = widened (coarser_of (cs_granularity a) (cs_granularity b)) (covered a \<union> covered b)"
proof -
  let ?g = "coarser_of (cs_granularity a) (cs_granularity b)"
  consider "cs_everything a" | "\<not> cs_everything a" "cs_everything b" | "\<not> cs_everything a" "\<not> cs_everything b" by blast
  then show ?thesis
  proof cases
    case 1
    then have "union_with a b = Ok a" "covered a = UNIV" by (auto simp: union_with_def covered_def)
    with assms(1) show ?thesis by (auto simp: widened_def)
  next
    case 2
    then have "union_with a b = Ok change_set_everything" "covered b = UNIV" by (auto simp: union_with_def covered_def)
    moreover have "covered change_set_everything = UNIV" by (simp add: covered_def change_set_everything_def)
    ultimately show ?thesis using change_set_ok_empty(2) by (auto simp: widened_def)
  next
    case 3
    obtain s where s: "coarsen_to a ?g = Ok s" "change_set_ok s" "cs_granularity s = ?g" "cs_everything s = cs_everything a"
      "set (cs_paths s) = (\<lambda>q. blanked q ?g) ` set (cs_paths a)"
      using coarsen_to_spec [OF assms(1) rank_coarser(1)] 3(1) by blast
    let ?c = "s\<lparr>cs_paths := union_merge ?g (cs_paths s) (cs_paths b) []\<rparr>"
    have "sorted_wrt (<) (cs_paths s)" "sorted (cs_paths b)"
      using s(2) assms(2) by (auto simp: change_set_ok_def strict_sorted_iff)
    note m = union_merge_spec [OF this, of ?g]
    have "union_with a b = Ok ?c" using 3 s(1,3) by (simp add: union_with_def)
    moreover have "change_set_ok ?c" using m s 3(1) by (auto simp: change_set_ok_def)
    moreover have "covered ?c = widened ?g (covered a \<union> covered b)"
      unfolding widened_Un covered_widened [OF assms(1) rank_coarser(1) 3(1)] covered_widened [OF assms(2) rank_coarser(2) 3(2)]
      using m s 3(1) by (auto simp: covered_def)
    ultimately show ?thesis by blast
  qed
qed

lemma collect_entities_spec:
  assumes "sorted (out @ map pp_entity ps)" "sorted_wrt (<) out"
  shows "sorted_wrt (<) (collect_entities out ps) \<and> set (collect_entities out ps) = set out \<union> pp_entity ` set ps"
  using assms
proof (induction out ps rule: collect_entities.induct)
  case (2 out p ps)
  let ?out = "if out = [] \<or> last out \<noteq> pp_entity p then out @ [pp_entity p] else out"
  have "sorted_wrt (<) ?out \<and> sorted (?out @ map pp_entity ps) \<and> set ?out = insert (pp_entity p) (set out)"
  proof (cases out rule: rev_cases)
    case (snoc xs x)
    have "x \<le> pp_entity p" using "2.prems"(1) snoc by (simp add: sorted_append)
    with snoc "2.prems" show ?thesis by (auto simp: sorted_append sorted_wrt_append intro: less_le_trans)
  qed (use "2.prems" in simp)
  with "2.IH" show ?case by auto
qed simp

lemma pp_entity_mono: "p \<le> q \<Longrightarrow> pp_entity p \<le> pp_entity q"
  by (cases p; cases q) (auto simp: le_path_iff)

subsection \<open>Every change set is canonical\<close>

text \<open>The sets a program can hold: finished by a builder, or composed from others.\<close>

inductive change_set_reachable :: "change_set \<Rightarrow> bool" where
  cs_default: "change_set_reachable empty_change_set"
| cs_all: "change_set_reachable change_set_everything"
| cs_built: "change_set_reachable (fst (build_change_set b))"
| cs_coarsened: "change_set_reachable s \<Longrightarrow> coarsen_to s g = Ok s' \<Longrightarrow> change_set_reachable s'"
| cs_united: "change_set_reachable a \<Longrightarrow> change_set_reachable b \<Longrightarrow> union_with a b = Ok c \<Longrightarrow> change_set_reachable c"
| cs_cleared: "change_set_reachable s \<Longrightarrow> change_set_reachable (change_set_clear s)"

lemma coarsen_to_Ok_rank: "coarsen_to s g = Ok s' \<Longrightarrow> granularity_rank (cs_granularity s) \<le> granularity_rank g"
  by (auto simp: coarsen_to_def check_def split: if_splits)

lemma change_set_reachable_ok: "change_set_reachable s \<Longrightarrow> change_set_ok s"
proof (induction rule: change_set_reachable.induct)
  case (cs_coarsened s g s')
  with coarsen_to_spec [OF cs_coarsened.IH coarsen_to_Ok_rank [OF cs_coarsened.hyps(2)]] show ?case by auto
next
  case (cs_united a b c)
  with union_with_spec [OF cs_united.IH] show ?case by auto
qed (simp_all add: change_set_ok_empty build_change_set_spec change_set_clear_def)

text \<open>
  C21.  A change set always answers from its canonical form.  For every set a program can hold, the entries are
  strictly sorted, blank below the granularity and absent when the set means everything; so the binary search
  of \<open>covers\<close> is exact, and \<open>covers_entity\<close> holds exactly when some path of that entity is covered.
\<close>

theorem change_set_canonical:
  assumes "change_set_reachable s"
  shows "sorted_wrt (<) (cs_paths s) \<and> (\<forall>p \<in> set (cs_paths s). blanked p (cs_granularity s) = p) \<and>
    (cs_everything s \<longrightarrow> cs_paths s = []) \<and>
    (covers s p \<longleftrightarrow> cs_everything s \<or> blanked p (cs_granularity s) \<in> set (cs_paths s)) \<and>
    (covers_entity s e \<longleftrightarrow> (\<exists>q. pp_entity q = e \<and> covers s q))"
  using change_set_reachable_ok [OF assms] covers_iff [OF change_set_reachable_ok [OF assms]]
    covers_entity_iff [OF change_set_reachable_ok [OF assms], of e]
  unfolding change_set_ok_def covered_def by auto

theorem change_set_canonical_witness:
  "covers_entity (fst (build_change_set (builder_add (new_change_set_builder CG_property) (Property_path [97] [98] [99])))) [97] =
   (\<exists>q. pp_entity q = [97] \<and>
     covers (fst (build_change_set (builder_add (new_change_set_builder CG_property) (Property_path [97] [98] [99])))) q)"
  using change_set_canonical [OF cs_built, of _ "Property_path [97] [98] [99]" "[97]"] by blast

inductive builder_reachable :: "change_set_builder \<Rightarrow> bool" where
  cb_new: "builder_reachable (new_change_set_builder g)"
| cb_add: "builder_reachable b \<Longrightarrow> builder_reachable (builder_add b p)"
| cb_add_entity: "builder_reachable b \<Longrightarrow> builder_reachable (builder_add_entity b e)"
| cb_add_all: "builder_reachable b \<Longrightarrow> builder_reachable (builder_add_everything b)"
| cb_clear: "builder_reachable b \<Longrightarrow> builder_reachable (builder_clear b)"
| cb_built: "builder_reachable b \<Longrightarrow> builder_reachable (snd (build_change_set b))"

lemma builder_reachable_everything: "builder_reachable b \<Longrightarrow> cb_everything b \<Longrightarrow> cb_paths b = []"
  by (induction rule: builder_reachable.induct)
    (auto simp: new_change_set_builder_def builder_add_def builder_add_entity_def builder_add_everything_def
      builder_clear_def build_change_set_def Let_def split: if_splits)

lemma covers_built:
  "covers (fst (build_change_set b)) p \<longleftrightarrow>
     cb_everything b \<or> (\<exists>q \<in> set (cb_paths b). blanked p (cb_granularity b) = blanked q (cb_granularity b))"
  unfolding covers_iff [OF build_change_set_spec(1)] build_change_set_spec(2) by simp

lemma blanked_entity_eq: "blanked p g = blanked q g \<Longrightarrow> blanked p CG_entity = blanked q CG_entity"
  by (cases g) (auto simp: blanked_def)

text \<open>
  C23.  A builder never forgets a path: the finished set covers exactly the paths that agree with a recorded one
  down to the final granularity, or everything if that was recorded; so an added path is covered, an added
  entity is covered together with all that was before it, and finishing leaves the builder empty.
\<close>

theorem builder_never_forgets:
  assumes "builder_reachable b"
  shows "(covers (fst (build_change_set b)) p \<longleftrightarrow>
      cb_everything b \<or> (\<exists>q \<in> set (cb_paths b). blanked p (cb_granularity b) = blanked q (cb_granularity b))) \<and>
    covers (fst (build_change_set (builder_add b q))) q \<and>
    covers (fst (build_change_set (builder_add_entity b (pp_entity q)))) q \<and>
    (covers (fst (build_change_set b)) p \<longrightarrow> covers (fst (build_change_set (builder_add_entity b e))) p) \<and>
    covers (fst (build_change_set (builder_add_everything b))) p \<and>
    builder_is_empty (snd (build_change_set b))"
proof (intro conjI impI)
  show "covers (fst (build_change_set b)) p \<longleftrightarrow>
      cb_everything b \<or> (\<exists>q \<in> set (cb_paths b). blanked p (cb_granularity b) = blanked q (cb_granularity b))"
    by (rule covers_built)
  show "covers (fst (build_change_set (builder_add b q))) q"
    unfolding covers_built by (simp add: builder_add_def)
  show "covers (fst (build_change_set (builder_add_entity b (pp_entity q)))) q"
    unfolding covers_built by (simp add: builder_add_entity_def blanked_def)
  show "covers (fst (build_change_set (builder_add_entity b e))) p" if "covers (fst (build_change_set b)) p"
    using that unfolding covers_built by (auto simp: builder_add_entity_def dest: blanked_entity_eq)
  show "covers (fst (build_change_set (builder_add_everything b))) p"
    unfolding covers_built by (simp add: builder_add_everything_def)
  show "builder_is_empty (snd (build_change_set b))"
    using builder_reachable_everything [OF assms] by (simp add: build_change_set_def builder_is_empty_def Let_def)
qed

theorem builder_never_forgets_witness:
  "covers (fst (build_change_set (builder_add (new_change_set_builder CG_component) (Property_path [97] [98] [99]))))
     (Property_path [97] [98] [99])"
  using builder_never_forgets [OF cb_new, of CG_component "Property_path [97] [98] [99]" "Property_path [97] [98] [99]"] by blast

text \<open>
  C32.  Composition is conservative.  The union of two sets never loses a path and covers exactly what either
  covers, read at the coarser of the two granularities; widening one set does the same to it, and a request to
  refine fails its assertion.
\<close>

theorem change_set_composition:
  assumes "change_set_reachable a" "change_set_reachable b"
  shows "(\<exists>c. union_with a b = Ok c \<and>
      (\<forall>p. covers a p \<or> covers b p \<longrightarrow> covers c p) \<and>
      (\<forall>p. covers c p \<longleftrightarrow> (\<exists>q. (covers a q \<or> covers b q) \<and>
         blanked p (coarser_of (cs_granularity a) (cs_granularity b)) = blanked q (coarser_of (cs_granularity a) (cs_granularity b))))) \<and>
    (granularity_rank g < granularity_rank (cs_granularity a) \<longrightarrow> coarsen_to a g = Fault) \<and>
    (granularity_rank (cs_granularity a) \<le> granularity_rank g \<longrightarrow>
      (\<exists>s. coarsen_to a g = Ok s \<and> cs_granularity s = g \<and> (\<forall>p. covers a p \<longrightarrow> covers s p) \<and>
         (\<forall>p. covers s p \<longleftrightarrow> (\<exists>q. covers a q \<and> blanked p g = blanked q g))))"
proof -
  note oka = change_set_reachable_ok [OF assms(1)] and okb = change_set_reachable_ok [OF assms(2)]
  obtain c where c: "union_with a b = Ok c" "change_set_ok c"
    "covered c = widened (coarser_of (cs_granularity a) (cs_granularity b)) (covered a \<union> covered b)"
    using union_with_spec [OF oka okb] by blast
  have cov: "covers c p \<longleftrightarrow> (\<exists>q. (covers a q \<or> covers b q) \<and>
      blanked p (coarser_of (cs_granularity a) (cs_granularity b)) = blanked q (coarser_of (cs_granularity a) (cs_granularity b)))" for p
    unfolding covers_iff [OF c(2)] covers_iff [OF oka] covers_iff [OF okb] c(3) widened_def by blast
  have "\<exists>s. coarsen_to a g = Ok s \<and> cs_granularity s = g \<and> (\<forall>p. covers a p \<longrightarrow> covers s p) \<and>
      (\<forall>p. covers s p \<longleftrightarrow> (\<exists>q. covers a q \<and> blanked p g = blanked q g))"
    if rank: "granularity_rank (cs_granularity a) \<le> granularity_rank g"
  proof -
    obtain s where s: "coarsen_to a g = Ok s" "change_set_ok s" "cs_granularity s = g" "covered s = widened g (covered a)"
      using coarsen_to_spec [OF oka rank] by blast
    have "covers s p \<longleftrightarrow> (\<exists>q. covers a q \<and> blanked p g = blanked q g)" for p
      unfolding covers_iff [OF s(2)] covers_iff [OF oka] s(4) widened_def by blast
    with s show ?thesis by blast
  qed
  moreover have "granularity_rank g < granularity_rank (cs_granularity a) \<longrightarrow> coarsen_to a g = Fault"
    by (simp add: coarsen_to_def check_def)
  ultimately show ?thesis using c(1) cov by blast
qed

theorem change_set_composition_witness:
  "\<exists>c. union_with empty_change_set change_set_everything = Ok c \<and> (\<forall>p. covers change_set_everything p \<longrightarrow> covers c p)"
  using change_set_composition [OF cs_default cs_all, of CG_property] by blast

text \<open>
  \<open>entities\<close> lists, strictly ascending, exactly the entities under which something is dirty, and fails its
  assertion on the set that means everything.
\<close>

theorem change_set_entities_exact:
  assumes "change_set_reachable s"
  shows "if cs_everything s then change_set_entities s = Fault
    else (\<exists>es. change_set_entities s = Ok es \<and> sorted_wrt (<) es \<and> (\<forall>e. e \<in> set es \<longleftrightarrow> covers_entity s e))"
proof (cases "cs_everything s")
  case True
  then show ?thesis by (simp add: change_set_entities_def check_def)
next
  case False
  note ok = change_set_reachable_ok [OF assms]
  have "sorted (map pp_entity (cs_paths s))"
    using ok by (auto simp: change_set_ok_def strict_sorted_iff sorted_map intro: sorted_wrt_mono_rel pp_entity_mono)
  with collect_entities_spec [of "[]" "cs_paths s"]
  have es: "sorted_wrt (<) (collect_entities [] (cs_paths s))" "set (collect_entities [] (cs_paths s)) = pp_entity ` set (cs_paths s)"
    by simp_all
  have "covers_entity s e \<longleftrightarrow> e \<in> pp_entity ` set (cs_paths s)" for e
  proof -
    have "p \<in> covered s" if "p \<in> set (cs_paths s)" for p using that ok by (auto simp: covered_def change_set_ok_def)
    moreover have "pp_entity p \<in> pp_entity ` set (cs_paths s)" if "p \<in> covered s" for p
      using that False by (metis (mono_tags, lifting) covered_def image_eqI mem_Collect_eq pp_entity_blanked)
    ultimately show ?thesis unfolding covers_entity_iff [OF ok] by blast
  qed
  with es False show ?thesis by (simp add: change_set_entities_def check_def)
qed

theorem change_set_entities_exact_witness:
  "change_set_entities change_set_everything = Fault"
  using change_set_entities_exact [OF cs_all] by (simp add: change_set_everything_def)

end
