(* ===== verification/Seeded_Sweep.thy ===== *)
theory Seeded_Sweep
  imports Materialize_Correct
begin

text \<open>
  A sweep seeded from a snapshot computes what replaying the whole history computes, provided the snapshot is the
  materialization of its op.  The walk stops at the seed; the ops behind it, which the walk does not visit, enter
  the argument only through the writers that survive there.
\<close>

subsection \<open>Reading the wanted part of a snapshot\<close>

lemma foldl_append_entries:
  "fst (foldl (\<lambda>(acc, n) want. case get want of None \<Rightarrow> (acc, n) | Some e \<Rightarrow> (acc @ f want e, n + 1)) (acc, n :: nat) ws) =
   acc @ concat (map (\<lambda>want. case get want of None \<Rightarrow> [] | Some e \<Rightarrow> f want e) ws)"
  by (induction ws arbitrary: acc n) (auto split: option.splits)

lemma flatten_entity_distinct: "entity_wf e \<Longrightarrow> distinct (map fst (flatten_entity i e))"
  using flatten_entity_sorted [of e i] strict_sorted_iff [of "map fst (flatten_entity i e)"] by (simp add: sorted_wrt_map)

lemma wanted_properties_spec:
  assumes wf: "document_wf d" and ws: "distinct ws"
  shows "set (fst (wanted_properties d filtered ws)) = {x \<in> set (flatten d). filtered \<longrightarrow> pp_entity (fst x) \<in> set ws}"
    and "distinct (map fst (fst (wanted_properties d filtered ws)))"
proof -
  have sorted: "sorted_wrt (<) (map fst (rd_entities d))" using wf by (simp add: document_wf_def)
  have get: "document_try_get_entity d i = Some e \<longleftrightarrow> (i, e) \<in> set (rd_entities d)" for i e
    using level.lookup_Some_iff [OF sorted] by (simp add: document_try_get_entity_def)
  let ?f = "\<lambda>want. case document_try_get_entity d want of None \<Rightarrow> [] | Some e \<Rightarrow> flatten_entity want e"
  have eq: "fst (wanted_properties d True ws) = concat (map ?f ws)"
    unfolding wanted_properties_def by (simp add: foldl_append_entries)
  have all: "fst (wanted_properties d False ws) = flatten d" by (simp add: wanted_properties_def flatten_def)
  have mem: "x \<in> set (?f want) \<longleftrightarrow> x \<in> set (flatten d) \<and> pp_entity (fst x) = want" for x want
  proof -
    have "x \<in> set (flatten d) \<longleftrightarrow> (\<exists>i e. (i, e) \<in> set (rd_entities d) \<and> x \<in> set (flatten_entity i e))"
      by (force simp: flatten_def)
    also have "\<dots> \<and> pp_entity (fst x) = want \<longleftrightarrow> (\<exists>e. document_try_get_entity d want = Some e \<and> x \<in> set (flatten_entity want e))"
      unfolding get using set_flatten_entity by blast
    finally show ?thesis by (auto split: option.splits)
  qed
  show "set (fst (wanted_properties d filtered ws)) = {x \<in> set (flatten d). filtered \<longrightarrow> pp_entity (fst x) \<in> set ws}"
  proof (cases filtered)
    case True
    then show ?thesis using mem by (auto simp: eq)
  next
    case False
    then show ?thesis by (simp add: all)
  qed
  have wfe: "distinct (map fst (?f want))" for want
    using wf get flatten_entity_distinct by (auto simp: document_wf_def split: option.splits)
  have "distinct (map fst (concat (map ?f ws)))"
    using ws
  proof (induction ws)
    case (Cons w ws)
    have "fst ` set (?f w) \<inter> fst ` set (concat (map ?f ws)) = {}"
      using Cons.prems mem by (auto simp: image_iff)
    with Cons wfe [of w] show ?case by simp
  qed simp
  moreover have "distinct (map fst (flatten d))" using flatten_sorted [OF wf] by (simp add: strict_sorted_iff)
  ultimately show "distinct (map fst (fst (wanted_properties d filtered ws)))" by (cases filtered) (simp_all add: eq all)
qed

subsection \<open>Seeding a state\<close>

context writer_table
begin

lemma represents_seed:
  assumes rep: "represents wr k st S U" and i: "index p = Some i" "i < k" "S i = {}" "U i = {}" and v: "property_wf v"
    and wr: "\<And>w. w \<in> set (rp_writers v) \<Longrightarrow> wr i (pv_writer w) = \<lparr>sw_writer = pv_writer w, sw_value = pv_value w, sw_abstains = False\<rparr>"
  shows "\<exists>st'. seed_step index (p, v) st = Ok st' \<and> represents wr k st' (S(i := pv_writer ` set (rp_writers v))) U"
proof -
  let ?ws = "map (\<lambda>w. \<lparr>sw_writer = pv_writer w, sw_value = pv_value w, sw_abstains = False\<rparr>) (rp_writers v)"
  let ?f = "\<lambda>s. s\<lparr>ps_surviving := ps_surviving s @ ?ws\<rparr>"
  have st: "lists_ok k st" "slot_ok (ss_slots st ! j)" if "j < k" for j using rep that by (auto simp: represents_def state_ok_def)
  note lk = st(1) [OF i(2)]
  have empty: "ps_surviving (ss_slots st ! i) = []" "ps_superseded (ss_slots st ! i) = []"
    using rep i by (auto simp: represents_def)
  obtain st1 where 1: "modify_slot i ?f st = (Ok st1 :: sweep_state checked)" "lists_ok k st1"
    "ss_slots st1 = (ss_slots st)[i := ?f (ss_slots st ! i)]"
    using lists_ok_modify [OF lk i(2), of ?f] by auto
  obtain st2 where 2: "note_occupied i st1 = (Ok st2 :: sweep_state checked)" "lists_ok k st2"
    "ss_slots st2 = (ss_slots st1)[i := (ss_slots st1 ! i)\<lparr>ps_in_occupied := True\<rparr>]"
    using note_occupied_spec [OF 1(2) i(2)] by blast
  have len: "length (ss_slots st) = k" using lk by (simp add: lists_ok_def)
  have slots: "ss_slots st2 = (ss_slots st)[i := (ss_slots st ! i)\<lparr>ps_surviving := ?ws, ps_in_occupied := True\<rparr>]"
    using len i(2) empty by (simp add: 1(3) 2(3))
  have d: "distinct (map sw_writer ?ws)" using v by (simp add: property_wf_def strict_sorted_iff comp_def)
  have "slot_ok (ss_slots st2 ! j)" if "j < k" for j
    using st(2) [OF that] d that len empty by (cases "j = i") (simp_all add: slots slot_ok_def)
  moreover have "set ?ws = wr i ` pv_writer ` set (rp_writers v)" using wr by (auto simp: image_iff)
  ultimately have "represents wr k st2 (S(i := pv_writer ` set (rp_writers v))) U"
    using rep 2(2) len i empty by (auto simp: represents_def state_ok_def slots nth_list_update)
  moreover have "seed_step index (p, v) st = Ok st2"
    using i(1) 1(1) 2(1) by (simp add: seed_step_def path_slot_def)
  ultimately show ?thesis by blast
qed

lemma represents_seeds:
  assumes rep: "represents wr k st (\<lambda>_. {}) (\<lambda>_. {})" and d: "distinct (map fst fes)"
    and slots: "\<And>p v. (p, v) \<in> set fes \<Longrightarrow> \<exists>i < k. index p = Some i \<and> paths ! i = p"
    and inj: "\<And>i j. i < k \<Longrightarrow> j < k \<Longrightarrow> paths ! i = paths ! j \<Longrightarrow> i = j"
    and wf: "\<And>p v. (p, v) \<in> set fes \<Longrightarrow> property_wf v"
    and wr: "\<And>i v w. i < k \<Longrightarrow> (paths ! i, v) \<in> set fes \<Longrightarrow> w \<in> set (rp_writers v) \<Longrightarrow>
      wr i (pv_writer w) = \<lparr>sw_writer = pv_writer w, sw_value = pv_value w, sw_abstains = False\<rparr>"
  shows "\<exists>st'. rfold (seed_step index) fes st = Ok st' \<and>
    represents wr k st' (\<lambda>i. {pv_writer w |v w. (paths ! i, v) \<in> set fes \<and> w \<in> set (rp_writers v)}) (\<lambda>_. {})"
proof (rule rfold_invariant [where P = "\<lambda>ys st'. represents wr k st'
    (\<lambda>i. {pv_writer w |v w. (paths ! i, v) \<in> set ys \<and> w \<in> set (rp_writers v)}) (\<lambda>_. {})"])
  show "represents wr k st (\<lambda>i. {pv_writer w |v w. (paths ! i, v) \<in> set [] \<and> w \<in> set (rp_writers v)}) (\<lambda>_. {})"
    using rep by simp
  fix ys x zs and st' :: sweep_state
  let ?S = "\<lambda>ys i. {pv_writer w |v w. (paths ! i, v) \<in> set ys \<and> w \<in> set (rp_writers v)}"
  assume split: "fes = ys @ x # zs" and inv: "represents wr k st' (?S ys) (\<lambda>_. {})"
  obtain p v where x: "x = (p, v)" by (cases x)
  have mem: "(p, v) \<in> set fes" and new: "p \<notin> fst ` set ys" using split d x by auto
  obtain i where i: "i < k" "index p = Some i" "paths ! i = p" using slots [OF mem] by blast
  have "?S ys i = {}" using new i(3) by force
  then obtain st'' where st'': "seed_step index (p, v) st' = Ok st''"
    "represents wr k st'' ((?S ys)(i := pv_writer ` set (rp_writers v))) (\<lambda>_. {})"
    using represents_seed [of k st' "?S ys" "\<lambda>_. {}" index p i v] inv i wf [OF mem] wr [OF i(1)] mem by blast
  have "((?S ys)(i := pv_writer ` set (rp_writers v))) j = ?S (ys @ [x]) j" if "j < k" for j
  proof (cases "j = i")
    case True
    then show ?thesis using new i(3) x by (force simp: image_def)
  next
    case False
    then have "paths ! j \<noteq> p" using inj [OF that i(1)] i(3) by auto
    with False x show ?thesis by auto
  qed
  then have "represents wr k st'' (?S (ys @ [x])) (\<lambda>_. {})" by (intro represents_cong [OF st''(2)]) simp
  with st''(1) x show "\<exists>st''. seed_step index x st' = Ok st'' \<and> represents wr k st'' (?S (ys @ [x])) (\<lambda>_. {})" by blast
qed

end

subsection \<open>The writers that matter behind a seed\<close>

text \<open>
  Of the ops behind the seed only the surviving, non-abstaining writers are represented.  No other writer behind it
  can become current again, so the current writers of everything reached are the same.
\<close>

lemma current_through_seed:
  fixes alive :: "'a \<Rightarrow> bool"
  assumes R: "R \<subseteq> N \<union> A" "A \<subseteq> R" and A: "anc_closed E A" "A \<inter> N = {}"
    and S: "S = {w \<in> mx E W A. alive w}" and W': "W' = (W \<inter> N) \<union> S"
  shows "w \<in> mx E W' R \<and> alive w \<longleftrightarrow> w \<in> mx E W R \<and> alive w"
proof -
  have sub: "W' \<subseteq> W" by (auto simp: W' S mx_def)
  have "w \<in> mx E W' R" if w: "w \<in> mx E W R" "alive w"
  proof -
    have "w \<in> W'"
    proof (cases "w \<in> A")
      case True
      with w(1) R(2) have "w \<in> mx E W A" by (auto simp: mx_def)
      with w(2) show ?thesis by (simp add: W' S)
    next
      case False
      then show ?thesis using w(1) R(1) by (auto simp: mx_def W')
    qed
    with w(1) sub show ?thesis by (auto simp: mx_def)
  qed
  moreover have "w \<in> mx E W R" if w: "w \<in> mx E W' R" "alive w"
  proof -
    have "v = w" if v: "v \<in> W \<inter> R" "(v, w) \<in> E\<^sup>*" for v
    proof (cases "v \<in> A")
      case True
      then have "w \<in> A" using A(1) v(2) anc_closed_rtrancl by metis
      then have "w \<in> mx E W A" using w(1) A(2) by (auto simp: mx_def W' S)
      with True v show ?thesis by (auto simp: mx_def)
    next
      case False
      then have "v \<in> W' \<inter> R" using v(1) R(1) by (auto simp: W')
      with w(1) v(2) show ?thesis by (auto simp: mx_def)
    qed
    with w(1) sub show ?thesis by (auto simp: mx_def)
  qed
  ultimately show ?thesis by blast
qed

lemma mx_of_survivors:
  assumes S: "S \<subseteq> mx E W A" and W': "W' \<inter> A = S"
  shows "mx E W' A = S"
  unfolding mx_def W' using S by (auto simp: mx_def)

subsection \<open>The environment of a seeded sweep\<close>

definition seed_ok :: "op_graph \<Rightarrow> op_id \<Rightarrow> raw_document \<Rightarrow> bool" where
  "seed_ok g r d \<longleftrightarrow> document_wf d \<and>
     (\<forall>p v. document_try_get d p = Some v \<longleftrightarrow> rp_writers v \<noteq> [] \<and> sorted_wrt (<) (map pv_writer (rp_writers v)) \<and>
        set (rp_writers v) = current_values g (history g) (ancestors (history g) r) p)"

definition seeded_env :: "op_graph \<Rightarrow> sweep_env \<Rightarrow> nat \<Rightarrow> raw_document \<Rightarrow> bool" where
  "seeded_env g env s d \<longleftrightarrow> se_graph env = g \<and> se_index_of env = build_index (se_reachable env) \<and> se_seeded env = Some s \<and>
     distinct (se_reachable env) \<and> s < length (se_reachable env) \<and>
     snapshot_at (se_cache env) (se_reachable env ! s) = (Ok d :: raw_document checked) \<and>
     distinct (se_wanted_sorted env) \<and> set (se_wanted_sorted env) = se_wanted env \<and> acyclic (history g) \<and>
     (\<forall>r \<in> set (se_reachable env). \<exists>o1. find_op g r = Some o1 \<and>
        (r \<noteq> se_reachable env ! s \<longrightarrow> history g `` {r} = set (o_parents o1) \<inter> set (se_reachable env))) \<and>
     parent_indices env s = [] \<and> (\<forall>r \<in> set (se_reachable env). (r, se_reachable env ! s) \<in> (history g)\<^sup>*)"

definition survivors :: "raw_document \<Rightarrow> property_path \<Rightarrow> op_id set" where
  "survivors d p = (case document_try_get d p of None \<Rightarrow> {} | Some v \<Rightarrow> pv_writer ` set (rp_writers v))"

definition seeded_writers :: "op_graph \<Rightarrow> sweep_env \<Rightarrow> nat \<Rightarrow> raw_document \<Rightarrow> property_path \<Rightarrow> op_id set" where
  "seeded_writers g env s d p =
     (writers_of g p \<inter> (set (se_reachable env) - {se_reachable env ! s})) \<union> survivors d p"

lemma finite_ancestors: "finite (ancestors (history g) r)"
proof (rule finite_subset)
  show "ancestors (history g) r \<subseteq> insert r (dom (find_op g))"
    unfolding ancestors_def by (auto elim: rtranclE simp: parent_edges_def contains_op_def)
  show "finite (insert r (dom (find_op g)))" by (simp add: find_op_def [abs_def] finite_dom_map_of)
qed

lemma current_values_list:
  assumes "finite R" "current_values g E R p \<noteq> {}"
  shows "\<exists>v :: raw_property. rp_writers v \<noteq> [] \<and> sorted_wrt (<) (map pv_writer (rp_writers v)) \<and> set (rp_writers v) = current_values g E R p"
proof -
  let ?L = "{w \<in> mx E (writers_of g p) R. \<exists>a. assignment_at g w p = Some a \<and> \<not> is_abstain a}"
  let ?f = "\<lambda>w. \<lparr>pv_writer = w, pv_value = a_value (the (assignment_at g w p))\<rparr>"
  let ?v = "\<lparr>rp_writers = map ?f (sorted_list_of_set ?L)\<rparr>"
  have fin: "finite ?L" by (rule finite_subset [OF _ assms(1)]) (auto simp: mx_def)
  have eq: "set (rp_writers ?v) = current_values g E R p" using fin by (force simp: current_values_def)
  then have "rp_writers ?v \<noteq> []" using assms(2) by force
  moreover have "sorted_wrt (<) (map pv_writer (rp_writers ?v))"
    using fin by (simp add: comp_def strict_sorted_iff)
  ultimately show ?thesis using eq by (intro exI [of _ ?v] conjI)
qed

lemma survivors_eq:
  assumes "seed_ok g r d"
  shows "survivors d p = {w \<in> mx (history g) (writers_of g p) (ancestors (history g) r).
    \<exists>a. assignment_at g w p = Some a \<and> \<not> is_abstain a}"
proof -
  let ?C = "current_values g (history g) (ancestors (history g) r) p"
  have get: "document_try_get d p = Some v \<longleftrightarrow> rp_writers v \<noteq> [] \<and> sorted_wrt (<) (map pv_writer (rp_writers v)) \<and>
      set (rp_writers v) = ?C" for v using assms by (simp add: seed_ok_def)
  have cv: "pv_writer ` ?C = {w \<in> mx (history g) (writers_of g p) (ancestors (history g) r).
      \<exists>a. assignment_at g w p = Some a \<and> \<not> is_abstain a}" by (force simp: current_values_def)
  show ?thesis
  proof (cases "document_try_get d p")
    case (Some v)
    then show ?thesis using get [of v] by (simp add: survivors_def cv)
  next
    case None
    then have "?C = {}" 
      using current_values_list [of "ancestors (history g) r" g "history g" p] finite_ancestors get by force
    with None show ?thesis using cv by (simp add: survivors_def)
  qed
qed

lemma seeded_slots:
  assumes env: "seeded_env g env s d" and g: "payloads_valid g" and d: "document_wf d"
  shows "\<exists>pt. register_paths env = Ok pt \<and> table_ok pt \<and>
    set (pt_paths pt) = {p. \<not> (se_filtered env \<and> pp_entity p \<notin> se_wanted env) \<and>
      (document_try_get d p \<noteq> None \<or>
       (\<exists>i < length (se_reachable env). i \<noteq> s \<and> se_reachable env ! i \<in> writers_of g p))}"
proof -
  have E: "se_graph env = g" "se_seeded env = Some s" "s < length (se_reachable env)"
    "snapshot_at (se_cache env) (se_reachable env ! s) = (Ok d :: raw_document checked)" "distinct (se_wanted_sorted env)"
    "set (se_wanted_sorted env) = se_wanted env" "\<And>r. r \<in> set (se_reachable env) \<Longrightarrow> find_op g r \<noteq> None"
    using env unfolding seeded_env_def by fastforce+
  let ?fes = "fst (wanted_properties d (se_filtered env) (se_wanted_sorted env))"
  let ?ps = "\<lambda>i. if i = s then map fst ?fes else map a_path (op_writes g (se_reachable env ! i))"
  have fes: "x \<in> set ?fes \<longleftrightarrow> x \<in> set (flatten d) \<and> (se_filtered env \<longrightarrow> pp_entity (fst x) \<in> se_wanted env)" for x
    using wanted_properties_spec(1) [OF d E(5), of "se_filtered env"] E(6) by auto
  have "register_op env i pt = Ok (foldl (register_path (se_filtered env) (se_wanted env)) pt (?ps i))"
    if i: "i < length (se_reachable env)" for i pt
  proof (cases "i = s")
    case True
    then show ?thesis using E(2-4) by (simp add: register_op_def foldl_map)
  next
    case False
    then show ?thesis using register_op_unseeded [OF E(1) g _ i E(7) [OF nth_mem [OF i]]] E(2) by simp
  qed
  from register_paths_all [of env, OF this] obtain pt where pt: "register_paths env = Ok pt" "table_ok pt"
    "set (pt_paths pt) = {p. \<not> (se_filtered env \<and> pp_entity p \<notin> se_wanted env) \<and>
      (\<exists>i < length (se_reachable env). p \<in> set (?ps i))}" by blast
  have get: "document_try_get d p \<noteq> None \<longleftrightarrow> (\<exists>v. (p, v) \<in> set (flatten d))" for p
    using document_try_get_Some_iff [OF d, of p] by (metis not_None_eq)
  have "(\<exists>i < length (se_reachable env). p \<in> set (?ps i)) \<longleftrightarrow>
      p \<in> fst ` set ?fes \<or> (\<exists>i < length (se_reachable env). i \<noteq> s \<and> se_reachable env ! i \<in> writers_of g p)" for p
    using E(3) by (auto simp: writers_of_iff split: if_splits)
  moreover have "p \<in> fst ` set ?fes \<longleftrightarrow> document_try_get d p \<noteq> None \<and> (se_filtered env \<longrightarrow> pp_entity p \<in> se_wanted env)" for p
    unfolding get using fes by force
  ultimately show ?thesis using pt by auto
qed

lemma seeded_envD:
  assumes "seeded_env g env s d"
  shows "se_graph env = g" "se_index_of env = build_index (se_reachable env)" "se_seeded env = Some s"
    "distinct (se_reachable env)" "s < length (se_reachable env)"
    "snapshot_at (se_cache env) (se_reachable env ! s) = (Ok d :: raw_document checked)"
    "distinct (se_wanted_sorted env)" "set (se_wanted_sorted env) = se_wanted env" "acyclic (history g)"
    "parent_indices env s = []"
    "\<And>r. r \<in> set (se_reachable env) \<Longrightarrow> (r, se_reachable env ! s) \<in> (history g)\<^sup>*"
  using assms unfolding seeded_env_def by blast+

lemma seeded_env_op:
  assumes "seeded_env g env s d" "r \<in> set (se_reachable env)"
  obtains o1 where "find_op g r = Some o1"
    "r \<noteq> se_reachable env ! s \<Longrightarrow> history g `` {r} = set (o_parents o1) \<inter> set (se_reachable env)"
  using assms unfolding seeded_env_def by blast

lemma seeded_env_edges:
  "seeded_env g env s d \<Longrightarrow> r \<in> set (se_reachable env) \<Longrightarrow> r \<noteq> se_reachable env ! s \<Longrightarrow>
   history g `` {r} \<subseteq> set (se_reachable env)"
  unfolding seeded_env_def by blast

lemma seed_disjoint:
  assumes env: "seeded_env g env s d" and r: "r \<in> set (se_reachable env)" "r \<in> ancestors (history g) (se_reachable env ! s)"
  shows "r = se_reachable env ! s"
proof (rule ccontr)
  assume "r \<noteq> se_reachable env ! s"
  then have "(se_reachable env ! s, r) \<in> (history g)\<^sup>+" using r(2) by (auto simp: ancestors_def rtrancl_eq_or_trancl)
  then have "(r, r) \<in> (history g)\<^sup>+" using seeded_envD(11) [OF env r(1)] by (rule rtrancl_trancl_trancl [rotated])
  then show False using seeded_envD(9) [OF env] by (simp add: acyclic_def)
qed

lemma seeded_frame:
  assumes env: "seeded_env g env s d" and g: "graph_ok g" "payloads_valid g"
    and seed: "seed_ok g (se_reachable env ! s) d" and pt: "table_ok pt"
    "set (pt_paths pt) = {p. \<not> (se_filtered env \<and> pp_entity p \<notin> se_wanted env) \<and>
      (document_try_get d p \<noteq> None \<or>
       (\<exists>i < length (se_reachable env). i \<noteq> s \<and> se_reachable env ! i \<in> writers_of g p))}"
  shows "records.sweep_frame g (pt_paths pt) env pt (history g) (\<lambda>i. seeded_writers g env s d (pt_paths pt ! i))
    {s} (ancestors (history g) (se_reachable env ! s) - {se_reachable env ! s})"
proof -
  let ?R = "se_reachable env" and ?r = "se_reachable env ! s" and ?E = "history g"
  let ?W = "\<lambda>i. seeded_writers g env s d (pt_paths pt ! i)"
  let ?X = "ancestors ?E ?r - {?r}"
  note D = seeded_envD [OF env]
  have own: "(?r, ?r) \<notin> ?E\<^sup>+" using D(9) by (simp add: acyclic_def)
  have closed: "?E `` {x} \<subseteq> ?X" if "x \<in> ancestors ?E ?r" for x
  proof
    fix y assume "y \<in> ?E `` {x}"
    then have "(?r, y) \<in> ?E\<^sup>+" using that by (auto simp: ancestors_def intro: rtrancl_into_trancl1)
    then show "y \<in> ?X" using own by (auto simp: ancestors_def)
  qed
  have X: "?X \<inter> set ?R = {}" "anc_closed ?E ?X" "?E `` {?r} \<subseteq> ?X"
    using seed_disjoint [OF env] closed [of ?r] closed by (auto simp: anc_closed_def ancestors_def)
  have frame: "\<exists>o1. op_at (se_graph env) ?R ix = Ok o1 \<and> records.writes_law g (pt_paths pt) env pt ?W ix o1 \<and>
      set (parent_indices env ix) \<subseteq> {..<length ?R} \<and> ?E `` {?R ! ix} = (\<lambda>p. ?R ! p) ` set (parent_indices env ix)"
    if ix: "ix < length ?R" "ix \<noteq> s" for ix
  proof -
    have ne: "?R ! ix \<noteq> ?r" using ix D(4,5) by (simp add: nth_eq_iff_index_eq)
    obtain o1 where o1: "find_op g (?R ! ix) = Some o1" "?E `` {?R ! ix} = set (o_parents o1) \<inter> set ?R"
      using seeded_env_op [OF env nth_mem [OF ix(1)]] ne by metis
    have at: "op_at (se_graph env) ?R ix = Ok o1" using o1(1) ix(1) D(1) by (simp add: op_at_def)
    have pi: "set (parent_indices env ix) = {j. j < length ?R \<and> ?R ! j \<in> set (o_parents o1)}"
      by (auto simp: parent_indices_def at D(2) set_map_filter build_index_iff [OF D(4)])
    have edges: "?E `` {?R ! ix} = (\<lambda>p. ?R ! p) ` set (parent_indices env ix)"
      unfolding pi o1(2) by (auto simp: image_iff) (metis in_set_conv_nth)
    have "?R ! ix \<notin> ancestors ?E ?r" using seed_disjoint [OF env nth_mem [OF ix(1)]] ne by blast
    then have "?R ! ix \<notin> survivors d p" for p using survivors_eq [OF seed, of p] by (auto simp: mx_def)
    then have same: "?R ! ix \<in> ?W i \<longleftrightarrow> ?R ! ix \<in> slot_writers g pt i" for i
      using ne nth_mem [OF ix(1)] by (simp add: seeded_writers_def)
    have "records.writes_law g (pt_paths pt) env pt (\<lambda>i. slot_writers g pt i) ix o1"
      by (rule writes_law_holds [OF g o1(1) _ pt(1)]) (use D(3) ix pt(2) in auto)
    then have "records.writes_law g (pt_paths pt) env pt ?W ix o1"
      unfolding records.writes_law_def same .
    with at edges show ?thesis unfolding pi by auto
  qed
  show ?thesis
    unfolding records.sweep_frame_def using D(4,9) X frame by blast
qed

lemma seeded_state:
  assumes env: "seeded_env g env s d" and g: "payloads_valid g"
    and seed: "seed_ok g (se_reachable env ! s) d" and pt: "table_ok pt"
    "set (pt_paths pt) = {p. \<not> (se_filtered env \<and> pp_entity p \<notin> se_wanted env) \<and>
      (document_try_get d p \<noteq> None \<or>
       (\<exists>i < length (se_reachable env). i \<noteq> s \<and> se_reachable env ! i \<in> writers_of g p))}"
  shows "\<exists>st. own_writes env (pt_index pt) s o1 (fresh_state (length (pt_paths pt))) = Ok st \<and>
    represents (writer_record g (pt_paths pt)) (length (pt_paths pt)) st
      (\<lambda>i. mx (history g) (seeded_writers g env s d (pt_paths pt ! i)) (ancestors (history g) (se_reachable env ! s))) (\<lambda>_. {})"
proof -
  let ?k = "length (pt_paths pt)" and ?wr = "writer_record g (pt_paths pt)" and ?r = "se_reachable env ! s"
  let ?fes = "fst (wanted_properties d (se_filtered env) (se_wanted_sorted env))"
  note D = seeded_envD [OF env]
  have wf: "document_wf d" using seed by (simp add: seed_ok_def)
  note wp = wanted_properties_spec [OF wf D(7), of "se_filtered env"]
  have fes: "(p, v) \<in> set ?fes \<longleftrightarrow> document_try_get d p = Some v \<and> (se_filtered env \<longrightarrow> pp_entity p \<in> se_wanted env)" for p v
    unfolding wp(1) document_try_get_Some_iff [OF wf] using D(8) by auto
  have dp: "distinct (pt_paths pt)" using pt(1) by (simp add: table_ok_def)
  have pw: "property_wf v" and vals: "set (rp_writers v) = current_values g (history g) (ancestors (history g) ?r) p"
    if "(p, v) \<in> set ?fes" for p v
    using that seed unfolding fes by (auto simp: seed_ok_def property_wf_def)
  have rec: "?wr i (pv_writer w) = \<lparr>sw_writer = pv_writer w, sw_value = pv_value w, sw_abstains = False\<rparr>"
    if "(pt_paths pt ! i, v) \<in> set ?fes" "w \<in> set (rp_writers v)" for i v w
    using vals [OF that(1)] that(2) by (auto simp: current_values_def writer_record_def)
  have slots: "\<exists>i < ?k. pt_index pt p = Some i \<and> pt_paths pt ! i = p" if "(p, v) \<in> set ?fes" for p v
  proof -
    have "p \<in> set (pt_paths pt)" using that unfolding pt(2) fes by auto
    then show ?thesis using pt(1) by (auto simp: table_ok_def in_set_conv_nth)
  qed
  have "\<exists>st. rfold (seed_step (pt_index pt)) ?fes (fresh_state ?k) = (Ok st :: sweep_state checked) \<and>
      represents ?wr ?k st (\<lambda>i. {pv_writer w |v w. (pt_paths pt ! i, v) \<in> set ?fes \<and> w \<in> set (rp_writers v)}) (\<lambda>_. {})"
    by (rule records.represents_seeds [OF records.represents_fresh wp(2)])
      (use slots pw rec nth_eq_iff_index_eq [OF dp] in blast)+
  then obtain st where st: "rfold (seed_step (pt_index pt)) ?fes (fresh_state ?k) = (Ok st :: sweep_state checked)"
    "represents ?wr ?k st (\<lambda>i. {pv_writer w |v w. (pt_paths pt ! i, v) \<in> set ?fes \<and> w \<in> set (rp_writers v)}) (\<lambda>_. {})"
    by blast
  have "{pv_writer w |v w. (pt_paths pt ! i, v) \<in> set ?fes \<and> w \<in> set (rp_writers v)} =
      mx (history g) (seeded_writers g env s d (pt_paths pt ! i)) (ancestors (history g) ?r)" if "i < ?k" for i
  proof -
    have "\<not> (se_filtered env \<and> pp_entity (pt_paths pt ! i) \<notin> se_wanted env)" using nth_mem [OF that] pt(2) by blast
    then have "{pv_writer w |v w. (pt_paths pt ! i, v) \<in> set ?fes \<and> w \<in> set (rp_writers v)} = survivors d (pt_paths pt ! i)"
      unfolding fes by (auto simp: survivors_def split: option.splits)
    also have "\<dots> = mx (history g) (seeded_writers g env s d (pt_paths pt ! i)) (ancestors (history g) ?r)"
    proof (rule mx_of_survivors [symmetric])
      show sub: "survivors d (pt_paths pt ! i) \<subseteq> mx (history g) (slot_writers g pt i) (ancestors (history g) ?r)"
        unfolding survivors_eq [OF seed] by blast
      show "seeded_writers g env s d (pt_paths pt ! i) \<inter> ancestors (history g) ?r = survivors d (pt_paths pt ! i)"
        using seed_disjoint [OF env] sub by (auto simp: seeded_writers_def mx_def)
    qed
    finally show ?thesis .
  qed
  then have "represents ?wr ?k st
      (\<lambda>i. mx (history g) (seeded_writers g env s d (pt_paths pt ! i)) (ancestors (history g) ?r)) (\<lambda>_. {})"
    by (intro records.represents_cong [OF st(2)]) simp
  moreover have "own_writes env (pt_index pt) s o1 (fresh_state ?k) = Ok st"
    using D(3,5,6) st(1) by (simp add: own_writes_def)
  ultimately show ?thesis by blast
qed

lemma alive_values:
  "(\<lambda>w. \<lparr>pv_writer = w, pv_value = sw_value (writer_record g paths i w)\<rparr>) `
     {w \<in> M. \<exists>a. assignment_at g w (paths ! i) = Some a \<and> \<not> is_abstain a} =
   {\<lparr>pv_writer = w, pv_value = a_value a\<rparr> |w a. w \<in> M \<and> assignment_at g w (paths ! i) = Some a \<and> \<not> is_abstain a}"
  by (force simp: writer_record_def)

lemma seeded_live_values:
  assumes env: "seeded_env g env s d" and seed: "seed_ok g (se_reachable env ! s) d"
    and R: "R \<subseteq> set (se_reachable env) \<union> ancestors (history g) (se_reachable env ! s)"
      "ancestors (history g) (se_reachable env ! s) \<subseteq> R"
  shows "records.live_values g paths (\<lambda>i. mx (history g) (seeded_writers g env s d (paths ! i)) R) i =
    current_values g (history g) R (paths ! i)"
proof -
  let ?A = "ancestors (history g) (se_reachable env ! s)" and ?N = "set (se_reachable env) - {se_reachable env ! s}"
  let ?alive = "\<lambda>w. \<exists>a. assignment_at g w (paths ! i) = Some a \<and> \<not> is_abstain a"
  have "?A \<inter> ?N = {}" using seed_disjoint [OF env] by blast
  moreover have "R \<subseteq> ?N \<union> ?A" using R(1) by (auto simp: ancestors_def)
  ultimately have mx: "w \<in> mx (history g) (seeded_writers g env s d (paths ! i)) R \<and> ?alive w \<longleftrightarrow>
      w \<in> mx (history g) (writers_of g (paths ! i)) R \<and> ?alive w" for w
    by (intro current_through_seed [OF _ R(2) anc_closed_ancestors _ survivors_eq [OF seed]])
      (simp_all add: seeded_writers_def)
  have alive: "?alive w \<longleftrightarrow> \<not> sw_abstains (writer_record g paths i w)"
    if "w \<in> mx (history g) (seeded_writers g env s d (paths ! i)) R" for w
  proof -
    have "assignment_at g w (paths ! i) \<noteq> None"
      using that survivors_eq [OF seed] by (auto simp: mx_def seeded_writers_def writers_of_def)
    then show ?thesis by (auto simp: writer_record_def)
  qed
  have "records.live_values g paths (\<lambda>i. mx (history g) (seeded_writers g env s d (paths ! i)) R) i =
      (\<lambda>w. \<lparr>pv_writer = w, pv_value = sw_value (writer_record g paths i w)\<rparr>) `
        {w \<in> mx (history g) (seeded_writers g env s d (paths ! i)) R. ?alive w}"
    unfolding records.live_values_def using alive by auto
  also have "{w \<in> mx (history g) (seeded_writers g env s d (paths ! i)) R. ?alive w} =
      {w \<in> mx (history g) (writers_of g (paths ! i)) R. ?alive w}" using mx by blast
  finally show ?thesis by (simp only: alive_values current_values_def)
qed

lemma run_seeded_sweep:
  assumes env: "seeded_env g env s d0" and g: "graph_ok g" "payloads_valid g"
    and seed: "seed_ok g (se_reachable env ! s) d0" and n: "n = length (se_reachable env)"
    and ed: "edges_inv n (\<lambda>i. if i < n then parent_indices env i else []) ed"
    and src: "sources_of (ed_in_degree ed) = [s]"
    and R: "R = (\<Union>h \<in> set heads \<inter> set (se_reachable env). ancestors (history g) h)"
      "R \<subseteq> set (se_reachable env) \<union> ancestors (history g) (se_reachable env ! s)"
      "ancestors (history g) (se_reachable env ! s) \<subseteq> R" "set (se_reachable env) \<subseteq> R"
  shows "\<exists>d. run_sweep env ed heads = Ok (d, n) \<and> document_wf d \<and>
    (\<forall>p v. document_try_get d p = Some v \<longleftrightarrow> \<not> (se_filtered env \<and> pp_entity p \<notin> se_wanted env) \<and>
       current_values g (history g) R p \<noteq> {} \<and> sorted_wrt (<) (map pv_writer (rp_writers v)) \<and>
       set (rp_writers v) = current_values g (history g) R p)"
proof -
  note D = seeded_envD [OF env]
  let ?E = "history g" and ?r = "se_reachable env ! s"
  let ?sd = "\<lparr>sd_ready = sources_of (ed_in_degree ed), sd_in_degree = ed_in_degree ed, sd_processed = 0\<rparr>"
  have wf: "document_wf d0" using seed by (simp add: seed_ok_def)
  obtain pt where pt: "register_paths env = Ok pt" "table_ok pt"
    "set (pt_paths pt) = {p. \<not> (se_filtered env \<and> pp_entity p \<notin> se_wanted env) \<and>
      (document_try_get d0 p \<noteq> None \<or>
       (\<exists>i < length (se_reachable env). i \<noteq> s \<and> se_reachable env ! i \<in> writers_of g p))}"
    using seeded_slots [OF env g(2) wf] by blast
  have dp: "distinct (pt_paths pt)" using pt(2) by (simp add: table_ok_def)
  let ?W = "\<lambda>i. seeded_writers g env s d0 (pt_paths pt ! i)"
  obtain o1 where o1: "find_op g ?r = Some o1" using seeded_env_op [OF env nth_mem [OF D(5)]] by metis
  have at: "op_at (se_graph env) (se_reachable env) s = Ok o1" using o1 D(1,5) by (simp add: op_at_def)
  obtain st where st: "own_writes env (pt_index pt) s o1 (fresh_state (length (pt_paths pt))) = Ok st"
    "represents (writer_record g (pt_paths pt)) (length (pt_paths pt)) st
      (\<lambda>i. mx ?E (?W i) (ancestors ?E ?r)) (\<lambda>_. {})"
    using seeded_state [OF env g(2) seed pt(2,3)] by blast
  note init = initial_sched [OF ed n]
  have start: "\<exists>core sd P. sweep_loop env pt (ed_forward ed) core0 ?sd = sweep_loop env pt (ed_forward ed) core sd \<and>
      records.core_inv g (pt_paths pt) env pt ?E ?W hc P core \<and> sched_inv env P sd \<and> {s} \<subseteq> P"
    if inv: "records.core_inv g (pt_paths pt) env pt ?E ?W hc {} core0" for core0 hc
  proof -
    obtain core where core: "process_op env pt s core0 = Ok core" "records.core_inv g (pt_paths pt) env pt ?E ?W hc {s} core"
      using records.process_seed_spec [OF inv D(5,10) at st] by blast
    obtain sd where sd: "relax_children (ed_forward ed) s (?sd\<lparr>sd_ready := remove1 s (sd_ready ?sd), sd_processed := sd_processed ?sd + 1\<rparr>) = Ok sd"
      "sched_inv env {s} sd"
      using relax_children_spec [OF init(1,2), of s] src by auto
    have "sweep_loop env pt (ed_forward ed) core0 ?sd = sweep_loop env pt (ed_forward ed) core sd"
      using core(1) sd(1) src by (subst sweep_loop.simps) (simp add: Let_def least_ready_def)
    with core(2) sd(2) show ?thesis by blast
  qed
  obtain d where d: "run_sweep env ed heads = Ok (d, n)" "document_wf d"
    "\<forall>p v. document_try_get d p = Some v \<longleftrightarrow> (\<exists>i < length (pt_paths pt). p = pt_paths pt ! i \<and>
       records.live_property g (pt_paths pt) (\<lambda>i. mx ?E (?W i) R) i v)"
    using run_sweep_frame [OF D(2,4) pt(1) dp seeded_frame [OF env g seed pt(2,3)] n ed refl start, of heads] R(1) by blast
  have slots: "p \<in> set (pt_paths pt)"
    if want: "\<not> (se_filtered env \<and> pp_entity p \<notin> se_wanted env)" and ne: "current_values g ?E R p \<noteq> {}" for p
  proof -
    let ?alive = "\<lambda>w. \<exists>a. assignment_at g w p = Some a \<and> \<not> is_abstain a"
    obtain w where w: "w \<in> mx ?E (writers_of g p) R" "?alive w" using ne by (auto simp: current_values_def)
    show ?thesis
    proof (cases "w \<in> ancestors ?E ?r")
      case True
      then have "w \<in> survivors d0 p" using w R(3) unfolding survivors_eq [OF seed] by (auto simp: mx_def)
      then have "document_try_get d0 p \<noteq> None" by (auto simp: survivors_def split: option.splits)
      then show ?thesis using want by (simp add: pt(3))
    next
      case False
      then have "w \<in> set (se_reachable env)" "w \<noteq> ?r" using w(1) R(2) by (auto simp: mx_def ancestors_def)
      then show ?thesis using want w(1) by (auto simp: pt(3) mx_def in_set_conv_nth)
    qed
  qed
  have "document_try_get d p = Some v \<longleftrightarrow> \<not> (se_filtered env \<and> pp_entity p \<notin> se_wanted env) \<and>
       current_values g ?E R p \<noteq> {} \<and> sorted_wrt (<) (map pv_writer (rp_writers v)) \<and>
       set (rp_writers v) = current_values g ?E R p" for p v
    by (rule document_current [OF d(3) seeded_live_values [OF env seed R(2,3)]]) (use pt(3) slots in auto)
  with d(1,2) show ?thesis by blast
qed

subsection \<open>The gate\<close>

lemma rfold_Ok_invariant:
  assumes "rfold f xs s = Ok s'" "P [] s"
    and "\<And>ys x zs s s'. xs = ys @ x # zs \<Longrightarrow> P ys s \<Longrightarrow> f x s = Ok s' \<Longrightarrow> P (ys @ [x]) s'"
  shows "P xs s'"
proof -
  have "P (ys @ xs') s'" if "rfold f xs' s1 = Ok s'" "P ys s1" "xs = ys @ xs'" for xs' ys s1
    using that
  proof (induction xs' arbitrary: ys s1)
    case (Cons x xs')
    then obtain s2 where "f x s1 = Ok s2" "rfold f xs' s2 = Ok s'" by (auto simp: rbind_eq_Ok)
    with Cons.IH [of s2 "ys @ [x]"] Cons.prems assms(3) show ?case by simp
  qed simp
  from this [of xs s "[]"] assms(1,2) show ?thesis by simp
qed

lemma edge_step_unwalked:
  "edge_step g index_of i parent ed = Ok ed' \<Longrightarrow> length (ed_unwalked ed') = length (ed_unwalked ed) \<and>
   (\<forall>j. ed_unwalked ed' ! j = (ed_unwalked ed ! j \<or> (j = i \<and> i < length (ed_unwalked ed) \<and> index_of parent = None \<and> contains_op g parent)))"
  by (auto simp: edge_step_def result_simps nth_list_update split: option.splits if_splits)

lemma edge_steps_unwalked:
  assumes "rfold (edge_step g index_of i) ps ed = Ok ed'"
  shows "length (ed_unwalked ed') = length (ed_unwalked ed) \<and>
    (\<forall>j. ed_unwalked ed' ! j = (ed_unwalked ed ! j \<or> (j = i \<and> i < length (ed_unwalked ed) \<and>
       (\<exists>p \<in> set ps. index_of p = None \<and> contains_op g p))))"
  using assms
proof (induction ps arbitrary: ed)
  case (Cons p ps)
  then obtain ed1 where 1: "edge_step g index_of i p ed = Ok ed1" "rfold (edge_step g index_of i) ps ed1 = Ok ed'"
    by (auto simp: rbind_eq_Ok)
  show ?case using Cons.IH [OF 1(2)] edge_step_unwalked [OF 1(1)] by auto
qed simp

lemma build_edges_unwalked:
  assumes "build_edges g reachable index_of = Ok ed" "i < length reachable" "find_op g (reachable ! i) = Some o1"
    and "p \<in> set (o_parents o1)" "contains_op g p" "index_of p = None"
  shows "ed_unwalked ed ! i"
proof -
  let ?f = "\<lambda>i ed. rbind (op_at g reachable i) (\<lambda>o1. rfold (edge_step g index_of i) (o_parents o1) ed)"
  have "length (ed_unwalked ed) = length reachable \<and> (i \<in> set [0..<length reachable] \<longrightarrow> ed_unwalked ed ! i)"
  proof (rule rfold_Ok_invariant [where P = "\<lambda>ys ed. length (ed_unwalked ed) = length reachable \<and> (i \<in> set ys \<longrightarrow> ed_unwalked ed ! i)"])
    show "rfold ?f [0..<length reachable] \<lparr>ed_forward = replicate (length reachable) [],
        ed_in_degree = replicate (length reachable) 0, ed_consumers = replicate (length reachable) 0,
        ed_unwalked = replicate (length reachable) False\<rparr> = Ok ed"
      using assms(1) by (simp add: build_edges_def Let_def)
    fix ys x zs and ed1 ed2 :: edges
    assume inv: "length (ed_unwalked ed1) = length reachable \<and> (i \<in> set ys \<longrightarrow> ed_unwalked ed1 ! i)"
      and step: "?f x ed1 = Ok ed2"
    obtain o2 where o2: "op_at g reachable x = Ok o2" "rfold (edge_step g index_of x) (o_parents o2) ed1 = Ok ed2"
      using step by (auto simp: rbind_eq_Ok)
    have "o2 = o1" if "x = i" using o2(1) assms(2,3) that by (simp add: op_at_def)
    with edge_steps_unwalked [OF o2(2)] inv assms(2,4-6)
    show "length (ed_unwalked ed2) = length reachable \<and> (i \<in> set (ys @ [x]) \<longrightarrow> ed_unwalked ed2 ! i)" by auto
  qed simp
  then show ?thesis using assms(2) by simp
qed

lemma reach_until_terminators:
  assumes "\<And>r. r \<in> reach_until g t heads \<Longrightarrow> \<not> t r"
  shows "reach_until g t heads = reached g heads"
proof
  show "reach_until g t heads \<subseteq> reached g heads"
    unfolding reach_until_def by (intro Image_mono rtrancl_mono) (auto simp: parent_edges_def)
  have "y \<in> reach_until g t heads" if "(x, y) \<in> (history g)\<^sup>*" "x \<in> reach_until g t heads" for x y
    using that
  proof induction
    case (step y z)
    then have y: "y \<in> reach_until g t heads" "\<not> t y" using assms by auto
    then have "(y, z) \<in> parent_edges g t" using step(2) by (auto simp: parent_edges_def)
    with y(1) show ?case unfolding reach_until_def by (auto intro: rtrancl_into_rtrancl)
  qed
  then show "reached g heads \<subseteq> reach_until g t heads" by (auto simp: reach_until_def)
qed

lemma walk_subset: "reach_until g t heads \<subseteq> reached g heads"
  unfolding reach_until_def by (intro Image_mono rtrancl_mono) (auto simp: parent_edges_def)

text \<open>Every walked op but a lone source has a walked parent, so all of them descend from that source.\<close>

lemma all_above_source:
  assumes E: "acyclic E" "finite R" "\<And>r. r \<in> R \<Longrightarrow> r \<noteq> s \<Longrightarrow> \<exists>p \<in> R. (r, p) \<in> E" and r: "r \<in> R"
  shows "(r, s) \<in> E\<^sup>*"
proof (rule ccontr)
  let ?B = "{r \<in> R. (r, s) \<notin> E\<^sup>*}" let ?E = "E \<inter> (?B \<times> ?B)"
  assume "(r, s) \<notin> E\<^sup>*"
  with r have ne: "r \<in> ?B" by simp
  have "finite ?E" using E(2) by simp
  moreover have "acyclic ?E" using E(1) by (auto intro: acyclic_subset)
  ultimately have "wf (?E\<inverse>)" by (rule finite_acyclic_wf_converse)
  then obtain z where z: "z \<in> ?B" "\<And>y. (z, y) \<in> ?E \<Longrightarrow> y \<notin> ?B" using ne by (metis (no_types, lifting) converse_iff wf_eq_minimal)
  then have "z \<noteq> s" by auto
  then obtain p where p: "p \<in> R" "(z, p) \<in> E" using E(3) z(1) by auto
  have "p \<notin> ?B"
  proof
    assume "p \<in> ?B"
    with z p show False by blast
  qed
  with p have "(p, s) \<in> E\<^sup>*" by simp
  with p(2) have "(z, s) \<in> E\<^sup>*" by (rule converse_rtrancl_into_rtrancl)
  with z(1) show False by simp
qed

lemma gate_seeded:
  assumes "gate (Some f) reachable ed = Some (Some s)"
  shows "sources_of (ed_in_degree ed) = [s]" "f (reachable ! s) \<noteq> None"
    "\<And>i. i < length reachable \<Longrightarrow> i \<noteq> s \<Longrightarrow> \<not> ed_unwalked ed ! i"
proof -
  have "length (sources_of (ed_in_degree ed)) = 1" "s = sources_of (ed_in_degree ed) ! 0" "f (reachable ! s) \<noteq> None"
    "\<forall>i \<in> set [0..<length reachable]. \<not> ed_unwalked ed ! i \<or> i = s"
    using assms by (auto simp: gate_def Let_def split: if_splits)
  then show "sources_of (ed_in_degree ed) = [s]" "f (reachable ! s) \<noteq> None"
    "\<And>i. i < length reachable \<Longrightarrow> i \<noteq> s \<Longrightarrow> \<not> ed_unwalked ed ! i"
    by (auto simp: length_Suc_conv)
qed

lemma gate_unseeded: "gate (Some f) reachable ed = Some None \<Longrightarrow> r \<in> set reachable \<Longrightarrow> f r = None"
  by (auto simp: gate_def Let_def split: if_splits)

lemma wanted_sorted_ok:
  "distinct (se_wanted_sorted (sweep_env_of g r es opt sd))" "set (se_wanted_sorted (sweep_env_of g r es opt sd)) = set es"
proof -
  let ?f = "\<lambda>(wanted, xs) e. if e \<in> wanted then (wanted, xs) else (insert e wanted, xs @ [e])"
  have "distinct (snd (foldl ?f s es)) \<and> set (snd (foldl ?f s es)) = fst (foldl ?f s es)"
    if "distinct (snd s)" "set (snd s) = fst s" for s :: "entity_id set \<times> entity_id list" and es
    using that
  proof (induction es arbitrary: s)
    case (Cons e es)
    then show ?case using Cons.IH [of "?f s e"] by (cases s) auto
  qed simp
  from this [of "({}, [])" es] have "distinct (snd (collect_wanted es))" "set (snd (collect_wanted es)) = set es"
    using collect_wanted_set [of es] by (simp_all add: collect_wanted_def)
  then show "distinct (se_wanted_sorted (sweep_env_of g r es opt sd))" "set (se_wanted_sorted (sweep_env_of g r es opt sd)) = set es"
    by (simp_all add: sweep_env_of_def case_prod_unfold Let_def)
qed

lemma seeded_env_of_gate:
  assumes g: "acyclic (history g)" and f: "mo_cache options = Some f" and t: "t = (\<lambda>i. f i \<noteq> None)"
    and reach: "reachable = collect_reachable_until g heads t"
    and env: "env = sweep_env_of g reachable entities options (Some s)"
    and ed: "build_edges g reachable (build_index reachable) = Ok ed"
      "edges_inv (length reachable) (\<lambda>i. if i < length reachable then parent_indices env i else []) ed"
    and gate: "gate (Some f) reachable ed = Some (Some s)" and d: "f (reachable ! s) = Some d"
  shows "seeded_env g env s d"
proof -
  note gs = gate_seeded [OF gate] and cr = collect_reachable_until_spec [of g heads t]
  have R: "set reachable = reach_until g t heads" "distinct reachable" using cr by (simp_all add: reach strict_sorted_iff)
  have in_graph: "\<exists>o1. find_op g r = Some o1" if "r \<in> set reachable" for r
    using that walk_subset [of g t heads] reached_contains by (auto simp: R(1) contains_op_def)
  have deg: "ed_in_degree ed ! i = int (length (parent_indices env i))" if "i < length reachable" for i
    using ed(2) that by (simp add: edges_inv_def)
  have lend: "length (ed_in_degree ed) = length reachable" using ed(2) by (simp add: edges_inv_def)
  have src: "i \<in> set (sources_of (ed_in_degree ed)) \<longleftrightarrow> i < length reachable \<and> parent_indices env i = []" for i
    using deg lend by (auto simp: sources_of_def)
  have s: "s < length reachable" "parent_indices env s = []" using src [of s] gs(1) by simp_all
  have E [simp]: "se_graph env = g" "se_reachable env = reachable" "se_index_of env = build_index reachable" by (simp_all add: env)
  have edges: "history g `` {r} = set (o_parents o1) \<inter> set reachable"
    if r: "r \<in> set reachable" "r \<noteq> reachable ! s" and o1: "find_op g r = Some o1" for r o1
  proof -
    obtain i where i: "i < length reachable" "reachable ! i = r" using r(1) by (auto simp: in_set_conv_nth)
    then have "\<not> ed_unwalked ed ! i" using gs(3) r(2) by blast
    then have "p \<in> set reachable" if "p \<in> set (o_parents o1)" "contains_op g p" for p
      using build_edges_unwalked [OF ed(1) i(1) _ that] o1 i(2) build_index_dom [OF R(2)] by metis
    then show ?thesis using o1 in_graph by (auto simp: parent_edges_def contains_op_def)
  qed
  have "(r, reachable ! s) \<in> (history g)\<^sup>*" if "r \<in> set reachable" for r
  proof (rule all_above_source [OF g _ _ that])
    fix r assume r: "r \<in> set reachable" "r \<noteq> reachable ! s"
    obtain i where i: "i < length reachable" "reachable ! i = r" using r(1) by (auto simp: in_set_conv_nth)
    then have "i \<noteq> s" using r(2) by blast
    then have "parent_indices env i \<noteq> []" using src [of i] gs(1) i(1) by auto
    then obtain j where j: "j \<in> set (parent_indices env i)" by (cases "parent_indices env i") auto
    obtain o1 where o1: "find_op g r = Some o1" using in_graph [OF r(1)] by blast
    have at: "op_at g reachable i = Ok o1" using i o1 by (simp add: op_at_def)
    have "j < length reachable \<and> reachable ! j \<in> set (o_parents o1)"
      using j by (auto simp: parent_indices_def at set_map_filter build_index_iff [OF R(2)])
    then have "reachable ! j \<in> set reachable" "reachable ! j \<in> history g `` {r}"
      unfolding edges [OF r o1] by simp_all
    then show "\<exists>p \<in> set reachable. (r, p) \<in> history g" by blast
  qed simp
  moreover have "snapshot_at (se_cache env) (reachable ! s) = (Ok d :: raw_document checked)"
    using f d by (simp add: env sweep_env_of_def snapshot_at_def case_prod_unfold Let_def)
  moreover have "se_seeded env = Some s" by (simp add: env)
  moreover have "distinct (se_wanted_sorted env)" "set (se_wanted_sorted env) = se_wanted env"
    using wanted_sorted_ok by (simp_all add: env)
  moreover have "\<exists>o1. find_op g r = Some o1 \<and> (r \<noteq> reachable ! s \<longrightarrow> history g `` {r} = set (o_parents o1) \<inter> set reachable)"
    if "r \<in> set reachable" for r using in_graph [OF that] edges [OF that] by blast
  ultimately show ?thesis
    unfolding seeded_env_def E using R(2) s g by (intro conjI ballI) simp_all
qed

lemma reached_through_seed:
  assumes env: "seeded_env g env s d" and walk: "set (se_reachable env) = reach_until g t heads"
  shows "reached g heads = (\<Union>h \<in> set heads \<inter> set (se_reachable env). ancestors (history g) h)"
    "reached g heads \<subseteq> set (se_reachable env) \<union> ancestors (history g) (se_reachable env ! s)"
    "ancestors (history g) (se_reachable env ! s) \<subseteq> reached g heads" "set (se_reachable env) \<subseteq> reached g heads"
proof -
  let ?E = "history g" and ?r = "se_reachable env ! s" and ?R = "set (se_reachable env)"
  show sub: "?R \<subseteq> reached g heads" unfolding walk by (rule walk_subset)
  have heads: "h \<in> ?R" if "h \<in> set heads" "contains_op g h" for h
    using that unfolding walk by (auto simp: reach_until_def)
  then have "set heads \<inter> ?R = set heads \<inter> reached g heads" using sub reached_contains by blast
  then show "reached g heads = (\<Union>h \<in> set heads \<inter> ?R. ancestors ?E h)" using reached_ancestors [of g heads] by simp
  have r: "?r \<in> ?R" using seeded_envD(5) [OF env] by simp
  then show "ancestors ?E ?r \<subseteq> reached g heads"
    using sub by (auto simp: ancestors_def reach_until_def intro: rtrancl_trans)
  have "y \<in> ?R \<union> ancestors ?E ?r" if "(x, y) \<in> ?E\<^sup>*" "x \<in> ?R \<union> ancestors ?E ?r" for x y
    using that
  proof induction
    case (step y z)
    have "?r \<in> ancestors ?E ?r" by (simp add: ancestors_def)
    then consider "y \<in> ?R" "y \<noteq> ?r" | "y \<in> ancestors ?E ?r" using step(3,4) by blast
    then show ?case
    proof cases
      case 1
      have "z \<in> ?E `` {y}" using step(2) by (rule ImageI) simp
      then have "z \<in> ?R" using seeded_env_edges [OF env 1] by (rule subsetD [rotated])
      then show ?thesis by (rule UnI1)
    next
      case 2
      then have "z \<in> ancestors ?E ?r" using step(2) unfolding ancestors_def by (blast intro: rtrancl_into_rtrancl)
      then show ?thesis by blast
    qed
  qed
  then show "reached g heads \<subseteq> ?R \<union> ancestors ?E ?r" using heads unfolding reach_until_def by blast
qed

subsection \<open>Caches\<close>

definition current_document :: "op_graph \<Rightarrow> op_id list \<Rightarrow> entity_id list \<Rightarrow> raw_document \<Rightarrow> bool" where
  "current_document g heads entities d \<longleftrightarrow> document_wf d \<and>
     (\<forall>p v. document_try_get d p = Some v \<longleftrightarrow> (entities = [] \<or> pp_entity p \<in> set entities) \<and> rp_writers v \<noteq> [] \<and>
        sorted_wrt (<) (map pv_writer (rp_writers v)) \<and>
        set (rp_writers v) = current_values g (history g) (reached g heads) p)"

lemma current_document_unique:
  assumes "current_document g heads es d" "current_document g heads es d'"
  shows "d = d'"
proof (rule document_ext)
  show "document_wf d" "document_wf d'" using assms by (simp_all add: current_document_def)
  show "document_try_get d p = document_try_get d' p" for p
  proof -
    have "document_try_get d p = Some v \<longleftrightarrow> document_try_get d' p = Some v" for v
      using assms by (simp add: current_document_def)
    then show ?thesis by (metis not_None_eq)
  qed
qed

lemma reached_single:
  assumes "contains_op g r"
  shows "reached g [r] = ancestors (history g) r"
proof -
  have "{h \<in> set [r]. contains_op g h} = {r}" using assms by auto
  then show ?thesis unfolding reach_until_def ancestors_def by simp
qed

lemma current_document_seed: "contains_op g r \<Longrightarrow> current_document g [r] [] d \<Longrightarrow> seed_ok g r d"
  by (simp add: current_document_def seed_ok_def reached_single)

text \<open>A cache is valid on a graph if each entry for an op of the graph is what materializing that op gives.\<close>

definition cache_valid :: "op_graph \<Rightarrow> snapshot_lookup \<Rightarrow> bool" where
  "cache_valid g f \<longleftrightarrow> (\<forall>r d. f r = Some d \<longrightarrow> contains_op g r \<longrightarrow> current_document g [r] [] d)"

lemma materialize_seeded_spec:
  assumes g: "graph_ok g" "payloads_valid g" "acyclic (history g)" and f: "mo_cache options = Some f" "cache_valid g f"
  shows "\<exists>d stats. materialize_impl g heads entities options = Ok (d, stats) \<and> current_document g heads entities d"
proof -
  define t where t: "t = (\<lambda>i. f i \<noteq> None)"
  define reachable where reach: "reachable = collect_reachable_until g heads t"
  note cr = collect_reachable_until_spec [of g heads t, folded reach]
  have dr: "distinct reachable" using cr(1) by (simp add: strict_sorted_iff)
  have in_graph: "contains_op g r" if "r \<in> set reachable" for r
    using that cr(2) walk_subset [of g t heads] reached_contains by auto
  then have ops: "\<And>r. r \<in> set reachable \<Longrightarrow> find_op g r \<noteq> None" by (auto simp: contains_op_def)
  let ?env = "sweep_env_of g reachable entities options"
  obtain ed where ed: "build_edges g reachable (build_index reachable) = Ok ed"
    "edges_inv (length reachable) (\<lambda>i. if i < length reachable then parent_indices (?env sd) i else []) ed" for sd
  proof -
    obtain ed where e: "build_edges g reachable (build_index reachable) = Ok ed"
      "edges_inv (length reachable) (\<lambda>i. if i < length reachable then parent_indices (?env None) i else []) ed"
      using build_edges_spec [OF dr ops, of "?env None"] by auto
    have same: "parent_indices (?env sd) = parent_indices (?env None)" for sd
      by (rule ext) (simp only: parent_indices_def sweep_env_of_simps)
    have "edges_inv (length reachable) (\<lambda>i. if i < length reachable then parent_indices (?env sd) i else []) ed" for sd
      unfolding same [of sd] by (rule e(2))
    with e(1) show thesis by (rule that)
  qed
  have impl: "materialize_impl g heads entities options =
      (case gate (Some f) reachable ed of
         None \<Rightarrow> rbind (materialize_plain g heads entities (options\<lparr>mo_cache := None\<rparr>)) (\<lambda>(d, stats). Ok (d, stats\<lparr>ms_fell_back := True\<rparr>))
       | Some seeded \<Rightarrow> rbind (run_sweep (?env seeded) ed heads) (\<lambda>(d, n).
           Ok (d, default_stats\<lparr>ms_ops_walked := n, ms_snapshots_used := (if seeded = None then 0 else 1),
             ms_snapshot_entities_read := seed_entities_read f reachable entities seeded\<rparr>)))"
    unfolding materialize_impl_def f(1) option.case Let_def t [symmetric] reach [symmetric] ed(1) by simp
  have ne: "set (rp_writers v) = V \<Longrightarrow> V \<noteq> {} \<longleftrightarrow> rp_writers v \<noteq> []" for v :: raw_property and V by (metis set_empty)
  consider "gate (Some f) reachable ed = None" | "gate (Some f) reachable ed = Some None"
    | s where "gate (Some f) reachable ed = Some (Some s)" by (metis not_None_eq)
  then show ?thesis
  proof cases
    case 1
    with materialize_plain_spec [OF g, of heads entities "options\<lparr>mo_cache := None\<rparr>"] show ?thesis
      by (auto simp: impl current_document_def)
  next
    case 2
    have "reach_until g t heads = reached g heads"
      by (rule reach_until_terminators) (use gate_unseeded [OF 2] cr(2) t in auto)
    then have same: "reachable = collect_reachable g heads"
      using cr collect_reachable_spec [of g heads] by (metis strict_sorted_equal)
    have ra: "reached g heads = (\<Union>h \<in> set heads \<inter> set reachable. ancestors (history g) h)"
      unfolding same collect_reachable_spec(2) by (rule reached_ancestors)
    have "set reachable = reached g heads" using collect_reachable_spec(2) [of g heads] same by simp
    with run_sweep_spec [OF plain_env_of [OF g(3), of heads entities options, folded same] g(1,2), of ed "reached g heads" heads,
        unfolded sweep_env_of_simps, OF ed(2) _ ra]
    obtain d where d: "run_sweep (?env None) ed heads = Ok (d, length reachable)" "document_wf d"
      "\<forall>p v. document_try_get d p = Some v \<longleftrightarrow> (entities = [] \<or> pp_entity p \<in> set entities) \<and>
         current_values g (history g) (reached g heads) p \<noteq> {} \<and> sorted_wrt (<) (map pv_writer (rp_writers v)) \<and>
         set (rp_writers v) = current_values g (history g) (reached g heads) p" by auto
    then have "current_document g heads entities d" using ne by (auto simp: current_document_def)
    with d(1) 2 show ?thesis by (simp add: impl)
  next
    case (3 s)
    obtain d0 where d0: "f (reachable ! s) = Some d0" using gate_seeded(2) [OF 3] by blast
    have env: "seeded_env g (?env (Some s)) s d0"
      by (rule seeded_env_of_gate [OF g(3) f(1) t reach refl ed(1) ed(2) 3 d0])
    have s: "s < length reachable" using seeded_envD(5) [OF env] by simp
    have "contains_op g (reachable ! s)" using in_graph nth_mem [OF s] by blast
    then have seed: "seed_ok g (reachable ! s) d0" using f(2) d0 current_document_seed by (simp add: cache_valid_def)
    have walk: "set (se_reachable (?env (Some s))) = reach_until g t heads" using cr(2) by simp
    note R = reached_through_seed [OF env walk]
    obtain d where d: "run_sweep (?env (Some s)) ed heads = Ok (d, length reachable)" "document_wf d"
      "\<forall>p v. document_try_get d p = Some v \<longleftrightarrow> \<not> (entities \<noteq> [] \<and> pp_entity p \<notin> set entities) \<and>
         current_values g (history g) (reached g heads) p \<noteq> {} \<and> sorted_wrt (<) (map pv_writer (rp_writers v)) \<and>
         set (rp_writers v) = current_values g (history g) (reached g heads) p"
      using run_seeded_sweep [OF env g(1,2) _ _ _ gate_seeded(1) [OF 3] R, of "length reachable"] seed ed(2) by auto
    then have "current_document g heads entities d" using ne by (auto simp: current_document_def)
    with d(1) 3 show ?thesis by (simp add: impl)
  qed
qed

end
