(* ===== verification/History.thy ===== *)
theory History
  imports Seeded_Sweep
begin

text \<open>
  How the current state of a history moves when the history grows.  A document depends only on the part of the graph
  its heads reach (\<open>current_document_agree\<close>), and the document at an op is the document at its parents with the op's
  own assignments laid on top (\<open>current_document_top\<close>).  The snapshot cache advances along single-parent edges with
  these lemmas, the op builder diffs against them and recovery relies on them.
\<close>

subsection \<open>The part of a graph that matters\<close>

lemma rtrancl_agree:
  assumes "(v, w) \<in> E\<^sup>*" "v \<in> R" "\<And>r. r \<in> R \<Longrightarrow> E `` {r} = E' `` {r}" "E `` R \<subseteq> R"
  shows "(v, w) \<in> E'\<^sup>* \<and> w \<in> R"
  using assms(1)
proof (induction rule: rtrancl_induct)
  case (step y z)
  then have "(y, z) \<in> E'" "z \<in> R" using assms(3) [of y] assms(4) by auto
  with step show ?case by (auto intro: rtrancl_into_rtrancl)
qed (use assms(2) in simp)

lemma reached_closed: "history g `` reached g heads \<subseteq> reached g heads"
  by (auto intro: reached_step)

text \<open>Two graphs that agree on everything \<open>heads\<close> reaches in the first.\<close>

definition agree_below :: "op_graph \<Rightarrow> op_graph \<Rightarrow> op_id list \<Rightarrow> bool" where
  "agree_below g g' heads \<longleftrightarrow>
     (\<forall>r \<in> reached g heads. find_op g r = find_op g' r \<and> history g `` {r} = history g' `` {r}) \<and>
     (\<forall>h \<in> set heads. contains_op g h \<longleftrightarrow> contains_op g' h)"

lemma agree_path_iff:
  assumes "agree_below g g' heads" "r \<in> reached g heads"
  shows "(r, w) \<in> (history g')\<^sup>* \<longleftrightarrow> (r, w) \<in> (history g)\<^sup>*"
proof -
  have edges: "\<And>r. r \<in> reached g heads \<Longrightarrow> history g `` {r} = history g' `` {r}" using assms(1) by (simp add: agree_below_def)
  then have closed: "history g' `` reached g heads \<subseteq> reached g heads" using reached_closed [of g heads] by blast
  show ?thesis
    using rtrancl_agree [OF _ assms(2) edges reached_closed, of w] rtrancl_agree [OF _ assms(2) edges [symmetric] closed, of w]
    by blast
qed

lemma agree_reached:
  assumes "agree_below g g' heads"
  shows "reached g' heads = reached g heads"
proof -
  have "h \<in> reached g heads" if "h \<in> set heads" "contains_op g h" for h using that by (auto simp: reach_until_def)
  moreover have "\<And>h. h \<in> set heads \<Longrightarrow> contains_op g h \<longleftrightarrow> contains_op g' h" using assms by (simp add: agree_below_def)
  ultimately show ?thesis using agree_path_iff [OF assms] unfolding reach_until_def by fastforce
qed

lemma agree_current_values:
  assumes "agree_below g g' heads"
  shows "current_values g' (history g') (reached g heads) p = current_values g (history g) (reached g heads) p"
proof -
  have same: "r \<in> reached g heads \<Longrightarrow> assignment_at g' r p = assignment_at g r p" for r
    using assms by (simp add: assignment_at_def op_writes_def agree_below_def)
  have "writers_of g' p \<inter> reached g heads = writers_of g p \<inter> reached g heads"
    using same by (auto simp: writers_of_def)
  then have "mx (history g') (writers_of g' p) (reached g heads) = mx (history g) (writers_of g p) (reached g heads)"
    using agree_path_iff [OF assms] by (auto simp: mx_def)
  then show ?thesis using same by (auto simp: current_values_def mx_def)
qed

lemma current_document_agree:
  assumes "\<And>r. r \<in> reached g heads \<Longrightarrow> find_op g r = find_op g' r"
    and "\<And>r. r \<in> reached g heads \<Longrightarrow> history g `` {r} = history g' `` {r}"
    and "\<And>h. h \<in> set heads \<Longrightarrow> contains_op g h \<longleftrightarrow> contains_op g' h"
  shows "current_document g' heads es d \<longleftrightarrow> current_document g heads es d"
proof -
  have "agree_below g g' heads" using assms by (simp add: agree_below_def)
  then show ?thesis by (simp add: current_document_def agree_reached agree_current_values)
qed

subsection \<open>An op on top of its parents\<close>

lemma current_values_top:
  assumes E: "acyclic E"
  shows "current_values g E (ancestors E x) p =
    (case assignment_at g x p of
       None \<Rightarrow> current_values g E (\<Union>q \<in> E `` {x}. ancestors E q) p
     | Some a \<Rightarrow> if is_abstain a then {} else {\<lparr>pv_writer = x, pv_value = a_value a\<rparr>})"
proof -
  let ?P = "\<Union>q \<in> E `` {x}. ancestors E q"
  have anc: "ancestors E x = insert x ?P" by (rule ancestors_step)
  have new: "x \<notin> ?P"
    using E unfolding ancestors_def acyclic_def by (auto dest: rtrancl_into_trancl2)
  have top: "(x, w) \<in> E\<^sup>*" if "w \<in> ?P" for w
    using that by (auto simp: ancestors_def intro: converse_rtrancl_into_rtrancl)
  have closed: "anc_closed E ?P" by (rule anc_closed_Union) (auto simp: anc_closed_ancestors)
  have mx: "mx E (writers_of g p) (ancestors E x) = (if x \<in> writers_of g p then {x} else mx E (writers_of g p) ?P)"
    unfolding anc by (rule mx_insert_top(1) [OF E closed new top])
  show ?thesis
    unfolding current_values_def mx by (auto simp: writers_of_def split: option.split)
qed

lemma reached_parents:
  assumes "find_op g x = Some o1"
  shows "reached g (o_parents o1) = (\<Union>q \<in> history g `` {x}. ancestors (history g) q)"
  using assms by (auto simp: reach_until_def parent_edges_def ancestors_def)

text \<open>The only property with exactly the writer \<open>w\<close>.\<close>

lemma single_writer_iff:
  "rp_writers v \<noteq> [] \<and> sorted_wrt (<) (map pv_writer (rp_writers v)) \<and> set (rp_writers v) = {w} \<longleftrightarrow> v = \<lparr>rp_writers = [w]\<rparr>"
  using strict_sorted_map_unique [of pv_writer "rp_writers v" "[w]"] by auto

lemma current_document_top:
  assumes E: "acyclic (history g)" and x: "find_op g x = Some o1"
    and d: "current_document g (o_parents o1) es d"
  shows "current_document g [x] es d' \<longleftrightarrow> document_wf d' \<and> (\<forall>p. document_try_get d' p =
    (if es = [] \<or> pp_entity p \<in> set es then
       (case assignment_at g x p of
          None \<Rightarrow> document_try_get d p
        | Some a \<Rightarrow> if is_abstain a then None else Some \<lparr>rp_writers = [\<lparr>pv_writer = x, pv_value = a_value a\<rparr>]\<rparr>)
     else None))"
proof -
  let ?ok = "\<lambda>C (v :: raw_property). rp_writers v \<noteq> [] \<and> sorted_wrt (<) (map pv_writer (rp_writers v)) \<and> set (rp_writers v) = C"
  have x1: "contains_op g x" using x by (simp add: contains_op_def)
  define F where "F = (\<lambda>p. if es = [] \<or> pp_entity p \<in> set es then
       (case assignment_at g x p of
          None \<Rightarrow> document_try_get d p
        | Some a \<Rightarrow> if is_abstain a then None else Some \<lparr>rp_writers = [\<lparr>pv_writer = x, pv_value = a_value a\<rparr>]\<rparr>)
     else None)"
  have "(F p = Some v) = ((es = [] \<or> pp_entity p \<in> set es) \<and>
      ?ok (current_values g (history g) (ancestors (history g) x) p) v)" for p v
  proof (cases "assignment_at g x p")
    case None
    then show ?thesis
      using d by (auto simp: F_def current_values_top [OF E] current_document_def reached_parents [OF x])
  next
    case (Some a)
    then show ?thesis
      using single_writer_iff by (auto simp: F_def current_values_top [OF E])
  qed
  then have "current_document g [x] es d' \<longleftrightarrow> document_wf d' \<and> (\<forall>p v. document_try_get d' p = Some v \<longleftrightarrow> F p = Some v)"
    by (simp add: current_document_def reached_single [OF x1])
  also have "\<dots> \<longleftrightarrow> document_wf d' \<and> (\<forall>p. document_try_get d' p = F p)" by (metis not_None_eq)
  finally show ?thesis by (simp add: F_def)
qed

subsection \<open>Adding an op\<close>

lemma graph_add_find:
  assumes "\<not> contains_op g (o_id x)"
  shows "find_op (fst (graph_add g x)) r = (if r = o_id x then Some x else find_op g r)"
  using assms by (auto simp: graph_add_def find_op_def contains_op_def Let_def map_add_def split: option.splits)

lemma history_add_mono: "\<not> contains_op g (o_id x) \<Longrightarrow> history g \<subseteq> history (fst (graph_add g x))"
  by (auto simp: parent_edges_def graph_add_find contains_op_def)

lemma current_document_add:
  assumes new: "\<not> contains_op g (o_id x)" and E: "acyclic (history (fst (graph_add g x)))"
  shows "current_document (fst (graph_add g x)) (o_parents x) es d \<longleftrightarrow> current_document g (o_parents x) es d"
proof (rule current_document_agree)
  let ?g = "fst (graph_add g x)"
  fix r assume r: "r \<in> reached g (o_parents x)"
  then have "contains_op g r" by (rule reached_contains)
  with new have rx: "r \<noteq> o_id x" by auto
  then show "find_op g r = find_op ?g r" by (simp add: graph_add_find [OF new])
  from r obtain p where p: "p \<in> set (o_parents x)" "contains_op g p" "(p, r) \<in> (history g)\<^sup>*"
    by (auto simp: reach_until_def)
  from p(3) have pr: "(p, r) \<in> (history ?g)\<^sup>*" using rtrancl_mono [OF history_add_mono [OF new]] by blast
  have "(o_id x, p) \<in> history ?g" using p(1,2) by (auto simp: parent_edges_def graph_add_find [OF new] contains_op_def)
  from this pr have "(o_id x, r) \<in> (history ?g)\<^sup>+" by (rule rtrancl_into_trancl2)
  with E have "(r, o_id x) \<notin> history ?g" by (auto simp: acyclic_def dest: trancl_into_trancl)
  then show "history g `` {r} = history ?g `` {r}"
    using rx by (auto simp: parent_edges_def graph_add_find [OF new] contains_op_def split: if_splits)
next
  let ?g = "fst (graph_add g x)"
  fix h assume h: "h \<in> set (o_parents x)"
  show "contains_op g h \<longleftrightarrow> contains_op ?g h"
  proof (cases "h = o_id x")
    case True
    then have "(o_id x, o_id x) \<in> history ?g" using h by (auto simp: parent_edges_def graph_add_find [OF new] contains_op_def)
    with E show ?thesis by (auto simp: acyclic_def)
  qed (simp add: graph_add_find [OF new] contains_op_def)
qed

end
