(* ===== verification/Snapshot_Document.thy ===== *)
theory Snapshot_Document
  imports Build_Document Search "HOL-Library.Sublist"
begin

text \<open>
  Model of \<^verbatim>\<open>versioned-document/snapshot_document.hh\<close> and \<^verbatim>\<open>snapshot_document.cc\<close>: a document that owns its value
  bytes in a list of chunks, and its two edits.

  A value view is its bytes, so what a chunk guarantees (a view never dangles) appears as an invariant on the
  chunks: none is ever filled past the capacity it was reserved with.  The capacity a reservation of \<open>n\<close> bytes
  obtains is \<open>n + slack n\<close>: the allocator may round a request up, by an amount the code does not know.
\<close>

record chunk =
  ck_bytes :: bytes
  ck_capacity :: nat

record snapshot_document =
  sn_chunks :: "chunk list"
  sn_owned_bytes :: nat
  sn_dead_bytes :: nat
  sn_property_count :: int
  sn_document :: raw_document

definition empty_snapshot :: snapshot_document where
  "empty_snapshot = \<lparr>sn_chunks = [], sn_owned_bytes = 0, sn_dead_bytes = 0, sn_property_count = 0,
     sn_document = \<lparr>rd_entities = []\<rparr>\<rparr>"

definition writers_bytes :: "raw_property \<Rightarrow> nat" where
  "writers_bytes p = foldl (\<lambda>total w. total + length (pv_value w)) 0 (rp_writers p)"

definition total_value_bytes :: "raw_document \<Rightarrow> nat" where
  "total_value_bytes d =
     foldl (\<lambda>total (_, e). foldl (\<lambda>total (_, c). foldl (\<lambda>total (_, p).
       foldl (\<lambda>total w. total + length (pv_value w)) total (rp_writers p)) total (rc_properties c)) total
         (re_components e)) 0 (rd_entities d)"

text \<open>\<^verbatim>\<open>index_of\<close> and \<^verbatim>\<open>entry_for\<close>; the latter returns the vector and the index of the entry it refers to.\<close>

definition entry_index :: "(str \<times> 'v) list \<Rightarrow> str \<Rightarrow> nat option" where
  "entry_index entries i =
     (let at = first_at_least_in_sorted (map fst entries) i (\<lambda>a b. id_compare_bytes a b < 0) in
      if at < length entries \<and> fst (entries ! at) = i then Some at else None)"

definition entry_for :: "(str \<times> 'v) list \<Rightarrow> str \<Rightarrow> 'v \<Rightarrow> (str \<times> 'v) list \<times> nat" where
  "entry_for entries i dflt =
     (let at = first_at_least_in_sorted (map fst entries) i (\<lambda>a b. id_compare_bytes a b < 0) in
      if at < length entries \<and> fst (entries ! at) = i then (entries, at)
      else (take at entries @ (i, dflt) # drop at entries, at))"

definition remove_at :: "'a list \<Rightarrow> nat \<Rightarrow> 'a list" where
  "remove_at xs at = take at xs @ drop (at + 1) xs"

text \<open>The copy fills one arena, level by level; \<open>arena\<close> is what has been filled so far.\<close>

definition copy_writer :: "bytes \<times> property_value list \<Rightarrow> property_value \<Rightarrow> bytes \<times> property_value list" where
  "copy_writer acc w =
     (case acc of (arena, ws) \<Rightarrow>
       (arena @ pv_value w, ws @ [\<lparr>pv_writer = pv_writer w,
          pv_value = take (length (pv_value w)) (drop (length arena) (arena @ pv_value w))\<rparr>]))"

definition copy_property ::
  "bytes \<times> int \<times> (property_id \<times> raw_property) list \<Rightarrow> property_id \<times> raw_property \<Rightarrow>
   bytes \<times> int \<times> (property_id \<times> raw_property) list" where
  "copy_property acc p =
     (case acc of (arena, cnt, ps) \<Rightarrow>
       (case foldl copy_writer (arena, []) (rp_writers (snd p)) of (arena, ws) \<Rightarrow>
         (arena, cnt + 1, ps @ [(fst p, \<lparr>rp_writers = ws\<rparr>)])))"

definition copy_component ::
  "bytes \<times> int \<times> (component_type_id \<times> raw_component) list \<Rightarrow> component_type_id \<times> raw_component \<Rightarrow>
   bytes \<times> int \<times> (component_type_id \<times> raw_component) list" where
  "copy_component acc c =
     (case acc of (arena, cnt, cs) \<Rightarrow>
       (case foldl copy_property (arena, cnt, []) (rc_properties (snd c)) of (arena, cnt, ps) \<Rightarrow>
         (arena, cnt, cs @ [(fst c, \<lparr>rc_properties = ps\<rparr>)])))"

definition copy_entity ::
  "bytes \<times> int \<times> (entity_id \<times> raw_entity) list \<Rightarrow> entity_id \<times> raw_entity \<Rightarrow>
   bytes \<times> int \<times> (entity_id \<times> raw_entity) list" where
  "copy_entity acc e =
     (case acc of (arena, cnt, es) \<Rightarrow>
       (case foldl copy_component (arena, cnt, []) (re_components (snd e)) of (arena, cnt, cs) \<Rightarrow>
         (arena, cnt, es @ [(fst e, \<lparr>re_components = cs\<rparr>)])))"

definition create_owning_copy :: "(nat \<Rightarrow> nat) \<Rightarrow> raw_document \<Rightarrow> snapshot_document checked" where
  "create_owning_copy slack d =
     (let size = total_value_bytes d in
      case foldl copy_entity ([], 0, []) (rd_entities d) of (arena, cnt, es) \<Rightarrow>
        rbind (check (length arena = size)) (\<lambda>_.
          Ok \<lparr>sn_chunks = [\<lparr>ck_bytes = arena, ck_capacity = size + slack size\<rparr>], sn_owned_bytes = size, sn_dead_bytes = 0,
              sn_property_count = cnt, sn_document = \<lparr>rd_entities = es\<rparr>\<rparr>))"

definition create_from_owned_arena :: "chunk \<Rightarrow> raw_document \<Rightarrow> snapshot_document" where
  "create_from_owned_arena arena d =
     \<lparr>sn_chunks = [arena], sn_owned_bytes = length (ck_bytes arena), sn_dead_bytes = 0,
      sn_property_count = int (property_count d), sn_document = d\<rparr>"

definition impl_append :: "(nat \<Rightarrow> nat) \<Rightarrow> bytes \<Rightarrow> snapshot_document \<Rightarrow> value_view \<times> snapshot_document" where
  "impl_append slack bs s =
     (let need = length bs;
          chunks = (if sn_chunks s = [] \<or> length (ck_bytes (last (sn_chunks s))) + need > ck_capacity (last (sn_chunks s))
                    then sn_chunks s @ [\<lparr>ck_bytes = [], ck_capacity = max 4096 need + slack (max 4096 need)\<rparr>] else sn_chunks s);
          at = length (ck_bytes (last chunks));
          c = (last chunks)\<lparr>ck_bytes := ck_bytes (last chunks) @ bs\<rparr> in
      (take need (drop at (ck_bytes c)),
       s\<lparr>sn_chunks := butlast chunks @ [c], sn_owned_bytes := sn_owned_bytes s + need\<rparr>))"

text \<open>The three nested references \<^verbatim>\<open>set_single_writer\<close> obtains, and writing the property back through them.\<close>

record property_ref =
  pr_entities :: "(entity_id \<times> raw_entity) list"
  pr_entity_at :: nat
  pr_components :: "(component_type_id \<times> raw_component) list"
  pr_component_at :: nat
  pr_properties :: "(property_id \<times> raw_property) list"
  pr_property_at :: nat

definition property_ref_for :: "raw_document \<Rightarrow> property_path \<Rightarrow> property_ref" where
  "property_ref_for d path =
     (let (es, i) = entry_for (rd_entities d) (pp_entity path) \<lparr>re_components = []\<rparr>;
          (cs, j) = entry_for (re_components (snd (es ! i))) (pp_component path) \<lparr>rc_properties = []\<rparr>;
          (ps, k) = entry_for (rc_properties (snd (cs ! j))) (pp_property path) \<lparr>rp_writers = []\<rparr> in
      \<lparr>pr_entities = es, pr_entity_at = i, pr_components = cs, pr_component_at = j, pr_properties = ps, pr_property_at = k\<rparr>)"

definition ref_property :: "property_ref \<Rightarrow> raw_property" where
  "ref_property r = snd (pr_properties r ! pr_property_at r)"

definition write_ref :: "property_path \<Rightarrow> property_ref \<Rightarrow> raw_property \<Rightarrow> raw_document" where
  "write_ref path r v =
     (let ps = (pr_properties r)[pr_property_at r := (pp_property path, v)];
          cs = (pr_components r)[pr_component_at r := (pp_component path, \<lparr>rc_properties = ps\<rparr>)] in
      \<lparr>rd_entities = (pr_entities r)[pr_entity_at r := (pp_entity path, \<lparr>re_components = cs\<rparr>)]\<rparr>)"

definition set_single_writer ::
  "(nat \<Rightarrow> nat) \<Rightarrow> property_path \<Rightarrow> op_id \<Rightarrow> bytes \<Rightarrow> snapshot_document \<Rightarrow> snapshot_document" where
  "set_single_writer slack path writer bs s =
     (let r = property_ref_for (sn_document s) path;
          old = ref_property r;
          s = (if rp_writers old = [] then s\<lparr>sn_property_count := sn_property_count s + 1\<rparr> else s);
          s = s\<lparr>sn_dead_bytes := sn_dead_bytes s + writers_bytes old\<rparr>;
          (v, s) = impl_append slack bs s in
      s\<lparr>sn_document := write_ref path r \<lparr>rp_writers = [\<lparr>pv_writer = writer, pv_value = v\<rparr>]\<rparr>\<rparr>)"

text \<open>The result and the two flags: whether anything changed, and \<^verbatim>\<open>out_inserted\<close>.\<close>

definition set_single_writer_if_changed ::
  "(nat \<Rightarrow> nat) \<Rightarrow> property_path \<Rightarrow> op_id \<Rightarrow> bytes \<Rightarrow> snapshot_document \<Rightarrow> snapshot_document \<times> bool \<times> bool" where
  "set_single_writer_if_changed slack path writer bs s =
     (let r = property_ref_for (sn_document s) path;
          old = ref_property r;
          inserted = (rp_writers old = []) in
      if \<not> inserted \<and> length (rp_writers old) = 1 \<and> pv_value (rp_writers old ! 0) = bs then (s, False, inserted)
      else
        (let s = (if inserted then s\<lparr>sn_property_count := sn_property_count s + 1\<rparr> else s);
             s = s\<lparr>sn_dead_bytes := sn_dead_bytes s + writers_bytes old\<rparr>;
             (v, s) = impl_append slack bs s in
         (s\<lparr>sn_document := write_ref path r \<lparr>rp_writers = [\<lparr>pv_writer = writer, pv_value = v\<rparr>]\<rparr>\<rparr>, True, inserted)))"

definition clear_writers :: "property_path \<Rightarrow> snapshot_document \<Rightarrow> snapshot_document" where
  "clear_writers path s =
     (let d = sn_document s in
      case entry_index (rd_entities d) (pp_entity path) of None \<Rightarrow> s | Some i \<Rightarrow>
        (let ent = snd (rd_entities d ! i) in
         case entry_index (re_components ent) (pp_component path) of None \<Rightarrow> s | Some j \<Rightarrow>
           (let cmp = snd (re_components ent ! j) in
            case entry_index (rc_properties cmp) (pp_property path) of None \<Rightarrow> s | Some k \<Rightarrow>
              (let s = s\<lparr>sn_dead_bytes := sn_dead_bytes s + writers_bytes (snd (rc_properties cmp ! k)),
                        sn_property_count := sn_property_count s - 1\<rparr>;
                   ps = remove_at (rc_properties cmp) k in
               if ps \<noteq> [] then
                 s\<lparr>sn_document := \<lparr>rd_entities = (rd_entities d)[i := (pp_entity path, \<lparr>re_components =
                     (re_components ent)[j := (pp_component path, \<lparr>rc_properties = ps\<rparr>)]\<rparr>)]\<rparr>\<rparr>
               else
                 (let cs = remove_at (re_components ent) j in
                  if cs \<noteq> [] then
                    s\<lparr>sn_document := \<lparr>rd_entities = (rd_entities d)[i := (pp_entity path, \<lparr>re_components = cs\<rparr>)]\<rparr>\<rparr>
                  else s\<lparr>sn_document := \<lparr>rd_entities = remove_at (rd_entities d) i\<rparr>\<rparr>)))))"

subsection \<open>Keyed vectors\<close>

lemma first_at_least_key:
  assumes "sorted_wrt (<) (map fst es)" "at = first_at_least_in_sorted (map fst es) i (\<lambda>a b. id_compare_bytes a b < 0)"
  shows "at \<le> length es" "\<forall>k < at. fst (es ! k) < i" "\<forall>k. at \<le> k \<and> k < length es \<longrightarrow> i \<le> fst (es ! k)"
  using first_at_least_spec [OF assms(1), of i] assms(2) by (auto simp: splits_at_def not_less)

lemma entry_index_Some:
  assumes "sorted_wrt (<) (map fst es)"
  shows "entry_index es i = Some at \<longleftrightarrow> at < length es \<and> fst (es ! at) = i"
proof -
  let ?a = "first_at_least_in_sorted (map fst es) i (\<lambda>a b. id_compare_bytes a b < 0)"
  note f = first_at_least_key [OF assms refl, of i]
  have "?a = at" if at: "at < length es" "fst (es ! at) = i"
  proof (rule ccontr)
    assume "?a \<noteq> at"
    then consider "at < ?a" | "?a < at" by linarith
    then show False
    proof cases
      case 1
      with f(2) at show False by auto
    next
      case 2
      then have "fst (es ! ?a) < fst (es ! at)" using sorted_wrt_nth_less [OF assms 2] at(1) by simp
      moreover have "i \<le> fst (es ! ?a)" using f(3) 2 at(1) by auto
      ultimately show False using at(2) by simp
    qed
  qed
  then show ?thesis by (auto simp: entry_index_def Let_def)
qed

lemma entry_index_None:
  assumes "sorted_wrt (<) (map fst es)"
  shows "entry_index es i = None \<longleftrightarrow> i \<notin> fst ` set es"
proof
  show "entry_index es i = None" if "i \<notin> fst ` set es"
    using that entry_index_Some [OF assms, of i] by (metis image_eqI not_None_eq nth_mem)
  show "i \<notin> fst ` set es" if "entry_index es i = None"
    using that entry_index_Some [OF assms, of i] by (force simp: in_set_conv_nth)
qed

definition keyed_update :: "(str \<times> 'v) list \<Rightarrow> str \<Rightarrow> 'v option \<Rightarrow> (str \<times> 'v) list \<Rightarrow> bool" where
  "keyed_update es i v es' \<longleftrightarrow> sorted_wrt (<) (map fst es') \<and> map_of es' = (map_of es)(i := v)"

lemma keyed_updateI:
  assumes "sorted_wrt (<) (map fst es)" "sorted_wrt (<) (map fst es')"
    "set es' = (case v of None \<Rightarrow> {} | Some w \<Rightarrow> {(i, w)}) \<union> {x \<in> set es. fst x \<noteq> i}"
  shows "keyed_update es i v es'"
proof -
  have m: "map_of l k = Some w \<longleftrightarrow> (k, w) \<in> set l" if "sorted_wrt (<) (map fst l)" for l :: "(str \<times> 'a) list" and k w
    using that by (simp add: strict_sorted_iff)
  have "map_of es' k = Some w \<longleftrightarrow> ((map_of es)(i := v)) k = Some w" for k w
    using m [OF assms(1), of k w] m [OF assms(2), of k w] unfolding assms(3) by (auto split: option.splits)
  then have "map_of es' = (map_of es)(i := v)" by (metis ext option.exhaust)
  then show ?thesis using assms(2) by (simp add: keyed_update_def)
qed

lemma remove_at_spec:
  fixes es :: "(str \<times> 'v) list"
  assumes "sorted_wrt (<) (map fst es)" "at < length es" "fst (es ! at) = i"
  shows "keyed_update es i None (remove_at es at)" "set (remove_at es at) = {x \<in> set es. fst x \<noteq> i}"
proof -
  have es: "es = take at es @ es ! at # drop (Suc at) es" using assms(2) by (simp add: id_take_nth_drop)
  have d: "distinct (map fst es)" using assms(1) by (simp add: strict_sorted_iff)
  have "sorted_wrt (<) (map fst (take at es @ es ! at # drop (Suc at) es))" using assms(1) es by simp
  then have s: "sorted_wrt (<) (map fst (remove_at es at))" by (auto simp: remove_at_def sorted_wrt_append)
  have "distinct (map fst (take at es @ es ! at # drop (Suc at) es))" using d es by simp
  then have "\<forall>x \<in> set (take at es). fst x \<noteq> i" "\<forall>x \<in> set (drop (Suc at) es). fst x \<noteq> i"
    using assms(3) by (force simp: image_iff)+
  moreover have "set es = set (take at es) \<union> {es ! at} \<union> set (drop (Suc at) es)" by (subst es) auto
  ultimately show r: "set (remove_at es at) = {x \<in> set es. fst x \<noteq> i}" using assms(3) by (auto simp: remove_at_def)
  show "keyed_update es i None (remove_at es at)" by (rule keyed_updateI [OF assms(1) s]) (simp add: r)
qed

lemma keyed_update_nth:
  assumes "sorted_wrt (<) (map fst es)" "at < length es" "fst (es ! at) = i"
  shows "keyed_update es i (Some v) (es[at := (i, v)])"
proof (rule keyed_updateI [OF assms(1)])
  have "map fst (es[at := (i, v)]) = map fst es" using assms(2,3) by (metis fst_conv list_update_id map_update)
  then show "sorted_wrt (<) (map fst (es[at := (i, v)]))" using assms(1) by simp
  have "set (es[at := (i, v)]) = insert (i, v) (set (remove_at es at))"
    using assms(2) by (auto simp: upd_conv_take_nth_drop remove_at_def)
  then show "set (es[at := (i, v)]) = (case Some v of None \<Rightarrow> {} | Some w \<Rightarrow> {(i, w)}) \<union> {x \<in> set es. fst x \<noteq> i}"
    using remove_at_spec(2) [OF assms] by simp
qed

lemma sorted_insert_at:
  assumes "sorted_wrt (<) ks" "at \<le> length ks" "\<forall>k < at. ks ! k < (i :: 'k::linorder)"
    "\<forall>k. at \<le> k \<and> k < length ks \<longrightarrow> i < ks ! k"
  shows "sorted_wrt (<) (take at ks @ i # drop at ks)"
proof -
  have "\<forall>x \<in> set (take at ks). x < i" using assms(2,3) by (auto simp: in_set_conv_nth)
  moreover have "\<forall>x \<in> set (drop at ks). i < x" using assms(2,4) by (auto simp: in_set_conv_nth)
  ultimately show ?thesis
    using assms(1) by (auto simp: sorted_wrt_append sorted_wrt_take sorted_wrt_drop intro: less_trans)
qed

definition level_or :: "(str \<times> 'v) list \<Rightarrow> str \<Rightarrow> 'v \<Rightarrow> 'v" where
  "level_or es i d = (case map_of es i of None \<Rightarrow> d | Some v \<Rightarrow> v)"

lemma entry_for_spec:
  assumes s: "sorted_wrt (<) (map fst es)" and ef: "entry_for es i d = (es', at)"
  shows "snd (es' ! at) = level_or es i d" "keyed_update es i (Some v) (es'[at := (i, v)])"
proof -
  let ?a = "first_at_least_in_sorted (map fst es) i (\<lambda>a b. id_compare_bytes a b < 0)"
  note f = first_at_least_key [OF s refl, of i]
  have "snd (es' ! at) = level_or es i d \<and> keyed_update es i (Some v) (es'[at := (i, v)])"
  proof (cases "?a < length es \<and> fst (es ! ?a) = i")
    case True
    then have e: "es' = es" "at = ?a" using ef by (auto simp: entry_for_def Let_def)
    have "map_of es i = Some (snd (es ! ?a))"
      using True s by (metis map_of_is_SomeI nth_mem prod.collapse strict_sorted_iff)
    with True e keyed_update_nth [OF s] show ?thesis by (simp add: level_or_def)
  next
    case False
    then have e: "es' = take ?a es @ (i, d) # drop ?a es" "at = ?a" using ef by (auto simp: entry_for_def Let_def split: if_splits)
    have "entry_index es i = None" unfolding entry_index_def Let_def using False by simp
    then have none: "i \<notin> fst ` set es" by (simp add: entry_index_None [OF s])
    have lt: "\<forall>k. ?a \<le> k \<and> k < length es \<longrightarrow> i < fst (es ! k)"
      using f(3) none by (metis image_eqI le_less nth_mem)
    have "sorted_wrt (<) (take ?a (map fst es) @ i # drop ?a (map fst es))"
      using f lt s by (intro sorted_insert_at) auto
    then have "sorted_wrt (<) (map fst (es'[at := (i, v)]))" using f(1) by (simp add: e list_update_append take_map drop_map)
    moreover have "set (es'[at := (i, v)]) = insert (i, v) {x \<in> set es. fst x \<noteq> i}"
    proof -
      have "set (take ?a es) \<union> set (drop ?a es) = set es" by (metis append_take_drop_id set_append)
      moreover have "{x \<in> set es. fst x \<noteq> i} = set es" using none by auto
      ultimately show ?thesis using f(1) by (auto simp: e list_update_append)
    qed
    ultimately have "keyed_update es i (Some v) (es'[at := (i, v)])" by (intro keyed_updateI [OF s]) simp_all
    moreover have "map_of es i = None" using none by (simp add: map_of_eq_None_iff)
    ultimately show ?thesis using f(1) by (simp add: e nth_append level_or_def)
  qed
  then show "snd (es' ! at) = level_or es i d" "keyed_update es i (Some v) (es'[at := (i, v)])" by simp_all
qed

subsection \<open>Edits of a well-formed document\<close>

definition doc_update :: "raw_document \<Rightarrow> property_path \<Rightarrow> raw_property option \<Rightarrow> raw_document \<Rightarrow> bool" where
  "doc_update d path v d' \<longleftrightarrow> document_wf d' \<and> document_try_get d' = (document_try_get d)(path := v)"

text \<open>On a well-formed document a lookup is three map lookups.\<close>

lemma document_try_get_maps:
  assumes "document_wf d"
  shows "document_try_get d (Property_path e c p) =
    map_of (rc_properties (level_or (re_components (level_or (rd_entities d) e \<lparr>re_components = []\<rparr>)) c \<lparr>rc_properties = []\<rparr>)) p"
proof -
  have se: "sorted_wrt (<) (map fst (rd_entities d))" using assms by (simp add: document_wf_def)
  have sc: "sorted_wrt (<) (map fst (re_components ent))" if "map_of (rd_entities d) e = Some ent" for ent
    using assms map_of_SomeD [OF that] by (auto simp: document_wf_def entity_wf_def)
  have sp: "sorted_wrt (<) (map fst (rc_properties cmp))"
    if "map_of (rd_entities d) e = Some ent" "map_of (re_components ent) c = Some cmp" for ent cmp
    using assms map_of_SomeD [OF that(1)] map_of_SomeD [OF that(2)]
    by (fastforce simp: document_wf_def entity_wf_def component_wf_def)
  show ?thesis
    unfolding document_try_get_def document_try_get_entity_def entity_try_get_def component_try_get_def
    using level.lookup_map_of [OF se] level.lookup_map_of [OF sc] level.lookup_map_of [OF sp]
    by (auto simp: level_or_def split: option.splits)
qed

lemma keyed_update_wf:
  assumes "keyed_update es i v es'" "\<forall>(k, x) \<in> set es. P x" "\<And>x. v = Some x \<Longrightarrow> P x" "sorted_wrt (<) (map fst es)"
  shows "sorted_wrt (<) (map fst es')" "\<forall>(k, x) \<in> set es'. P x"
proof -
  show s: "sorted_wrt (<) (map fst es')" using assms(1) by (simp add: keyed_update_def)
  show "\<forall>(k, x) \<in> set es'. P x"
  proof clarify
    fix k x assume "(k, x) \<in> set es'"
    then have "((map_of es)(i := v)) k = Some x"
      using assms(1) s by (simp add: keyed_update_def strict_sorted_iff flip: map_of_eq_Some_iff)
    then show "P x" using assms(2,3) by (auto split: if_splits dest: map_of_SomeD)
  qed
qed

lemma keyed_update_ne: "keyed_update es i (Some v) es' \<Longrightarrow> es' \<noteq> []"
  by (auto simp: keyed_update_def fun_eq_iff dest: spec [of _ i])

lemma level_or_update: "keyed_update es i v es' \<Longrightarrow>
   level_or es' k d = (if k = i then (case v of None \<Rightarrow> d | Some w \<Rightarrow> w) else level_or es k d)"
  by (simp add: keyed_update_def level_or_def)

lemma level_wf:
  fixes e :: entity_id and c :: component_type_id
  assumes "document_wf d"
  defines "ent \<equiv> level_or (rd_entities d) e \<lparr>re_components = []\<rparr>"
  defines "cmp \<equiv> level_or (re_components ent) c \<lparr>rc_properties = []\<rparr>"
  shows "sorted_wrt (<) (map fst (rd_entities d))" "\<forall>(k, x) \<in> set (rd_entities d). entity_wf x"
    "sorted_wrt (<) (map fst (re_components ent))" "\<forall>(k, x) \<in> set (re_components ent). component_wf x"
    "sorted_wrt (<) (map fst (rc_properties cmp))" "\<forall>(k, x) \<in> set (rc_properties cmp). property_wf x"
proof -
  show "sorted_wrt (<) (map fst (rd_entities d))" "\<forall>(k, x) \<in> set (rd_entities d). entity_wf x"
    using assms(1) by (auto simp: document_wf_def)
  have "re_components ent = [] \<or> entity_wf ent"
    using assms(1) by (auto simp: ent_def level_or_def document_wf_def split: option.splits dest: map_of_SomeD)
  then show sc: "sorted_wrt (<) (map fst (re_components ent))" "\<forall>(k, x) \<in> set (re_components ent). component_wf x"
    by (auto simp: entity_wf_def)
  have "rc_properties cmp = [] \<or> component_wf cmp"
    using sc by (auto simp: cmp_def level_or_def split: option.splits dest: map_of_SomeD)
  then show "sorted_wrt (<) (map fst (rc_properties cmp))" "\<forall>(k, x) \<in> set (rc_properties cmp). property_wf x"
    by (auto simp: component_wf_def)
qed

lemma nested_update:
  fixes e :: entity_id and c :: component_type_id
  assumes wf: "document_wf d"
  defines "ent \<equiv> level_or (rd_entities d) e \<lparr>re_components = []\<rparr>"
  defines "cmp \<equiv> level_or (re_components ent) c \<lparr>rc_properties = []\<rparr>"
  assumes ps: "keyed_update (rc_properties cmp) p v ps"
    and cs: "keyed_update (re_components ent) c (if ps = [] then None else Some \<lparr>rc_properties = ps\<rparr>) cs"
    and es: "keyed_update (rd_entities d) e (if cs = [] then None else Some \<lparr>re_components = cs\<rparr>) es"
    and v: "\<And>w. v = Some w \<Longrightarrow> property_wf w"
  shows "doc_update d (Property_path e c p) v \<lparr>rd_entities = es\<rparr>"
proof -
  note L = level_wf(1,2) [OF wf] level_wf(3,4) [OF wf, of e, folded ent_def]
    level_wf(5,6) [OF wf, of e c, folded ent_def, folded cmp_def]
  have P: "sorted_wrt (<) (map fst ps)" "\<forall>(k, x) \<in> set ps. property_wf x"
    using keyed_update_wf [OF ps L(6) v L(5)] by blast+
  then have "component_wf x" if "(if ps = [] then None else Some \<lparr>rc_properties = ps\<rparr>) = Some x" for x
    using that by (auto simp: component_wf_def split: if_splits)
  then have C: "sorted_wrt (<) (map fst cs)" "\<forall>(k, x) \<in> set cs. component_wf x"
    using keyed_update_wf [OF cs L(4) _ L(3)] by blast+
  then have "entity_wf x" if "(if cs = [] then None else Some \<lparr>re_components = cs\<rparr>) = Some x" for x
    using that by (auto simp: entity_wf_def split: if_splits)
  then have "sorted_wrt (<) (map fst es)" "\<forall>(k, x) \<in> set es. entity_wf x"
    using keyed_update_wf [OF es L(2) _ L(1)] by blast+
  then have wf': "document_wf \<lparr>rd_entities = es\<rparr>" by (simp add: document_wf_def)
  have "document_try_get \<lparr>rd_entities = es\<rparr> q = ((document_try_get d)(Property_path e c p := v)) q" for q
  proof -
    obtain e' c' p' where q: "q = Property_path e' c' p'" by (cases q)
    have E: "re_components (level_or es k \<lparr>re_components = []\<rparr>) =
        (if k = e then cs else re_components (level_or (rd_entities d) k \<lparr>re_components = []\<rparr>))" for k
      by (simp add: level_or_update [OF es])
    have Cc: "rc_properties (level_or cs k \<lparr>rc_properties = []\<rparr>) =
        (if k = c then ps else rc_properties (level_or (re_components ent) k \<lparr>rc_properties = []\<rparr>))" for k
      by (simp add: level_or_update [OF cs])
    have Pp: "map_of ps k = (if k = p then v else map_of (rc_properties cmp) k)" for k
      using ps by (simp add: keyed_update_def)
    show ?thesis
      unfolding q fun_upd_apply document_try_get_maps [OF wf] document_try_get_maps [OF wf']
      by (cases "e' = e"; cases "c' = c") (simp_all add: E Cc Pp ent_def cmp_def)
  qed
  with wf' show ?thesis by (auto simp: doc_update_def)
qed

lemma property_ref_for_spec:
  assumes wf: "document_wf d"
  shows "ref_property (property_ref_for d path) =
      (case document_try_get d path of None \<Rightarrow> \<lparr>rp_writers = []\<rparr> | Some v \<Rightarrow> v)"
    and "property_wf v \<Longrightarrow> doc_update d path (Some v) (write_ref path (property_ref_for d path) v)"
proof -
  obtain e c p where path: "path = Property_path e c p" by (cases path)
  let ?ent = "level_or (rd_entities d) e \<lparr>re_components = []\<rparr>"
  let ?cmp = "level_or (re_components ?ent) c \<lparr>rc_properties = []\<rparr>"
  obtain es i where es: "entry_for (rd_entities d) e \<lparr>re_components = []\<rparr> = (es, i)" by fastforce
  obtain cs j where cs: "entry_for (re_components ?ent) c \<lparr>rc_properties = []\<rparr> = (cs, j)" by fastforce
  obtain ps k where ps: "entry_for (rc_properties ?cmp) p \<lparr>rp_writers = []\<rparr> = (ps, k)" by fastforce
  note L = level_wf [OF wf]
  note E = entry_for_spec [OF L(1) es] and CC = entry_for_spec [OF L(3) cs] and PP = entry_for_spec [OF L(5) ps]
  have ref: "property_ref_for d path = \<lparr>pr_entities = es, pr_entity_at = i, pr_components = cs, pr_component_at = j,
      pr_properties = ps, pr_property_at = k\<rparr>"
    using es cs ps E(1) CC(1) by (simp add: property_ref_for_def path)
  show "ref_property (property_ref_for d path) =
      (case document_try_get d path of None \<Rightarrow> \<lparr>rp_writers = []\<rparr> | Some v \<Rightarrow> v)"
    unfolding ref by (simp add: ref_property_def PP(1) path document_try_get_maps [OF wf] level_or_def [of _ p])
  assume v: "property_wf v"
  let ?ps = "ps[k := (p, v)]" let ?cs = "cs[j := (c, \<lparr>rc_properties = ?ps\<rparr>)]"
  let ?es = "es[i := (e, \<lparr>re_components = ?cs\<rparr>)]"
  have "?ps \<noteq> []" "?cs \<noteq> []"
    using keyed_update_ne [OF PP(2) [of v]] keyed_update_ne [OF CC(2) [of "\<lparr>rc_properties = ?ps\<rparr>"]] by blast+
  then have "doc_update d (Property_path e c p) (Some v) \<lparr>rd_entities = ?es\<rparr>"
    using v E(2) CC(2) by (intro nested_update [OF wf PP(2) [of v], where cs = ?cs]) (simp_all del: list_update_nonempty)
  then show "doc_update d path (Some v) (write_ref path (property_ref_for d path) v)"
    unfolding ref by (simp add: write_ref_def path)
qed

lemma entry_index_cases:
  assumes "sorted_wrt (<) (map fst es)"
  obtains "entry_index es i = None" "map_of es i = None"
    | at v where "entry_index es i = Some at" "map_of es i = Some v" "at < length es" "es ! at = (i, v)"
proof (cases "entry_index es i")
  case None
  with entry_index_None [OF assms] that(1) show ?thesis by (simp add: map_of_eq_None_iff)
next
  case (Some at)
  then have "at < length es" "fst (es ! at) = i" by (simp_all add: entry_index_Some [OF assms])
  moreover from this have "map_of es i = Some (snd (es ! at))"
    using assms by (metis map_of_is_SomeI nth_mem prod.collapse strict_sorted_iff)
  ultimately show ?thesis using that(2) Some by (metis prod.collapse)
qed

lemma clear_writers_spec:
  assumes wf: "document_wf (sn_document s)"
  shows "case document_try_get (sn_document s) path of
      None \<Rightarrow> clear_writers path s = s
    | Some v \<Rightarrow> \<exists>d. doc_update (sn_document s) path None d \<and>
        clear_writers path s = s\<lparr>sn_dead_bytes := sn_dead_bytes s + writers_bytes v,
          sn_property_count := sn_property_count s - 1, sn_document := d\<rparr>"
proof -
  obtain e c p where path: "path = Property_path e c p" by (cases path)
  let ?d = "sn_document s"
  let ?ent = "level_or (rd_entities ?d) e \<lparr>re_components = []\<rparr>"
  let ?cmp = "level_or (re_components ?ent) c \<lparr>rc_properties = []\<rparr>"
  note L = level_wf [OF wf]
  note get = document_try_get_maps [OF wf, of e c p]
  show ?thesis
  proof (cases rule: entry_index_cases [OF L(1), of e])
    case 1
    then show ?thesis using get by (simp add: path clear_writers_def Let_def level_or_def)
  next
    case (2 i ent)
    then have ent: "?ent = ent" by (simp add: level_or_def)
    show ?thesis
    proof (cases rule: entry_index_cases [OF L(3) [of e, unfolded ent], of c])
      case 1
      then show ?thesis using get 2 ent by (simp add: path clear_writers_def Let_def level_or_def)
    next
      case 3: (2 j cmp)
      then have cmp: "?cmp = cmp" unfolding ent by (simp add: level_or_def)
      show ?thesis
      proof (cases rule: entry_index_cases [OF L(5) [of e c, unfolded cmp], of p])
        case 1
        then show ?thesis using get 2 3 ent cmp by (simp add: path clear_writers_def Let_def)
      next
        case 4: (2 k v)
        let ?ps = "remove_at (rc_properties cmp) k"
        let ?cs = "if ?ps \<noteq> [] then (re_components ent)[j := (c, \<lparr>rc_properties = ?ps\<rparr>)] else remove_at (re_components ent) j"
        let ?es = "if ?cs \<noteq> [] then (rd_entities ?d)[i := (e, \<lparr>re_components = ?cs\<rparr>)] else remove_at (rd_entities ?d) i"
        have P: "keyed_update (rc_properties ?cmp) p None ?ps"
          using remove_at_spec(1) [OF L(5) [of e c, unfolded cmp] 4(3), of p] 4(4) cmp by simp
        have C: "keyed_update (re_components ?ent) c (if ?ps = [] then None else Some \<lparr>rc_properties = ?ps\<rparr>) ?cs"
          using keyed_update_nth [OF L(3) [of e, unfolded ent] 3(3), of c]
            remove_at_spec(1) [OF L(3) [of e, unfolded ent] 3(3), of c] 3(4) ent by simp
        have E: "keyed_update (rd_entities ?d) e (if ?cs = [] then None else Some \<lparr>re_components = ?cs\<rparr>) ?es"
          using keyed_update_nth [OF L(1) 2(3), of e] remove_at_spec(1) [OF L(1) 2(3), of e] 2(4) by simp
        have "doc_update ?d path None \<lparr>rd_entities = ?es\<rparr>"
          unfolding path by (rule nested_update [OF wf P C E]) simp
        moreover have "clear_writers path s = s\<lparr>sn_dead_bytes := sn_dead_bytes s + writers_bytes v,
            sn_property_count := sn_property_count s - 1, sn_document := \<lparr>rd_entities = ?es\<rparr>\<rparr>"
          using 2 3 4 by (auto simp: path clear_writers_def Let_def)
        moreover have "document_try_get ?d path = Some v" using get cmp 4(2) by (simp add: path)
        ultimately show ?thesis by auto
      qed
    qed
  qed
qed

subsection \<open>Accounting\<close>

lemma writers_bytes_sum: "writers_bytes p = sum_list (map (\<lambda>w. length (pv_value w)) (rp_writers p))"
  by (simp add: writers_bytes_def foldl_add_lengths)

lemma sum_list_levels: "sum_list (map f (concat xss)) = sum_list (map (\<lambda>xs. sum_list (map f xs)) xss)"
  by (induction xss) auto

lemma total_value_bytes_flatten: "total_value_bytes d = sum_list (map (\<lambda>x. writers_bytes (snd x)) (flatten d))"
proof -
  have c: "sum_list (map (\<lambda>x. writers_bytes (snd x)) (flatten_component e i cmp)) =
      sum_list (map (\<lambda>x. writers_bytes (snd x)) (rc_properties cmp))" for e i cmp
    by (simp add: flatten_component_def comp_def case_prod_unfold)
  have e: "sum_list (map (\<lambda>x. writers_bytes (snd x)) (flatten_entity e ent)) =
      sum_list (map (\<lambda>x. sum_list (map (\<lambda>x. writers_bytes (snd x)) (rc_properties (snd x)))) (re_components ent))" for e ent
    by (simp add: flatten_entity_def sum_list_levels comp_def case_prod_unfold c)
  show ?thesis
    by (simp add: total_value_bytes_def flatten_def sum_list_levels comp_def case_prod_unfold e
        foldl_add_lengths flip: writers_bytes_sum)
qed

lemma document_lookup: "document_wf d \<Longrightarrow> document_try_get d = map_of (flatten d)"
  using document_try_get_eq by (intro ext) blast

lemma flatten_sum:
  assumes "document_wf d"
  shows "sum_list (map f (flatten d)) = (\<Sum>p \<in> dom (document_try_get d). f (p, the (document_try_get d p)))"
proof -
  have dist: "distinct (map fst (flatten d))" using flatten_sorted [OF assms] by (simp add: strict_sorted_iff)
  have "sum_list (map f (flatten d)) = sum f (set (flatten d))"
    using dist by (simp add: sum_list_distinct_conv_sum_set distinct_map)
  also have "\<dots> = (\<Sum>p \<in> fst ` set (flatten d). f (p, the (map_of (flatten d) p)))"
  proof (rule sum.reindex_cong [where l = "\<lambda>p. (p, the (map_of (flatten d) p))"])
    show "inj_on (\<lambda>p. (p, the (map_of (flatten d) p))) (fst ` set (flatten d))" by (auto simp: inj_on_def)
    show "set (flatten d) = (\<lambda>p. (p, the (map_of (flatten d) p))) ` fst ` set (flatten d)"
    proof
      show "set (flatten d) \<subseteq> (\<lambda>p. (p, the (map_of (flatten d) p))) ` fst ` set (flatten d)"
      proof
        fix x assume x: "x \<in> set (flatten d)"
        then have "x = (fst x, the (map_of (flatten d) (fst x)))" using dist by (metis map_of_is_SomeI option.sel prod.collapse)
        with x show "x \<in> (\<lambda>p. (p, the (map_of (flatten d) p))) ` fst ` set (flatten d)" by blast
      qed
      show "(\<lambda>p. (p, the (map_of (flatten d) p))) ` fst ` set (flatten d) \<subseteq> set (flatten d)" using dist by auto
    qed
  qed simp
  finally show ?thesis by (simp add: document_lookup [OF assms] dom_map_of_conv_image_fst)
qed

lemma finite_document: "document_wf d \<Longrightarrow> finite (dom (document_try_get d))"
  by (simp add: document_lookup finite_dom_map_of)

lemma update_sum:
  fixes f :: "property_path \<times> raw_property \<Rightarrow> nat"
  assumes "document_wf d" "doc_update d path v d'"
  shows "sum_list (map f (flatten d')) + (case document_try_get d path of None \<Rightarrow> 0 | Some w \<Rightarrow> f (path, w)) =
    sum_list (map f (flatten d)) + (case v of None \<Rightarrow> 0 | Some w \<Rightarrow> f (path, w))"
proof -
  let ?g = "document_try_get d" and ?D = "dom (document_try_get d) - {path}"
  have g': "document_try_get d' = ?g(path := v)" "document_wf d'" using assms(2) by (simp_all add: doc_update_def)
  have fin: "finite (dom ?g)" by (rule finite_document [OF assms(1)])
  have split: "(\<Sum>p \<in> dom h. f (p, the (h p))) = (\<Sum>p \<in> ?D. f (p, the (?g p))) + (case h path of None \<Rightarrow> 0 | Some w \<Rightarrow> f (path, w))"
    if "h = ?g(path := u)" for h u
  proof -
    have D: "dom h = ?D \<union> (if u = None then {} else {path})" using that by auto
    have "(\<Sum>p \<in> ?D. f (p, the (h p))) = (\<Sum>p \<in> ?D. f (p, the (?g p)))" using that by (intro sum.cong) auto
    moreover have "(\<Sum>p \<in> dom h. f (p, the (h p))) =
        (\<Sum>p \<in> ?D. f (p, the (h p))) + (case u of None \<Rightarrow> 0 | Some w \<Rightarrow> f (path, the (h path)))"
      unfolding D using fin by (subst sum.union_disjoint) (auto split: option.splits)
    ultimately show ?thesis using that by (simp split: option.splits)
  qed
  show ?thesis
    unfolding flatten_sum [OF assms(1)] flatten_sum [OF g'(2)]
    using split [OF g'(1)] split [of ?g "?g path"] g'(1) by simp
qed

definition values_owned :: "chunk list \<Rightarrow> raw_document \<Rightarrow> bool" where
  "values_owned cks d \<longleftrightarrow> (\<forall>(_, v) \<in> set (flatten d). \<forall>w \<in> set (rp_writers v). \<exists>ck \<in> set cks. sublist (pv_value w) (ck_bytes ck))"

definition chunks_ok :: "chunk list \<Rightarrow> bool" where
  "chunks_ok cks \<longleftrightarrow> (\<forall>ck \<in> set cks. length (ck_bytes ck) \<le> ck_capacity ck)"

definition snapshot_ok :: "snapshot_document \<Rightarrow> bool" where
  "snapshot_ok s \<longleftrightarrow>
     document_wf (sn_document s) \<and> sn_property_count s = int (property_count (sn_document s)) \<and>
     sn_owned_bytes s = sum_list (map (\<lambda>ck. length (ck_bytes ck)) (sn_chunks s)) \<and>
     chunks_ok (sn_chunks s) \<and> values_owned (sn_chunks s) (sn_document s)"

text \<open>Owned bytes that are neither dead nor shown: what an adopted arena held beside, or short of, the values it was adopted for.\<close>

definition unclaimed_bytes :: "snapshot_document \<Rightarrow> int" where
  "unclaimed_bytes s = int (sn_owned_bytes s) - int (sn_dead_bytes s) - int (total_value_bytes (sn_document s))"

lemma impl_append_spec:
  obtains cks where "impl_append slack bs s = (bs, s\<lparr>sn_chunks := cks, sn_owned_bytes := sn_owned_bytes s + length bs\<rparr>)"
    and "chunks_ok (sn_chunks s) \<Longrightarrow> chunks_ok cks"
    and "sum_list (map (\<lambda>ck. length (ck_bytes ck)) cks) = sum_list (map (\<lambda>ck. length (ck_bytes ck)) (sn_chunks s)) + length bs"
    and "\<exists>ck \<in> set cks. sublist bs (ck_bytes ck)"
    and "\<And>v. \<exists>ck \<in> set (sn_chunks s). sublist v (ck_bytes ck) \<Longrightarrow> \<exists>ck \<in> set cks. sublist v (ck_bytes ck)"
proof -
  let ?fresh = "\<lparr>ck_bytes = [], ck_capacity = max 4096 (length bs) + slack (max 4096 (length bs))\<rparr>"
  let ?new = "sn_chunks s = [] \<or> length (ck_bytes (last (sn_chunks s))) + length bs > ck_capacity (last (sn_chunks s))"
  let ?cs = "if ?new then sn_chunks s @ [?fresh] else sn_chunks s"
  obtain xs c where cs: "?cs = xs @ [c]" by (cases ?cs rule: rev_cases) (auto split: if_splits)
  let ?c = "c\<lparr>ck_bytes := ck_bytes c @ bs\<rparr>"
  show thesis
  proof (rule that [of "xs @ [?c]"])
    show "impl_append slack bs s = (bs, s\<lparr>sn_chunks := xs @ [?c], sn_owned_bytes := sn_owned_bytes s + length bs\<rparr>)"
      unfolding impl_append_def Let_def cs by simp
    show "chunks_ok (xs @ [?c])" if "chunks_ok (sn_chunks s)"
    proof (cases ?new)
      case True
      then have "xs = sn_chunks s" "c = ?fresh" using cs by simp_all
      then show ?thesis using that by (auto simp: chunks_ok_def)
    next
      case False
      then have "sn_chunks s = xs @ [c]" using cs by simp
      then show ?thesis using that False by (auto simp: chunks_ok_def)
    qed
    have "sum_list (map (\<lambda>ck. length (ck_bytes ck)) ?cs) = sum_list (map (\<lambda>ck. length (ck_bytes ck)) (sn_chunks s))" by simp
    then show "sum_list (map (\<lambda>ck. length (ck_bytes ck)) (xs @ [?c])) =
        sum_list (map (\<lambda>ck. length (ck_bytes ck)) (sn_chunks s)) + length bs" unfolding cs by simp
    show "\<exists>ck \<in> set (xs @ [?c]). sublist bs (ck_bytes ck)" by (auto simp: sublist_append)
    show "\<exists>ck \<in> set (xs @ [?c]). sublist v (ck_bytes ck)" if "\<exists>ck \<in> set (sn_chunks s). sublist v (ck_bytes ck)" for v
    proof -
      have "set (sn_chunks s) \<subseteq> set ?cs" by auto
      with that have "\<exists>ck \<in> set (xs @ [c]). sublist v (ck_bytes ck)" unfolding cs by blast
      then show ?thesis by (auto simp: sublist_append)
    qed
  qed
qed

lemma copy_writers: "foldl copy_writer (arena, ws) l = (arena @ concat (map pv_value l), ws @ l)"
  by (induction l arbitrary: arena ws) (simp_all add: copy_writer_def)

definition component_arena :: "raw_component \<Rightarrow> bytes" where
  "component_arena c = concat (map (\<lambda>p. concat (map pv_value (rp_writers (snd p)))) (rc_properties c))"

definition entity_arena :: "raw_entity \<Rightarrow> bytes" where
  "entity_arena e = concat (map (\<lambda>c. component_arena (snd c)) (re_components e))"

definition document_arena :: "raw_document \<Rightarrow> bytes" where
  "document_arena d = concat (map (\<lambda>e. entity_arena (snd e)) (rd_entities d))"

lemma concat_levels: "concat (map f (concat xss)) = concat (map (\<lambda>xs. concat (map f xs)) xss)"
  by (induction xss) auto

lemma copied_entry:
  fixes p :: "property_id \<times> raw_property" and c :: "component_type_id \<times> raw_component" and e :: "entity_id \<times> raw_entity"
  shows "(fst p, \<lparr>rp_writers = rp_writers (snd p)\<rparr>) = p" "(fst c, \<lparr>rc_properties = rc_properties (snd c)\<rparr>) = c"
    "(fst e, \<lparr>re_components = re_components (snd e)\<rparr>) = e"
  by (cases p; cases c; cases e; simp)+

lemma copy_properties:
  "foldl copy_property (arena, cnt, ps) l =
     (arena @ concat (map (\<lambda>p. concat (map pv_value (rp_writers (snd p)))) l), cnt + int (length l), ps @ l)"
  by (induction l arbitrary: arena cnt ps) (simp_all add: copy_property_def copy_writers copied_entry)

lemma copy_components:
  "foldl copy_component (arena, cnt, cs) l =
     (arena @ concat (map (\<lambda>c. component_arena (snd c)) l),
      cnt + int (sum_list (map (\<lambda>c. length (rc_properties (snd c))) l)), cs @ l)"
  by (induction l arbitrary: arena cnt cs) (simp_all add: copy_component_def copy_properties copied_entry component_arena_def)

lemma copy_entities:
  "foldl copy_entity (arena, cnt, es) l =
     (arena @ concat (map (\<lambda>e. entity_arena (snd e)) l),
      cnt + int (sum_list (map (\<lambda>e. sum_list (map (\<lambda>c. length (rc_properties (snd c))) (re_components (snd e)))) l)), es @ l)"
  by (induction l arbitrary: arena cnt es) (simp_all add: copy_entity_def copy_components copied_entry entity_arena_def)

lemma document_arena_flatten:
  "document_arena d = concat (map (\<lambda>x. concat (map pv_value (rp_writers (snd x)))) (flatten d))"
proof -
  have c: "concat (map (\<lambda>x. concat (map pv_value (rp_writers (snd x)))) (flatten_component e i cmp)) = component_arena cmp" for e i cmp
    by (simp add: component_arena_def flatten_component_def comp_def case_prod_unfold)
  have e: "concat (map (\<lambda>x. concat (map pv_value (rp_writers (snd x)))) (flatten_entity e ent)) = entity_arena ent" for e ent
    by (simp add: entity_arena_def flatten_entity_def concat_levels comp_def case_prod_unfold c)
  show ?thesis
    by (simp add: document_arena_def flatten_def concat_levels comp_def case_prod_unfold e)
qed

lemma document_arena_length: "length (document_arena d) = total_value_bytes d"
  by (simp add: document_arena_flatten total_value_bytes_flatten length_concat comp_def writers_bytes_sum)

lemma create_owning_copy_eq:
  "create_owning_copy slack d =
     Ok \<lparr>sn_chunks = [\<lparr>ck_bytes = document_arena d, ck_capacity = total_value_bytes d + slack (total_value_bytes d)\<rparr>],
         sn_owned_bytes = total_value_bytes d, sn_dead_bytes = 0, sn_property_count = int (property_count d),
         sn_document = d\<rparr>"
proof -
  have "sum_list (map (\<lambda>e. sum_list (map (\<lambda>c. length (rc_properties (snd c))) (re_components (snd e)))) (rd_entities d)) =
      property_count d"
    by (simp add: property_count_def foldl_add_lengths case_prod_unfold)
  then show ?thesis
    by (simp add: create_owning_copy_def Let_def copy_entities document_arena_length flip: document_arena_def)
qed

lemma values_owned_arena: "sublist (document_arena d) bs \<Longrightarrow> values_owned [\<lparr>ck_bytes = bs, ck_capacity = n\<rparr>] d"
proof -
  assume s: "sublist (document_arena d) bs"
  have *: "sublist x (concat xs)" if "x \<in> set xs" for x :: bytes and xs
    using that by (auto dest!: split_list)
  have "sublist (pv_value w) bs" if "x \<in> set (flatten d)" "w \<in> set (rp_writers (snd x))" for x w
  proof -
    have "sublist (pv_value w) (concat (map pv_value (rp_writers (snd x))))" using that by (intro *) auto
    also have "sublist \<dots> (document_arena d)" unfolding document_arena_flatten using that by (intro *) auto
    also note s
    finally show ?thesis .
  qed
  then show ?thesis by (auto simp: values_owned_def)
qed

lemma owning_copy_ok: "document_wf d \<Longrightarrow> create_owning_copy slack d = Ok s \<Longrightarrow> snapshot_ok s"
  by (auto simp: create_owning_copy_eq snapshot_ok_def chunks_ok_def values_owned_arena document_arena_length)

lemma edit_ok:
  assumes s: "snapshot_ok s" and up: "doc_update (sn_document s) path v d"
    and cks: "chunks_ok cks" "sum_list (map (\<lambda>ck. length (ck_bytes ck)) cks) = sn_owned_bytes s + n"
      "\<And>x. \<exists>ck \<in> set (sn_chunks s). sublist x (ck_bytes ck) \<Longrightarrow> \<exists>ck \<in> set cks. sublist x (ck_bytes ck)"
    and v: "(case v of None \<Rightarrow> 0 | Some w \<Rightarrow> writers_bytes w) = n"
      "\<And>w x. v = Some w \<Longrightarrow> x \<in> set (rp_writers w) \<Longrightarrow> \<exists>ck \<in> set cks. sublist (pv_value x) (ck_bytes ck)"
    and old: "old = (case document_try_get (sn_document s) path of None \<Rightarrow> 0 | Some w \<Rightarrow> writers_bytes w)"
    and c: "cnt + (case document_try_get (sn_document s) path of None \<Rightarrow> 0 | Some _ \<Rightarrow> 1) =
        sn_property_count s + (case v of None \<Rightarrow> 0 | Some _ \<Rightarrow> 1)"
  shows "snapshot_ok \<lparr>sn_chunks = cks, sn_owned_bytes = sn_owned_bytes s + n, sn_dead_bytes = sn_dead_bytes s + old,
     sn_property_count = cnt, sn_document = d\<rparr>"
    and "unclaimed_bytes \<lparr>sn_chunks = cks, sn_owned_bytes = sn_owned_bytes s + n, sn_dead_bytes = sn_dead_bytes s + old,
     sn_property_count = cnt, sn_document = d\<rparr> = unclaimed_bytes s"
proof -
  have wf: "document_wf (sn_document s)" "document_wf d" using s up by (simp_all add: snapshot_ok_def doc_update_def)
  have bytes: "total_value_bytes d + old = total_value_bytes (sn_document s) + n"
    using update_sum [OF wf(1) up, of "\<lambda>x. writers_bytes (snd x)"] v(1) old
    by (simp add: total_value_bytes_flatten split: option.splits)
  have "property_count d + (case document_try_get (sn_document s) path of None \<Rightarrow> 0 | Some _ \<Rightarrow> 1) =
      property_count (sn_document s) + (case v of None \<Rightarrow> 0 | Some _ \<Rightarrow> 1)"
    using update_sum [OF wf(1) up, of "\<lambda>_. 1"] by (simp add: property_count_flatten sum_list_triv)
  then have count: "cnt = int (property_count d)" using c s by (auto simp: snapshot_ok_def split: option.splits)
  have "values_owned cks d"
    unfolding values_owned_def
  proof clarify
    fix q u w assume q: "(q, u) \<in> set (flatten d)" "w \<in> set (rp_writers u)"
    then have "((document_try_get (sn_document s))(path := v)) q = Some u"
      using up document_try_get_Some_iff [OF wf(2)] by (simp add: doc_update_def)
    then consider "v = Some u" | "(q, u) \<in> set (flatten (sn_document s))"
      using document_try_get_Some_iff [OF wf(1)] by (auto split: if_splits)
    then show "\<exists>ck \<in> set cks. sublist (pv_value w) (ck_bytes ck)"
      using q(2) v(2) cks(3) s by cases (auto simp: snapshot_ok_def values_owned_def)
  qed
  then show "snapshot_ok \<lparr>sn_chunks = cks, sn_owned_bytes = sn_owned_bytes s + n, sn_dead_bytes = sn_dead_bytes s + old,
     sn_property_count = cnt, sn_document = d\<rparr>" using wf count cks(1,2) s by (simp add: snapshot_ok_def)
  show "unclaimed_bytes \<lparr>sn_chunks = cks, sn_owned_bytes = sn_owned_bytes s + n, sn_dead_bytes = sn_dead_bytes s + old,
     sn_property_count = cnt, sn_document = d\<rparr> = unclaimed_bytes s" using bytes by (simp add: unclaimed_bytes_def)
qed

lemma stored_property_wf:
  assumes "document_wf d" "document_try_get d path = Some w"
  shows "property_wf w"
  using document_try_get_Some_iff [OF assms(1), of path w] assms
  unfolding in_flatten_iff by (fastforce simp: document_wf_def entity_wf_def component_wf_def)

text \<open>The overwrite both setters perform, from the reference they obtained.\<close>

lemma overwrite_spec:
  fixes path :: property_path and writer :: op_id
  assumes s: "snapshot_ok s"
  defines "r \<equiv> property_ref_for (sn_document s) path"
  defines "s1 \<equiv> s\<lparr>sn_property_count := sn_property_count s + (if rp_writers (ref_property r) = [] then 1 else 0),
      sn_dead_bytes := sn_dead_bytes s + writers_bytes (ref_property r)\<rparr>"
  assumes ap: "impl_append slack bs s1 = (v, s2)"
  defines "s3 \<equiv> s2\<lparr>sn_document := write_ref path r \<lparr>rp_writers = [\<lparr>pv_writer = writer, pv_value = v\<rparr>]\<rparr>\<rparr>"
  shows "snapshot_ok s3"
    and "doc_update (sn_document s) path (Some \<lparr>rp_writers = [\<lparr>pv_writer = writer, pv_value = bs\<rparr>]\<rparr>) (sn_document s3)"
    and "unclaimed_bytes s3 = unclaimed_bytes s"
proof -
  have wf: "document_wf (sn_document s)" using s by (simp add: snapshot_ok_def)
  let ?p = "\<lparr>rp_writers = [\<lparr>pv_writer = writer, pv_value = bs\<rparr>]\<rparr>"
  have ref: "ref_property r = (case document_try_get (sn_document s) path of None \<Rightarrow> \<lparr>rp_writers = []\<rparr> | Some v \<Rightarrow> v)"
    unfolding r_def by (rule property_ref_for_spec(1) [OF wf])
  have up: "doc_update (sn_document s) path (Some ?p) (write_ref path r ?p)"
    unfolding r_def by (rule property_ref_for_spec(2) [OF wf]) (simp add: property_wf_def)
  obtain cks where k: "impl_append slack bs s1 = (bs, s1\<lparr>sn_chunks := cks, sn_owned_bytes := sn_owned_bytes s1 + length bs\<rparr>)"
    "chunks_ok (sn_chunks s1) \<Longrightarrow> chunks_ok cks"
    "sum_list (map (\<lambda>ck. length (ck_bytes ck)) cks) = sum_list (map (\<lambda>ck. length (ck_bytes ck)) (sn_chunks s1)) + length bs"
    "\<exists>ck \<in> set cks. sublist bs (ck_bytes ck)"
    "\<And>v. \<exists>ck \<in> set (sn_chunks s1). sublist v (ck_bytes ck) \<Longrightarrow> \<exists>ck \<in> set cks. sublist v (ck_bytes ck)"
    using impl_append_spec [of slack bs s1] by metis
  have v: "v = bs" and s2: "s2 = s1\<lparr>sn_chunks := cks, sn_owned_bytes := sn_owned_bytes s1 + length bs\<rparr>" 
    using trans [OF sym [OF ap] k(1)] by auto
  have s3: "s3 = \<lparr>sn_chunks = cks, sn_owned_bytes = sn_owned_bytes s + length bs,
      sn_dead_bytes = sn_dead_bytes s + writers_bytes (ref_property r),
      sn_property_count = sn_property_count s + (if rp_writers (ref_property r) = [] then 1 else 0),
      sn_document = write_ref path r ?p\<rparr>"
    by (simp add: s3_def s2 v s1_def)
  have old: "rp_writers w \<noteq> []" if "document_try_get (sn_document s) path = Some w" for w
    using stored_property_wf [OF wf that] by (simp add: property_wf_def)
  have facts: "chunks_ok cks" "sum_list (map (\<lambda>ck. length (ck_bytes ck)) cks) = sn_owned_bytes s + length bs"
    "\<And>x. \<exists>ck \<in> set (sn_chunks s). sublist x (ck_bytes ck) \<Longrightarrow> \<exists>ck \<in> set cks. sublist x (ck_bytes ck)"
    using k(2,3,5) s by (simp_all add: s1_def snapshot_ok_def)
  have new: "(case Some ?p of None \<Rightarrow> 0 | Some w \<Rightarrow> writers_bytes w) = length bs"
    "\<And>w x. Some ?p = Some w \<Longrightarrow> x \<in> set (rp_writers w) \<Longrightarrow> \<exists>ck \<in> set cks. sublist (pv_value x) (ck_bytes ck)"
    using k(4) by (auto simp: writers_bytes_sum)
  have bytes: "writers_bytes (ref_property r) = (case document_try_get (sn_document s) path of None \<Rightarrow> 0 | Some w \<Rightarrow> writers_bytes w)"
    by (simp add: ref writers_bytes_sum split: option.splits)
  have num: "sn_property_count s + (if rp_writers (ref_property r) = [] then 1 else 0) +
      (case document_try_get (sn_document s) path of None \<Rightarrow> 0 | Some _ \<Rightarrow> 1) = sn_property_count s + (case Some ?p of None \<Rightarrow> 0 | Some _ \<Rightarrow> 1)"
    using old by (auto simp: ref split: option.splits)
  show "snapshot_ok s3" "unclaimed_bytes s3 = unclaimed_bytes s"
    unfolding s3 using edit_ok [OF s up facts new bytes num] by simp_all
  show "doc_update (sn_document s) path (Some ?p) (sn_document s3)" using up by (simp add: s3)
qed

lemma set_single_writer_spec:
  assumes "snapshot_ok s"
  shows "snapshot_ok (set_single_writer slack path writer bs s)"
    and "doc_update (sn_document s) path (Some \<lparr>rp_writers = [\<lparr>pv_writer = writer, pv_value = bs\<rparr>]\<rparr>)
      (sn_document (set_single_writer slack path writer bs s))"
    and "unclaimed_bytes (set_single_writer slack path writer bs s) = unclaimed_bytes s"
proof -
  let ?r = "property_ref_for (sn_document s) path"
  let ?s1 = "s\<lparr>sn_property_count := sn_property_count s + (if rp_writers (ref_property ?r) = [] then 1 else 0),
      sn_dead_bytes := sn_dead_bytes s + writers_bytes (ref_property ?r)\<rparr>"
  obtain v s2 where ap: "impl_append slack bs ?s1 = (v, s2)" by fastforce
  have "set_single_writer slack path writer bs s =
      s2\<lparr>sn_document := write_ref path ?r \<lparr>rp_writers = [\<lparr>pv_writer = writer, pv_value = v\<rparr>]\<rparr>\<rparr>"
    using ap by (simp add: set_single_writer_def Let_def split: if_splits)
  then show "snapshot_ok (set_single_writer slack path writer bs s)"
    "doc_update (sn_document s) path (Some \<lparr>rp_writers = [\<lparr>pv_writer = writer, pv_value = bs\<rparr>]\<rparr>)
      (sn_document (set_single_writer slack path writer bs s))"
    "unclaimed_bytes (set_single_writer slack path writer bs s) = unclaimed_bytes s"
    using overwrite_spec [OF assms ap] by simp_all
qed

lemma clear_writers_ok:
  assumes "snapshot_ok s"
  shows "snapshot_ok (clear_writers path s)"
    and "doc_update (sn_document s) path None (sn_document (clear_writers path s))"
    and "unclaimed_bytes (clear_writers path s) = unclaimed_bytes s"
proof -
  have wf: "document_wf (sn_document s)" using assms by (simp add: snapshot_ok_def)
  have "snapshot_ok (clear_writers path s) \<and> doc_update (sn_document s) path None (sn_document (clear_writers path s)) \<and>
    unclaimed_bytes (clear_writers path s) = unclaimed_bytes s"
  proof (cases "document_try_get (sn_document s) path")
    case None
    then have "(document_try_get (sn_document s))(path := None) = document_try_get (sn_document s)" by auto
    then show ?thesis using None clear_writers_spec [OF wf, of path] assms wf by (simp add: doc_update_def)
  next
    case (Some v)
    then obtain d where up: "doc_update (sn_document s) path None d"
      and c: "clear_writers path s = s\<lparr>sn_dead_bytes := sn_dead_bytes s + writers_bytes v,
          sn_property_count := sn_property_count s - 1, sn_document := d\<rparr>"
      using clear_writers_spec [OF wf, of path] by auto
    have "clear_writers path s = \<lparr>sn_chunks = sn_chunks s, sn_owned_bytes = sn_owned_bytes s + 0,
        sn_dead_bytes = sn_dead_bytes s + writers_bytes v, sn_property_count = sn_property_count s - 1, sn_document = d\<rparr>"
      by (simp add: c)
    moreover have "snapshot_ok \<lparr>sn_chunks = sn_chunks s, sn_owned_bytes = sn_owned_bytes s + 0,
        sn_dead_bytes = sn_dead_bytes s + writers_bytes v, sn_property_count = sn_property_count s - 1, sn_document = d\<rparr>"
      "unclaimed_bytes \<lparr>sn_chunks = sn_chunks s, sn_owned_bytes = sn_owned_bytes s + 0,
        sn_dead_bytes = sn_dead_bytes s + writers_bytes v, sn_property_count = sn_property_count s - 1, sn_document = d\<rparr> = unclaimed_bytes s"
      by (rule edit_ok [OF assms up]; use assms Some in \<open>auto simp: snapshot_ok_def\<close>)+
    ultimately show ?thesis using up by simp
  qed
  then show "snapshot_ok (clear_writers path s)"
    "doc_update (sn_document s) path None (sn_document (clear_writers path s))"
    "unclaimed_bytes (clear_writers path s) = unclaimed_bytes s" by simp_all
qed

lemma if_changed_eq:
  fixes path :: property_path
  assumes wf: "document_wf (sn_document s)"
  defines "old \<equiv> (case document_try_get (sn_document s) path of None \<Rightarrow> [] | Some v \<Rightarrow> rp_writers v)"
  shows "set_single_writer_if_changed slack path writer bs s =
    (if map pv_value old = [bs] then (s, False, False)
     else (set_single_writer slack path writer bs s, True, old = []))"
proof -
  have ref: "rp_writers (ref_property (property_ref_for (sn_document s) path)) = old"
    by (simp add: property_ref_for_spec(1) [OF wf] old_def split: option.splits)
  have one: "map pv_value old = [bs] \<longleftrightarrow> \<not> old = [] \<and> length old = 1 \<and> pv_value (old ! 0) = bs"
    by (cases old) (auto simp: length_Suc_conv)
  show ?thesis
    unfolding one set_single_writer_if_changed_def set_single_writer_def Let_def ref
    by (auto simp: case_prod_unfold)
qed

subsection \<open>Snapshots as they are built\<close>

inductive snapshot_reachable :: "(nat \<Rightarrow> nat) \<Rightarrow> snapshot_document \<Rightarrow> bool" for slack where
  default: "snapshot_reachable slack empty_snapshot"
| owning_copy: "document_wf d \<Longrightarrow> create_owning_copy slack d = Ok s \<Longrightarrow> snapshot_reachable slack s"
| owned_arena: "document_wf d \<Longrightarrow> values_owned [arena] d \<Longrightarrow>
    length (ck_bytes arena) \<le> ck_capacity arena \<Longrightarrow> snapshot_reachable slack (create_from_owned_arena arena d)"
| set_writer: "snapshot_reachable slack s \<Longrightarrow> snapshot_reachable slack (set_single_writer slack path writer bs s)"
| set_changed: "snapshot_reachable slack s \<Longrightarrow> set_single_writer_if_changed slack path writer bs s = (s', ch, ins) \<Longrightarrow>
    snapshot_reachable slack s'"
| clear: "snapshot_reachable slack s \<Longrightarrow> snapshot_reachable slack (clear_writers path s)"

lemma snapshot_reachable_ok: "snapshot_reachable slack s \<Longrightarrow> snapshot_ok s"
proof (induction rule: snapshot_reachable.induct)
  case default
  then show ?case
    by (simp add: snapshot_ok_def empty_snapshot_def document_wf_def property_count_def total_value_bytes_def
        chunks_ok_def values_owned_def flatten_def)
next
  case (owning_copy d s)
  then show ?case by (rule owning_copy_ok)
next
  case (owned_arena d arena)
  then show ?case by (simp add: snapshot_ok_def create_from_owned_arena_def chunks_ok_def)
next
  case (set_writer s path writer bs)
  then show ?case using set_single_writer_spec(1) by blast
next
  case (set_changed s path writer bs s' ch ins)
  then have "document_wf (sn_document s)" by (simp add: snapshot_ok_def)
  then have "s' = s \<or> s' = set_single_writer slack path writer bs s"
    using if_changed_eq [of s slack path writer bs] set_changed.hyps(2) by (auto split: if_splits)
  then show ?case using set_changed.IH set_single_writer_spec(1) by blast
next
  case (clear s path)
  then show ?case using clear_writers_ok(1) by blast
qed

subsection \<open>Properties\<close>

text \<open>
  C33. The copy a snapshot makes is exact and owns what it shows: for every document the two passes agree (the
  assertion after the fill never fires), the copied document equals the original, and its single arena holds every
  value, in as many bytes as the document's values have.
\<close>

theorem owning_copy_exact:
  "\<exists>s. create_owning_copy slack d = Ok s \<and> sn_document s = d \<and> sn_dead_bytes s = 0 \<and>
     sn_owned_bytes s = total_value_bytes d \<and> sn_property_count s = int (property_count d) \<and>
     (\<exists>ck. sn_chunks s = [ck] \<and> length (ck_bytes ck) = total_value_bytes d) \<and> values_owned (sn_chunks s) d"
  by (simp add: create_owning_copy_eq document_arena_length values_owned_arena)

text \<open>
  C22. The accounting of a snapshot, in every state its constructors and its three edits can reach, an adopted arena
  being only required to hold every value it is adopted for.  The document is well formed (sorted levels, no empty
  component or entity), the maintained property count is the real one, the owned bytes are those the chunks hold, every
  chunk stays within the capacity it was reserved with, and every value shown is a contiguous range of one of the
  chunks.  No edit gains or loses a byte: owned bytes less dead bytes less the bytes of the values shown is a constant
  of the snapshot.  It is zero from the default and the copying constructor, so that there the owned bytes are exactly
  the dead ones plus those shown; from an adopted arena it is what that arena held beyond its values.
\<close>

theorem snapshot_accounting:
  assumes "snapshot_reachable slack s"
  shows "document_wf (sn_document s) \<and> sn_property_count s = int (property_count (sn_document s)) \<and>
    sn_owned_bytes s = sum_list (map (\<lambda>ck. length (ck_bytes ck)) (sn_chunks s)) \<and>
    (\<forall>ck \<in> set (sn_chunks s). length (ck_bytes ck) \<le> ck_capacity ck) \<and> values_owned (sn_chunks s) (sn_document s) \<and>
    unclaimed_bytes (set_single_writer slack path writer bs s) = unclaimed_bytes s \<and>
    unclaimed_bytes (fst (set_single_writer_if_changed slack path writer bs s)) = unclaimed_bytes s \<and>
    unclaimed_bytes (clear_writers path s) = unclaimed_bytes s \<and>
    unclaimed_bytes empty_snapshot = 0 \<and> (\<forall>c. create_owning_copy slack d = Ok c \<longrightarrow> unclaimed_bytes c = 0) \<and>
    unclaimed_bytes (create_from_owned_arena arena d) = int (length (ck_bytes arena)) - int (total_value_bytes d)"
proof -
  note ok = snapshot_reachable_ok [OF assms]
  then have wf: "document_wf (sn_document s)" by (simp add: snapshot_ok_def)
  have "unclaimed_bytes (fst (set_single_writer_if_changed slack path writer bs s)) = unclaimed_bytes s"
    using set_single_writer_spec(3) [OF ok] by (simp add: if_changed_eq [OF wf])
  moreover have "unclaimed_bytes empty_snapshot = 0" "\<forall>c. create_owning_copy slack d = Ok c \<longrightarrow> unclaimed_bytes c = 0"
    "unclaimed_bytes (create_from_owned_arena arena d) = int (length (ck_bytes arena)) - int (total_value_bytes d)"
    by (auto simp: unclaimed_bytes_def empty_snapshot_def total_value_bytes_def create_owning_copy_eq create_from_owned_arena_def)
  ultimately show ?thesis
    using ok set_single_writer_spec(3) [OF ok] clear_writers_ok(3) [OF ok] by (simp add: snapshot_ok_def chunks_ok_def)
qed

abbreviation sample_writer :: op_id where
  "sample_writer \<equiv> Op_id (Hash256 1 0 0 0)"

definition sample_snapshot :: snapshot_document where
  "sample_snapshot = clear_writers (Property_path [101] [99] [112])
     (set_single_writer (\<lambda>_. 0) (Property_path [101] [99] [113]) sample_writer [1, 2]
       (set_single_writer (\<lambda>_. 0) (Property_path [101] [99] [112]) sample_writer [3] empty_snapshot))"

lemma sample_snapshot_reachable: "snapshot_reachable (\<lambda>_. 0) sample_snapshot"
  unfolding sample_snapshot_def by (intro snapshot_reachable.clear snapshot_reachable.set_writer snapshot_reachable.default)

theorem snapshot_accounting_witness:
  "int (sn_owned_bytes sample_snapshot) - int (sn_dead_bytes sample_snapshot) = int (total_value_bytes (sn_document sample_snapshot)) \<and>
   values_owned (sn_chunks sample_snapshot) (sn_document sample_snapshot)"
proof -
  let ?one = "set_single_writer (\<lambda>_. 0) (Property_path [101] [99] [112]) sample_writer [3] empty_snapshot"
  let ?two = "set_single_writer (\<lambda>_. 0) (Property_path [101] [99] [113]) sample_writer [1, 2] ?one"
  have r: "snapshot_reachable (\<lambda>_. 0) ?one" "snapshot_reachable (\<lambda>_. 0) ?two"
    by (intro snapshot_reachable.set_writer snapshot_reachable.default)+
  have "unclaimed_bytes sample_snapshot = 0"
    using snapshot_accounting [OF snapshot_reachable.default, of "\<lambda>_. 0" "Property_path [101] [99] [112]" sample_writer "[3]"]
      snapshot_accounting [OF r(1), of "Property_path [101] [99] [113]" sample_writer "[1, 2]"]
      snapshot_accounting [OF r(2), of "Property_path [101] [99] [112]"]
    by (simp add: sample_snapshot_def)
  then show ?thesis using snapshot_accounting [OF sample_snapshot_reachable] by (simp add: unclaimed_bytes_def)
qed

text \<open>
  C29. The edits of a snapshot do exactly what their names say, on every state a snapshot can reach.  Setting a writer
  replaces the writers of that path by the one given and touches no other path; clearing removes the path and nothing
  else; the conditional setter changes nothing exactly when the path already shows the single value given, keeping the
  recorded writer, acts as the plain setter otherwise, and reports as inserted exactly the paths that were absent.
\<close>

theorem snapshot_edits_exact:
  assumes "snapshot_reachable slack s"
  shows "document_try_get (sn_document (set_single_writer slack path writer bs s)) =
      (document_try_get (sn_document s))(path \<mapsto> \<lparr>rp_writers = [\<lparr>pv_writer = writer, pv_value = bs\<rparr>]\<rparr>) \<and>
    document_try_get (sn_document (clear_writers path s)) = (document_try_get (sn_document s))(path := None) \<and>
    set_single_writer_if_changed slack path writer bs s =
      (if \<exists>w. document_try_get (sn_document s) path = Some \<lparr>rp_writers = [\<lparr>pv_writer = w, pv_value = bs\<rparr>]\<rparr>
       then (s, False, False)
       else (set_single_writer slack path writer bs s, True, document_try_get (sn_document s) path = None))"
proof -
  have ok: "snapshot_ok s" and wf: "document_wf (sn_document s)"
    using snapshot_reachable_ok [OF assms] by (simp_all add: snapshot_ok_def)
  define old where "old = (case document_try_get (sn_document s) path of None \<Rightarrow> [] | Some v \<Rightarrow> rp_writers v)"
  have "map pv_value old = [bs] \<longleftrightarrow>
      (\<exists>w. document_try_get (sn_document s) path = Some \<lparr>rp_writers = [\<lparr>pv_writer = w, pv_value = bs\<rparr>]\<rparr>)"
    unfolding old_def by (auto simp: map_eq_Cons_conv split: option.splits) (metis old.unit.exhaust property_value.surjective raw_property.surjective)
  moreover have "old = [] \<longleftrightarrow> document_try_get (sn_document s) path = None"
    unfolding old_def using stored_property_wf [OF wf] by (auto simp: property_wf_def split: option.splits)
  ultimately show ?thesis
    using set_single_writer_spec(2) [OF ok] clear_writers_ok(2) [OF ok] if_changed_eq [OF wf, of slack path writer bs]
    by (simp add: doc_update_def flip: old_def)
qed

theorem snapshot_edits_exact_witness:
  "document_try_get (sn_document sample_snapshot) (Property_path [101] [99] [112]) = None \<and>
   snd (set_single_writer_if_changed (\<lambda>_. 0) (Property_path [101] [99] [112]) sample_writer [3] sample_snapshot) = (True, True)"
proof -
  have "snapshot_reachable (\<lambda>_. 0) (set_single_writer (\<lambda>_. 0) (Property_path [101] [99] [113]) sample_writer [1, 2]
       (set_single_writer (\<lambda>_. 0) (Property_path [101] [99] [112]) sample_writer [3] empty_snapshot))"
    by (intro snapshot_reachable.clear snapshot_reachable.set_writer snapshot_reachable.default)
  then have "document_try_get (sn_document sample_snapshot) (Property_path [101] [99] [112]) = None"
    using snapshot_edits_exact [of "\<lambda>_. 0" _ "Property_path [101] [99] [112]"] by (simp add: sample_snapshot_def)
  moreover from this have "snd (set_single_writer_if_changed (\<lambda>_. 0) (Property_path [101] [99] [112]) sample_writer [3] sample_snapshot) = (True, True)"
    using snapshot_edits_exact [OF sample_snapshot_reachable, of "Property_path [101] [99] [112]"] by simp
  ultimately show ?thesis ..
qed

end
