(* ===== verification/Snapshot_Cache.thy ===== *)
theory Snapshot_Cache
  imports History Snapshot_Document "HOL-Library.AList"
begin

text \<open>
  Model of \<^verbatim>\<open>versioned-document/snapshot_cache.hh\<close> and \<^verbatim>\<open>snapshot_cache.cc\<close>: snapshots keyed by the op they were
  computed at, the eviction of the least recently used, and the three functions that fill a cache from a graph.

  The hash map is an association list without repeated keys; its order stands for the order the map yields,
  on which nothing proved here depends.  \<open>slack\<close> is the allocator parameter of a snapshot document.
\<close>

record cache_entry =
  ce_doc :: snapshot_document
  ce_pinned :: bool
  ce_last_used :: "64 word"

record snapshot_cache =
  ch_entries :: "(op_id \<times> cache_entry) list"
  ch_tick :: "64 word"
  ch_max_unpinned :: int

definition new_cache :: "int \<Rightarrow> snapshot_cache" where
  "new_cache max_unpinned = \<lparr>ch_entries = [], ch_tick = 0, ch_max_unpinned = max_unpinned\<rparr>"

definition cache_get :: "snapshot_cache \<Rightarrow> op_id \<Rightarrow> cache_entry option" where
  "cache_get c i = map_of (ch_entries c) i"

definition cache_find :: "op_id \<Rightarrow> snapshot_cache \<Rightarrow> snapshot_document option \<times> snapshot_cache" where
  "cache_find i c =
     (case cache_get c i of
        None \<Rightarrow> (None, c)
      | Some e \<Rightarrow>
          (let tick = ch_tick c + 1 in
           (Some (ce_doc e),
            c\<lparr>ch_entries := AList.update i (e\<lparr>ce_last_used := tick\<rparr>) (ch_entries c), ch_tick := tick\<rparr>)))"

definition cache_contains :: "snapshot_cache \<Rightarrow> op_id \<Rightarrow> bool" where
  "cache_contains c i \<longleftrightarrow> cache_get c i \<noteq> None"

definition pinned_count :: "snapshot_cache \<Rightarrow> int" where
  "pinned_count c = foldl (\<lambda>n (_, e). n + (if ce_pinned e then 1 else 0)) 0 (ch_entries c)"

text \<open>The scan for the oldest unpinned entry, and the loop that erases \<open>n\<close> of them.\<close>

definition oldest_step :: "(op_id \<times> 64 word) option \<Rightarrow> op_id \<times> cache_entry \<Rightarrow> (op_id \<times> 64 word) option" where
  "oldest_step acc x =
     (if ce_pinned (snd x) then acc
      else (case acc of
              None \<Rightarrow> Some (fst x, ce_last_used (snd x))
            | Some (_, oldest_tick) \<Rightarrow>
                if ce_last_used (snd x) < oldest_tick then Some (fst x, ce_last_used (snd x)) else acc))"

definition oldest_unpinned :: "(op_id \<times> cache_entry) list \<Rightarrow> (op_id \<times> 64 word) option" where
  "oldest_unpinned es = foldl oldest_step None es"

primrec trim_loop :: "nat \<Rightarrow> (op_id \<times> cache_entry) list \<Rightarrow> (op_id \<times> cache_entry) list" where
  "trim_loop 0 es = es"
| "trim_loop (Suc n) es =
     (case oldest_unpinned es of None \<Rightarrow> es | Some (oldest, _) \<Rightarrow> trim_loop n (AList.delete oldest es))"

definition impl_trim :: "snapshot_cache \<Rightarrow> snapshot_cache" where
  "impl_trim c =
     (let unpinned = int (length (ch_entries c)) - pinned_count c in
      c\<lparr>ch_entries := trim_loop (nat (unpinned - ch_max_unpinned c)) (ch_entries c)\<rparr>)"

definition cache_install :: "op_id \<Rightarrow> snapshot_document \<Rightarrow> bool \<Rightarrow> snapshot_cache \<Rightarrow> snapshot_cache" where
  "cache_install i doc pinned c =
     (let tick = ch_tick c + 1 in
      impl_trim (c\<lparr>ch_entries := AList.update i \<lparr>ce_doc = doc, ce_pinned = pinned, ce_last_used = tick\<rparr> (ch_entries c),
                   ch_tick := tick\<rparr>))"

definition cache_erase :: "op_id \<Rightarrow> snapshot_cache \<Rightarrow> bool \<times> snapshot_cache" where
  "cache_erase i c = (cache_contains c i, c\<lparr>ch_entries := AList.delete i (ch_entries c)\<rparr>)"

definition cache_take :: "op_id \<Rightarrow> snapshot_cache \<Rightarrow> snapshot_document option \<times> snapshot_cache" where
  "cache_take i c =
     (case cache_get c i of
        None \<Rightarrow> (None, c)
      | Some e \<Rightarrow> (Some (ce_doc e), snd (cache_erase i c)))"

definition clear_unpinned :: "snapshot_cache \<Rightarrow> snapshot_cache" where
  "clear_unpinned c =
     (let doomed = map fst (filter (\<lambda>x. \<not> ce_pinned (snd x)) (ch_entries c)) in
      c\<lparr>ch_entries := foldl (\<lambda>es i. AList.delete i es) (ch_entries c) doomed\<rparr>)"

definition cache_clear :: "snapshot_cache \<Rightarrow> snapshot_cache" where
  "cache_clear c = c\<lparr>ch_entries := []\<rparr>"

definition unpin :: "op_id \<Rightarrow> snapshot_cache \<Rightarrow> bool \<times> snapshot_cache" where
  "unpin i c =
     (case cache_get c i of
        None \<Rightarrow> (False, c)
      | Some e \<Rightarrow> (True, impl_trim (c\<lparr>ch_entries := AList.update i (e\<lparr>ce_pinned := False\<rparr>) (ch_entries c)\<rparr>)))"

definition is_pinned :: "snapshot_cache \<Rightarrow> op_id \<Rightarrow> bool" where
  "is_pinned c i = (case cache_get c i of None \<Rightarrow> False | Some e \<Rightarrow> ce_pinned e)"

definition owned_byte_size :: "snapshot_cache \<Rightarrow> nat" where
  "owned_byte_size c = foldl (\<lambda>total (_, e). total + sn_owned_bytes (ce_doc e)) 0 (ch_entries c)"

subsection \<open>Filling a cache from a graph\<close>

text \<open>What a sweep sees of a cache, and the two \<^verbatim>\<open>find\<close> calls a seeded sweep makes.\<close>

definition cache_lookup :: "snapshot_cache \<Rightarrow> snapshot_lookup" where
  "cache_lookup c i = map_option (\<lambda>e. sn_document (ce_doc e)) (cache_get c i)"

definition sweep_finds :: "op_graph \<Rightarrow> op_id list \<Rightarrow> snapshot_cache \<Rightarrow> snapshot_cache" where
  "sweep_finds g heads c =
     (let reachable = collect_reachable_until g heads (cache_contains c) in
      case build_edges g reachable (build_index reachable) of
        Ok ed \<Rightarrow>
          (case gate (Some (cache_lookup c)) reachable ed of
             Some (Some s) \<Rightarrow> snd (cache_find (reachable ! s) (snd (cache_find (reachable ! s) c)))
           | _ \<Rightarrow> c)
      | _ \<Rightarrow> c)"

definition materialize_through ::
  "op_graph \<Rightarrow> op_id list \<Rightarrow> entity_id list \<Rightarrow> snapshot_cache \<Rightarrow> (raw_document \<times> snapshot_cache) checked" where
  "materialize_through g heads entities c =
     rbind (materialize_cached g heads entities (cache_lookup c)) (\<lambda>d. Ok (d, sweep_finds g heads c))"

definition install_snapshot ::
  "(nat \<Rightarrow> nat) \<Rightarrow> op_graph \<Rightarrow> op_id \<Rightarrow> snapshot_cache \<Rightarrow> (bool \<times> snapshot_cache) checked" where
  "install_snapshot slack g head c =
     (if \<not> contains_op g head then Ok (False, c)
      else rbind (materialize_through g [head] [] c) (\<lambda>(d, c).
           rbind (create_owning_copy slack d) (\<lambda>doc. Ok (True, cache_install head doc False c))))"

function probe_loop :: "op_graph \<Rightarrow> snapshot_cache \<Rightarrow> int \<Rightarrow> op_id set \<Rightarrow> op_id list \<Rightarrow> int \<Rightarrow> int" where
  "probe_loop g c min_ops seen stack walked =
     (if stack = [] \<or> \<not> walked < min_ops then walked
      else
        (let i = hd stack; stack = tl stack in
         if i \<in> seen then probe_loop g c min_ops seen stack walked
         else (case find_op g i of
                 None \<Rightarrow> probe_loop g c min_ops seen stack walked
               | Some o1 \<Rightarrow>
                   probe_loop g c min_ops (insert i seen)
                     (if cache_contains c i then stack else rev (o_parents o1) @ stack) (walked + 1))))"
  by pat_completeness auto
termination
  by (relation "measures [\<lambda>(g, c, min_ops, seen, stack, walked). nat (min_ops - walked),
      \<lambda>(g, c, min_ops, seen, stack, walked). length stack]") auto

declare probe_loop.simps [simp del]

definition install_snapshot_if_useful ::
  "(nat \<Rightarrow> nat) \<Rightarrow> op_graph \<Rightarrow> op_id \<Rightarrow> snapshot_cache \<Rightarrow> int \<Rightarrow> (bool \<times> snapshot_cache) checked" where
  "install_snapshot_if_useful slack g head c min_ops_behind =
     (if \<not> contains_op g head \<or> cache_contains c head then Ok (False, c)
      else
        (let walked = probe_loop g c min_ops_behind {} [head] 0 in
         if walked < min_ops_behind then Ok (False, c) else install_snapshot slack g head c))"

definition advance_step ::
  "(nat \<Rightarrow> nat) \<Rightarrow> op_id \<Rightarrow> snapshot_document \<Rightarrow> assignment \<Rightarrow> snapshot_document" where
  "advance_step slack child doc a =
     (if is_abstain a then clear_writers (a_path a) doc
      else set_single_writer slack (a_path a) child (a_value a) doc)"

definition advance_snapshot ::
  "(nat \<Rightarrow> nat) \<Rightarrow> op_graph \<Rightarrow> op_id \<Rightarrow> op_id \<Rightarrow> snapshot_cache \<Rightarrow> (bool \<times> snapshot_cache) checked" where
  "advance_snapshot slack g parent child c =
     (case find_op g child of
        None \<Rightarrow> Ok (False, c)
      | Some o1 \<Rightarrow>
          if is_skeleton o1 \<or> length (o_parents o1) \<noteq> 1 \<or> o_parents o1 ! 0 \<noteq> parent then Ok (False, c)
          else if \<not> cache_contains c parent then Ok (False, c)
          else
            (let pinned = is_pinned c parent in
             case cache_take parent c of
               (None, c) \<Rightarrow> Fault
             | (Some doc, c) \<Rightarrow>
                 rbind (op_assignment_list o1) (\<lambda>as.
                 let doc = foldl (advance_step slack child) doc as in
                 rbind (if sn_dead_bytes doc * 2 > sn_owned_bytes doc then create_owning_copy slack (sn_document doc) else Ok doc)
                   (\<lambda>doc. Ok (True, cache_install child doc pinned c)))))"

subsection \<open>Eviction\<close>

definition unpinned_entries :: "(op_id \<times> cache_entry) list \<Rightarrow> (op_id \<times> cache_entry) list" where
  "unpinned_entries es = filter (\<lambda>x. \<not> ce_pinned (snd x)) es"

lemma pinned_count_filter: "pinned_count c = int (length (filter (\<lambda>x. ce_pinned (snd x)) (ch_entries c)))"
proof -
  have "foldl (\<lambda>n (_, e). n + (if ce_pinned e then 1 else 0)) m es = m + int (length (filter (\<lambda>x. ce_pinned (snd x)) es))"
    for m :: int and es :: "(op_id \<times> cache_entry) list"
    by (induction es arbitrary: m) auto
  then show ?thesis by (simp add: pinned_count_def)
qed

lemma unpinned_count: "int (length (ch_entries c)) - pinned_count c = int (length (unpinned_entries (ch_entries c)))"
  unfolding pinned_count_filter unpinned_entries_def
  using sum_length_filter_compl [of "\<lambda>x. ce_pinned (snd x)" "ch_entries c"] by simp

lemma oldest_fold:
  "case foldl oldest_step acc es of
     None \<Rightarrow> acc = None \<and> unpinned_entries es = []
   | Some (i, t) \<Rightarrow> (acc = Some (i, t) \<or> (\<exists>e. (i, e) \<in> set (unpinned_entries es) \<and> ce_last_used e = t)) \<and>
       (\<forall>j u. acc = Some (j, u) \<longrightarrow> t \<le> u) \<and> (\<forall>(j, e) \<in> set (unpinned_entries es). t \<le> ce_last_used e)"
proof (induction es arbitrary: acc)
  case Nil
  then show ?case by (auto simp: unpinned_entries_def split: option.split)
next
  case (Cons x es)
  from Cons.IH [of "oldest_step acc x"] show ?case
    by (cases x; cases acc) (auto simp: oldest_step_def unpinned_entries_def split: option.splits if_splits)
qed

lemma oldest_unpinned_None: "oldest_unpinned es = None \<longleftrightarrow> unpinned_entries es = []"
proof -
  have "foldl oldest_step acc es \<noteq> None" if "acc \<noteq> None \<or> unpinned_entries es \<noteq> []" for acc
    using that by (induction es arbitrary: acc) (auto simp: oldest_step_def unpinned_entries_def split: option.splits if_splits)
  with oldest_fold [of None es] show ?thesis by (auto simp: oldest_unpinned_def split: option.splits)
qed

lemma oldest_unpinned_Some:
  "oldest_unpinned es = Some (i, t) \<Longrightarrow> \<exists>e. (i, e) \<in> set (unpinned_entries es) \<and>
     (\<forall>(j, e') \<in> set (unpinned_entries es). ce_last_used e \<le> ce_last_used e')"
  using oldest_fold [of None es] by (auto simp: oldest_unpinned_def)

definition entries_ok :: "(op_id \<times> cache_entry) list \<Rightarrow> bool" where
  "entries_ok es \<longleftrightarrow> distinct (map fst es)"

lemma delete_filter: "AList.delete i es = filter (\<lambda>x. fst x \<noteq> i) es"
  by (auto simp: AList.delete_eq intro: filter_cong)

lemma entries_ok_update: "entries_ok es \<Longrightarrow> entries_ok (AList.update i e es)"
  by (simp add: entries_ok_def distinct_update)

lemma entries_ok_delete: "entries_ok es \<Longrightarrow> entries_ok (AList.delete i es)"
  by (simp add: entries_ok_def distinct_delete)

lemma delete_unpinned:
  assumes "entries_ok es" "(i, e) \<in> set (unpinned_entries es)"
  shows "filter (\<lambda>x. ce_pinned (snd x)) (AList.delete i es) = filter (\<lambda>x. ce_pinned (snd x)) es"
    and "length (unpinned_entries es) = Suc (length (unpinned_entries (AList.delete i es)))"
    and "set (unpinned_entries es) = insert (i, e) (set (unpinned_entries (AList.delete i es)))"
proof -
  have e: "(i, e) \<in> set es" "\<not> ce_pinned e" using assms(2) by (auto simp: unpinned_entries_def)
  have only: "x = (i, e)" if "x \<in> set es" "fst x = i" for x
    using assms(1) e(1) that by (metis eq_key_imp_eq_value entries_ok_def prod.collapse)
  show "filter (\<lambda>x. ce_pinned (snd x)) (AList.delete i es) = filter (\<lambda>x. ce_pinned (snd x)) es"
    unfolding delete_filter filter_filter by (rule filter_cong [OF refl]) (metis only e(2) snd_conv)
  show set: "set (unpinned_entries es) = insert (i, e) (set (unpinned_entries (AList.delete i es)))"
  proof -
    have "x \<in> set (unpinned_entries es) \<longleftrightarrow> x = (i, e) \<or> x \<in> set (unpinned_entries (AList.delete i es))" for x
      using only [of x] assms(2) by (cases x; cases "fst x = i") (auto simp: unpinned_entries_def delete_filter)
    then show ?thesis by blast
  qed
  have "distinct (unpinned_entries es)" "distinct (unpinned_entries (AList.delete i es))"
    using assms(1) entries_ok_delete [OF assms(1), of i] by (auto simp: unpinned_entries_def entries_ok_def distinct_map)
  moreover have "(i, e) \<notin> set (unpinned_entries (AList.delete i es))" by (auto simp: unpinned_entries_def delete_filter)
  ultimately show "length (unpinned_entries es) = Suc (length (unpinned_entries (AList.delete i es)))"
    using set by (metis card_insert_disjoint distinct_card List.finite_set)
qed

lemma trim_loop_spec:
  assumes "entries_ok es"
  shows "entries_ok (trim_loop n es) \<and> set (trim_loop n es) \<subseteq> set es \<and>
    filter (\<lambda>x. ce_pinned (snd x)) (trim_loop n es) = filter (\<lambda>x. ce_pinned (snd x)) es \<and>
    length (unpinned_entries (trim_loop n es)) = length (unpinned_entries es) - n \<and>
    (\<forall>x \<in> set (unpinned_entries es) - set (trim_loop n es). \<forall>y \<in> set (unpinned_entries (trim_loop n es)).
       ce_last_used (snd x) \<le> ce_last_used (snd y))"
  using assms
proof (induction n arbitrary: es)
  case 0
  then show ?case by (auto simp: unpinned_entries_def)
next
  case (Suc n)
  show ?case
  proof (cases "oldest_unpinned es")
    case None
    then have "trim_loop (Suc n) es = es" "unpinned_entries es = []" by (simp, simp add: oldest_unpinned_None)
    then show ?thesis using Suc.prems by (simp del: trim_loop.simps)
  next
    case (Some it)
    obtain i t where it: "it = (i, t)" by (cases it)
    obtain e where e: "(i, e) \<in> set (unpinned_entries es)"
      "\<And>x. x \<in> set (unpinned_entries es) \<Longrightarrow> ce_last_used e \<le> ce_last_used (snd x)"
      using oldest_unpinned_Some Some it by (metis case_prodD prod.collapse)
    let ?es = "AList.delete i es"
    note d = delete_unpinned [OF Suc.prems e(1)] and IH = Suc.IH [OF entries_ok_delete [OF Suc.prems, of i]]
    have loop: "trim_loop (Suc n) es = trim_loop n ?es" by (simp add: Some it)
    have sub: "set (unpinned_entries (trim_loop n ?es)) \<subseteq> set (unpinned_entries es)"
      using IH d(3) by (auto simp: unpinned_entries_def)
    have "ce_last_used (snd x) \<le> ce_last_used (snd y)"
      if x: "x \<in> set (unpinned_entries es) - set (trim_loop n ?es)" and y: "y \<in> set (unpinned_entries (trim_loop n ?es))" for x y
    proof (cases "x = (i, e)")
      case True
      then show ?thesis using e(2) [of y] y sub by auto
    next
      case False
      then have "x \<in> set (unpinned_entries ?es) - set (trim_loop n ?es)" using x d(3) by auto
      then show ?thesis using IH y by blast
    qed
    moreover have "set ?es \<subseteq> set es" by (auto simp: delete_filter)
    ultimately show ?thesis unfolding loop using IH d(1,2) by auto
  qed
qed

lemma entries_ok_trim: "entries_ok (ch_entries c) \<Longrightarrow> entries_ok (ch_entries (impl_trim c))"
  using trim_loop_spec by (simp add: impl_trim_def Let_def)

lemma cache_get_mem: "entries_ok (ch_entries c) \<Longrightarrow> cache_get c i = Some e \<longleftrightarrow> (i, e) \<in> set (ch_entries c)"
  by (simp add: cache_get_def entries_ok_def)

lemma trim_get: "entries_ok (ch_entries c) \<Longrightarrow> cache_get (impl_trim c) i = Some e \<Longrightarrow> cache_get c i = Some e"
  using cache_get_mem [OF entries_ok_trim, of c i e] cache_get_mem [of c i e] trim_loop_spec [of "ch_entries c"]
  by (auto simp: impl_trim_def Let_def)

lemma entries_ok_ops:
  assumes "entries_ok (ch_entries c)"
  shows "entries_ok (ch_entries (cache_install i doc p c))" "entries_ok (ch_entries (snd (cache_find i c)))"
    "entries_ok (ch_entries (snd (cache_erase i c)))" "entries_ok (ch_entries (snd (cache_take i c)))"
    "entries_ok (ch_entries (clear_unpinned c))" "entries_ok (ch_entries (cache_clear c))" "entries_ok (ch_entries (snd (unpin i c)))"
proof -
  have "entries_ok (foldl (\<lambda>es i. AList.delete i es) es is)" if "entries_ok es" for es "is"
    using that by (induction "is" arbitrary: es) (simp_all add: entries_ok_delete)
  then show "entries_ok (ch_entries (clear_unpinned c))" using assms by (simp add: clear_unpinned_def Let_def)
qed (use assms in \<open>auto simp: cache_install_def cache_find_def cache_erase_def cache_take_def cache_clear_def unpin_def
    Let_def entries_ok_def distinct_update distinct_delete split: option.splits
    intro!: entries_ok_trim [unfolded entries_ok_def]\<close>)

subsection \<open>Entries that are what their op materializes to\<close>

definition entry_ok :: "op_graph \<Rightarrow> op_id \<Rightarrow> snapshot_document \<Rightarrow> bool" where
  "entry_ok g i doc \<longleftrightarrow> contains_op g i \<and> snapshot_ok doc \<and> current_document g [i] [] (sn_document doc)"

definition cache_ok :: "op_graph \<Rightarrow> snapshot_cache \<Rightarrow> bool" where
  "cache_ok g c \<longleftrightarrow> entries_ok (ch_entries c) \<and> (\<forall>i e. cache_get c i = Some e \<longrightarrow> entry_ok g i (ce_doc e))"

text \<open>\<open>c'\<close> holds no document \<open>c\<close> did not hold under the same op.\<close>

definition no_new_docs :: "snapshot_cache \<Rightarrow> snapshot_cache \<Rightarrow> bool" where
  "no_new_docs c c' \<longleftrightarrow> entries_ok (ch_entries c') \<and>
     (\<forall>i e. cache_get c' i = Some e \<longrightarrow> (\<exists>e'. cache_get c i = Some e' \<and> ce_doc e' = ce_doc e))"

lemma cache_ok_sub: "cache_ok g c \<Longrightarrow> no_new_docs c c' \<Longrightarrow> cache_ok g c'"
  unfolding cache_ok_def no_new_docs_def by metis

lemma update_get: "map_of (AList.update i e es) j = (if j = i then Some e else map_of es j)"
  by (simp add: update_conv')

lemma delete_get: "map_of (AList.delete i es) j = (if j = i then None else map_of es j)"
  by (simp add: delete_conv')

lemma install_get:
  assumes "entries_ok (ch_entries c)" "cache_get (cache_install i doc p c) j = Some e"
  shows "if j = i then ce_doc e = doc \<and> ce_pinned e = p else cache_get c j = Some e"
proof -
  let ?c = "c\<lparr>ch_entries := AList.update i \<lparr>ce_doc = doc, ce_pinned = p, ce_last_used = ch_tick c + 1\<rparr> (ch_entries c),
                   ch_tick := ch_tick c + 1\<rparr>"
  have "cache_get (impl_trim ?c) j = Some e" using assms(2) by (simp add: cache_install_def Let_def)
  then have "cache_get ?c j = Some e" by (rule trim_get [rotated]) (simp add: assms(1) entries_ok_update)
  then show ?thesis by (auto simp: cache_get_def update_get split: if_splits)
qed

lemma install_ok:
  assumes "cache_ok g c" "entry_ok g i doc"
  shows "cache_ok g (cache_install i doc p c)"
proof -
  have k: "entries_ok (ch_entries c)" using assms(1) by (simp add: cache_ok_def)
  have "entry_ok g j (ce_doc e)" if "cache_get (cache_install i doc p c) j = Some e" for j e
    using install_get [OF k that] assms by (cases "j = i") (simp_all add: cache_ok_def)
  then show ?thesis using entries_ok_ops(1) [OF k] by (simp add: cache_ok_def)
qed

lemma no_new_docs_find: "entries_ok (ch_entries c) \<Longrightarrow> no_new_docs c (snd (cache_find i c))"
  using entries_ok_ops(2) [of c i]
  by (auto simp: no_new_docs_def cache_find_def cache_get_def update_get Let_def split: option.splits if_splits)

lemma no_new_docs_erase: "entries_ok (ch_entries c) \<Longrightarrow> no_new_docs c (snd (cache_erase i c))"
  using entries_ok_ops(3) [of c i]
  by (auto simp: no_new_docs_def cache_erase_def cache_get_def delete_get split: if_splits)

lemma no_new_docs_clear_unpinned: "entries_ok (ch_entries c) \<Longrightarrow> no_new_docs c (clear_unpinned c)"
proof -
  have get: "map_of (foldl (\<lambda>es i. AList.delete i es) es is) j = (if j \<in> set is then None else map_of es j)"
    for es :: "(op_id \<times> cache_entry) list" and "is" j
    by (induction "is" arbitrary: es) (auto simp: delete_get)
  show "entries_ok (ch_entries c) \<Longrightarrow> no_new_docs c (clear_unpinned c)"
    using entries_ok_ops(5) [of c] unfolding no_new_docs_def
    by (auto simp: clear_unpinned_def cache_get_def get Let_def split: if_splits)
qed

lemma no_new_docs_unpin:
  assumes "entries_ok (ch_entries c)"
  shows "no_new_docs c (snd (unpin i c))"
proof (cases "cache_get c i")
  case None
  then show ?thesis using assms by (simp add: unpin_def no_new_docs_def)
next
  case (Some e)
  let ?c = "c\<lparr>ch_entries := AList.update i (e\<lparr>ce_pinned := False\<rparr>) (ch_entries c)\<rparr>"
  have k: "entries_ok (ch_entries ?c)" using assms by (simp add: entries_ok_update)
  have "\<exists>e''. cache_get c j = Some e'' \<and> ce_doc e'' = ce_doc e'" if "cache_get (impl_trim ?c) j = Some e'" for j e'
    using trim_get [OF k that] Some by (auto simp: cache_get_def update_get split: if_splits)
  then show ?thesis using entries_ok_trim [OF k] Some by (simp add: unpin_def no_new_docs_def)
qed

lemma no_new_docs_trans: "no_new_docs c c' \<Longrightarrow> no_new_docs c' c'' \<Longrightarrow> no_new_docs c c''"
  unfolding no_new_docs_def by metis

lemma no_new_docs_sweep: "entries_ok (ch_entries c) \<Longrightarrow> no_new_docs c (sweep_finds g heads c)"
proof -
  assume k: "entries_ok (ch_entries c)"
  have id: "no_new_docs c c" using k by (simp add: no_new_docs_def)
  have "no_new_docs c (snd (cache_find i (snd (cache_find i c))))" for i
    using no_new_docs_find [OF k, of i] no_new_docs_find [OF entries_ok_ops(2) [OF k, of i], of i] no_new_docs_trans by blast
  with id show ?thesis
    by (auto simp: sweep_finds_def Let_def split: option.splits result.splits)
qed

lemma cache_ok_valid: "cache_ok g c \<Longrightarrow> cache_valid g (cache_lookup c)"
  by (auto simp: cache_ok_def cache_valid_def cache_lookup_def entry_ok_def)

lemma materialize_through_spec:
  assumes g: "graph_ok g" "payloads_valid g" "acyclic (history g)" and c: "cache_ok g c"
  shows "\<exists>d. materialize_through g heads entities c = Ok (d, sweep_finds g heads c) \<and> current_document g heads entities d"
proof -
  obtain d stats where "materialize_impl g heads entities (default_options\<lparr>mo_cache := Some (cache_lookup c)\<rparr>) = Ok (d, stats)"
    "current_document g heads entities d"
    using materialize_seeded_spec [OF g _ cache_ok_valid [OF c], of "default_options\<lparr>mo_cache := Some (cache_lookup c)\<rparr>" heads entities]
    by auto
  then show ?thesis by (auto simp: materialize_through_def materialize_cached_def)
qed

lemma install_snapshot_spec:
  assumes g: "graph_ok g" "payloads_valid g" "acyclic (history g)" and c: "cache_ok g c" and h: "contains_op g head"
  shows "\<exists>doc. install_snapshot slack g head c = Ok (True, cache_install head doc False (sweep_finds g [head] c)) \<and>
    entry_ok g head doc \<and> cache_ok g (cache_install head doc False (sweep_finds g [head] c))"
proof -
  obtain d where d: "materialize_through g [head] [] c = Ok (d, sweep_finds g [head] c)" "current_document g [head] [] d"
    using materialize_through_spec [OF g c] by blast
  let ?doc = "\<lparr>sn_chunks = [\<lparr>ck_bytes = document_arena d, ck_capacity = total_value_bytes d + slack (total_value_bytes d)\<rparr>],
         sn_owned_bytes = total_value_bytes d, sn_dead_bytes = 0, sn_property_count = int (property_count d), sn_document = d\<rparr>"
  have doc: "create_owning_copy slack d = Ok ?doc" by (rule create_owning_copy_eq)
  then have ok: "entry_ok g head ?doc"
    using h d(2) owning_copy_ok [OF _ doc] by (simp add: entry_ok_def current_document_def)
  have "cache_ok g (sweep_finds g [head] c)"
    using cache_ok_sub [OF c no_new_docs_sweep] c by (simp add: cache_ok_def)
  then have "cache_ok g (cache_install head ?doc False (sweep_finds g [head] c))" by (rule install_ok [OF _ ok])
  with h d(1) doc ok show ?thesis by (auto simp: install_snapshot_def)
qed

subsection \<open>Advancing onto a single-parent child\<close>

lemma advance_step_ok:
  assumes "snapshot_ok doc"
  shows "snapshot_ok (advance_step slack child doc a)"
    and "document_try_get (sn_document (advance_step slack child doc a)) =
      (document_try_get (sn_document doc))(a_path a :=
        (if is_abstain a then None else Some \<lparr>rp_writers = [\<lparr>pv_writer = child, pv_value = a_value a\<rparr>]\<rparr>))"
  using set_single_writer_spec(1) [OF assms, of slack "a_path a" child "a_value a"]
    set_single_writer_spec(2) [OF assms, of "a_path a" child "a_value a" slack] clear_writers_ok [OF assms, of "a_path a"]
  by (simp_all add: advance_step_def doc_update_def)

lemma advance_steps_ok:
  assumes "snapshot_ok doc" "distinct (map a_path as)"
  shows "snapshot_ok (foldl (advance_step slack child) doc as) \<and>
    document_try_get (sn_document (foldl (advance_step slack child) doc as)) p =
      (case map_of (map (\<lambda>a. (a_path a, a)) as) p of
         None \<Rightarrow> document_try_get (sn_document doc) p
       | Some a \<Rightarrow> if is_abstain a then None else Some \<lparr>rp_writers = [\<lparr>pv_writer = child, pv_value = a_value a\<rparr>]\<rparr>)"
  using assms
proof (induction as arbitrary: doc)
  case (Cons a as)
  note step = advance_step_ok [OF Cons.prems(1), of slack child a]
  have "map_of (map (\<lambda>a. (a_path a, a)) as) (a_path a) = None"
    using Cons.prems(2) by (simp add: map_of_eq_None_iff image_image)
  then show ?case using Cons.IH [OF step(1)] Cons.prems(2) step(2) by (auto split: option.splits)
qed simp

lemma current_values_child:
  assumes E: "acyclic E" and child: "E `` {child} = {parent}"
  shows "current_values g E (ancestors E child) p =
    (case assignment_at g child p of
       None \<Rightarrow> current_values g E (ancestors E parent) p
     | Some a \<Rightarrow> if is_abstain a then {} else {\<lparr>pv_writer = child, pv_value = a_value a\<rparr>})"
  unfolding current_values_top [OF E, of g child p] child by (simp split: option.split)

lemma current_document_child:
  assumes E: "acyclic (history g)" and child: "history g `` {child} = {parent}" "contains_op g child" "contains_op g parent"
    and d: "current_document g [parent] [] d" and wf: "document_wf d'"
    and get: "\<And>p. document_try_get d' p = (case assignment_at g child p of
         None \<Rightarrow> document_try_get d p
       | Some a \<Rightarrow> if is_abstain a then None else Some \<lparr>rp_writers = [\<lparr>pv_writer = child, pv_value = a_value a\<rparr>]\<rparr>)"
  shows "current_document g [child] [] d'"
proof -
  let ?ok = "\<lambda>C (v :: raw_property). rp_writers v \<noteq> [] \<and> sorted_wrt (<) (map pv_writer (rp_writers v)) \<and> set (rp_writers v) = C"
  have "document_try_get d' p = Some v \<longleftrightarrow> ?ok (current_values g (history g) (ancestors (history g) child) p) v" for p v
  proof (cases "assignment_at g child p")
    case None
    then show ?thesis using d child(3) by (simp add: get current_values_child [OF E child(1)] current_document_def reached_single)
  next
    case (Some a)
    show ?thesis
    proof (cases "is_abstain a")
      case True
      then show ?thesis using Some by (simp add: get current_values_child [OF E child(1)])
    next
      case False
      then show ?thesis using Some single_writer_iff by (auto simp: get current_values_child [OF E child(1)])
    qed
  qed
  then show ?thesis using wf child(2) by (simp add: current_document_def reached_single)
qed

lemma advance_snapshot_spec:
  assumes g: "graph_ok g" "payloads_valid g" "acyclic (history g)" and c: "cache_ok g c"
  shows "advance_snapshot slack g parent child c = Ok (False, c) \<or>
    (\<exists>doc o1. find_op g child = Some o1 \<and> o_parents o1 = [parent] \<and> \<not> is_skeleton o1 \<and> cache_contains c parent \<and>
       entry_ok g child doc \<and>
       advance_snapshot slack g parent child c =
         Ok (True, cache_install child doc (is_pinned c parent) (snd (cache_erase parent c))) \<and>
       cache_ok g (cache_install child doc (is_pinned c parent) (snd (cache_erase parent c))))"
proof (cases "find_op g child")
  case None
  then show ?thesis by (simp add: advance_snapshot_def)
next
  case (Some o1)
  show ?thesis
  proof (cases "is_skeleton o1 \<or> length (o_parents o1) \<noteq> 1 \<or> o_parents o1 ! 0 \<noteq> parent \<or> \<not> cache_contains c parent")
    case True
    then show ?thesis using Some by (auto simp: advance_snapshot_def)
  next
    case False
    then have ps: "o_parents o1 = [parent]" by (auto simp: length_Suc_conv)
    obtain e where e: "cache_get c parent = Some e" using False by (auto simp: cache_contains_def)
    then have ok: "contains_op g parent" "snapshot_ok (ce_doc e)" "current_document g [parent] [] (sn_document (ce_doc e))"
      using c by (auto simp: cache_ok_def entry_ok_def)
    have child: "contains_op g child" using Some by (simp add: contains_op_def)
    have edges: "history g `` {child} = {parent}" using Some ps ok(1) by (auto simp: parent_edges_def)
    note as = op_writes_Ok [OF g(2) Some]
    let ?doc = "foldl (advance_step slack child) (ce_doc e) (op_writes g child)"
    note adv = advance_steps_ok [OF ok(2) as(2), of slack child]
    have doc: "snapshot_ok ?doc" using adv by blast
    then have "document_wf (sn_document ?doc)" by (simp add: snapshot_ok_def)
    then have cur: "current_document g [child] [] (sn_document ?doc)"
      by (intro current_document_child [OF g(3) edges child ok(1,3)]) (use adv in \<open>simp_all add: assignment_at_def\<close>)
    obtain doc' where doc': "(if sn_dead_bytes ?doc * 2 > sn_owned_bytes ?doc then create_owning_copy slack (sn_document ?doc)
        else Ok ?doc) = Ok doc'" "entry_ok g child doc'"
    proof (cases "sn_dead_bytes ?doc * 2 > sn_owned_bytes ?doc")
      case True
      obtain d where d: "create_owning_copy slack (sn_document ?doc) = Ok d" "sn_document d = sn_document ?doc"
        using create_owning_copy_eq by fastforce
      have "snapshot_ok d" using owning_copy_ok [OF _ d(1)] cur by (simp add: current_document_def)
      with True d that [of d] cur child show thesis by (simp add: entry_ok_def)
    next
      case False
      with that [of ?doc] doc cur child show thesis by (simp add: entry_ok_def)
    qed
    have take: "cache_take parent c = (Some (ce_doc e), snd (cache_erase parent c))" using e by (simp add: cache_take_def)
    have eq: "advance_snapshot slack g parent child c =
        Ok (True, cache_install child doc' (is_pinned c parent) (snd (cache_erase parent c)))"
      using Some False as(1) doc'(1) by (simp add: advance_snapshot_def take)
    have "cache_ok g (snd (cache_erase parent c))"
      using cache_ok_sub [OF c no_new_docs_erase] c by (simp add: cache_ok_def)
    then have "cache_ok g (cache_install child doc' (is_pinned c parent) (snd (cache_erase parent c)))"
      by (rule install_ok [OF _ doc'(2)])
    with eq doc'(2) Some ps False show ?thesis by blast
  qed
qed

subsection \<open>The probe\<close>

text \<open>The probe is the walk of a sweep, cut off as soon as enough ops have been counted.\<close>

lemma collect_loop_length: "length out \<le> length (collect_loop g t seen stack out)"
  by (induction g t seen stack out rule: collect_loop.induct) (auto split: option.splits if_splits)

lemma probe_loop_collect:
  assumes "int (length out) \<le> m"
  shows "probe_loop g c m seen stack (int (length out)) =
    min m (int (length (collect_loop g (cache_contains c) seen stack out)))"
  using assms
proof (induction g "cache_contains c" seen stack out rule: collect_loop.induct)
  case (1 g seen out)
  then show ?case by (subst probe_loop.simps) simp
next
  case (2 g seen i stack out)
  show ?case
  proof (cases "int (length out) < m")
    case False
    then have "probe_loop g c m seen (i # stack) (int (length out)) = m" using "2.prems" by (subst probe_loop.simps) simp
    then show ?thesis using False collect_loop_length [of out g "cache_contains c" seen "i # stack"] by simp
  next
    case True
    show ?thesis
    proof (cases "i \<in> seen \<or> find_op g i = None")
      case skip: True
      then have "probe_loop g c m seen (i # stack) (int (length out)) = probe_loop g c m seen stack (int (length out))"
        using True by (subst probe_loop.simps) (auto simp: Let_def)
      moreover have "collect_loop g (cache_contains c) seen (i # stack) out = collect_loop g (cache_contains c) seen stack out"
        using skip by auto
      ultimately show ?thesis using "2.hyps"(1,2) "2.prems" skip by (cases "i \<in> seen") auto
    next
      case False
      then obtain o1 where o1: "i \<notin> seen" "find_op g i = Some o1" by auto
      let ?stack = "if cache_contains c i then stack else rev (o_parents o1) @ stack"
      have "probe_loop g c m seen (i # stack) (int (length out)) = probe_loop g c m (insert i seen) ?stack (int (length (out @ [i])))"
        using True o1 by (subst probe_loop.simps) (simp add: Let_def add.commute)
      also have "\<dots> = min m (int (length (collect_loop g (cache_contains c) (insert i seen) ?stack (out @ [i]))))"
        by (rule "2.hyps"(3) [OF o1]) (use True in auto)
      finally show ?thesis using o1 by simp
    qed
  qed
qed

lemma probe_loop_spec:
  "0 \<le> m \<Longrightarrow> probe_loop g c m {} [head] 0 = min m (int (card (reach_until g (cache_contains c) [head])))"
proof -
  assume m: "0 \<le> m"
  note cl = collect_loop_set [of g "cache_contains c" "[head]"]
  have "length (collect_loop g (cache_contains c) {} [head] []) = card (reach_until g (cache_contains c) [head])"
    using cl by (metis distinct_card)
  then show ?thesis using probe_loop_collect [of "[]" m g c "{}" "[head]"] m by simp
qed

end
