(* ===== verification/Cache_Properties.thy ===== *)
theory Cache_Properties
  imports Snapshot_Cache
begin

text \<open>
  What a caller may rely on: a cache filled on a history never changes what materializing that history gives,
  eviction takes the oldest unpinned entries and nothing else, and advancing a snapshot gives the snapshot a
  fresh materialization would.
\<close>

subsection \<open>Caches as they are filled\<close>

text \<open>
  The states of a cache used with one graph.  An outside snapshot (a persisted one) may be installed under the
  condition the source states: it is the materialization of its op, unfiltered and as a single head.
\<close>

inductive cache_built :: "(nat \<Rightarrow> nat) \<Rightarrow> op_graph \<Rightarrow> snapshot_cache \<Rightarrow> bool" for slack g where
  built_new: "cache_built slack g (new_cache b)"
| built_install: "cache_built slack g c \<Longrightarrow> contains_op g i \<Longrightarrow> snapshot_reachable slack doc \<Longrightarrow>
    materialize g [i] = Ok (sn_document doc) \<Longrightarrow> cache_built slack g (cache_install i doc pinned c)"
| built_find: "cache_built slack g c \<Longrightarrow> cache_built slack g (snd (cache_find i c))"
| built_erase: "cache_built slack g c \<Longrightarrow> cache_built slack g (snd (cache_erase i c))"
| built_take: "cache_built slack g c \<Longrightarrow> cache_built slack g (snd (cache_take i c))"
| built_unpin: "cache_built slack g c \<Longrightarrow> cache_built slack g (snd (unpin i c))"
| built_clear_unpinned: "cache_built slack g c \<Longrightarrow> cache_built slack g (clear_unpinned c)"
| built_clear: "cache_built slack g c \<Longrightarrow> cache_built slack g (cache_clear c)"
| built_materialize: "cache_built slack g c \<Longrightarrow> materialize_through g heads entities c = Ok (d, c') \<Longrightarrow> cache_built slack g c'"
| built_snapshot: "cache_built slack g c \<Longrightarrow> install_snapshot slack g head c = Ok (b, c') \<Longrightarrow> cache_built slack g c'"
| built_useful: "cache_built slack g c \<Longrightarrow> install_snapshot_if_useful slack g head c m = Ok (b, c') \<Longrightarrow> cache_built slack g c'"
| built_advance: "cache_built slack g c \<Longrightarrow> advance_snapshot slack g parent child c = Ok (b, c') \<Longrightarrow> cache_built slack g c'"

lemma materialize_current:
  assumes "graph_ok g" "payloads_valid g" "acyclic (history g)"
  shows "\<exists>d. materialize_entities g heads entities = Ok d \<and> current_document g heads entities d"
  using materialize_plain_spec [OF assms, of heads entities default_options]
  by (auto simp: materialize_entities_def materialize_impl_def default_options_def current_document_def)

lemma materialize_is_entities: "materialize g heads = materialize_entities g heads []"
  by (simp add: materialize_def materialize_entities_def)

lemma current_iff_materialize:
  assumes "graph_ok g" "payloads_valid g" "acyclic (history g)"
  shows "current_document g heads entities d \<longleftrightarrow> materialize_entities g heads entities = Ok d"
  using materialize_current [OF assms, of heads entities] current_document_unique by (metis result.inject(2))

lemma cache_ok_subI: "cache_ok g c \<Longrightarrow> (entries_ok (ch_entries c) \<Longrightarrow> no_new_docs c c') \<Longrightarrow> cache_ok g c'"
  by (rule cache_ok_sub, assumption) (simp add: cache_ok_def)

lemma cache_built_ok:
  assumes "cache_built slack g c" and g: "graph_ok g" "payloads_valid g" "acyclic (history g)"
  shows "cache_ok g c"
  using assms(1)
proof (induction rule: cache_built.induct)
  case (built_new b)
  then show ?case by (simp add: cache_ok_def entries_ok_def new_cache_def cache_get_def)
next
  case (built_install c i doc pinned)
  then have "entry_ok g i doc"
    using snapshot_reachable_ok current_iff_materialize [OF g] by (simp add: entry_ok_def materialize_is_entities)
  then show ?case by (rule install_ok [OF built_install.IH])
next
  case (built_find c i)
  show ?case by (rule cache_ok_subI [OF built_find.IH no_new_docs_find])
next
  case (built_erase c i)
  show ?case by (rule cache_ok_subI [OF built_erase.IH no_new_docs_erase])
next
  case (built_take c i)
  have "snd (cache_take i c) = (if cache_get c i = None then c else snd (cache_erase i c))"
    by (auto simp: cache_take_def)
  then show ?case using built_take.IH cache_ok_subI [OF built_take.IH no_new_docs_erase] by simp
next
  case (built_unpin c i)
  show ?case by (rule cache_ok_subI [OF built_unpin.IH no_new_docs_unpin])
next
  case (built_clear_unpinned c)
  show ?case by (rule cache_ok_subI [OF built_clear_unpinned.IH no_new_docs_clear_unpinned])
next
  case (built_clear c)
  then show ?case by (simp add: cache_ok_def cache_clear_def entries_ok_def cache_get_def)
next
  case (built_materialize c heads entities d c')
  then have "c' = sweep_finds g heads c" using materialize_through_spec [OF g built_materialize.IH] by (metis Pair_inject result.inject(2))
  then show ?case using cache_ok_subI [OF built_materialize.IH no_new_docs_sweep] by simp
next
  case (built_snapshot c head b c')
  then show ?case
    using install_snapshot_spec [OF g built_snapshot.IH, of head slack]
    by (cases "contains_op g head") (auto simp: install_snapshot_def [of slack g head c] dest: sym)
next
  case (built_useful c head m b c')
  have "install_snapshot slack g head c = Ok (b, c') \<or> c' = c"
    using built_useful.hyps(2) by (auto simp: install_snapshot_if_useful_def Let_def split: if_splits)
  then show ?case
    using built_useful.IH install_snapshot_spec [OF g built_useful.IH, of head slack]
    by (cases "contains_op g head") (auto simp: install_snapshot_def [of slack g head c])
next
  case (built_advance c parent child b c')
  then show ?case using advance_snapshot_spec [OF g built_advance.IH, of slack parent child] by auto
qed

subsection \<open>Properties\<close>

text \<open>
  C3. Snapshots are invisible.  On any graph built by the container's operations whose payloads are valid and whose
  parent relation has no cycle, if every entry of a snapshot lookup is what materializing its op alone gives, then
  materializing through the lookup, for any heads and any wanted entities, gives exactly the document a plain replay
  gives: whether the validity gate accepts the seed, finds none, or falls back.
\<close>

theorem cache_transparent:
  assumes "graph_reachable g" "payloads_valid g" "acyclic (parent_edges g (\<lambda>_. False))"
    and "\<And>r d. find_snapshot r = Some d \<Longrightarrow> contains_op g r \<Longrightarrow> materialize g [r] = Ok d"
  shows "materialize_cached g heads entities find_snapshot = materialize_entities g heads entities"
proof -
  note g = graph_reachable_ok [OF assms(1)] assms(2,3)
  have "cache_valid g find_snapshot"
    using assms(4) current_iff_materialize [OF g] by (simp add: cache_valid_def materialize_is_entities)
  then obtain d stats where "materialize_impl g heads entities (default_options\<lparr>mo_cache := Some find_snapshot\<rparr>) = Ok (d, stats)"
    "current_document g heads entities d"
    using materialize_seeded_spec [OF g _, of "default_options\<lparr>mo_cache := Some find_snapshot\<rparr>" find_snapshot heads entities] by auto
  then show ?thesis using current_iff_materialize [OF g] by (simp add: materialize_cached_def)
qed

theorem cache_transparent_witness:
  "materialize_cached sample_graph [Op_id (Hash256 2 0 0 0)] []
     (\<lambda>r. if r = Op_id (Hash256 1 0 0 0) then (case materialize sample_graph [r] of Ok d \<Rightarrow> Some d | _ \<Rightarrow> None) else None) =
   materialize_entities sample_graph [Op_id (Hash256 2 0 0 0)] []"
  by (rule cache_transparent [OF sample_graph_reachable sample_payloads_valid sample_acyclic])
    (auto split: if_splits result.splits)

text \<open>
  C4. A cache filled in any way the interface offers stays sound.  Whatever sequence of lookups, installs, erasures,
  evictions, materializations and advances a cache went through on such a graph, a later materialization through it
  returns, without a fault, the document a plain replay returns.
\<close>

theorem cache_sound:
  assumes "graph_reachable g" "payloads_valid g" "acyclic (parent_edges g (\<lambda>_. False))" "cache_built slack g c"
  shows "\<exists>d. materialize_through g heads entities c = Ok (d, sweep_finds g heads c) \<and>
    materialize_entities g heads entities = Ok d"
proof -
  note g = graph_reachable_ok [OF assms(1)] assms(2,3)
  from materialize_through_spec [OF g cache_built_ok [OF assms(4) g]] show ?thesis
    using current_iff_materialize [OF g] by blast
qed

definition sample_cache :: snapshot_cache where
  "sample_cache = (case install_snapshot (\<lambda>_. 0) sample_graph (Op_id (Hash256 1 0 0 0)) (new_cache 8) of
     Ok (_, c) \<Rightarrow> c | _ \<Rightarrow> new_cache 8)"

lemma sample_cache_built: "cache_built (\<lambda>_. 0) sample_graph sample_cache"
proof -
  note new = built_new [of "\<lambda>_. 0" sample_graph 8]
  show ?thesis
    using new built_snapshot [OF new] by (auto simp: sample_cache_def split: result.split)
qed

theorem cache_sound_witness:
  "\<exists>d. materialize_through sample_graph [Op_id (Hash256 2 0 0 0)] [] sample_cache =
      Ok (d, sweep_finds sample_graph [Op_id (Hash256 2 0 0 0)] sample_cache) \<and>
    materialize_entities sample_graph [Op_id (Hash256 2 0 0 0)] [] = Ok d"
  by (rule cache_sound [OF sample_graph_reachable sample_payloads_valid sample_acyclic sample_cache_built])

lemma install_eviction:
  fixes i :: op_id and doc :: snapshot_document and pinned :: bool
  assumes "distinct (map fst (ch_entries c))"
  defines "before \<equiv> AList.update i \<lparr>ce_doc = doc, ce_pinned = pinned, ce_last_used = ch_tick c + 1\<rparr> (ch_entries c)"
  defines "after \<equiv> ch_entries (cache_install i doc pinned c)"
  shows "distinct (map fst after) \<and> set after \<subseteq> set before \<and>
    filter (\<lambda>x. ce_pinned (snd x)) after = filter (\<lambda>x. ce_pinned (snd x)) before \<and>
    length (filter (\<lambda>x. \<not> ce_pinned (snd x)) after) =
      min (length (filter (\<lambda>x. \<not> ce_pinned (snd x)) before)) (nat (ch_max_unpinned c)) \<and>
    (\<forall>x \<in> set before - set after. \<forall>y \<in> set after. \<not> ce_pinned (snd y) \<longrightarrow> ce_last_used (snd x) \<le> ce_last_used (snd y))"
proof -
  let ?c = "c\<lparr>ch_entries := before, ch_tick := ch_tick c + 1\<rparr>"
  define n where "n = nat (int (length (unpinned_entries before)) - ch_max_unpinned c)"
  have k: "entries_ok before" using assms(1) by (simp add: before_def entries_ok_def distinct_update)
  have after: "after = trim_loop n before"
    using unpinned_count [of ?c] by (simp add: after_def cache_install_def impl_trim_def Let_def before_def n_def)
  note t = trim_loop_spec [OF k, of n]
  have "length (unpinned_entries before) - n = min (length (unpinned_entries before)) (nat (ch_max_unpinned c))"
    by (auto simp: n_def)
  moreover have "ce_last_used (snd x) \<le> ce_last_used (snd y)"
    if x: "x \<in> set before - set after" and y: "y \<in> set after" "\<not> ce_pinned (snd y)" for x y
  proof -
    have "x \<in> set (unpinned_entries before)"
    proof (rule ccontr)
      assume "x \<notin> set (unpinned_entries before)"
      then have "x \<in> set (filter (\<lambda>x. ce_pinned (snd x)) before)" using x by (simp add: unpinned_entries_def)
      then have "x \<in> set (filter (\<lambda>x. ce_pinned (snd x)) after)" using t after by simp
      then show False using x by simp
    qed
    moreover have "y \<in> set (unpinned_entries after)" using y by (simp add: unpinned_entries_def)
    ultimately show ?thesis using t x unfolding after by blast
  qed
  ultimately show ?thesis
    using t unfolding after entries_ok_def unpinned_entries_def by simp
qed

text \<open>
  C26. Eviction.  Installing into a cache keeps every other pinned entry as it was, adds no entry but the installed
  one, leaves at most the budgeted number of unpinned entries, evicts nothing while that number is not exceeded, and
  no evicted entry was used more recently than an unpinned one that stays.
\<close>

theorem install_evicts_oldest:
  assumes "distinct (map fst (ch_entries c))"
  shows "let before = AList.update i \<lparr>ce_doc = doc, ce_pinned = pinned, ce_last_used = ch_tick c + 1\<rparr> (ch_entries c);
      after = ch_entries (cache_install i doc pinned c) in
    distinct (map fst after) \<and> set after \<subseteq> set before \<and>
    filter (\<lambda>x. ce_pinned (snd x)) after = filter (\<lambda>x. ce_pinned (snd x)) before \<and>
    length (filter (\<lambda>x. \<not> ce_pinned (snd x)) after) =
      min (length (filter (\<lambda>x. \<not> ce_pinned (snd x)) before)) (nat (ch_max_unpinned c)) \<and>
    (\<forall>x \<in> set before - set after. \<forall>y \<in> set after. \<not> ce_pinned (snd y) \<longrightarrow> ce_last_used (snd x) \<le> ce_last_used (snd y))"
  unfolding Let_def by (rule install_eviction [OF assms])

theorem install_evicts_oldest_witness:
  "map fst (ch_entries (cache_install sample_writer empty_snapshot False (new_cache 0))) = [] \<and>
   distinct (map fst (ch_entries (cache_install sample_writer empty_snapshot False (new_cache 0))))"
proof -
  have d: "distinct (map fst (ch_entries (new_cache 0)))" by (simp add: new_cache_def)
  have "length (filter (\<lambda>x. \<not> ce_pinned (snd x)) (ch_entries (cache_install sample_writer empty_snapshot False (new_cache 0)))) = 0"
    "filter (\<lambda>x. ce_pinned (snd x)) (ch_entries (cache_install sample_writer empty_snapshot False (new_cache 0))) = []"
    using install_evicts_oldest [OF d, of sample_writer empty_snapshot False] by (simp_all add: new_cache_def Let_def)
  then have "ch_entries (cache_install sample_writer empty_snapshot False (new_cache 0)) = []"
    by (metis (mono_tags, lifting) filter_empty_conv length_0_conv list.set_intros(1) neq_Nil_conv)
  then show ?thesis by simp
qed

text \<open>
  C19. Advancing a snapshot.  On a cache filled on such a graph, advancing from \<open>parent\<close> to \<open>child\<close> succeeds exactly
  when the graph has the child with its payload, its only parent is \<open>parent\<close>, and the cache has an entry there;
  otherwise nothing changes.  When it succeeds the entry has left the parent, and whatever entry the child then has
  holds exactly what materializing the child gives, under the pin the parent's entry had.
\<close>

theorem advance_snapshot_exact:
  assumes "graph_reachable g" "payloads_valid g" "acyclic (parent_edges g (\<lambda>_. False))" "cache_built slack g c"
  shows "\<exists>b c'. advance_snapshot slack g parent child c = Ok (b, c') \<and>
    (b \<longleftrightarrow> (\<exists>o1. find_op g child = Some o1 \<and> \<not> is_skeleton o1 \<and> o_parents o1 = [parent]) \<and> cache_contains c parent) \<and>
    (if b then cache_get c' parent = None \<and>
       (\<forall>e. cache_get c' child = Some e \<longrightarrow> materialize g [child] = Ok (sn_document (ce_doc e)) \<and> ce_pinned e = is_pinned c parent)
     else c' = c)"
proof -
  note g = graph_reachable_ok [OF assms(1)] assms(2,3)
  note ok = cache_built_ok [OF assms(4) g]
  have k: "entries_ok (ch_entries c)" using ok by (simp add: cache_ok_def)
  let ?pre = "(\<exists>o1. find_op g child = Some o1 \<and> \<not> is_skeleton o1 \<and> o_parents o1 = [parent]) \<and> cache_contains c parent"
  consider "?pre" | "\<not> ?pre" by blast
  then show ?thesis
  proof cases
    case 1
    have "advance_snapshot slack g parent child c \<noteq> Ok (False, c)"
    proof
      assume "advance_snapshot slack g parent child c = Ok (False, c)"
      moreover obtain e where "cache_get c parent = Some e" using 1 by (auto simp: cache_contains_def)
      ultimately show False using 1 op_writes_Ok(1) [OF g(2)]
        by (auto simp: advance_snapshot_def cache_take_def Let_def rbind_eq_Ok)
    qed
    then obtain doc where a: "entry_ok g child doc"
      "advance_snapshot slack g parent child c =
         Ok (True, cache_install child doc (is_pinned c parent) (snd (cache_erase parent c)))"
      using advance_snapshot_spec [OF g ok, of slack parent child] by blast
    let ?c1 = "snd (cache_erase parent c)" let ?c' = "cache_install child doc (is_pinned c parent) ?c1"
    have k1: "entries_ok (ch_entries ?c1)" using entries_ok_ops(3) [OF k] .
    have "parent \<noteq> child"
    proof
      assume "parent = child"
      moreover obtain o1 where "find_op g child = Some o1" "o_parents o1 = [parent]" using 1 by blast
      ultimately have "(child, child) \<in> parent_edges g (\<lambda>_. False)" by (simp add: parent_edges_def contains_op_def)
      with assms(3) show False by (meson acyclic_def r_into_trancl')
    qed
    then have "cache_get ?c' parent \<noteq> Some e" for e
      using install_get [OF k1, of child doc "is_pinned c parent" parent e] by (auto simp: cache_erase_def cache_get_def delete_get)
    then have gone: "cache_get ?c' parent = None" by (metis not_None_eq)
    have "materialize g [child] = Ok (sn_document (ce_doc e)) \<and> ce_pinned e = is_pinned c parent" if "cache_get ?c' child = Some e" for e
      using install_get [OF k1 that] a(1) current_iff_materialize [OF g]
      by (simp add: entry_ok_def materialize_is_entities)
    with gone a(2) 1 show ?thesis by (intro exI [of _ True] exI [of _ ?c']) simp
  next
    case 2
    then have "advance_snapshot slack g parent child c = Ok (False, c)"
      using advance_snapshot_spec [OF g ok, of slack parent child] by blast
    with 2 show ?thesis by (intro exI [of _ False] exI [of _ c]) simp
  qed
qed

theorem advance_snapshot_exact_witness:
  "\<exists>b c'. advance_snapshot (\<lambda>_. 0) sample_graph (Op_id (Hash256 1 0 0 0)) (Op_id (Hash256 2 0 0 0)) sample_cache = Ok (b, c') \<and>
    (b \<longleftrightarrow> cache_contains sample_cache (Op_id (Hash256 1 0 0 0)))"
proof -
  have "find_op sample_graph (Op_id (Hash256 2 0 0 0)) = Some sample_child" "\<not> is_skeleton sample_child"
    "o_parents sample_child = [Op_id (Hash256 1 0 0 0)]"
    by (simp_all add: find_op_def sample_graph_ops is_skeleton_def sample_child_def)
  then show ?thesis
    using advance_snapshot_exact [OF sample_graph_reachable sample_payloads_valid sample_acyclic sample_cache_built,
        of "Op_id (Hash256 1 0 0 0)" "Op_id (Hash256 2 0 0 0)"] by force
qed

text \<open>
  C34. The probe decides by the size of the walk it would save, and never counts past the threshold: for a head that
  is in the graph and has no entry, the snapshot is installed exactly when a sweep from the head, stopping at cached
  ops, would walk at least the given number of ops.
\<close>

theorem install_if_useful_exact:
  assumes "contains_op g head" "\<not> cache_contains c head" "0 \<le> min_ops_behind"
  shows "probe_loop g c min_ops_behind {} [head] 0 \<le> min_ops_behind \<and>
    install_snapshot_if_useful slack g head c min_ops_behind =
    (if int (card (reach_until g (cache_contains c) [head])) < min_ops_behind then Ok (False, c)
     else install_snapshot slack g head c)"
  using assms by (simp add: install_snapshot_if_useful_def Let_def probe_loop_spec)

theorem install_if_useful_exact_witness:
  "probe_loop sample_graph (new_cache 8) 1 {} [Op_id (Hash256 2 0 0 0)] 0 \<le> 1 \<and>
   install_snapshot_if_useful (\<lambda>_. 0) sample_graph (Op_id (Hash256 2 0 0 0)) (new_cache 8) 1 =
    (if int (card (reach_until sample_graph (cache_contains (new_cache 8)) [Op_id (Hash256 2 0 0 0)])) < 1 then Ok (False, new_cache 8)
     else install_snapshot (\<lambda>_. 0) sample_graph (Op_id (Hash256 2 0 0 0)) (new_cache 8))"
  by (rule install_if_useful_exact)
    (simp_all add: contains_op_def find_op_def sample_graph_ops cache_contains_def cache_get_def new_cache_def)

subsection \<open>Two behaviours the documentation does not describe\<close>

text \<open>
  Installing a snapshot at an op whose entry is pinned replaces the entry by an unpinned one, so a snapshot that was
  required becomes evictable (and is evicted at once when the budget is zero).
\<close>

theorem install_snapshot_drops_pin:
  assumes "graph_reachable g" "payloads_valid g" "acyclic (parent_edges g (\<lambda>_. False))" "cache_built slack g c"
    and "contains_op g head" "is_pinned c head"
  shows "\<exists>c'. install_snapshot slack g head c = Ok (True, c') \<and> \<not> is_pinned c' head"
proof -
  note g = graph_reachable_ok [OF assms(1)] assms(2,3)
  note ok = cache_built_ok [OF assms(4) g]
  let ?c = "sweep_finds g [head] c"
  obtain doc where doc: "install_snapshot slack g head c = Ok (True, cache_install head doc False ?c)"
    using install_snapshot_spec [OF g ok assms(5)] by blast
  have "entries_ok (ch_entries ?c)"
    using no_new_docs_sweep ok by (simp add: no_new_docs_def cache_ok_def)
  from install_get [OF this, of head doc False head] have "\<not> is_pinned (cache_install head doc False ?c) head"
    by (auto simp: is_pinned_def split: option.split)
  with doc show ?thesis by blast
qed

text \<open>
  A snapshot computed while an ancestor was missing is stale once the ancestor arrives: the graph holds a child whose
  parent it does not have, the child's document is computed, then the parent is added.  The document of the child
  changes, and a materialization through the old entry still returns the old one.
\<close>

definition late_child :: op where
  "late_child = \<lparr>o_id = Op_id (Hash256 2 0 0 0), o_parents = [Op_id (Hash256 1 0 0 0)], o_payload = Some \<lparr>metadata_bytes = [0],
     assignment_bytes = blob [\<lparr>a_path = Property_path [97] [98] [100], a_value = [1, 1], a_kind = AK_set\<rparr>]\<rparr>\<rparr>"

definition early_graph :: op_graph where
  "early_graph = fst (graph_add empty_graph late_child)"

definition late_graph :: op_graph where
  "late_graph = fst (graph_add early_graph sample_root)"

definition early_document :: raw_document where
  "early_document = \<lparr>rd_entities = [([97], \<lparr>re_components = [([98], \<lparr>rc_properties = [([100],
     \<lparr>rp_writers = [\<lparr>pv_writer = Op_id (Hash256 2 0 0 0), pv_value = [1, 1]\<rparr>]\<rparr>)]\<rparr>)]\<rparr>)]\<rparr>"

lemma early_document_computed: "materialize early_graph [Op_id (Hash256 2 0 0 0)] = Ok early_document"
  by code_simp

lemma late_document_differs: "materialize late_graph [Op_id (Hash256 2 0 0 0)] \<noteq> Ok early_document"
  by code_simp

lemma late_lookup_stale:
  "materialize_cached late_graph [Op_id (Hash256 2 0 0 0)] [] [Op_id (Hash256 2 0 0 0) \<mapsto> early_document] = Ok early_document"
  by code_simp

theorem late_ancestor_stale:
  "materialize early_graph [Op_id (Hash256 2 0 0 0)] = Ok early_document \<and>
   materialize_cached late_graph [Op_id (Hash256 2 0 0 0)] [] [Op_id (Hash256 2 0 0 0) \<mapsto> early_document] \<noteq>
   materialize late_graph [Op_id (Hash256 2 0 0 0)]"
  using early_document_computed late_document_differs late_lookup_stale by simp

end
