(* ===== verification/Recovery.thy ===== *)
theory Recovery
  imports Materialize_Correct
begin

text \<open>
  Accepting history from an untrusted peer (recovery.hh/.cc): a batch of ops as received is decoded and checked as a
  whole, then applied.  The hash function is the parameter \<open>H\<close>.
\<close>

record received_op =
  rv_id :: op_id
  rv_parents :: "op_id list"
  rv_metadata :: bytes
  rv_assignments :: bytes

datatype integration_error = IE_malformed | IE_parents_disagree

record integration_rejection =
  ir_op :: op_id
  ir_reason :: integration_error
  ir_decode_error :: op_decode_error

record integration_result =
  ig_ops_added :: nat
  ig_skeletons_filled :: nat
  ig_already_present :: nat

definition same_parents :: "op_id list \<Rightarrow> op_id list \<Rightarrow> bool" where
  "same_parents a b = (if length a \<noteq> length b then False else list_all (\<lambda>i. a ! i = b ! i) [0..<length a])"

definition verify_received ::
  "(bytes \<Rightarrow> hash256) \<Rightarrow> op_graph \<Rightarrow> received_op \<Rightarrow> op list \<Rightarrow> (integration_rejection, op list) result" where
  "verify_received H g r verified =
     rbind (map_err (\<lambda>e. \<lparr>ir_op = rv_id r, ir_reason = IE_malformed, ir_decode_error = e\<rparr>)
             (try_decode_op H (rv_id r) (rv_parents r) (rv_metadata r) (rv_assignments r))) (\<lambda>decoded.
       case find_op g (rv_id r) of
         None \<Rightarrow> Ok (verified @ [decoded])
       | Some existing \<Rightarrow>
           (if \<not> same_parents (o_parents existing) (o_parents decoded)
            then Err \<lparr>ir_op = rv_id r, ir_reason = IE_parents_disagree, ir_decode_error = OE_hash_mismatch\<rparr>
            else Ok (verified @ [decoded])))"

definition try_verify_batch ::
  "(bytes \<Rightarrow> hash256) \<Rightarrow> op_graph \<Rightarrow> received_op list \<Rightarrow> (integration_rejection, op list) result" where
  "try_verify_batch H g batch = rfold (verify_received H g) batch []"

definition apply_verified :: "op \<Rightarrow> op_graph \<times> integration_result \<Rightarrow> ('e, op_graph \<times> integration_result) result" where
  "apply_verified o1 s =
     (case s of (g, res) \<Rightarrow>
        (case find_op g (o_id o1) of
           None \<Rightarrow> Ok (fst (graph_add g o1), res\<lparr>ig_ops_added := ig_ops_added res + 1\<rparr>)
         | Some existing \<Rightarrow>
             (if is_skeleton existing then
                (case o_payload o1 of
                   None \<Rightarrow> Fault
                 | Some p \<Rightarrow> Ok (fst (fill_payload g (o_id o1) p), res\<lparr>ig_skeletons_filled := ig_skeletons_filled res + 1\<rparr>))
              else Ok (g, res\<lparr>ig_already_present := ig_already_present res + 1\<rparr>))))"

definition apply_verified_batch :: "op_graph \<Rightarrow> op list \<Rightarrow> ('e, op_graph \<times> integration_result) result" where
  "apply_verified_batch g verified =
     rfold apply_verified verified (g, \<lparr>ig_ops_added = 0, ig_skeletons_filled = 0, ig_already_present = 0\<rparr>)"

text \<open>The graph comes back with the outcome: unchanged with a rejection.\<close>

definition integrate ::
  "(bytes \<Rightarrow> hash256) \<Rightarrow> op_graph \<Rightarrow> received_op list \<Rightarrow> op_graph \<times> (integration_rejection, integration_result) result" where
  "integrate H g batch =
     (case try_verify_batch H g batch of
        Fault \<Rightarrow> (g, Fault)
      | Err e \<Rightarrow> (g, Err e)
      | Ok verified \<Rightarrow>
          (case apply_verified_batch g verified of
             Fault \<Rightarrow> (g, Fault) | Err e \<Rightarrow> (g, Err e) | Ok (g', res) \<Rightarrow> (g', Ok res)))"

subsection \<open>Verifying\<close>

lemma same_parents_iff [simp]: "same_parents a b \<longleftrightarrow> a = b"
  by (auto simp: same_parents_def list_all_iff intro: nth_equalityI)

text \<open>What acceptance of one received op means, and what refuses it.\<close>

definition accepts_op :: "(bytes \<Rightarrow> hash256) \<Rightarrow> op_graph \<Rightarrow> received_op \<Rightarrow> op \<Rightarrow> bool" where
  "accepts_op H g r x \<longleftrightarrow> try_decode_op H (rv_id r) (rv_parents r) (rv_metadata r) (rv_assignments r) = Ok x \<and>
     (\<forall>h. find_op g (rv_id r) = Some h \<longrightarrow> o_parents h = rv_parents r)"

definition refuses_op :: "(bytes \<Rightarrow> hash256) \<Rightarrow> op_graph \<Rightarrow> received_op \<Rightarrow> integration_rejection \<Rightarrow> bool" where
  "refuses_op H g r rej \<longleftrightarrow> ir_op rej = rv_id r \<and>
     (case ir_reason rej of
        IE_malformed \<Rightarrow> try_decode_op H (rv_id r) (rv_parents r) (rv_metadata r) (rv_assignments r) = Err (ir_decode_error rej)
      | IE_parents_disagree \<Rightarrow> (\<exists>x h. try_decode_op H (rv_id r) (rv_parents r) (rv_metadata r) (rv_assignments r) = Ok x \<and>
          find_op g (rv_id r) = Some h \<and> o_parents h \<noteq> rv_parents r))"

lemma refused_not_accepted: "refuses_op H g r rej \<Longrightarrow> \<not> accepts_op H g r v"
  by (auto simp: refuses_op_def accepts_op_def split: integration_error.splits)

lemma decoded_op:
  "try_decode_op H i ps m b = Ok x \<Longrightarrow> o_id x = i \<and> o_parents x = ps \<and> o_payload x = Some \<lparr>metadata_bytes = m, assignment_bytes = b\<rparr>"
  by (auto simp: try_decode_op_iff)

lemma verify_received_cases:
  "(\<exists>x. verify_received H g r verified = Ok (verified @ [x]) \<and> accepts_op H g r x) \<or>
   (\<exists>rej. verify_received H g r verified = Err rej \<and> refuses_op H g r rej)"
proof (cases "try_decode_op H (rv_id r) (rv_parents r) (rv_metadata r) (rv_assignments r)")
  case Fault
  then show ?thesis using try_decode_op_no_Fault by blast
next
  case (Err e)
  then show ?thesis by (simp add: verify_received_def refuses_op_def)
next
  case (Ok x)
  then show ?thesis using decoded_op [OF Ok]
    by (cases "find_op g (rv_id r)") (auto simp: verify_received_def refuses_op_def accepts_op_def)
qed

lemma verify_fold_cases:
  "(\<exists>vs. rfold (verify_received H g) batch verified = Ok (verified @ vs) \<and> list_all2 (accepts_op H g) batch vs) \<or>
   (\<exists>rej pre r post vs. rfold (verify_received H g) batch verified = Err rej \<and> batch = pre @ r # post \<and>
      list_all2 (accepts_op H g) pre vs \<and> refuses_op H g r rej)"
proof (induction batch arbitrary: verified)
  case (Cons r batch)
  consider x where "verify_received H g r verified = Ok (verified @ [x])" "accepts_op H g r x"
    | rej where "verify_received H g r verified = Err rej" "refuses_op H g r rej"
    using verify_received_cases [of H g r verified] by blast
  then show ?case
  proof cases
    case (1 x)
    from Cons.IH [of "verified @ [x]"] show ?thesis
    proof (elim disjE exE conjE)
      fix vs assume "rfold (verify_received H g) batch (verified @ [x]) = Ok ((verified @ [x]) @ vs)" "list_all2 (accepts_op H g) batch vs"
      then show ?thesis using 1 by (intro disjI1 exI [of _ "x # vs"]) simp
    next
      fix rej pre r' post vs
      assume "rfold (verify_received H g) batch (verified @ [x]) = Err rej" "batch = pre @ r' # post"
        "list_all2 (accepts_op H g) pre vs" "refuses_op H g r' rej"
      then show ?thesis
        using 1 by (intro disjI2 exI [of _ rej] exI [of _ "r # pre"] exI [of _ r'] exI [of _ post] exI [of _ "x # vs"]) simp
    qed
  next
    case (2 rej)
    then show ?thesis
      by (intro disjI2 exI [of _ rej] exI [of _ "[]"] exI [of _ r] exI [of _ batch] exI [of _ "[]"]) simp
  qed
qed simp

subsection \<open>Applying\<close>

definition first_of :: "op list \<Rightarrow> op_id \<Rightarrow> op option" where
  "first_of vs i = map_of (map (\<lambda>v. (o_id v, v)) vs) i"

lemma first_of_simps [simp]: "first_of [] i = None" "first_of (v # vs) i = (if i = o_id v then Some v else first_of vs i)"
  by (simp_all add: first_of_def)

text \<open>What a graph holds under an id after a verified batch: full ops stay, skeletons and gaps take the batch's op.\<close>

definition filled_from :: "op option \<Rightarrow> op option \<Rightarrow> op option" where
  "filled_from existing received =
     (case existing of
        None \<Rightarrow> received
      | Some h \<Rightarrow> if is_skeleton h then (case received of None \<Rightarrow> Some h | Some v \<Rightarrow> Some v) else Some h)"

definition agrees_with :: "op_graph \<Rightarrow> op \<Rightarrow> bool" where
  "agrees_with g v \<longleftrightarrow> \<not> is_skeleton v \<and>
     (\<forall>h. find_op g (o_id v) = Some h \<longrightarrow> is_skeleton h \<longrightarrow> o_parents h = o_parents v)"

lemma apply_verified_step:
  assumes g: "graph_ok g" and v: "agrees_with g v"
  shows "\<exists>g' res'. apply_verified v (g, res) = (Ok (g', res') :: ('e, op_graph \<times> integration_result) result) \<and> graph_ok g' \<and>
    (\<forall>i. find_op g' i = filled_from (find_op g i) (first_of [v] i)) \<and>
    ig_ops_added res' = ig_ops_added res + (if find_op g (o_id v) = None then 1 else 0) \<and>
    ig_ops_added res' + ig_skeletons_filled res' + ig_already_present res' =
      Suc (ig_ops_added res + ig_skeletons_filled res + ig_already_present res) \<and>
    (find_op g (o_id v) \<noteq> None \<longrightarrow> map fst (g_ops g') = map fst (g_ops g) \<and> g_children g' = g_children g)"
proof (cases "find_op g (o_id v)")
  case None
  then have "find_op (fst (graph_add g v)) i = filled_from (find_op g i) (first_of [v] i)" for i
    by (auto simp: find_graph_add contains_op_def filled_from_def split: option.splits)
  then show ?thesis using None graph_add_ok [OF g] by (simp add: apply_verified_def)
next
  case (Some h)
  show ?thesis
  proof (cases "is_skeleton h")
    case True
    obtain p where p: "o_payload v = Some p" using v by (auto simp: agrees_with_def is_skeleton_def)
    have hv: "h\<lparr>o_payload := Some p\<rparr> = v"
      using v Some True p find_op_id [OF g Some] by (cases h; cases v) (auto simp: agrees_with_def)
    have f: "fst (fill_payload g (o_id v) p) = modify_op g (o_id v) (\<lambda>o1. o1\<lparr>o_payload := Some p\<rparr>)"
      using Some True by (simp add: fill_payload_def)
    have "find_op (modify_op g (o_id v) (\<lambda>o1. o1\<lparr>o_payload := Some p\<rparr>)) i = filled_from (find_op g i) (first_of [v] i)" for i
      using Some True hv by (auto simp: find_modify_op filled_from_def split: option.split)
    moreover have "graph_ok (modify_op g (o_id v) (\<lambda>o1. o1\<lparr>o_payload := Some p\<rparr>))"
      using fill_payload_ok [OF g, of "o_id v" p] f by simp
    moreover have "map fst (g_ops (modify_op g (o_id v) F)) = map fst (g_ops g)" "g_children (modify_op g (o_id v) F) = g_children g" for F
      by (auto simp: modify_op_def)
    ultimately show ?thesis using Some True p f by (simp add: apply_verified_def)
  next
    case False
    then have "find_op g i = filled_from (find_op g i) (first_of [v] i)" for i
      using Some by (auto simp: filled_from_def split: option.split)
    then show ?thesis using Some False g by (simp add: apply_verified_def)
  qed
qed

lemma apply_fold:
  assumes "graph_ok g" "\<forall>v \<in> set vs. agrees_with g v"
  shows "\<exists>g' res'. rfold apply_verified vs (g, res) = (Ok (g', res') :: ('e, op_graph \<times> integration_result) result) \<and> graph_ok g' \<and>
    (\<forall>i. find_op g' i = filled_from (find_op g i) (first_of vs i)) \<and>
    ig_ops_added res' = ig_ops_added res + card {i \<in> o_id ` set vs. find_op g i = None} \<and>
    ig_ops_added res' + ig_skeletons_filled res' + ig_already_present res' =
      ig_ops_added res + ig_skeletons_filled res + ig_already_present res + length vs \<and>
    ((\<forall>v \<in> set vs. find_op g (o_id v) \<noteq> None) \<longrightarrow> map fst (g_ops g') = map fst (g_ops g) \<and> g_children g' = g_children g)"
  using assms
proof (induction vs arbitrary: g res)
  case Nil
  have "filled_from (find_op g i) None = find_op g i" for i by (simp add: filled_from_def split: option.split)
  with Nil show ?case by simp
next
  case (Cons v vs)
  obtain g1 res1 where s: "apply_verified v (g, res) = (Ok (g1, res1) :: ('e, op_graph \<times> integration_result) result)" "graph_ok g1"
    "\<forall>i. find_op g1 i = filled_from (find_op g i) (first_of [v] i)"
    "ig_ops_added res1 = ig_ops_added res + (if find_op g (o_id v) = None then 1 else 0)"
    "ig_ops_added res1 + ig_skeletons_filled res1 + ig_already_present res1 =
      Suc (ig_ops_added res + ig_skeletons_filled res + ig_already_present res)"
    "find_op g (o_id v) \<noteq> None \<longrightarrow> map fst (g_ops g1) = map fst (g_ops g) \<and> g_children g1 = g_children g"
    using apply_verified_step [OF Cons.prems(1), of v res, where 'e = 'e] Cons.prems(2) by auto
  have full: "\<not> is_skeleton v" using Cons.prems(2) by (simp add: agrees_with_def)
  have skeleton: "find_op g i = Some h" if "find_op g1 i = Some h" "is_skeleton h" for i h
    using that full unfolding s(3) [rule_format] by (cases "find_op g i") (auto simp: filled_from_def split: if_splits)
  have agree: "agrees_with g1 w" if "w \<in> set vs" for w
    using that Cons.prems(2) skeleton unfolding agrees_with_def by (meson list.set_intros(2))
  then have ag: "\<forall>v \<in> set vs. agrees_with g1 v" by blast
  obtain g' res' where r: "rfold apply_verified vs (g1, res1) = (Ok (g', res') :: ('e, op_graph \<times> integration_result) result)" "graph_ok g'"
    "\<forall>i. find_op g' i = filled_from (find_op g1 i) (first_of vs i)"
    "ig_ops_added res' = ig_ops_added res1 + card {i \<in> o_id ` set vs. find_op g1 i = None}"
    "ig_ops_added res' + ig_skeletons_filled res' + ig_already_present res' =
      ig_ops_added res1 + ig_skeletons_filled res1 + ig_already_present res1 + length vs"
    "(\<forall>v \<in> set vs. find_op g1 (o_id v) \<noteq> None) \<longrightarrow> map fst (g_ops g') = map fst (g_ops g1) \<and> g_children g' = g_children g1"
    using Cons.IH [OF s(2) ag, of res1] by (elim exE conjE) (rule that)
  have find: "find_op g' i = filled_from (find_op g i) (first_of (v # vs) i)" for i
    unfolding r(3) [rule_format] s(3) [rule_format] using full
    by (cases "find_op g i"; cases "first_of vs i") (auto simp: filled_from_def)
  have none: "find_op g1 i = None \<longleftrightarrow> find_op g i = None \<and> i \<noteq> o_id v" for i
    unfolding s(3) [rule_format] by (cases "find_op g i") (auto simp: filled_from_def)
  have "{i \<in> o_id ` set (v # vs). find_op g i = None} =
      (if find_op g (o_id v) = None then insert (o_id v) {i \<in> o_id ` set vs. find_op g1 i = None}
       else {i \<in> o_id ` set vs. find_op g1 i = None})"
    unfolding none by auto
  then have count: "card {i \<in> o_id ` set (v # vs). find_op g i = None} =
      (if find_op g (o_id v) = None then 1 else 0) + card {i \<in> o_id ` set vs. find_op g1 i = None}"
    unfolding none by simp
  have same: "map fst (g_ops g') = map fst (g_ops g) \<and> g_children g' = g_children g"
    if "\<forall>v \<in> set (v # vs). find_op g (o_id v) \<noteq> None"
    using that none s(6) r(6) by (metis list.set_intros(1,2))
  show ?case
    by (intro exI [of _ g'] exI [of _ res'] conjI allI impI)
      (use s(1,4,5) r(1,2,4,5) find count same in simp_all)
qed

subsection \<open>Integrating\<close>

lemma apply_batch_spec:
  assumes "graph_ok g" "\<forall>v \<in> set vs. agrees_with g v"
  shows "\<exists>g' res. apply_verified_batch g vs = (Ok (g', res) :: ('e, op_graph \<times> integration_result) result) \<and> graph_ok g' \<and>
    (\<forall>i. find_op g' i = filled_from (find_op g i) (first_of vs i)) \<and>
    ig_ops_added res = card {i \<in> o_id ` set vs. find_op g i = None} \<and>
    ig_ops_added res + ig_skeletons_filled res + ig_already_present res = length vs \<and>
    ((\<forall>v \<in> set vs. find_op g (o_id v) \<noteq> None) \<longrightarrow> map fst (g_ops g') = map fst (g_ops g) \<and> g_children g' = g_children g)"
  using apply_fold [OF assms, of "\<lparr>ig_ops_added = 0, ig_skeletons_filled = 0, ig_already_present = 0\<rparr>", where 'e = 'e]
  unfolding apply_verified_batch_def by (simp only: integration_result.select_convs add_0)

lemma list_all2_left: "list_all2 P xs ys \<Longrightarrow> x \<in> set xs \<Longrightarrow> \<exists>y \<in> set ys. P x y"
  by (induction rule: list_all2_induct) auto

lemma list_all2_right: "list_all2 P xs ys \<Longrightarrow> y \<in> set ys \<Longrightarrow> \<exists>x \<in> set xs. P x y"
  by (induction rule: list_all2_induct) auto

lemma integrate_cases:
  assumes g: "graph_ok g"
  shows "(\<exists>rej pre r post vs. integrate H g batch = (g, Err rej) \<and> batch = pre @ r # post \<and>
      list_all2 (accepts_op H g) pre vs \<and> refuses_op H g r rej) \<or>
    (\<exists>vs g' res. integrate H g batch = (g', Ok res) \<and> list_all2 (accepts_op H g) batch vs \<and> graph_ok g' \<and>
      (\<forall>i. find_op g' i = filled_from (find_op g i) (first_of vs i)) \<and>
      ig_ops_added res = card {i \<in> o_id ` set vs. find_op g i = None} \<and>
      ig_ops_added res + ig_skeletons_filled res + ig_already_present res = length batch \<and>
      ((\<forall>v \<in> set vs. find_op g (o_id v) \<noteq> None) \<longrightarrow> map fst (g_ops g') = map fst (g_ops g) \<and> g_children g' = g_children g))"
proof -
  consider rej pre r post vs where "try_verify_batch H g batch = Err rej" "batch = pre @ r # post"
      "list_all2 (accepts_op H g) pre vs" "refuses_op H g r rej"
    | vs where "try_verify_batch H g batch = Ok vs" "list_all2 (accepts_op H g) batch vs"
    using verify_fold_cases [of H g batch "[]"] unfolding try_verify_batch_def by (elim disjE exE conjE) simp_all
  then show ?thesis
  proof cases
    case (1 rej pre r post vs)
    then show ?thesis
      by (intro disjI1 exI [of _ rej] exI [of _ pre] exI [of _ r] exI [of _ post] exI [of _ vs]) (simp add: integrate_def)
  next
    case (2 vs)
    have "\<exists>r. accepts_op H g r v" if "v \<in> set vs" for v
      using list_all2_right [OF 2(2) that] by blast
    then have agree: "\<forall>v \<in> set vs. agrees_with g v"
      by (fastforce simp: agrees_with_def accepts_op_def is_skeleton_def dest: decoded_op)
    obtain g' res where r: "apply_verified_batch g vs = (Ok (g', res) :: (integration_rejection, op_graph \<times> integration_result) result)"
      "graph_ok g'" "\<forall>i. find_op g' i = filled_from (find_op g i) (first_of vs i)"
      "ig_ops_added res = card {i \<in> o_id ` set vs. find_op g i = None}"
      "ig_ops_added res + ig_skeletons_filled res + ig_already_present res = length vs"
      "(\<forall>v \<in> set vs. find_op g (o_id v) \<noteq> None) \<longrightarrow> map fst (g_ops g') = map fst (g_ops g) \<and> g_children g' = g_children g"
      using apply_batch_spec [OF g agree, where 'e = integration_rejection] by blast
    moreover have "length vs = length batch" using 2(2) by (metis list_all2_lengthD)
    ultimately show ?thesis using 2 by (intro disjI2 exI [of _ vs] exI [of _ g'] exI [of _ res]) (simp add: integrate_def)
  qed
qed

subsection \<open>Pruning and getting the history back\<close>

definition graph_verified :: "(bytes \<Rightarrow> hash256) \<Rightarrow> op_graph \<Rightarrow> bool" where
  "graph_verified H g \<longleftrightarrow> (\<forall>(i, o1) \<in> set (g_ops g). \<forall>p. o_payload o1 = Some p \<longrightarrow>
     try_decode_op H i (o_parents o1) (metadata_bytes p) (assignment_bytes p) = Ok o1)"

text \<open>An op as a peer that holds it sends it.\<close>

definition sent_op :: "op \<Rightarrow> received_op" where
  "sent_op o1 = (case o_payload o1 of
     None \<Rightarrow> \<lparr>rv_id = o_id o1, rv_parents = o_parents o1, rv_metadata = [], rv_assignments = []\<rparr>
   | Some p \<Rightarrow> \<lparr>rv_id = o_id o1, rv_parents = o_parents o1, rv_metadata = metadata_bytes p, rv_assignments = assignment_bytes p\<rparr>)"

definition prune :: "op_id list \<Rightarrow> op_graph \<Rightarrow> op_graph" where
  "prune is g = foldl (\<lambda>g i. fst (skeletonize g i)) g is"

lemma sent_op_id [simp]: "rv_id (sent_op o1) = o_id o1" "rv_parents (sent_op o1) = o_parents o1"
  by (simp_all add: sent_op_def split: option.split)

lemma prune_spec:
  "find_op (prune is g) i = (if i \<in> set is then map_option (\<lambda>o1. o1\<lparr>o_payload := None\<rparr>) (find_op g i) else find_op g i)"
  "map fst (g_ops (prune is g)) = map fst (g_ops g)" "g_children (prune is g) = g_children g"
  "graph_ok g \<Longrightarrow> graph_ok (prune is g)"
proof -
  have step: "find_op (fst (skeletonize g j)) i = (if i = j then map_option (\<lambda>o1. o1\<lparr>o_payload := None\<rparr>) (find_op g i) else find_op g i)"
    "map fst (g_ops (fst (skeletonize g j))) = map fst (g_ops g)" "g_children (fst (skeletonize g j)) = g_children g" for g j i
    by (auto simp: skeletonize_def find_modify_op split: option.split) (auto simp: modify_op_def)
  show "find_op (prune is g) i = (if i \<in> set is then map_option (\<lambda>o1. o1\<lparr>o_payload := None\<rparr>) (find_op g i) else find_op g i)"
    unfolding prune_def by (induction "is" arbitrary: g) (auto simp: step option.map_comp comp_def)
  show "map fst (g_ops (prune is g)) = map fst (g_ops g)" "g_children (prune is g) = g_children g"
    unfolding prune_def by (induction "is" arbitrary: g) (simp_all add: step)
  show "graph_ok g \<Longrightarrow> graph_ok (prune is g)"
    unfolding prune_def by (induction "is" arbitrary: g) (simp_all add: skeletonize_ok)
qed

lemma ops_determined:
  assumes "map fst xs = map fst ys" "distinct (map fst xs)" "\<And>i. map_of xs i = map_of ys i"
  shows "xs = ys"
proof (rule nth_equalityI)
  show len: "length xs = length ys" using assms(1) by (metis length_map)
  fix k assume k: "k < length xs"
  then have "map_of xs (fst (xs ! k)) = Some (snd (xs ! k))" using assms(2) by (metis map_of_eq_Some_iff nth_mem prod.collapse)
  moreover have "map_of ys (fst (ys ! k)) = Some (snd (ys ! k))"
    using assms(1,2) k len by (metis map_of_eq_Some_iff nth_mem prod.collapse)
  moreover have "fst (xs ! k) = fst (ys ! k)" using assms(1) k len by (metis nth_map)
  ultimately show "xs ! k = ys ! k" using assms(3) by (simp add: prod_eq_iff)
qed

lemma first_of_Some: "first_of vs i = Some v \<Longrightarrow> v \<in> set vs \<and> o_id v = i"
  by (auto simp: first_of_def dest!: map_of_SomeD)

lemma first_of_None: "first_of vs i = None \<longleftrightarrow> i \<notin> o_id ` set vs"
  by (auto simp: first_of_def map_of_eq_None_iff image_image)

lemma prune_recover_aux:
  assumes g: "graph_ok g" "graph_verified H g"
    and sent: "\<forall>r \<in> set batch. \<exists>o1. find_op g (rv_id r) = Some o1 \<and> \<not> is_skeleton o1 \<and> r = sent_op o1"
    and all: "\<forall>i \<in> set is. \<forall>o1. find_op g i = Some o1 \<longrightarrow> is_skeleton o1 \<or> sent_op o1 \<in> set batch"
  shows "\<exists>res. integrate H (prune is g) batch = (g, Ok res) \<and> ig_ops_added res = 0"
proof -
  let ?g = "prune is g"
  have dec: "accepts_op H ?g r o1" if "find_op g (rv_id r) = Some o1" "\<not> is_skeleton o1" "r = sent_op o1" for r o1
  proof -
    note o1 = that
    obtain p where p: "o_payload o1 = Some p" using o1(2) by (auto simp: is_skeleton_def)
    have "try_decode_op H (o_id o1) (o_parents o1) (metadata_bytes p) (assignment_bytes p) = Ok o1"
      using g(2) o1(1,3) p by (auto simp: graph_verified_def find_op_def dest!: map_of_SomeD)
    then show ?thesis using o1 p by (auto simp: accepts_op_def sent_op_def prune_spec(1) split: if_splits)
  qed
  have not_refused: "\<not> refuses_op H ?g r rej" if "r \<in> set batch" for r rej
    using sent that dec [of r]
    by (fastforce simp: refuses_op_def accepts_op_def split: integration_error.splits)
  obtain vs g' res where r: "integrate H ?g batch = (g', Ok res)" "list_all2 (accepts_op H ?g) batch vs" "graph_ok g'"
    "\<forall>i. find_op g' i = filled_from (find_op ?g i) (first_of vs i)"
    "ig_ops_added res = card {i \<in> o_id ` set vs. find_op ?g i = None}"
    "(\<forall>v \<in> set vs. find_op ?g (o_id v) \<noteq> None) \<longrightarrow> map fst (g_ops g') = map fst (g_ops ?g) \<and> g_children g' = g_children ?g"
    using integrate_cases [OF prune_spec(4) [OF g(1)], of H "is" batch]
  proof (elim disjE exE conjE)
    fix rej pre r post vs
    assume "batch = pre @ r # post" "refuses_op H ?g r rej"
    then show thesis using not_refused [of r rej] by simp
  qed (rule that)
  have vs: "find_op g (o_id v) = Some v" if v: "v \<in> set vs" for v
  proof -
    obtain r where r: "r \<in> set batch" "accepts_op H ?g r v"
      using list_all2_right [OF \<open>list_all2 (accepts_op H ?g) batch vs\<close> v] by blast
    obtain o1 where o1: "find_op g (rv_id r) = Some o1" "\<not> is_skeleton o1" "r = sent_op o1" using sent r(1) by blast
    have "v = o1" using dec [OF o1] r(2) by (simp add: accepts_op_def)
    with o1 show ?thesis by simp
  qed
  have batch_vs: "o1 \<in> set vs" if sent_o1: "sent_op o1 \<in> set batch" and found: "find_op g (o_id o1) = Some o1" for o1
  proof -
    obtain v where v: "v \<in> set vs" "accepts_op H ?g (sent_op o1) v"
      using list_all2_left [OF r(2) sent_o1] by blast
    then have id: "o_id v = o_id o1" by (auto simp: accepts_op_def dest: decoded_op)
    have "v = o1" using vs [OF v(1), unfolded id] found by (rule option.inject [THEN iffD1, OF trans [OF sym]])
    with v(1) show ?thesis by simp
  qed
  have find: "find_op g' i = find_op g i" for i
  proof (cases "find_op g i")
    case None
    then have "first_of vs i = None" using vs first_of_Some [of vs i] by (cases "first_of vs i") auto
    then show ?thesis using None by (simp add: r(4) prune_spec(1) filled_from_def)
  next
    case (Some o1)
    have id: "o_id o1 = i" by (rule find_op_id [OF g(1) Some])
    have first: "first_of vs i = Some v \<Longrightarrow> v = o1" for v using vs first_of_Some [of vs i v] Some by auto
    show ?thesis
    proof (cases "i \<in> set is \<and> \<not> is_skeleton o1")
      case True
      then have "o1 \<in> set vs" using all Some id batch_vs by blast
      then have "first_of vs i = Some o1" using first id first_of_None [of vs i] by (cases "first_of vs i") auto
      then show ?thesis using True Some by (simp add: r(4) prune_spec(1) filled_from_def is_skeleton_def)
    next
      case False
      have "o1\<lparr>o_payload := None\<rparr> = o1" if "is_skeleton o1" using that by (cases o1) (simp add: is_skeleton_def)
      then have "find_op ?g i = Some o1" using False Some by (auto simp: prune_spec(1))
      then show ?thesis using first Some by (auto simp: r(4) filled_from_def split: option.split)
    qed
  qed
  have held: "\<forall>v \<in> set vs. find_op ?g (o_id v) \<noteq> None" using vs by (simp add: prune_spec(1))
  then have keys: "map fst (g_ops g') = map fst (g_ops g)" "g_children g' = g_children g" using r(6) by (simp_all add: prune_spec)
  have "g_ops g' = g_ops g"
    using keys(1) r(3) find by (intro ops_determined) (simp_all only: graph_ok_def find_op_def)
  then have "g' = g" using keys(2) by (intro op_graph.equality) simp_all
  moreover have "{i \<in> o_id ` set vs. find_op ?g i = None} = {}" using held by blast
  then have "ig_ops_added res = 0" unfolding r(5) by (simp only: card.empty)
  ultimately show ?thesis using r(1) by blast
qed

subsection \<open>Properties\<close>

text \<open>
  C6. A batch from an untrusted peer is all or nothing.  Integration never faults.  Either the first op of the batch that
  is not acceptable is refused, every op before it being acceptable, for the reason given (its bytes do not decode to
  its own id, or its parents are not those held under the id), and the graph is exactly what it was; or every op decodes under its own id with the parents held, full ops stay
  as they are, skeletons and missing ops take the verified op (the first one where an id repeats), everything else is
  untouched, and the three counts add up to the batch, with one addition per new id.
\<close>

theorem integrate_exact:
  assumes "graph_reachable g"
  shows "(\<exists>rej pre r post vs. integrate H g batch = (g, Err rej) \<and> batch = pre @ r # post \<and>
      list_all2 (accepts_op H g) pre vs \<and> refuses_op H g r rej \<and> (\<nexists>v. accepts_op H g r v)) \<or>
    (\<exists>vs g' res. integrate H g batch = (g', Ok res) \<and> list_all2 (accepts_op H g) batch vs \<and> graph_ok g' \<and>
      (\<forall>i. find_op g' i = filled_from (find_op g i) (first_of vs i)) \<and>
      ig_ops_added res = card {i \<in> o_id ` set vs. find_op g i = None} \<and>
      ig_ops_added res + ig_skeletons_filled res + ig_already_present res = length batch)"
  using integrate_cases [OF graph_reachable_ok [OF assms], of H batch]
proof (elim disjE exE conjE)
  fix rej pre r post vs
  assume "integrate H g batch = (g, Err rej)" "batch = pre @ r # post" "list_all2 (accepts_op H g) pre vs" "refuses_op H g r rej"
  then show ?thesis using refused_not_accepted [of H g r rej] by blast
qed blast

text \<open>
  C5. Pruned history comes back.  On a graph whose full ops carry the hash of their bytes, dropping the payloads of any
  ops and integrating a batch that holds them again (as a peer that has them would send them, in any order, with
  repetitions and with other ops of the graph mixed in) restores the graph exactly, and counts no op as added.
\<close>

theorem prune_recover:
  assumes "graph_reachable g" "graph_verified H g"
    and "\<forall>r \<in> set batch. \<exists>o1. find_op g (rv_id r) = Some o1 \<and> \<not> is_skeleton o1 \<and> r = sent_op o1"
    and "\<forall>i \<in> set is. \<forall>o1. find_op g i = Some o1 \<longrightarrow> is_skeleton o1 \<or> sent_op o1 \<in> set batch"
  shows "\<exists>res. integrate H (prune is g) batch = (g, Ok res) \<and> ig_ops_added res = 0"
  by (rule prune_recover_aux [OF graph_reachable_ok [OF assms(1)] assms(2-4)])

subsection \<open>Witnesses\<close>

definition root_graph :: op_graph where
  "root_graph = fst (graph_add empty_graph sample_root)"

lemma root_graph_reachable: "graph_reachable root_graph"
  unfolding root_graph_def by (intro reachable_add reachable_empty)

lemma root_graph_ops: "g_ops root_graph = [(Op_id (Hash256 1 0 0 0), sample_root)]"
  by (simp add: root_graph_def graph_add_def contains_op_def find_op_def empty_graph_def sample_root_def Let_def)

lemma root_decodes:
  "try_decode_op (\<lambda>_. Hash256 1 0 0 0) (Op_id (Hash256 1 0 0 0)) [] [0]
     (blob [\<lparr>a_path = Property_path [97] [98] [99], a_value = [1, 1], a_kind = AK_set\<rparr>]) = Ok sample_root"
proof -
  have "value_ok [0]" unfolding value_ok_def by (rule exI [of _ VNull]) (simp add: max_depth_def)
  moreover have "blob_body (blob [\<lparr>a_path = Property_path [97] [98] [99], a_value = [1, 1], a_kind = AK_set\<rparr>])"
    using sample_payloads_valid by (simp add: payloads_valid_def sample_graph_ops payload_valid_def sample_root_def blob_def)
  ultimately show ?thesis by (simp add: try_decode_op_iff compute_op_id_def sample_root_def)
qed

theorem integrate_exact_witness:
  "(\<exists>g' res. integrate (\<lambda>_. Hash256 1 0 0 0) empty_graph [sent_op sample_root] = (g', Ok res) \<and> ig_ops_added res = 1 \<and>
    find_op g' (Op_id (Hash256 1 0 0 0)) = Some sample_root) \<and>
   (\<exists>rej. integrate (\<lambda>_. Hash256 2 0 0 0) empty_graph [sent_op sample_root] = (empty_graph, Err rej) \<and>
      ir_op rej = Op_id (Hash256 1 0 0 0) \<and> ir_reason rej = IE_malformed)"
proof
  let ?H = "\<lambda>_. Hash256 1 0 0 0"
  have s: "sent_op sample_root = \<lparr>rv_id = Op_id (Hash256 1 0 0 0), rv_parents = [], rv_metadata = [0],
      rv_assignments = blob [\<lparr>a_path = Property_path [97] [98] [99], a_value = [1, 1], a_kind = AK_set\<rparr>]\<rparr>"
    by (simp add: sent_op_def sample_root_def)
  have a: "accepts_op ?H empty_graph (sent_op sample_root) x \<longleftrightarrow> x = sample_root" for x
    using root_decodes by (auto simp: accepts_op_def s empty_graph_def find_op_def)
  have "\<exists>vs g' res. integrate ?H empty_graph [sent_op sample_root] = (g', Ok res) \<and>
    list_all2 (accepts_op ?H empty_graph) [sent_op sample_root] vs \<and>
    (\<forall>i. find_op g' i = filled_from (find_op empty_graph i) (first_of vs i)) \<and>
    ig_ops_added res = card {i \<in> o_id ` set vs. find_op empty_graph i = None}"
    using integrate_exact [OF reachable_empty, of ?H "[sent_op sample_root]"]
  proof (elim disjE exE conjE)
    fix rej pre r post vs
    assume "[sent_op sample_root] = pre @ r # post" and no: "\<nexists>v. accepts_op ?H empty_graph r v"
    then have "r = sent_op sample_root" by (auto simp: Cons_eq_append_conv)
    with no a show ?thesis by blast
  qed blast
  then obtain vs g' res where r: "integrate ?H empty_graph [sent_op sample_root] = (g', Ok res)"
    "list_all2 (accepts_op ?H empty_graph) [sent_op sample_root] vs"
    "\<forall>i. find_op g' i = filled_from (find_op empty_graph i) (first_of vs i)"
    "ig_ops_added res = card {i \<in> o_id ` set vs. find_op empty_graph i = None}" by blast
  have vs: "vs = [sample_root]" using r(2) by (auto simp: list_all2_Cons1 a)
  have none: "find_op empty_graph i = None" for i by (simp add: empty_graph_def find_op_def)
  have id: "o_id sample_root = Op_id (Hash256 1 0 0 0)" by (simp add: sample_root_def)
  have "ig_ops_added res = 1" unfolding r(4) by (simp add: vs none)
  moreover have "find_op g' (Op_id (Hash256 1 0 0 0)) = Some sample_root"
    unfolding r(3) [rule_format] by (simp add: vs none id filled_from_def)
  ultimately show "\<exists>g' res. integrate ?H empty_graph [sent_op sample_root] = (g', Ok res) \<and> ig_ops_added res = 1 \<and>
    find_op g' (Op_id (Hash256 1 0 0 0)) = Some sample_root" using r(1) by blast
  let ?K = "\<lambda>_. Hash256 2 0 0 0"
  have none: "\<not> accepts_op ?K empty_graph (sent_op sample_root) v" for v
    by (simp add: accepts_op_def s try_decode_op_iff compute_op_id_def)
  show "\<exists>rej. integrate ?K empty_graph [sent_op sample_root] = (empty_graph, Err rej) \<and>
      ir_op rej = Op_id (Hash256 1 0 0 0) \<and> ir_reason rej = IE_malformed"
    using integrate_exact [OF reachable_empty, of ?K "[sent_op sample_root]"]
  proof (elim disjE exE conjE)
    fix rej pre r post vs
    assume *: "integrate ?K empty_graph [sent_op sample_root] = (empty_graph, Err rej)" "[sent_op sample_root] = pre @ r # post"
      "refuses_op ?K empty_graph r rej"
    then have "r = sent_op sample_root" by (auto simp: Cons_eq_append_conv)
    then have "ir_op rej = Op_id (Hash256 1 0 0 0) \<and> ir_reason rej = IE_malformed"
      using *(3) by (simp add: refuses_op_def s empty_graph_def find_op_def split: integration_error.splits)
    with *(1) show ?thesis by blast
  next
    fix vs assume "list_all2 (accepts_op ?K empty_graph) [sent_op sample_root] vs"
    then show ?thesis using none by (auto simp: list_all2_Cons1)
  qed
qed

theorem prune_recover_witness:
  "\<exists>res. integrate (\<lambda>_. Hash256 1 0 0 0) (prune [Op_id (Hash256 1 0 0 0)] root_graph) [sent_op sample_root] = (root_graph, Ok res) \<and>
    ig_ops_added res = 0"
proof -
  have f: "find_op root_graph i = (if i = Op_id (Hash256 1 0 0 0) then Some sample_root else None)" for i
    by (simp add: find_op_def root_graph_ops)
  have parts: "o_parents sample_root = []" "o_payload sample_root = Some \<lparr>metadata_bytes = [0],
      assignment_bytes = blob [\<lparr>a_path = Property_path [97] [98] [99], a_value = [1, 1], a_kind = AK_set\<rparr>]\<rparr>"
    by (simp_all add: sample_root_def)
  have "graph_verified (\<lambda>_. Hash256 1 0 0 0) root_graph"
    using root_decodes parts by (simp add: graph_verified_def root_graph_ops)
  moreover have "o_id sample_root = Op_id (Hash256 1 0 0 0)" "\<not> is_skeleton sample_root"
    by (simp_all add: sample_root_def is_skeleton_def)
  ultimately show ?thesis
    by (intro prune_recover [OF root_graph_reachable]) (auto simp: f split: if_splits)
qed

end
