(* ===== verification/Direct_Layer.thy ===== *)
theory Direct_Layer
  imports Change_Set Snapshot_Document Op
begin

text \<open>
  A layer written property by property (direct_layer.hh/.cc): an owning document in which every value carries the
  layer's synthetic writer, the paths dirtied since they were last taken, a version, and the bookkeeping of a
  wholesale rebuild.  The hash function is the parameter \<open>H\<close>, what the allocator grants beyond a request is \<open>slack\<close>.
\<close>

text \<open>\<open>vdoc::layer/v1\<close> in ASCII.\<close>

definition layer_domain :: str where
  "layer_domain = [118, 100, 111, 99, 58, 58, 108, 97, 121, 101, 114, 47, 118, 49]"

definition synthetic_writer_id :: "(bytes \<Rightarrow> hash256) \<Rightarrow> str \<Rightarrow> op_id" where
  "synthetic_writer_id H name = Op_id (H (hash_length_prefixed (hash_length_prefixed [] layer_domain) name))"

record direct_layer =
  dl_name :: str
  dl_writer :: op_id
  dl_version :: "64 word"
  dl_doc :: snapshot_document
  dl_changes :: change_set_builder
  dl_rebuilding :: bool
  dl_inserted :: bool
  dl_written :: "property_path list"

definition new_direct_layer :: "(bytes \<Rightarrow> hash256) \<Rightarrow> str \<Rightarrow> direct_layer" where
  "new_direct_layer H name = \<lparr>dl_name = name, dl_writer = synthetic_writer_id H name, dl_version = 0,
     dl_doc = empty_snapshot, dl_changes = new_change_set_builder CG_property, dl_rebuilding = False,
     dl_inserted = False, dl_written = []\<rparr>"

definition impl_note_written :: "property_path \<Rightarrow> direct_layer \<Rightarrow> direct_layer" where
  "impl_note_written path l = (if dl_rebuilding l then l\<lparr>dl_written := dl_written l @ [path]\<rparr> else l)"

definition mark_dirty :: "property_path \<Rightarrow> direct_layer \<Rightarrow> direct_layer" where
  "mark_dirty path l = l\<lparr>dl_changes := builder_add (dl_changes l) path, dl_version := dl_version l + 1\<rparr>"

definition impl_withdraw :: "property_path \<Rightarrow> direct_layer \<Rightarrow> direct_layer" where
  "impl_withdraw path l =
     (if document_try_get (sn_document (dl_doc l)) path = None then l
      else mark_dirty path (l\<lparr>dl_doc := clear_writers path (dl_doc l)\<rparr>))"

definition layer_set :: "(nat \<Rightarrow> nat) \<Rightarrow> property_path \<Rightarrow> value_view \<Rightarrow> direct_layer \<Rightarrow> direct_layer" where
  "layer_set slack path v l =
     (let l = impl_note_written path l in
      case set_single_writer_if_changed slack path (dl_writer l) v (dl_doc l) of (doc, changed, inserted) \<Rightarrow>
        (if \<not> changed then l\<lparr>dl_doc := doc\<rparr>
         else mark_dirty path (l\<lparr>dl_doc := doc, dl_inserted := dl_inserted l \<or> inserted\<rparr>)))"

definition layer_abstain :: "property_path \<Rightarrow> direct_layer \<Rightarrow> direct_layer" where
  "layer_abstain path l = impl_withdraw path (impl_note_written path l)"

definition begin_rebuild :: "direct_layer \<Rightarrow> direct_layer checked" where
  "begin_rebuild l =
     rbind (check (\<not> dl_rebuilding l)) (\<lambda>_. Ok (l\<lparr>dl_rebuilding := True, dl_inserted := False, dl_written := []\<rparr>))"

definition stale_paths :: "raw_document \<Rightarrow> property_path list \<Rightarrow> property_path list" where
  "stale_paths d written =
     concat (map (\<lambda>(e, ent). concat (map (\<lambda>(c, cmp).
       filter (\<lambda>path. find_in_sorted written path (\<lambda>a b. path_compare_bytes a b < 0) = None)
         (map (\<lambda>(p, _). Property_path e c p) (rc_properties cmp))) (re_components ent))) (rd_entities d))"

definition finish_rebuild :: "direct_layer \<Rightarrow> direct_layer checked" where
  "finish_rebuild l =
     rbind (check (dl_rebuilding l)) (\<lambda>_.
       (let l = l\<lparr>dl_rebuilding := False\<rparr> in
        if \<not> dl_inserted l \<and> int (length (dl_written l)) = sn_property_count (dl_doc l) then Ok (l\<lparr>dl_written := []\<rparr>)
        else
          (let l = l\<lparr>dl_written := cc_sort (\<lambda>a b. path_compare_bytes a b < 0) (dl_written l)\<rparr>;
               stale = stale_paths (sn_document (dl_doc l)) (dl_written l);
               l = foldl (\<lambda>l path. impl_withdraw path l) l stale in
           Ok (l\<lparr>dl_written := []\<rparr>))))"

definition layer_clear :: "direct_layer \<Rightarrow> direct_layer checked" where
  "layer_clear l =
     rbind (check (\<not> dl_rebuilding l)) (\<lambda>_.
       Ok (l\<lparr>dl_changes := foldl (\<lambda>b fe. builder_add b (fst fe)) (dl_changes l) (flatten (sn_document (dl_doc l))),
             dl_doc := empty_snapshot, dl_version := dl_version l + 1\<rparr>))"

definition impl_take_changes :: "direct_layer \<Rightarrow> change_set \<times> direct_layer" where
  "impl_take_changes l =
     (fst (build_change_set (dl_changes l)), l\<lparr>dl_changes := new_change_set_builder CG_property\<rparr>)"

subsection \<open>The contract of a store of values\<close>

text \<open>What a producer relies on: a partial map from paths to bytes, written and withdrawn one path at a time.\<close>

locale value_store =
  fixes ok :: "'s \<Rightarrow> bool" and look :: "'s \<Rightarrow> property_path \<Rightarrow> bytes option"
    and put :: "property_path \<Rightarrow> bytes \<Rightarrow> 's \<Rightarrow> 's" and withdraw :: "property_path \<Rightarrow> 's \<Rightarrow> 's"
  assumes put_ok: "ok s \<Longrightarrow> ok (put p v s)" and put_look: "ok s \<Longrightarrow> look (put p v s) q = (if q = p then Some v else look s q)"
    and withdraw_ok: "ok s \<Longrightarrow> ok (withdraw p s)"
    and withdraw_look: "ok s \<Longrightarrow> look (withdraw p s) q = (if q = p then None else look s q)"
begin

abbreviation (input) "put_list ws s \<equiv> foldl (\<lambda>s w. put (fst w) (snd w) s) s ws"
abbreviation (input) "withdraw_list ps s \<equiv> foldl (\<lambda>s p. withdraw p s) s ps"

lemma put_all:
  assumes "ok s" "distinct (map fst ws)"
  shows "ok (put_list ws s)" "look (put_list ws s) q = (case map_of ws q of None \<Rightarrow> look s q | Some v \<Rightarrow> Some v)"
proof -
  have "ok (put_list ws s) \<and> look (put_list ws s) q = (case map_of ws q of None \<Rightarrow> look s q | Some v \<Rightarrow> Some v)"
    using assms
  proof (induction ws arbitrary: s)
    case (Cons w ws)
    then have "map_of ws (fst w) = None" by (simp add: map_of_eq_None_iff)
    with Cons.IH [of "put (fst w) (snd w) s"] Cons.prems put_ok put_look show ?case
      by (cases w) (auto split: option.split)
  qed simp
  then show "ok (put_list ws s)" "look (put_list ws s) q = (case map_of ws q of None \<Rightarrow> look s q | Some v \<Rightarrow> Some v)"
    by simp_all
qed

lemma withdraw_all:
  assumes "ok s"
  shows "ok (withdraw_list ps s)" "look (withdraw_list ps s) q = (if q \<in> set ps then None else look s q)"
proof -
  have "ok (withdraw_list ps s) \<and> look (withdraw_list ps s) q = (if q \<in> set ps then None else look s q)"
    using assms
  proof (induction ps arbitrary: s)
    case (Cons p ps)
    with withdraw_ok withdraw_look show ?case by simp
  qed simp
  then show "ok (withdraw_list ps s)" "look (withdraw_list ps s) q = (if q \<in> set ps then None else look s q)" by simp_all
qed

end

subsection \<open>The layer as a store\<close>

definition layer_ok :: "direct_layer \<Rightarrow> bool" where
  "layer_ok l \<longleftrightarrow> snapshot_ok (dl_doc l) \<and>
     (\<forall>p v. document_try_get (sn_document (dl_doc l)) p = Some v \<longrightarrow>
        (\<exists>w. rp_writers v = [\<lparr>pv_writer = dl_writer l, pv_value = w\<rparr>])) \<and>
     cb_granularity (dl_changes l) = CG_property \<and> \<not> cb_everything (dl_changes l)"

definition layer_values :: "direct_layer \<Rightarrow> property_path \<Rightarrow> bytes option" where
  "layer_values l p = map_option (\<lambda>v. pv_value (rp_writers v ! 0)) (document_try_get (sn_document (dl_doc l)) p)"

abbreviation (input) "layer_dirty l \<equiv> cb_paths (dl_changes l)"

lemma layer_ok_simps [simp]:
  "layer_ok (impl_note_written p l) = layer_ok l" "layer_ok (mark_dirty p l) = layer_ok l"
  "layer_ok (l\<lparr>dl_inserted := b\<rparr>) = layer_ok l" "layer_ok (l\<lparr>dl_rebuilding := b\<rparr>) = layer_ok l" "layer_ok (l\<lparr>dl_written := ps\<rparr>) = layer_ok l"
  by (auto simp: layer_ok_def impl_note_written_def mark_dirty_def builder_add_def)

lemma layer_values_simps [simp]:
  "layer_values (impl_note_written p l) = layer_values l" "layer_values (mark_dirty p l) = layer_values l"
  "layer_values (l\<lparr>dl_inserted := b\<rparr>) = layer_values l" "layer_values (l\<lparr>dl_rebuilding := b\<rparr>) = layer_values l"
  "layer_values (l\<lparr>dl_written := ps\<rparr>) = layer_values l"
  by (auto simp: layer_values_def fun_eq_iff impl_note_written_def mark_dirty_def)

lemma layer_old:
  assumes "layer_ok l"
  shows "map pv_value (case document_try_get (sn_document (dl_doc l)) p of None \<Rightarrow> [] | Some v \<Rightarrow> rp_writers v) = [v] \<longleftrightarrow>
      layer_values l p = Some v"
    and "(case document_try_get (sn_document (dl_doc l)) p of None \<Rightarrow> [] | Some v \<Rightarrow> rp_writers v) = [] \<longleftrightarrow> layer_values l p = None"
  using assms by (cases "document_try_get (sn_document (dl_doc l)) p"; fastforce simp: layer_ok_def layer_values_def)+

text \<open>One write, with everything it records.\<close>

lemma layer_set_spec:
  assumes ok: "layer_ok l"
  shows "layer_ok (layer_set slack p v l)"
    and "layer_values (layer_set slack p v l) q = (if q = p then Some v else layer_values l q)"
    and "layer_dirty (layer_set slack p v l) = layer_dirty l @ (if layer_values l p = Some v then [] else [p])"
    and "dl_written (layer_set slack p v l) = dl_written l @ (if dl_rebuilding l then [p] else [])"
    and "dl_inserted (layer_set slack p v l) \<longleftrightarrow> dl_inserted l \<or> layer_values l p = None"
    and "dl_rebuilding (layer_set slack p v l) = dl_rebuilding l" "dl_writer (layer_set slack p v l) = dl_writer l"
proof -
  let ?l = "impl_note_written p l"
  have same: "dl_doc ?l = dl_doc l" "dl_writer ?l = dl_writer l" "dl_changes ?l = dl_changes l" "dl_inserted ?l = dl_inserted l"
    "dl_rebuilding ?l = dl_rebuilding l" "dl_written ?l = dl_written l @ (if dl_rebuilding l then [p] else [])"
    by (simp_all add: impl_note_written_def)
  have sn: "snapshot_ok (dl_doc l)" and ch: "\<not> cb_everything (dl_changes l)" using ok by (simp_all add: layer_ok_def)
  then have wf: "document_wf (sn_document (dl_doc l))" by (simp add: snapshot_ok_def)
  note spec = set_single_writer_spec(1) [OF sn, of slack p "dl_writer l" v] set_single_writer_spec(2) [OF sn, of p "dl_writer l" v slack]
  have get: "document_try_get (sn_document (set_single_writer slack p (dl_writer l) v (dl_doc l))) q =
      (if q = p then Some \<lparr>rp_writers = [\<lparr>pv_writer = dl_writer l, pv_value = v\<rparr>]\<rparr> else document_try_get (sn_document (dl_doc l)) q)" for q
    using spec(2) by (simp add: doc_update_def)
  have "layer_set slack p v l =
      (if layer_values l p = Some v then ?l
       else mark_dirty p (?l\<lparr>dl_doc := set_single_writer slack p (dl_writer l) v (dl_doc l),
         dl_inserted := dl_inserted l \<or> layer_values l p = None\<rparr>))"
    using if_changed_eq [OF wf, of slack p "dl_writer l" v] layer_old [OF ok, of p]
    by (auto simp: layer_set_def same Let_def)
  then show "layer_ok (layer_set slack p v l)"
    "layer_values (layer_set slack p v l) q = (if q = p then Some v else layer_values l q)"
    "layer_dirty (layer_set slack p v l) = layer_dirty l @ (if layer_values l p = Some v then [] else [p])"
    "dl_written (layer_set slack p v l) = dl_written l @ (if dl_rebuilding l then [p] else [])"
    "dl_inserted (layer_set slack p v l) \<longleftrightarrow> dl_inserted l \<or> layer_values l p = None"
    "dl_rebuilding (layer_set slack p v l) = dl_rebuilding l" "dl_writer (layer_set slack p v l) = dl_writer l"
    using ok ch spec(1) by (auto simp: same mark_dirty_def builder_add_def layer_ok_def layer_values_def get)
qed

lemma withdraw_spec:
  assumes ok: "layer_ok l"
  shows "layer_ok (impl_withdraw p l)"
    and "layer_values (impl_withdraw p l) q = (if q = p then None else layer_values l q)"
    and "layer_dirty (impl_withdraw p l) = layer_dirty l @ (if layer_values l p = None then [] else [p])"
    and "dl_written (impl_withdraw p l) = dl_written l" "dl_rebuilding (impl_withdraw p l) = dl_rebuilding l"
proof -
  have sn: "snapshot_ok (dl_doc l)" and ch: "\<not> cb_everything (dl_changes l)" using ok by (simp_all add: layer_ok_def)
  note spec = clear_writers_ok [OF sn, of p]
  have get: "document_try_get (sn_document (clear_writers p (dl_doc l))) q =
      (if q = p then None else document_try_get (sn_document (dl_doc l)) q)" for q
    using spec(2) by (simp add: doc_update_def)
  show "layer_ok (impl_withdraw p l)"
    "layer_values (impl_withdraw p l) q = (if q = p then None else layer_values l q)"
    "layer_dirty (impl_withdraw p l) = layer_dirty l @ (if layer_values l p = None then [] else [p])"
    "dl_written (impl_withdraw p l) = dl_written l" "dl_rebuilding (impl_withdraw p l) = dl_rebuilding l"
    using ok ch spec(1) by (auto simp: impl_withdraw_def mark_dirty_def builder_add_def layer_ok_def layer_values_def get)
qed

interpretation layer: value_store layer_ok layer_values "layer_set slack" impl_withdraw for slack
  by unfold_locales (simp_all add: layer_set_spec withdraw_spec)

text \<open>The pass of a rebuild, with what it records; the paths are written once each.\<close>

lemma layer_put_list:
  assumes "layer_ok l" "distinct (map fst ws)" "dl_rebuilding l"
  shows "set (layer_dirty (foldl (\<lambda>l w. layer_set slack (fst w) (snd w) l) l ws)) =
      set (layer_dirty l) \<union> {p. \<exists>v. (p, v) \<in> set ws \<and> layer_values l p \<noteq> Some v}"
    and "dl_written (foldl (\<lambda>l w. layer_set slack (fst w) (snd w) l) l ws) = dl_written l @ map fst ws"
    and "dl_inserted (foldl (\<lambda>l w. layer_set slack (fst w) (snd w) l) l ws) \<longleftrightarrow>
      dl_inserted l \<or> (\<exists>p \<in> fst ` set ws. layer_values l p = None)"
    and "dl_rebuilding (foldl (\<lambda>l w. layer_set slack (fst w) (snd w) l) l ws)"
proof -
  have "set (layer_dirty (foldl (\<lambda>l w. layer_set slack (fst w) (snd w) l) l ws)) =
      set (layer_dirty l) \<union> {p. \<exists>v. (p, v) \<in> set ws \<and> layer_values l p \<noteq> Some v} \<and>
    dl_written (foldl (\<lambda>l w. layer_set slack (fst w) (snd w) l) l ws) = dl_written l @ map fst ws \<and>
    (dl_inserted (foldl (\<lambda>l w. layer_set slack (fst w) (snd w) l) l ws) \<longleftrightarrow>
      dl_inserted l \<or> (\<exists>p \<in> fst ` set ws. layer_values l p = None)) \<and>
    dl_rebuilding (foldl (\<lambda>l w. layer_set slack (fst w) (snd w) l) l ws)"
    using assms
  proof (induction ws arbitrary: l)
    case (Cons w ws)
    note s = layer_set_spec [OF Cons.prems(1), of slack "fst w" "snd w"]
    have fresh: "p \<noteq> fst w" if "p \<in> fst ` set ws" for p using that Cons.prems(2) by (auto simp: image_iff)
    have val: "layer_values (layer_set slack (fst w) (snd w) l) p = layer_values l p" if "p \<in> fst ` set ws" for p
      using s(2) fresh [OF that] by simp
    have v1: "{p. \<exists>v. (p, v) \<in> set ws \<and> layer_values (layer_set slack (fst w) (snd w) l) p \<noteq> Some v} =
        {p. \<exists>v. (p, v) \<in> set ws \<and> layer_values l p \<noteq> Some v}" using val by force
    have v2: "(\<exists>p \<in> fst ` set ws. layer_values (layer_set slack (fst w) (snd w) l) p = None) \<longleftrightarrow>
        (\<exists>p \<in> fst ` set ws. layer_values l p = None)" using val by simp
    have split: "{p. \<exists>v. (p, v) \<in> set (w # ws) \<and> layer_values l p \<noteq> Some v} =
        (if layer_values l (fst w) = Some (snd w) then {} else {fst w}) \<union> {p. \<exists>v. (p, v) \<in> set ws \<and> layer_values l p \<noteq> Some v}"
      by (cases w) auto
    show ?case
      using Cons.IH [of "layer_set slack (fst w) (snd w) l"] Cons.prems s(1,3-6) unfolding v1 v2 split by auto
  qed simp
  then show "set (layer_dirty (foldl (\<lambda>l w. layer_set slack (fst w) (snd w) l) l ws)) =
      set (layer_dirty l) \<union> {p. \<exists>v. (p, v) \<in> set ws \<and> layer_values l p \<noteq> Some v}"
    "dl_written (foldl (\<lambda>l w. layer_set slack (fst w) (snd w) l) l ws) = dl_written l @ map fst ws"
    "dl_inserted (foldl (\<lambda>l w. layer_set slack (fst w) (snd w) l) l ws) \<longleftrightarrow>
      dl_inserted l \<or> (\<exists>p \<in> fst ` set ws. layer_values l p = None)"
    "dl_rebuilding (foldl (\<lambda>l w. layer_set slack (fst w) (snd w) l) l ws)" by simp_all
qed

lemma withdraw_list_dirty:
  assumes "layer_ok l" "distinct ps" "\<forall>p \<in> set ps. layer_values l p \<noteq> None"
  shows "layer_dirty (foldl (\<lambda>l p. impl_withdraw p l) l ps) = layer_dirty l @ ps"
  using assms
proof (induction ps arbitrary: l)
  case (Cons p ps)
  note s = withdraw_spec [OF Cons.prems(1), of p]
  have "\<forall>q \<in> set ps. layer_values (impl_withdraw p l) q \<noteq> None" using Cons.prems s(2) by auto
  with Cons.IH [OF s(1)] Cons.prems s(3) show ?case by simp
qed simp

subsection \<open>Closing a rebuild\<close>

lemma find_in_sorted_mem:
  assumes "sorted (xs :: 'a::linorder list)"
  shows "find_in_sorted xs v (<) = None \<longleftrightarrow> v \<notin> set xs"
proof -
  let ?k = "first_at_least_in_sorted xs v (<)"
  have "partitioned (\<lambda>e. e < v) xs"
    using assms by (fastforce simp: partitioned_def sorted_iff_nth_mono_less intro: le_less_trans)
  then have k: "splits_at (\<lambda>e. e < v) xs 0 (length xs) ?k"
    using partition_point_spec [of "\<lambda>e. e < v" xs] by (simp add: first_at_least_in_sorted_def partition_point_def)
  have "v \<in> set xs \<longleftrightarrow> ?k < length xs \<and> \<not> v < xs ! ?k"
  proof
    assume "v \<in> set xs"
    then obtain i where i: "i < length xs" "xs ! i = v" by (auto simp: in_set_conv_nth)
    have "?k \<le> i"
    proof (rule ccontr)
      assume "\<not> ?k \<le> i"
      then have "xs ! i < v" using k by (simp add: splits_at_def)
      with i show False by simp
    qed
    then show "?k < length xs \<and> \<not> v < xs ! ?k" using i assms sorted_nth_mono [OF assms, of ?k i] by (auto simp: not_less)
  next
    assume r: "?k < length xs \<and> \<not> v < xs ! ?k"
    then have "xs ! ?k = v" using k by (auto simp: splits_at_def)
    with r show "v \<in> set xs" by (metis nth_mem)
  qed
  then show ?thesis by (auto simp: find_in_sorted_def Let_def)
qed

lemma stale_paths_spec:
  assumes "sorted written"
  shows "stale_paths d written = filter (\<lambda>p. p \<notin> set written) (map fst (flatten d))"
proof -
  have inner: "map (\<lambda>(p, _). Property_path e c p) ps = map fst (map (\<lambda>(p, v). (Property_path e c p, v)) ps)" for e c and ps :: "(str \<times> raw_property) list"
    by (simp add: case_prod_unfold comp_def)
  show ?thesis
    using find_in_sorted_mem [OF assms]
    by (simp add: stale_paths_def flatten_def flatten_entity_def flatten_component_def filter_concat map_concat comp_def
        case_prod_unfold inner)
qed

lemma layer_values_flatten:
  assumes "layer_ok l"
  shows "distinct (map fst (flatten (sn_document (dl_doc l))))" "set (map fst (flatten (sn_document (dl_doc l)))) = dom (layer_values l)"
    "sn_property_count (dl_doc l) = int (card (dom (layer_values l)))"
proof -
  have wf: "document_wf (sn_document (dl_doc l))" and c: "sn_property_count (dl_doc l) = int (property_count (sn_document (dl_doc l)))"
    using assms by (simp_all add: layer_ok_def snapshot_ok_def)
  show d: "distinct (map fst (flatten (sn_document (dl_doc l))))" using flatten_sorted [OF wf] by (simp add: strict_sorted_iff)
  have "dom (layer_values l) = dom (document_try_get (sn_document (dl_doc l)))" by (auto simp: layer_values_def)
  also have "\<dots> = fst ` set (flatten (sn_document (dl_doc l)))"
    using document_try_get_eq [OF wf] by (metis dom_map_of_conv_image_fst ext)
  finally show dom: "set (map fst (flatten (sn_document (dl_doc l)))) = dom (layer_values l)" by simp
  show "sn_property_count (dl_doc l) = int (card (dom (layer_values l)))"
    unfolding c property_count_flatten dom [symmetric] using distinct_card [OF d] by simp
qed

lemma finish_rebuild_spec:
  assumes ok: "layer_ok l" and r: "dl_rebuilding l"
  shows "\<exists>l'. finish_rebuild l = Ok l' \<and> layer_ok l' \<and> \<not> dl_rebuilding l' \<and> dl_written l' = [] \<and>
    (if \<not> dl_inserted l \<and> length (dl_written l) = card (dom (layer_values l))
     then layer_values l' = layer_values l \<and> layer_dirty l' = layer_dirty l
     else layer_values l' = (layer_values l) |` set (dl_written l) \<and>
       set (layer_dirty l') = set (layer_dirty l) \<union> (dom (layer_values l) - set (dl_written l)))"
proof -
  note fl = layer_values_flatten [OF ok]
  let ?fast = "\<not> dl_inserted l \<and> length (dl_written l) = card (dom (layer_values l))"
  show ?thesis
  proof (cases ?fast)
    case True
    then show ?thesis using ok r by (simp add: finish_rebuild_def check_def Let_def fl(3))
  next
    case False
    let ?w = "cc_sort (<) (dl_written l)"
    let ?l = "l\<lparr>dl_rebuilding := False, dl_written := ?w\<rparr>"
    let ?stale = "stale_paths (sn_document (dl_doc l)) ?w"
    let ?r = "foldl (\<lambda>l p. impl_withdraw p l) ?l ?stale"
    have "sorted ?w" using cc_sort_sorted [of "\<lambda>x. x" "dl_written l"] by simp
    note st = stale_paths_spec [OF this, of "sn_document (dl_doc l)"]
    have stale: "distinct ?stale" "set ?stale = dom (layer_values l) - set (dl_written l)"
      using fl(1) by (auto simp: st fl(2) [symmetric])
    have ok': "layer_ok ?l" using ok by simp
    have vals: "layer_values ?l = layer_values l" by simp
    have "layer_values ?r q = (if q \<in> set ?stale then None else layer_values l q)" for q
      using layer.withdraw_all(2) [OF ok', of ?stale q] by simp
    then have v: "layer_values ?r = (layer_values l) |` set (dl_written l)"
      unfolding stale(2) by (auto simp: restrict_map_def fun_eq_iff)
    have "layer_dirty ?r = layer_dirty l @ ?stale"
      using withdraw_list_dirty [OF ok' stale(1)] stale(2) by (auto simp: vals)
    moreover have "\<not> dl_rebuilding ?r"
    proof -
      have "layer_ok k \<Longrightarrow> dl_rebuilding (foldl (\<lambda>l p. impl_withdraw p l) k ps) = dl_rebuilding k" for k ps
        by (induction ps arbitrary: k) (simp_all add: withdraw_spec)
      from this [OF ok'] show ?thesis by simp
    qed
    moreover have "finish_rebuild l = Ok (?r\<lparr>dl_written := []\<rparr>)"
      using False r by (auto simp: finish_rebuild_def check_def Let_def fl(3))
    ultimately show ?thesis
      using v stale(2) layer.withdraw_all(1) [OF ok', of ?stale] False
      by (intro exI [of _ "?r\<lparr>dl_written := []\<rparr>"]) auto
  qed
qed

subsection \<open>Layers as they are used\<close>

inductive layer_reachable :: "(bytes \<Rightarrow> hash256) \<Rightarrow> (nat \<Rightarrow> nat) \<Rightarrow> direct_layer \<Rightarrow> bool" for H slack where
  layer_new: "layer_reachable H slack (new_direct_layer H name)"
| layer_write: "layer_reachable H slack l \<Longrightarrow> layer_reachable H slack (layer_set slack p v l)"
| layer_withdraw: "layer_reachable H slack l \<Longrightarrow> layer_reachable H slack (layer_abstain p l)"
| layer_mark: "layer_reachable H slack l \<Longrightarrow> layer_reachable H slack (mark_dirty p l)"
| layer_begin: "layer_reachable H slack l \<Longrightarrow> begin_rebuild l = Ok l' \<Longrightarrow> layer_reachable H slack l'"
| layer_finish: "layer_reachable H slack l \<Longrightarrow> finish_rebuild l = Ok l' \<Longrightarrow> layer_reachable H slack l'"
| layer_cleared: "layer_reachable H slack l \<Longrightarrow> layer_clear l = Ok l' \<Longrightarrow> layer_reachable H slack l'"
| layer_taken: "layer_reachable H slack l \<Longrightarrow> layer_reachable H slack (snd (impl_take_changes l))"

lemma begin_rebuild_Ok:
  "begin_rebuild l = Ok l' \<longleftrightarrow> \<not> dl_rebuilding l \<and> l' = l\<lparr>dl_rebuilding := True, dl_inserted := False, dl_written := []\<rparr>"
  by (auto simp: begin_rebuild_def check_def)

lemma finish_rebuild_Ok: "finish_rebuild l = Ok l' \<Longrightarrow> dl_rebuilding l"
  by (auto simp: finish_rebuild_def check_def split: if_splits)

lemma layer_clear_spec:
  assumes ok: "layer_ok l"
  shows "layer_clear l = Ok l' \<longleftrightarrow> \<not> dl_rebuilding l \<and>
      l' = l\<lparr>dl_changes := (dl_changes l)\<lparr>cb_paths := layer_dirty l @ map fst (flatten (sn_document (dl_doc l)))\<rparr>,
             dl_doc := empty_snapshot, dl_version := dl_version l + 1\<rparr>"
proof -
  have "foldl (\<lambda>b fe. builder_add b (fst fe)) b fs = b\<lparr>cb_paths := cb_paths b @ map fst fs\<rparr>"
    if "\<not> cb_everything b" for b and fs :: "(property_path \<times> raw_property) list"
    using that by (induction fs arbitrary: b) (auto simp: builder_add_def)
  moreover have "\<not> cb_everything (dl_changes l)" using ok by (simp add: layer_ok_def)
  ultimately show ?thesis by (auto simp: layer_clear_def check_def)
qed

lemma empty_snapshot_get [simp]: "document_try_get (sn_document empty_snapshot) p = None"
  by (simp add: document_try_get_def document_try_get_entity_def empty_snapshot_def find_sorted_def find_sorted_in.simps)

lemma layer_reachable_ok: "layer_reachable H slack l \<Longrightarrow> layer_ok l \<and> (\<not> dl_rebuilding l \<longrightarrow> dl_written l = [])"
proof (induction rule: layer_reachable.induct)
  case (layer_new name)
  then show ?case
    using snapshot_reachable_ok [OF snapshot_reachable.default]
    by (simp add: new_direct_layer_def layer_ok_def new_change_set_builder_def)
next
  case (layer_write l p v)
  then show ?case by (simp add: layer_set_spec)
next
  case (layer_withdraw l p)
  then show ?case by (simp add: layer_abstain_def withdraw_spec impl_note_written_def)
next
  case (layer_mark l p)
  then show ?case by (simp add: mark_dirty_def [THEN arg_cong [of _ _ dl_rebuilding]] mark_dirty_def [THEN arg_cong [of _ _ dl_written]])
next
  case (layer_begin l l')
  then show ?case by (auto simp: begin_rebuild_Ok layer_ok_def)
next
  case (layer_finish l l')
  then show ?case using finish_rebuild_spec [of l] finish_rebuild_Ok [of l l'] by auto
next
  case (layer_cleared l l')
  then show ?case
    using snapshot_reachable_ok [OF snapshot_reachable.default] layer_clear_spec [of l l'] by (auto simp: layer_ok_def)
next
  case (layer_taken l)
  then show ?case by (auto simp: impl_take_changes_def layer_ok_def new_change_set_builder_def)
qed

definition rebuild_pass :: "(nat \<Rightarrow> nat) \<Rightarrow> (property_path \<times> bytes) list \<Rightarrow> direct_layer \<Rightarrow> direct_layer checked" where
  "rebuild_pass slack ws l =
     rbind (begin_rebuild l) (\<lambda>l. finish_rebuild (foldl (\<lambda>l w. layer_set slack (fst w) (snd w) l) l ws))"

lemma restrict_dom: "m |` dom m = m"
  by (auto simp: restrict_map_def fun_eq_iff dom_def)

lemma changed_paths:
  assumes "distinct (map fst ws)"
  shows "{p. \<exists>v. (p, v) \<in> set ws \<and> m p \<noteq> Some v} \<union> (dom (m ++ map_of ws) - set (map fst ws)) = {p. m p \<noteq> map_of ws p}"
proof -
  have "set (map fst ws) = dom (map_of ws)" by (simp add: dom_map_of_conv_image_fst)
  then show ?thesis unfolding map_of_eq_Some_iff [OF assms, symmetric] by (auto simp: map_add_def split: option.split)
qed

lemma rebuild_pass_spec:
  assumes ok: "layer_ok l" and r: "\<not> dl_rebuilding l" and ws: "distinct (map fst ws)"
  shows "\<exists>l'. rebuild_pass slack ws l = Ok l' \<and> layer_values l' = map_of ws \<and>
    set (layer_dirty l') = set (layer_dirty l) \<union> {p. layer_values l p \<noteq> map_of ws p}"
proof -
  let ?b = "l\<lparr>dl_rebuilding := True, dl_inserted := False, dl_written := []\<rparr>"
  let ?f = "foldl (\<lambda>l w. layer_set slack (fst w) (snd w) l) ?b ws"
  have okb: "layer_ok ?b" using ok by (simp add: layer_ok_def)
  have vb: "layer_values ?b = layer_values l" by (simp add: layer_values_def)
  note f = layer_put_list [OF okb ws, of slack, simplified vb, simplified]
  have vf: "layer_values ?f = layer_values l ++ map_of ws"
    using layer.put_all(2) [OF okb ws, of slack] by (auto simp: map_add_def fun_eq_iff vb split: option.split)
  have okf: "layer_ok ?f" by (rule layer.put_all(1) [OF okb ws])
  have dom: "dom (map_of ws) = fst ` set ws" by (rule dom_map_of_conv_image_fst)
  obtain l' where l': "finish_rebuild ?f = Ok l'"
    "if \<not> dl_inserted ?f \<and> length (dl_written ?f) = card (dom (layer_values ?f))
     then layer_values l' = layer_values ?f \<and> layer_dirty l' = layer_dirty ?f
     else layer_values l' = (layer_values ?f) |` set (dl_written ?f) \<and>
       set (layer_dirty l') = set (layer_dirty ?f) \<union> (dom (layer_values ?f) - set (dl_written ?f))"
    using finish_rebuild_spec [OF okf f(4)] by blast
  have fin: "finite (dom (layer_values l))"
    using layer_values_flatten(2) [OF ok] by (metis List.finite_set)
  have "layer_values l' = (layer_values ?f) |` set (dl_written ?f) \<and>
      set (layer_dirty l') = set (layer_dirty ?f) \<union> (dom (layer_values ?f) - set (dl_written ?f))"
  proof (cases "\<not> dl_inserted ?f \<and> length (dl_written ?f) = card (dom (layer_values ?f))")
    case True
    then have "fst ` set ws \<subseteq> dom (layer_values l)" using f(3) by auto
    then have doms: "dom (layer_values ?f) = dom (layer_values l)" by (auto simp: vf dom)
    then have "length ws = card (dom (layer_values l))" using True f(2) by simp
    moreover have "card (fst ` set ws) = length ws" using ws by (metis distinct_card length_map set_map)
    ultimately have "dom (layer_values ?f) = set (dl_written ?f)"
      unfolding doms using card_subset_eq [OF fin \<open>fst ` set ws \<subseteq> dom (layer_values l)\<close>] f(2) by simp
    note eq = this
    have "(layer_values ?f) |` set (dl_written ?f) = layer_values ?f" unfolding eq [symmetric] by (rule restrict_dom)
    moreover have "dom (layer_values ?f) - set (dl_written ?f) = {}" using eq by blast
    moreover have "layer_values l' = layer_values ?f \<and> layer_dirty l' = layer_dirty ?f" using True l'(2) by presburger
    ultimately show ?thesis by auto
  qed (use l'(2) in simp)
  moreover have "(layer_values ?f) |` set (dl_written ?f) = map_of ws"
    unfolding vf f(2) by (auto simp: restrict_map_def fun_eq_iff map_add_def dom [symmetric] split: option.split)
  moreover have "{p. \<exists>v. (p, v) \<in> set ws \<and> layer_values l p \<noteq> Some v} \<union> (dom (layer_values ?f) - set (dl_written ?f)) =
      {p. layer_values l p \<noteq> map_of ws p}"
    unfolding vf f(2) using changed_paths [OF ws] by simp
  moreover have "rebuild_pass slack ws l = Ok l'" using r l'(1) by (simp add: rebuild_pass_def begin_rebuild_def check_def)
  ultimately show ?thesis using f(1) by (intro exI [of _ l']) auto
qed

subsection \<open>Properties\<close>


text \<open>
  C18. A wholesale rebuild leaves exactly what its pass wrote.  For a pass that writes each of its paths once, the layer
  afterwards holds those values and nothing else, whether the sweep is skipped or not, and what it adds to the dirty
  paths is exactly where the new contents differ from the old.
\<close>

theorem rebuild_exact:
  assumes "layer_reachable H slack l" "\<not> dl_rebuilding l" "distinct (map fst ws)"
  shows "\<exists>l'. rebuild_pass slack ws l = Ok l' \<and> layer_values l' = map_of ws \<and>
    set (cb_paths (dl_changes l')) = set (cb_paths (dl_changes l)) \<union> {p. layer_values l p \<noteq> map_of ws p}"
  using rebuild_pass_spec [of l ws slack] layer_reachable_ok [OF assms(1)] assms(2,3) by blast

subsection \<open>Witnesses\<close>

definition sample_layer :: direct_layer where
  "sample_layer = layer_set (\<lambda>_. 0) (Property_path [97] [98] [100]) [1, 0]
     (layer_set (\<lambda>_. 0) (Property_path [97] [98] [99]) [1, 1] (new_direct_layer (\<lambda>_. Hash256 7 0 0 0) [97]))"

lemma sample_layer_reachable: "layer_reachable (\<lambda>_. Hash256 7 0 0 0) (\<lambda>_. 0) sample_layer"
  unfolding sample_layer_def by (intro layer_write layer_new)

lemma sample_layer_idle: "\<not> dl_rebuilding sample_layer"
  by (simp add: sample_layer_def layer_set_def impl_note_written_def new_direct_layer_def mark_dirty_def Let_def case_prod_unfold)


theorem rebuild_exact_witness:
  "\<exists>l'. rebuild_pass (\<lambda>_. 0) [(Property_path [97] [98] [99], [0])] sample_layer = Ok l' \<and>
     layer_values l' = [Property_path [97] [98] [99] \<mapsto> [0]]"
proof -
  have "distinct (map fst [(Property_path [97] [98] [99], [0 :: 8 word])])" by simp
  from rebuild_exact [OF sample_layer_reachable sample_layer_idle this] obtain l' where
    "rebuild_pass (\<lambda>_. 0) [(Property_path [97] [98] [99], [0])] sample_layer = Ok l'"
    "layer_values l' = map_of [(Property_path [97] [98] [99], [0])]" by blast
  then show ?thesis by simp
qed

subsection \<open>A pass that writes a path twice\<close>

text \<open>
  The check that skips the sweep counts writes, not paths.  A pass that writes one stored path as many times as the
  layer holds paths keeps the paths it never wrote, against the contract of \<^verbatim>\<open>begin_rebuild\<close>.
\<close>

theorem rebuild_keeps_stale:
  "\<exists>l'. rebuild_pass (\<lambda>_. 0) [(Property_path [97] [98] [99], [1, 1]), (Property_path [97] [98] [99], [1, 1])] sample_layer = Ok l' \<and>
     layer_values l' (Property_path [97] [98] [100]) = Some [1, 0]"
proof -
  let ?p = "Property_path [97] [98] [99]" and ?q = "Property_path [97] [98] [100]"
  let ?set = "layer_set (\<lambda>_. 0) ?p [1, 1]"
  let ?b = "sample_layer\<lparr>dl_rebuilding := True, dl_inserted := False, dl_written := []\<rparr>"
  have ok: "layer_ok sample_layer" using layer_reachable_ok [OF sample_layer_reachable] by blast
  have new: "layer_ok (new_direct_layer (\<lambda>_. Hash256 7 0 0 0) [97])"
    using layer_reachable_ok [OF layer_new] by blast
  have "layer_values (new_direct_layer (\<lambda>_. Hash256 7 0 0 0) [97]) = Map.empty"
    by (simp add: layer_values_def new_direct_layer_def fun_eq_iff)
  then have vals: "layer_values sample_layer = [?p \<mapsto> [1, 1], ?q \<mapsto> [1, 0]]"
    unfolding sample_layer_def using new by (simp add: layer_set_spec fun_eq_iff)
  have okb: "layer_ok ?b" using ok by (simp add: layer_ok_def)
  have vb: "layer_values ?b = layer_values sample_layer" by (simp add: layer_values_def)
  note s1 = layer_set_spec [OF okb, of "\<lambda>_. 0" ?p "[1, 1]"]
  note s2 = layer_set_spec [OF s1(1), of "\<lambda>_. 0" ?p "[1, 1]"]
  have v2: "layer_values (?set (?set ?b)) = layer_values sample_layer"
    using vals by (auto simp: s2(2) s1(2) vb fun_eq_iff)
  have "dom (layer_values (?set (?set ?b))) = {?p, ?q}" unfolding v2 vals by auto
  then have card: "card (dom (layer_values (?set (?set ?b)))) = 2" by simp
  have fast: "\<not> dl_inserted (?set (?set ?b))" "dl_rebuilding (?set (?set ?b))" "length (dl_written (?set (?set ?b))) = 2"
    by (simp_all add: s1 s2 vb vals)
  from finish_rebuild_spec [OF s2(1) fast(2)] card fast(1,3) obtain l' where
    "finish_rebuild (?set (?set ?b)) = Ok l'" "layer_values l' = layer_values (?set (?set ?b))" by auto
  moreover have "rebuild_pass (\<lambda>_. 0) [(?p, [1, 1]), (?p, [1, 1])] sample_layer = finish_rebuild (?set (?set ?b))"
    using sample_layer_idle by (simp add: rebuild_pass_def begin_rebuild_def check_def)
  ultimately show ?thesis by (intro exI [of _ l']) (simp add: v2 vals)
qed

end
