(* ===== verification/Slots.thy ===== *)
theory Slots
  imports Vectors
begin

text \<open>
  Arrays of raw storage, as the typed document uses them: a slot is \<open>None\<close> while nothing is constructed in it.  Reading
  an uninitialized slot, constructing over a live object and destroying a dead slot are faults, so that a theorem that
  code does not fault is a statement about object lifetimes.  A \<^verbatim>\<open>cc::vector\<close> is an array whose slots are all live.
\<close>

type_synonym 'a slots = "'a option list"

definition slot_read :: "'a slots \<Rightarrow> nat \<Rightarrow> ('e, 'a) result" where
  "slot_read arr i = (if i < length arr then (case arr ! i of None \<Rightarrow> Fault | Some v \<Rightarrow> Ok v) else Fault)"

text \<open>Assignment of a trivially copyable object: the old contents do not matter.\<close>

definition slot_write :: "'a slots \<Rightarrow> nat \<Rightarrow> 'a \<Rightarrow> ('e, 'a slots) result" where
  "slot_write arr i v = vset arr i (Some v)"

definition slot_construct :: "'a slots \<Rightarrow> nat \<Rightarrow> 'a \<Rightarrow> ('e, 'a slots) result" where
  "slot_construct arr i v = rbind (vat arr i) (\<lambda>s. rbind (check (s = None)) (\<lambda>_. vset arr i (Some v)))"

definition slot_destroy :: "'a slots \<Rightarrow> nat \<Rightarrow> ('e, 'a slots) result" where
  "slot_destroy arr i = rbind (slot_read arr i) (\<lambda>_. vset arr i None)"

definition slot_move :: "nat \<Rightarrow> nat \<Rightarrow> 'a slots \<Rightarrow> ('e, 'a slots) result" where
  "slot_move dst src arr =
     rbind (slot_read arr src) (\<lambda>v. rbind (slot_construct arr dst v) (\<lambda>arr. slot_destroy arr src))"

subsection \<open>The entry points of a component schema\<close>

definition destroy_range :: "'a slots \<Rightarrow> nat \<Rightarrow> nat \<Rightarrow> ('e, 'a slots) result" where
  "destroy_range arr start n = rfold (\<lambda>i arr. slot_destroy arr (start + i)) (rev [0..<n]) arr"

text \<open>Within one array the direction follows the overlap; between two arrays nothing overlaps.\<close>

definition relocate_range :: "'a slots \<Rightarrow> nat \<Rightarrow> nat \<Rightarrow> nat \<Rightarrow> ('e, 'a slots) result" where
  "relocate_range arr dst src n =
     (if dst = src \<or> n = 0 then Ok arr
      else if dst < src then rfold (\<lambda>i. slot_move (dst + i) (src + i)) [0..<n] arr
      else rfold (\<lambda>i. slot_move (dst + i) (src + i)) (rev [0..<n]) arr)"

definition relocate_between :: "'a slots \<Rightarrow> 'a slots \<Rightarrow> nat \<Rightarrow> ('e, 'a slots \<times> 'a slots) result" where
  "relocate_between dst src n =
     rfold (\<lambda>i (dst, src). rbind (slot_read src i) (\<lambda>v. rbind (slot_construct dst i v) (\<lambda>dst.
        rbind (slot_destroy src i) (\<lambda>src. Ok (dst, src))))) [0..<n] (dst, src)"

subsection \<open>Shifting an array of handles\<close>

function open_slot :: "'a slots \<Rightarrow> nat \<Rightarrow> nat \<Rightarrow> ('e, 'a slots) result" where
  "open_slot arr i at =
     (if i > at then rbind (slot_read arr (i - 1)) (\<lambda>v. rbind (slot_write arr i v) (\<lambda>arr. open_slot arr (i - 1) at))
      else Ok arr)"
  by pat_completeness auto
termination by (relation "measure (\<lambda>(arr, i, at). i)") auto

function close_slot :: "'a slots \<Rightarrow> nat \<Rightarrow> nat \<Rightarrow> ('e, 'a slots) result" where
  "close_slot arr n i =
     (if i + 1 < n then rbind (slot_read arr (i + 1)) (\<lambda>v. rbind (slot_write arr i v) (\<lambda>arr. close_slot arr n (i + 1)))
      else Ok arr)"
  by pat_completeness auto
termination by (relation "measure (\<lambda>(arr, n, i). n - i)") auto

text \<open>Copying \<open>n\<close> handles into another array.\<close>

definition copy_slots :: "'a slots \<Rightarrow> 'a slots \<Rightarrow> nat \<Rightarrow> nat \<Rightarrow> nat \<Rightarrow> ('e, 'a slots) result" where
  "copy_slots dst src at from n =
     rfold (\<lambda>i dst. rbind (slot_read src (from + i)) (\<lambda>v. slot_write dst (at + i) v)) [0..<n] dst"

subsection \<open>Binary search\<close>

text \<open>The three-way search: the index of an element the order places equal, if any.\<close>

function slot_find :: "'a slots \<Rightarrow> ('a \<Rightarrow> int) \<Rightarrow> nat \<Rightarrow> nat \<Rightarrow> ('e, nat option) result" where
  "slot_find arr ord lo hi =
     (if lo < hi then
        (let mid = lo + (hi - lo) div 2 in
         rbind (slot_read arr mid) (\<lambda>v.
           if ord v = 0 then Ok (Some mid)
           else if ord v < 0 then slot_find arr ord (mid + 1) hi
           else slot_find arr ord lo mid))
      else Ok None)"
  by pat_completeness auto
termination by (relation "measure (\<lambda>(arr, ord, lo, hi). hi - lo)") auto

text \<open>The two-way search: where an element is, or would go.\<close>

function slot_lower :: "'a slots \<Rightarrow> ('a \<Rightarrow> bool) \<Rightarrow> nat \<Rightarrow> nat \<Rightarrow> ('e, nat) result" where
  "slot_lower arr before lo hi =
     (if lo < hi then
        (let mid = lo + (hi - lo) div 2 in
         rbind (slot_read arr mid) (\<lambda>v.
           if before v then slot_lower arr before (mid + 1) hi else slot_lower arr before lo mid))
      else Ok lo)"
  by pat_completeness auto
termination by (relation "measure (\<lambda>(arr, before, lo, hi). hi - lo)") auto

declare open_slot.simps [simp del] close_slot.simps [simp del] slot_find.simps [simp del] slot_lower.simps [simp del]

subsection \<open>Live prefixes\<close>

text \<open>\<open>starts arr vs\<close>: the array begins with the live objects \<open>vs\<close>; \<open>live vs cap\<close>: and the rest is uninitialized.\<close>

definition starts :: "'a slots \<Rightarrow> 'a list \<Rightarrow> bool" where
  "starts arr vs \<longleftrightarrow> (\<exists>rest. arr = map Some vs @ rest)"

definition live :: "'a list \<Rightarrow> nat \<Rightarrow> 'a slots" where
  "live vs cap = map Some vs @ replicate (cap - length vs) None"

lemma starts_live [simp]: "starts (live vs cap) vs"
  by (auto simp: starts_def live_def)

lemma starts_Nil [simp]: "starts arr []"
  by (simp add: starts_def)

lemma starts_length: "starts arr vs \<Longrightarrow> length vs \<le> length arr"
  by (auto simp: starts_def)

lemma length_live: "length vs \<le> cap \<Longrightarrow> length (live vs cap) = cap"
  by (simp add: live_def)

lemma live_Nil [simp]: "live [] cap = replicate cap None"
  by (simp add: live_def)

lemma slot_read_starts: "starts arr vs \<Longrightarrow> i < length vs \<Longrightarrow> slot_read arr i = Ok (vs ! i)"
  by (auto simp: starts_def slot_read_def nth_append)

lemma starts_take: "starts arr vs \<Longrightarrow> take (length vs) arr = map Some vs"
  by (auto simp: starts_def)

lemma starts_unique: "starts arr vs \<Longrightarrow> starts arr ws \<Longrightarrow> length vs = length ws \<Longrightarrow> vs = ws"
  by (metis starts_take inj_Some list.inj_map_strong option.inject)

lemma slot_read_mid [simp]: "slot_read (A @ Some v # B) (length A) = Ok v"
  by (simp add: slot_read_def)

lemma slot_write_mid [simp]: "slot_write (A @ x # B) (length A) v = Ok (A @ Some v # B)"
  by (simp add: slot_write_def)

lemma slot_construct_mid [simp]: "slot_construct (A @ None # B) (length A) v = Ok (A @ Some v # B)"
  by (simp add: slot_construct_def)

lemma slot_destroy_mid [simp]: "slot_destroy (A @ Some v # B) (length A) = Ok (A @ None # B)"
  by (simp add: slot_destroy_def)

lemma slot_move_down: "slot_move (length A) (Suc (length A)) (A @ None # Some v # B) = Ok (A @ Some v # None # B)"
  by (simp add: slot_move_def slot_read_mid [of "A @ [None]" v B, simplified] slot_destroy_mid [of "A @ [Some v]" v B, simplified])

lemma slot_move_up: "slot_move (Suc (length A)) (length A) (A @ Some v # None # B) = Ok (A @ None # Some v # B)"
  by (simp add: slot_move_def slot_construct_mid [of "A @ [Some v]" B v, simplified])

subsection \<open>What the loops do\<close>

lemma rfold_map: "rfold f (map g xs) s = rfold (\<lambda>x. f (g x)) xs s"
  by (induction xs arbitrary: s) (simp_all cong: rbind_cong)

lemma open_slot_spec:
  "open_slot (A @ map Some ws @ x # B) (length A + length ws) (length A) =
   Ok (A @ (if ws = [] then x else Some (hd ws)) # map Some ws @ B)"
proof (induction ws arbitrary: x B rule: rev_induct)
  case Nil
  then show ?case by (simp add: open_slot.simps [of _ "length A"])
next
  case (snoc u us)
  show ?case
    using snoc.IH [of "Some u" "Some u # B"]
    by (subst open_slot.simps)
      (auto simp: hd_append slot_read_mid [of "A @ map Some us" u, simplified] slot_write_mid [of "A @ map Some us @ [Some u]" x B u, simplified]
        slot_write_mid [of "A @ [Some u]" x B u, simplified])
qed

lemma close_slot_spec:
  "close_slot (A @ x # map Some ws @ B) (Suc (length A + length ws)) (length A) =
   Ok (A @ map Some ws @ (if ws = [] then x else Some (last ws)) # B)"
proof (induction ws arbitrary: A x)
  case Nil
  then show ?case by (simp add: close_slot.simps [of _ _ "length A"])
next
  case (Cons u us)
  show ?case
    using Cons.IH [of "A @ [Some u]" "Some u"]
    by (subst close_slot.simps) (auto simp: slot_read_mid [of "A @ [x]" u, simplified])
qed

text \<open>Inserting into, and removing from, a live prefix.\<close>

lemma starts_insert:
  assumes "starts arr vs" "length vs < length arr" "at \<le> length vs"
  shows "\<exists>arr'. rbind (open_slot arr (length vs) at) (\<lambda>arr. slot_write arr at e) = (Ok arr' :: ('e, 'a slots) result) \<and>
    starts arr' (take at vs @ e # drop at vs) \<and> length arr' = length arr"
proof -
  obtain x B where arr: "arr = map Some vs @ x # B" using assms(1,2) by (auto simp: starts_def) (metis list.exhaust length_map append_Nil2 less_irrefl)
  let ?A = "map Some (take at vs)" and ?ws = "drop at vs"
  have l: "length ?A = at" "at + length ?ws = length vs" using assms(3) by auto
  have split: "arr = ?A @ map Some ?ws @ x # B" by (metis arr append.assoc append_take_drop_id map_append)
  let ?y = "if ?ws = [] then x else Some (hd ?ws)"
  have "open_slot arr (length vs) at = (Ok (?A @ ?y # map Some ?ws @ B) :: ('e, 'a slots) result)"
    using open_slot_spec [where 'a = 'e, of ?A ?ws x B] unfolding l split [symmetric] .
  moreover have "slot_write (?A @ ?y # map Some ?ws @ B) at e = (Ok (?A @ Some e # map Some ?ws @ B) :: ('e, 'a slots) result)"
    using slot_write_mid [of ?A ?y "map Some ?ws @ B" e] unfolding l .
  ultimately show ?thesis using assms(3) by (simp add: arr starts_def)
qed

lemma starts_remove:
  assumes "starts arr vs" "at < length vs"
  shows "\<exists>arr'. close_slot arr (length vs) at = (Ok arr' :: ('e, 'a slots) result) \<and>
    starts arr' (take at vs @ drop (Suc at) vs) \<and> length arr' = length arr"
proof -
  obtain B where arr: "arr = map Some vs @ B" using assms(1) by (auto simp: starts_def)
  let ?A = "map Some (take at vs)" and ?ws = "drop (Suc at) vs"
  have l: "length ?A = at" "Suc (at + length ?ws) = length vs" using assms(2) by auto
  have split: "arr = ?A @ Some (vs ! at) # map Some ?ws @ B"
    using arg_cong [OF id_take_nth_drop [OF assms(2)], of "map Some"] by (simp add: arr)
  have "close_slot arr (length vs) at = (Ok (?A @ map Some ?ws @ (if ?ws = [] then Some (vs ! at) else Some (last ?ws)) # B) :: ('e, 'a slots) result)"
    using close_slot_spec [of ?A "Some (vs ! at)" ?ws B] unfolding l split [symmetric] .
  then show ?thesis using assms(2) by (simp add: arr starts_def)
qed

lemma relocate_down_spec:
  "relocate_range (A @ None # map Some ws @ B) (length A) (Suc (length A)) (length ws) = Ok (A @ map Some ws @ None # B)"
proof (cases "ws = []")
  case False
  have "rfold (\<lambda>i. slot_move (length A + i) (Suc (length A) + i)) [0..<length ws] (A @ None # map Some ws @ B) =
      Ok (A @ map Some ws @ None # B)"
  proof (induction ws arbitrary: A)
    case (Cons u us)
    have "[0..<length (u # us)] = 0 # map Suc [0..<length us]" by (simp add: upt_conv_Cons map_Suc_upt del: upt_Suc)
    then show ?case using Cons.IH [of "A @ [Some u]"] by (simp add: rfold_map slot_move_down [of A u] del: upt_Suc)
  qed simp
  with False show ?thesis by (simp add: relocate_range_def)
qed (simp add: relocate_range_def)

lemma relocate_up_spec:
  "relocate_range (A @ map Some ws @ None # B) (Suc (length A)) (length A) (length ws) = Ok (A @ None # map Some ws @ B)"
proof (cases "ws = []")
  case False
  have "rfold (\<lambda>i. slot_move (Suc (length A) + i) (length A + i)) (rev [0..<length ws]) (A @ map Some ws @ None # B) =
      Ok (A @ None # map Some ws @ B)"
  proof (induction ws arbitrary: B rule: rev_induct)
    case (snoc u us)
    then show ?case by (simp add: slot_move_up [of "A @ map Some us" u B, simplified])
  qed simp
  with False show ?thesis by (simp add: relocate_range_def)
qed (simp add: relocate_range_def)

lemma destroy_range_spec:
  "destroy_range (A @ map Some ws @ B) (length A) (length ws) = Ok (A @ replicate (length ws) None @ B)"
  unfolding destroy_range_def
proof (induction ws arbitrary: B rule: rev_induct)
  case (snoc u us)
  then show ?case by (simp add: slot_destroy_mid [of "A @ map Some us" u B, simplified] replicate_append_same)
qed simp

lemma relocate_between_spec:
  assumes "length vs \<le> cap"
  shows "relocate_between (replicate cap None) (map Some vs @ rest) (length vs) =
    (Ok (live vs cap, replicate (length vs) None @ rest) :: ('e, 'a slots \<times> 'a slots) result)"
proof -
  let ?f = "\<lambda>i (dst, src). rbind (slot_read src i) (\<lambda>v. rbind (slot_construct dst i v) (\<lambda>dst.
        rbind (slot_destroy src i) (\<lambda>src. Ok (dst, src))))"
  have "rfold ?f [0..<n] (replicate cap None, map Some vs @ rest) =
      (Ok (map Some (take n vs) @ replicate (cap - n) None, replicate n None @ map Some (drop n vs) @ rest) :: ('e, 'a slots \<times> 'a slots) result)"
    if "n \<le> length vs" for n
    using that
  proof (induction n)
    case (Suc n)
    have n: "n < length vs" using Suc.prems by simp
    have cap: "replicate (cap - n) None = None # replicate (cap - Suc n) (None :: 'a option)"
      using n assms by (metis Suc_diff_Suc le_less_trans less_le_trans replicate_Suc)
    have d: "map Some (drop n vs) = Some (vs ! n) # map Some (drop (Suc n) vs)" using n by (simp add: Cons_nth_drop_Suc [symmetric])
    have t: "map Some (take (Suc n) vs) = map Some (take n vs) @ [Some (vs ! n)]" using n by (simp add: take_Suc_conv_app_nth)
    have step: "rbind (slot_read (replicate n None @ Some (vs ! n) # map Some (drop (Suc n) vs) @ rest) n) (\<lambda>v.
        rbind (slot_construct (map Some (take n vs) @ None # replicate (cap - Suc n) None) n v) (\<lambda>dst.
        rbind (slot_destroy (replicate n None @ Some (vs ! n) # map Some (drop (Suc n) vs) @ rest) n) (\<lambda>src. Ok (dst, src)))) =
      Ok (map Some (take n vs) @ Some (vs ! n) # replicate (cap - Suc n) None, replicate n None @ None # map Some (drop (Suc n) vs) @ rest)"
      using n by (simp add: slot_read_def slot_construct_def slot_destroy_def nth_append list_update_append)
    show ?case
      using Suc by (simp add: rfold_append step cap d t replicate_append_same)
  qed simp
  from this [of "length vs"] show ?thesis by (simp add: relocate_between_def live_def)
qed

lemma copy_slots_spec:
  assumes src: "starts src vs" and n: "from + n \<le> length vs" "at + n \<le> length dst"
  shows "copy_slots dst src at from n =
    (Ok (take at dst @ map Some (take n (drop from vs)) @ drop (at + n) dst) :: ('e, 'a slots) result)"
  unfolding copy_slots_def using n
proof (induction n)
  case (Suc n)
  have "slot_read src (from + n) = (Ok (vs ! (from + n)) :: ('e, 'a) result)" using Suc.prems by (intro slot_read_starts [OF src]) simp
  moreover have "take (Suc n) (drop from vs) = take n (drop from vs) @ [vs ! (from + n)]" using Suc.prems by (simp add: take_Suc_conv_app_nth)
  moreover have "drop (at + n) dst = dst ! (at + n) # drop (at + Suc n) dst" using Suc.prems by (simp add: Cons_nth_drop_Suc)
  ultimately show ?case
    using Suc by (simp add: rfold_append slot_write_def vset_def list_update_append)
qed simp

subsection \<open>What the searches find\<close>

text \<open>Where a key is, or would go, among objects sorted by it.\<close>

abbreviation (input) "before_key f k vs \<equiv> length (takeWhile (\<lambda>v. f v < k) vs)"

lemma sorted_before_key:
  assumes "sorted_wrt (<) (map f vs)"
  shows "i < before_key f k vs \<Longrightarrow> f (vs ! i) < (k :: 'k::linorder)"
    and "before_key f k vs \<le> i \<Longrightarrow> i < length vs \<Longrightarrow> k \<le> f (vs ! i)"
proof -
  show "f (vs ! i) < k" if "i < before_key f k vs"
    using nth_mem [OF that] that by (metis set_takeWhileD takeWhile_nth)
  show "k \<le> f (vs ! i)" if "before_key f k vs \<le> i" "i < length vs"
  proof -
    have n: "before_key f k vs < length vs" using that by simp
    then have "\<not> f (vs ! before_key f k vs) < k" by (rule nth_length_takeWhile)
    moreover have "f (vs ! before_key f k vs) \<le> f (vs ! i)"
      using assms that n by (cases "before_key f k vs = i") (auto simp: sorted_wrt_iff_nth_less intro: less_imp_le)
    ultimately show ?thesis by simp
  qed
qed

lemma before_key_eqI:
  assumes "sorted_wrt (<) (map f vs)" "r \<le> length vs" "\<forall>i < r. f (vs ! i) < (k :: 'k::linorder)"
    and "\<forall>i. r \<le> i \<longrightarrow> i < length vs \<longrightarrow> k \<le> f (vs ! i)"
  shows "before_key f k vs = r"
proof (rule antisym)
  show "before_key f k vs \<le> r"
  proof (rule ccontr)
    assume "\<not> before_key f k vs \<le> r"
    then have "r < before_key f k vs" by simp
    moreover have "before_key f k vs \<le> length vs" by (rule length_takeWhile_le)
    ultimately show False using assms(4) sorted_before_key(1) [OF assms(1), of r k] by (simp add: not_le [symmetric])
  qed
  show "r \<le> before_key f k vs"
  proof (rule ccontr)
    assume "\<not> r \<le> before_key f k vs"
    then show False
      using assms(2,3) sorted_before_key(2) [OF assms(1), of k "before_key f k vs"] by (simp add: not_le [symmetric])
  qed
qed

text \<open>Halving an interval that brackets the position.\<close>

lemma bracket_mid:
  assumes srt: "sorted_wrt (<) (map f vs)" and lh: "lo < hi" "hi \<le> length vs"
    and lo: "\<forall>i < lo. f (vs ! i) < (k :: 'k::linorder)" and hi: "\<forall>i. hi \<le> i \<longrightarrow> i < length vs \<longrightarrow> k \<le> f (vs ! i)"
  defines "mid \<equiv> lo + (hi - lo) div 2"
  shows "lo \<le> mid" "mid < hi" "mid < length vs"
    and "f (vs ! mid) < k \<Longrightarrow> \<forall>i < mid + 1. f (vs ! i) < k"
    and "k \<le> f (vs ! mid) \<Longrightarrow> \<forall>i. mid \<le> i \<longrightarrow> i < length vs \<longrightarrow> k \<le> f (vs ! i)"
proof -
  show m: "lo \<le> mid" "mid < hi" "mid < length vs" using lh by (auto simp: mid_def)
  have mono: "i < j \<Longrightarrow> j < length vs \<Longrightarrow> f (vs ! i) < f (vs ! j)" for i j using srt by (simp add: sorted_wrt_iff_nth_less)
  show "\<forall>i < mid + 1. f (vs ! i) < k" if "f (vs ! mid) < k"
    using that mono [of _ mid] m by (auto simp: less_Suc_eq intro: less_trans)
  show "\<forall>i. mid \<le> i \<longrightarrow> i < length vs \<longrightarrow> k \<le> f (vs ! i)" if "k \<le> f (vs ! mid)"
    using that mono [of mid] by (auto simp: le_less intro: less_trans)
qed

lemma slot_lower_spec:
  assumes arr: "starts arr vs" and srt: "sorted_wrt (<) (map f vs)" and b: "\<And>v. before v \<longleftrightarrow> f v < (k :: 'k::linorder)"
  shows "slot_lower arr before 0 (length vs) = (Ok (before_key f k vs) :: ('e, nat) result)"
proof -
  have "slot_lower arr before lo hi = (Ok (before_key f k vs) :: ('e, nat) result)"
    if "lo \<le> hi" "hi \<le> length vs" "\<forall>i < lo. f (vs ! i) < k" "\<forall>i. hi \<le> i \<longrightarrow> i < length vs \<longrightarrow> k \<le> f (vs ! i)" for lo hi
    using that
  proof (induction "hi - lo" arbitrary: lo hi rule: less_induct)
    case less
    show ?case
    proof (cases "lo < hi")
      case True
      let ?mid = "lo + (hi - lo) div 2"
      note mid = bracket_mid [OF srt True less.prems(2-4)]
      have eq: "slot_lower arr before lo hi =
          (if f (vs ! ?mid) < k then slot_lower arr before (?mid + 1) hi else slot_lower arr before lo ?mid :: ('e, nat) result)"
        unfolding slot_lower.simps [of arr before lo hi] Let_def slot_read_starts [OF arr mid(3)] using True by (simp add: b)
      show ?thesis
      proof (cases "f (vs ! ?mid) < k")
        case t: True
        have "slot_lower arr before (?mid + 1) hi = (Ok (before_key f k vs) :: ('e, nat) result)"
          by (rule less.hyps) (use mid(1,2) mid(4) [OF t] less.prems in simp_all)
        with eq t show ?thesis by simp
      next
        case f: False
        have "slot_lower arr before lo ?mid = (Ok (before_key f k vs) :: ('e, nat) result)"
          by (rule less.hyps) (use mid(1,2) mid(5) f less.prems in simp_all)
        with eq f show ?thesis by simp
      qed
    next
      case False
      with less.prems have "lo = hi" by simp
      with less.prems before_key_eqI [OF srt, of lo k] have "before_key f k vs = lo" by simp
      with False show ?thesis by (subst slot_lower.simps) simp
    qed
  qed
  from this [of 0 "length vs"] show ?thesis by simp
qed

lemma slot_find_spec:
  assumes arr: "starts arr vs" and srt: "sorted_wrt (<) (map f vs)"
    and ord: "\<And>v. ord v < (0 :: int) \<longleftrightarrow> f v < (k :: 'k::linorder)" "\<And>v. ord v = 0 \<longleftrightarrow> f v = k"
  shows "slot_find arr ord 0 (length vs) =
    (Ok (if k \<in> f ` set vs then Some (before_key f k vs) else None) :: ('e, nat option) result)"
proof -
  let ?r = "if k \<in> f ` set vs then Some (before_key f k vs) else None"
  have "slot_find arr ord lo hi = (Ok ?r :: ('e, nat option) result)"
    if "lo \<le> hi" "hi \<le> length vs" "\<forall>i < lo. f (vs ! i) < k" "\<forall>i. hi \<le> i \<longrightarrow> i < length vs \<longrightarrow> k < f (vs ! i)" for lo hi
    using that
  proof (induction "hi - lo" arbitrary: lo hi rule: less_induct)
    case less
    have hi: "\<forall>i. hi \<le> i \<longrightarrow> i < length vs \<longrightarrow> k \<le> f (vs ! i)" using less.prems(4) by (simp add: less_imp_le)
    show ?case
    proof (cases "lo < hi")
      case True
      let ?mid = "lo + (hi - lo) div 2"
      note mid = bracket_mid [OF srt True less.prems(2,3) hi]
      have eq: "slot_find arr ord lo hi =
          (if f (vs ! ?mid) = k then Ok (Some ?mid)
           else if f (vs ! ?mid) < k then slot_find arr ord (?mid + 1) hi else slot_find arr ord lo ?mid :: ('e, nat option) result)"
        unfolding slot_find.simps [of arr ord lo hi] Let_def slot_read_starts [OF arr mid(3)] using True by (simp add: ord)
      consider "f (vs ! ?mid) = k" | "f (vs ! ?mid) < k" | "k < f (vs ! ?mid)" using linorder_less_linear by blast
      then show ?thesis
      proof cases
        case 1
        have "before_key f k vs = ?mid"
          using srt mid(3,5) 1 by (intro before_key_eqI) (auto simp: sorted_wrt_iff_nth_less)
        with 1 eq mid(3) show ?thesis by (auto simp: image_iff)
      next
        case 2
        have "slot_find arr ord (?mid + 1) hi = (Ok ?r :: ('e, nat option) result)"
          by (rule less.hyps) (use mid(1,2) mid(4) [OF 2] less.prems in simp_all)
        moreover have "f (vs ! ?mid) \<noteq> k" using 2 by simp
        ultimately show ?thesis using eq 2 by presburger
      next
        case 3
        have "f (vs ! ?mid) < f (vs ! i)" if "?mid < i" "i < length vs" for i
          using srt that by (simp add: sorted_wrt_iff_nth_less)
        with 3 have "\<forall>i. ?mid \<le> i \<longrightarrow> i < length vs \<longrightarrow> k < f (vs ! i)" by (metis le_less less_trans)
        then have "slot_find arr ord lo ?mid = (Ok ?r :: ('e, nat option) result)"
          by (intro less.hyps) (use mid(1,2) less.prems in simp_all)
        moreover have "f (vs ! ?mid) \<noteq> k" "\<not> f (vs ! ?mid) < k" using 3 by simp_all
        ultimately show ?thesis using eq by presburger
      qed
    next
      case False
      with less.prems have e: "lo = hi" by simp
      have "k \<notin> f ` set vs"
      proof
        assume "k \<in> f ` set vs"
        then obtain i where "i < length vs" "f (vs ! i) = k" by (auto simp: in_set_conv_nth)
        with less.prems(3,4) e show False by (metis less_irrefl not_less)
      qed
      with False show ?thesis by (subst slot_find.simps) simp
    qed
  qed
  from this [of 0 "length vs"] show ?thesis by simp
qed

text \<open>The element found, and the list around the position.\<close>

lemma before_key_found:
  assumes "sorted_wrt (<) (map f vs)" "(k :: 'k::linorder) \<in> f ` set vs"
  shows "before_key f k vs < length vs" "f (vs ! before_key f k vs) = k"
proof -
  from assms(2) obtain i where i: "i < length vs" "f (vs ! i) = k" by (auto simp: in_set_conv_nth)
  have le: "before_key f k vs \<le> i" using sorted_before_key(1) [OF assms(1), of i k] i by (metis less_irrefl not_less)
  then show lt: "before_key f k vs < length vs" using i by simp
  show "f (vs ! before_key f k vs) = k"
  proof (cases "before_key f k vs = i")
    case False
    then have "f (vs ! before_key f k vs) < f (vs ! i)" using le i(1) assms(1) by (simp add: sorted_wrt_iff_nth_less)
    then show ?thesis using sorted_before_key(2) [OF assms(1) order.refl lt] i(2) by simp
  qed (use i in simp)
qed

lemma occupies_iff:
  assumes "sorted_wrt (<) (map f vs)"
  shows "before_key f k vs < length vs \<and> f (vs ! before_key f k vs) = k \<longleftrightarrow> (k :: 'k::linorder) \<in> f ` set vs"
  using before_key_found [OF assms, of k] by (metis image_eqI nth_mem)

end
