(* ===== verification/Op_Builder.thy ===== *)
theory Op_Builder
  imports Cache_Properties
begin

text \<open>
  \<^verbatim>\<open>op_builder\<close> and \<^verbatim>\<open>component_writer\<close> (op_builder.hh/.cc, component.cc): staging of writes with the
  duplicate-path assertion and its lazily built index, and \<^verbatim>\<open>build\<close>, which materializes the touched entities at the
  parents, keeps only the writes that change something and stamps the op's content hash.
\<close>

subsection \<open>Reserved names\<close>

text \<open>\<open>$schema_version\<close>, \<open>$alive\<close> and \<open>$entity\<close> in ASCII; the sigil is the dollar sign.\<close>

definition reserved_schema_version :: property_id where
  "reserved_schema_version = [36, 115, 99, 104, 101, 109, 97, 95, 118, 101, 114, 115, 105, 111, 110]"

definition reserved_alive :: property_id where
  "reserved_alive = [36, 97, 108, 105, 118, 101]"

definition reserved_entity :: component_type_id where
  "reserved_entity = [36, 101, 110, 116, 105, 116, 121]"

definition is_reserved :: "str \<Rightarrow> bool" where
  "is_reserved name \<longleftrightarrow> name \<noteq> [] \<and> hd name = 36"

subsection \<open>Staging\<close>

record pending_write =
  pw_path :: property_path
  pw_value :: owned_value
  pw_kind :: assignment_kind

record op_builder =
  ob_parents :: "op_id list"
  ob_metadata :: owned_value
  ob_writes :: "pending_write list"
  ob_staged_paths :: "property_path set"

definition new_op_builder :: op_builder where
  "new_op_builder = \<lparr>ob_parents = [], ob_metadata = of_null, ob_writes = [], ob_staged_paths = {}\<rparr>"

definition set_parents :: "op_id list \<Rightarrow> op_builder \<Rightarrow> op_builder" where
  "set_parents parents b = b\<lparr>ob_parents := parents\<rparr>"

definition set_metadata :: "owned_value \<Rightarrow> op_builder \<Rightarrow> op_builder" where
  "set_metadata metadata b = b\<lparr>ob_metadata := metadata\<rparr>"

definition impl_assert_unstaged :: "property_path \<Rightarrow> op_builder \<Rightarrow> op_builder checked" where
  "impl_assert_unstaged path b =
     (if length (ob_writes b) < 16 then
        rbind (check (\<forall>w \<in> set (ob_writes b). pw_path w \<noteq> path)) (\<lambda>_. Ok b)
      else
        (let staged = (if card (ob_staged_paths b) \<noteq> length (ob_writes b) then set (map pw_path (ob_writes b))
                       else ob_staged_paths b) in
         rbind (check (path \<notin> staged)) (\<lambda>_. Ok (b\<lparr>ob_staged_paths := insert path staged\<rparr>))))"

definition stage :: "pending_write \<Rightarrow> op_builder \<Rightarrow> op_builder checked" where
  "stage w b = rbind (impl_assert_unstaged (pw_path w) b) (\<lambda>b. Ok (b\<lparr>ob_writes := ob_writes b @ [w]\<rparr>))"

definition set_raw :: "property_path \<Rightarrow> owned_value \<Rightarrow> op_builder \<Rightarrow> op_builder checked" where
  "set_raw path v b = stage \<lparr>pw_path = path, pw_value = v, pw_kind = AK_set\<rparr> b"

text \<open>The value of a staged withdrawal is a default \<^verbatim>\<open>value\<close>, which is null.\<close>

definition stage_abstain :: "property_path \<Rightarrow> op_builder \<Rightarrow> op_builder checked" where
  "stage_abstain path b = stage \<lparr>pw_path = path, pw_value = of_null, pw_kind = AK_abstain\<rparr> b"

definition set_alive :: "entity_id \<Rightarrow> component_type_id \<Rightarrow> bool \<Rightarrow> op_builder \<Rightarrow> op_builder checked" where
  "set_alive e c alive b = rbind (of_bool alive) (\<lambda>v. set_raw (Property_path e c reserved_alive) v b)"

definition set_entity_alive :: "entity_id \<Rightarrow> bool \<Rightarrow> op_builder \<Rightarrow> op_builder checked" where
  "set_entity_alive e alive b = set_alive e reserved_entity alive b"

definition remove_component :: "entity_id \<Rightarrow> component_type_id \<Rightarrow> op_builder \<Rightarrow> op_builder checked" where
  "remove_component e c b = set_alive e c False b"

definition restore_component :: "entity_id \<Rightarrow> component_type_id \<Rightarrow> op_builder \<Rightarrow> op_builder checked" where
  "restore_component e c b = set_alive e c True b"

definition remove_entity :: "entity_id \<Rightarrow> op_builder \<Rightarrow> op_builder checked" where
  "remove_entity e b = set_entity_alive e False b"

definition restore_entity :: "entity_id \<Rightarrow> op_builder \<Rightarrow> op_builder checked" where
  "restore_entity e b = set_entity_alive e True b"

text \<open>
  A \<^verbatim>\<open>component_writer\<close> is bound to one component of one entity; what the component's own \<^verbatim>\<open>write\<close> does with it is
  the sequence of \<^verbatim>\<open>set\<close> calls it makes, a parameter.
\<close>

definition writer_set :: "entity_id \<Rightarrow> component_type_id \<Rightarrow> property_id \<times> owned_value \<Rightarrow> op_builder \<Rightarrow> op_builder checked" where
  "writer_set e c pv b =
     rbind (check (\<not> is_reserved (fst pv))) (\<lambda>_. set_raw (Property_path e c (fst pv)) (snd pv) b)"

definition set_component ::
  "entity_id \<Rightarrow> component_type_id \<Rightarrow> 32 word \<Rightarrow> (property_id \<times> owned_value) list \<Rightarrow> op_builder \<Rightarrow> op_builder checked" where
  "set_component e c version writes b =
     rbind (of_i64 (scast version)) (\<lambda>v.
     rbind (set_raw (Property_path e c reserved_schema_version) v b) (\<lambda>b.
       rfold (writer_set e c) writes b))"

subsection \<open>Building\<close>

definition unique_step :: "op_id list \<Rightarrow> op_id \<Rightarrow> op_id list" where
  "unique_step out p = (if out = [] \<or> last out \<noteq> p then out @ [p] else out)"

definition unique_parents :: "op_id list \<Rightarrow> op_id list" where
  "unique_parents parents = foldl unique_step [] (cc_sort (\<lambda>a b. op_id_compare_bytes a b < 0) parents)"

definition touched_entities :: "pending_write list \<Rightarrow> entity_id list" where
  "touched_entities writes = snd (collect_wanted (map (\<lambda>w. pp_entity (pw_path w)) writes))"

definition diff_write :: "raw_document \<Rightarrow> pending_write \<Rightarrow> assignment list \<Rightarrow> (assignment list) checked" where
  "diff_write current w entries =
     (let existing = document_try_get current (pw_path w) in
      if pw_kind w = AK_abstain then
        (if existing = None then Ok entries
         else Ok (entries @ [\<lparr>a_path = pw_path w, a_value = of_null, a_kind = AK_abstain\<rparr>]))
      else
        rbind (case existing of
                 None \<Rightarrow> Ok False
               | Some p \<Rightarrow> if is_multi_valued p then Ok False
                           else rbind (single p) (\<lambda>v. Ok (bytes_equal v (pw_value w)))) (\<lambda>same.
          if same then Ok entries
          else Ok (entries @ [\<lparr>a_path = pw_path w, a_value = pw_value w, a_kind = AK_set\<rparr>])))"

definition stamp_op :: "(bytes \<Rightarrow> hash256) \<Rightarrow> op_id list \<Rightarrow> bytes \<Rightarrow> assignment list \<Rightarrow> op checked" where
  "stamp_op H parents metadata entries =
     rbind (encode_assignments (cc_sort (\<lambda>a b. path_compare_bytes (a_path a) (a_path b) < 0) entries)) (\<lambda>bs.
       (let out = \<lparr>o_id = compute_op_id H parents metadata bs, o_parents = parents,
                   o_payload = Some \<lparr>metadata_bytes = metadata, assignment_bytes = bs\<rparr>\<rparr> in
        rbind (check (verify_op H out = OV_verified)) (\<lambda>_. Ok out)))"

definition impl_build ::
  "(bytes \<Rightarrow> hash256) \<Rightarrow> op_graph \<Rightarrow> snapshot_cache option \<Rightarrow> op_builder \<Rightarrow> (op \<times> snapshot_cache option) checked" where
  "impl_build H g cache b =
     (let parents = unique_parents (ob_parents b);
          touched = touched_entities (ob_writes b) in
      rbind (case cache of
               None \<Rightarrow> rbind (materialize_entities g parents touched) (\<lambda>d. Ok (d, None))
             | Some c \<Rightarrow> rbind (materialize_through g parents touched c) (\<lambda>(d, c). Ok (d, Some c))) (\<lambda>(current, cache).
      rbind (rfold (diff_write current) (ob_writes b) []) (\<lambda>entries.
      rbind (stamp_op H parents (ob_metadata b) entries) (\<lambda>out. Ok (out, cache)))))"

definition build_op :: "(bytes \<Rightarrow> hash256) \<Rightarrow> op_graph \<Rightarrow> op_builder \<Rightarrow> op checked" where
  "build_op H g b = rbind (impl_build H g None b) (\<lambda>(out, _). Ok out)"

definition build_op_cached ::
  "(bytes \<Rightarrow> hash256) \<Rightarrow> op_graph \<Rightarrow> snapshot_cache \<Rightarrow> op_builder \<Rightarrow> (op \<times> snapshot_cache) checked" where
  "build_op_cached H g c b =
     rbind (impl_build H g (Some c) b) (\<lambda>(out, cache). case cache of None \<Rightarrow> Fault | Some c \<Rightarrow> Ok (out, c))"

subsection \<open>What staging does\<close>

text \<open>
  The index is empty until the seventeenth write and complete from then on, so both branches of the assertion ask the
  same question.
\<close>

abbreviation (input) "staged_paths b \<equiv> pw_path ` set (ob_writes b)"

definition builder_ok :: "op_builder \<Rightarrow> bool" where
  "builder_ok b \<longleftrightarrow> distinct (map pw_path (ob_writes b)) \<and>
     ob_staged_paths b = (if length (ob_writes b) \<le> 16 then {} else staged_paths b)"

lemma assert_unstaged_spec:
  assumes "builder_ok b"
  shows "impl_assert_unstaged path b =
    (if path \<in> staged_paths b then Fault
     else Ok (b\<lparr>ob_staged_paths := (if length (ob_writes b) < 16 then {} else insert path (staged_paths b))\<rparr>))"
proof (cases "length (ob_writes b) < 16")
  case True
  then have "b\<lparr>ob_staged_paths := {}\<rparr> = b" using assms by (simp add: builder_ok_def)
  then show ?thesis using True by (auto simp: impl_assert_unstaged_def check_def)
next
  case False
  have "card (staged_paths b) = length (ob_writes b)"
    using assms unfolding builder_ok_def by (metis distinct_card length_map set_map)
  then show ?thesis using False assms by (auto simp: impl_assert_unstaged_def check_def builder_ok_def Let_def)
qed

lemma stage_spec:
  assumes "builder_ok b"
  shows "if pw_path w \<in> staged_paths b then stage w b = Fault
    else \<exists>s. stage w b = Ok (b\<lparr>ob_writes := ob_writes b @ [w], ob_staged_paths := s\<rparr>) \<and>
      builder_ok (b\<lparr>ob_writes := ob_writes b @ [w], ob_staged_paths := s\<rparr>)"
  using assms by (simp add: stage_def assert_unstaged_spec) (auto simp: builder_ok_def)

definition write_ok :: "pending_write \<Rightarrow> bool" where
  "write_ok w \<longleftrightarrow> path_ok (pw_path w) \<and> value_ok (pw_value w) \<and> (pw_kind w = AK_abstain \<longrightarrow> pw_value w = of_null)"

text \<open>
  The states a caller can bring a builder to with well-formed ids and values.  The remaining staging operations are
  compositions of \<open>set_raw\<close> and \<open>stage_abstain\<close>.
\<close>

inductive builder_staged :: "op_builder \<Rightarrow> bool" where
  staged_new: "builder_staged new_op_builder"
| staged_parents: "builder_staged b \<Longrightarrow> builder_staged (set_parents ps b)"
| staged_metadata: "builder_staged b \<Longrightarrow> value_ok m \<Longrightarrow> builder_staged (set_metadata m b)"
| staged_set: "builder_staged b \<Longrightarrow> path_ok path \<Longrightarrow> value_ok v \<Longrightarrow> set_raw path v b = Ok b' \<Longrightarrow> builder_staged b'"
| staged_abstain: "builder_staged b \<Longrightarrow> path_ok path \<Longrightarrow> stage_abstain path b = Ok b' \<Longrightarrow> builder_staged b'"

lemma value_ok_null: "value_ok of_null"
  unfolding value_ok_def by (rule exI [of _ VNull]) (simp add: of_null_def max_depth_def)

lemma stage_OkE:
  assumes "builder_ok b" "stage w b = Ok b'"
  shows "builder_ok b'" "ob_writes b' = ob_writes b @ [w]" "ob_parents b' = ob_parents b" "ob_metadata b' = ob_metadata b"
    "pw_path w \<notin> staged_paths b"
  using stage_spec [OF assms(1), of w] assms(2) by (auto split: if_splits)

lemma builder_staged_ok:
  assumes "builder_staged b"
  shows "builder_ok b \<and> value_ok (ob_metadata b) \<and> (\<forall>w \<in> set (ob_writes b). write_ok w)"
  using assms
proof induction
  case staged_new
  show ?case by (simp add: new_op_builder_def builder_ok_def value_ok_null)
next
  case (staged_set b path v b')
  with stage_OkE [of b _ b'] show ?case unfolding set_raw_def by (auto simp: write_ok_def)
next
  case (staged_abstain b path b')
  with stage_OkE [of b _ b'] value_ok_null show ?case unfolding stage_abstain_def by (auto simp: write_ok_def)
qed (auto simp: set_parents_def set_metadata_def builder_ok_def)

subsection \<open>The parents and the touched entities\<close>

lemma unique_fold:
  assumes "sorted (map f (out @ ps))" "sorted_wrt (<) (map f out)" "inj f"
  shows "sorted_wrt (<) (map (f :: op_id \<Rightarrow> op_id) (foldl unique_step out ps)) \<and> set (foldl unique_step out ps) = set out \<union> set ps"
  using assms
proof (induction ps arbitrary: out)
  case (Cons p ps)
  show ?case
  proof (cases "out = [] \<or> last out \<noteq> p")
    case True
    have "f x < f p" if "x \<in> set out" for x
    proof -
      have le: "f x \<le> f (last out)" "f (last out) \<le> f p"
        using Cons.prems(1,2) that by (cases out rule: rev_cases; force simp: sorted_append sorted_wrt_append)+
      show ?thesis using True that le Cons.prems(3) by (auto simp: order.strict_iff_order inj_def)
    qed
    then have "sorted_wrt (<) (map f (out @ [p]))" using Cons.prems(2) by (simp add: sorted_wrt_append)
    with Cons.IH [of "out @ [p]"] Cons.prems True show ?thesis by (auto simp: unique_step_def)
  next
    case False
    then have "set out = insert p (set out)" by auto
    with Cons.IH [of out] Cons.prems False show ?thesis by (auto simp: unique_step_def sorted_append)
  qed
qed simp

lemma unique_parents_sorted_set: "sorted_wrt (<) (unique_parents ps)" "set (unique_parents ps) = set ps"
  using unique_fold [of "\<lambda>x. x" "[]" "cc_sort (<) ps"] cc_sort_sorted [of "\<lambda>x. x" ps] by (simp_all add: unique_parents_def)

lemma touched_set: "set (touched_entities ws) = (\<lambda>w. pp_entity (pw_path w)) ` set ws"
proof -
  have "set (snd (foldl (\<lambda>(wanted, xs) e. if e \<in> wanted then (wanted, xs) else (insert e wanted, xs @ [e])) s es)) =
      set (snd s) \<union> set es" if "fst s = set (snd s)" for s :: "entity_id set \<times> entity_id list" and es
    using that
  proof (induction es arbitrary: s)
    case (Cons a es)
    then show ?case using Cons.IH [of "(insert a (fst s), snd s @ [a])"] Cons.IH [of s] by (cases s) auto
  qed simp
  then show ?thesis by (simp add: touched_entities_def collect_wanted_def)
qed

subsection \<open>The diff\<close>

definition as_assignment :: "pending_write \<Rightarrow> assignment" where
  "as_assignment w = \<lparr>a_path = pw_path w, a_value = pw_value w, a_kind = pw_kind w\<rparr>"

text \<open>The table of the header: whether a staged write changes what the document at the parents says.\<close>

definition emits :: "raw_document \<Rightarrow> pending_write \<Rightarrow> bool" where
  "emits d w \<longleftrightarrow>
     (case document_try_get d (pw_path w) of
        None \<Rightarrow> pw_kind w = AK_set
      | Some p \<Rightarrow> pw_kind w = AK_abstain \<or> map pv_value (rp_writers p) \<noteq> [pw_value w])"

lemma as_assignment_simps [simp]: "a_path (as_assignment w) = pw_path w" "a_value (as_assignment w) = pw_value w"
  "a_kind (as_assignment w) = pw_kind w" "is_abstain (as_assignment w) \<longleftrightarrow> pw_kind w = AK_abstain"
  by (simp_all add: as_assignment_def is_abstain_def)

lemma as_assignment_ok: "write_ok w \<Longrightarrow> assignment_ok (as_assignment w)"
  by (cases "pw_kind w") (auto simp: write_ok_def assignment_ok_def)

lemma diff_write_spec:
  assumes "write_ok w" "\<And>p v. document_try_get d p = Some v \<Longrightarrow> rp_writers v \<noteq> []"
  shows "diff_write d w entries = Ok (if emits d w then entries @ [as_assignment w] else entries)"
proof (cases "document_try_get d (pw_path w)")
  case None
  then show ?thesis using assms(1)
    by (cases "pw_kind w") (auto simp: diff_write_def emits_def as_assignment_def write_ok_def)
next
  case (Some v)
  from assms(2) [OF this] obtain x xs where v: "rp_writers v = x # xs" by (cases "rp_writers v") auto
  show ?thesis
    using Some v assms(1)
    by (cases "pw_kind w"; cases xs)
      (auto simp: diff_write_def emits_def as_assignment_def write_ok_def is_multi_valued_def single_def check_def)
qed

lemma diff_fold:
  assumes "\<forall>w \<in> set ws. write_ok w" "\<And>p v. document_try_get d p = Some v \<Longrightarrow> rp_writers v \<noteq> []"
  shows "rfold (diff_write d) ws entries = Ok (entries @ map as_assignment (filter (emits d) ws))"
  using assms(1)
proof (induction ws arbitrary: entries)
  case (Cons w ws)
  then show ?case using diff_write_spec [of w d entries] assms(2) by simp
qed simp

subsection \<open>Stamping\<close>

definition sorted_entries :: "assignment list \<Rightarrow> assignment list" where
  "sorted_entries entries = cc_sort (\<lambda>a b. a_path a < a_path b) entries"

definition stamped :: "(bytes \<Rightarrow> hash256) \<Rightarrow> op_id list \<Rightarrow> bytes \<Rightarrow> assignment list \<Rightarrow> op" where
  "stamped H ps m as = \<lparr>o_id = compute_op_id H ps m (blob as), o_parents = ps,
     o_payload = Some \<lparr>metadata_bytes = m, assignment_bytes = blob as\<rparr>\<rparr>"

lemma sorted_entries_ok:
  assumes "distinct (map a_path entries)" "\<forall>a \<in> set entries. assignment_ok a"
  shows "assignments_ok None (sorted_entries entries)" "set (sorted_entries entries) = set entries"
    "length (sorted_entries entries) = length entries"
  using assms cc_sort_strict_sorted [of a_path entries] by (simp_all add: sorted_entries_def assignments_ok_def)

lemma stamp_op_spec:
  assumes "distinct (map a_path entries)" "\<forall>a \<in> set entries. assignment_ok a" "length entries < 2 ^ 32"
  shows "stamp_op H ps m entries = Ok (stamped H ps m (sorted_entries entries))"
proof -
  note ok = sorted_entries_ok [OF assms(1,2)]
  have "encode_assignments (sorted_entries entries) = (Ok (blob (sorted_entries entries)) :: bytes checked)"
    using encode_assignments_eq [of "sorted_entries entries", where 'e = unit] ok assms(3) by (simp add: assignments_ok_def)
  then show ?thesis by (simp add: stamp_op_def sorted_entries_def stamped_def verify_op_def check_def Let_def)
qed

lemma stamped_decodes:
  assumes "sorted_wrt (<) ps" "value_ok m" "assignments_ok None as" "length as < 2 ^ 32"
  shows "try_decode_op H (o_id (stamped H ps m as)) ps m (blob as) = Ok (stamped H ps m as)"
    and "payload_valid (stamped H ps m as)" and "op_assignment_list (stamped H ps m as) = Ok as"
    and "try_decode_assignments (stamped H ps m as) = Ok as"
proof -
  have body: "blob_body (blob as)" using assms by (auto simp: blob_body_def)
  then show "try_decode_op H (o_id (stamped H ps m as)) ps m (blob as) = Ok (stamped H ps m as)"
    using assms by (simp add: try_decode_op_iff stamped_def)
  show "payload_valid (stamped H ps m as)" using body by (simp add: payload_valid_def stamped_def)
  show "try_decode_assignments (stamped H ps m as) = Ok as"
    by (rule try_decode_assignments_blob [where p = "\<lparr>metadata_bytes = m, assignment_bytes = blob as\<rparr>"]) (use assms in \<open>simp_all add: stamped_def\<close>)
  have "holds_at (blob as) 5 (enc_assignments as)" by (simp add: blob_def holds_at_def del: le_bytes.simps)
  then have "collect_assignments \<lparr>ac_bytes = blob as, ac_cursor = 5, ac_remaining = length as\<rparr> = (Ok as :: assignment list checked)"
    using assms(3) by (intro collect_assignments_enc) (auto simp: assignments_ok_def)
  moreover have "op_assignments (stamped H ps m as) = (Ok \<lparr>ac_bytes = blob as, ac_cursor = 5, ac_remaining = length as\<rparr> :: assignment_cursor checked)"
    by (rule op_assignments_blob [where p = "\<lparr>metadata_bytes = m, assignment_bytes = blob as\<rparr>"]) (use assms(4) in \<open>simp_all add: stamped_def\<close>)
  ultimately show "op_assignment_list (stamped H ps m as) = Ok as" by (simp add: op_assignment_list_def)
qed

subsection \<open>Building\<close>

definition built_entries :: "op_builder \<Rightarrow> raw_document \<Rightarrow> assignment list" where
  "built_entries b d = sorted_entries (map as_assignment (filter (emits d) (ob_writes b)))"

definition built_op :: "(bytes \<Rightarrow> hash256) \<Rightarrow> op_builder \<Rightarrow> raw_document \<Rightarrow> op" where
  "built_op H b d = stamped H (unique_parents (ob_parents b)) (ob_metadata b) (built_entries b d)"

lemma built_entries_ok:
  assumes "builder_staged b" "length (ob_writes b) < 2 ^ 32"
  shows "assignments_ok None (built_entries b d)" "length (built_entries b d) < 2 ^ 32"
    "set (built_entries b d) = as_assignment ` {w \<in> set (ob_writes b). emits d w}"
    and "stamp_op H ps m (map as_assignment (filter (emits d) (ob_writes b))) = Ok (stamped H ps m (built_entries b d))"
proof -
  let ?es = "map as_assignment (filter (emits d) (ob_writes b))"
  note ok = builder_staged_ok [OF assms(1)]
  have d: "distinct (map a_path ?es)" using ok by (simp add: comp_def builder_ok_def distinct_map_filter)
  have a: "\<forall>a \<in> set ?es. assignment_ok a" using ok as_assignment_ok by auto
  have l: "length ?es < 2 ^ 32" using assms(2) by (simp add: le_less_trans [OF length_filter_le])
  show "assignments_ok None (built_entries b d)" "length (built_entries b d) < 2 ^ 32"
    "set (built_entries b d) = as_assignment ` {w \<in> set (ob_writes b). emits d w}"
    "stamp_op H ps m ?es = Ok (stamped H ps m (built_entries b d))"
    using sorted_entries_ok [OF d a] stamp_op_spec [OF d a l] l by (simp_all add: built_entries_def)
qed

text \<open>The document restricted to the touched entities and the whole one agree on every staged path.\<close>

lemma emits_restricted:
  assumes "current_document g heads es d" "current_document g heads [] d'" "pp_entity (pw_path w) \<in> set es \<or> es = []"
  shows "emits d w = emits d' w"
proof -
  have "document_try_get d (pw_path w) = Some v \<longleftrightarrow> document_try_get d' (pw_path w) = Some v" for v
    using assms by (auto simp: current_document_def)
  then have "document_try_get d (pw_path w) = document_try_get d' (pw_path w)" by (metis not_None_eq)
  then show ?thesis by (simp add: emits_def)
qed

lemma current_document_heads:
  "set heads = set heads' \<Longrightarrow> current_document g heads es d \<longleftrightarrow> current_document g heads' es d"
  by (simp add: current_document_def reach_until_def)

lemma impl_build_diff:
  assumes "builder_staged b" "length (ob_writes b) < 2 ^ 32"
    and cur: "current_document g (unique_parents (ob_parents b)) (touched_entities (ob_writes b)) current"
    and d: "current_document g (ob_parents b) [] d"
  shows "rbind (rfold (diff_write current) (ob_writes b) []) (\<lambda>entries.
      rbind (stamp_op H (unique_parents (ob_parents b)) (ob_metadata b) entries) k) = k (built_op H b d)"
proof -
  note ok = builder_staged_ok [OF assms(1)]
  have ne: "\<And>p v. document_try_get current p = Some v \<Longrightarrow> rp_writers v \<noteq> []" using cur by (simp add: current_document_def)
  have "current_document g (unique_parents (ob_parents b)) [] d"
    using d current_document_heads [of "unique_parents (ob_parents b)" "ob_parents b"] by (simp add: unique_parents_sorted_set)
  then have "emits current w = emits d w" if "w \<in> set (ob_writes b)" for w
    using emits_restricted [OF cur] that by (simp add: touched_set)
  then have same: "filter (emits current) (ob_writes b) = filter (emits d) (ob_writes b)" by (simp cong: filter_cong)
  have "\<forall>w \<in> set (ob_writes b). write_ok w" using ok by blast
  then show ?thesis
    using diff_fold [of "ob_writes b" current "[]"] ne built_entries_ok(4) [OF assms(1,2)] by (simp add: same built_op_def)
qed

lemma build_op_spec:
  assumes "graph_ok g" "payloads_valid g" "acyclic (history g)" "builder_staged b" "length (ob_writes b) < 2 ^ 32"
    and d: "current_document g (ob_parents b) [] d"
  shows "build_op H g b = Ok (built_op H b d)"
    and "cache_ok g c \<Longrightarrow> \<exists>c'. build_op_cached H g c b = Ok (built_op H b d, c')"
proof -
  let ?ps = "unique_parents (ob_parents b)" and ?ts = "touched_entities (ob_writes b)"
  note diff = impl_build_diff [OF assms(4,5) _ d]
  obtain cur where cur: "materialize_entities g ?ps ?ts = Ok cur" "current_document g ?ps ?ts cur"
    using materialize_current [OF assms(1-3)] by blast
  show "build_op H g b = Ok (built_op H b d)"
    by (simp add: build_op_def impl_build_def cur(1) Let_def diff [OF cur(2)])
  assume "cache_ok g c"
  from materialize_through_spec [OF assms(1-3) this, of ?ps ?ts]
  obtain cur' where "materialize_through g ?ps ?ts c = Ok (cur', sweep_finds g ?ps c)" "current_document g ?ps ?ts cur'" by blast
  then show "\<exists>c'. build_op_cached H g c b = Ok (built_op H b d, c')"
    by (simp add: build_op_cached_def impl_build_def Let_def diff)
qed

subsection \<open>The effect of a built op\<close>

text \<open>The document after the staged writes, path by path.\<close>

definition shows_write :: "raw_property option \<Rightarrow> raw_property option \<Rightarrow> pending_write option \<Rightarrow> bool" where
  "shows_write before after w \<longleftrightarrow>
     (case w of
        None \<Rightarrow> after = before
      | Some w \<Rightarrow> if pw_kind w = AK_abstain then after = None
                  else \<exists>writer. after = Some \<lparr>rp_writers = [\<lparr>pv_writer = writer, pv_value = pw_value w\<rparr>]\<rparr>)"

definition staged_at :: "op_builder \<Rightarrow> property_path \<Rightarrow> pending_write option" where
  "staged_at b p = map_of (map (\<lambda>w. (pw_path w, w)) (ob_writes b)) p"

lemma staged_at_Some:
  assumes "builder_staged b"
  shows "staged_at b p = Some w \<longleftrightarrow> w \<in> set (ob_writes b) \<and> pw_path w = p"
proof -
  have "distinct (map fst (map (\<lambda>w. (pw_path w, w)) (ob_writes b)))"
    using builder_staged_ok [OF assms] by (simp add: builder_ok_def comp_def)
  from map_of_eq_Some_iff [OF this, of p w] show ?thesis by (auto simp: staged_at_def)
qed

lemma staged_at_None: "staged_at b p = None \<longleftrightarrow> p \<notin> staged_paths b"
  by (auto simp: staged_at_def map_of_eq_None_iff image_image)

lemma payloads_valid_add:
  "payloads_valid g \<Longrightarrow> payload_valid x \<Longrightarrow> payloads_valid (fst (graph_add g x))"
  by (auto simp: payloads_valid_def graph_add_def Let_def)

lemma map_of_sorted_assignments:
  assumes "sorted_wrt (<) (map a_path as)"
  shows "map_of (map (\<lambda>a. (a_path a, a)) as) p = Some a \<longleftrightarrow> a \<in> set as \<and> a_path a = p"
proof -
  have "distinct (map fst (map (\<lambda>a. (a_path a, a)) as))" using assms by (simp add: comp_def strict_sorted_iff)
  from map_of_eq_Some_iff [OF this, of p a] show ?thesis by auto
qed

lemma not_emits_shows:
  assumes "\<not> emits d w" "\<And>p v. document_try_get d p = Some v \<Longrightarrow> rp_writers v \<noteq> []"
  shows "shows_write before (document_try_get d (pw_path w)) (Some w)"
proof (cases "document_try_get d (pw_path w)")
  case None
  with assms(1) show ?thesis by (cases "pw_kind w") (auto simp: emits_def shows_write_def)
next
  case (Some v)
  with assms(1) have "pw_kind w = AK_set" "map pv_value (rp_writers v) = [pw_value w]"
    by (cases "pw_kind w"; simp add: emits_def)+
  then obtain x where x: "rp_writers v = [x]" "pv_value x = pw_value w" by auto
  have "v = \<lparr>rp_writers = [\<lparr>pv_writer = pv_writer x, pv_value = pw_value w\<rparr>]\<rparr>"
    using x by (cases v; cases x) simp
  with Some \<open>pw_kind w = AK_set\<close> show ?thesis by (auto simp: shows_write_def)
qed

lemma assignment_at_built:
  assumes "builder_staged b" "length (ob_writes b) < 2 ^ 32" and x: "x = built_op H b d" and new: "\<not> contains_op g (o_id x)"
  shows "assignment_at (fst (graph_add g x)) (o_id x) p =
    (case staged_at b p of None \<Rightarrow> None | Some w \<Rightarrow> if emits d w then Some (as_assignment w) else None)"
proof -
  note be = built_entries_ok [OF assms(1,2)]
  have "value_ok (ob_metadata b)" using builder_staged_ok [OF assms(1)] by blast
  note dec = stamped_decodes [OF unique_parents_sorted_set(1) this be(1,2)]
  have s: "sorted_wrt (<) (map a_path (built_entries b d))" using be(1) by (simp add: assignments_ok_def)
  have "op_assignment_list x = Ok (built_entries b d)" using dec(3) by (simp add: x built_op_def)
  then have "op_writes (fst (graph_add g x)) (o_id x) = built_entries b d" by (simp add: op_writes_def graph_add_find [OF new])
  then have "assignment_at (fst (graph_add g x)) (o_id x) p = Some a \<longleftrightarrow>
      (\<exists>w. staged_at b p = Some w \<and> emits d w \<and> a = as_assignment w)" for a
    unfolding assignment_at_def by (auto simp: map_of_sorted_assignments [OF s] be(3) staged_at_Some [OF assms(1)])
  then show ?thesis
    by (cases "assignment_at (fst (graph_add g x)) (o_id x) p") (fastforce split: option.split)+
qed

lemma built_op_effect:
  assumes g: "graph_reachable g" "payloads_valid g" and b: "builder_staged b" "length (ob_writes b) < 2 ^ 32"
    and d: "current_document g (ob_parents b) [] d"
    and x: "x = built_op H b d" and new: "\<not> contains_op g (o_id x)"
    and E: "acyclic (history (fst (graph_add g x)))"
  shows "\<exists>d'. current_document (fst (graph_add g x)) [o_id x] [] d' \<and>
    (\<forall>p. shows_write (document_try_get d p) (document_try_get d' p) (staged_at b p))"
    and "payloads_valid (fst (graph_add g x))" "graph_ok (fst (graph_add g x))"
proof -
  let ?g = "fst (graph_add g x)"
  note be = built_entries_ok [OF b]
  have m: "value_ok (ob_metadata b)" using builder_staged_ok [OF b(1)] by blast
  have "payload_valid x" using stamped_decodes(2) [OF unique_parents_sorted_set(1) m be(1,2)] by (simp add: x built_op_def)
  then show pv: "payloads_valid ?g" by (rule payloads_valid_add [OF g(2)])
  show ok: "graph_ok ?g" by (rule graph_reachable_ok [OF reachable_add [OF g(1)]])
  have "set (o_parents x) = set (ob_parents b)" by (simp add: x built_op_def stamped_def unique_parents_sorted_set)
  with d have "current_document g (o_parents x) [] d" using current_document_heads by blast
  then have cur: "current_document ?g (o_parents x) [] d" by (simp add: current_document_add [OF new E])
  have find: "find_op ?g (o_id x) = Some x" by (simp add: graph_add_find [OF new])
  obtain d' where d': "current_document ?g [o_id x] [] d'" using materialize_current [OF ok pv E] by blast
  have ne: "\<And>p v. document_try_get d p = Some v \<Longrightarrow> rp_writers v \<noteq> []" using d by (simp add: current_document_def)
  have get: "document_try_get d' p = (case assignment_at ?g (o_id x) p of None \<Rightarrow> document_try_get d p
      | Some a \<Rightarrow> if is_abstain a then None else Some \<lparr>rp_writers = [\<lparr>pv_writer = o_id x, pv_value = a_value a\<rparr>]\<rparr>)" for p
    using d' unfolding current_document_top [OF E find cur] by simp
  have "shows_write (document_try_get d p) (document_try_get d' p) (staged_at b p)" for p
  proof (cases "staged_at b p")
    case None
    then show ?thesis by (simp add: get assignment_at_built [OF b x new] shows_write_def)
  next
    case (Some w)
    then have p: "p = pw_path w" using staged_at_Some [OF b(1)] by simp
    show ?thesis
    proof (cases "emits d w")
      case True
      then show ?thesis using Some by (auto simp: get assignment_at_built [OF b x new] shows_write_def)
    next
      case False
      then have "document_try_get d' p = document_try_get d p" using Some by (simp add: get assignment_at_built [OF b x new])
      then show ?thesis using not_emits_shows [OF False] ne Some p by simp
    qed
  qed
  with d' show "\<exists>d'. current_document ?g [o_id x] [] d' \<and>
    (\<forall>p. shows_write (document_try_get d p) (document_try_get d' p) (staged_at b p))" by blast
qed

lemma shown_not_emits:
  assumes "staged_at b (pw_path w) = Some w" "shows_write before (document_try_get d' (pw_path w)) (staged_at b (pw_path w))"
  shows "\<not> emits d' w"
  using assms by (cases "pw_kind w") (auto simp: shows_write_def emits_def)

subsection \<open>Properties\<close>

text \<open>
  C36. Staging a path twice is refused whatever the number of writes.  In every state a builder can reach, a write or a
  withdrawal is accepted exactly if its path has not been staged, and then appended as it is; the index the assertion
  switches to after sixteen writes gives the same answer as the scan.  A component that writes a reserved name is
  refused.
\<close>

theorem staging_exact:
  assumes "builder_staged b"
  shows "\<exists>s. set_raw path v b = (if path \<in> pw_path ` set (ob_writes b) then Fault
      else Ok (b\<lparr>ob_writes := ob_writes b @ [\<lparr>pw_path = path, pw_value = v, pw_kind = AK_set\<rparr>], ob_staged_paths := s\<rparr>)) \<and>
    stage_abstain path b = (if path \<in> pw_path ` set (ob_writes b) then Fault
      else Ok (b\<lparr>ob_writes := ob_writes b @ [\<lparr>pw_path = path, pw_value = of_null, pw_kind = AK_abstain\<rparr>], ob_staged_paths := s\<rparr>)) \<and>
    (is_reserved property \<longrightarrow> writer_set e c (property, v) b = Fault)"
  using builder_staged_ok [OF assms] assert_unstaged_spec [of b path]
  by (intro exI [of _ "if length (ob_writes b) < 16 then {} else insert path (pw_path ` set (ob_writes b))"])
    (simp add: set_raw_def stage_abstain_def stage_def writer_set_def check_def)

text \<open>
  C13. A built op is well formed and says exactly what changed.  On any valid acyclic history, building from any staged
  builder succeeds, no assertion fails, the parents are the given ones in ascending order without repetition, the op
  decodes under its own id (so a peer that does not trust the builder accepts it), and its assignments are, in
  ascending path order, exactly the staged writes that differ from the document at the parents: a withdrawal of a path
  that is present, a write to a path that is absent, multi-valued or holds other bytes.
\<close>

theorem build_correct:
  assumes "graph_reachable g" "payloads_valid g" "acyclic (parent_edges g (\<lambda>_. False))"
    and "builder_staged b" "length (ob_writes b) < 2 ^ 32"
  shows "\<exists>x d bs as. build_op H g b = Ok x \<and> materialize g (ob_parents b) = Ok d \<and>
    o_parents x = sorted_list_of_set (set (ob_parents b)) \<and>
    try_decode_op H (o_id x) (o_parents x) (ob_metadata b) bs = Ok x \<and>
    try_decode_assignments x = Ok as \<and> sorted_wrt (<) (map a_path as) \<and>
    set as = as_assignment ` {w \<in> set (ob_writes b). emits d w}"
proof -
  note g = graph_reachable_ok [OF assms(1)] assms(2,3)
  obtain d where d: "materialize g (ob_parents b) = Ok d" "current_document g (ob_parents b) [] d"
    using materialize_current [OF g] by (auto simp: materialize_is_entities)
  note be = built_entries_ok [OF assms(4,5), where d = d]
  have m: "value_ok (ob_metadata b)" using builder_staged_ok [OF assms(4)] by blast
  note dec = stamped_decodes [OF unique_parents_sorted_set(1) m be(1,2), of H "ob_parents b"]
  have ps: "unique_parents (ob_parents b) = sorted_list_of_set (set (ob_parents b))"
    using unique_parents_sorted_set [of "ob_parents b"]
    by (metis sorted_list_of_set.idem_if_sorted_distinct strict_sorted_iff)
  have sorted: "sorted_wrt (<) (map a_path (built_entries b d))" using be(1) by (simp add: assignments_ok_def)
  have "o_parents (built_op H b d) = unique_parents (ob_parents b)" by (simp add: built_op_def stamped_def)
  with dec(1,4) have x: "try_decode_op H (o_id (built_op H b d)) (o_parents (built_op H b d)) (ob_metadata b) (blob (built_entries b d)) =
      Ok (built_op H b d)" "try_decode_assignments (built_op H b d) = Ok (built_entries b d)"
    by (simp_all add: built_op_def)
  show ?thesis
    using build_op_spec(1) [OF g assms(4,5) d(2), of H] d(1) x sorted be(3) ps
    by (intro exI [of _ "built_op H b d"] exI [of _ d]) (auto simp: built_op_def stamped_def)
qed

text \<open>
  C35. A cache changes nothing about the op that is built: building through any cache filled on the history gives the
  op that building without one gives.
\<close>

theorem build_cache_transparent:
  assumes "graph_reachable g" "payloads_valid g" "acyclic (parent_edges g (\<lambda>_. False))" "cache_built slack g c"
    and "builder_staged b" "length (ob_writes b) < 2 ^ 32"
  shows "\<exists>x c'. build_op_cached H g c b = Ok (x, c') \<and> build_op H g b = Ok x"
proof -
  note g = graph_reachable_ok [OF assms(1)] assms(2,3)
  obtain d where "current_document g (ob_parents b) [] d" using materialize_current [OF g] by blast
  from build_op_spec(1) [OF g assms(5,6) this] build_op_spec(2) [OF g assms(5,6) this cache_built_ok [OF assms(4) g]]
  show ?thesis by blast
qed

text \<open>
  C2. Building and adding an op does what was staged.  Where the op's id is new and adding it makes no cycle, the
  document at the new op shows each staged value as the only value of its path, does not show withdrawn paths and shows
  every other path as the parents do.  Staging the same writes on top of it builds an op without assignments.
\<close>

theorem build_takes_effect:
  assumes "graph_reachable g" "payloads_valid g" "acyclic (parent_edges g (\<lambda>_. False))"
    and "builder_staged b" "length (ob_writes b) < 2 ^ 32" "build_op H g b = Ok x" "\<not> contains_op g (o_id x)"
    and "acyclic (parent_edges (fst (graph_add g x)) (\<lambda>_. False))"
  shows "\<exists>d d' y. materialize g (ob_parents b) = Ok d \<and> materialize (fst (graph_add g x)) [o_id x] = Ok d' \<and>
    (\<forall>p. shows_write (document_try_get d p) (document_try_get d' p) (staged_at b p)) \<and>
    build_op H (fst (graph_add g x)) (set_parents [o_id x] b) = Ok y \<and> try_decode_assignments y = Ok []"
proof -
  let ?g = "fst (graph_add g x)" and ?b = "set_parents [o_id x] b"
  note g = graph_reachable_ok [OF assms(1)] assms(2,3)
  obtain d where d: "materialize g (ob_parents b) = Ok d" "current_document g (ob_parents b) [] d"
    using materialize_current [OF g] by (auto simp: materialize_is_entities)
  have x: "x = built_op H b d" using build_op_spec(1) [OF g assms(4,5) d(2)] assms(6) by simp
  note eff = built_op_effect [OF assms(1,2,4,5) d(2) x assms(7,8)]
  obtain d' where d': "current_document ?g [o_id x] [] d'"
    "\<forall>p. shows_write (document_try_get d p) (document_try_get d' p) (staged_at b p)" using eff(1) by blast
  then have m': "materialize ?g [o_id x] = Ok d'"
    using current_iff_materialize [OF eff(3,2) assms(8)] by (simp add: materialize_is_entities)
  have b: "builder_staged ?b" "length (ob_writes ?b) < 2 ^ 32" "ob_writes ?b = ob_writes b" "ob_parents ?b = [o_id x]"
    using assms(4,5) by (simp_all add: staged_parents) (simp_all add: set_parents_def)
  have "\<not> emits d' w" if "w \<in> set (ob_writes b)" for w
    using shown_not_emits [of b w _ d'] d'(2) that staged_at_Some [OF assms(4), of "pw_path w" w] by blast
  then have "set (built_entries ?b d') = {}" unfolding built_entries_ok(3) [OF b(1,2)] b(3) by simp
  then have "built_entries ?b d' = []" by simp
  moreover have "try_decode_assignments (built_op H ?b d') = Ok (built_entries ?b d')"
    using stamped_decodes(4) [OF unique_parents_sorted_set(1) _ built_entries_ok(1,2) [OF b(1,2)]] builder_staged_ok [OF b(1)]
    by (simp add: built_op_def)
  moreover have "build_op H ?g ?b = Ok (built_op H ?b d')"
    using build_op_spec(1) [OF eff(3,2) assms(8) b(1,2)] d'(1) b(4) by simp
  ultimately show ?thesis using d(1) m' d'(2) by auto
qed

subsection \<open>Witnesses\<close>

text \<open>One write and one withdrawal on top of the small history; the hash is constant.\<close>

definition sample_edit :: op_builder where
  "sample_edit = (case rbind (set_raw (Property_path [97] [98] [100]) [1, 1] (set_parents [Op_id (Hash256 2 0 0 0)] new_op_builder))
     (stage_abstain (Property_path [97] [98] [99])) of Ok b \<Rightarrow> b | _ \<Rightarrow> new_op_builder)"

definition sample_hash :: "bytes \<Rightarrow> hash256" where
  "sample_hash b = Hash256 9 0 0 0"

lemma sample_edit_steps:
  "set_raw (Property_path [97] [98] [100]) [1, 1] (set_parents [Op_id (Hash256 2 0 0 0)] new_op_builder) =
     Ok \<lparr>ob_parents = [Op_id (Hash256 2 0 0 0)], ob_metadata = of_null,
       ob_writes = [\<lparr>pw_path = Property_path [97] [98] [100], pw_value = [1, 1], pw_kind = AK_set\<rparr>], ob_staged_paths = {}\<rparr>"
  "stage_abstain (Property_path [97] [98] [99]) \<lparr>ob_parents = [Op_id (Hash256 2 0 0 0)], ob_metadata = of_null,
       ob_writes = [\<lparr>pw_path = Property_path [97] [98] [100], pw_value = [1, 1], pw_kind = AK_set\<rparr>], ob_staged_paths = {}\<rparr> =
     Ok sample_edit"
  "sample_edit = \<lparr>ob_parents = [Op_id (Hash256 2 0 0 0)], ob_metadata = of_null,
       ob_writes = [\<lparr>pw_path = Property_path [97] [98] [100], pw_value = [1, 1], pw_kind = AK_set\<rparr>,
         \<lparr>pw_path = Property_path [97] [98] [99], pw_value = of_null, pw_kind = AK_abstain\<rparr>], ob_staged_paths = {}\<rparr>"
  by (simp_all add: sample_edit_def set_raw_def stage_abstain_def stage_def impl_assert_unstaged_def check_def set_parents_def
      new_op_builder_def)

lemma sample_path_ok: "path_ok (Property_path [97] [98] [99])" "path_ok (Property_path [97] [98] [100])"
  by (simp_all add: path_ok_def id_ok_def)

lemma value_ok_true: "value_ok [1, 1]"
  unfolding value_ok_def by (rule exI [of _ "VBool True"]) (simp add: max_depth_def)

lemma sample_edit_staged: "builder_staged sample_edit"
  using staged_abstain [OF staged_set [OF staged_parents [OF staged_new] sample_path_ok(2) value_ok_true sample_edit_steps(1)]
      sample_path_ok(1) sample_edit_steps(2)] .

lemma sample_edit_small: "length (ob_writes sample_edit) < 2 ^ 32"
  by (simp add: sample_edit_steps(3))

theorem staging_exact_witness:
  "set_raw (Property_path [97] [98] [99]) [0] sample_edit = Fault \<and> stage_abstain (Property_path [97] [98] [100]) sample_edit = Fault"
  using staging_exact [OF sample_edit_staged, of "Property_path [97] [98] [99]" "[0]"]
    staging_exact [OF sample_edit_staged, of "Property_path [97] [98] [100]"]
  by (simp add: sample_edit_steps(3))

theorem build_correct_witness:
  "\<exists>x. build_op sample_hash sample_graph sample_edit = Ok x \<and> o_parents x = [Op_id (Hash256 2 0 0 0)]"
  using build_correct [OF sample_graph_reachable sample_payloads_valid sample_acyclic sample_edit_staged sample_edit_small, of sample_hash]
  by (auto simp: sample_edit_steps(3))

theorem build_cache_transparent_witness:
  "\<exists>x c'. build_op_cached sample_hash sample_graph sample_cache sample_edit = Ok (x, c') \<and> build_op sample_hash sample_graph sample_edit = Ok x"
  by (rule build_cache_transparent [OF sample_graph_reachable sample_payloads_valid sample_acyclic sample_cache_built
        sample_edit_staged sample_edit_small])

lemma sample_history_add:
  assumes "o_id x = Op_id (Hash256 9 0 0 0)" "o_parents x = [Op_id (Hash256 2 0 0 0)]"
  shows "\<not> contains_op sample_graph (o_id x)" "acyclic (parent_edges (fst (graph_add sample_graph x)) (\<lambda>_. False))"
proof -
  show new: "\<not> contains_op sample_graph (o_id x)"
    by (simp add: assms contains_op_def find_op_def sample_graph_ops)
  have find: "find_op (fst (graph_add sample_graph x)) r =
      (if r = Op_id (Hash256 9 0 0 0) then Some x else if r = Op_id (Hash256 1 0 0 0) then Some sample_root
       else if r = Op_id (Hash256 2 0 0 0) then Some sample_child else None)" for r
    unfolding graph_add_find [OF new] by (simp add: assms find_op_def sample_graph_ops)
  have "parent_edges (fst (graph_add sample_graph x)) (\<lambda>_. False) =
      {(Op_id (Hash256 9 0 0 0), Op_id (Hash256 2 0 0 0)), (Op_id (Hash256 2 0 0 0), Op_id (Hash256 1 0 0 0))}"
    by (auto simp: parent_edges_def contains_op_def find assms sample_root_def sample_child_def split: if_splits)
  then show "acyclic (parent_edges (fst (graph_add sample_graph x)) (\<lambda>_. False))"
    by (simp add: acyclic_insert) (auto simp: acyclic_def rtrancl_insert)
qed

theorem build_takes_effect_witness:
  "\<exists>x d d'. build_op sample_hash sample_graph sample_edit = Ok x \<and>
    materialize (fst (graph_add sample_graph x)) [o_id x] = Ok d' \<and>
    shows_write (document_try_get d (Property_path [97] [98] [100])) (document_try_get d' (Property_path [97] [98] [100]))
      (Some \<lparr>pw_path = Property_path [97] [98] [100], pw_value = [1, 1], pw_kind = AK_set\<rparr>)"
proof -
  obtain d where d: "current_document sample_graph (ob_parents sample_edit) [] d"
    using materialize_current [OF graph_reachable_ok [OF sample_graph_reachable] sample_payloads_valid sample_acyclic] by blast
  let ?x = "built_op sample_hash sample_edit d"
  have "unique_parents [Op_id (Hash256 2 0 0 0)] = [Op_id (Hash256 2 0 0 0)]"
    using unique_parents_sorted_set [of "[Op_id (Hash256 2 0 0 0)]"]
      strict_sorted_equal [of "unique_parents [Op_id (Hash256 2 0 0 0)]" "[Op_id (Hash256 2 0 0 0)]"] by simp
  then have id: "o_id ?x = Op_id (Hash256 9 0 0 0)" "o_parents ?x = [Op_id (Hash256 2 0 0 0)]"
    by (simp_all add: built_op_def stamped_def compute_op_id_def sample_hash_def sample_edit_steps(3))
  have x: "build_op sample_hash sample_graph sample_edit = Ok ?x"
    using build_op_spec(1) [OF graph_reachable_ok [OF sample_graph_reachable] sample_payloads_valid sample_acyclic
        sample_edit_staged sample_edit_small d] .
  have at: "staged_at sample_edit (Property_path [97] [98] [100]) =
      Some \<lparr>pw_path = Property_path [97] [98] [100], pw_value = [1, 1], pw_kind = AK_set\<rparr>"
    by (simp add: staged_at_def sample_edit_steps(3))
  from build_takes_effect [OF sample_graph_reachable sample_payloads_valid sample_acyclic sample_edit_staged sample_edit_small x
      sample_history_add [OF id]] at x show ?thesis by metis
qed

end
