(* ===== verification/Component.thy ===== *)
theory Component
  imports Slots Op_Builder Search
begin

text \<open>
  What is known of a component type (component.hh/.cc): its schema and the registry of schemas.  The four entry points of
  a schema are addresses, null being 0: two schemas are equal if all their fields are, and what the code behind
  \<^verbatim>\<open>parse_into\<close> computes is a parameter of the interpretation.
\<close>

record component_schema =
  cs_type :: component_type_id
  cs_current_version :: "32 word"
  cs_type_key :: nat
  cs_component_size :: nat
  cs_component_align :: nat
  cs_parse_into :: nat
  cs_destroy_range :: nat
  cs_relocate_range :: nat
  cs_write :: nat

type_synonym component_registry = "component_schema list"

definition registry_try_get :: "component_registry \<Rightarrow> component_type_id \<Rightarrow> component_schema option checked" where
  "registry_try_get reg t =
     rbind (slot_find (map Some reg) (\<lambda>s. id_compare_bytes (cs_type s) t) 0 (length reg)) (\<lambda>at.
       case at of None \<Rightarrow> Ok None | Some i \<Rightarrow> rbind (vat reg i) (\<lambda>s. Ok (Some s)))"

definition registry_add :: "component_schema \<Rightarrow> component_registry \<Rightarrow> component_registry checked" where
  "registry_add schema reg =
     rbind (check (\<not> is_reserved (cs_type schema))) (\<lambda>_.
     rbind (check (cs_type schema \<noteq> [])) (\<lambda>_.
     rbind (registry_try_get reg (cs_type schema)) (\<lambda>existing.
       case existing of
         Some s \<Rightarrow> rbind (check (s = schema)) (\<lambda>_. Ok reg)
       | None \<Rightarrow> Ok (cc_sort (\<lambda>a b. id_compare_bytes (cs_type a) (cs_type b) < 0) (reg @ [schema])))))"

definition registry_merge :: "component_registry \<Rightarrow> component_registry \<Rightarrow> component_registry checked" where
  "registry_merge other reg = rfold registry_add other reg"

subsection \<open>Registries are sorted\<close>

definition registry_ok :: "component_registry \<Rightarrow> bool" where
  "registry_ok reg \<longleftrightarrow> sorted_wrt (<) (map cs_type reg) \<and> (\<forall>s \<in> set reg. \<not> is_reserved (cs_type s) \<and> cs_type s \<noteq> [])"

definition schema_of :: "component_registry \<Rightarrow> component_type_id \<Rightarrow> component_schema option" where
  "schema_of reg t = map_of (map (\<lambda>s. (cs_type s, s)) reg) t"

lemma schema_of_Some: "registry_ok reg \<Longrightarrow> schema_of reg t = Some s \<longleftrightarrow> s \<in> set reg \<and> cs_type s = t"
proof -
  assume "registry_ok reg"
  then have "distinct (map fst (map (\<lambda>s. (cs_type s, s)) reg))"
    by (simp add: registry_ok_def strict_sorted_iff comp_def)
  from map_of_eq_Some_iff [OF this, of t s] show ?thesis by (auto simp: schema_of_def)
qed

lemma schema_of_None: "schema_of reg t = None \<longleftrightarrow> t \<notin> cs_type ` set reg"
  by (auto simp: schema_of_def map_of_eq_None_iff image_image)

text \<open>Looking a key up in a sorted vector of objects.\<close>

lemma vector_find_spec:
  assumes srt: "sorted_wrt (<) (map f xs)"
    and ord: "\<And>v. ord v < (0 :: int) \<longleftrightarrow> f v < (k :: 'k::linorder)" "\<And>v. ord v = 0 \<longleftrightarrow> f v = k"
  shows "slot_find (map Some xs) ord 0 (length xs) =
    (Ok (if k \<in> f ` set xs then Some (before_key f k xs) else None) :: ('e, nat option) result)"
  by (rule slot_find_spec [OF _ srt ord]) (auto simp: starts_def)

lemma registry_try_get_eq:
  assumes ok: "registry_ok reg"
  shows "registry_try_get reg t = Ok (schema_of reg t)"
proof -
  have srt: "sorted_wrt (<) (map cs_type reg)" using ok by (simp add: registry_ok_def)
  have find: "slot_find (map Some reg) (\<lambda>s. id_compare_bytes (cs_type s) t) 0 (length reg) =
      (Ok (if t \<in> cs_type ` set reg then Some (before_key cs_type t reg) else None) :: nat option checked)"
    by (rule vector_find_spec [OF srt]) simp_all
  show ?thesis
  proof (cases "t \<in> cs_type ` set reg")
    case True
    note f = before_key_found [OF srt True]
    have "schema_of reg t = Some (reg ! before_key cs_type t reg)"
      using schema_of_Some [OF ok] f by (metis nth_mem)
    with True find f show ?thesis by (simp add: registry_try_get_def)
  next
    case False
    with find show ?thesis by (simp add: registry_try_get_def schema_of_None [THEN iffD2])
  qed
qed

lemma registry_add_spec:
  assumes ok: "registry_ok reg" and s: "\<not> is_reserved (cs_type s)" "cs_type s \<noteq> []"
  shows "schema_of reg (cs_type s) = None \<Longrightarrow> \<exists>reg'. registry_add s reg = Ok reg' \<and> registry_ok reg' \<and>
      schema_of reg' = (schema_of reg)(cs_type s \<mapsto> s)"
    and "schema_of reg (cs_type s) = Some s' \<Longrightarrow> registry_add s reg = (if s' = s then Ok reg else Fault)"
proof -
  note get = registry_try_get_eq [OF ok, of "cs_type s"]
  show "registry_add s reg = (if s' = s then Ok reg else Fault)" if "schema_of reg (cs_type s) = Some s'"
    using s that get by (auto simp: registry_add_def check_def)
  show "\<exists>reg'. registry_add s reg = Ok reg' \<and> registry_ok reg' \<and> schema_of reg' = (schema_of reg)(cs_type s \<mapsto> s)"
    if none: "schema_of reg (cs_type s) = None"
  proof -
    let ?r = "cc_sort (\<lambda>a b. cs_type a < cs_type b) (reg @ [s])"
    have "distinct (map cs_type (reg @ [s]))"
      using ok none by (auto simp: registry_ok_def strict_sorted_iff schema_of_None)
    from cc_sort_strict_sorted [OF this] have ok': "registry_ok ?r" using ok s by (auto simp: registry_ok_def)
    have "schema_of ?r t = Some s2 \<longleftrightarrow> ((schema_of reg)(cs_type s \<mapsto> s)) t = Some s2" for t s2
      using none by (auto simp: schema_of_Some [OF ok'] schema_of_Some [OF ok] schema_of_None) (metis image_eqI)
    then have "schema_of ?r t = ((schema_of reg)(cs_type s \<mapsto> s)) t" for t by (metis not_None_eq)
    then have "schema_of ?r = (schema_of reg)(cs_type s \<mapsto> s)" by (rule ext)
    with ok' get none s show ?thesis by (simp add: registry_add_def)
  qed
qed

end
