(* ===== verification/Arena.thy ===== *)
theory Arena
  imports Vectors
begin

text \<open>
  \<^verbatim>\<open>impl::document_arena\<close> (impl/document_arena.hh): the bump allocator a typed document lives in.  An address is a
  natural number; what the system allocator returns for a new block, its address and its actual size, is the
  parameter \<open>sys\<close>, a function of the blocks there are and the size asked for.
\<close>

record arena_block =
  ab_data :: nat
  ab_size :: nat
  ab_used :: nat

record document_arena =
  da_blocks :: "arena_block list"
  da_next_block_size :: nat
  da_allocated_bytes :: int
  da_dead_bytes :: int

definition new_arena :: document_arena where
  "new_arena = \<lparr>da_blocks = [], da_next_block_size = 16 * 1024, da_allocated_bytes = 0, da_dead_bytes = 0\<rparr>"

definition align_up :: "nat \<Rightarrow> nat \<Rightarrow> nat" where
  "align_up v alignment = nat ((int v + int alignment - 1) AND NOT (int alignment - 1))"

definition add_block :: "(arena_block list \<Rightarrow> nat \<Rightarrow> nat \<times> nat) \<Rightarrow> nat \<Rightarrow> document_arena \<Rightarrow> document_arena" where
  "add_block sys n a =
     (case sys (da_blocks a) n of (data, actual) \<Rightarrow>
        a\<lparr>da_blocks := da_blocks a @ [\<lparr>ab_data = data, ab_size = actual, ab_used = 0\<rparr>]\<rparr>)"

definition bump :: "nat \<Rightarrow> nat \<Rightarrow> document_arena \<Rightarrow> (nat option \<times> document_arena) checked" where
  "bump bytes alignment a =
     (let i = length (da_blocks a) - 1 in
      rbind (vat (da_blocks a) i) (\<lambda>b.
        (let aligned = align_up (ab_used b) alignment in
         Ok (Some (ab_data b + aligned), a\<lparr>da_blocks := (da_blocks a)[i := b\<lparr>ab_used := aligned + bytes\<rparr>]\<rparr>))))"

definition arena_allocate ::
  "(arena_block list \<Rightarrow> nat \<Rightarrow> nat \<times> nat) \<Rightarrow> nat \<Rightarrow> nat \<Rightarrow> document_arena \<Rightarrow> (nat option \<times> document_arena) checked" where
  "arena_allocate sys bytes alignment a =
     rbind (check (alignment > 0)) (\<lambda>_.
       if bytes = 0 then Ok (None, a)
       else
         (let a = a\<lparr>da_allocated_bytes := da_allocated_bytes a + int bytes\<rparr> in
          if da_blocks a \<noteq> [] \<and>
             align_up (ab_used (last (da_blocks a))) alignment + bytes \<le> ab_size (last (da_blocks a))
          then bump bytes alignment a
          else
            (let next = (if da_next_block_size a < bytes + alignment then bytes + alignment else da_next_block_size a);
                 a = add_block sys next a;
                 a = a\<lparr>da_next_block_size := next * 2\<rparr> in
             bump bytes alignment a)))"

definition note_dead :: "nat \<Rightarrow> document_arena \<Rightarrow> document_arena" where
  "note_dead bytes a = a\<lparr>da_dead_bytes := da_dead_bytes a + int bytes\<rparr>"

definition arena_live_bytes :: "document_arena \<Rightarrow> int" where
  "arena_live_bytes a = da_allocated_bytes a - da_dead_bytes a"

subsection \<open>Rounding up\<close>

lemma align_up_eq: "align_up v (2 ^ k) = (v + 2 ^ k - 1) div 2 ^ k * 2 ^ k"
proof -
  have m: "int (2 ^ k) - 1 = mask k" by (simp add: mask_eq_exp_minus_1)
  let ?x = "int v + int (2 ^ k) - 1"
  have "1 \<le> v + 2 ^ k" by (metis one_le_numeral one_le_power le_add2 order_trans)
  then have x: "?x = int (v + 2 ^ k - 1)" by (simp only: of_nat_diff of_nat_add of_nat_1)
  have "?x AND NOT (mask k) = push_bit k (drop_bit k ?x)" by (rule bit_eqI) (auto simp: bit_simps)
  also have "\<dots> = ?x div 2 ^ k * 2 ^ k" by (simp add: push_bit_eq_mult drop_bit_eq_div)
  also have "\<dots> = int ((v + 2 ^ k - 1) div 2 ^ k * 2 ^ k)" unfolding x by (simp add: zdiv_int)
  finally show ?thesis unfolding align_up_def m by (simp only: nat_int)
qed

lemma align_up_least:
  "2 ^ k dvd align_up v (2 ^ k)" "v \<le> align_up v (2 ^ k)" "align_up v (2 ^ k) < v + 2 ^ k"
proof -
  let ?p = "2 ^ k :: nat"
  have p: "0 < ?p" by simp
  show "?p dvd align_up v ?p" by (simp add: align_up_eq)
  have "(v + ?p - 1) div ?p * ?p + (v + ?p - 1) mod ?p = v + ?p - 1" by (rule div_mult_mod_eq)
  moreover have "(v + ?p - 1) mod ?p < ?p" using p by simp
  ultimately show "v \<le> align_up v ?p" "align_up v ?p < v + ?p" unfolding align_up_eq using p by linarith+
qed

subsection \<open>What the arena hands out\<close>

text \<open>The system allocator returns 16-aligned memory, at least as much as asked for, apart from every block in use.\<close>

definition apart :: "nat \<times> nat \<Rightarrow> nat \<times> nat \<Rightarrow> bool" where
  "apart x y \<longleftrightarrow> fst x + snd x \<le> fst y \<or> fst y + snd y \<le> fst x"

definition system_ok :: "(arena_block list \<Rightarrow> nat \<Rightarrow> nat \<times> nat) \<Rightarrow> bool" where
  "system_ok sys \<longleftrightarrow> (\<forall>bs n. 16 dvd fst (sys bs n) \<and> n \<le> snd (sys bs n) \<and>
     (\<forall>b \<in> set bs. apart (sys bs n) (ab_data b, ab_size b)))"

text \<open>Everything handed out so far, as address, size and alignment.\<close>

inductive arena_history ::
  "(arena_block list \<Rightarrow> nat \<Rightarrow> nat \<times> nat) \<Rightarrow> document_arena \<Rightarrow> (nat \<times> nat \<times> nat) list \<Rightarrow> bool" for sys where
  arena_new: "arena_history sys new_arena []"
| arena_dead: "arena_history sys a hs \<Longrightarrow> arena_history sys (note_dead n a) hs"
| arena_empty: "arena_history sys a hs \<Longrightarrow> arena_allocate sys n al a = Ok (None, a') \<Longrightarrow> arena_history sys a' hs"
| arena_given: "arena_history sys a hs \<Longrightarrow> al = 2 ^ k \<Longrightarrow> arena_allocate sys n al a = Ok (Some p, a') \<Longrightarrow>
    arena_history sys a' (hs @ [(p, n, al)])"

definition block_range :: "arena_block \<Rightarrow> nat \<times> nat" where
  "block_range b = (ab_data b, ab_size b)"

definition within :: "nat \<times> nat \<times> nat \<Rightarrow> arena_block \<Rightarrow> bool" where
  "within h b \<longleftrightarrow> ab_data b \<le> fst h \<and> fst h + fst (snd h) \<le> ab_data b + ab_used b \<and> snd (snd h) dvd fst h - ab_data b"

definition arena_ok :: "document_arena \<Rightarrow> (nat \<times> nat \<times> nat) list \<Rightarrow> bool" where
  "arena_ok a hs \<longleftrightarrow>
     (\<forall>b \<in> set (da_blocks a). ab_used b \<le> ab_size b \<and> 16 dvd ab_data b) \<and>
     sorted_wrt apart (map block_range (da_blocks a)) \<and>
     (\<forall>h \<in> set hs. \<exists>b \<in> set (da_blocks a). within h b) \<and>
     sorted_wrt (\<lambda>x y. apart (fst x, fst (snd x)) (fst y, fst (snd y))) hs \<and>
     da_allocated_bytes a = int (sum_list (map (fst \<circ> snd) hs))"

lemma apart_sym: "apart x y \<longleftrightarrow> apart y x"
  by (auto simp: apart_def)

lemma apart_within: "apart (block_range b) (block_range c) \<Longrightarrow> within h b \<Longrightarrow> ab_used b \<le> ab_size b \<Longrightarrow>
    ab_data c \<le> p \<Longrightarrow> p + n \<le> ab_data c + ab_size c \<Longrightarrow> apart (fst h, fst (snd h)) (p, n)"
  by (auto simp: apart_def block_range_def within_def)

text \<open>Taking \<open>n\<close> bytes from the last block.\<close>

lemma bump_ok:
  assumes ok: "arena_ok (a\<lparr>da_allocated_bytes := da_allocated_bytes a - int n\<rparr>) hs" and bs: "da_blocks a = bs @ [b]"
    and fits: "align_up (ab_used b) (2 ^ k) + n \<le> ab_size b"
  shows "\<exists>p a'. bump n (2 ^ k) a = Ok (Some p, a') \<and> arena_ok a' (hs @ [(p, n, 2 ^ k)])"
proof -
  let ?al = "align_up (ab_used b) (2 ^ k)"
  let ?b = "b\<lparr>ab_used := ?al + n\<rparr>" and ?p = "ab_data b + ?al"
  have blocks: "\<forall>b \<in> set (bs @ [b]). ab_used b \<le> ab_size b \<and> 16 dvd ab_data b" "sorted_wrt apart (map block_range (bs @ [b]))"
    "\<forall>h \<in> set hs. \<exists>b \<in> set (bs @ [b]). within h b" "da_allocated_bytes a = int (sum_list (map (fst \<circ> snd) hs)) + int n"
    using ok by (simp_all add: arena_ok_def bs)
  have range: "block_range ?b = block_range b" by (simp add: block_range_def)
  have grow: "within h ?b" if "within h b" for h using that align_up_least(2) [of "ab_used b" k] by (simp add: within_def)
  have new: "apart (fst h, fst (snd h)) (?p, n)" if "h \<in> set hs" for h
  proof -
    from blocks(3) that obtain c where c: "c \<in> set (bs @ [b])" "within h c" by blast
    show ?thesis
    proof (cases "c \<in> set bs")
      case True
      then have "apart (block_range c) (block_range b)" using blocks(2) by (auto simp: sorted_wrt_append)
      then show ?thesis using apart_within [OF _ c(2)] blocks(1) True fits by auto
    next
      case False
      then show ?thesis using c align_up_least(2) [of "ab_used b" k] by (auto simp: apart_def within_def)
    qed
  qed
  let ?a = "a\<lparr>da_blocks := bs @ [?b]\<rparr>"
  have "bump n (2 ^ k) a = Ok (Some ?p, ?a)" by (simp add: bump_def bs Let_def)
  moreover have "\<exists>c \<in> set (bs @ [?b]). within h c" if "h \<in> set (hs @ [(?p, n, 2 ^ k)])" for h
    using that blocks(3) grow align_up_least(1) [of k "ab_used b"] by (auto simp: within_def)
  then have "arena_ok ?a (hs @ [(?p, n, 2 ^ k)])"
    using ok new fits blocks(1,2,4) unfolding arena_ok_def by (simp add: bs range sorted_wrt_append)
  ultimately show ?thesis by blast
qed

lemma arena_allocate_ok:
  assumes sys: "system_ok sys" and ok: "arena_ok a hs" and n: "n > 0"
  shows "\<exists>p a'. arena_allocate sys n (2 ^ k) a = Ok (Some p, a') \<and> arena_ok a' (hs @ [(p, n, 2 ^ k)])"
proof -
  let ?a = "a\<lparr>da_allocated_bytes := da_allocated_bytes a + int n\<rparr>"
  let ?last = "last (da_blocks a)"
  show ?thesis
  proof (cases "da_blocks a \<noteq> [] \<and> align_up (ab_used ?last) (2 ^ k) + n \<le> ab_size ?last")
    case True
    then have "da_blocks ?a = butlast (da_blocks a) @ [?last]" by simp
    from bump_ok [OF _ this, of n hs k] True ok n show ?thesis
      by (auto simp: arena_allocate_def check_def Let_def arena_ok_def)
  next
    case False
    define next' where "next' = (if da_next_block_size a < n + 2 ^ k then n + 2 ^ k else da_next_block_size a)"
    obtain d m where dm: "sys (da_blocks a) next' = (d, m)" by (cases "sys (da_blocks a) next'")
    have s: "16 dvd d" "next' \<le> m" "\<forall>b \<in> set (da_blocks a). apart (d, m) (ab_data b, ab_size b)"
      using sys dm unfolding system_ok_def by (metis fst_conv snd_conv)+
    let ?b = "\<lparr>ab_data = d, ab_size = m, ab_used = 0\<rparr>"
    let ?c = "?a\<lparr>da_blocks := da_blocks a @ [?b], da_next_block_size := next' * 2\<rparr>"
    have fits: "align_up (ab_used ?b) (2 ^ k) + n \<le> ab_size ?b"
      using s(2) align_up_least(3) [of 0 k] by (simp add: next'_def split: if_splits)
    have "arena_ok (?c\<lparr>da_allocated_bytes := da_allocated_bytes ?c - int n\<rparr>) hs"
      using ok s(1,3) by (auto simp: arena_ok_def sorted_wrt_append block_range_def apart_sym [of "(d, m)"])
    from bump_ok [OF this _ fits] obtain p a' where "bump n (2 ^ k) ?c = Ok (Some p, a')" "arena_ok a' (hs @ [(p, n, 2 ^ k)])"
      by auto
    moreover have "arena_allocate sys n (2 ^ k) a = bump n (2 ^ k) ?c"
    proof -
      have "arena_allocate sys n (2 ^ k) a =
          (if da_blocks a \<noteq> [] \<and> align_up (ab_used ?last) (2 ^ k) + n \<le> ab_size ?last then bump n (2 ^ k) ?a
           else bump n (2 ^ k) ((add_block sys next' ?a)\<lparr>da_next_block_size := next' * 2\<rparr>))"
        using n by (simp add: arena_allocate_def check_def Let_def next'_def split del: if_split cong: if_cong)
      moreover have "(add_block sys next' ?a)\<lparr>da_next_block_size := next' * 2\<rparr> = ?c" by (simp add: add_block_def dm)
      ultimately show ?thesis by (simp only: if_not_P [OF False])
    qed
    ultimately show ?thesis by auto
  qed
qed

lemma arena_allocate_None: "arena_allocate sys n al a = Ok (None, a') \<longleftrightarrow> al > 0 \<and> n = 0 \<and> a' = a"
  by (auto simp: arena_allocate_def bump_def check_def Let_def result_simps)

lemma arena_history_ok:
  assumes "arena_history sys a hs" "system_ok sys"
  shows "arena_ok a hs"
  using assms
proof (induction rule: arena_history.induct)
  case arena_new
  then show ?case by (simp add: arena_ok_def new_arena_def)
next
  case (arena_dead a hs n)
  then show ?case by (simp add: arena_ok_def note_dead_def)
next
  case (arena_empty a hs n al a')
  then show ?case by (simp add: arena_allocate_None)
next
  case (arena_given a hs al k n p a')
  then have "n > 0" using arena_allocate_None [of sys n al a] by (cases n) (auto simp: arena_allocate_def check_def)
  from arena_allocate_ok [OF arena_given.prems arena_given.IH [OF arena_given.prems] this, of k] arena_given.hyps
  show ?case by auto
qed

text \<open>
  C37. Allocations of a document never overlap.  Over a system allocator that returns fresh 16-aligned memory, every
  address the arena handed out lies in one of its blocks, at an offset that is a multiple of the alignment asked for,
  whatever power of two that is, and so is the address itself where the alignment divides 16; no two of the ranges
  overlap, the byte count is the sum of the requests, and the next request of any size never faults: it gets no address
  if it asks for no bytes and an address otherwise.
\<close>

theorem arena_disjoint:
  assumes "system_ok sys" "arena_history sys a hs"
  shows "(\<forall>i j. i < j \<longrightarrow> j < length hs \<longrightarrow> apart (fst (hs ! i), fst (snd (hs ! i))) (fst (hs ! j), fst (snd (hs ! j)))) \<and>
    (\<forall>(p, n, al) \<in> set hs. (\<exists>b \<in> set (da_blocks a). ab_data b \<le> p \<and> p + n \<le> ab_data b + ab_size b \<and> al dvd p - ab_data b) \<and>
       (al dvd 16 \<longrightarrow> al dvd p)) \<and>
    da_allocated_bytes a = int (sum_list (map (fst \<circ> snd) hs)) \<and>
    (\<exists>r. arena_allocate sys n (2 ^ k) a = Ok r \<and> (fst r = None \<longleftrightarrow> n = 0))"
proof -
  note ok = arena_history_ok [OF assms(2,1)]
  have "(\<exists>b \<in> set (da_blocks a). ab_data b \<le> p \<and> p + m \<le> ab_data b + ab_size b \<and> al dvd p - ab_data b) \<and> (al dvd 16 \<longrightarrow> al dvd p)"
    if h: "(p, m, al) \<in> set hs" for p m al
  proof -
    obtain b where b: "b \<in> set (da_blocks a)" "ab_used b \<le> ab_size b" "16 dvd ab_data b" "ab_data b \<le> p"
      "p + m \<le> ab_data b + ab_used b" "al dvd p - ab_data b"
      using ok h unfolding arena_ok_def within_def by fastforce
    have "al dvd p" if "al dvd 16" using dvd_trans [OF that b(3)] b(4,6) by (metis dvd_diffD)
    with b show ?thesis by (auto intro!: bexI [of _ b])
  qed
  moreover have "\<exists>r. arena_allocate sys n (2 ^ k) a = Ok r \<and> (fst r = None \<longleftrightarrow> n = 0)"
    using arena_allocate_ok [OF assms(1) ok, of n k] arena_allocate_None [of sys 0 "2 ^ k" a a] by (cases "n = 0") auto
  ultimately show ?thesis
    using ok unfolding arena_ok_def by (auto simp: sorted_wrt_iff_nth_less)
qed

definition sample_system :: "arena_block list \<Rightarrow> nat \<Rightarrow> nat \<times> nat" where
  "sample_system bs n = (16 * (1 + sum_list (map (\<lambda>b. ab_data b + ab_size b) bs)), n)"

lemma sample_system_ok: "system_ok sample_system"
proof -
  have "ab_data b + ab_size b \<le> sum_list (map (\<lambda>b. ab_data b + ab_size b) bs)" if "b \<in> set bs" for b bs
    using that by (intro member_le_sum_list) simp_all
  then show ?thesis by (fastforce simp: system_ok_def sample_system_def apart_def)
qed

text \<open>Five bytes, then eight at an alignment of 8 in the same block, then twenty at one of 32.\<close>

definition sample_arena :: document_arena where
  "sample_arena = \<lparr>da_blocks = [\<lparr>ab_data = 16, ab_size = 16384, ab_used = 52\<rparr>],
     da_next_block_size = 32768, da_allocated_bytes = 33, da_dead_bytes = 0\<rparr>"

lemma sample_arena_history: "arena_history sample_system sample_arena [(16, 5, 1), (24, 8, 8), (48, 20, 32)]"
proof -
  define a1 where "a1 = \<lparr>da_blocks = [\<lparr>ab_data = 16, ab_size = 16384, ab_used = 5\<rparr>],
    da_next_block_size = 32768, da_allocated_bytes = 5, da_dead_bytes = 0\<rparr>"
  define a2 where "a2 = \<lparr>da_blocks = [\<lparr>ab_data = 16, ab_size = 16384, ab_used = 16\<rparr>],
    da_next_block_size = 32768, da_allocated_bytes = 13, da_dead_bytes = 0\<rparr>"
  have "align_up 0 1 = 0" "align_up 5 8 = 8" "align_up 16 32 = 32"
    using align_up_eq [of 0 0] align_up_eq [of 5 3] align_up_eq [of 16 5] by simp_all
  then have "arena_allocate sample_system 5 1 new_arena = Ok (Some 16, a1)"
    "arena_allocate sample_system 8 8 a1 = Ok (Some 24, a2)" "arena_allocate sample_system 20 32 a2 = Ok (Some 48, sample_arena)"
    by (simp_all add: arena_allocate_def check_def Let_def new_arena_def add_block_def bump_def sample_system_def a1_def a2_def sample_arena_def)
  note allocs = this
  have "arena_history sample_system a1 ([] @ [(16, 5, 1)])" by (rule arena_given [OF arena_new _ allocs(1), of 0]) simp
  from arena_given [OF this _ allocs(2), of 3] have "arena_history sample_system a2 (([] @ [(16, 5, 1)]) @ [(24, 8, 8)])" by simp
  from arena_given [OF this _ allocs(3), of 5] show ?thesis by simp
qed

theorem arena_disjoint_witness:
  "apart (16, 5) (24, 8) \<and> apart (24, 8) (48, 20) \<and>
   (\<exists>b \<in> set (da_blocks sample_arena). ab_data b \<le> 48 \<and> 48 + 20 \<le> ab_data b + ab_size b \<and> 32 dvd 48 - ab_data b) \<and> (8 :: nat) dvd 24"
proof -
  let ?hs = "[(16, 5, 1), (24, 8, 8), (48, 20, 32)] :: (nat \<times> nat \<times> nat) list"
  have all: "(\<forall>i j. i < j \<longrightarrow> j < length ?hs \<longrightarrow> apart (fst (?hs ! i), fst (snd (?hs ! i))) (fst (?hs ! j), fst (snd (?hs ! j))))"
    "\<forall>(p, n, al) \<in> set ?hs. (\<exists>b \<in> set (da_blocks sample_arena). ab_data b \<le> p \<and> p + n \<le> ab_data b + ab_size b \<and> al dvd p - ab_data b) \<and>
       (al dvd 16 \<longrightarrow> al dvd p)"
    by (rule arena_disjoint [OF sample_system_ok sample_arena_history, THEN conjunct1]
        arena_disjoint [OF sample_system_ok sample_arena_history, THEN conjunct2, THEN conjunct1])+
  have "(24, 8, 8) \<in> set ?hs" "(48, 20, 32) \<in> set ?hs" by simp_all
  with all(2) have "(8 :: nat) dvd 16 \<longrightarrow> (8 :: nat) dvd 24"
    "\<exists>b \<in> set (da_blocks sample_arena). ab_data b \<le> 48 \<and> 48 + 20 \<le> ab_data b + ab_size b \<and> 32 dvd 48 - ab_data b"
    by fastforce+
  moreover have "apart (16, 5) (24, 8)" "apart (24, 8) (48, 20)"
    using all(1) [rule_format, of 0 1] all(1) [rule_format, of 1 2] by simp_all
  ultimately show ?thesis by simp
qed

text \<open>
  A block is only 16-aligned, and the offset rather than the address is rounded up: a component type aligned to 32 is
  handed a misaligned slot.
\<close>

lemma arena_misaligns_overaligned:
  "\<exists>a. arena_allocate sample_system 8 32 new_arena = Ok (Some 16, a)" "\<not> (32 :: nat) dvd 16"
  using align_up_eq [of 0 5] by (simp_all add: arena_allocate_def check_def Let_def new_arena_def add_block_def bump_def sample_system_def)

text \<open>
  An oversized request gets a block of its own size, and the doubling continues from that size: after one request of a
  megabyte the next block is two.
\<close>

lemma arena_oversized_doubles:
  "\<exists>p a. arena_allocate sample_system (2 ^ 20) 1 new_arena = Ok (Some p, a) \<and> da_next_block_size a = 2 * (2 ^ 20 + 1)"
  using align_up_eq [of 0 0] by (simp add: arena_allocate_def check_def Let_def new_arena_def add_block_def bump_def sample_system_def)

end
