(* ===== verification/Typed_Document.thy ===== *)
theory Typed_Document
  imports Component Arena
begin

text \<open>
  The typed document (document.hh/.cc): a sorted entity table and one dense column per component type, two parallel
  arrays sorted by entity, with the parser that fills a document.  A component of any type is an element of \<open>'c\<close>; the
  arrays are slots, so constructing and destroying components is checked.  A null array is the empty array.
\<close>

record 'c component_column =
  cc_schema :: component_schema
  cc_entities :: "entity_id slots"
  cc_components :: "'c slots"
  cc_count :: nat
  cc_capacity :: nat

record 'c document =
  td_arena :: "document_arena option"
  td_entities :: "entity_id slots"
  td_entity_count :: nat
  td_entity_capacity :: nat
  td_columns :: "'c component_column list"

type_synonym system = "arena_block list \<Rightarrow> nat \<Rightarrow> nat \<times> nat"

text \<open>An entity id is a handle of 8 bytes.\<close>

abbreviation (input) "entity_id_size \<equiv> 8 :: nat"
abbreviation (input) "entity_id_align \<equiv> 8 :: nat"

abbreviation (input) "column_type c \<equiv> cs_type (cc_schema c)"

definition empty_document :: "'c document" where
  "empty_document = \<lparr>td_arena = None, td_entities = [], td_entity_count = 0, td_entity_capacity = 0, td_columns = []\<rparr>"

subsection \<open>Queries\<close>

definition column_index_of :: "'c component_column \<Rightarrow> entity_id \<Rightarrow> nat option checked" where
  "column_index_of c e = slot_find (cc_entities c) (\<lambda>v. id_compare_bytes v e) 0 (cc_count c)"

definition doc_contains :: "'c document \<Rightarrow> entity_id \<Rightarrow> bool checked" where
  "doc_contains d e =
     rbind (slot_find (td_entities d) (\<lambda>v. id_compare_bytes v e) 0 (td_entity_count d)) (\<lambda>at. Ok (at \<noteq> None))"

definition component_types :: "'c document \<Rightarrow> component_type_id list" where
  "component_types d = map (\<lambda>c. column_type c) (td_columns d)"

definition try_find_column :: "'c document \<Rightarrow> component_type_id \<Rightarrow> 'c component_column option checked" where
  "try_find_column d t =
     rbind (slot_find (map Some (td_columns d)) (\<lambda>c. id_compare_bytes (column_type c) t) 0 (length (td_columns d))) (\<lambda>at.
       case at of None \<Rightarrow> Ok None | Some i \<Rightarrow> rbind (vat (td_columns d) i) (\<lambda>c. Ok (Some c)))"

definition has_component :: "'c document \<Rightarrow> component_type_id \<Rightarrow> entity_id \<Rightarrow> bool checked" where
  "has_component d t e =
     rbind (try_find_column d t) (\<lambda>c. case c of
       None \<Rightarrow> Ok False | Some c \<Rightarrow> rbind (column_index_of c e) (\<lambda>i. Ok (i \<noteq> None)))"

definition count_of :: "'c document \<Rightarrow> component_type_id \<Rightarrow> nat checked" where
  "count_of d t = rbind (try_find_column d t) (\<lambda>c. Ok (case c of None \<Rightarrow> 0 | Some c \<Rightarrow> cc_count c))"

text \<open>\<^verbatim>\<open>document::get\<close> for the C++ type with type name \<open>t\<close> and type key \<open>key\<close>.\<close>

definition doc_get :: "'c document \<Rightarrow> component_type_id \<Rightarrow> nat \<Rightarrow> entity_id \<Rightarrow> 'c option checked" where
  "doc_get d t key e =
     rbind (try_find_column d t) (\<lambda>c. case c of
       None \<Rightarrow> Ok None
     | Some c \<Rightarrow>
         rbind (check (cs_type_key (cc_schema c) = key)) (\<lambda>_.
         rbind (column_index_of c e) (\<lambda>i. case i of
           None \<Rightarrow> Ok None
         | Some i \<Rightarrow> rbind (slot_read (cc_components c) i) (\<lambda>v. Ok (Some v)))))"

subsection \<open>Lifetime\<close>

text \<open>
  Besides the document it leaves, destroying gives the columns as they are left in the document's arena, so that what was
  destroyed and what was not can be told.
\<close>

definition destroy_column :: "'c component_column \<Rightarrow> 'c component_column checked" where
  "destroy_column c =
     (if cc_count c > 0 then rbind (destroy_range (cc_components c) 0 (cc_count c)) (\<lambda>slots. Ok (c\<lparr>cc_components := slots\<rparr>))
      else Ok c)"

definition destroy_components :: "'c document \<Rightarrow> ('c document \<times> 'c component_column list) checked" where
  "destroy_components d =
     rbind (rfold (\<lambda>c left. rbind (destroy_column c) (\<lambda>c. Ok (left @ [c]))) (td_columns d) [])
       (\<lambda>left. Ok (d\<lparr>td_columns := [], td_entities := [], td_entity_count := 0, td_entity_capacity := 0\<rparr>, left))"

text \<open>A moved-from document is empty; assignment destroys what the target held.\<close>

definition move_document :: "'c document \<Rightarrow> 'c document \<times> 'c document" where
  "move_document d = (d, empty_document)"

definition move_assign :: "'c document \<Rightarrow> 'c document \<Rightarrow> ('c document \<times> 'c document \<times> 'c component_column list) checked" where
  "move_assign d rhs = rbind (destroy_components d) (\<lambda>(_, left). Ok (rhs, empty_document, left))"

subsection \<open>The parser\<close>

record 'c doc_parser =
  dp_doc :: "'c document"
  dp_open_column :: "nat option"
  dp_open_capacity :: nat

definition new_parser :: "'c doc_parser" where
  "new_parser = \<lparr>dp_doc = empty_document\<lparr>td_arena := Some new_arena\<rparr>, dp_open_column = None, dp_open_capacity = 0\<rparr>"

definition doc_allocate :: "system \<Rightarrow> nat \<Rightarrow> nat \<Rightarrow> 'c document \<Rightarrow> 'c document checked" where
  "doc_allocate sys n al d =
     (case td_arena d of
        None \<Rightarrow> Fault
      | Some a \<Rightarrow> rbind (arena_allocate sys n al a) (\<lambda>(_, a). Ok (d\<lparr>td_arena := Some a\<rparr>)))"

definition parser_set_entities :: "system \<Rightarrow> entity_id list \<Rightarrow> 'c doc_parser \<Rightarrow> 'c doc_parser checked" where
  "parser_set_entities sys es p =
     rbind (check (td_entities (dp_doc p) = [])) (\<lambda>_.
     rbind (doc_allocate sys (length es * entity_id_size) entity_id_align (dp_doc p)) (\<lambda>d.
     rbind (rfold (\<lambda>i storage.
         rbind (check (i = 0 \<or> id_compare_bytes (es ! (i - 1)) (es ! i) < 0)) (\<lambda>_. slot_write storage i (es ! i)))
       [0..<length es] (replicate (length es) None)) (\<lambda>storage.
     Ok (p\<lparr>dp_doc := d\<lparr>td_entities := storage, td_entity_count := length es, td_entity_capacity := length es\<rparr>\<rparr>))))"

definition begin_column :: "system \<Rightarrow> component_schema \<Rightarrow> nat \<Rightarrow> 'c doc_parser \<Rightarrow> 'c doc_parser checked" where
  "begin_column sys schema capacity p =
     rbind (check (dp_open_column p = None)) (\<lambda>_.
     rbind (check (capacity > 0)) (\<lambda>_.
     rbind (check (td_columns (dp_doc p) = [] \<or>
              id_compare_bytes (column_type (last (td_columns (dp_doc p)))) (cs_type schema) < 0)) (\<lambda>_.
     rbind (doc_allocate sys (capacity * entity_id_size) entity_id_align (dp_doc p)) (\<lambda>d.
     rbind (doc_allocate sys (capacity * cs_component_size schema) (cs_component_align schema) d) (\<lambda>d.
     Ok (p\<lparr>dp_doc := d\<lparr>td_columns := td_columns d @ [\<lparr>cc_schema = schema, cc_entities = replicate capacity None,
             cc_components = replicate capacity None, cc_count = 0, cc_capacity = capacity\<rparr>]\<rparr>,
           dp_open_column := Some (length (td_columns d)), dp_open_capacity := capacity\<rparr>))))))"

text \<open>
  \<open>construct\<close> runs on an environment \<open>s\<close>, the report a parse appends to, and returns the component it built in the slot, if
  any.  The open entity array of the source is the open column's.
\<close>

definition push_component ::
  "entity_id \<Rightarrow> ('s \<Rightarrow> ('c option \<times> 's) checked) \<Rightarrow> 'c doc_parser \<times> 's \<Rightarrow> (bool \<times> 'c doc_parser \<times> 's) checked" where
  "push_component e construct ps =
     (case ps of (p, s) \<Rightarrow>
        (case dp_open_column p of
           None \<Rightarrow> Fault
         | Some i \<Rightarrow>
             rbind (vat (td_columns (dp_doc p)) i) (\<lambda>c.
             rbind (check (cc_count c < dp_open_capacity p)) (\<lambda>_.
             rbind (if cc_count c = 0 then Ok ()
                    else rbind (slot_read (cc_entities c) (cc_count c - 1)) (\<lambda>v. check (id_compare_bytes v e < 0))) (\<lambda>_.
             rbind (construct s) (\<lambda>(built, s).
               case built of
                 None \<Rightarrow> Ok (False, p, s)
               | Some v \<Rightarrow>
                   rbind (slot_construct (cc_components c) (cc_count c) v) (\<lambda>comps.
                   rbind (slot_write (cc_entities c) (cc_count c) e) (\<lambda>ids.
                   rbind (vset (td_columns (dp_doc p)) i
                     (c\<lparr>cc_components := comps, cc_entities := ids, cc_count := cc_count c + 1\<rparr>)) (\<lambda>cols.
                   Ok (True, p\<lparr>dp_doc := (dp_doc p)\<lparr>td_columns := cols\<rparr>\<rparr>, s))))))))))"

definition end_column :: "'c doc_parser \<Rightarrow> 'c doc_parser checked" where
  "end_column p =
     (case dp_open_column p of
        None \<Rightarrow> Fault
      | Some i \<Rightarrow>
          rbind (vat (td_columns (dp_doc p)) i) (\<lambda>c.
          Ok (p\<lparr>dp_doc := (if cc_count c = 0 then (dp_doc p)\<lparr>td_columns := butlast (td_columns (dp_doc p))\<rparr> else dp_doc p),
                dp_open_column := None, dp_open_capacity := 0\<rparr>)))"

definition parser_finish :: "'c doc_parser \<Rightarrow> ('c document \<times> 'c doc_parser) checked" where
  "parser_finish p =
     rbind (check (dp_open_column p = None)) (\<lambda>_.
       Ok (dp_doc p, p\<lparr>dp_doc := empty_document\<lparr>td_arena := Some new_arena\<rparr>\<rparr>))"

subsection \<open>What a document holds\<close>

text \<open>
  \<open>column_holds c xs\<close>: the column's arrays hold exactly the components \<open>xs\<close>, sorted by entity, and nothing is constructed
  beyond them.  \<open>document_holds d es cols\<close>: the entity table is \<open>es\<close> and the columns are \<open>cols\<close>, by schema.
\<close>

definition column_holds :: "'c component_column \<Rightarrow> (entity_id \<times> 'c) list \<Rightarrow> bool" where
  "column_holds c xs \<longleftrightarrow> starts (cc_entities c) (map fst xs) \<and> cc_components c = live (map snd xs) (cc_capacity c) \<and>
     length (cc_entities c) = cc_capacity c \<and> cc_count c = length xs \<and> length xs \<le> cc_capacity c \<and>
     sorted_wrt (<) (map fst xs)"

type_synonym 'c columns = "(component_schema \<times> (entity_id \<times> 'c) list) list"

definition columns_hold :: "'c component_column list \<Rightarrow> 'c columns \<Rightarrow> bool" where
  "columns_hold cs cols \<longleftrightarrow> list_all2 (\<lambda>c (s, xs). cc_schema c = s \<and> column_holds c xs) cs cols \<and>
     sorted_wrt (<) (map (\<lambda>(s, xs). cs_type s) cols) \<and> (\<forall>(s, xs) \<in> set cols. cs_component_align s > 0)"

definition entities_hold :: "'c document \<Rightarrow> entity_id list \<Rightarrow> bool" where
  "entities_hold d es \<longleftrightarrow> starts (td_entities d) es \<and> length (td_entities d) = td_entity_capacity d \<and>
     td_entity_count d = length es \<and> length es \<le> td_entity_capacity d \<and> sorted_wrt (<) es"

definition document_holds :: "'c document \<Rightarrow> entity_id list \<Rightarrow> 'c columns \<Rightarrow> bool" where
  "document_holds d es cols \<longleftrightarrow> entities_hold d es \<and> columns_hold (td_columns d) cols \<and>
     (\<forall>(s, xs) \<in> set cols. xs \<noteq> [] \<and> fst ` set xs \<subseteq> set es)"

text \<open>The component an entity carries.\<close>

definition component_in :: "'c columns \<Rightarrow> component_type_id \<Rightarrow> entity_id \<Rightarrow> 'c option" where
  "component_in cols t e = (case map_of (map (\<lambda>(s, xs). (cs_type s, xs)) cols) t of None \<Rightarrow> None | Some xs \<Rightarrow> map_of xs e)"

lemma component_in_Nil [simp]: "component_in [] t e = None"
  by (simp add: component_in_def)

lemma component_in_split:
  assumes "sorted_wrt (<) (map (\<lambda>(s, xs). cs_type s) (A @ (s, xs) # B))"
  shows "component_in (A @ (s, xs) # B) t e = (if t = cs_type s then map_of xs e else component_in (A @ B) t e)"
proof -
  have "map_of (map (\<lambda>(s, xs). (cs_type s, xs)) A) (cs_type s) = None"
    using assms by (fastforce simp: map_of_eq_None_iff sorted_wrt_append)
  then show ?thesis by (auto simp: component_in_def map_add_def split: option.split)
qed

lemma component_in_absent: "t \<notin> (\<lambda>(s, xs). cs_type s) ` set cols \<Longrightarrow> component_in cols t e = None"
proof -
  assume "t \<notin> (\<lambda>(s, xs). cs_type s) ` set cols"
  then have "map_of (map (\<lambda>(s, xs). (cs_type s, xs)) cols) t = None" by (force simp: map_of_eq_None_iff)
  then show ?thesis by (simp add: component_in_def)
qed

subsection \<open>What the queries return\<close>

lemma entities_find:
  assumes "starts arr es" "sorted_wrt (<) es"
  shows "slot_find arr (\<lambda>v. id_compare_bytes v e) 0 (length es) =
    (Ok (if e \<in> set es then Some (before_key (\<lambda>v. v) e es) else None) :: ('e, nat option) result)"
  using slot_find_spec [OF assms(1), of "\<lambda>v. v" "\<lambda>v. id_compare_bytes v e" e] assms(2) by simp

lemma doc_contains_eq: "entities_hold d es \<Longrightarrow> doc_contains d e = Ok (e \<in> set es)"
  by (simp add: entities_hold_def doc_contains_def entities_find)

lemma column_index_of_eq:
  assumes "column_holds c xs"
  shows "column_index_of c e = Ok (if e \<in> fst ` set xs then Some (before_key fst e xs) else None)"
proof -
  have "before_key (\<lambda>v. v) e (map fst xs) = before_key fst e xs" by (simp add: takeWhile_map comp_def)
  then show ?thesis
    using assms entities_find [of "cc_entities c" "map fst xs" e] by (simp add: column_holds_def column_index_of_def split del: if_split cong: if_cong)
qed

lemma map_of_before_key:
  assumes "sorted_wrt (<) (map fst (xs :: ('k::linorder \<times> 'v) list))"
  shows "map_of xs e = (if e \<in> fst ` set xs then Some (snd (xs ! before_key fst e xs)) else None)"
proof (cases "e \<in> fst ` set xs")
  case True
  note f = before_key_found [OF assms True]
  have "distinct (map fst xs)" using assms by (simp add: strict_sorted_iff)
  then show ?thesis using True f by (metis map_of_is_SomeI nth_mem prod.collapse)
qed (simp add: map_of_eq_None_iff)

text \<open>Concrete and abstract columns side by side.\<close>

lemma columns_hold_types:
  assumes "columns_hold cs cols"
  shows "map (\<lambda>c. column_type c) cs = map (\<lambda>(s, xs). cs_type s) cols" "length cs = length cols"
    "sorted_wrt (<) (map (\<lambda>c. column_type c) cs)"
    "i < length cols \<Longrightarrow> cc_schema (cs ! i) = fst (cols ! i) \<and> column_holds (cs ! i) (snd (cols ! i))"
proof -
  have l: "list_all2 (\<lambda>c (s, xs). cc_schema c = s \<and> column_holds c xs) cs cols" using assms by (simp add: columns_hold_def)
  show len: "length cs = length cols" using l by (rule list_all2_lengthD)
  show nth: "i < length cols \<Longrightarrow> cc_schema (cs ! i) = fst (cols ! i) \<and> column_holds (cs ! i) (snd (cols ! i))" for i
    using list_all2_nthD2 [OF l, of i] by (simp add: case_prod_unfold)
  show types: "map (\<lambda>c. column_type c) cs = map (\<lambda>(s, xs). cs_type s) cols"
    using len nth by (intro nth_equalityI) (simp_all add: case_prod_unfold)
  show "sorted_wrt (<) (map (\<lambda>c. column_type c) cs)" using assms unfolding types by (simp add: columns_hold_def)
qed

lemma component_in_nth:
  assumes "columns_hold cs cols" "i < length cols" "column_type (cs ! i) = t"
  shows "component_in cols t e = map_of (snd (cols ! i)) e"
proof -
  have "cols = take i cols @ (fst (cols ! i), snd (cols ! i)) # drop (Suc i) cols"
    using id_take_nth_drop [OF assms(2)] by simp
  moreover have "cs_type (fst (cols ! i)) = t" using columns_hold_types(4) [OF assms(1,2)] assms(3) by simp
  ultimately show ?thesis
    using component_in_split [of "take i cols" "fst (cols ! i)" "snd (cols ! i)" "drop (Suc i) cols" t e] assms(1)
    by (simp add: columns_hold_def)
qed

lemma try_find_column_cases:
  assumes h: "columns_hold (td_columns d) cols"
  obtains (found) i where "i < length cols" "column_type (td_columns d ! i) = t" "try_find_column d t = Ok (Some (td_columns d ! i))"
    "component_in cols t = map_of (snd (cols ! i))"
  | (missing) "t \<notin> set (component_types d)" "try_find_column d t = Ok None" "component_in cols t = Map.empty"
proof -
  note ty = columns_hold_types [OF h]
  let ?f = "\<lambda>c. column_type c"
  have find: "slot_find (map Some (td_columns d)) (\<lambda>c. id_compare_bytes (column_type c) t) 0 (length (td_columns d)) =
      (Ok (if t \<in> ?f ` set (td_columns d) then Some (before_key ?f t (td_columns d)) else None) :: nat option checked)"
    by (rule vector_find_spec [OF ty(3)]) simp_all
  show ?thesis
  proof (cases "t \<in> ?f ` set (td_columns d)")
    case True
    note b = before_key_found [OF ty(3) True]
    show ?thesis
    proof (rule found)
      show "before_key ?f t (td_columns d) < length cols" using b(1) ty(2) by simp
      then show "component_in cols t = map_of (snd (cols ! before_key ?f t (td_columns d)))"
        using component_in_nth [OF h _ b(2)] by (simp add: fun_eq_iff)
    qed (use True find b in \<open>simp_all add: try_find_column_def\<close>)
  next
    case False
    have "t \<notin> (\<lambda>(s, xs). cs_type s) ` set cols"
      using False ty(1) by (metis list.set_map)
    then show ?thesis
      using False find by (intro missing) (simp_all add: try_find_column_def component_types_def component_in_absent fun_eq_iff)
  qed
qed

lemma has_component_eq:
  assumes "columns_hold (td_columns d) cols"
  shows "has_component d t e = Ok (component_in cols t e \<noteq> None)"
using assms proof (cases rule: try_find_column_cases [where t = t])
  case (found i)
  have "column_holds (td_columns d ! i) (snd (cols ! i))" using columns_hold_types(4) [OF assms found(1)] by simp
  from column_index_of_eq [OF this] found show ?thesis by (auto simp: has_component_def map_of_eq_None_iff)
qed (simp add: has_component_def)

lemma doc_get_eq:
  assumes h: "columns_hold (td_columns d) cols" and key: "\<forall>(s, xs) \<in> set cols. cs_type s = t \<longrightarrow> cs_type_key s = key"
  shows "doc_get d t key e = Ok (component_in cols t e)"
using h proof (cases rule: try_find_column_cases [where t = t])
  case (found i)
  let ?xs = "snd (cols ! i)"
  have c: "cc_schema (td_columns d ! i) = fst (cols ! i)" "column_holds (td_columns d ! i) ?xs"
    using columns_hold_types(4) [OF h found(1)] by simp_all
  have k: "cs_type_key (cc_schema (td_columns d ! i)) = key" using bspec [OF key nth_mem [OF found(1)]] found(2) c(1) by (simp add: case_prod_unfold)
  have srt: "sorted_wrt (<) (map fst ?xs)" using c(2) by (simp add: column_holds_def)
  have "slot_read (cc_components (td_columns d ! i)) (before_key fst e ?xs) = (Ok (snd (?xs ! before_key fst e ?xs)) :: 'a checked)"
    if "e \<in> fst ` set ?xs"
    using c(2) before_key_found(1) [OF srt that] slot_read_starts [OF starts_live, of "before_key fst e ?xs" "map snd ?xs"]
    by (simp add: column_holds_def)
  then show ?thesis
    using found k by (simp add: doc_get_def column_index_of_eq [OF c(2)] map_of_before_key [OF srt])
qed (simp add: doc_get_def)

text \<open>A column whose every slot is dead.\<close>

definition released :: "'c component_column \<Rightarrow> 'c component_column" where
  "released c = c\<lparr>cc_components := replicate (length (cc_components c)) None\<rparr>"

lemma released_simps [simp]:
  "cc_schema (released c) = cc_schema c" "cc_components (released c) = replicate (length (cc_components c)) None"
  by (simp_all add: released_def)

lemma destroy_column_eq: "column_holds c xs \<Longrightarrow> destroy_column c = Ok (released c)"
proof -
  assume c: "column_holds c xs"
  then have "destroy_range (cc_components c) 0 (cc_count c) =
      (Ok (replicate (length xs) None @ replicate (cc_capacity c - length xs) None) :: 'a slots checked)"
    using destroy_range_spec [of "[]" "map snd xs"] by (simp add: column_holds_def live_def)
  with c show ?thesis
    by (auto simp: destroy_column_def released_def column_holds_def live_def replicate_add [symmetric])
qed

lemma destroy_components_eq:
  assumes h: "columns_hold (td_columns d) cols"
  shows "destroy_components d = Ok (d\<lparr>td_columns := [], td_entities := [], td_entity_count := 0, td_entity_capacity := 0\<rparr>,
    map released (td_columns d))"
proof -
  have "rfold (\<lambda>c left. rbind (destroy_column c) (\<lambda>c. Ok (left @ [c]))) cs left = (Ok (left @ map released cs) :: 'a component_column list checked)"
    if "\<forall>c \<in> set cs. \<exists>xs. column_holds c xs" for cs left
    using that by (induction cs arbitrary: left) (auto dest!: destroy_column_eq)
  moreover have "\<forall>c \<in> set (td_columns d). \<exists>xs. column_holds c xs"
    using columns_hold_types(2,4) [OF h] by (auto simp: in_set_conv_nth) metis
  ultimately show ?thesis by (simp add: destroy_components_def)
qed

text \<open>What is constructed in the slots of a type's column is exactly the components of that type.\<close>

lemma live_slots:
  assumes h: "columns_hold cs cols"
  shows "(\<exists>c \<in> set cs. column_type c = t \<and> Some v \<in> set (cc_components c)) \<longleftrightarrow> (\<exists>e. component_in cols t e = Some v)"
  using assms
proof (cases "t \<in> (\<lambda>(s, xs). cs_type s) ` set cols")
  case False
  have "\<exists>k < length cols. c = cs ! k \<and> cc_schema c = fst (cols ! k)" if "c \<in> set cs" for c
    using that columns_hold_types(2,4) [OF h] by (auto simp: in_set_conv_nth)
  then have "column_type c \<noteq> t" if "c \<in> set cs" for c
    using that False by (metis (no_types, lifting) case_prod_unfold image_eqI nth_mem)
  then show ?thesis using component_in_absent [OF False] by auto
next
  case True
  then obtain s xs A B where cols: "cols = A @ (s, xs) # B" and t: "t = cs_type s" by (auto dest: split_list)
  have srt: "sorted_wrt (<) (map (\<lambda>(s, xs). cs_type s) (A @ (s, xs) # B))" using h by (simp add: columns_hold_def cols)
  from h obtain as c bs where cs: "cs = as @ c # bs" "list_all2 (\<lambda>c (s, xs). cc_schema c = s \<and> column_holds c xs) as A"
    "list_all2 (\<lambda>c (s, xs). cc_schema c = s \<and> column_holds c xs) bs B" "cc_schema c = s" "column_holds c xs"
    by (auto simp: columns_hold_def cols list_all2_append2 list_all2_Cons2)
  have other: "column_type c' \<noteq> t" if "c' \<in> set as \<union> set bs" for c'
  proof -
    from that cs(2,3) have "\<exists>z \<in> set A \<union> set B. cc_schema c' = fst z" by (fastforce simp: list_all2_conv_all_nth in_set_conv_nth case_prod_unfold)
    then show ?thesis using srt by (fastforce simp: t sorted_wrt_append)
  qed
  have xs: "distinct (map fst xs)" "cc_components c = live (map snd xs) (cc_capacity c)"
    using cs(5) by (simp_all add: column_holds_def strict_sorted_iff)
  have "Some v \<in> set (cc_components c) \<longleftrightarrow> (\<exists>e. map_of xs e = Some v)"
    unfolding xs(2) by (auto simp: live_def map_of_eq_Some_iff [OF xs(1)] image_iff) force
  moreover have "component_in cols t e = map_of xs e" for e
    using component_in_split [OF srt, of t e] by (simp add: cols t)
  ultimately show ?thesis using other cs(4) by (auto simp: cs(1) t)
qed

end
