(* ===== verification/Parse_Report.thy ===== *)
theory Parse_Report
  imports Typed_Document Raw_Document
begin

text \<open>
  What a parse found (parse_report.hh/.cc), and the one law every reading of a document obeys: code that takes a report only
  ever appends to it, and what it returns and appends does not depend on what is already there.
\<close>

datatype diagnostic_kind =
  DK_unsupported_component_type | DK_unknown_schema_version | DK_multi_valued_conflict | DK_remote_conflict |
  DK_contested_alive | DK_layered_schema_version_conflict

record diagnostic =
  dg_kind :: diagnostic_kind
  dg_path :: property_path
  dg_chosen_writer :: op_id
  dg_writer_count :: nat

record agreed_multi_value =
  am_path :: property_path
  am_writer_count :: nat

record parse_report =
  pr_diagnostics :: "diagnostic list"
  pr_agreed :: "agreed_multi_value list"

definition empty_report :: parse_report where
  "empty_report = \<lparr>pr_diagnostics = [], pr_agreed = []\<rparr>"

definition no_writer :: op_id where
  "no_writer = Op_id (Hash256 0 0 0 0)"

definition is_empty :: "parse_report \<Rightarrow> bool" where
  "is_empty r \<longleftrightarrow> pr_diagnostics r = [] \<and> pr_agreed r = []"

definition diagnostic_count_of :: "diagnostic_kind \<Rightarrow> parse_report \<Rightarrow> nat" where
  "diagnostic_count_of k r = foldl (\<lambda>n d. if dg_kind d = k then n + 1 else n) 0 (pr_diagnostics r)"

definition push_diagnostic :: "diagnostic \<Rightarrow> parse_report \<Rightarrow> parse_report" where
  "push_diagnostic d r = r\<lparr>pr_diagnostics := pr_diagnostics r @ [d]\<rparr>"

definition push_agreed :: "agreed_multi_value \<Rightarrow> parse_report \<Rightarrow> parse_report" where
  "push_agreed a r = r\<lparr>pr_agreed := pr_agreed r @ [a]\<rparr>"

text \<open>The search for an id among sorted ones, and the stable partition of \<^verbatim>\<open>drop_for_entities\<close>.\<close>

definition names_entity :: "entity_id list \<Rightarrow> entity_id \<Rightarrow> bool checked" where
  "names_entity sorted_entities e =
     rbind (slot_find (map Some sorted_entities) (\<lambda>v. id_compare_bytes v e) 0 (length sorted_entities)) (\<lambda>at. Ok (at \<noteq> None))"

definition partition_step :: "('a \<Rightarrow> bool checked) \<Rightarrow> nat \<Rightarrow> 'a list \<times> nat \<Rightarrow> ('a list \<times> nat) checked" where
  "partition_step drops i st =
     (case st of (xs, kept) \<Rightarrow>
        rbind (vat xs i) (\<lambda>x. rbind (drops x) (\<lambda>named.
          if named then Ok (xs, kept) else rbind (vset xs kept x) (\<lambda>xs. Ok (xs, kept + 1)))))"

definition stable_partition :: "('a \<Rightarrow> bool checked) \<Rightarrow> 'a list \<Rightarrow> 'a list checked" where
  "stable_partition drops xs =
     rbind (rfold (partition_step drops) [0..<length xs] (xs, 0)) (\<lambda>(xs, kept). Ok (take kept xs))"

definition drop_for_entities :: "entity_id list \<Rightarrow> parse_report \<Rightarrow> parse_report checked" where
  "drop_for_entities sorted_entities r =
     (if sorted_entities = [] then Ok r
      else
        rbind (stable_partition (\<lambda>d. names_entity sorted_entities (pp_entity (dg_path d))) (pr_diagnostics r)) (\<lambda>ds.
        rbind (stable_partition (\<lambda>a. names_entity sorted_entities (pp_entity (am_path a))) (pr_agreed r)) (\<lambda>ags.
        Ok (r\<lparr>pr_diagnostics := ds, pr_agreed := ags\<rparr>))))"

definition clear_report :: "parse_report \<Rightarrow> parse_report" where
  "clear_report r = r\<lparr>pr_diagnostics := [], pr_agreed := []\<rparr>"

subsection \<open>Dropping entries\<close>

lemma diagnostic_count_of_eq: "diagnostic_count_of k r = length (filter (\<lambda>d. dg_kind d = k) (pr_diagnostics r))"
proof -
  have "foldl (\<lambda>n d. if dg_kind d = k then n + 1 else n) n ds = n + length (filter (\<lambda>d. dg_kind d = k) ds)" for n and ds :: "diagnostic list"
    by (induction ds arbitrary: n) auto
  then show ?thesis by (simp add: diagnostic_count_of_def)
qed

lemma names_entity_eq: "sorted_wrt (<) es \<Longrightarrow> names_entity es e = Ok (e \<in> set es)"
  using vector_find_spec [of "\<lambda>v. v" es "\<lambda>v. id_compare_bytes v e" e, where 'e = unit] by (simp add: names_entity_def)

lemma stable_partition_eq:
  assumes drops: "\<And>x. x \<in> set xs \<Longrightarrow> drops x = Ok (P x)"
  shows "stable_partition drops xs = Ok (filter (\<lambda>x. \<not> P x) xs)"
proof -
  let ?I = "\<lambda>k (ys, kept). kept = length (filter (\<lambda>x. \<not> P x) (take k xs)) \<and> length ys = length xs \<and>
    take kept ys = filter (\<lambda>x. \<not> P x) (take k xs) \<and> drop k ys = drop k xs"
  have "\<exists>st. rfold (partition_step drops) [0..<length xs] (xs, 0) = Ok st \<and> ?I (length [0..<length xs]) st"
  proof (rule rfold_invariant [where P = "\<lambda>is st. ?I (length is) st"])
    fix ys :: "nat list" and i zs and st :: "'a list \<times> nat"
    assume split: "[0..<length xs] = ys @ i # zs" and inv: "?I (length ys) st"
    obtain arr kept where st: "st = (arr, kept)" by (cases st)
    have i: "i = length ys" "i < length xs"
    proof -
      have "length ys < length xs" using arg_cong [OF split, of length] by simp
      moreover have "[0..<length xs] ! length ys = i" by (simp add: split)
      ultimately show "i = length ys" "i < length xs" by auto
    qed
    define F where "F = filter (\<lambda>x. \<not> P x) (take i xs)"
    have K: "kept = length F" "take kept arr = F" using inv unfolding st split_conv i(1) [symmetric] F_def by blast+
    have k: "kept \<le> i" using inv st i by (simp add: length_filter_le [THEN order_trans])
    have len: "length arr = length xs" and rest: "drop i arr = drop i xs" using inv st i by simp_all
    then have at: "arr ! i = xs ! i" using hd_drop_conv_nth [of i arr] hd_drop_conv_nth [of i xs] i(2) by simp
    have step: "take (Suc i) xs = take i xs @ [xs ! i]" using i by (simp add: take_Suc_conv_app_nth)
    have dropS: "drop (Suc i) arr = drop (Suc i) xs" using arg_cong [OF rest, of "drop 1"] by simp
    have d: "drops (xs ! i) = Ok (P (xs ! i))" using i by (intro drops) simp
    show "\<exists>st'. partition_step drops i st = Ok st' \<and> ?I (length (ys @ [i])) st'"
    proof (cases "P (xs ! i)")
      case True
      then have "partition_step drops i st = Ok (arr, kept)" using i len at d by (simp add: partition_step_def st)
      moreover have "?I (Suc i) (arr, kept)" using K True step dropS len by (simp add: F_def [symmetric])
      ultimately show ?thesis using i by auto
    next
      case False
      then have "partition_step drops i st = Ok (arr[kept := xs ! i], Suc kept)"
        using i len at d k by (simp add: partition_step_def st)
      moreover have "?I (Suc i) (arr[kept := xs ! i], Suc kept)"
        using K False step dropS k len i(2) by (simp add: F_def [symmetric] take_Suc_conv_app_nth)
      ultimately show ?thesis using i by auto
    qed
  qed simp
  then show ?thesis by (auto simp: stable_partition_def)
qed

lemma drop_for_entities_eq:
  assumes "sorted_wrt (<) es"
  shows "drop_for_entities es r = Ok (r\<lparr>pr_diagnostics := filter (\<lambda>d. pp_entity (dg_path d) \<notin> set es) (pr_diagnostics r),
    pr_agreed := filter (\<lambda>a. pp_entity (am_path a) \<notin> set es) (pr_agreed r)\<rparr>)"
  using assms
  by (simp add: drop_for_entities_def names_entity_eq
      stable_partition_eq [where P = "\<lambda>d. pp_entity (dg_path d) \<in> set es"]
      stable_partition_eq [where P = "\<lambda>a. pp_entity (am_path a) \<in> set es"])

subsection \<open>Code that appends to a report\<close>

definition report_add :: "parse_report \<Rightarrow> parse_report \<Rightarrow> parse_report" where
  "report_add r x = r\<lparr>pr_diagnostics := pr_diagnostics r @ pr_diagnostics x, pr_agreed := pr_agreed r @ pr_agreed x\<rparr>"

definition yields :: "(parse_report \<Rightarrow> ('a \<times> parse_report) checked) \<Rightarrow> 'a \<times> parse_report \<Rightarrow> bool" where
  "yields f out \<longleftrightarrow> (\<forall>r. f r = Ok (fst out, report_add r (snd out)))"

lemma report_add_empty [simp]: "report_add r empty_report = r" "report_add empty_report r = r"
  by (simp_all add: report_add_def empty_report_def)

lemma report_add_assoc: "report_add (report_add r x) y = report_add r (report_add x y)"
  by (simp add: report_add_def)

lemma push_diagnostic_add: "push_diagnostic d r = report_add r (push_diagnostic d empty_report)"
  by (simp add: push_diagnostic_def report_add_def empty_report_def)

lemma push_agreed_add: "push_agreed a r = report_add r (push_agreed a empty_report)"
  by (simp add: push_agreed_def report_add_def empty_report_def)

lemma push_report_add:
  "push_diagnostic d (report_add r x) = report_add r (push_diagnostic d x)"
  "push_agreed a (report_add r x) = report_add r (push_agreed a x)"
  by (simp_all add: push_diagnostic_def push_agreed_def report_add_def)

lemma yields_return: "yields (\<lambda>r. Ok (a, r)) (a, empty_report)"
  by (simp add: yields_def)

lemma yieldsD: "yields f out \<Longrightarrow> f r = Ok (fst out, report_add r (snd out))"
  by (simp add: yields_def)

lemma yields_bind:
  assumes "yields f (a, x)" "yields (g a) (b, y)"
  shows "yields (\<lambda>r. rbind (f r) (\<lambda>(a, r). g a r)) (b, report_add x y)"
  using assms by (simp add: yields_def report_add_assoc)

end
