(* ===== verification/Parse.thy ===== *)
theory Parse
  imports Parse_Report Op_Graph
begin

text \<open>
  Interpreting a raw document into a typed one (parse_policy.hh/.cc, parse.hh/.cc).  A policy is its three virtual functions.
  What an application's \<^verbatim>\<open>parse\<close> does between its reads is its own; here it is a tree of reads of its
  \<^verbatim>\<open>property_reader\<close>, found by the address of the schema's \<^verbatim>\<open>parse_into\<close>.
\<close>

record parse_policy =
  po_query_schema :: "component_type_id \<Rightarrow> component_schema option checked"
  po_should_instantiate :: "entity_id \<Rightarrow> raw_entity \<Rightarrow> parse_report \<Rightarrow> (bool \<times> parse_report) checked"
  po_resolve :: "property_path \<Rightarrow> property_value list \<Rightarrow> parse_report \<Rightarrow> (value_view option \<times> parse_report) checked"

record property_reader =
  prd_raw :: raw_component
  prd_policy :: parse_policy
  prd_entity :: entity_id
  prd_component :: component_type_id
  prd_schema_version :: "32 word"

definition writers_agree :: "property_value list \<Rightarrow> bool" where
  "writers_agree ws = list_all (\<lambda>w. pv_value w = pv_value (ws ! 0)) (tl ws)"

definition reader_try_get :: "property_reader \<Rightarrow> property_id \<Rightarrow> parse_report \<Rightarrow> (value_view option \<times> parse_report) checked" where
  "reader_try_get r p report =
     (case component_try_get (prd_raw r) p of
        None \<Rightarrow> Ok (None, report)
      | Some prop \<Rightarrow>
          (let ws = rp_writers prop; path = Property_path (prd_entity r) (prd_component r) p in
           rbind (check (ws \<noteq> [])) (\<lambda>_.
             if length ws = 1 then Ok (Some (pv_value (ws ! 0)), report)
             else if writers_agree ws
             then Ok (Some (pv_value (ws ! 0)), push_agreed \<lparr>am_path = path, am_writer_count = length ws\<rparr> report)
             else po_resolve (prd_policy r) path ws report)))"

datatype 'c parse_program = PP_return "'c option" | PP_get property_id "value_view option \<Rightarrow> 'c parse_program"

primrec run_program :: "'c parse_program \<Rightarrow> property_reader \<Rightarrow> parse_report \<Rightarrow> ('c option \<times> parse_report) checked" where
  "run_program (PP_return c) r report = Ok (c, report)"
| "run_program (PP_get p k) r report = rbind (reader_try_get r p report) (\<lambda>(v, report). run_program (k v) r report)"

type_synonym 'c application = "nat \<Rightarrow> entity_id \<Rightarrow> component_type_id \<Rightarrow> 32 word \<Rightarrow> 'c parse_program"

definition parse_component_into :: "'c application \<Rightarrow> nat \<Rightarrow> property_reader \<Rightarrow> parse_report \<Rightarrow> ('c option \<times> parse_report) checked" where
  "parse_component_into app address r =
     run_program (app address (prd_entity r) (prd_component r) (prd_schema_version r)) r"

subsection \<open>Aliveness and schema versions\<close>

primrec rall :: "('a \<Rightarrow> bool checked) \<Rightarrow> 'a list \<Rightarrow> bool checked" where
  "rall P [] = Ok True"
| "rall P (x # xs) = rbind (P x) (\<lambda>b. if b then rall P xs else Ok False)"

primrec rany :: "('a \<Rightarrow> bool checked) \<Rightarrow> 'a list \<Rightarrow> bool checked" where
  "rany P [] = Ok False"
| "rany P (x # xs) = rbind (P x) (\<lambda>b. if b then Ok True else rany P xs)"

definition says_false :: "property_value \<Rightarrow> bool checked" where
  "says_false w = rbind (vv_kind (pv_value w)) (\<lambda>k.
     if k \<noteq> Kind_boolean then Ok False else rbind (as_bool (pv_value w)) (\<lambda>b. Ok (\<not> b)))"

definition is_alive :: "raw_component \<Rightarrow> property_path \<Rightarrow> parse_report \<Rightarrow> (bool \<times> parse_report) checked" where
  "is_alive raw path report =
     (case component_try_get raw reserved_alive of
        None \<Rightarrow> Ok (True, report)
      | Some prop \<Rightarrow>
          rbind (rall says_false (rp_writers prop)) (\<lambda>all_false.
            if all_false then Ok (False, report)
            else
              rbind (rany says_false (rp_writers prop)) (\<lambda>any_false.
              Ok (True, if any_false
                        then push_diagnostic \<lparr>dg_kind = DK_contested_alive, dg_path = path, dg_chosen_writer = no_writer,
                               dg_writer_count = length (rp_writers prop)\<rparr> report
                        else report))))"

record resolved_version =
  rv_version :: "32 word"
  rv_contested :: bool
  rv_agreed_writers :: nat

definition no_version :: resolved_version where
  "no_version = \<lparr>rv_version = 0, rv_contested = False, rv_agreed_writers = 0\<rparr>"

definition read_schema_version :: "raw_component \<Rightarrow> resolved_version checked" where
  "read_schema_version raw =
     (case component_try_get raw reserved_schema_version of
        None \<Rightarrow> Ok no_version
      | Some prop \<Rightarrow>
          (let ws = rp_writers prop in
           if \<not> writers_agree ws then Ok (no_version\<lparr>rv_contested := True\<rparr>)
           else
             rbind (vat ws 0) (\<lambda>w.
             rbind (vv_kind (pv_value w)) (\<lambda>k.
             rbind (if k = Kind_integer then rbind (as_i64 (pv_value w)) (\<lambda>v. Ok (ucast v)) else Ok 0) (\<lambda>version.
             Ok (no_version\<lparr>rv_version := version, rv_agreed_writers := if length ws > 1 then length ws else 0\<rparr>))))))"

subsection \<open>The default policy\<close>

record default_parse_policy =
  df_registry :: "component_registry option"
  df_local_closure :: "op_id list"

definition create_with_registry :: "component_registry \<Rightarrow> default_parse_policy" where
  "create_with_registry reg = \<lparr>df_registry = Some reg, df_local_closure = []\<rparr>"

definition create_with_local_heads :: "component_registry \<Rightarrow> op_graph \<Rightarrow> op_id list \<Rightarrow> default_parse_policy" where
  "create_with_local_heads reg g heads = (create_with_registry reg)\<lparr>df_local_closure := collect_reachable g heads\<rparr>"

definition create_with_local_head :: "component_registry \<Rightarrow> op_graph \<Rightarrow> op_id \<Rightarrow> default_parse_policy" where
  "create_with_local_head reg g h = create_with_local_heads reg g [h]"

definition contains_sorted :: "op_id list \<Rightarrow> op_id \<Rightarrow> bool checked" where
  "contains_sorted ids i =
     rbind (slot_find (map Some ids) (\<lambda>v. op_id_compare_bytes v i) 0 (length ids)) (\<lambda>at. Ok (at \<noteq> None))"

definition extend_local_closure :: "op_id list \<Rightarrow> default_parse_policy \<Rightarrow> default_parse_policy checked" where
  "extend_local_closure new_ops p =
     (if df_local_closure p = [] \<or> new_ops = [] then Ok p
      else
        rbind (rfold (\<lambda>i closure. rbind (contains_sorted closure i) (\<lambda>c. Ok (if c then closure else closure @ [i])))
                 new_ops (df_local_closure p)) (\<lambda>closure.
        Ok (p\<lparr>df_local_closure := cc_sort (\<lambda>a b. op_id_compare_bytes a b < 0) closure\<rparr>)))"

definition default_query_schema :: "default_parse_policy \<Rightarrow> component_type_id \<Rightarrow> component_schema option checked" where
  "default_query_schema p t = (case df_registry p of None \<Rightarrow> Ok None | Some reg \<Rightarrow> registry_try_get reg t)"

definition default_should_instantiate :: "entity_id \<Rightarrow> raw_entity \<Rightarrow> parse_report \<Rightarrow> (bool \<times> parse_report) checked" where
  "default_should_instantiate e raw report =
     (case entity_try_get raw reserved_entity of
        None \<Rightarrow> Ok (True, report)
      | Some marker \<Rightarrow> is_alive marker (Property_path e reserved_entity reserved_alive) report)"

definition report_choice :: "diagnostic_kind \<Rightarrow> property_path \<Rightarrow> property_value \<Rightarrow> nat \<Rightarrow> parse_report \<Rightarrow> value_view option \<times> parse_report" where
  "report_choice kind path w n report =
     (Some (pv_value w),
      push_diagnostic \<lparr>dg_kind = kind, dg_path = path, dg_chosen_writer = pv_writer w, dg_writer_count = n\<rparr> report)"

definition default_resolve ::
  "default_parse_policy \<Rightarrow> property_path \<Rightarrow> property_value list \<Rightarrow> parse_report \<Rightarrow> (value_view option \<times> parse_report) checked" where
  "default_resolve p path candidates report =
     rbind (check (length candidates \<ge> 2)) (\<lambda>_.
     rbind (if df_local_closure p \<noteq> []
            then rfold (\<lambda>i (local, n). rbind (vat candidates i) (\<lambda>w. rbind (contains_sorted (df_local_closure p) (pv_writer w)) (\<lambda>c.
                     Ok (if c then (Some i, n + 1) else (local, n))))) [0..<length candidates] (None, 0)
            else Ok (None, 0)) (\<lambda>(local, n).
       if n = (1 :: nat)
       then rbind (case local of None \<Rightarrow> Fault | Some i \<Rightarrow> vat candidates i) (\<lambda>w.
            Ok (report_choice DK_remote_conflict path w (length candidates) report))
       else Ok (report_choice DK_multi_valued_conflict path (candidates ! 0) (length candidates) report)))"

definition default_policy :: "default_parse_policy \<Rightarrow> parse_policy" where
  "default_policy p = \<lparr>po_query_schema = default_query_schema p, po_should_instantiate = default_should_instantiate,
     po_resolve = default_resolve p\<rparr>"

subsection \<open>Selection\<close>

record selected_component =
  sc_type :: component_type_id
  sc_schema :: component_schema
  sc_raw :: raw_component
  sc_version :: "32 word"

record entity_selection =
  es_instantiate :: bool
  es_components :: "selected_component list"

type_synonym selecting = "selected_component list \<times> parse_report \<times> component_type_id list"

definition select_component :: "parse_policy \<Rightarrow> entity_id \<Rightarrow> component_type_id \<times> raw_component \<Rightarrow> selecting \<Rightarrow> selecting checked" where
  "select_component policy e c st =
     (case c of (t, raw) \<Rightarrow> case st of (out, report, unsupported) \<Rightarrow>
        if t = reserved_entity then Ok (out, report, unsupported)
        else
          rbind (po_query_schema policy t) (\<lambda>found.
            case found of
              None \<Rightarrow> Ok (out, report, if t \<in> set unsupported then unsupported else unsupported @ [t])
            | Some schema \<Rightarrow>
                rbind (is_alive raw (Property_path e t reserved_alive) report) (\<lambda>(alive, report).
                  if \<not> alive then Ok (out, report, unsupported)
                  else
                    rbind (read_schema_version raw) (\<lambda>v.
                      (let report = (if rv_agreed_writers v > 0
                           then push_agreed \<lparr>am_path = Property_path e t reserved_schema_version, am_writer_count = rv_agreed_writers v\<rparr> report
                           else report) in
                       if rv_contested v \<or> sint (rv_version v) > sint (cs_current_version schema)
                       then Ok (out, push_diagnostic \<lparr>dg_kind = DK_unknown_schema_version, dg_path = Property_path e t [],
                              dg_chosen_writer = no_writer, dg_writer_count = (if rv_contested v then 2 else 1)\<rparr> report, unsupported)
                       else Ok (out @ [\<lparr>sc_type = t, sc_schema = schema, sc_raw = raw, sc_version = rv_version v\<rparr>], report, unsupported))))))"

definition select_entity :: "parse_policy \<Rightarrow> entity_id \<Rightarrow> raw_entity \<Rightarrow> parse_report \<times> component_type_id list \<Rightarrow>
    (entity_selection \<times> parse_report \<times> component_type_id list) checked" where
  "select_entity policy e raw st =
     (case st of (report, unsupported) \<Rightarrow>
        rbind (po_should_instantiate policy e raw report) (\<lambda>(instantiate, report).
          if \<not> instantiate then Ok (\<lparr>es_instantiate = False, es_components = []\<rparr>, report, unsupported)
          else
            rbind (rfold (select_component policy e) (re_components raw) ([], report, unsupported)) (\<lambda>(out, report, unsupported).
            Ok (\<lparr>es_instantiate = True, es_components = out\<rparr>, report, unsupported))))"

subsection \<open>Building columns\<close>

record candidate =
  ca_entity :: entity_id
  ca_raw :: raw_component
  ca_version :: "32 word"

record pending_column =
  pc_type :: component_type_id
  pc_schema :: component_schema
  pc_candidates :: "candidate list"

primrec index_where :: "('a \<Rightarrow> bool) \<Rightarrow> 'a list \<Rightarrow> nat option" where
  "index_where P [] = None"
| "index_where P (x # xs) = (if P x then Some 0 else map_option Suc (index_where P xs))"

definition file_candidate :: "entity_id \<Rightarrow> pending_column list \<Rightarrow> selected_component \<Rightarrow> pending_column list" where
  "file_candidate e columns sc =
     (let cand = \<lparr>ca_entity = e, ca_raw = sc_raw sc, ca_version = sc_version sc\<rparr> in
      case index_where (\<lambda>c. pc_type c = sc_type sc) columns of
        Some i \<Rightarrow> columns[i := (columns ! i)\<lparr>pc_candidates := pc_candidates (columns ! i) @ [cand]\<rparr>]
      | None \<Rightarrow> columns @ [\<lparr>pc_type = sc_type sc, pc_schema = sc_schema sc, pc_candidates = [cand]\<rparr>])"

type_synonym gathered = "entity_id list \<times> pending_column list \<times> component_type_id list \<times> parse_report"

definition gather_entity :: "(entity_id \<Rightarrow> raw_entity option) \<Rightarrow> parse_policy \<Rightarrow> entity_id \<Rightarrow> gathered \<Rightarrow> gathered checked" where
  "gather_entity lookup policy e st =
     (case st of (surviving, columns, unsupported, report) \<Rightarrow>
        case lookup e of
          None \<Rightarrow> Ok (surviving, columns, unsupported, report)
        | Some raw \<Rightarrow>
            rbind (select_entity policy e raw (report, unsupported)) (\<lambda>(sel, report, unsupported).
              if \<not> es_instantiate sel then Ok (surviving, columns, unsupported, report)
              else Ok (surviving @ [e], foldl (file_candidate e) columns (es_components sel), unsupported, report)))"

definition parse_candidate :: "'c application \<Rightarrow> parse_policy \<Rightarrow> pending_column \<Rightarrow> candidate \<Rightarrow> 'c doc_parser \<times> parse_report \<Rightarrow>
    ('c doc_parser \<times> parse_report) checked" where
  "parse_candidate app policy column c st =
     (let reader = \<lparr>prd_raw = ca_raw c, prd_policy = policy, prd_entity = ca_entity c, prd_component = pc_type column,
            prd_schema_version = ca_version c\<rparr> in
      rbind (push_component (ca_entity c) (parse_component_into app (cs_parse_into (pc_schema column)) reader) st) (\<lambda>(_, st). Ok st))"

definition parse_column :: "system \<Rightarrow> 'c application \<Rightarrow> parse_policy \<Rightarrow> pending_column \<Rightarrow> 'c doc_parser \<times> parse_report \<Rightarrow>
    ('c doc_parser \<times> parse_report) checked" where
  "parse_column sys app policy column st =
     (case st of (p, report) \<Rightarrow>
        rbind (begin_column sys (pc_schema column) (length (pc_candidates column)) p) (\<lambda>p.
        rbind (rfold (parse_candidate app policy column) (pc_candidates column) (p, report)) (\<lambda>(p, report).
        rbind (end_column p) (\<lambda>p. Ok (p, report)))))"

definition unsupported_diagnostic :: "component_type_id \<Rightarrow> diagnostic" where
  "unsupported_diagnostic t = \<lparr>dg_kind = DK_unsupported_component_type, dg_path = Property_path [] t [],
     dg_chosen_writer = no_writer, dg_writer_count = 0\<rparr>"

definition parse_from :: "system \<Rightarrow> 'c application \<Rightarrow> entity_id list \<Rightarrow> (entity_id \<Rightarrow> raw_entity option) \<Rightarrow> parse_policy \<Rightarrow>
    parse_report \<Rightarrow> ('c document \<times> parse_report) checked" where
  "parse_from sys app sorted_entities lookup policy report =
     rbind (rfold (gather_entity lookup policy) sorted_entities ([], [], [], report)) (\<lambda>(surviving, columns, unsupported, report).
       (let report = foldl (\<lambda>r t. push_diagnostic (unsupported_diagnostic t) r) report
              (cc_sort (\<lambda>a b. id_compare_bytes a b < 0) unsupported);
            columns = cc_sort (\<lambda>a b. id_compare_bytes (pc_type a) (pc_type b) < 0) columns in
        rbind (parser_set_entities sys surviving new_parser) (\<lambda>p.
        rbind (rfold (parse_column sys app policy) columns (p, report)) (\<lambda>(p, report).
        rbind (parser_finish p) (\<lambda>(doc, _). Ok (doc, report))))))"

definition parse_document :: "system \<Rightarrow> 'c application \<Rightarrow> raw_document \<Rightarrow> parse_policy \<Rightarrow> parse_report \<Rightarrow>
    ('c document \<times> parse_report) checked" where
  "parse_document sys app raw policy report =
     parse_from sys app (map fst (rd_entities raw)) (document_try_get_entity raw) policy report"

end
