(* ===== verification/Parse_Rules.thy ===== *)
theory Parse_Rules
  imports Parse
begin

text \<open>
  What reading a component comes to, as pure functions, and the contract a parse policy owes the parser (parse_policy.hh), stated
  as a locale; under it selection is a pure function of the raw entity, and the report only grows.
\<close>


subsection \<open>What reading a component comes to\<close>

text \<open>
  A component is readable when its properties are sorted and every property has writers, whose values are encodings.  On such
  a component every reading is a pure function: of what it returns, and of what it adds to the report.
\<close>

definition encoded_value :: "value_view \<Rightarrow> bool" where
  "encoded_value b \<longleftrightarrow> (\<exists>v. b = enc v)"

definition readable_property :: "raw_property \<Rightarrow> bool" where
  "readable_property p \<longleftrightarrow> rp_writers p \<noteq> [] \<and> (\<forall>w \<in> set (rp_writers p). encoded_value (pv_value w))"

definition readable_component :: "raw_component \<Rightarrow> bool" where
  "readable_component c \<longleftrightarrow> sorted_wrt (<) (map fst (rc_properties c)) \<and> (\<forall>p \<in> snd ` set (rc_properties c). readable_property p)"

definition readable_entity :: "raw_entity \<Rightarrow> bool" where
  "readable_entity e \<longleftrightarrow> sorted_wrt (<) (map fst (re_components e)) \<and> (\<forall>c \<in> snd ` set (re_components e). readable_component c)"

definition property_of :: "raw_component \<Rightarrow> property_id \<Rightarrow> raw_property option" where
  "property_of c p = map_of (rc_properties c) p"

definition alive_of :: "raw_component \<Rightarrow> property_path \<Rightarrow> bool \<times> parse_report" where
  "alive_of c path =
     (case property_of c reserved_alive of
        None \<Rightarrow> (True, empty_report)
      | Some prop \<Rightarrow>
          (let dead = filter (\<lambda>w. pv_value w = enc (VBool False)) (rp_writers prop) in
           if dead = rp_writers prop then (False, empty_report)
           else (True, if dead = [] then empty_report
                       else push_diagnostic \<lparr>dg_kind = DK_contested_alive, dg_path = path, dg_chosen_writer = no_writer,
                              dg_writer_count = length (rp_writers prop)\<rparr> empty_report)))"

definition stored_version :: "value_view \<Rightarrow> 32 word" where
  "stored_version b = (case as_i64 b :: 64 word checked of Ok v \<Rightarrow> ucast v | _ \<Rightarrow> 0)"

definition version_of :: "raw_component \<Rightarrow> resolved_version" where
  "version_of c =
     (case property_of c reserved_schema_version of
        None \<Rightarrow> no_version
      | Some prop \<Rightarrow>
          (let ws = rp_writers prop in
           if \<not> writers_agree ws then no_version\<lparr>rv_contested := True\<rparr>
           else no_version\<lparr>rv_version := stored_version (pv_value (ws ! 0)),
                  rv_agreed_writers := if length ws > 1 then length ws else 0\<rparr>))"

definition value_of ::
  "(property_path \<Rightarrow> property_value list \<Rightarrow> value_view option \<times> parse_report) \<Rightarrow> raw_component \<Rightarrow> entity_id \<Rightarrow> component_type_id \<Rightarrow>
   property_id \<Rightarrow> value_view option \<times> parse_report" where
  "value_of pick c e t p =
     (case property_of c p of
        None \<Rightarrow> (None, empty_report)
      | Some prop \<Rightarrow>
          (let ws = rp_writers prop; path = Property_path e t p in
           if length ws = 1 then (Some (pv_value (ws ! 0)), empty_report)
           else if writers_agree ws
           then (Some (pv_value (ws ! 0)), push_agreed \<lparr>am_path = path, am_writer_count = length ws\<rparr> empty_report)
           else pick path ws))"

primrec program_of :: "(property_id \<Rightarrow> value_view option \<times> parse_report) \<Rightarrow> 'c parse_program \<Rightarrow> 'c option \<times> parse_report" where
  "program_of val (PP_return c) = (c, empty_report)"
| "program_of val (PP_get p k) =
     (fst (program_of val (k (fst (val p)))), report_add (snd (val p)) (snd (program_of val (k (fst (val p))))))"

lemma readable_component_try_get: "readable_component c \<Longrightarrow> component_try_get c p = property_of c p"
  by (simp add: component_try_get_def readable_component_def property_of_def level.lookup_map_of)

lemma readable_component_property: "readable_component c \<Longrightarrow> property_of c p = Some prop \<Longrightarrow> readable_property prop"
  by (force simp: readable_component_def property_of_def dest: map_of_SomeD)

lemma enc_False_iff: "enc v = enc (VBool False) \<longleftrightarrow> v = VBool False"
proof
  assume *: "enc v = enc (VBool False)"
  then have "kind_of_val v = Kind_boolean" using vv_kind_enc [of v, where 'a = unit] vv_kind_enc [of "VBool False", where 'a = unit] by simp
  then obtain b where "v = VBool b" by (cases v) auto
  with * scalar_accessors_enc(1) [of b, where 'a = unit] scalar_accessors_enc(1) [of False, where 'a = unit] show "v = VBool False" by simp
qed simp

lemma says_false_eq: "encoded_value (pv_value w) \<Longrightarrow> says_false w = Ok (pv_value w = enc (VBool False))"
proof -
  assume "encoded_value (pv_value w)"
  then obtain v where v: "pv_value w = enc v" by (auto simp: encoded_value_def)
  show ?thesis
    by (cases v) (simp_all add: says_false_def v enc_False_iff scalar_accessors_enc(1) del: enc.simps)
qed

lemma rall_eq: "(\<And>x. x \<in> set xs \<Longrightarrow> P x = Ok (Q x)) \<Longrightarrow> rall P xs = Ok (\<forall>x \<in> set xs. Q x)"
  by (induction xs) auto

lemma rany_eq: "(\<And>x. x \<in> set xs \<Longrightarrow> P x = Ok (Q x)) \<Longrightarrow> rany P xs = Ok (\<exists>x \<in> set xs. Q x)"
  by (induction xs) auto

lemma is_alive_yields:
  assumes "readable_component c"
  shows "yields (is_alive c path) (alive_of c path)"
proof (cases "property_of c reserved_alive")
  case None
  with assms show ?thesis by (simp add: yields_def is_alive_def alive_of_def readable_component_try_get)
next
  case (Some q)
  let ?P = "\<lambda>w. pv_value w = enc (VBool False)"
  from readable_component_property [OF assms Some] have "\<And>w. w \<in> set (rp_writers q) \<Longrightarrow> says_false w = Ok (?P w)"
    by (simp add: readable_property_def says_false_eq)
  then have "rall says_false (rp_writers q) = Ok (\<forall>w \<in> set (rp_writers q). ?P w)"
    "rany says_false (rp_writers q) = Ok (\<exists>w \<in> set (rp_writers q). ?P w)" by (intro rall_eq rany_eq; simp)+
  moreover have "filter ?P (rp_writers q) = rp_writers q \<longleftrightarrow> (\<forall>w \<in> set (rp_writers q). ?P w)"
    by (simp add: filter_id_conv)
  moreover have "filter ?P (rp_writers q) = [] \<longleftrightarrow> \<not> (\<exists>w \<in> set (rp_writers q). ?P w)" by (simp add: filter_empty_conv)
  ultimately show ?thesis using assms Some
    by (simp add: yields_def is_alive_def alive_of_def readable_component_try_get Let_def push_report_add [symmetric] del: enc.simps)
qed

lemma read_schema_version_eq:
  assumes "readable_component c"
  shows "read_schema_version c = Ok (version_of c)"
proof (cases "property_of c reserved_schema_version")
  case None
  with assms show ?thesis by (simp add: read_schema_version_def version_of_def readable_component_try_get)
next
  case (Some q)
  let ?w = "rp_writers q ! 0"
  from readable_component_property [OF assms Some] have ws: "rp_writers q \<noteq> []" and "encoded_value (pv_value ?w)"
    by (simp_all add: readable_property_def)
  then obtain v where v: "pv_value ?w = enc v" by (auto simp: encoded_value_def)
  have "(if kind_of_val v = Kind_integer then rbind (as_i64 (enc v)) (\<lambda>v. Ok (ucast v)) else Ok 0) = (Ok (stored_version (enc v)) :: 32 word checked)"
  proof (cases v)
    case (VInt w)
    then show ?thesis by (simp add: stored_version_def scalar_accessors_enc(2) del: enc.simps)
  qed (simp_all add: stored_version_def as_i64_def check_def del: enc.simps)
  with assms Some ws v show ?thesis
    by (simp add: read_schema_version_def version_of_def readable_component_try_get Let_def del: enc.simps cong: if_cong)
qed

subsection \<open>What a policy owes the parser\<close>

text \<open>What selection decides about one component, and about one entity.\<close>

definition reports :: "parse_report list \<Rightarrow> parse_report" where
  "reports xs = foldr report_add xs empty_report"

definition verdict_of :: "(component_type_id \<Rightarrow> component_schema option) \<Rightarrow> entity_id \<Rightarrow> component_type_id \<times> raw_component \<Rightarrow>
    selected_component option \<times> parse_report" where
  "verdict_of known e c =
     (case c of (t, raw) \<Rightarrow>
        if t = reserved_entity then (None, empty_report)
        else case known t of
            None \<Rightarrow> (None, empty_report)
          | Some schema \<Rightarrow>
              (let out = alive_of raw (Property_path e t reserved_alive);
                   v = version_of raw;
                   x = (if rv_agreed_writers v > 0
                        then push_agreed \<lparr>am_path = Property_path e t reserved_schema_version,
                               am_writer_count = rv_agreed_writers v\<rparr> (snd out)
                        else snd out) in
               if \<not> fst out then (None, snd out)
               else if rv_contested v \<or> sint (rv_version v) > sint (cs_current_version schema)
               then (None, push_diagnostic \<lparr>dg_kind = DK_unknown_schema_version, dg_path = Property_path e t [],
                        dg_chosen_writer = no_writer, dg_writer_count = (if rv_contested v then 2 else 1)\<rparr> x)
               else (Some \<lparr>sc_type = t, sc_schema = schema, sc_raw = raw, sc_version = rv_version v\<rparr>, x)))"

definition unknown_types :: "(component_type_id \<Rightarrow> component_schema option) \<Rightarrow> raw_entity \<Rightarrow> component_type_id list" where
  "unknown_types known raw = filter (\<lambda>t. t \<noteq> reserved_entity \<and> known t = None) (map fst (re_components raw))"

definition add_new :: "'a list \<Rightarrow> 'a list \<Rightarrow> 'a list" where
  "add_new = foldl (\<lambda>u t. if t \<in> set u then u else u @ [t])"

definition selected_of :: "(component_type_id \<Rightarrow> component_schema option) \<Rightarrow> entity_id \<Rightarrow> raw_entity \<Rightarrow> selected_component list" where
  "selected_of known e raw = List.map_filter (\<lambda>c. fst (verdict_of known e c)) (re_components raw)"

definition entity_report :: "(component_type_id \<Rightarrow> component_schema option) \<Rightarrow> (entity_id \<Rightarrow> raw_entity \<Rightarrow> bool \<times> parse_report) \<Rightarrow>
    entity_id \<Rightarrow> raw_entity \<Rightarrow> parse_report" where
  "entity_report known present e raw =
     report_add (snd (present e raw))
       (if fst (present e raw) then reports (map (\<lambda>c. snd (verdict_of known e c)) (re_components raw)) else empty_report)"

lemma reports_simps [simp]: "reports [] = empty_report" "reports (x # xs) = report_add x (reports xs)"
  by (simp_all add: reports_def)

lemma reports_append: "reports (xs @ ys) = report_add (reports xs) (reports ys)"
  by (induction xs) (simp_all add: report_add_assoc)

lemma add_new_simps [simp]:
  "add_new u [] = u" "add_new u (t # ts) = add_new (if t \<in> set u then u else u @ [t]) ts"
  by (simp_all add: add_new_def)

lemma add_new_append: "add_new u (xs @ ys) = add_new (add_new u xs) ys"
  by (simp add: add_new_def)

lemma add_new_spec: "set (add_new u ts) = set u \<union> set ts" "distinct u \<Longrightarrow> distinct (add_new u ts)"
  by (induction ts arbitrary: u) auto

locale parse_rules =
  fixes policy :: parse_policy
    and known :: "component_type_id \<Rightarrow> component_schema option"
    and present :: "entity_id \<Rightarrow> raw_entity \<Rightarrow> bool \<times> parse_report"
    and pick :: "property_path \<Rightarrow> property_value list \<Rightarrow> value_view option \<times> parse_report"
  assumes query: "po_query_schema policy t = Ok (known t)"
    and known_schema: "known t = Some s \<Longrightarrow> cs_type s = t \<and> cs_component_align s > 0"
    and instantiate: "readable_entity raw \<Longrightarrow> yields (po_should_instantiate policy e raw) (present e raw)"
    and resolve: "2 \<le> length ws \<Longrightarrow> yields (po_resolve policy path ws) (pick path ws)"
begin

lemma reader_try_get_yields:
  assumes c: "readable_component (prd_raw r)" and r: "prd_policy r = policy"
  shows "yields (reader_try_get r p) (value_of pick (prd_raw r) (prd_entity r) (prd_component r) p)"
proof (cases "property_of (prd_raw r) p")
  case None
  with c show ?thesis by (simp add: yields_def reader_try_get_def value_of_def readable_component_try_get)
next
  case (Some q)
  from readable_component_property [OF c Some] have ws: "rp_writers q \<noteq> []" by (simp add: readable_property_def)
  have "2 \<le> length (rp_writers q)" if "length (rp_writers q) \<noteq> 1" using ws that by (cases "rp_writers q") (auto simp: Suc_le_eq)
  then have "length (rp_writers q) \<noteq> 1 \<Longrightarrow> po_resolve policy path (rp_writers q) report =
      Ok (fst (pick path (rp_writers q)), report_add report (snd (pick path (rp_writers q))))" for path report
    using yieldsD [OF resolve] by blast
  with c Some ws r show ?thesis
    by (simp add: yields_def reader_try_get_def value_of_def readable_component_try_get Let_def push_report_add [symmetric])
qed

lemma run_program_yields:
  assumes c: "readable_component (prd_raw r)" and r: "prd_policy r = policy"
  shows "yields (run_program prog r) (program_of (value_of pick (prd_raw r) (prd_entity r) (prd_component r)) prog)"
proof (induction prog)
  case (PP_return x)
  then show ?case by (simp add: yields_def)
next
  case (PP_get p k)
  then show ?case
    by (simp add: yields_def reader_try_get_yields [OF c r, THEN yieldsD] report_add_assoc)
qed

lemma select_component_eq:
  assumes "readable_component raw"
  shows "select_component policy e (t, raw) (out, report, u) =
    Ok (out @ (case fst (verdict_of known e (t, raw)) of None \<Rightarrow> [] | Some sc \<Rightarrow> [sc]),
        report_add report (snd (verdict_of known e (t, raw))),
        add_new u (if t \<noteq> reserved_entity \<and> known t = None then [t] else []))"
proof -
  have alive: "is_alive raw (Property_path e t reserved_alive) report =
      Ok (fst (alive_of raw (Property_path e t reserved_alive)), report_add report (snd (alive_of raw (Property_path e t reserved_alive))))"
    using yieldsD [OF is_alive_yields [OF assms]] .
  show ?thesis
    by (simp add: select_component_def verdict_of_def query alive read_schema_version_eq [OF assms] Let_def push_report_add
        split: option.split)
qed

lemma select_components_eq:
  assumes "\<forall>c \<in> snd ` set cs. readable_component c"
  shows "rfold (select_component policy e) cs (out, report, u) =
    Ok (out @ List.map_filter (\<lambda>c. fst (verdict_of known e c)) cs, report_add report (reports (map (\<lambda>c. snd (verdict_of known e c)) cs)),
        add_new u (filter (\<lambda>t. t \<noteq> reserved_entity \<and> known t = None) (map fst cs)))"
  using assms
proof (induction cs arbitrary: out report u)
  case (Cons c cs)
  obtain t raw where c: "c = (t, raw)" by (cases c)
  have "readable_component raw" using Cons.prems c by simp
  from select_component_eq [OF this, of e t out report u] Cons c show ?case
    by (simp add: report_add_assoc add_new_append [symmetric] List.map_filter_simps split: option.split)
qed (simp add: List.map_filter_simps)

lemma select_entity_eq:
  assumes "readable_entity raw"
  shows "select_entity policy e raw (report, u) =
    Ok (\<lparr>es_instantiate = fst (present e raw), es_components = if fst (present e raw) then selected_of known e raw else []\<rparr>,
        report_add report (entity_report known present e raw),
        if fst (present e raw) then add_new u (unknown_types known raw) else u)"
  using yieldsD [OF instantiate [OF assms], of e report] assms
  by (simp add: select_entity_def select_components_eq readable_entity_def entity_report_def selected_of_def unknown_types_def
      report_add_assoc)

end

subsection \<open>Gathering\<close>

text \<open>
  What the walk over the entities leaves: the survivors, the components picked, the types nobody knows and the findings.
\<close>

definition survives :: "(entity_id \<Rightarrow> raw_entity option) \<Rightarrow> (entity_id \<Rightarrow> raw_entity \<Rightarrow> bool \<times> parse_report) \<Rightarrow> entity_id \<Rightarrow> bool" where
  "survives lookup present e = (case lookup e of None \<Rightarrow> False | Some raw \<Rightarrow> fst (present e raw))"

definition picked_at ::
  "(component_type_id \<Rightarrow> component_schema option) \<Rightarrow> (entity_id \<Rightarrow> raw_entity \<Rightarrow> bool \<times> parse_report) \<Rightarrow> (entity_id \<Rightarrow> raw_entity option) \<Rightarrow>
   entity_id \<Rightarrow> selected_component list" where
  "picked_at known present lookup e =
     (case lookup e of None \<Rightarrow> [] | Some raw \<Rightarrow> if fst (present e raw) then selected_of known e raw else [])"

definition picked ::
  "(component_type_id \<Rightarrow> component_schema option) \<Rightarrow> (entity_id \<Rightarrow> raw_entity \<Rightarrow> bool \<times> parse_report) \<Rightarrow> (entity_id \<Rightarrow> raw_entity option) \<Rightarrow>
   entity_id list \<Rightarrow> (entity_id \<times> selected_component) list" where
  "picked known present lookup es = concat (map (\<lambda>e. map (Pair e) (picked_at known present lookup e)) es)"

definition unknown_in ::
  "(component_type_id \<Rightarrow> component_schema option) \<Rightarrow> (entity_id \<Rightarrow> raw_entity \<Rightarrow> bool \<times> parse_report) \<Rightarrow> (entity_id \<Rightarrow> raw_entity option) \<Rightarrow>
   entity_id list \<Rightarrow> component_type_id list" where
  "unknown_in known present lookup es = concat (map (\<lambda>e.
     case lookup e of None \<Rightarrow> [] | Some raw \<Rightarrow> if fst (present e raw) then unknown_types known raw else []) es)"

definition gather_report ::
  "(component_type_id \<Rightarrow> component_schema option) \<Rightarrow> (entity_id \<Rightarrow> raw_entity \<Rightarrow> bool \<times> parse_report) \<Rightarrow> (entity_id \<Rightarrow> raw_entity option) \<Rightarrow>
   entity_id list \<Rightarrow> parse_report" where
  "gather_report known present lookup es = reports (map (\<lambda>e.
     case lookup e of None \<Rightarrow> empty_report | Some raw \<Rightarrow> entity_report known present e raw) es)"

text \<open>Every entity the source has reads.\<close>

definition readable_source :: "(entity_id \<Rightarrow> raw_entity option) \<Rightarrow> entity_id list \<Rightarrow> bool" where
  "readable_source lookup es \<longleftrightarrow> (\<forall>e \<in> set es. \<forall>raw. lookup e = Some raw \<longrightarrow> readable_entity raw)"

lemma readable_sourceD: "readable_source lookup es \<Longrightarrow> e \<in> set es \<Longrightarrow> lookup e = Some raw \<Longrightarrow> readable_entity raw"
  by (simp add: readable_source_def)

definition file_picked :: "(entity_id \<times> selected_component) list \<Rightarrow> pending_column list \<Rightarrow> pending_column list" where
  "file_picked ps cols = foldl (\<lambda>cols (e, sc). file_candidate e cols sc) cols ps"

context parse_rules
begin

lemma gather_entities_eq:
  assumes "readable_source lookup es"
  shows "rfold (gather_entity lookup policy) es (s, cols, u, r) =
    Ok (s @ filter (survives lookup present) es, file_picked (picked known present lookup es) cols,
        add_new u (unknown_in known present lookup es), report_add r (gather_report known present lookup es))"
  using assms
proof (induction es arbitrary: s cols u r)
  case (Cons e es)
  have filing: "foldl (file_candidate e) cols scs = file_picked (map (Pair e) scs) cols" for scs cols
    by (induction scs arbitrary: cols) (simp_all add: file_picked_def)
  have step: "gather_entity lookup policy e (s, cols, u, r) =
    Ok (s @ filter (survives lookup present) [e], file_picked (picked known present lookup [e]) cols,
        add_new u (unknown_in known present lookup [e]), report_add r (gather_report known present lookup [e]))"
  proof (cases "lookup e")
    case None
    then show ?thesis
      by (simp add: gather_entity_def survives_def picked_def picked_at_def unknown_in_def gather_report_def file_picked_def)
  next
    case (Some raw)
    have "readable_entity raw" using readable_sourceD [OF Cons.prems, of e raw] Some by simp
    with Some show ?thesis
      by (simp add: gather_entity_def survives_def picked_def picked_at_def unknown_in_def gather_report_def select_entity_eq filing
          file_picked_def [of "[]"])
  qed
  have IH: "rfold (gather_entity lookup policy) es (s, cols, u, r) =
    Ok (s @ filter (survives lookup present) es, file_picked (picked known present lookup es) cols,
        add_new u (unknown_in known present lookup es), report_add r (gather_report known present lookup es))" for s cols u r
    by (rule Cons.IH) (use Cons.prems in \<open>simp add: readable_source_def\<close>)
  show ?case
    by (simp add: step IH) (simp add: picked_def unknown_in_def gather_report_def file_picked_def add_new_append report_add_assoc)
qed (simp add: picked_def unknown_in_def gather_report_def file_picked_def)

end

subsection \<open>Filing candidates into columns\<close>

definition candidate_of :: "entity_id \<times> selected_component \<Rightarrow> candidate" where
  "candidate_of p = \<lparr>ca_entity = fst p, ca_raw = sc_raw (snd p), ca_version = sc_version (snd p)\<rparr>"

definition of_type :: "component_type_id \<Rightarrow> (entity_id \<times> selected_component) list \<Rightarrow> (entity_id \<times> selected_component) list" where
  "of_type t ps = filter (\<lambda>p. sc_type (snd p) = t) ps"

definition filed :: "pending_column list \<Rightarrow> (entity_id \<times> selected_component) list \<Rightarrow> bool" where
  "filed cols ps \<longleftrightarrow> distinct (map pc_type cols) \<and> pc_type ` set cols = (\<lambda>p. sc_type (snd p)) ` set ps \<and>
     (\<forall>c \<in> set cols. pc_candidates c = map candidate_of (of_type (pc_type c) ps) \<and>
        pc_schema c \<in> (\<lambda>p. sc_schema (snd p)) ` set (of_type (pc_type c) ps))"

lemma index_where_Some: "index_where P xs = Some i \<Longrightarrow> i < length xs \<and> P (xs ! i)"
  by (induction xs arbitrary: i) (auto split: if_splits)

lemma index_where_None: "index_where P xs = None \<longleftrightarrow> (\<forall>x \<in> set xs. \<not> P x)"
  by (induction xs) auto

lemma file_candidate_filed:
  assumes "filed cols ps"
  shows "filed (file_candidate e cols sc) (ps @ [(e, sc)])"
proof (cases "index_where (\<lambda>c. pc_type c = sc_type sc) cols")
  case None
  then have new: "sc_type sc \<notin> pc_type ` set cols" by (auto simp: index_where_None)
  with assms have "of_type (sc_type sc) ps = []" by (force simp: filed_def of_type_def filter_empty_conv)
  with None new assms show ?thesis
    by (auto simp: file_candidate_def filed_def of_type_def candidate_of_def)
next
  case (Some i)
  from index_where_Some [OF Some] have i: "i < length cols" "pc_type (cols ! i) = sc_type sc" by simp_all
  let ?c = "(cols ! i)\<lparr>pc_candidates := pc_candidates (cols ! i) @ [candidate_of (e, sc)]\<rparr>"
  have eq: "file_candidate e cols sc = cols[i := ?c]" using Some by (simp add: file_candidate_def candidate_of_def)
  have types: "map pc_type (cols[i := ?c]) = map pc_type cols"
    using i by (simp add: map_update) (metis i(2) length_map list_update_id nth_map)
  have "pc_type ` set (cols[i := ?c]) = pc_type ` set cols" by (metis list.set_map types)
  moreover have "sc_type sc \<in> pc_type ` set cols" using i by (metis imageI nth_mem)
  moreover have "pc_candidates c = map candidate_of (of_type (pc_type c) (ps @ [(e, sc)])) \<and>
      pc_schema c \<in> (\<lambda>p. sc_schema (snd p)) ` set (of_type (pc_type c) (ps @ [(e, sc)]))" if "c \<in> set (cols[i := ?c])" for c
  proof -
    from that obtain j where j: "j < length cols" "c = (if j = i then ?c else cols ! j)"
      by (auto simp: in_set_conv_nth nth_list_update)
    have old: "pc_candidates (cols ! j) = map candidate_of (of_type (pc_type (cols ! j)) ps) \<and>
        pc_schema (cols ! j) \<in> (\<lambda>p. sc_schema (snd p)) ` set (of_type (pc_type (cols ! j)) ps)"
      using assms j(1) by (simp add: filed_def)
    show ?thesis
    proof (cases "j = i")
      case True
      with old j i show ?thesis by (auto simp: of_type_def)
    next
      case False
      have "pc_type (cols ! j) \<noteq> sc_type sc"
        using assms j(1) i False by (metis distinct_map filed_def inj_on_eq_iff nth_eq_iff_index_eq nth_mem)
      with old j False show ?thesis by (auto simp: of_type_def)
    qed
  qed
  ultimately show ?thesis using assms unfolding eq filed_def types by auto
qed

lemma file_picked_filed: "filed (file_picked ps []) ps"
proof (induction ps rule: rev_induct)
  case (snoc p ps)
  then show ?case using file_candidate_filed [of "file_picked ps []" ps "fst p" "snd p"]
    by (simp add: file_picked_def case_prod_unfold)
qed (simp add: file_picked_def filed_def)

end
