(* ===== verification/Document_Builder.thy ===== *)
theory Document_Builder
  imports Typed_Document
begin

text \<open>
  Evolving a typed document in place (document_builder.hh/.cc).  The builder holds nothing but the document it adopted, so
  its state is a document; what the code does with pointers into a column's arrays is done on the column at an index.
\<close>

datatype change_kind = CK_added | CK_removed | CK_modified

definition slot_for :: "entity_id slots \<Rightarrow> nat \<Rightarrow> entity_id \<Rightarrow> nat checked" where
  "slot_for entities n e = slot_lower entities (\<lambda>v. id_compare_bytes v e < 0) 0 n"

definition occupies :: "entity_id slots \<Rightarrow> nat \<Rightarrow> nat \<Rightarrow> entity_id \<Rightarrow> bool checked" where
  "occupies entities n at e = (if at < n then rbind (slot_read entities at) (\<lambda>v. Ok (v = e)) else Ok False)"

definition grown :: "nat \<Rightarrow> nat" where
  "grown needed = max 8 (needed + needed div 2)"

definition slot_bytes :: "'c component_column \<Rightarrow> nat" where
  "slot_bytes c = entity_id_size + cs_component_size (cc_schema c)"

text \<open>The builder adopts a document and sees to it that there is an arena.\<close>

definition new_document_builder :: "'c document \<Rightarrow> 'c document" where
  "new_document_builder d = (if td_arena d = None then d\<lparr>td_arena := Some new_arena\<rparr> else d)"

definition doc_note_dead :: "nat \<Rightarrow> 'c document \<Rightarrow> 'c document checked" where
  "doc_note_dead n d = (case td_arena d of None \<Rightarrow> Fault | Some a \<Rightarrow> Ok (d\<lparr>td_arena := Some (note_dead n a)\<rparr>))"

subsection \<open>Entities\<close>

definition grow_entities :: "system \<Rightarrow> nat \<Rightarrow> 'c document \<Rightarrow> 'c document checked" where
  "grow_entities sys at d =
     (let capacity = grown (td_entity_count d + 1) in
      rbind (doc_allocate sys (capacity * entity_id_size) entity_id_align d) (\<lambda>d.
      rbind (copy_slots (replicate capacity None) (td_entities d) 0 0 at) (\<lambda>fresh.
      rbind (copy_slots fresh (td_entities d) (at + 1) at (td_entity_count d - at)) (\<lambda>fresh.
      rbind (doc_note_dead (td_entity_capacity d * entity_id_size) d) (\<lambda>d.
      Ok (d\<lparr>td_entities := fresh, td_entity_capacity := capacity\<rparr>))))))"

definition insert_entity :: "system \<Rightarrow> entity_id \<Rightarrow> 'c document \<Rightarrow> (bool \<times> 'c document) checked" where
  "insert_entity sys e d =
     rbind (slot_for (td_entities d) (td_entity_count d) e) (\<lambda>at.
     rbind (occupies (td_entities d) (td_entity_count d) at e) (\<lambda>present.
       if present then Ok (False, d)
       else
         rbind (if td_entity_count d = td_entity_capacity d then grow_entities sys at d
                else rbind (open_slot (td_entities d) (td_entity_count d) at) (\<lambda>arr. Ok (d\<lparr>td_entities := arr\<rparr>))) (\<lambda>d.
         rbind (slot_write (td_entities d) at e) (\<lambda>arr.
         Ok (True, d\<lparr>td_entities := arr, td_entity_count := td_entity_count d + 1\<rparr>)))))"

subsection \<open>Columns\<close>

definition impl_column_for :: "component_schema \<Rightarrow> 'c document \<Rightarrow> (nat \<times> 'c document) checked" where
  "impl_column_for schema d =
     (let cols = td_columns d;
          at = first_at_least_in_sorted cols (cs_type schema) (\<lambda>c t. id_compare_bytes (column_type c) t < 0) in
      if at < length cols \<and> column_type (cols ! at) = cs_type schema then
        rbind (check (cs_type_key (cc_schema (cols ! at)) = cs_type_key schema)) (\<lambda>_. Ok (at, d))
      else
        Ok (at, d\<lparr>td_columns := take at cols @ \<lparr>cc_schema = schema, cc_entities = [], cc_components = [], cc_count = 0,
                   cc_capacity = 0\<rparr> # drop at cols\<rparr>))"

definition impl_reserve_one :: "system \<Rightarrow> nat \<Rightarrow> 'c document \<Rightarrow> 'c document checked" where
  "impl_reserve_one sys index d =
     rbind (vat (td_columns d) index) (\<lambda>c.
       if cc_count c < cc_capacity c then Ok d
       else
         (let capacity = grown (cc_count c + 1) in
          rbind (doc_allocate sys (capacity * entity_id_size) entity_id_align d) (\<lambda>d.
          rbind (doc_allocate sys (capacity * cs_component_size (cc_schema c)) (cs_component_align (cc_schema c)) d) (\<lambda>d.
          rbind (copy_slots (replicate capacity None) (cc_entities c) 0 0 (cc_count c)) (\<lambda>ids.
          rbind (relocate_between (replicate capacity None) (cc_components c) (cc_count c)) (\<lambda>(components, _).
          rbind (doc_note_dead (cc_capacity c * slot_bytes c) d) (\<lambda>d.
          rbind (vset (td_columns d) index (c\<lparr>cc_entities := ids, cc_components := components, cc_capacity := capacity\<rparr>)) (\<lambda>cols.
          Ok (d\<lparr>td_columns := cols\<rparr>)))))))))"

definition impl_drop_if_empty :: "nat \<Rightarrow> 'c document \<Rightarrow> 'c document checked" where
  "impl_drop_if_empty index d =
     rbind (vat (td_columns d) index) (\<lambda>c.
       if cc_count c > 0 then Ok d
       else
         rbind (doc_note_dead (cc_capacity c * slot_bytes c) d) (\<lambda>d.
         Ok (d\<lparr>td_columns := take index (td_columns d) @ drop (index + 1) (td_columns d)\<rparr>)))"

text \<open>Closing the hole a destroyed component left at \<open>at\<close>, and dropping the column if that was its last one.\<close>

definition close_hole :: "nat \<Rightarrow> nat \<Rightarrow> 'c component_column \<Rightarrow> 'c document \<Rightarrow> 'c document checked" where
  "close_hole index at c d =
     rbind (relocate_range (cc_components c) at (at + 1) (cc_count c - at - 1)) (\<lambda>comps.
     rbind (close_slot (cc_entities c) (cc_count c) at) (\<lambda>ids.
     rbind (vset (td_columns d) index (c\<lparr>cc_components := comps, cc_entities := ids, cc_count := cc_count c - 1\<rparr>)) (\<lambda>cols.
     impl_drop_if_empty index (d\<lparr>td_columns := cols\<rparr>))))"

text \<open>An existing component: destroyed first, then built anew in its slot or dropped.\<close>

definition replace_component ::
  "nat \<Rightarrow> nat \<Rightarrow> ('s \<Rightarrow> ('c option \<times> 's) checked) \<Rightarrow> 'c document \<times> 's \<Rightarrow> (change_kind \<times> 'c document \<times> 's) checked" where
  "replace_component index at construct ds =
     (case ds of (d, s) \<Rightarrow>
        rbind (vat (td_columns d) index) (\<lambda>c.
        rbind (destroy_range (cc_components c) at 1) (\<lambda>comps.
        rbind (construct s) (\<lambda>(built, s).
          case built of
            Some v \<Rightarrow>
              rbind (slot_construct comps at v) (\<lambda>comps.
              rbind (vset (td_columns d) index (c\<lparr>cc_components := comps\<rparr>)) (\<lambda>cols.
              Ok (CK_modified, d\<lparr>td_columns := cols\<rparr>, s)))
          | None \<Rightarrow> rbind (close_hole index at (c\<lparr>cc_components := comps\<rparr>) d) (\<lambda>d. Ok (CK_removed, d, s))))))"

text \<open>A new component: the hole is opened before it is built, and closed again if nothing is.\<close>

definition insert_component ::
  "system \<Rightarrow> nat \<Rightarrow> entity_id \<Rightarrow> ('s \<Rightarrow> ('c option \<times> 's) checked) \<Rightarrow> 'c document \<times> 's \<Rightarrow>
   (change_kind \<times> 'c document \<times> 's) checked" where
  "insert_component sys index e construct ds =
     (case ds of (d, s) \<Rightarrow>
        rbind (impl_reserve_one sys index d) (\<lambda>d.
        rbind (vat (td_columns d) index) (\<lambda>c.
        rbind (slot_for (cc_entities c) (cc_count c) e) (\<lambda>at.
        rbind (relocate_range (cc_components c) (at + 1) at (cc_count c - at)) (\<lambda>comps.
        rbind (construct s) (\<lambda>(built, s).
          case built of
            None \<Rightarrow>
              rbind (relocate_range comps at (at + 1) (cc_count c - at)) (\<lambda>comps.
              rbind (vset (td_columns d) index (c\<lparr>cc_components := comps\<rparr>)) (\<lambda>cols.
              rbind (impl_drop_if_empty index (d\<lparr>td_columns := cols\<rparr>)) (\<lambda>d. Ok (CK_removed, d, s))))
          | Some v \<Rightarrow>
              rbind (slot_construct comps at v) (\<lambda>comps.
              rbind (open_slot (cc_entities c) (cc_count c) at) (\<lambda>ids.
              rbind (slot_write ids at e) (\<lambda>ids.
              rbind (vset (td_columns d) index (c\<lparr>cc_components := comps, cc_entities := ids, cc_count := cc_count c + 1\<rparr>)) (\<lambda>cols.
              Ok (CK_added, d\<lparr>td_columns := cols\<rparr>, s)))))))))))"

definition set_typed_component ::
  "system \<Rightarrow> component_schema \<Rightarrow> entity_id \<Rightarrow> ('s \<Rightarrow> ('c option \<times> 's) checked) \<Rightarrow> 'c document \<times> 's \<Rightarrow>
   (change_kind \<times> 'c document \<times> 's) checked" where
  "set_typed_component sys schema e construct ds =
     (case ds of (d, s) \<Rightarrow>
        rbind (rbind (doc_contains d e) check) (\<lambda>_.
        rbind (check (cs_relocate_range schema \<noteq> 0)) (\<lambda>_.
        rbind (impl_column_for schema d) (\<lambda>(index, d).
        rbind (vat (td_columns d) index) (\<lambda>c.
        rbind (slot_for (cc_entities c) (cc_count c) e) (\<lambda>at.
        rbind (occupies (cc_entities c) (cc_count c) at e) (\<lambda>present.
          if present then replace_component index at construct (d, s)
          else insert_component sys index e construct (d, s))))))))"

definition remove_typed_component :: "component_type_id \<Rightarrow> entity_id \<Rightarrow> 'c document \<Rightarrow> (bool \<times> 'c document) checked" where
  "remove_typed_component t e d =
     (let cols = td_columns d;
          index = first_at_least_in_sorted cols t (\<lambda>c t. id_compare_bytes (column_type c) t < 0) in
      if index \<ge> length cols \<or> column_type (cols ! index) \<noteq> t then Ok (False, d)
      else
        (let c = cols ! index in
         rbind (slot_for (cc_entities c) (cc_count c) e) (\<lambda>at.
         rbind (occupies (cc_entities c) (cc_count c) at e) (\<lambda>present.
           if \<not> present then Ok (False, d)
           else
             rbind (destroy_range (cc_components c) at 1) (\<lambda>comps.
             rbind (close_hole index at (c\<lparr>cc_components := comps\<rparr>) d) (\<lambda>d. Ok (True, d)))))))"

definition remove_typed_entity :: "entity_id \<Rightarrow> 'c document \<Rightarrow> (bool \<times> 'c document) checked" where
  "remove_typed_entity e d =
     rbind (slot_for (td_entities d) (td_entity_count d) e) (\<lambda>at.
     rbind (occupies (td_entities d) (td_entity_count d) at e) (\<lambda>present.
       if \<not> present then Ok (False, d)
       else
         rbind (rfold (\<lambda>i d. rbind (vat (td_columns d) i) (\<lambda>c.
                   rbind (remove_typed_component (column_type c) e d) (\<lambda>(_, d). Ok d))) (rev [0..<length (td_columns d)]) d) (\<lambda>d.
         rbind (close_slot (td_entities d) (td_entity_count d) at) (\<lambda>arr.
         Ok (True, d\<lparr>td_entities := arr, td_entity_count := td_entity_count d - 1\<rparr>)))))"

subsection \<open>Compaction\<close>

definition compact_column :: "system \<Rightarrow> 'c component_column \<Rightarrow> document_arena \<times> 'c component_column list \<Rightarrow>
    (document_arena \<times> 'c component_column list) checked" where
  "compact_column sys c st =
     (case st of (fresh, out) \<Rightarrow>
        rbind (arena_allocate sys (cc_count c * entity_id_size) entity_id_align fresh) (\<lambda>(_, fresh).
        rbind (arena_allocate sys (cc_count c * cs_component_size (cc_schema c)) (cs_component_align (cc_schema c)) fresh) (\<lambda>(_, fresh).
        rbind (copy_slots (replicate (cc_count c) None) (cc_entities c) 0 0 (cc_count c)) (\<lambda>ids.
        rbind (relocate_between (replicate (cc_count c) None) (cc_components c) (cc_count c)) (\<lambda>(components, _).
        Ok (fresh, out @ [c\<lparr>cc_entities := ids, cc_components := components, cc_capacity := cc_count c\<rparr>]))))))"

definition compact :: "system \<Rightarrow> 'c document \<Rightarrow> 'c document checked" where
  "compact sys d =
     rbind (arena_allocate sys (td_entity_count d * entity_id_size) entity_id_align new_arena) (\<lambda>(_, fresh).
     rbind (copy_slots (replicate (td_entity_count d) None) (td_entities d) 0 0 (td_entity_count d)) (\<lambda>entities.
     rbind (rfold (compact_column sys) (td_columns d) (fresh, [])) (\<lambda>(fresh, cols).
     Ok (d\<lparr>td_columns := cols, td_entities := entities, td_entity_capacity := td_entity_count d, td_arena := Some fresh\<rparr>))))"

definition dead_arena_bytes :: "'c document \<Rightarrow> int checked" where
  "dead_arena_bytes d = (case td_arena d of None \<Rightarrow> Fault | Some a \<Rightarrow> Ok (da_dead_bytes a))"

definition live_arena_bytes :: "'c document \<Rightarrow> int checked" where
  "live_arena_bytes d = (case td_arena d of None \<Rightarrow> Fault | Some a \<Rightarrow> Ok (arena_live_bytes a))"

text \<open>The builder is left empty.\<close>

definition freeze :: "'c document \<Rightarrow> 'c document \<times> 'c document" where
  "freeze b = move_document b"

subsection \<open>Sorted lists, edited at the position of a key\<close>

lemma before_key_map: "before_key (\<lambda>v. v) k (map f vs) = before_key f k vs"
  by (simp add: takeWhile_map comp_def)

lemma sorted_insert_key:
  assumes "sorted_wrt (<) (map f vs)" "f v \<notin> f ` set vs"
  shows "sorted_wrt (<) (map f (take (before_key f (f v) vs) vs @ v # drop (before_key f (f v) vs) vs) :: 'k::linorder list)"
proof -
  define at where "at = before_key f (f v) vs"
  have lt: "f w < f v" if "w \<in> set (take at vs)" for w
    using that sorted_before_key(1) [OF assms(1), of _ "f v", folded at_def] by (auto simp: in_set_conv_nth)
  have gt: "f v < f w" if "w \<in> set (drop at vs)" for w
  proof -
    from that obtain i where i: "i < length vs" "at \<le> i" "vs ! i = w" by (auto simp: in_set_conv_nth) (metis add.commute le_add1 less_diff_conv)
    with sorted_before_key(2) [OF assms(1), of "f v" i, folded at_def] have "f v \<le> f w" by simp
    moreover have "f v \<noteq> f w" using assms(2) i by (metis image_eqI nth_mem)
    ultimately show ?thesis by simp
  qed
  have s: "sorted_wrt (<) (map f (take at vs))" "sorted_wrt (<) (map f (drop at vs))"
    using assms(1) by (simp_all add: take_map [symmetric] drop_map [symmetric] sorted_wrt_take sorted_wrt_drop)
  have "f w < f u" if "w \<in> set (take at vs)" "u \<in> set (drop at vs)" for w u
    using lt [OF that(1)] gt [OF that(2)] by (rule less_trans)
  then show ?thesis using s lt gt unfolding at_def [symmetric] by (simp add: sorted_wrt_append)
qed

lemma sorted_delete_at: "sorted_wrt P (map f vs) \<Longrightarrow> sorted_wrt P (map f (take i vs @ drop (Suc i) vs))"
proof (cases "i < length vs")
  case True
  then show "sorted_wrt P (map f vs) \<Longrightarrow> ?thesis" by (subst (asm) id_take_nth_drop [OF True]) (auto simp: sorted_wrt_append)
qed simp

lemma map_of_insert_key:
  assumes "e \<notin> fst ` set xs"
  shows "map_of (take i xs @ (e, v) # drop i xs) = (map_of xs)(e \<mapsto> v)"
proof -
  have "map_of (take i xs) e = None" using assms by (auto simp: map_of_eq_None_iff dest: in_set_takeD)
  moreover have "map_of xs k = (map_of (drop i xs) ++ map_of (take i xs)) k" for k by (metis append_take_drop_id map_of_append)
  ultimately show ?thesis by (auto simp: fun_eq_iff map_add_def split: option.split)
qed

lemma map_of_delete_at:
  assumes "distinct (map fst xs)" "i < length xs"
  shows "map_of (take i xs @ drop (Suc i) xs) = (map_of xs)(fst (xs ! i) := None)"
proof -
  have xs: "xs = take i xs @ xs ! i # drop (Suc i) xs" using assms(2) by (simp add: id_take_nth_drop)
  have d: "fst (xs ! i) \<notin> fst ` set (take i xs)" "fst (xs ! i) \<notin> fst ` set (drop (Suc i) xs)"
    using assms(1) by (subst (asm) xs; simp)+
  have "map_of xs k = map_of (take i xs @ (fst (xs ! i), snd (xs ! i)) # drop (Suc i) xs) k" for k using xs by simp
  then show ?thesis
    using d by (auto simp: fun_eq_iff map_add_def map_of_eq_None_iff [symmetric] split: option.split)
qed

lemma set_delete_at:
  assumes "distinct xs" "i < length xs"
  shows "set (take i xs @ drop (Suc i) xs) = set xs - {xs ! i}"
  using assms by (subst (3) id_take_nth_drop [OF assms(2)]) (subst (asm) id_take_nth_drop [OF assms(2)], auto)

lemma map_of_update_at:
  assumes "distinct (map fst xs)" "i < length xs"
  shows "map_of (xs[i := (fst (xs ! i), v)]) = (map_of xs)(fst (xs ! i) \<mapsto> v)"
proof -
  have xs: "xs = take i xs @ xs ! i # drop (Suc i) xs" using assms(2) by (simp add: id_take_nth_drop)
  have d: "fst (xs ! i) \<notin> fst ` set (take i xs)" using assms(1) by (subst (asm) xs; simp)
  have "map_of xs k = map_of (take i xs @ (fst (xs ! i), snd (xs ! i)) # drop (Suc i) xs) k" for k using xs by simp
  then show ?thesis
    using d by (auto simp: fun_eq_iff map_add_def map_of_eq_None_iff [symmetric] upd_conv_take_nth_drop [OF assms(2)] split: option.split)
qed

subsection \<open>Allocation and lookup never fail\<close>

lemma arena_allocate_total: "al > 0 \<Longrightarrow> \<exists>r. arena_allocate sys n al a = Ok r"
proof (cases "n = 0")
  case False
  assume al: "al > 0"
  have b: "\<exists>r. bump n al c = Ok r" if "da_blocks c \<noteq> []" for c using that by (simp add: bump_def Let_def)
  have "da_blocks ((add_block sys m c)\<lparr>da_next_block_size := k\<rparr>) \<noteq> []" for m c k by (simp add: add_block_def split: prod.split)
  then show ?thesis using al False b by (auto simp: arena_allocate_def check_def Let_def)
qed (simp add: arena_allocate_def check_def)

lemma doc_allocate_eq:
  assumes "td_arena d \<noteq> None" "al > 0"
  shows "\<exists>a. doc_allocate sys n al d = Ok (d\<lparr>td_arena := Some a\<rparr>)"
  using assms(1) arena_allocate_total [OF assms(2), of sys n "the (td_arena d)"] by (auto simp: doc_allocate_def)

lemma slot_for_eq: "starts arr es \<Longrightarrow> sorted_wrt (<) es \<Longrightarrow> slot_for arr (length es) e = Ok (before_key (\<lambda>v. v) e es)"
  using slot_lower_spec [of arr es "\<lambda>v. v" "\<lambda>v. id_compare_bytes v e < 0" e] by (simp add: slot_for_def)

lemma occupies_eq:
  assumes "starts arr es" "sorted_wrt (<) es"
  shows "occupies arr (length es) (before_key (\<lambda>v. v) e es) e = Ok (e \<in> set es)"
proof -
  have "sorted_wrt (<) (map (\<lambda>v. v) es)" using assms(2) by simp
  note o = occupies_iff [OF this, of e]
  show ?thesis
  proof (cases "before_key (\<lambda>v. v) e es < length es")
    case True
    then show ?thesis using o by (auto simp: occupies_def slot_read_starts [OF assms(1)])
  next
    case False
    then show ?thesis using o by (simp add: occupies_def)
  qed
qed

subsection \<open>The entity table\<close>

lemma grow_entities_spec:
  assumes h: "entities_hold d es" and a: "td_arena d \<noteq> None" and at: "at \<le> length es"
  shows "\<exists>b arr c. grow_entities sys at d = Ok (d\<lparr>td_arena := Some b, td_entities := arr, td_entity_capacity := c\<rparr>) \<and>
    length arr = c \<and> length es < c \<and> slot_write arr at e = (Ok (arr[at := Some e]) :: entity_id slots checked) \<and>
    starts (arr[at := Some e]) (take at es @ e # drop at es)"
proof -
  let ?c = "grown (length es + 1)"
  have c: "length es < ?c" by (simp add: grown_def)
  obtain b where b: "doc_allocate sys (?c * 8) 8 d = Ok (d\<lparr>td_arena := Some b\<rparr>)" using doc_allocate_eq [OF a, of 8 sys] by auto
  have st: "starts (td_entities d) es" and n: "td_entity_count d = length es" using h by (simp_all add: entities_hold_def)
  let ?f1 = "take 0 (replicate ?c None) @ map Some (take at (drop 0 es)) @ drop (0 + at) (replicate ?c None)"
  have c1: "copy_slots (replicate ?c None) (td_entities d) 0 0 at = (Ok ?f1 :: entity_id slots checked)"
    by (rule copy_slots_spec [OF st]) (use at c in simp_all)
  let ?f2 = "take (at + 1) ?f1 @ map Some (take (length es - at) (drop at es)) @ drop (at + 1 + (length es - at)) ?f1"
  have c2: "copy_slots ?f1 (td_entities d) (at + 1) at (length es - at) = (Ok ?f2 :: entity_id slots checked)"
    by (rule copy_slots_spec [OF st]) (use at c in simp_all)
  have f1: "?f1 = map Some (take at es) @ None # replicate (?c - Suc at) None"
    using at c by (simp add: Cons_replicate_eq) (metis Suc_diff_Suc le_less_trans replicate_Suc)
  have f2: "?f2 = map Some (take at es) @ None # map Some (drop at es) @ replicate (?c - Suc (length es)) None"
    unfolding f1 using at c by (simp add: take_map [symmetric] drop_map [symmetric] Suc_diff_le)
  have "length ?f2 = ?c" unfolding f2 using at c by simp
  moreover have "?f2[at := Some e] = map Some (take at es) @ Some e # map Some (drop at es) @ replicate (?c - Suc (length es)) None"
    unfolding f2 using at by (simp add: list_update_append)
  then have "starts (?f2[at := Some e]) (take at es @ e # drop at es)" by (auto simp: starts_def)
  moreover have "slot_write ?f2 at e = (Ok (?f2[at := Some e]) :: entity_id slots checked)"
    using at c \<open>length ?f2 = ?c\<close> by (simp add: slot_write_def)
  moreover have "\<exists>b. grow_entities sys at d = Ok (d\<lparr>td_arena := Some b, td_entities := ?f2, td_entity_capacity := ?c\<rparr>)"
  proof -
    have n': "td_entity_count d + 1 = length es + 1" using n by simp
    have "grow_entities sys at d = rbind (copy_slots (replicate ?c None) (td_entities d) 0 0 at) (\<lambda>fresh.
        rbind (copy_slots fresh (td_entities d) (at + 1) at (length es - at)) (\<lambda>fresh.
        Ok (d\<lparr>td_arena := Some (note_dead (td_entity_capacity d * 8) b), td_entities := fresh, td_entity_capacity := ?c\<rparr>)))"
      unfolding grow_entities_def Let_def n' b rbind.simps by (simp add: doc_note_dead_def n)
    then have "grow_entities sys at d =
        Ok (d\<lparr>td_arena := Some (note_dead (td_entity_capacity d * 8) b), td_entities := ?f2, td_entity_capacity := ?c\<rparr>)"
      unfolding c1 rbind.simps unfolding c2 rbind.simps .
    then show ?thesis by blast
  qed
  ultimately show ?thesis using c by blast
qed

lemma insert_entity_spec:
  assumes h: "entities_hold d es" and a: "td_arena d \<noteq> None"
  shows "e \<in> set es \<Longrightarrow> insert_entity sys e d = Ok (False, d)"
    and "e \<notin> set es \<Longrightarrow> \<exists>b arr c. insert_entity sys e d =
        Ok (True, d\<lparr>td_arena := Some b, td_entities := arr, td_entity_capacity := c, td_entity_count := Suc (length es)\<rparr>) \<and>
      (\<forall>cols. entities_hold (d\<lparr>td_arena := Some b, td_entities := arr, td_entity_capacity := c,
         td_entity_count := Suc (length es), td_columns := cols\<rparr>) (sorted_list_of_set (insert e (set es))))"
proof -
  have st: "starts (td_entities d) es" "length (td_entities d) = td_entity_capacity d" "td_entity_count d = length es"
    "length es \<le> td_entity_capacity d" "sorted_wrt (<) es" using h by (simp_all add: entities_hold_def)
  define at where "at = before_key (\<lambda>v. v) e es"
  have at: "at \<le> length es" unfolding at_def by (rule length_takeWhile_le)
  have find: "slot_for (td_entities d) (length es) e = Ok at" "occupies (td_entities d) (length es) at e = Ok (e \<in> set es)"
    unfolding at_def using slot_for_eq occupies_eq st(1,5) by blast+
  show "insert_entity sys e d = Ok (False, d)" if "e \<in> set es" using that find st(3) by (simp add: insert_entity_def)
  show "\<exists>b arr c. insert_entity sys e d =
        Ok (True, d\<lparr>td_arena := Some b, td_entities := arr, td_entity_capacity := c, td_entity_count := Suc (length es)\<rparr>) \<and>
      (\<forall>cols. entities_hold (d\<lparr>td_arena := Some b, td_entities := arr, td_entity_capacity := c,
         td_entity_count := Suc (length es), td_columns := cols\<rparr>) (sorted_list_of_set (insert e (set es))))" if new: "e \<notin> set es"
  proof -
    let ?es = "take at es @ e # drop at es"
    have srt: "sorted_wrt (<) ?es" unfolding at_def using sorted_insert_key [of "\<lambda>v. v" es e] st(5) new by simp
    have "set ?es = insert e (set es)" by (metis append_take_drop_id insert_is_Un list.simps(15) set_append sup_commute sup_left_commute)
    then have es: "?es = sorted_list_of_set (insert e (set es))"
      using srt by (metis sorted_list_of_set.idem_if_sorted_distinct strict_sorted_iff)
    have len: "length ?es = Suc (length es)" using at by simp
    show ?thesis
    proof (cases "td_entity_count d = td_entity_capacity d")
      case True
      from grow_entities_spec [OF h a at, of sys e] obtain b arr c where
        g: "grow_entities sys at d = Ok (d\<lparr>td_arena := Some b, td_entities := arr, td_entity_capacity := c\<rparr>)" "length arr = c"
          "length es < c" "slot_write arr at e = (Ok (arr[at := Some e]) :: entity_id slots checked)"
          "starts (arr[at := Some e]) ?es" by blast
      have "insert_entity sys e d = Ok (True, d\<lparr>td_arena := Some b, td_entities := arr[at := Some e], td_entity_capacity := c,
          td_entity_count := Suc (length es)\<rparr>)"
        using find new True st(3) g(1,4) by (simp add: insert_entity_def)
      then show ?thesis
        using g(2,3,5) srt len unfolding es [symmetric]
        by (intro exI [of _ b] exI [of _ "arr[at := Some e]"] exI [of _ c]) (simp add: entities_hold_def)
    next
      case False
      from starts_insert [OF st(1) _ at, of e, where 'e = unit] False st obtain arr where
        o: "rbind (open_slot (td_entities d) (length es) at) (\<lambda>arr. slot_write arr at e) = (Ok arr :: entity_id slots checked)"
          "starts arr ?es" "length arr = td_entity_capacity d" by auto
      from a obtain b where b: "td_arena d = Some b" by auto
      have "insert_entity sys e d = Ok (True, d\<lparr>td_entities := arr, td_entity_count := Suc (length es)\<rparr>)"
        using find new False st(3) o(1) by (auto simp: insert_entity_def result_simps)
      also have "d\<lparr>td_entities := arr, td_entity_count := Suc (length es)\<rparr> = d\<lparr>td_arena := Some b, td_entities := arr,
          td_entity_capacity := td_entity_capacity d, td_entity_count := Suc (length es)\<rparr>" using b by (cases d) simp
      finally show ?thesis
        using o(2,3) srt len False st(3,4) unfolding es [symmetric]
        by (intro exI [of _ b] exI [of _ arr] exI [of _ "td_entity_capacity d"]) (simp add: entities_hold_def)
    qed
  qed
qed

subsection \<open>One column\<close>

lemma columns_hold_update:
  assumes "columns_hold cs cols" "i < length cols" "cc_schema c = cc_schema (cs ! i)" "column_holds c xs"
  shows "columns_hold (cs[i := c]) (cols[i := (fst (cols ! i), xs)])"
proof -
  have l: "list_all2 (\<lambda>c (s, xs). cc_schema c = s \<and> column_holds c xs) cs cols" using assms(1) by (simp add: columns_hold_def)
  have "list_all2 (\<lambda>c (s, xs). cc_schema c = s \<and> column_holds c xs) (cs[i := c]) (cols[i := (fst (cols ! i), xs)])"
    using columns_hold_types(4) [OF assms(1,2)] assms(3,4) by (intro list_all2_update_cong [OF l]) simp
  moreover have "map (\<lambda>(s, xs). cs_type s) (cols[i := (fst (cols ! i), xs)]) = map (\<lambda>(s, xs). cs_type s) cols"
    using assms(2) by (simp add: map_update case_prod_unfold list_update_same_conv)
  moreover have "\<forall>(s, xs) \<in> set (cols[i := (fst (cols ! i), xs)]). cs_component_align s > 0"
    using assms(1,2) set_update_subset_insert [of cols i "(fst (cols ! i), xs)"] nth_mem [OF assms(2)]
    unfolding columns_hold_def by (auto simp: case_prod_unfold)
  ultimately show ?thesis using assms(1) unfolding columns_hold_def by simp
qed

lemma columns_hold_delete:
  assumes "columns_hold cs cols"
  shows "columns_hold (take i cs @ drop (Suc i) cs) (take i cols @ drop (Suc i) cols)"
proof -
  have l: "list_all2 (\<lambda>c (s, xs). cc_schema c = s \<and> column_holds c xs) cs cols" using assms by (simp add: columns_hold_def)
  have "list_all2 (\<lambda>c (s, xs). cc_schema c = s \<and> column_holds c xs) (take i cs @ drop (Suc i) cs) (take i cols @ drop (Suc i) cols)"
    by (intro list_all2_appendI list_all2_takeI list_all2_dropI l)
  moreover have "sorted_wrt (<) (map (\<lambda>(s, xs). cs_type s) (take i cols @ drop (Suc i) cols))"
    using assms by (intro sorted_delete_at) (simp add: columns_hold_def)
  moreover have "set (take i cols @ drop (Suc i) cols) \<subseteq> set cols" using set_take_subset set_drop_subset by fastforce
  ultimately show ?thesis using assms unfolding columns_hold_def by blast
qed

lemma component_in_update:
  assumes "sorted_wrt (<) (map (\<lambda>(s, xs). cs_type s) cols)" "i < length cols"
  shows "component_in (cols[i := (fst (cols ! i), xs)]) t =
    (if t = cs_type (fst (cols ! i)) then map_of xs else component_in cols t)"
proof
  fix e
  obtain s ys where sys: "cols ! i = (s, ys)" by (cases "cols ! i")
  let ?A = "take i cols" and ?B = "drop (Suc i) cols"
  have c: "cols = ?A @ (s, ys) # ?B" using id_take_nth_drop [OF assms(2)] sys by simp
  have "sorted_wrt (<) (map (\<lambda>(s, xs). cs_type s) (?A @ (s, ys) # ?B))" using assms(1) c by simp
  then have "sorted_wrt (<) (map (\<lambda>(s, xs). cs_type s) (?A @ (s, xs) # ?B))" by simp
  from component_in_split [OF this, of t e] component_in_split [of ?A s ys ?B t e] assms(1)
  show "component_in (cols[i := (fst (cols ! i), xs)]) t e =
      (if t = cs_type (fst (cols ! i)) then map_of xs else component_in cols t) e"
    unfolding upd_conv_take_nth_drop [OF assms(2)] using c sys by auto
qed

lemma component_in_delete:
  assumes "sorted_wrt (<) (map (\<lambda>(s, xs). cs_type s) cols)" "i < length cols"
  shows "component_in (take i cols @ drop (Suc i) cols) t =
    (if t = cs_type (fst (cols ! i)) then Map.empty else component_in cols t)"
proof
  fix e
  obtain s ys where sys: "cols ! i = (s, ys)" by (cases "cols ! i")
  let ?A = "take i cols" and ?B = "drop (Suc i) cols"
  have c: "cols = ?A @ (s, ys) # ?B" using id_take_nth_drop [OF assms(2)] sys by simp
  have srt: "sorted_wrt (<) (map (\<lambda>(s, xs). cs_type s) (?A @ (s, ys) # ?B))" using assms(1) c by simp
  then have "cs_type s \<notin> (\<lambda>(s, xs). cs_type s) ` set (?A @ ?B)" by (fastforce simp: sorted_wrt_append)
  then have "component_in (?A @ ?B) (cs_type s) e = None" by (rule component_in_absent)
  with component_in_split [OF srt, of t e] c sys
  show "component_in (?A @ ?B) t e = (if t = cs_type (fst (cols ! i)) then Map.empty else component_in cols t) e" by auto
qed

text \<open>Looking up the position of an entity in a column.\<close>

lemma column_position:
  assumes "column_holds c xs"
  shows "slot_for (cc_entities c) (cc_count c) e = Ok (before_key fst e xs)"
    "occupies (cc_entities c) (cc_count c) (before_key fst e xs) e = Ok (e \<in> fst ` set xs)"
proof -
  have st: "starts (cc_entities c) (map fst xs)" "sorted_wrt (<) (map fst xs)" "cc_count c = length (map fst xs)"
    using assms by (simp_all add: column_holds_def)
  show "slot_for (cc_entities c) (cc_count c) e = Ok (before_key fst e xs)"
    using slot_for_eq [OF st(1,2), of e] unfolding st(3) before_key_map .
  show "occupies (cc_entities c) (cc_count c) (before_key fst e xs) e = Ok (e \<in> fst ` set xs)"
    using occupies_eq [OF st(1,2), of e] unfolding st(3) before_key_map by simp
qed

text \<open>A slot in the middle of live components.\<close>

lemma live_split:
  assumes "i < length vs" "length vs \<le> cap"
  shows "live vs cap = map Some (take i vs) @ Some (vs ! i) # map Some (drop (Suc i) vs) @ replicate (cap - length vs) None"
  using arg_cong [OF id_take_nth_drop [OF assms(1)], of "map Some"] by (simp add: live_def)

lemma destroy_one:
  assumes "i < length vs" "length vs \<le> cap"
  shows "destroy_range (live vs cap) i 1 =
    Ok (map Some (take i vs) @ None # map Some (drop (Suc i) vs) @ replicate (cap - length vs) None)"
proof -
  have "length (map Some (take i vs)) = i" using assms(1) by simp
  then show ?thesis
    using destroy_range_spec [of "map Some (take i vs)" "[vs ! i]" "map Some (drop (Suc i) vs) @ replicate (cap - length vs) None"]
    unfolding live_split [OF assms] by simp
qed

text \<open>Giving a column new contents; a column left without any is no column.\<close>

definition put_entries :: "nat \<Rightarrow> (entity_id \<times> 'c) list \<Rightarrow> 'c columns \<Rightarrow> 'c columns" where
  "put_entries i xs cols = (if xs = [] then take i cols @ drop (Suc i) cols else cols[i := (fst (cols ! i), xs)])"

lemma component_in_put:
  assumes "columns_hold cs cols" "i < length cols"
  shows "component_in (put_entries i xs cols) t = (if t = cs_type (fst (cols ! i)) then map_of xs else component_in cols t)"
  using assms component_in_update [OF _ assms(2)] component_in_delete [OF _ assms(2)]
  by (auto simp: put_entries_def columns_hold_def)

lemma set_put_entries: "i < length cols \<Longrightarrow> set (put_entries i xs cols) \<subseteq> set cols \<union> (if xs = [] then {} else {(fst (cols ! i), xs)})"
  using set_update_subset_insert [of cols i "(fst (cols ! i), xs)"] set_take_subset [of i cols] set_drop_subset [of "Suc i" cols]
  by (auto simp: put_entries_def)

lemma drop_if_empty_spec:
  assumes h: "columns_hold (td_columns d) (cols[i := (fst (cols ! i), xs)])" and i: "i < length cols" and a: "td_arena d \<noteq> None"
  shows "\<exists>a cs. impl_drop_if_empty i d = Ok (d\<lparr>td_arena := Some a, td_columns := cs\<rparr>) \<and> columns_hold cs (put_entries i xs cols)"
proof -
  let ?cols = "cols[i := (fst (cols ! i), xs)]"
  have l: "length (td_columns d) = length cols" using columns_hold_types(2) [OF h] by simp
  have "column_holds (td_columns d ! i) xs" using columns_hold_types(4) [OF h, of i] i by simp
  then have n: "cc_count (td_columns d ! i) = length xs" by (simp add: column_holds_def)
  from a obtain b where b: "td_arena d = Some b" by auto
  show ?thesis
  proof (cases "xs = []")
    case True
    have "take i ?cols @ drop (Suc i) ?cols = take i cols @ drop (Suc i) cols" by simp
    with columns_hold_delete [OF h, of i] True show ?thesis
      using l i n b by (intro exI [of _ "note_dead (cc_capacity (td_columns d ! i) * slot_bytes (td_columns d ! i)) b"]
          exI [of _ "take i (td_columns d) @ drop (Suc i) (td_columns d)"])
        (simp add: impl_drop_if_empty_def doc_note_dead_def put_entries_def)
  next
    case False
    have "impl_drop_if_empty i d = Ok d" using False l i n by (simp add: impl_drop_if_empty_def)
    moreover have "d = d\<lparr>td_arena := Some b, td_columns := td_columns d\<rparr>" using b by (cases d) simp
    ultimately show ?thesis using h False by (metis put_entries_def)
  qed
qed

lemma close_hole_spec:
  assumes h: "columns_hold (td_columns d) cols" and i: "i < length cols" and a: "td_arena d \<noteq> None"
    and at: "at < length xs" and xs: "snd (cols ! i) = xs"
    and c: "destroy_range (cc_components (td_columns d ! i)) at 1 = (Ok comps :: 'c slots checked)"
  shows "\<exists>a cs. close_hole i at ((td_columns d ! i)\<lparr>cc_components := comps\<rparr>) d = Ok (d\<lparr>td_arena := Some a, td_columns := cs\<rparr>) \<and>
    columns_hold cs (put_entries i (take at xs @ drop (Suc at) xs) cols)"
proof -
  let ?c = "td_columns d ! i" and ?xs = "take at xs @ drop (Suc at) xs"
  have hold: "column_holds ?c xs" using columns_hold_types(4) [OF h i] xs by simp
  then have st: "starts (cc_entities ?c) (map fst xs)" "cc_components ?c = live (map snd xs) (cc_capacity ?c)"
    "length (cc_entities ?c) = cc_capacity ?c" "cc_count ?c = length xs" "length xs \<le> cc_capacity ?c" "sorted_wrt (<) (map fst xs)"
    by (simp_all add: column_holds_def)
  let ?A = "map Some (take at (map snd xs))" and ?ws = "drop (Suc at) (map snd xs)" and ?n = "cc_capacity ?c - length xs"
  have comps: "comps = ?A @ None # map Some ?ws @ replicate ?n None"
    using c destroy_one [of at "map snd xs" "cc_capacity ?c", where 'b = unit] at st(2,5) by simp
  have lA: "length ?A = at" "length ?ws = length xs - at - 1" using at by simp_all
  have rel: "relocate_range comps at (at + 1) (length xs - at - 1) = (Ok (?A @ map Some ?ws @ None # replicate ?n None) :: 'c slots checked)"
  proof -
    have "relocate_range (?A @ None # map Some ?ws @ replicate ?n None) (length ?A) (Suc (length ?A)) (length ?ws) =
        (Ok (?A @ map Some ?ws @ None # replicate ?n None) :: 'c slots checked)" by (rule relocate_down_spec)
    then show ?thesis unfolding lA comps by simp
  qed
  from starts_remove [OF st(1), of at, where 'e = unit] at obtain ids where
    ids: "close_slot (cc_entities ?c) (length xs) at = (Ok ids :: entity_id slots checked)" "length ids = cc_capacity ?c"
      "starts ids (map fst ?xs)" using st(3) by (auto simp: take_map drop_map)
  let ?new = "?c\<lparr>cc_components := ?A @ map Some ?ws @ None # replicate ?n None, cc_entities := ids, cc_count := length xs - 1\<rparr>"
  have "?A @ map Some ?ws @ None # replicate ?n None = live (map snd ?xs) (cc_capacity ?c)"
  proof -
    have "None # replicate ?n None = replicate (cc_capacity ?c - length ?xs) (None :: 'c option)"
      using at st(5) by (simp add: replicate_Suc [symmetric] del: replicate_Suc)
    then show ?thesis by (simp add: live_def take_map drop_map)
  qed
  then have new: "column_holds ?new ?xs"
    using ids(2,3) at st(5) sorted_delete_at [OF st(6), of at] by (simp add: column_holds_def)
  have l: "length (td_columns d) = length cols" by (rule columns_hold_types(2) [OF h])
  have h2: "columns_hold ((td_columns d)[i := ?new]) (cols[i := (fst (cols ! i), ?xs)])"
    by (rule columns_hold_update [OF h i _ new]) simp
  from drop_if_empty_spec [of "d\<lparr>td_columns := (td_columns d)[i := ?new]\<rparr>" cols i ?xs] h2 i a obtain b cs where
    "impl_drop_if_empty i (d\<lparr>td_columns := (td_columns d)[i := ?new]\<rparr>) = Ok (d\<lparr>td_arena := Some b, td_columns := cs\<rparr>)"
    "columns_hold cs (put_entries i ?xs cols)" by auto
  then show ?thesis using rel ids(1) st(4) l i by (intro exI [of _ b] exI [of _ cs]) (simp add: close_hole_def)
qed

lemma replace_component_spec:
  assumes h: "columns_hold (td_columns d) cols" and i: "i < length cols" and a: "td_arena d \<noteq> None"
    and at: "at < length xs" and xs: "snd (cols ! i) = xs" and con: "construct s = Ok (built, s')"
  shows "\<exists>a cs. replace_component i at construct (d, s) =
      Ok (case built of None \<Rightarrow> CK_removed | Some _ \<Rightarrow> CK_modified, d\<lparr>td_arena := Some a, td_columns := cs\<rparr>, s') \<and>
    columns_hold cs (put_entries i (case built of None \<Rightarrow> take at xs @ drop (Suc at) xs | Some v \<Rightarrow> xs[at := (fst (xs ! at), v)]) cols)"
proof -
  let ?c = "td_columns d ! i"
  have hold: "column_holds ?c xs" using columns_hold_types(4) [OF h i] xs by simp
  have l: "length (td_columns d) = length cols" by (rule columns_hold_types(2) [OF h])
  have st: "cc_components ?c = live (map snd xs) (cc_capacity ?c)" "length xs \<le> cc_capacity ?c" using hold by (simp_all add: column_holds_def)
  let ?A = "map Some (take at (map snd xs))" and ?R = "map Some (drop (Suc at) (map snd xs)) @ replicate (cc_capacity ?c - length xs) None"
  have des: "destroy_range (cc_components ?c) at 1 = (Ok (?A @ None # ?R) :: 'a slots checked)"
    using destroy_one [of at "map snd xs" "cc_capacity ?c", where 'b = unit] at st by simp
  show ?thesis
  proof (cases built)
    case None
    from close_hole_spec [OF h i a at xs des] obtain b cs where
      "close_hole i at (?c\<lparr>cc_components := ?A @ None # ?R\<rparr>) d = Ok (d\<lparr>td_arena := Some b, td_columns := cs\<rparr>)"
      "columns_hold cs (put_entries i (take at xs @ drop (Suc at) xs) cols)" by blast
    then show ?thesis using des con None l i by (auto simp: replace_component_def)
  next
    case (Some v)
    let ?xs = "xs[at := (fst (xs ! at), v)]"
    have "length ?A = at" using at by simp
    then have put: "slot_construct (?A @ None # ?R) at v = (Ok (?A @ Some v # ?R) :: 'a slots checked)"
      by (simp add: slot_construct_def list_update_append nth_append)
    have "map snd ?xs = take at (map snd xs) @ v # drop (Suc at) (map snd xs)"
      using at by (simp add: map_update upd_conv_take_nth_drop take_map drop_map)
    then have "?A @ Some v # ?R = live (map snd ?xs) (cc_capacity ?c)" using at by (simp add: live_def)
    moreover have "map fst ?xs = map fst xs" using at by (simp add: map_update list_update_same_conv)
    ultimately have new: "column_holds (?c\<lparr>cc_components := ?A @ Some v # ?R\<rparr>) ?xs" using hold by (simp add: column_holds_def)
    have "?xs \<noteq> []" using at by auto
    then have "columns_hold ((td_columns d)[i := ?c\<lparr>cc_components := ?A @ Some v # ?R\<rparr>]) (put_entries i ?xs cols)"
      using columns_hold_update [OF h i _ new] by (simp add: put_entries_def)
    moreover obtain b where b: "td_arena d = Some b" using a by auto
    have "d\<lparr>td_columns := cs\<rparr> = d\<lparr>td_arena := Some b, td_columns := cs\<rparr>" for cs using b by (cases d) simp
    then have "replace_component i at construct (d, s) = Ok (CK_modified,
        d\<lparr>td_arena := Some b, td_columns := (td_columns d)[i := ?c\<lparr>cc_components := ?A @ Some v # ?R\<rparr>]\<rparr>, s')"
      using des put con Some l i by (simp add: replace_component_def)
    ultimately show ?thesis unfolding Some option.case by blast
  qed
qed

subsection \<open>A new component\<close>

lemma reserve_one_spec:
  assumes h: "columns_hold (td_columns d) cols" and i: "i < length cols" and a: "td_arena d \<noteq> None"
  shows "\<exists>a cs. impl_reserve_one sys i d = Ok (d\<lparr>td_arena := Some a, td_columns := cs\<rparr>) \<and> columns_hold cs cols \<and>
    cc_count (cs ! i) < cc_capacity (cs ! i)"
proof -
  let ?c = "td_columns d ! i"
  obtain s xs where sxs: "cols ! i = (s, xs)" by (cases "cols ! i")
  have l: "length (td_columns d) = length cols" by (rule columns_hold_types(2) [OF h])
  have hold: "column_holds ?c xs" and sch: "cc_schema ?c = s" using columns_hold_types(4) [OF h i] sxs by simp_all
  then have st: "starts (cc_entities ?c) (map fst xs)" "cc_components ?c = live (map snd xs) (cc_capacity ?c)"
    "cc_count ?c = length xs" "length xs \<le> cc_capacity ?c" by (simp_all add: column_holds_def)
  have al: "cs_component_align s > 0" using h i sxs by (fastforce simp: columns_hold_def dest: nth_mem)
  obtain b where b: "td_arena d = Some b" using a by auto
  show ?thesis
  proof (cases "cc_count ?c < cc_capacity ?c")
    case True
    then have "impl_reserve_one sys i d = Ok d" using l i by (simp add: impl_reserve_one_def)
    moreover have "d = d\<lparr>td_arena := Some b, td_columns := td_columns d\<rparr>" using b by (cases d) simp
    ultimately show ?thesis using h True by metis
  next
    case False
    let ?n = "grown (length xs + 1)"
    have n: "length xs < ?n" by (simp add: grown_def)
    obtain b1 where b1: "doc_allocate sys (?n * 8) 8 d = Ok (d\<lparr>td_arena := Some b1\<rparr>)" using doc_allocate_eq [OF a, of 8 sys] by auto
    obtain b2 where b2: "doc_allocate sys (?n * cs_component_size s) (cs_component_align s) (d\<lparr>td_arena := Some b1\<rparr>) = Ok (d\<lparr>td_arena := Some b2\<rparr>)"
      using doc_allocate_eq [of "d\<lparr>td_arena := Some b1\<rparr>" "cs_component_align s" sys "?n * cs_component_size s"] al by auto
    have ids: "copy_slots (replicate ?n None) (cc_entities ?c) 0 0 (length xs) = (Ok (live (map fst xs) ?n) :: entity_id slots checked)"
      using copy_slots_spec [OF st(1), of 0 "length xs" 0 "replicate ?n None", where 'e = unit] n by (simp add: live_def)
    have cap: "cc_capacity ?c = length xs" using False st(3,4) by simp
    have comps: "relocate_between (replicate ?n None) (cc_components ?c) (length xs) =
        (Ok (live (map snd xs) ?n, replicate (length xs) None) :: ('a slots \<times> 'a slots) checked)"
      using relocate_between_spec [of "map snd xs" ?n "[]", where 'e = unit] n cap st(2) by (simp add: live_def)
    let ?new = "?c\<lparr>cc_entities := live (map fst xs) ?n, cc_components := live (map snd xs) ?n, cc_capacity := ?n\<rparr>"
    have new: "column_holds ?new xs" using hold n by (simp add: column_holds_def length_live)
    have upd: "cols[i := (fst (cols ! i), xs)] = cols" using sxs i by (simp add: list_update_same_conv)
    have cs: "columns_hold ((td_columns d)[i := ?new]) cols"
      using columns_hold_update [OF h i _ new] unfolding upd by simp
    have "impl_reserve_one sys i d =
        Ok (d\<lparr>td_arena := Some (note_dead (cc_capacity ?c * slot_bytes ?c) b2), td_columns := (td_columns d)[i := ?new]\<rparr>)"
      using False l i st(3) b1 b2 ids comps sch by (simp add: impl_reserve_one_def Let_def doc_note_dead_def)
    with cs l i n st(3) show ?thesis
      by (intro exI [of _ "note_dead (cc_capacity ?c * slot_bytes ?c) b2"] exI [of _ "(td_columns d)[i := ?new]"]) simp
  qed
qed

lemma insert_component_spec:
  assumes h: "columns_hold (td_columns d) cols" and i: "i < length cols" and a: "td_arena d \<noteq> None"
    and new: "e \<notin> fst ` set xs" and xs: "snd (cols ! i) = xs" and con: "construct s = Ok (built, s')"
  shows "\<exists>a cs. insert_component sys i e construct (d, s) =
      Ok (case built of None \<Rightarrow> CK_removed | Some _ \<Rightarrow> CK_added, d\<lparr>td_arena := Some a, td_columns := cs\<rparr>, s') \<and>
    columns_hold cs (put_entries i (case built of None \<Rightarrow> xs
      | Some v \<Rightarrow> take (before_key fst e xs) xs @ (e, v) # drop (before_key fst e xs) xs) cols)"
proof -
  from reserve_one_spec [OF h i a, of sys] obtain b cs where
    res: "impl_reserve_one sys i d = Ok (d\<lparr>td_arena := Some b, td_columns := cs\<rparr>)" "columns_hold cs cols"
      "cc_count (cs ! i) < cc_capacity (cs ! i)" by blast
  let ?d = "d\<lparr>td_arena := Some b, td_columns := cs\<rparr>" and ?c = "cs ! i"
  have hold: "column_holds ?c xs" using columns_hold_types(4) [OF res(2) i] xs by simp
  have l: "length cs = length cols" by (rule columns_hold_types(2) [OF res(2)])
  have st: "starts (cc_entities ?c) (map fst xs)" "cc_components ?c = live (map snd xs) (cc_capacity ?c)"
    "length (cc_entities ?c) = cc_capacity ?c" "cc_count ?c = length xs" "length xs < cc_capacity ?c" "sorted_wrt (<) (map fst xs)"
    using hold res(3) by (simp_all add: column_holds_def)
  define at where "at = before_key fst e xs"
  have at: "at \<le> length xs" unfolding at_def by (rule length_takeWhile_le)
  note pos = column_position(1) [OF hold, of e, folded at_def]
  let ?A = "map Some (take at (map snd xs))" and ?ws = "drop at (map snd xs)"
  let ?R = "replicate (cc_capacity ?c - Suc (length xs)) None"
  have lA: "length ?A = at" "length ?ws = length xs - at" using at by simp_all
  have "replicate (cc_capacity ?c - length xs) None = None # (?R :: 'a slots)" using st(5) by (metis Suc_diff_Suc replicate_Suc)
  then have comps: "cc_components ?c = ?A @ map Some ?ws @ None # ?R"
    by (simp add: st(2) live_def take_map [symmetric] drop_map [symmetric])
  have up: "relocate_range (cc_components ?c) (at + 1) at (length xs - at) = (Ok (?A @ None # map Some ?ws @ ?R) :: 'a slots checked)"
  proof -
    have "relocate_range (?A @ map Some ?ws @ None # ?R) (Suc (length ?A)) (length ?A) (length ?ws) =
        (Ok (?A @ None # map Some ?ws @ ?R) :: 'a slots checked)" by (rule relocate_up_spec)
    then show ?thesis unfolding lA comps by simp
  qed
  have down: "relocate_range (?A @ None # map Some ?ws @ ?R) at (at + 1) (length xs - at) = (Ok (cc_components ?c) :: 'a slots checked)"
  proof -
    have "relocate_range (?A @ None # map Some ?ws @ ?R) (length ?A) (Suc (length ?A)) (length ?ws) =
        (Ok (?A @ map Some ?ws @ None # ?R) :: 'a slots checked)" by (rule relocate_down_spec)
    then show ?thesis unfolding lA comps by simp
  qed
  show ?thesis
  proof (cases built)
    case None
    have same: "?c\<lparr>cc_components := cc_components ?c\<rparr> = ?c" by simp
    have "cols[i := (fst (cols ! i), xs)] = cols" using xs i by (auto simp: list_update_same_conv)
    with drop_if_empty_spec [of ?d cols i xs] res(2) i obtain b2 cs2 where
      "impl_drop_if_empty i ?d = Ok (d\<lparr>td_arena := Some b2, td_columns := cs2\<rparr>)" "columns_hold cs2 (put_entries i xs cols)" by auto
    then show ?thesis using None res(1) pos up down con l i st(4) by (auto simp: insert_component_def)
  next
    case (Some v)
    let ?xs = "take at xs @ (e, v) # drop at xs"
    have put: "slot_construct (?A @ None # map Some ?ws @ ?R) at v = (Ok (?A @ Some v # map Some ?ws @ ?R) :: 'a slots checked)"
    proof -
      have "slot_construct (?A @ None # map Some ?ws @ ?R) (length ?A) v = (Ok (?A @ Some v # map Some ?ws @ ?R) :: 'a slots checked)"
        by (rule slot_construct_mid)
      then show ?thesis unfolding lA .
    qed
    from starts_insert [OF st(1), of at e, where 'e = unit] at st(3,5) obtain ids where
      ids: "rbind (open_slot (cc_entities ?c) (length xs) at) (\<lambda>arr. slot_write arr at e) = (Ok ids :: entity_id slots checked)"
        "starts ids (map fst ?xs)" "length ids = cc_capacity ?c" by (auto simp: take_map drop_map)
    let ?new = "?c\<lparr>cc_components := ?A @ Some v # map Some ?ws @ ?R, cc_entities := ids, cc_count := Suc (length xs)\<rparr>"
    have "map snd ?xs = take at (map snd xs) @ v # drop at (map snd xs)" by (simp add: take_map drop_map)
    moreover have "length ?xs = Suc (length xs)" using at by simp
    ultimately have live: "?A @ Some v # map Some ?ws @ ?R = live (map snd ?xs) (cc_capacity ?c)" by (simp add: live_def)
    have "sorted_wrt (<) (map fst ?xs)" unfolding at_def using sorted_insert_key [OF st(6), of "(e, v)"] new by simp
    then have "column_holds ?new ?xs" using live ids(2,3) st(5) at by (simp add: column_holds_def)
    from columns_hold_update [OF res(2) i _ this]
    have "columns_hold (cs[i := ?new]) (put_entries i ?xs cols)" by (simp add: put_entries_def)
    moreover have "insert_component sys i e construct (d, s) = Ok (CK_added, d\<lparr>td_arena := Some b, td_columns := cs[i := ?new]\<rparr>, s')"
      using Some res(1) pos up put ids(1) con l i st(4) by (auto simp: insert_component_def result_simps)
    ultimately show ?thesis unfolding at_def [symmetric] Some option.case by blast
  qed
qed

end
