(* ===== verification/Parse_Columns.thy ===== *)
theory Parse_Columns
  imports Parse_Rules Document_Builder
begin

text \<open>
  The second half of a parse (parse.cc, parse_from): the columns, built candidate by candidate through the document's parser.
\<close>


subsection \<open>Building a column\<close>

text \<open>A parser with an open column, which holds what has been pushed so far.\<close>

definition column_open :: "'c doc_parser \<Rightarrow> 'c component_column list \<Rightarrow> component_schema \<Rightarrow> nat \<Rightarrow> (entity_id \<times> 'c) list \<Rightarrow> bool" where
  "column_open p cs schema capacity xs \<longleftrightarrow> dp_open_column p = Some (length cs) \<and> dp_open_capacity p = capacity \<and>
     (\<exists>c. td_columns (dp_doc p) = cs @ [c] \<and> cc_schema c = schema \<and> cc_capacity c = capacity \<and> column_holds c xs)"

text \<open>What no call of the parser touches while columns are built.\<close>

definition same_entities :: "'c doc_parser \<Rightarrow> 'c doc_parser \<Rightarrow> bool" where
  "same_entities p q \<longleftrightarrow> td_entities (dp_doc p) = td_entities (dp_doc q) \<and> td_entity_count (dp_doc p) = td_entity_count (dp_doc q) \<and>
     td_entity_capacity (dp_doc p) = td_entity_capacity (dp_doc q) \<and> (td_arena (dp_doc p) \<noteq> None) = (td_arena (dp_doc q) \<noteq> None)"

lemma same_entities_refl [simp]: "same_entities p p"
  by (simp add: same_entities_def)

lemma same_entities_trans: "same_entities p q \<Longrightarrow> same_entities q r \<Longrightarrow> same_entities p r"
  by (simp add: same_entities_def)

lemma starts_next:
  assumes "starts arr vs" "length vs < length arr"
  shows "\<exists>arr'. slot_write arr (length vs) v = (Ok arr' :: ('e, 'a slots) result) \<and> starts arr' (vs @ [v]) \<and> length arr' = length arr"
proof -
  obtain x B where arr: "arr = map Some vs @ x # B"
    using assms by (auto simp: starts_def) (metis list.exhaust length_map append_Nil2 less_irrefl)
  with slot_write_mid [of "map Some vs" x B v] show ?thesis by (auto simp: starts_def)
qed

lemma live_next: "length vs < cap \<Longrightarrow> slot_construct (live vs cap) (length vs) v = Ok (live (vs @ [v]) cap)"
proof -
  assume "length vs < cap"
  then have "live vs cap = map Some vs @ None # replicate (cap - Suc (length vs)) None"
    by (simp add: live_def Suc_diff_Suc [symmetric])
  with slot_construct_mid [of "map Some vs" "replicate (cap - Suc (length vs)) None" v] show ?thesis by (simp add: live_def)
qed

lemma push_component_open:
  assumes p: "column_open p cs schema capacity xs" and room: "length xs < capacity"
    and e: "\<forall>x \<in> fst ` set xs. x < e" and con: "construct s = Ok (built, s')"
  shows "\<exists>p'. push_component e construct (p, s) = Ok (built \<noteq> None, p', s') \<and>
    column_open p' cs schema capacity (xs @ (case built of None \<Rightarrow> [] | Some v \<Rightarrow> [(e, v)])) \<and> same_entities p' p"
proof -
  from p obtain c where c: "dp_open_column p = Some (length cs)" "dp_open_capacity p = capacity" "td_columns (dp_doc p) = cs @ [c]"
    "cc_schema c = schema" "cc_capacity c = capacity" "column_holds c xs" by (auto simp: column_open_def)
  then have st: "starts (cc_entities c) (map fst xs)" "cc_components c = live (map snd xs) capacity" "length (cc_entities c) = capacity"
    "cc_count c = length xs" "sorted_wrt (<) (map fst xs)" by (simp_all add: column_holds_def)
  have order: "(if cc_count c = 0 then Ok ()
      else rbind (slot_read (cc_entities c) (cc_count c - 1)) (\<lambda>v. check (id_compare_bytes v e < 0))) = (Ok () :: unit checked)"
  proof (cases "xs = []")
    case False
    then have "length xs - 1 < length (map fst xs)" and last: "map fst xs ! (length xs - 1) = fst (last xs)"
      by (simp_all add: last_conv_nth)
    from slot_read_starts [OF st(1) this(1)] last have "slot_read (cc_entities c) (length xs - 1) = (Ok (fst (last xs)) :: entity_id checked)"
      by simp
    moreover have "fst (last xs) < e" using e False by simp
    ultimately show ?thesis using st(4) False by simp
  qed (simp add: st(4))
  show ?thesis
  proof (cases built)
    case None
    then have "push_component e construct (p, s) = Ok (False, p, s')"
      using c(1-3) st(4) room order con by (simp add: push_component_def)
    with p None show ?thesis by auto
  next
    case (Some v)
    from starts_next [OF st(1), of e, where 'e = unit] st(3) room obtain ids where
      ids: "slot_write (cc_entities c) (length xs) e = (Ok ids :: entity_id slots checked)" "starts ids (map fst xs @ [e])" "length ids = capacity"
      by auto
    have comps: "slot_construct (live (map snd xs) capacity) (length xs) v = (Ok (live (map snd xs @ [v]) capacity) :: 'a slots checked)"
      using live_next [of "map snd xs" capacity v] room by simp
    let ?c = "c\<lparr>cc_components := live (map snd xs @ [v]) capacity, cc_entities := ids, cc_count := length xs + 1\<rparr>"
    let ?p = "p\<lparr>dp_doc := (dp_doc p)\<lparr>td_columns := cs @ [?c]\<rparr>\<rparr>"
    have "push_component e construct (p, s) = Ok (True, ?p, s')"
      using c(1-3) st(2,4) room order con Some ids(1) comps by (simp add: push_component_def)
    moreover have "column_holds ?c (xs @ [(e, v)])"
      using ids st(5) room e c(5) by (auto simp: column_holds_def sorted_wrt_append)
    then have "column_open ?p cs schema capacity (xs @ [(e, v)])" using c by (simp add: column_open_def)
    ultimately show ?thesis using Some by (auto simp: same_entities_def)
  qed
qed

text \<open>What a column keeps of its candidates, and what reading them reports.\<close>

definition kept_of :: "('a \<Rightarrow> 'c option \<times> parse_report) \<Rightarrow> ('a \<Rightarrow> entity_id) \<Rightarrow> 'a list \<Rightarrow> (entity_id \<times> 'c) list" where
  "kept_of build ent cs = List.map_filter (\<lambda>c. map_option (Pair (ent c)) (fst (build c))) cs"

lemma kept_of_simps [simp]:
  "kept_of build ent [] = []"
  "kept_of build ent (c # cs) = (case fst (build c) of None \<Rightarrow> [] | Some v \<Rightarrow> [(ent c, v)]) @ kept_of build ent cs"
  by (simp_all add: kept_of_def List.map_filter_simps split: option.split)

lemma kept_of_bounds: "length (kept_of build ent cs) \<le> length cs" "fst ` set (kept_of build ent cs) \<subseteq> ent ` set cs"
  by (induction cs) (auto split: option.splits)

lemma map_of_kept_of:
  "distinct (map ent cs) \<Longrightarrow> map_of (kept_of build ent cs) e =
    (case map_of (map (\<lambda>c. (ent c, c)) cs) e of None \<Rightarrow> None | Some c \<Rightarrow> fst (build c))"
proof (induction cs)
  case (Cons c cs)
  have "map_of (map (\<lambda>c. (ent c, c)) cs) (ent c) = None"
    using Cons.prems by (force simp: map_of_eq_None_iff)
  with Cons show ?case by (auto split: option.split)
qed simp

definition build_of :: "(property_path \<Rightarrow> property_value list \<Rightarrow> value_view option \<times> parse_report) \<Rightarrow> 'c application \<Rightarrow>
    component_type_id \<Rightarrow> component_schema \<Rightarrow> candidate \<Rightarrow> 'c option \<times> parse_report" where
  "build_of pick app t s c =
     program_of (value_of pick (ca_raw c) (ca_entity c) t) (app (cs_parse_into s) (ca_entity c) t (ca_version c))"

definition column_entry :: "(property_path \<Rightarrow> property_value list \<Rightarrow> value_view option \<times> parse_report) \<Rightarrow> 'c application \<Rightarrow>
    pending_column \<Rightarrow> 'c columns" where
  "column_entry pick app col =
     (let kept = kept_of (build_of pick app (pc_type col) (pc_schema col)) ca_entity (pc_candidates col) in
      if kept = [] then [] else [(pc_schema col, kept)])"

definition column_report :: "(property_path \<Rightarrow> property_value list \<Rightarrow> value_view option \<times> parse_report) \<Rightarrow> 'c application \<Rightarrow>
    pending_column \<Rightarrow> parse_report" where
  "column_report pick app col =
     reports (map (\<lambda>c. snd (build_of pick app (pc_type col) (pc_schema col) c)) (pc_candidates col))"

text \<open>A column that can be built: its candidates ascend and read, and its schema is the one of its type.\<close>

definition column_ready :: "pending_column \<Rightarrow> bool" where
  "column_ready col \<longleftrightarrow> pc_candidates col \<noteq> [] \<and> sorted_wrt (<) (map ca_entity (pc_candidates col)) \<and>
     (\<forall>c \<in> set (pc_candidates col). readable_component (ca_raw c)) \<and> cs_type (pc_schema col) = pc_type col \<and>
     cs_component_align (pc_schema col) > 0"

lemma parser_set_entities_spec:
  assumes "sorted_wrt (<) es"
  shows "\<exists>p. parser_set_entities sys es new_parser = (Ok p :: 'c doc_parser checked) \<and> entities_hold (dp_doc p) es \<and>
    td_columns (dp_doc p) = [] \<and> dp_open_column p = None \<and> td_arena (dp_doc p) \<noteq> None"
proof -
  let ?f = "\<lambda>i storage. rbind (check (i = 0 \<or> id_compare_bytes (es ! (i - 1)) (es ! i) < 0)) (\<lambda>_. slot_write storage i (es ! i))
    :: entity_id slots checked"
  obtain a p0 where a: "arena_allocate sys (length es * entity_id_size) entity_id_align new_arena = Ok (p0, a)"
    using arena_allocate_total [of entity_id_align sys] by fastforce
  have "\<exists>st. rfold ?f [0..<length es] (replicate (length es) None) = (Ok st :: entity_id slots checked) \<and>
      st = map Some (take (length [0..<length es]) es) @ replicate (length es - length [0..<length es]) None"
  proof (rule rfold_invariant [where P = "\<lambda>is st. st = map Some (take (length is) es) @ replicate (length es - length is) None"])
    fix ys :: "nat list" and i zs and st :: "entity_id slots"
    assume split: "[0..<length es] = ys @ i # zs" and st: "st = map Some (take (length ys) es) @ replicate (length es - length ys) None"
    have i: "i = length ys" "i < length es"
    proof -
      have "length ys < length es" using arg_cong [OF split, of length] by simp
      moreover have "[0..<length es] ! length ys = i" by (simp add: split)
      ultimately show "i = length ys" "i < length es" by auto
    qed
    have "es ! (i - 1) < es ! i" if "i \<noteq> 0" using assms i(2) that by (simp add: sorted_wrt_iff_nth_less)
    moreover have "st = map Some (take i es) @ None # replicate (length es - Suc i) None"
      using st i by (simp add: Suc_diff_Suc [symmetric])
    then have "slot_write st i (es ! i) = (Ok (map Some (take i es) @ Some (es ! i) # replicate (length es - Suc i) None) :: entity_id slots checked)"
      using slot_write_mid [of "map Some (take i es)" None "replicate (length es - Suc i) None" "es ! i"] i(2) by simp
    ultimately show "\<exists>st'. ?f i st = Ok st' \<and> st' = map Some (take (length (ys @ [i])) es) @ replicate (length es - length (ys @ [i])) None"
      using i by (auto simp: take_Suc_conv_app_nth check_def)
  qed simp
  then have "rfold ?f [0..<length es] (replicate (length es) None) = (Ok (map Some es) :: entity_id slots checked)" by simp
  with a assms show ?thesis
    by (simp add: parser_set_entities_def new_parser_def empty_document_def doc_allocate_def entities_hold_def starts_def)
qed

context parse_rules
begin

lemma parse_candidates_eq:
  fixes app :: "'c application" and column :: pending_column
  assumes "column_open p cs schema capacity xs" "length xs + length cands \<le> capacity"
    and "sorted_wrt (<) (map fst xs @ map ca_entity cands)" "\<forall>c \<in> set cands. readable_component (ca_raw c)"
  defines "build \<equiv> build_of pick app (pc_type column) (pc_schema column)"
  shows "\<exists>p'. rfold (parse_candidate app policy column) cands (p, r) = Ok (p', report_add r (reports (map (\<lambda>c. snd (build c)) cands))) \<and>
    column_open p' cs schema capacity (xs @ kept_of build ca_entity cands) \<and> same_entities p' p"
  using assms(1-4)
proof (induction cands arbitrary: p xs r)
  case (Cons c cands)
  let ?reader = "\<lparr>prd_raw = ca_raw c, prd_policy = policy, prd_entity = ca_entity c, prd_component = pc_type column,
            prd_schema_version = ca_version c\<rparr>"
  have con: "parse_component_into app (cs_parse_into (pc_schema column)) ?reader r = Ok (fst (build c), report_add r (snd (build c)))"
    using yieldsD [OF run_program_yields [of ?reader]] Cons.prems(4) by (simp add: parse_component_into_def build_def build_of_def)
  have "\<forall>x \<in> fst ` set xs. x < ca_entity c" "length xs < capacity" using Cons.prems(2,3) by (auto simp: sorted_wrt_append)
  from push_component_open [OF Cons.prems(1) this(2,1),
      of "parse_component_into app (cs_parse_into (pc_schema column)) ?reader", OF con] obtain p' where
    p': "push_component (ca_entity c) (parse_component_into app (cs_parse_into (pc_schema column)) ?reader) (p, r) =
        Ok (fst (build c) \<noteq> None, p', report_add r (snd (build c)))"
      "column_open p' cs schema capacity (xs @ (case fst (build c) of None \<Rightarrow> [] | Some v \<Rightarrow> [(ca_entity c, v)]))" "same_entities p' p"
    by blast
  let ?xs = "xs @ (case fst (build c) of None \<Rightarrow> [] | Some v \<Rightarrow> [(ca_entity c, v)])"
  have len: "length ?xs + length cands \<le> capacity" using Cons.prems(2) by (simp split: option.split)
  have srt: "sorted_wrt (<) (map fst ?xs @ map ca_entity cands)" using Cons.prems(3) by (auto simp: sorted_wrt_append split: option.split)
  from Cons.IH [OF p'(2) len srt, of "report_add r (snd (build c))"] Cons.prems(4) obtain p'' where
    p'': "rfold (parse_candidate app policy column) cands (p', report_add r (snd (build c))) =
        Ok (p'', report_add (report_add r (snd (build c))) (reports (map (\<lambda>c. snd (build c)) cands)))"
      "column_open p'' cs schema capacity (?xs @ kept_of build ca_entity cands)" "same_entities p'' p'" by auto
  have "parse_candidate app policy column c (p, r) = Ok (p', report_add r (snd (build c)))"
    using p'(1) by (simp add: parse_candidate_def)
  with p'' p'(3) same_entities_trans show ?case by (auto simp: report_add_assoc)
qed simp

lemma parse_column_eq:
  fixes app :: "'c application" and p :: "'c doc_parser"
  assumes p: "dp_open_column p = None" "td_arena (dp_doc p) \<noteq> None" "columns_hold (td_columns (dp_doc p)) cols"
    and col: "column_ready col" and new: "\<forall>(s, xs) \<in> set cols. cs_type s < pc_type col"
  shows "\<exists>p'. parse_column sys app policy col (p, r) = Ok (p', report_add r (column_report pick app col)) \<and>
    dp_open_column p' = None \<and> columns_hold (td_columns (dp_doc p')) (cols @ column_entry pick app col) \<and> same_entities p' p"
proof -
  let ?s = "pc_schema col" and ?n = "length (pc_candidates col)"
  let ?d = "dp_doc p"
  have col': "cs_type ?s = pc_type col" "cs_component_align ?s > 0" "?n > 0" using col by (simp_all add: column_ready_def)
  obtain a0 where a0: "td_arena ?d = Some a0" using p(2) by blast
  obtain q1 a1 where a1: "arena_allocate sys (?n * entity_id_size) entity_id_align a0 = Ok (q1, a1)"
    using arena_allocate_total [of entity_id_align sys] by fastforce
  obtain q2 a2 where a2: "arena_allocate sys (?n * cs_component_size ?s) (cs_component_align ?s) a1 = Ok (q2, a2)"
    using arena_allocate_total [OF col'(2), of sys] by fastforce
  note ty = columns_hold_types [OF p(3)]
  have "td_columns ?d = [] \<or> id_compare_bytes (column_type (last (td_columns ?d))) (cs_type ?s) < 0"
  proof (cases "td_columns ?d = []")
    case False
    then have "column_type (last (td_columns ?d)) \<in> (\<lambda>c. column_type c) ` set (td_columns ?d)" by simp
    then have "column_type (last (td_columns ?d)) \<in> (\<lambda>(s, xs). cs_type s) ` set cols" using ty(1) by (metis list.set_map)
    with new col'(1) show ?thesis by auto
  qed simp
  moreover define c :: "'c component_column" where "c = \<lparr>cc_schema = ?s, cc_entities = replicate ?n None, cc_components = replicate ?n None,
    cc_count = 0, cc_capacity = ?n\<rparr>"
  moreover define p1 where "p1 = p\<lparr>dp_doc := ?d\<lparr>td_arena := Some a2, td_columns := td_columns ?d @ [c]\<rparr>,
    dp_open_column := Some (length (td_columns ?d)), dp_open_capacity := ?n\<rparr>"
  ultimately have begin_eq: "begin_column sys ?s ?n p = Ok p1"
    using p(1) a0 a1 a2 col'(3) by (simp add: begin_column_def doc_allocate_def)
  have hold0: "column_holds c []" by (simp add: c_def column_holds_def)
  have open1: "column_open p1 (td_columns ?d) ?s ?n []" using hold0 by (simp add: column_open_def p1_def c_def)
  have "sorted_wrt (<) (map fst ([] :: (entity_id \<times> 'c) list) @ map ca_entity (pc_candidates col))"
    "\<forall>c \<in> set (pc_candidates col). readable_component (ca_raw c)" using col by (simp_all add: column_ready_def)
  from parse_candidates_eq [OF open1 _ this, of app col r] obtain p2 where
    p2: "rfold (parse_candidate app policy col) (pc_candidates col) (p1, r) = Ok (p2, report_add r (column_report pick app col))"
      "column_open p2 (td_columns ?d) ?s ?n (kept_of (build_of pick app (pc_type col) ?s) ca_entity (pc_candidates col))"
      "same_entities p2 p1" by (auto simp: column_report_def)
  let ?kept = "kept_of (build_of pick app (pc_type col) ?s) ca_entity (pc_candidates col)"
  from p2(2) obtain c2 where c2: "dp_open_column p2 = Some (length (td_columns ?d))" "td_columns (dp_doc p2) = td_columns ?d @ [c2]"
    "cc_schema c2 = ?s" "column_holds c2 ?kept" by (auto simp: column_open_def)
  have count: "cc_count c2 = length ?kept" using c2(4) by (simp add: column_holds_def)
  let ?p3 = "p2\<lparr>dp_doc := (if cc_count c2 = 0 then (dp_doc p2)\<lparr>td_columns := td_columns ?d\<rparr> else dp_doc p2),
    dp_open_column := None, dp_open_capacity := 0\<rparr>"
  have end_eq: "end_column p2 = Ok ?p3" using c2 by (simp add: end_column_def)
  have "parse_column sys app policy col (p, r) = Ok (?p3, report_add r (column_report pick app col))"
    by (simp add: parse_column_def begin_eq p2(1) end_eq)
  moreover have "columns_hold (td_columns (dp_doc ?p3)) (cols @ column_entry pick app col)"
  proof (cases "?kept = []")
    case True
    then show ?thesis using p(3) count by (simp add: column_entry_def)
  next
    case False
    have "list_all2 (\<lambda>c (s, xs). cc_schema c = s \<and> column_holds c xs) (td_columns ?d @ [c2]) (cols @ [(?s, ?kept)])"
      using p(3) c2(3,4) by (intro list_all2_appendI) (simp_all add: columns_hold_def)
    moreover have "sorted_wrt (<) (map (\<lambda>(s, xs). cs_type s) (cols @ [(?s, ?kept)]))"
      using p(3) new col'(1) by (auto simp: columns_hold_def sorted_wrt_append)
    ultimately show ?thesis using False count c2(2) p(3) col'(2) by (simp add: column_entry_def columns_hold_def)
  qed
  moreover have "same_entities ?p3 p" using p2(3) p(2) by (simp add: same_entities_def p1_def)
  ultimately show ?thesis by (intro exI [of _ ?p3]) simp
qed

lemma parse_columns_eq:
  assumes "dp_open_column p = None" "td_arena (dp_doc p) \<noteq> None" "columns_hold (td_columns (dp_doc p)) cols"
    and "\<forall>col \<in> set todo. column_ready col" "sorted_wrt (<) (map (\<lambda>(s, xs). cs_type s) cols @ map pc_type todo)"
  shows "\<exists>p'. rfold (parse_column sys app policy) todo (p, r) = Ok (p', report_add r (reports (map (column_report pick app) todo))) \<and>
    dp_open_column p' = None \<and> columns_hold (td_columns (dp_doc p')) (cols @ concat (map (column_entry pick app) todo)) \<and> same_entities p' p"
  using assms
proof (induction todo arbitrary: p cols r)
  case (Cons col todo)
  have ready: "column_ready col" using Cons.prems(4) by simp
  have new: "\<forall>(s, xs) \<in> set cols. cs_type s < pc_type col" using Cons.prems(5) by (auto simp: sorted_wrt_append)
  from parse_column_eq [OF Cons.prems(1-3) ready new, of sys app r] obtain p' where
    p': "parse_column sys app policy col (p, r) = Ok (p', report_add r (column_report pick app col))" "dp_open_column p' = None"
      "columns_hold (td_columns (dp_doc p')) (cols @ column_entry pick app col)" "same_entities p' p" by blast
  have "td_arena (dp_doc p') \<noteq> None" using p'(4) Cons.prems(2) by (simp add: same_entities_def)
  moreover have "sorted_wrt (<) (map (\<lambda>(s, xs). cs_type s) (cols @ column_entry pick app col) @ map pc_type todo)"
    using Cons.prems(5) ready by (auto simp: sorted_wrt_append column_entry_def column_ready_def Let_def)
  ultimately obtain p'' where
    "rfold (parse_column sys app policy) todo (p', report_add r (column_report pick app col)) =
       Ok (p'', report_add (report_add r (column_report pick app col)) (reports (map (column_report pick app) todo)))"
    "dp_open_column p'' = None"
    "columns_hold (td_columns (dp_doc p'')) ((cols @ column_entry pick app col) @ concat (map (column_entry pick app) todo))"
    "same_entities p'' p'"
    using Cons.IH [OF p'(2) _ p'(3), of "report_add r (column_report pick app col)"] Cons.prems(4) by auto
  with p'(1,4) same_entities_trans show ?case by (auto simp: report_add_assoc)
qed simp

end

end
