(* ===== verification/Builder_Edits.thy ===== *)
theory Builder_Edits
  imports Document_Builder
begin

text \<open>
  What each edit of the builder leaves: the columns and the entity table it describes, every slot live or empty as it should be.
\<close>

subsection \<open>Setting and removing a component\<close>

lemma column_index:
  assumes "sorted_wrt (<) (map f xs)"
  shows "first_at_least_in_sorted xs k (\<lambda>x k. id_compare_bytes (f x) k < 0) = before_key f k xs"
proof -
  have "partitioned (\<lambda>x. f x < k) xs"
    using assms by (fastforce simp: partitioned_def sorted_wrt_iff_nth_less intro: less_trans)
  from partition_point_spec [OF this]
  have "splits_at (\<lambda>x. f x < k) xs 0 (length xs) (first_at_least_in_sorted xs k (\<lambda>x k. id_compare_bytes (f x) k < 0))"
    by (simp add: partition_point_def first_at_least_in_sorted_def)
  then show ?thesis by (intro before_key_eqI [OF assms, symmetric]) (auto simp: splits_at_def not_less)
qed

lemma columns_hold_insert:
  assumes h: "columns_hold cs cols" and new: "cs_type s \<notin> (\<lambda>(s, xs). cs_type s) ` set cols" and al: "cs_component_align s > 0"
    and c: "cc_schema c = s" "column_holds c []"
  defines "at \<equiv> before_key (\<lambda>(s, xs). cs_type s) (cs_type s) cols"
  shows "columns_hold (take at cs @ c # drop at cs) (take at cols @ (s, []) # drop at cols)"
proof -
  let ?f = "\<lambda>(s :: component_schema, xs :: (entity_id \<times> 'a) list). cs_type s"
  have l: "list_all2 (\<lambda>c (s, xs). cc_schema c = s \<and> column_holds c xs) cs cols" using h by (simp add: columns_hold_def)
  have "list_all2 (\<lambda>c (s, xs). cc_schema c = s \<and> column_holds c xs) (take at cs @ c # drop at cs) (take at cols @ (s, []) # drop at cols)"
    using c by (intro list_all2_appendI list_all2_takeI l) (simp add: list_all2_dropI [OF l])
  moreover have "sorted_wrt (<) (map ?f (take at cols @ (s, []) # drop at cols))"
    using sorted_insert_key [of ?f cols "(s, [])"] h new by (simp add: columns_hold_def at_def)
  moreover have "\<forall>(s, xs) \<in> set (take at cols @ (s, []) # drop at cols). cs_component_align s > 0"
    using h al by (auto simp: columns_hold_def dest!: in_set_takeD in_set_dropD)
  ultimately show ?thesis unfolding columns_hold_def by blast
qed

lemma column_for_spec:
  assumes h: "columns_hold (td_columns d) cols" and al: "cs_component_align schema > 0"
    and key: "\<forall>(s, xs) \<in> set cols. cs_type s = cs_type schema \<longrightarrow> cs_type_key s = cs_type_key schema"
  shows "\<exists>i cs cols0. impl_column_for schema d = Ok (i, d\<lparr>td_columns := cs\<rparr>) \<and> columns_hold cs cols0 \<and> i < length cols0 \<and>
    cs_type (fst (cols0 ! i)) = cs_type schema \<and> fst (cols0 ! i) \<in> insert schema (fst ` set cols) \<and>
    set (take i cols0 @ drop (Suc i) cols0) \<subseteq> set cols \<and> component_in cols0 = component_in cols"
proof -
  note ty = columns_hold_types [OF h]
  let ?f = "\<lambda>c. column_type c" and ?g = "\<lambda>(s :: component_schema, xs :: (entity_id \<times> 'a) list). cs_type s"
  define at where "at = before_key ?f (cs_type schema) (td_columns d)"
  have idx: "first_at_least_in_sorted (td_columns d) (cs_type schema) (\<lambda>c t. id_compare_bytes (column_type c) t < 0) = at"
    unfolding at_def by (rule column_index [OF ty(3)])
  have occ: "at < length (td_columns d) \<and> column_type (td_columns d ! at) = cs_type schema \<longleftrightarrow> cs_type schema \<in> ?f ` set (td_columns d)"
    unfolding at_def by (rule occupies_iff [OF ty(3)])
  have img: "?f ` set (td_columns d) = ?g ` set cols" using ty(1) by (metis list.set_map)
  show ?thesis
  proof (cases "cs_type schema \<in> ?f ` set (td_columns d)")
    case True
    then have at: "at < length cols" "column_type (td_columns d ! at) = cs_type schema" using occ ty(2) by auto
    have s: "cc_schema (td_columns d ! at) = fst (cols ! at)" using ty(4) [OF at(1)] by simp
    have "cs_type_key (fst (cols ! at)) = cs_type_key schema"
      using bspec [OF key nth_mem [OF at(1)]] at(2) s by (simp add: case_prod_unfold)
    then have "impl_column_for schema d = Ok (at, d)"
      using at ty(2) s unfolding impl_column_for_def idx Let_def by simp
    moreover have "set (take at cols @ drop (Suc at) cols) \<subseteq> set cols" using set_take_subset set_drop_subset by fastforce
    moreover have "fst (cols ! at) \<in> fst ` set cols" using at(1) by simp
    ultimately show ?thesis using h at s by (intro exI [of _ at] exI [of _ "td_columns d"] exI [of _ cols]) simp
  next
    case False
    have at_g: "at = before_key ?g (cs_type schema) cols"
      unfolding at_def before_key_map [of "cs_type schema" ?f, symmetric] ty(1) before_key_map [of "cs_type schema" ?g] ..
    let ?c = "\<lparr>cc_schema = schema, cc_entities = [], cc_components = [], cc_count = 0, cc_capacity = 0\<rparr> :: 'a component_column"
    let ?cols = "take at cols @ (schema, []) # drop at cols"
    have absent: "cs_type schema \<notin> ?g ` set cols" using False img by simp
    have "columns_hold (take at (td_columns d) @ ?c # drop at (td_columns d)) ?cols"
      using columns_hold_insert [OF h absent al, of ?c] unfolding at_g by (simp add: column_holds_def)
    note h2 = this
    have "\<not> (at < length (td_columns d) \<and> column_type (td_columns d ! at) = cs_type schema)" using False occ by simp
    then have "impl_column_for schema d = Ok (at, d\<lparr>td_columns := take at (td_columns d) @ ?c # drop at (td_columns d)\<rparr>)"
      unfolding impl_column_for_def idx Let_def by (simp only: if_False)
    moreover have at: "at \<le> length cols" unfolding at_g by (rule length_takeWhile_le)
    moreover have "component_in ?cols t e = component_in cols t e" for t e
      using h2 component_in_split [of "take at cols" schema "[]" "drop at cols" t e] component_in_absent [OF absent, of e]
      by (simp add: columns_hold_def)
    then have "component_in ?cols = component_in cols" by (simp add: fun_eq_iff)
    moreover have "?cols ! at = (schema, [])" using at by (simp add: nth_append)
    moreover have "take at ?cols @ drop (Suc at) ?cols = cols" using at by simp
    ultimately show ?thesis using h2
      by (intro exI [of _ at] exI [of _ "take at (td_columns d) @ ?c # drop at (td_columns d)"] exI [of _ ?cols]) simp
  qed
qed

lemma entities_hold_simps [simp]:
  "entities_hold (d\<lparr>td_arena := a\<rparr>) es = entities_hold d es" "entities_hold (d\<lparr>td_columns := cs\<rparr>) es = entities_hold d es"
  by (simp_all add: entities_hold_def)

lemma set_put_entries_others:
  assumes "i < length cols"
  shows "set (put_entries i xs cols) \<subseteq> set (take i cols @ drop (Suc i) cols) \<union> (if xs = [] then {} else {(fst (cols ! i), xs)})"
  using assms by (auto simp: put_entries_def upd_conv_take_nth_drop)

lemma document_holds_put:
  assumes h: "columns_hold cs cols0" and i: "i < length cols0" and es: "entities_hold d es"
    and others: "set (take i cols0 @ drop (Suc i) cols0) \<subseteq> set cols" "\<forall>(s, xs) \<in> set cols. xs \<noteq> [] \<and> fst ` set xs \<subseteq> set es"
    and xs: "fst ` set xs \<subseteq> set es" and put: "columns_hold (td_columns d') (put_entries i xs cols0)"
    and d': "d' = d\<lparr>td_arena := a, td_columns := td_columns d'\<rparr>" and f: "fst (cols0 ! i) \<in> insert schema (fst ` set cols)"
  shows "document_holds d' es (put_entries i xs cols0)" "fst ` set (put_entries i xs cols0) \<subseteq> insert schema (fst ` set cols)"
proof -
  have sub: "set (put_entries i xs cols0) \<subseteq> set cols \<union> (if xs = [] then {} else {(fst (cols0 ! i), xs)})"
    using set_put_entries_others [OF i, of xs] others(1) by blast
  have "entities_hold d' es" using es arg_cong [OF d', of "\<lambda>x. entities_hold x es"] by (simp only: entities_hold_simps)
  moreover have "\<forall>(s, ys) \<in> set (put_entries i xs cols0). ys \<noteq> [] \<and> fst ` set ys \<subseteq> set es"
  proof
    fix p assume "p \<in> set (put_entries i xs cols0)"
    with sub have "p \<in> set cols \<or> xs \<noteq> [] \<and> p = (fst (cols0 ! i), xs)" by (auto split: if_splits)
    then show "case p of (s, ys) \<Rightarrow> ys \<noteq> [] \<and> fst ` set ys \<subseteq> set es"
    proof (elim disjE)
      assume "p \<in> set cols"
      with others(2) show ?thesis by (rule bspec)
    qed (use xs in simp)
  qed
  ultimately show "document_holds d' es (put_entries i xs cols0)" using put by (simp add: document_holds_def)
  show "fst ` set (put_entries i xs cols0) \<subseteq> insert schema (fst ` set cols)"
  proof
    fix s assume "s \<in> fst ` set (put_entries i xs cols0)"
    then obtain p where "p \<in> set (put_entries i xs cols0)" "s = fst p" by blast
    moreover from this sub have "p \<in> set cols \<or> p = (fst (cols0 ! i), xs)" by (auto split: if_splits)
    ultimately have "s \<in> fst ` set cols \<or> s = fst (cols0 ! i)" by auto
    then show "s \<in> insert schema (fst ` set cols)" using f by blast
  qed
qed

lemma set_typed_component_spec:
  assumes h: "document_holds d es cols" and a: "td_arena d \<noteq> None" and e: "e \<in> set es"
    and schema: "cs_relocate_range schema \<noteq> 0" "cs_component_align schema > 0"
    and key: "\<forall>s \<in> fst ` set cols. cs_type s = cs_type schema \<longrightarrow> cs_type_key s = cs_type_key schema"
    and con: "construct s = Ok (built, s')"
  shows "\<exists>d' cols'. set_typed_component sys schema e construct (d, s) =
      Ok (if built = None then CK_removed else if component_in cols (cs_type schema) e = None then CK_added else CK_modified, d', s') \<and>
    document_holds d' es cols' \<and> td_arena d' \<noteq> None \<and>
    component_in cols' = (component_in cols)(cs_type schema := (component_in cols (cs_type schema))(e := built)) \<and>
    fst ` set cols' \<subseteq> insert schema (fst ` set cols)"
proof -
  let ?t = "cs_type schema"
  have ent: "entities_hold d es" and ch: "columns_hold (td_columns d) cols" and ne: "\<forall>(s, xs) \<in> set cols. xs \<noteq> [] \<and> fst ` set xs \<subseteq> set es"
    using h by (simp_all add: document_holds_def)
  have key': "\<forall>(s, xs) \<in> set cols. cs_type s = ?t \<longrightarrow> cs_type_key s = cs_type_key schema" using key by force
  from column_for_spec [OF ch schema(2) key'] obtain i cs cols0 where
    c: "impl_column_for schema d = Ok (i, d\<lparr>td_columns := cs\<rparr>)" "columns_hold cs cols0" "i < length cols0"
      "cs_type (fst (cols0 ! i)) = ?t" "fst (cols0 ! i) \<in> insert schema (fst ` set cols)"
      "set (take i cols0 @ drop (Suc i) cols0) \<subseteq> set cols" "component_in cols0 = component_in cols" by blast
  define xs where "xs = snd (cols0 ! i)"
  have ci: "cc_schema (cs ! i) = fst (cols0 ! i)" "column_holds (cs ! i) xs"
    using columns_hold_types(4) [OF c(2,3)] by (simp_all add: xs_def)
  have l: "length cs = length cols0" by (rule columns_hold_types(2) [OF c(2)])
  have xs: "component_in cols ?t = map_of xs"
    using component_in_nth [OF c(2,3), of ?t] ci(1) c(4) unfolding c(7) xs_def by (simp add: fun_eq_iff)
  have srt: "sorted_wrt (<) (map fst xs)" using ci(2) by (simp add: column_holds_def)
  then have dist: "distinct (map fst xs)" by (simp add: strict_sorted_iff)
  have sub: "fst ` set xs \<subseteq> set es"
  proof
    fix x assume "x \<in> fst ` set xs"
    then have "component_in cols ?t x \<noteq> None" by (simp add: xs map_of_eq_None_iff)
    then obtain s ys where "(s, ys) \<in> set cols" "x \<in> fst ` set ys"
      by (force simp: component_in_def split: option.splits dest!: map_of_SomeD)
    then show "x \<in> set es" using ne by fastforce
  qed
  define at where "at = before_key fst e xs"
  note pos = column_position [OF ci(2), of e, folded at_def]
  let ?d = "d\<lparr>td_columns := cs\<rparr>"
  have pre: "set_typed_component sys schema e construct (d, s) =
      (if e \<in> fst ` set xs then replace_component i at construct (?d, s) else insert_component sys i e construct (?d, s))"
    using doc_contains_eq [OF ent, of e] e schema(1) c(1,3) l pos by (simp add: set_typed_component_def)
  have hc: "columns_hold (td_columns ?d) cols0" and ar: "td_arena ?d \<noteq> None" using c(2) a by simp_all
  have finish: "\<exists>d' cols'. document_holds d' es cols' \<and> td_arena d' \<noteq> None \<and> d' = d\<lparr>td_arena := Some b, td_columns := cs'\<rparr> \<and>
      component_in cols' = (component_in cols)(?t := (component_in cols ?t)(e := built)) \<and> fst ` set cols' \<subseteq> insert schema (fst ` set cols)"
    if "columns_hold cs' (put_entries i ys cols0)" "map_of ys = (map_of xs)(e := built)" for b cs' ys
  proof -
    have "dom (map_of ys) \<subseteq> insert e (dom (map_of xs))" using that(2) by (auto split: if_splits)
    then have "fst ` set ys \<subseteq> set es" using sub e by (auto simp: dom_map_of_conv_image_fst)
    from document_holds_put [OF c(2,3) ent c(6) ne this, of "d\<lparr>td_arena := Some b, td_columns := cs'\<rparr>" "Some b" schema] that(1) c(5)
    have "document_holds (d\<lparr>td_arena := Some b, td_columns := cs'\<rparr>) es (put_entries i ys cols0)"
      "fst ` set (put_entries i ys cols0) \<subseteq> insert schema (fst ` set cols)" by simp_all
    moreover have "component_in (put_entries i ys cols0) = (component_in cols)(?t := (component_in cols ?t)(e := built))"
      using component_in_put [OF c(2,3), of ys] c(4,7) that(2) xs by (auto simp: fun_eq_iff)
    ultimately show ?thesis by (intro exI [of _ "d\<lparr>td_arena := Some b, td_columns := cs'\<rparr>"] exI [of _ "put_entries i ys cols0"]) simp
  qed
  show ?thesis
  proof (cases "e \<in> fst ` set xs")
    case True
    have at: "at < length xs" "fst (xs ! at) = e" unfolding at_def using before_key_found [OF srt True] by simp_all
    let ?ys = "case built of None \<Rightarrow> take at xs @ drop (Suc at) xs | Some v \<Rightarrow> xs[at := (fst (xs ! at), v)]"
    from replace_component_spec [OF hc c(3) ar at(1) xs_def [symmetric], of construct s, OF con] obtain b cs' where
      r: "replace_component i at construct (?d, s) =
        Ok (case built of None \<Rightarrow> CK_removed | Some _ \<Rightarrow> CK_modified, d\<lparr>td_arena := Some b, td_columns := cs'\<rparr>, s')"
        "columns_hold cs' (put_entries i ?ys cols0)" by auto
    have "map_of ?ys = (map_of xs)(e := built)"
      using map_of_delete_at [OF dist at(1)] map_of_update_at [OF dist at(1)] at(2) by (auto split: option.split)
    from finish [OF r(2) this, of b] obtain d' cols' where fin: "document_holds d' es cols'" "td_arena d' \<noteq> None"
      "d' = d\<lparr>td_arena := Some b, td_columns := cs'\<rparr>"
      "component_in cols' = (component_in cols)(?t := (component_in cols ?t)(e := built))"
      "fst ` set cols' \<subseteq> insert schema (fst ` set cols)" by blast
    moreover have "component_in cols ?t e \<noteq> None" using True by (simp add: xs map_of_eq_None_iff)
    then have "set_typed_component sys schema e construct (d, s) =
        Ok (if built = None then CK_removed else if component_in cols ?t e = None then CK_added else CK_modified, d', s')"
      using True pre r(1) fin(3) by (simp split: option.split)
    ultimately show ?thesis by blast
  next
    case False
    let ?ys = "case built of None \<Rightarrow> xs | Some v \<Rightarrow> take at xs @ (e, v) # drop at xs"
    from insert_component_spec [OF hc c(3) ar False xs_def [symmetric], of construct s, OF con, of sys, folded at_def] obtain b cs' where
      r: "insert_component sys i e construct (?d, s) =
        Ok (case built of None \<Rightarrow> CK_removed | Some _ \<Rightarrow> CK_added, d\<lparr>td_arena := Some b, td_columns := cs'\<rparr>, s')"
        "columns_hold cs' (put_entries i ?ys cols0)" by auto
    have none: "map_of xs e = None" using False by (simp add: map_of_eq_None_iff)
    then have "map_of ?ys = (map_of xs)(e := built)"
      using map_of_insert_key [OF False] by (auto simp: fun_eq_iff split: option.split)
    from finish [OF r(2) this, of b] obtain d' cols' where fin: "document_holds d' es cols'" "td_arena d' \<noteq> None"
      "d' = d\<lparr>td_arena := Some b, td_columns := cs'\<rparr>"
      "component_in cols' = (component_in cols)(?t := (component_in cols ?t)(e := built))"
      "fst ` set cols' \<subseteq> insert schema (fst ` set cols)" by blast
    moreover have "set_typed_component sys schema e construct (d, s) =
        Ok (if built = None then CK_removed else if component_in cols ?t e = None then CK_added else CK_modified, d', s')"
      using False pre r(1) fin(3) none by (simp add: xs split: option.split)
    ultimately show ?thesis by blast
  qed
qed

lemma remove_typed_component_spec:
  assumes h: "columns_hold (td_columns d) cols" and a: "td_arena d \<noteq> None"
  shows "component_in cols t e = None \<Longrightarrow> remove_typed_component t e d = Ok (False, d)"
    and "component_in cols t e \<noteq> None \<Longrightarrow> \<exists>a cs i xs. remove_typed_component t e d = Ok (True, d\<lparr>td_arena := Some a, td_columns := cs\<rparr>) \<and>
      i < length cols \<and> cs_type (fst (cols ! i)) = t \<and> columns_hold cs (put_entries i xs cols) \<and>
      map_of xs = (component_in cols t)(e := None)"
proof -
  note ty = columns_hold_types [OF h]
  let ?f = "\<lambda>c. column_type c"
  define i where "i = before_key ?f t (td_columns d)"
  have idx: "first_at_least_in_sorted (td_columns d) t (\<lambda>c t. id_compare_bytes (column_type c) t < 0) = i"
    unfolding i_def by (rule column_index [OF ty(3)])
  have occ: "i < length (td_columns d) \<and> column_type (td_columns d ! i) = t \<longleftrightarrow> t \<in> ?f ` set (td_columns d)"
    unfolding i_def by (rule occupies_iff [OF ty(3)])
  have main: "(component_in cols t e = None \<longrightarrow> remove_typed_component t e d = Ok (False, d)) \<and>
     (component_in cols t e \<noteq> None \<longrightarrow> (\<exists>a cs i xs. remove_typed_component t e d = Ok (True, d\<lparr>td_arena := Some a, td_columns := cs\<rparr>) \<and>
      i < length cols \<and> cs_type (fst (cols ! i)) = t \<and> columns_hold cs (put_entries i xs cols) \<and>
      map_of xs = (component_in cols t)(e := None)))"
  proof (cases "t \<in> ?f ` set (td_columns d)")
    case False
    then have "t \<notin> (\<lambda>(s, xs). cs_type s) ` set cols" using ty(1) by (metis list.set_map)
    moreover have "i \<ge> length (td_columns d) \<or> column_type (td_columns d ! i) \<noteq> t" using occ False by auto
    then have "remove_typed_component t e d = Ok (False, d)" unfolding remove_typed_component_def idx Let_def by (simp only: if_True)
    ultimately show ?thesis by (simp add: component_in_absent)
  next
    case True
    then have i: "i < length cols" "column_type (td_columns d ! i) = t" using occ ty(2) by auto
    let ?c = "td_columns d ! i"
    define xs where "xs = snd (cols ! i)"
    have hold: "column_holds ?c xs" and sch: "cc_schema ?c = fst (cols ! i)" using ty(4) [OF i(1)] by (simp_all add: xs_def)
    have cin: "component_in cols t = map_of xs" using component_in_nth [OF h i] by (simp add: fun_eq_iff xs_def)
    have srt: "sorted_wrt (<) (map fst xs)" using hold by (simp add: column_holds_def)
    define at where "at = before_key fst e xs"
    note pos = column_position [OF hold, of e, folded at_def]
    have st: "cc_components ?c = live (map snd xs) (cc_capacity ?c)" "length xs \<le> cc_capacity ?c" using hold by (simp_all add: column_holds_def)
    have pre: "remove_typed_component t e d = (if e \<notin> fst ` set xs then Ok (False, d) else
        rbind (destroy_range (cc_components ?c) at 1) (\<lambda>comps.
             rbind (close_hole i at (?c\<lparr>cc_components := comps\<rparr>) d) (\<lambda>d. Ok (True, d))))"
      using i ty(2) pos unfolding remove_typed_component_def idx Let_def by simp
    show ?thesis
    proof (cases "e \<in> fst ` set xs")
      case e: True
      have at: "at < length xs" "fst (xs ! at) = e" unfolding at_def using before_key_found [OF srt e] by simp_all
      obtain comps where des: "destroy_range (cc_components ?c) at 1 = (Ok comps :: 'a slots checked)"
        using destroy_one [of at "map snd xs" "cc_capacity ?c"] at st by simp
      from close_hole_spec [OF h i(1) a at(1) xs_def [symmetric] des] obtain b cs where
        "close_hole i at (?c\<lparr>cc_components := comps\<rparr>) d = Ok (d\<lparr>td_arena := Some b, td_columns := cs\<rparr>)"
        "columns_hold cs (put_entries i (take at xs @ drop (Suc at) xs) cols)" by blast
      moreover have "map_of (take at xs @ drop (Suc at) xs) = (component_in cols t)(e := None)"
        using map_of_delete_at [of xs at] srt at by (simp add: strict_sorted_iff cin)
      moreover from calculation(1) have "remove_typed_component t e d = Ok (True, d\<lparr>td_arena := Some b, td_columns := cs\<rparr>)"
        using pre e des by simp
      moreover have "cs_type (fst (cols ! i)) = t" using i sch by simp
      moreover have "component_in cols t e \<noteq> None" using e cin by (simp add: map_of_eq_None_iff)
      ultimately show ?thesis using i(1) by blast
    next
      case False
      then show ?thesis using pre cin by (simp add: map_of_eq_None_iff)
    qed
  qed
  then show "component_in cols t e = None \<Longrightarrow> remove_typed_component t e d = Ok (False, d)" by blast
  from main show "component_in cols t e \<noteq> None \<Longrightarrow> \<exists>a cs i xs. remove_typed_component t e d = Ok (True, d\<lparr>td_arena := Some a, td_columns := cs\<rparr>) \<and>
      i < length cols \<and> cs_type (fst (cols ! i)) = t \<and> columns_hold cs (put_entries i xs cols) \<and>
      map_of xs = (component_in cols t)(e := None)" by blast
qed

lemma remove_component_holds:
  assumes h: "document_holds d es cols" and a: "td_arena d \<noteq> None"
  shows "\<exists>d' cols'. remove_typed_component t e d = Ok (component_in cols t e \<noteq> None, d') \<and> document_holds d' es cols' \<and>
    td_arena d' \<noteq> None \<and> component_in cols' = (component_in cols)(t := (component_in cols t)(e := None)) \<and>
    fst ` set cols' \<subseteq> fst ` set cols \<and>
    (cols' = cols \<or> (\<exists>i xs. i < length cols \<and> cs_type (fst (cols ! i)) = t \<and> cols' = put_entries i xs cols))"
proof (cases "component_in cols t e")
  case None
  have ch: "columns_hold (td_columns d) cols" using h by (simp add: document_holds_def)
  have "(component_in cols)(t := (component_in cols t)(e := None)) = component_in cols" using None by (auto simp: fun_eq_iff)
  with remove_typed_component_spec(1) [OF ch a None] h a None show ?thesis by auto
next
  case (Some v)
  have ent: "entities_hold d es" and ch: "columns_hold (td_columns d) cols" and ne: "\<forall>(s, xs) \<in> set cols. xs \<noteq> [] \<and> fst ` set xs \<subseteq> set es"
    using h by (simp_all add: document_holds_def)
  from remove_typed_component_spec(2) [OF ch a, of t e] Some obtain b cs i xs where
    r: "remove_typed_component t e d = Ok (True, d\<lparr>td_arena := Some b, td_columns := cs\<rparr>)" "i < length cols"
      "cs_type (fst (cols ! i)) = t" "columns_hold cs (put_entries i xs cols)" "map_of xs = (component_in cols t)(e := None)" by auto
  have ct: "column_type (td_columns d ! i) = t" using columns_hold_types(4) [OF ch r(2)] r(3) by simp
  have cin: "component_in cols t = map_of (snd (cols ! i))" using component_in_nth [OF ch r(2) ct] by (simp add: fun_eq_iff)
  have "dom (map_of xs) \<subseteq> dom (component_in cols t)" using r(5) by (auto split: if_splits)
  then have "fst ` set xs \<subseteq> fst ` set (snd (cols ! i))" by (simp add: cin dom_map_of_conv_image_fst)
  moreover have "fst ` set (snd (cols ! i)) \<subseteq> set es" using bspec [OF ne nth_mem [OF r(2)]] by (simp add: case_prod_unfold)
  ultimately have sub: "fst ` set xs \<subseteq> set es" by blast
  have others: "set (take i cols @ drop (Suc i) cols) \<subseteq> set cols" using set_take_subset set_drop_subset by fastforce
  have f: "fst (cols ! i) \<in> fst ` set cols" using r(2) by simp
  then have f': "fst (cols ! i) \<in> insert (fst (cols ! i)) (fst ` set cols)" by simp
  have put: "columns_hold (td_columns (d\<lparr>td_arena := Some b, td_columns := cs\<rparr>)) (put_entries i xs cols)" using r(4) by simp
  note dh = document_holds_put [OF ch r(2) ent others ne sub put _ f', of "Some b"]
  have "component_in (put_entries i xs cols) = (component_in cols)(t := (component_in cols t)(e := None))"
    using component_in_put [OF ch r(2), of xs] r(3,5) by (auto simp: fun_eq_iff)
  then show ?thesis
    using dh r(1-3) Some f by (intro exI [of _ "d\<lparr>td_arena := Some b, td_columns := cs\<rparr>"] exI [of _ "put_entries i xs cols"]) (auto simp: insert_absorb)
qed

lemma component_in_mem:
  assumes "columns_hold cs cols" "(s, xs) \<in> set cols"
  shows "component_in cols (cs_type s) = map_of xs"
proof -
  from assms(2) obtain i where i: "i < length cols" "cols ! i = (s, xs)" by (auto simp: in_set_conv_nth)
  with columns_hold_types(4) [OF assms(1) i(1)] component_in_nth [OF assms(1) i(1), of "cs_type s"] show ?thesis
    by (simp add: fun_eq_iff)
qed

lemma put_entries_before: "i < length cols \<Longrightarrow> k \<le> i \<Longrightarrow> take k (put_entries i xs cols) = take k cols \<and> k \<le> length (put_entries i xs cols)"
  by (auto simp: put_entries_def)

lemma remove_everywhere:
  assumes "document_holds d es cols" "td_arena d \<noteq> None" "k \<le> length cols"
  shows "\<exists>d' cols'. rfold (\<lambda>i d. rbind (vat (td_columns d) i) (\<lambda>c.
        rbind (remove_typed_component (column_type c) e d) (\<lambda>(_, d). Ok d))) (rev [0..<k]) d = (Ok d' :: 'c document checked) \<and>
    document_holds d' es cols' \<and> td_arena d' \<noteq> None \<and> fst ` set cols' \<subseteq> fst ` set cols \<and>
    (\<forall>t x. component_in cols' t x = (if x = e \<and> t \<in> (\<lambda>(s, xs). cs_type s) ` set (take k cols) then None else component_in cols t x))"
  using assms
proof (induction k arbitrary: d cols)
  case 0
  then show ?case by auto
next
  case (Suc k)
  have ch: "columns_hold (td_columns d) cols" using Suc.prems(1) by (simp add: document_holds_def)
  have k: "k < length cols" "length (td_columns d) = length cols" using Suc.prems(3) columns_hold_types(2) [OF ch] by simp_all
  let ?t = "column_type (td_columns d ! k)"
  have t: "?t = cs_type (fst (cols ! k))" using columns_hold_types(4) [OF ch k(1)] by simp
  from remove_component_holds [OF Suc.prems(1,2), of ?t e] obtain d1 cols1 where
    r: "remove_typed_component ?t e d = Ok (component_in cols ?t e \<noteq> None, d1)" "document_holds d1 es cols1" "td_arena d1 \<noteq> None"
      "component_in cols1 = (component_in cols)(?t := (component_in cols ?t)(e := None))" "fst ` set cols1 \<subseteq> fst ` set cols"
      "cols1 = cols \<or> (\<exists>i xs. i < length cols \<and> cs_type (fst (cols ! i)) = ?t \<and> cols1 = put_entries i xs cols)" by blast
  have dist: "distinct (map (\<lambda>(s, xs). cs_type s) cols)" using ch by (simp add: columns_hold_def strict_sorted_iff)
  have "i = k" if "i < length cols" "cs_type (fst (cols ! i)) = ?t" for i
    using dist that k(1) t by (auto simp: distinct_conv_nth case_prod_unfold)
  then have pre: "take k cols1 = take k cols" "k \<le> length cols1" using r(6) put_entries_before [OF k(1), of k] k(1) by auto
  from Suc.IH [OF r(2,3) pre(2)] obtain d' cols' where
    "rfold (\<lambda>i d. rbind (vat (td_columns d) i) (\<lambda>c.
        rbind (remove_typed_component (column_type c) e d) (\<lambda>(_, d). Ok d))) (rev [0..<k]) d1 = (Ok d' :: 'c document checked)"
    "document_holds d' es cols'" "td_arena d' \<noteq> None" "fst ` set cols' \<subseteq> fst ` set cols1"
    "\<forall>t x. component_in cols' t x = (if x = e \<and> t \<in> (\<lambda>(s, xs). cs_type s) ` set (take k cols) then None else component_in cols1 t x)"
    unfolding pre(1) by blast
  moreover have "set (take (Suc k) cols) = insert (cols ! k) (set (take k cols))" using k(1) by (simp add: take_Suc_conv_app_nth)
  then have "(\<lambda>(s, xs). cs_type s) ` set (take (Suc k) cols) = insert ?t ((\<lambda>(s, xs). cs_type s) ` set (take k cols))"
    by (simp add: t case_prod_unfold)
  ultimately show ?case using r(1,4,5) k by (intro exI [of _ d'] exI [of _ cols']) auto
qed

lemma remove_typed_entity_spec:
  assumes h: "document_holds d es cols" and a: "td_arena d \<noteq> None"
  shows "\<exists>d' cols'. remove_typed_entity e d = Ok (e \<in> set es, d') \<and> td_arena d' \<noteq> None \<and>
    document_holds d' (sorted_list_of_set (set es - {e})) cols' \<and> fst ` set cols' \<subseteq> fst ` set cols \<and>
    (\<forall>t x. component_in cols' t x = (if x = e then None else component_in cols t x))"
proof -
  have ent: "entities_hold d es" and ch: "columns_hold (td_columns d) cols" and ne: "\<forall>(s, xs) \<in> set cols. xs \<noteq> [] \<and> fst ` set xs \<subseteq> set es"
    using h by (simp_all add: document_holds_def)
  have st: "starts (td_entities d) es" "sorted_wrt (<) es" "td_entity_count d = length es" using ent by (simp_all add: entities_hold_def)
  define at where "at = before_key (\<lambda>v. v) e es"
  have find: "slot_for (td_entities d) (length es) e = Ok at" "occupies (td_entities d) (length es) at e = Ok (e \<in> set es)"
    unfolding at_def using slot_for_eq occupies_eq st(1,2) by blast+
  have srt: "sorted_list_of_set (set es) = es" using st(2) by (metis sorted_list_of_set.idem_if_sorted_distinct strict_sorted_iff)
  have inside: "component_in cols t x \<noteq> None \<Longrightarrow> x \<in> set es" for t x
    using ne by (fastforce simp: component_in_def split: option.splits dest!: map_of_SomeD)
  show ?thesis
  proof (cases "e \<in> set es")
    case False
    then have "remove_typed_entity e d = Ok (False, d)" using find st(3) by (simp add: remove_typed_entity_def)
    moreover have "component_in cols t e = None" for t using inside False by blast
    ultimately show ?thesis using False h a srt by (intro exI [of _ d] exI [of _ cols]) simp
  next
    case True
    have m: "sorted_wrt (<) (map (\<lambda>v. v) es)" "e \<in> (\<lambda>v. v) ` set es" using st(2) True by simp_all
    have at: "at < length es" "es ! at = e" unfolding at_def using before_key_found [OF m] by simp_all
    have l: "length (td_columns d) = length cols" by (rule columns_hold_types(2) [OF ch])
    from remove_everywhere [OF h a order.refl, of e] obtain d1 cols' where
      r: "rfold (\<lambda>i d. rbind (vat (td_columns d) i) (\<lambda>c.
        rbind (remove_typed_component (column_type c) e d) (\<lambda>(_, d). Ok d))) (rev [0..<length cols]) d = Ok d1"
        "document_holds d1 es cols'" "td_arena d1 \<noteq> None" "fst ` set cols' \<subseteq> fst ` set cols"
        "\<And>t x. component_in cols' t x = (if x = e \<and> t \<in> (\<lambda>(s, xs). cs_type s) ` set (take (length cols) cols) then None else component_in cols t x)"
      by blast
    have gone: "component_in cols' t x = (if x = e then None else component_in cols t x)" for t x
      using r(5) [of t x] component_in_absent [of t cols e] by auto
    have ent1: "entities_hold d1 es" and ch1: "columns_hold (td_columns d1) cols'"
      and ne1: "\<forall>(s, xs) \<in> set cols'. xs \<noteq> [] \<and> fst ` set xs \<subseteq> set es" using r(2) by (simp_all add: document_holds_def)
    from starts_remove [of "td_entities d1" es at, where 'e = unit] ent1 at(1) obtain arr where
      arr: "close_slot (td_entities d1) (length es) at = (Ok arr :: entity_id slots checked)" "starts arr (take at es @ drop (Suc at) es)"
        "length arr = length (td_entities d1)" by (auto simp: entities_hold_def)
    let ?es = "take at es @ drop (Suc at) es"
    have dist: "distinct es" using st(2) by (simp add: strict_sorted_iff)
    have set_es: "set ?es = set es - {e}" using set_delete_at [OF dist at(1)] at(2) by simp
    have srt2: "sorted_wrt (<) ?es" using sorted_delete_at [of "(<)" "\<lambda>v. v" es at] st(2) by simp
    then have es: "?es = sorted_list_of_set (set es - {e})"
      unfolding set_es [symmetric] by (metis sorted_list_of_set.idem_if_sorted_distinct strict_sorted_iff)
    let ?d = "d1\<lparr>td_entities := arr, td_entity_count := length es - 1\<rparr>"
    have "remove_typed_entity e d = Ok (True, ?d)"
      using True find st(3) r(1) arr(1) ent1 l by (simp add: remove_typed_entity_def entities_hold_def)
    moreover have "entities_hold ?d ?es" using ent1 arr(2,3) srt2 at(1) by (auto simp: entities_hold_def)
    moreover have "\<forall>(s, xs) \<in> set cols'. xs \<noteq> [] \<and> fst ` set xs \<subseteq> set ?es"
    proof
      fix p assume p: "p \<in> set cols'"
      obtain s xs where sx: "p = (s, xs)" by (cases p)
      have "map_of xs e = None" using component_in_mem [OF ch1, of s xs] p sx gone [of "cs_type s" e] by simp
      then show "case p of (s, xs) \<Rightarrow> xs \<noteq> [] \<and> fst ` set xs \<subseteq> set ?es"
        using bspec [OF ne1 p] unfolding set_es sx by (auto simp: map_of_eq_None_iff image_iff)
    qed
    ultimately show ?thesis
      using r(3,4) ch1 gone True unfolding es by (intro exI [of _ ?d] exI [of _ cols']) (simp add: document_holds_def)
  qed
qed

subsection \<open>Compaction\<close>

lemma compact_columns:
  assumes "list_all2 (\<lambda>c (s, xs). cc_schema c = s \<and> column_holds c xs) cs cols" "\<forall>(s, xs) \<in> set cols. cs_component_align s > 0"
  shows "\<exists>a cs'. rfold (compact_column sys) cs (b, out) = Ok (a, out @ cs') \<and>
    list_all2 (\<lambda>c (s, xs). cc_schema c = s \<and> column_holds c xs) cs' cols"
  using assms
proof (induction cs cols arbitrary: b out rule: list_all2_induct)
  case (Cons c cs p cols)
  obtain s xs where p: "p = (s, xs)" by (cases p)
  have c: "cc_schema c = s" "column_holds c xs" and al: "cs_component_align s > 0" using Cons.hyps(1) Cons.prems p by auto
  then have st: "starts (cc_entities c) (map fst xs)" "cc_components c = live (map snd xs) (cc_capacity c)"
    "cc_count c = length xs" "sorted_wrt (<) (map fst xs)" by (simp_all add: column_holds_def)
  obtain p1 b1 where b1: "arena_allocate sys (length xs * 8) 8 b = Ok (p1, b1)" using arena_allocate_total [of 8 sys] by fastforce
  obtain p2 b2 where b2: "arena_allocate sys (length xs * cs_component_size s) (cs_component_align s) b1 = Ok (p2, b2)"
    using arena_allocate_total [OF al, of sys] by fastforce
  have ids: "copy_slots (replicate (length xs) None) (cc_entities c) 0 0 (length xs) = (Ok (map Some (map fst xs)) :: entity_id slots checked)"
    using copy_slots_spec [OF st(1), of 0 "length xs" 0 "replicate (length xs) None", where 'e = unit] by simp
  have comps: "\<exists>rest. relocate_between (replicate (length xs) None) (cc_components c) (length xs) =
      (Ok (live (map snd xs) (length xs), rest) :: ('a slots \<times> 'a slots) checked)"
    using relocate_between_spec [of "map snd xs" "length xs" "replicate (cc_capacity c - length xs) None", where 'e = unit] st(2)
    by (simp add: live_def)
  let ?c = "c\<lparr>cc_entities := map Some (map fst xs), cc_components := live (map snd xs) (length xs), cc_capacity := length xs\<rparr>"
  have "compact_column sys c (b, out) = Ok (b2, out @ [?c])"
    using b1 b2 ids comps c(1) st(3) by (auto simp: compact_column_def)
  moreover have "column_holds ?c xs" using st(3,4) by (auto simp: column_holds_def starts_def)
  moreover from Cons.IH [of b2 "out @ [?c]"] Cons.prems obtain a cs' where
    "rfold (compact_column sys) cs (b2, out @ [?c]) = Ok (a, (out @ [?c]) @ cs')"
    "list_all2 (\<lambda>c (s, xs). cc_schema c = s \<and> column_holds c xs) cs' cols" by auto
  ultimately show ?case using c(1) p by (intro exI [of _ a] exI [of _ "?c # cs'"]) simp
qed simp

lemma compact_spec:
  assumes h: "document_holds d es cols"
  shows "\<exists>d' a. compact sys d = Ok d' \<and> document_holds d' es cols \<and> td_arena d' = Some a \<and> td_entity_capacity d' = length es"
proof -
  have ent: "entities_hold d es" and ch: "columns_hold (td_columns d) cols" using h by (simp_all add: document_holds_def)
  have st: "starts (td_entities d) es" "td_entity_count d = length es" "sorted_wrt (<) es" using ent by (simp_all add: entities_hold_def)
  obtain p b where b: "arena_allocate sys (length es * 8) 8 new_arena = Ok (p, b)" using arena_allocate_total [of 8 sys] by fastforce
  have ids: "copy_slots (replicate (length es) None) (td_entities d) 0 0 (length es) = (Ok (map Some es) :: entity_id slots checked)"
    using copy_slots_spec [OF st(1), of 0 "length es" 0 "replicate (length es) None", where 'e = unit] by simp
  from compact_columns [of "td_columns d" cols sys b "[]"] ch obtain a cs where
    cs: "rfold (compact_column sys) (td_columns d) (b, []) = Ok (a, cs)"
      "list_all2 (\<lambda>c (s, xs). cc_schema c = s \<and> column_holds c xs) cs cols" by (auto simp: columns_hold_def)
  let ?d = "d\<lparr>td_columns := cs, td_entities := map Some es, td_entity_capacity := length es, td_arena := Some a\<rparr>"
  have "compact sys d = Ok ?d" using b ids cs(1) st(2) by (simp add: compact_def)
  moreover have "columns_hold cs cols" using cs(2) ch by (simp add: columns_hold_def)
  then have "document_holds ?d es cols" using h st by (auto simp: document_holds_def entities_hold_def starts_def)
  ultimately show ?thesis by auto
qed

end
