(* ===== verification/Builder_Table.thy ===== *)
theory Builder_Table
  imports Builder_Edits
begin

text \<open>
  The builder as the table it is meant to be (document_builder.hh): abstraction of a document, the edits as updates of it, and
  whole sessions of calls as a refinement.
\<close>

subsection \<open>A document as a table\<close>

text \<open>What a document shows: its entities, and the component of a type an entity carries.\<close>

definition column_entries :: "'c component_column \<Rightarrow> (entity_id \<times> 'c) list" where
  "column_entries c = zip (map the (take (cc_count c) (cc_entities c))) (map the (take (cc_count c) (cc_components c)))"

definition doc_entities :: "'c document \<Rightarrow> entity_id list" where
  "doc_entities d = map the (take (td_entity_count d) (td_entities d))"

definition doc_columns :: "'c document \<Rightarrow> 'c columns" where
  "doc_columns d = map (\<lambda>c. (cc_schema c, column_entries c)) (td_columns d)"

definition doc_component :: "'c document \<Rightarrow> component_type_id \<Rightarrow> entity_id \<Rightarrow> 'c option" where
  "doc_component d = component_in (doc_columns d)"

definition doc_schemas :: "'c document \<Rightarrow> component_schema set" where
  "doc_schemas d = fst ` set (doc_columns d)"

definition document_ok :: "'c document \<Rightarrow> bool" where
  "document_ok d \<longleftrightarrow> td_arena d \<noteq> None \<and> document_holds d (doc_entities d) (doc_columns d)"

lemma column_entries_eq: "column_holds c xs \<Longrightarrow> column_entries c = xs"
  using starts_take [of "cc_entities c" "map fst xs"] starts_take [of "cc_components c" "map snd xs"]
  by (simp add: column_entries_def column_holds_def comp_def zip_map_fst_snd)

lemma document_holds_view:
  assumes "document_holds d es cols"
  shows "doc_entities d = es" "doc_columns d = cols"
proof -
  have ent: "entities_hold d es" and ch: "columns_hold (td_columns d) cols" using assms by (simp_all add: document_holds_def)
  show "doc_entities d = es"
    using ent starts_take [of "td_entities d" es] by (simp add: entities_hold_def doc_entities_def comp_def)
  show "doc_columns d = cols"
  proof (rule nth_equalityI)
    show "length (doc_columns d) = length cols" using columns_hold_types(2) [OF ch] by (simp add: doc_columns_def)
    fix i assume "i < length (doc_columns d)"
    then have i: "i < length cols" using columns_hold_types(2) [OF ch] by (simp add: doc_columns_def)
    have "cc_schema (td_columns d ! i) = fst (cols ! i)" "column_entries (td_columns d ! i) = snd (cols ! i)"
      using columns_hold_types(4) [OF ch i] by (auto simp: column_entries_eq split: prod.splits)
    then show "doc_columns d ! i = cols ! i" using i columns_hold_types(2) [OF ch] by (simp add: doc_columns_def)
  qed
qed

lemma document_okI: "document_holds d es cols \<Longrightarrow> td_arena d \<noteq> None \<Longrightarrow> document_ok d"
  using document_holds_view [of d es cols] by (simp add: document_ok_def)

lemma document_ok_empty: "document_ok (new_document_builder empty_document)"
  by (rule document_okI [of _ "[]" "[]"])
    (simp_all add: new_document_builder_def empty_document_def document_holds_def entities_hold_def columns_hold_def)

lemma document_ok_entities: "document_ok d \<Longrightarrow> sorted_wrt (<) (doc_entities d)"
  by (simp add: document_ok_def document_holds_def entities_hold_def)

lemma document_component_entity:
  assumes "document_ok d" "doc_component d t e \<noteq> None"
  shows "e \<in> set (doc_entities d)"
proof -
  have "\<forall>(s, xs) \<in> set (doc_columns d). xs \<noteq> [] \<and> fst ` set xs \<subseteq> set (doc_entities d)"
    using assms(1) by (simp add: document_ok_def document_holds_def)
  with assms(2) show ?thesis
    by (fastforce simp: doc_component_def component_in_def split: option.splits dest!: map_of_SomeD)
qed

lemma insert_entity_ok:
  assumes "document_ok d"
  shows "\<exists>d'. insert_entity sys e d = Ok (e \<notin> set (doc_entities d), d') \<and> document_ok d' \<and>
    set (doc_entities d') = insert e (set (doc_entities d)) \<and> doc_component d' = doc_component d \<and> doc_schemas d' = doc_schemas d"
proof -
  let ?es = "doc_entities d" and ?cols = "doc_columns d"
  have h: "document_holds d ?es ?cols" and a: "td_arena d \<noteq> None" using assms by (simp_all add: document_ok_def)
  have ent: "entities_hold d ?es" and ch: "columns_hold (td_columns d) ?cols"
    and ne: "\<forall>(s, xs) \<in> set ?cols. xs \<noteq> [] \<and> fst ` set xs \<subseteq> set ?es" using h by (simp_all add: document_holds_def)
  show ?thesis
  proof (cases "e \<in> set ?es")
    case True
    with insert_entity_spec(1) [OF ent a True] assms show ?thesis by (intro exI [of _ d]) auto
  next
    case False
    from insert_entity_spec(2) [OF ent a False, of sys] obtain b arr c where
      r: "insert_entity sys e d =
        Ok (True, d\<lparr>td_arena := Some b, td_entities := arr, td_entity_capacity := c, td_entity_count := Suc (length ?es)\<rparr>)"
        "\<forall>cols. entities_hold (d\<lparr>td_arena := Some b, td_entities := arr, td_entity_capacity := c,
         td_entity_count := Suc (length ?es), td_columns := cols\<rparr>) (sorted_list_of_set (insert e (set ?es)))" by blast
    let ?d = "d\<lparr>td_arena := Some b, td_entities := arr, td_entity_capacity := c, td_entity_count := Suc (length ?es)\<rparr>"
    have "entities_hold ?d (sorted_list_of_set (insert e (set ?es)))" using spec [OF r(2), of "td_columns d"] by (cases d) simp
    moreover have es: "set (sorted_list_of_set (insert e (set ?es))) = insert e (set ?es)"
      by (rule set_sorted_list_of_set) simp
    moreover have "\<forall>(s, xs) \<in> set ?cols. xs \<noteq> [] \<and> fst ` set xs \<subseteq> set (sorted_list_of_set (insert e (set ?es)))"
      unfolding es using ne by blast
    ultimately have h': "document_holds ?d (sorted_list_of_set (insert e (set ?es))) ?cols" using ch by (simp add: document_holds_def)
    from document_holds_view [OF h'] document_okI [OF h'] r(1) False es show ?thesis
      by (intro exI [of _ ?d]) (simp add: doc_component_def doc_schemas_def)
  qed
qed

lemma remove_typed_entity_ok:
  assumes "document_ok d"
  shows "\<exists>d'. remove_typed_entity e d = Ok (e \<in> set (doc_entities d), d') \<and> document_ok d' \<and>
    set (doc_entities d') = set (doc_entities d) - {e} \<and> doc_schemas d' \<subseteq> doc_schemas d \<and>
    (\<forall>t x. doc_component d' t x = (if x = e then None else doc_component d t x))"
proof -
  have h: "document_holds d (doc_entities d) (doc_columns d)" and a: "td_arena d \<noteq> None" using assms by (simp_all add: document_ok_def)
  from remove_typed_entity_spec [OF h a, of e] obtain d' cols' where
    r: "remove_typed_entity e d = Ok (e \<in> set (doc_entities d), d')" "td_arena d' \<noteq> None"
      "document_holds d' (sorted_list_of_set (set (doc_entities d) - {e})) cols'" "fst ` set cols' \<subseteq> fst ` set (doc_columns d)"
      "\<forall>t x. component_in cols' t x = (if x = e then None else component_in (doc_columns d) t x)" by blast
  from document_holds_view [OF r(3)] document_okI [OF r(3,2)] r(1,4,5) show ?thesis
    by (intro exI [of _ d']) (simp add: doc_component_def doc_schemas_def)
qed

lemma remove_typed_component_ok:
  assumes "document_ok d"
  shows "\<exists>d'. remove_typed_component t e d = Ok (doc_component d t e \<noteq> None, d') \<and> document_ok d' \<and>
    doc_entities d' = doc_entities d \<and> doc_schemas d' \<subseteq> doc_schemas d \<and>
    doc_component d' = (doc_component d)(t := (doc_component d t)(e := None))"
proof -
  have h: "document_holds d (doc_entities d) (doc_columns d)" and a: "td_arena d \<noteq> None" using assms by (simp_all add: document_ok_def)
  from remove_component_holds [OF h a, of t e] obtain d' cols' where
    r: "remove_typed_component t e d = Ok (component_in (doc_columns d) t e \<noteq> None, d')" "document_holds d' (doc_entities d) cols'"
      "td_arena d' \<noteq> None" "component_in cols' = (component_in (doc_columns d))(t := (component_in (doc_columns d) t)(e := None))"
      "fst ` set cols' \<subseteq> fst ` set (doc_columns d)" by blast
  from document_holds_view [OF r(2)] document_okI [OF r(2,3)] r(1,4,5) show ?thesis
    by (intro exI [of _ d']) (simp add: doc_component_def doc_schemas_def)
qed

text \<open>What \<^verbatim>\<open>set_component\<close> asks of a schema: it can relocate, is aligned and names one C++ type.\<close>

definition schema_fits :: "component_schema \<Rightarrow> 'c document \<Rightarrow> bool" where
  "schema_fits s d \<longleftrightarrow> cs_relocate_range s \<noteq> 0 \<and> cs_component_align s > 0 \<and>
     (\<forall>s' \<in> doc_schemas d. cs_type s' = cs_type s \<longrightarrow> cs_type_key s' = cs_type_key s)"

lemma set_typed_component_ok:
  assumes "document_ok d" "e \<in> set (doc_entities d)" "schema_fits schema d" "construct s = Ok (built, s')"
  shows "\<exists>d'. set_typed_component sys schema e construct (d, s) =
      Ok (if built = None then CK_removed else if doc_component d (cs_type schema) e = None then CK_added else CK_modified, d', s') \<and>
    document_ok d' \<and> doc_entities d' = doc_entities d \<and> doc_schemas d' \<subseteq> insert schema (doc_schemas d) \<and>
    doc_component d' = (doc_component d)(cs_type schema := (doc_component d (cs_type schema))(e := built))"
proof -
  have h: "document_holds d (doc_entities d) (doc_columns d)" and a: "td_arena d \<noteq> None" using assms(1) by (simp_all add: document_ok_def)
  have sf: "cs_relocate_range schema \<noteq> 0" "cs_component_align schema > 0"
    "\<forall>s \<in> fst ` set (doc_columns d). cs_type s = cs_type schema \<longrightarrow> cs_type_key s = cs_type_key schema"
    using assms(3) by (simp_all add: schema_fits_def doc_schemas_def)
  from set_typed_component_spec [OF h a assms(2) sf, of construct s, OF assms(4), of sys] obtain d' cols' where
    r: "set_typed_component sys schema e construct (d, s) =
      Ok (if built = None then CK_removed else if component_in (doc_columns d) (cs_type schema) e = None then CK_added else CK_modified, d', s')"
      "document_holds d' (doc_entities d) cols'" "td_arena d' \<noteq> None"
      "component_in cols' = (component_in (doc_columns d))(cs_type schema := (component_in (doc_columns d) (cs_type schema))(e := built))"
      "fst ` set cols' \<subseteq> insert schema (fst ` set (doc_columns d))" by blast
  from document_holds_view [OF r(2)] document_okI [OF r(2,3)] r(1,4,5) show ?thesis
    by (intro exI [of _ d']) (simp add: doc_component_def doc_schemas_def)
qed

lemma compact_ok:
  assumes "document_ok d"
  shows "\<exists>d'. compact sys d = Ok d' \<and> document_ok d' \<and> doc_entities d' = doc_entities d \<and> doc_component d' = doc_component d \<and>
    doc_schemas d' = doc_schemas d"
proof -
  have h: "document_holds d (doc_entities d) (doc_columns d)" using assms by (simp add: document_ok_def)
  from compact_spec [OF h, of sys] obtain d' a where
    r: "compact sys d = Ok d'" "document_holds d' (doc_entities d) (doc_columns d)" "td_arena d' = Some a" by blast
  from document_holds_view [OF r(2)] document_okI [OF r(2)] r(1,3) show ?thesis
    by (intro exI [of _ d']) (simp add: doc_component_def doc_schemas_def)
qed

lemma document_queries_ok:
  assumes "document_ok d"
  shows "doc_contains d e = Ok (e \<in> set (doc_entities d))" "has_component d t e = Ok (doc_component d t e \<noteq> None)"
    "\<forall>s \<in> doc_schemas d. cs_type s = t \<longrightarrow> cs_type_key s = key \<Longrightarrow> doc_get d t key e = Ok (doc_component d t e)"
    "destroy_components d = Ok (d\<lparr>td_columns := [], td_entities := [], td_entity_count := 0, td_entity_capacity := 0\<rparr>, map released (td_columns d))"
    "(\<exists>c \<in> set (td_columns d). column_type c = t \<and> Some v \<in> set (cc_components c)) \<longleftrightarrow> (\<exists>e. doc_component d t e = Some v)"
proof -
  have h: "document_holds d (doc_entities d) (doc_columns d)" using assms by (simp add: document_ok_def)
  have ent: "entities_hold d (doc_entities d)" and ch: "columns_hold (td_columns d) (doc_columns d)"
    using h by (simp_all add: document_holds_def)
  show "doc_contains d e = Ok (e \<in> set (doc_entities d))" by (rule doc_contains_eq [OF ent])
  show "has_component d t e = Ok (doc_component d t e \<noteq> None)" unfolding doc_component_def by (rule has_component_eq [OF ch])
  show "doc_get d t key e = Ok (doc_component d t e)" if "\<forall>s \<in> doc_schemas d. cs_type s = t \<longrightarrow> cs_type_key s = key"
    unfolding doc_component_def using that by (intro doc_get_eq [OF ch]) (auto simp: doc_schemas_def)
  show "destroy_components d = Ok (d\<lparr>td_columns := [], td_entities := [], td_entity_count := 0, td_entity_capacity := 0\<rparr>, map released (td_columns d))"
    by (rule destroy_components_eq [OF ch])
  show "(\<exists>c \<in> set (td_columns d). column_type c = t \<and> Some v \<in> set (cc_components c)) \<longleftrightarrow> (\<exists>e. doc_component d t e = Some v)"
    unfolding doc_component_def by (rule live_slots [OF ch])
qed

subsection \<open>Builder sessions\<close>

text \<open>
  Any sequence of calls on a builder against the table it is meant to be: a set of entities and, for each component type,
  a map from entities to components.  A call the table refuses is one the code asserts against.
\<close>

datatype 'c builder_call =
  BC_insert entity_id | BC_remove entity_id | BC_set component_schema entity_id "'c option" |
  BC_unset component_type_id entity_id | BC_compact

datatype builder_reply = BR_bool bool | BR_change change_kind | BR_none

type_synonym 'c table = "entity_id set \<times> (component_type_id \<Rightarrow> entity_id \<Rightarrow> 'c option)"

fun builder_step :: "system \<Rightarrow> 'c builder_call \<Rightarrow> 'c document \<Rightarrow> (builder_reply \<times> 'c document) checked" where
  "builder_step sys (BC_insert e) d = rbind (insert_entity sys e d) (\<lambda>(b, d). Ok (BR_bool b, d))"
| "builder_step sys (BC_remove e) d = rbind (remove_typed_entity e d) (\<lambda>(b, d). Ok (BR_bool b, d))"
| "builder_step sys (BC_set s e v) d =
     rbind (set_typed_component sys s e (\<lambda>_. Ok (v, ())) (d, ())) (\<lambda>(k, d, _). Ok (BR_change k, d))"
| "builder_step sys (BC_unset t e) d = rbind (remove_typed_component t e d) (\<lambda>(b, d). Ok (BR_bool b, d))"
| "builder_step sys BC_compact d = rbind (compact sys d) (\<lambda>d. Ok (BR_none, d))"

fun table_step :: "'c builder_call \<Rightarrow> 'c table \<Rightarrow> (builder_reply \<times> 'c table) checked" where
  "table_step (BC_insert e) (E, M) = Ok (BR_bool (e \<notin> E), (insert e E, M))"
| "table_step (BC_remove e) (E, M) = Ok (BR_bool (e \<in> E), (E - {e}, \<lambda>t x. if x = e then None else M t x))"
| "table_step (BC_set s e v) (E, M) =
     (if e \<in> E
      then Ok (BR_change (if v = None then CK_removed else if M (cs_type s) e = None then CK_added else CK_modified),
               (E, M(cs_type s := (M (cs_type s))(e := v))))
      else Fault)"
| "table_step (BC_unset t e) (E, M) = Ok (BR_bool (M t e \<noteq> None), (E, M(t := (M t)(e := None))))"
| "table_step BC_compact (E, M) = Ok (BR_none, (E, M))"

fun session :: "('call \<Rightarrow> 'st \<Rightarrow> (builder_reply \<times> 'st) checked) \<Rightarrow> 'call list \<Rightarrow> 'st \<Rightarrow> (builder_reply list \<times> 'st) checked" where
  "session step [] st = Ok ([], st)"
| "session step (c # cs) st =
     rbind (step c st) (\<lambda>(r, st). rbind (session step cs st) (\<lambda>(rs, st). Ok (r # rs, st)))"

definition doc_table :: "'c document \<Rightarrow> 'c table" where
  "doc_table d = (set (doc_entities d), doc_component d)"

text \<open>The schemas a session may use: movable, aligned, and one C++ type per component type.\<close>

definition schemas_agree :: "component_schema set \<Rightarrow> bool" where
  "schemas_agree S \<longleftrightarrow> (\<forall>s \<in> S. cs_relocate_range s \<noteq> 0 \<and> cs_component_align s > 0 \<and>
     (\<forall>s' \<in> S. cs_type s' = cs_type s \<longrightarrow> cs_type_key s' = cs_type_key s))"

definition call_uses :: "component_schema set \<Rightarrow> 'c builder_call \<Rightarrow> bool" where
  "call_uses S c = (case c of BC_set s e v \<Rightarrow> s \<in> S | _ \<Rightarrow> True)"

lemma table_step_fault_or_ok: "table_step c T = Fault \<or> (\<exists>r T'. table_step c T = Ok (r, T'))"
  by (cases T; cases c) auto

lemma set_typed_component_missing:
  assumes "document_ok d" "e \<notin> set (doc_entities d)"
  shows "set_typed_component sys s e construct (d, st) = Fault"
  using document_queries_ok(1) [OF assms(1), of e] assms(2) by (simp add: set_typed_component_def check_def)

lemma builder_step_refines:
  assumes ok: "document_ok d" and S: "schemas_agree S" "doc_schemas d \<subseteq> S" "call_uses S c"
  shows "case table_step c (doc_table d) of
      Ok (r, T) \<Rightarrow> \<exists>d'. builder_step sys c d = Ok (r, d') \<and> document_ok d' \<and> doc_schemas d' \<subseteq> S \<and> doc_table d' = T
    | _ \<Rightarrow> builder_step sys c d = Fault"
proof (cases c)
  case (BC_insert e)
  with insert_entity_ok [OF ok, of sys e] S(2) show ?thesis by (auto simp: doc_table_def)
next
  case (BC_remove e)
  with remove_typed_entity_ok [OF ok, of e] S(2) show ?thesis by (auto simp: doc_table_def fun_eq_iff)
next
  case (BC_unset t e)
  with remove_typed_component_ok [OF ok, of t e] S(2) show ?thesis by (auto simp: doc_table_def)
next
  case BC_compact
  with compact_ok [OF ok, of sys] S(2) show ?thesis by (auto simp: doc_table_def)
next
  case (BC_set s e v)
  show ?thesis
  proof (cases "e \<in> set (doc_entities d)")
    case False
    with BC_set show ?thesis by (simp add: doc_table_def set_typed_component_missing [OF ok False])
  next
    case True
    have s: "s \<in> S" using S(3) BC_set by (simp add: call_uses_def)
    have "schema_fits s d" using S(1,2) s unfolding schemas_agree_def schema_fits_def by blast
    from set_typed_component_ok [OF ok True this, of "\<lambda>_. Ok (v, ())" "()" v "()" sys] obtain d' where
      d': "set_typed_component sys s e (\<lambda>_. Ok (v, ())) (d, ()) =
          Ok (if v = None then CK_removed else if doc_component d (cs_type s) e = None then CK_added else CK_modified, d', ())"
        "document_ok d'" "doc_entities d' = doc_entities d" "doc_schemas d' \<subseteq> insert s (doc_schemas d)"
        "doc_component d' = (doc_component d)(cs_type s := (doc_component d (cs_type s))(e := v))" by blast
    from d'(4) S(2) s have "doc_schemas d' \<subseteq> S" by blast
    with BC_set True d'(1-3,5) show ?thesis by (simp add: doc_table_def)
  qed
qed

lemma session_refines:
  assumes "document_ok d" "schemas_agree S" "doc_schemas d \<subseteq> S" "list_all (call_uses S) cs"
  shows "case session table_step cs (doc_table d) of
      Ok (rs, T) \<Rightarrow> \<exists>d'. session (builder_step sys) cs d = Ok (rs, d') \<and> document_ok d' \<and> doc_schemas d' \<subseteq> S \<and> doc_table d' = T
    | _ \<Rightarrow> session (builder_step sys) cs d = Fault"
  using assms
proof (induction cs arbitrary: d)
  case (Cons c cs)
  from Cons.prems(4) have c: "call_uses S c" "list_all (call_uses S) cs" by simp_all
  note step = builder_step_refines [OF Cons.prems(1-3) c(1), of sys]
  show ?case
  proof (cases "table_step c (doc_table d)")
    case (Ok p)
    obtain r T where p: "p = (r, T)" by (cases p)
    from step Ok p obtain d' where d': "builder_step sys c d = Ok (r, d')" "document_ok d'" "doc_schemas d' \<subseteq> S" "doc_table d' = T"
      by auto
    from Cons.IH [OF d'(2) Cons.prems(2) d'(3) c(2)] d' Ok p show ?thesis
      by (cases "session table_step cs T") auto
  qed (use step table_step_fault_or_ok [of c "doc_table d"] in auto)
qed simp

lemma session_table_fault_or_ok: "session table_step cs T = Fault \<or> (\<exists>rs T'. session table_step cs T = Ok (rs, T'))"
proof (induction cs arbitrary: T)
  case (Cons c cs)
  from table_step_fault_or_ok [of c T] show ?case
  proof
    assume "\<exists>r T'. table_step c T = Ok (r, T')"
    then obtain r T' where r: "table_step c T = Ok (r, T')" by blast
    from Cons.IH [of T'] show ?case by (auto simp: r)
  qed simp
qed simp

lemma session_document_ok:
  assumes "document_ok d" "schemas_agree S" "doc_schemas d \<subseteq> S" "list_all (call_uses S) cs"
    and "session (builder_step sys) cs d = Ok (rs, d')"
  shows "document_ok d' \<and> doc_schemas d' \<subseteq> S"
  using session_refines [OF assms(1-4), of sys] assms(5) session_table_fault_or_ok [of cs "doc_table d"] by auto

lemma empty_builder_view [simp]:
  "doc_table (new_document_builder empty_document) = ({}, \<lambda>_ _. None)" "doc_schemas (new_document_builder empty_document) = {}"
  by (simp_all add: doc_table_def doc_entities_def doc_schemas_def doc_component_def doc_columns_def component_in_def fun_eq_iff
      new_document_builder_def empty_document_def)

text \<open>
  C17. A builder is a table: any sequence of inserts, removals, component edits and compactions on a fresh builder faults exactly
  where the table refuses a call, replies what the table replies, and leaves the document showing the table.
\<close>

theorem builder_session_refines:
  assumes "schemas_agree S" "list_all (call_uses S) cs"
  shows "rbind (session (builder_step sys) cs (new_document_builder empty_document)) (\<lambda>(rs, d). Ok (rs, doc_table d)) =
    session table_step cs ({}, \<lambda>_ _. None)"
proof -
  from session_table_fault_or_ok [of cs "({}, \<lambda>_ _. None)"] session_refines [OF document_ok_empty assms(1) _ assms(2), of sys]
  show ?thesis by (auto simp: empty_builder_view)
qed

definition sample_schema :: component_schema where
  "sample_schema = \<lparr>cs_type = [1], cs_current_version = 1, cs_type_key = 9, cs_component_size = 4, cs_component_align = 4,
     cs_parse_into = 1, cs_destroy_range = 1, cs_relocate_range = 1, cs_write = 0\<rparr>"

definition sample_calls :: "nat builder_call list" where
  "sample_calls = [BC_insert [3], BC_insert [2], BC_set sample_schema [3] (Some 7), BC_set sample_schema [2] (Some 8),
     BC_set sample_schema [3] None, BC_compact, BC_unset [1] [3], BC_remove [3]]"

lemma builder_session_refines_witness:
  "session table_step sample_calls ({}, \<lambda>_ _. None) =
     rbind (session (builder_step (\<lambda>_ _. (0, 0))) sample_calls (new_document_builder empty_document)) (\<lambda>(rs, d). Ok (rs, doc_table d)) \<and>
   rbind (session table_step sample_calls ({}, \<lambda>_ _. None)) (\<lambda>(rs, _). Ok rs) =
     (Ok [BR_bool True, BR_bool True, BR_change CK_added, BR_change CK_added, BR_change CK_removed, BR_none, BR_bool False,
       BR_bool True] :: builder_reply list checked)"
  using builder_session_refines [of "{sample_schema}" sample_calls "\<lambda>_ _. (0, 0)"]
  by (simp add: sample_calls_def sample_schema_def schemas_agree_def call_uses_def)

text \<open>
  C38. Whatever a session left is a document in order.  It answers every query from the table it shows; what is constructed in
  the slots of its columns is exactly the components of the table; and destroying what it was frozen into leaves an empty
  document and the same columns with every one of their slots dead, so that each component was destroyed, and only once, since
  destroying a slot that is not live faults.
\<close>

theorem built_document_serves:
  assumes "schemas_agree S" "list_all (call_uses S) cs" "s \<in> S"
    and "session (builder_step sys) cs (new_document_builder empty_document) = Ok (rs, d)" "(E, M) = doc_table d"
  shows "doc_contains (fst (freeze d)) e = Ok (e \<in> E) \<and> has_component (fst (freeze d)) (cs_type s) e = Ok (M (cs_type s) e \<noteq> None) \<and>
    doc_get (fst (freeze d)) (cs_type s) (cs_type_key s) e = Ok (M (cs_type s) e) \<and>
    ((\<exists>c \<in> set (td_columns (fst (freeze d))). cs_type (cc_schema c) = cs_type s \<and> Some v \<in> set (cc_components c)) \<longleftrightarrow>
       (\<exists>e. M (cs_type s) e = Some v)) \<and>
    (\<exists>d' left. destroy_components (fst (freeze d)) = Ok (d', left) \<and> td_columns d' = [] \<and> td_entity_count d' = 0 \<and>
       map cc_schema left = map cc_schema (td_columns (fst (freeze d))) \<and>
       map cc_components left = map (\<lambda>c. replicate (length (cc_components c)) None) (td_columns (fst (freeze d))))"
proof -
  have "document_ok d \<and> doc_schemas d \<subseteq> S" using session_document_ok [OF document_ok_empty assms(1) _ assms(2,4)] by simp
  then have ok: "document_ok d" and sub: "doc_schemas d \<subseteq> S" by blast+
  from sub assms(1,3) have "\<forall>s' \<in> doc_schemas d. cs_type s' = cs_type s \<longrightarrow> cs_type_key s' = cs_type_key s"
    unfolding schemas_agree_def by blast
  from document_queries_ok(1,2,4,5) [OF ok] document_queries_ok(3) [OF ok this, of e] assms(5) show ?thesis
    by (simp add: freeze_def move_document_def doc_table_def comp_def)
qed

lemma sample_calls_run:
  "schemas_agree {sample_schema}" "list_all (call_uses {sample_schema}) sample_calls"
  "rbind (session table_step sample_calls ({}, \<lambda>_ _. None)) (\<lambda>(_, T). Ok T) =
     (Ok ({[2]}, (\<lambda>_ _. None)([1] := [[2] \<mapsto> 8])) :: nat table checked)"
  by (auto simp: sample_calls_def sample_schema_def schemas_agree_def call_uses_def fun_eq_iff)

lemma built_document_serves_witness:
  "\<exists>rs d. session (builder_step (\<lambda>_ _. (0, 0))) sample_calls (new_document_builder empty_document) = Ok (rs, d) \<and>
     doc_contains (fst (freeze d)) [2] = Ok True \<and> doc_get (fst (freeze d)) [1] 9 [2] = Ok (Some 8) \<and>
     (\<exists>c \<in> set (td_columns (fst (freeze d))). Some 8 \<in> set (cc_components c)) \<and>
     (\<exists>d' left. destroy_components (fst (freeze d)) = Ok (d', left) \<and> (\<forall>c \<in> set left. Some 8 \<notin> set (cc_components c)))"
proof -
  let ?run = "session (builder_step (\<lambda>_ _. (0, 0))) sample_calls (new_document_builder empty_document)"
  from sample_calls_run(3) obtain rs where t: "session table_step sample_calls ({}, \<lambda>_ _. None) =
      Ok (rs, ({[2]}, (\<lambda>_ _. None)([1] := [[2] \<mapsto> 8])) :: nat table)"
    by (cases "session table_step sample_calls ({}, \<lambda>_ _. None) :: (builder_reply list \<times> nat table) checked") auto
  with session_refines [OF document_ok_empty sample_calls_run(1) _ sample_calls_run(2), of "\<lambda>_ _. (0, 0)"]
  obtain d where d: "?run = Ok (rs, d)" "doc_table d = ({[2]}, (\<lambda>_ _. None)([1] := [[2] \<mapsto> 8]))" by auto
  let ?D = "fst (freeze d)"
  from built_document_serves [OF sample_calls_run(1,2) _ d(1) d(2) [symmetric], of sample_schema "[2]" 8]
  obtain d' left where s: "doc_contains ?D [2] = Ok True" "doc_get ?D [1] 9 [2] = Ok (Some 8)"
    "\<exists>c \<in> set (td_columns ?D). Some 8 \<in> set (cc_components c)"
    "destroy_components ?D = Ok (d', left)" "map cc_components left = map (\<lambda>c. replicate (length (cc_components c)) None) (td_columns ?D)"
    by (auto simp: sample_schema_def)
  have "Some 8 \<notin> set (cc_components c)" if "c \<in> set left" for c
  proof -
    have "cc_components c \<in> set (map cc_components left)" using that by simp
    then have "cc_components c \<in> set (map (\<lambda>c. replicate (length (cc_components c)) None) (td_columns ?D))" unfolding s(5) .
    then obtain n where "cc_components c = replicate n None" by (simp only: set_map) (elim imageE, rule that)
    then show ?thesis by simp
  qed
  with s(1-4) d(1) show ?thesis
    by (intro exI [of _ rs] exI [of _ d] conjI exI [of _ d'] exI [of _ left] ballI) simp_all
qed

end
