(* ===== verification/Parse_Correct.thy ===== *)
theory Parse_Correct
  imports Parse_Columns Builder_Table
begin

text \<open>
  A whole parse under any lawful policy: the typed document it builds, entity by entity and type by type, and what it reports.
\<close>


subsection \<open>What is picked, by entity and type\<close>

lemma verdict_of_Some:
  "fst (verdict_of known e (t, raw)) = Some sc \<Longrightarrow>
    sc_type sc = t \<and> sc_raw sc = raw \<and> known t = Some (sc_schema sc) \<and> sc_version sc = rv_version (version_of raw)"
  by (auto simp: verdict_of_def Let_def split: if_splits option.splits)

lemma selected_of_types:
  assumes "distinct (map fst (re_components raw))"
  shows "distinct (map sc_type (selected_of known e raw))"
    and "find (\<lambda>sc. sc_type sc = t) (selected_of known e raw) =
      (case map_of (re_components raw) t of None \<Rightarrow> None | Some c \<Rightarrow> fst (verdict_of known e (t, c)))"
proof -
  let ?sel = "\<lambda>cs. List.map_filter (\<lambda>c. fst (verdict_of known e c)) cs"
  have types: "sc_type ` set (?sel cs) \<subseteq> fst ` set cs" for cs
    by (induction cs) (auto simp: List.map_filter_simps split: option.splits dest!: verdict_of_Some)
  have missing: "find (\<lambda>sc. sc_type sc = t) (?sel cs) = None" if "t \<notin> fst ` set cs" for cs t
    using types [of cs] that by (auto simp: find_None_iff)
  have "distinct (map sc_type (?sel cs)) \<and> find (\<lambda>sc. sc_type sc = t) (?sel cs) =
      (case map_of cs t of None \<Rightarrow> None | Some c \<Rightarrow> fst (verdict_of known e (t, c)))" if "distinct (map fst cs)" for cs
    using that
  proof (induction cs)
    case (Cons c cs)
    obtain u raw' where c: "c = (u, raw')" by (cases c)
    have u: "u \<notin> fst ` set cs" using Cons.prems c by simp
    show ?case
    proof (cases "fst (verdict_of known e c)")
      case None
      have "map_of cs u = None" using u by (simp add: map_of_eq_None_iff)
      with Cons None c missing [OF u] show ?thesis by (cases "t = u") (simp_all add: List.map_filter_simps)
    next
      case (Some sc)
      with verdict_of_Some [of known e u raw' sc] c have "sc_type sc = u" by simp
      with Cons c u Some types [of cs] show ?thesis by (auto simp: List.map_filter_simps)
    qed
  qed (simp add: List.map_filter_simps)
  with assms show "distinct (map sc_type (selected_of known e raw))"
    "find (\<lambda>sc. sc_type sc = t) (selected_of known e raw) =
      (case map_of (re_components raw) t of None \<Rightarrow> None | Some c \<Rightarrow> fst (verdict_of known e (t, c)))"
    by (simp_all add: selected_of_def)
qed

lemma of_type_append: "of_type t (xs @ ys) = of_type t xs @ of_type t ys"
  by (simp add: of_type_def)

lemma of_type_Pair: "of_type t (map (Pair e) scs) = map (Pair e) (filter (\<lambda>sc. sc_type sc = t) scs)"
  by (simp add: of_type_def filter_map comp_def)

lemma picked_Cons: "picked known present lookup (e # es) = map (Pair e) (picked_at known present lookup e) @ picked known present lookup es"
  by (simp add: picked_def)

lemma picked_Nil: "picked known present lookup [] = []"
  by (simp add: picked_def)

lemma picked_entities: "fst ` set (picked known present lookup es) \<subseteq> set (filter (survives lookup present) es)"
proof
  fix x assume "x \<in> fst ` set (picked known present lookup es)"
  then have x: "x \<in> set es" "picked_at known present lookup x \<noteq> []" by (auto simp: picked_def)
  then have "survives lookup present x" by (simp add: picked_at_def survives_def split: option.splits if_splits)
  with x show "x \<in> set (filter (survives lookup present) es)" by simp
qed

lemma map_of_same_key: "map_of (map (\<lambda>sc. (e, f sc)) scs) x = (if x = e \<and> scs \<noteq> [] then Some (f (hd scs)) else None)"
  by (cases scs) (auto simp: map_of_eq_None_iff)

lemma hd_filter_find: "find P xs = (if filter P xs = [] then None else Some (hd (filter P xs)))"
  by (induction xs) auto

lemma of_type_lookup:
  "map_of (map (\<lambda>c. (ca_entity c, c)) (map candidate_of (of_type t (picked known present lookup es)))) e =
    (if e \<in> set es then map_option (\<lambda>sc. candidate_of (e, sc)) (find (\<lambda>sc. sc_type sc = t) (picked_at known present lookup e)) else None)"
proof (induction es)
  case (Cons x es)
  have "map (\<lambda>c. (ca_entity c, c)) (map candidate_of (of_type t (map (Pair x) scs))) =
      map (\<lambda>sc. (x, candidate_of (x, sc))) (filter (\<lambda>sc. sc_type sc = t) scs)" for scs
    by (simp add: of_type_Pair comp_def) (simp add: candidate_of_def)
  with Cons show ?case
    by (auto simp: picked_Cons of_type_append map_add_def map_of_same_key hd_filter_find split: option.splits)
qed (simp add: picked_Nil of_type_def)

lemma of_type_sorted:
  assumes "sorted_wrt (<) es" "\<And>e. e \<in> set es \<Longrightarrow> distinct (map sc_type (picked_at known present lookup e))"
  shows "sorted_wrt (<) (map fst (of_type t (picked known present lookup es)))"
  using assms
proof (induction es)
  case (Cons e es)
  have IH: "sorted_wrt (<) (map fst (of_type t (picked known present lookup es)))" using Cons by simp
  have "length (filter (\<lambda>sc. sc_type sc = t) scs) \<le> 1" if "distinct (map sc_type scs)" for scs
    using that by (induction scs) (auto simp: filter_empty_conv, metis image_eqI)
  then have one: "length (filter (\<lambda>sc. sc_type sc = t) (picked_at known present lookup e)) \<le> 1"
    using Cons.prems(2) [of e] by simp
  then have "sorted_wrt (<) (map fst (of_type t (map (Pair e) (picked_at known present lookup e))))"
    unfolding of_type_Pair
    by (cases "filter (\<lambda>sc. sc_type sc = t) (picked_at known present lookup e)") (auto simp: le_Suc_eq)
  moreover have "\<forall>x \<in> fst ` set (of_type t (picked known present lookup es)). e < x"
    using picked_entities [of known present lookup es] Cons.prems(1) by (fastforce simp: of_type_def)
  ultimately show ?case using IH by (auto simp: picked_Cons of_type_append sorted_wrt_append of_type_Pair)
qed (simp add: picked_Nil of_type_def)

subsection \<open>The columns of a parse, as a table\<close>

lemma component_in_Cons: "component_in ((s, xs) # cols) t e = (if cs_type s = t then map_of xs e else component_in cols t e)"
  by (simp add: component_in_def)

lemma column_entry_in:
  "\<lbrakk>cs_type (pc_schema col) = pc_type col; pc_type col = t \<Longrightarrow> component_in cols t e = None\<rbrakk> \<Longrightarrow>
   component_in (column_entry pick app col @ cols) t e =
   (if pc_type col = t then map_of (kept_of (build_of pick app (pc_type col) (pc_schema col)) ca_entity (pc_candidates col)) e
    else component_in cols t e)"
  by (auto simp: column_entry_def Let_def component_in_Cons)

lemma component_in_entries:
  assumes "distinct (map pc_type cols)" "\<forall>col \<in> set cols. cs_type (pc_schema col) = pc_type col"
  shows "component_in (concat (map (column_entry pick app) cols)) t e =
    (case find (\<lambda>col. pc_type col = t) cols of None \<Rightarrow> None
     | Some col \<Rightarrow> map_of (kept_of (build_of pick app t (pc_schema col)) ca_entity (pc_candidates col)) e)"
  using assms
proof (induction cols)
  case (Cons col cols)
  have "component_in (concat (map (column_entry pick app) cols)) t e = None" if "pc_type col = t"
  proof -
    have "find (\<lambda>col. pc_type col = t) cols = None" using Cons.prems(1) that by (auto simp: find_None_iff) (metis image_eqI)
    with Cons show ?thesis by simp
  qed
  with Cons show ?case by (auto simp: column_entry_in)
qed simp

text \<open>
  What a parse makes of an entity's component of a type: nothing unless the entity is present, has the component and
  selection picks it; otherwise what the application's code returns on what the properties read as.
\<close>

definition interpret_component ::
  "(component_type_id \<Rightarrow> component_schema option) \<Rightarrow> (entity_id \<Rightarrow> raw_entity \<Rightarrow> bool \<times> parse_report) \<Rightarrow>
   (property_path \<Rightarrow> property_value list \<Rightarrow> value_view option \<times> parse_report) \<Rightarrow> 'c application \<Rightarrow>
   (entity_id \<Rightarrow> raw_entity option) \<Rightarrow> component_type_id \<Rightarrow> entity_id \<Rightarrow> 'c option" where
  "interpret_component known present pick app lookup t e =
     (case lookup e of
        None \<Rightarrow> None
      | Some raw \<Rightarrow>
          if \<not> fst (present e raw) then None
          else case map_of (re_components raw) t of
              None \<Rightarrow> None
            | Some c \<Rightarrow>
                (case fst (verdict_of known e (t, c)) of
                   None \<Rightarrow> None
                 | Some sc \<Rightarrow> fst (build_of pick app t (sc_schema sc) (candidate_of (e, sc)))))"

definition unsupported_report :: "component_type_id list \<Rightarrow> parse_report" where
  "unsupported_report ts = \<lparr>pr_diagnostics = map unsupported_diagnostic ts, pr_agreed = []\<rparr>"

lemma push_unsupported: "foldl (\<lambda>r t. push_diagnostic (unsupported_diagnostic t) r) r ts = report_add r (unsupported_report ts)"
proof (induction ts arbitrary: r)
  case (Cons t ts)
  then show ?case by (simp add: unsupported_report_def report_add_def push_diagnostic_def)
qed (simp add: unsupported_report_def report_add_def)

text \<open>What a parse adds to the report: selection entity by entity, the unknown types, the reads column by column.\<close>

definition column_findings ::
  "(property_path \<Rightarrow> property_value list \<Rightarrow> value_view option \<times> parse_report) \<Rightarrow> 'c application \<Rightarrow>
   (entity_id \<times> selected_component) list \<Rightarrow> component_type_id \<Rightarrow> parse_report" where
  "column_findings pick app ps t =
     reports (map (\<lambda>p. snd (build_of pick app t (sc_schema (snd p)) (candidate_of p))) (of_type t ps))"

definition parse_findings ::
  "(component_type_id \<Rightarrow> component_schema option) \<Rightarrow> (entity_id \<Rightarrow> raw_entity \<Rightarrow> bool \<times> parse_report) \<Rightarrow>
   (property_path \<Rightarrow> property_value list \<Rightarrow> value_view option \<times> parse_report) \<Rightarrow> 'c application \<Rightarrow>
   (entity_id \<Rightarrow> raw_entity option) \<Rightarrow> entity_id list \<Rightarrow> parse_report" where
  "parse_findings known present pick app lookup es =
     (let ps = picked known present lookup es in
      report_add (gather_report known present lookup es)
        (report_add (unsupported_report (sorted_list_of_set (set (unknown_in known present lookup es))))
          (reports (map (column_findings pick app ps) (sorted_list_of_set (set (map (\<lambda>p. sc_type (snd p)) ps)))))))"

lemma picked_at_verdict:
  assumes "sc \<in> set (picked_at known present lookup e)"
  shows "\<exists>raw. lookup e = Some raw \<and> known (sc_type sc) = Some (sc_schema sc) \<and> sc_raw sc \<in> snd ` set (re_components raw)"
proof -
  from assms obtain raw where raw: "lookup e = Some raw" "sc \<in> set (selected_of known e raw)"
    by (cases "lookup e") (auto simp: picked_at_def split: if_splits)
  then obtain c where "c \<in> set (re_components raw)" "fst (verdict_of known e c) = Some sc"
    by (auto simp: selected_of_def List.map_filter_def)
  then show ?thesis using verdict_of_Some [of known e "fst c" "snd c" sc] raw(1) by (intro exI [of _ raw]) auto
qed

context parse_rules
begin

lemma picked_ready:
  assumes "sorted_wrt (<) es" "readable_source lookup es"
    and col: "col \<in> set (file_picked (picked known present lookup es) [])"
  shows "column_ready col" "known (pc_type col) = Some (pc_schema col)"
    "pc_candidates col = map candidate_of (of_type (pc_type col) (picked known present lookup es))"
    "fst ` set (of_type (pc_type col) (picked known present lookup es)) \<subseteq> set (filter (survives lookup present) es)"
    "column_report pick app col = column_findings pick app (picked known present lookup es) (pc_type col)"
proof -
  let ?ps = "picked known present lookup es"
  have filed: "filed (file_picked ?ps []) ?ps" by (rule file_picked_filed)
  with col have c: "pc_candidates col = map candidate_of (of_type (pc_type col) ?ps)"
    "pc_schema col \<in> (\<lambda>p. sc_schema (snd p)) ` set (of_type (pc_type col) ?ps)" by (simp_all add: filed_def)
  have known: "known (sc_type (snd p)) = Some (sc_schema (snd p)) \<and> readable_component (sc_raw (snd p))" if "p \<in> set ?ps" for p
  proof -
    from that have p: "fst p \<in> set es" "snd p \<in> set (picked_at known present lookup (fst p))" by (auto simp: picked_def)
    from picked_at_verdict [OF p(2)] obtain raw where raw: "lookup (fst p) = Some raw"
      "known (sc_type (snd p)) = Some (sc_schema (snd p))" "sc_raw (snd p) \<in> snd ` set (re_components raw)" by blast
    with readable_sourceD [OF assms(2) p(1) raw(1)] show ?thesis unfolding readable_entity_def by blast
  qed
  have schema: "known (pc_type col) = Some (sc_schema (snd p))" if "p \<in> set (of_type (pc_type col) ?ps)" for p
    using known [of p] that by (auto simp: of_type_def)
  then show k: "known (pc_type col) = Some (pc_schema col)" using c(2) by auto
  show "pc_candidates col = map candidate_of (of_type (pc_type col) ?ps)" by (rule c(1))
  have "fst ` set (of_type (pc_type col) ?ps) \<subseteq> fst ` set ?ps" by (auto simp: of_type_def)
  also have "\<dots> \<subseteq> set (filter (survives lookup present) es)" by (rule picked_entities)
  finally show "fst ` set (of_type (pc_type col) ?ps) \<subseteq> set (filter (survives lookup present) es)" .
  have ent: "map ca_entity (map candidate_of ps) = map fst ps" for ps by (simp add: candidate_of_def)
  have "distinct (map sc_type (picked_at known present lookup e))" if "e \<in> set es" for e
  proof (cases "lookup e")
    case (Some raw)
    with readable_sourceD [OF assms(2) that] have "distinct (map fst (re_components raw))" by (simp add: readable_entity_def strict_sorted_iff)
    with Some show ?thesis by (simp add: picked_at_def selected_of_types(1))
  qed (simp add: picked_at_def)
  from of_type_sorted [OF assms(1), of known present lookup, OF this] have "sorted_wrt (<) (map fst (of_type (pc_type col) ?ps))" .
  moreover have "of_type (pc_type col) ?ps \<noteq> []" using c(2) by auto
  moreover have "readable_component (ca_raw x)" if "x \<in> set (pc_candidates col)" for x
    using that known by (auto simp: c(1) candidate_of_def of_type_def)
  ultimately show "column_ready col"
    using known_schema [OF k] by (simp add: column_ready_def c(1) ent del: map_map)
  have "sc_schema (snd p) = pc_schema col" if "p \<in> set (of_type (pc_type col) ?ps)" for p using schema [OF that] k by simp
  then show "column_report pick app col = column_findings pick app ?ps (pc_type col)"
    by (simp add: column_report_def column_findings_def c(1) comp_def cong: map_cong)
qed

lemma parse_from_eq:
  fixes app :: "'c application"
  assumes es: "sorted_wrt (<) es" and read: "readable_source lookup es"
  shows "\<exists>doc. parse_from sys app es lookup policy r = Ok (doc, report_add r (parse_findings known present pick app lookup es)) \<and>
    document_ok doc \<and> doc_entities doc = filter (survives lookup present) es \<and> doc_schemas doc \<subseteq> {s. \<exists>t. known t = Some s} \<and>
    (\<forall>t e. doc_component doc t e = (if e \<in> set es then interpret_component known present pick app lookup t e else None))"
proof -
  define ps where "ps = picked known present lookup es"
  define S where "S = cc_sort (\<lambda>a b. pc_type a < pc_type b) (file_picked ps [])"
  define surv where "surv = filter (survives lookup present) es"
  have filed: "filed (file_picked ps []) ps" by (rule file_picked_filed)
  have S: "sorted_wrt (<) (map pc_type S)" "set S = set (file_picked ps [])"
    unfolding S_def using filed by (simp_all add: cc_sort_strict_sorted filed_def)
  note ready = picked_ready [OF es read, folded ps_def, folded S(2) surv_def]
  have types: "map pc_type S = sorted_list_of_set (set (map (\<lambda>p. sc_type (snd p)) ps))"
    using S filed by (intro sorted_wrt_less_unique) (simp_all add: filed_def)
  have gather: "rfold (gather_entity lookup policy) es ([], [], [], r) =
      Ok (surv, file_picked ps [], add_new [] (unknown_in known present lookup es), report_add r (gather_report known present lookup es))"
    using gather_entities_eq [OF read, where s = "[]" and cols = "[]" and u = "[]" and r = r] by (simp add: surv_def ps_def)
  have unknown: "cc_sort (<) (add_new [] (unknown_in known present lookup es)) =
      sorted_list_of_set (set (unknown_in known present lookup es))"
    using add_new_spec [of "[]" "unknown_in known present lookup es"]
    by (simp add: cc_sort_eq_sort sorted_list_of_set_sort_remdups distinct_remdups_id)
      (metis sorted_list_of_set_sort_remdups distinct_remdups_id)
  have surv: "sorted_wrt (<) surv" using es by (simp add: surv_def sorted_wrt_filter)
  from parser_set_entities_spec [OF surv, of sys] obtain p :: "'c doc_parser" where
    p: "parser_set_entities sys surv new_parser = Ok p" "entities_hold (dp_doc p) surv" "td_columns (dp_doc p) = []"
      "dp_open_column p = None" "td_arena (dp_doc p) \<noteq> None" by blast
  let ?r1 = "report_add r (report_add (gather_report known present lookup es)
      (unsupported_report (sorted_list_of_set (set (unknown_in known present lookup es)))))"
  let ?cols = "concat (map (column_entry pick app) S)"
  have "columns_hold (td_columns (dp_doc p)) []" using p(3) by (simp add: columns_hold_def)
  from parse_columns_eq [OF p(4,5) this, of S sys app ?r1] ready(1) S(1) obtain p' where
    p': "rfold (parse_column sys app policy) S (p, ?r1) = Ok (p', report_add ?r1 (reports (map (column_report pick app) S)))"
      "dp_open_column p' = None" "columns_hold (td_columns (dp_doc p')) ?cols" "same_entities p' p" by auto
  let ?doc = "dp_doc p'"
  have "map (column_report pick app) S = map (column_findings pick app ps) (map pc_type S)"
    by (simp add: ready(5))
  then have "report_add ?r1 (reports (map (column_report pick app) S)) = report_add r (parse_findings known present pick app lookup es)"
    by (simp add: parse_findings_def ps_def [symmetric] types report_add_assoc Let_def)
  moreover have "parser_finish p' = Ok (?doc, p'\<lparr>dp_doc := empty_document\<lparr>td_arena := Some new_arena\<rparr>\<rparr>)"
    using p'(2) by (simp add: parser_finish_def)
  ultimately have run: "parse_from sys app es lookup policy r =
      Ok (?doc, report_add r (parse_findings known present pick app lookup es))"
    using p'(1) by (simp add: parse_from_def gather unknown push_unsupported report_add_assoc S_def [symmetric] p(1) Let_def)
  have kept: "xs \<noteq> [] \<and> fst ` set xs \<subseteq> set surv \<and> known (cs_type s) = Some s" if "(s, xs) \<in> set ?cols" for s xs
  proof -
    from that obtain col where col: "col \<in> set S" "(s, xs) \<in> set (column_entry pick app col)" by auto
    have xs: "xs = kept_of (build_of pick app (pc_type col) (pc_schema col)) ca_entity (pc_candidates col)" "xs \<noteq> []"
      "s = pc_schema col" using col(2) by (auto simp: column_entry_def Let_def split: if_splits)
    have "fst ` set xs \<subseteq> ca_entity ` set (pc_candidates col)" unfolding xs(1) by (rule kept_of_bounds(2))
    moreover note xs(2,3)
    moreover have "ca_entity ` set (pc_candidates col) = fst ` set (of_type (pc_type col) ps)"
      by (simp add: ready(3) [OF col(1)] image_image candidate_of_def)
    ultimately show ?thesis
      using ready(1,2,4) [OF col(1)] by (auto simp: column_ready_def)
  qed
  have ent: "entities_hold ?doc surv" using p(2) p'(4) by (simp add: entities_hold_def same_entities_def)
  have "document_holds ?doc surv ?cols" using ent p'(3) kept by (auto simp: document_holds_def)
  moreover have arena: "td_arena ?doc \<noteq> None" using p(5) p'(4) by (simp add: same_entities_def)
  ultimately have ok: "document_ok ?doc" "doc_entities ?doc = surv" "doc_columns ?doc = ?cols"
    using document_okI document_holds_view by blast+
  have "doc_schemas ?doc \<subseteq> {s. \<exists>t. known t = Some s}"
    unfolding doc_schemas_def ok(3) using kept by fastforce
  moreover have "doc_component ?doc t e = (if e \<in> set es then interpret_component known present pick app lookup t e else None)" for t e
  proof -
    have "distinct (map pc_type S)" using S(1) by (simp add: strict_sorted_iff)
    from component_in_entries [OF this, of pick app t e] ready(1) have comp:
      "doc_component ?doc t e = (case find (\<lambda>col. pc_type col = t) S of None \<Rightarrow> None
       | Some col \<Rightarrow> map_of (kept_of (build_of pick app t (pc_schema col)) ca_entity (pc_candidates col)) e)"
      by (simp add: doc_component_def ok(3) column_ready_def)
    have at: "find (\<lambda>sc. sc_type sc = t) (picked_at known present lookup e) = (case lookup e of None \<Rightarrow> None | Some raw \<Rightarrow>
        if fst (present e raw) then (case map_of (re_components raw) t of None \<Rightarrow> None | Some c \<Rightarrow> fst (verdict_of known e (t, c))) else None)"
      if "e \<in> set es"
      using readable_sourceD [OF read that] by (auto simp: picked_at_def selected_of_types(2) readable_entity_def strict_sorted_iff split: option.split)
    note look = of_type_lookup [of t known present lookup es e, folded ps_def]
    show ?thesis
    proof (cases "find (\<lambda>col. pc_type col = t) S")
      case None
      then have "t \<notin> pc_type ` set S" by (auto simp: find_None_iff)
      then have "of_type t ps = []" using filed S(2) by (force simp: filed_def of_type_def filter_empty_conv)
      with look have "e \<in> set es \<Longrightarrow> find (\<lambda>sc. sc_type sc = t) (picked_at known present lookup e) = None"
        by (auto split: if_splits)
      with at comp None show ?thesis
        by (auto simp: interpret_component_def split: option.splits if_splits)
    next
      case (Some col)
      then have col: "col \<in> set S" "pc_type col = t" by (auto simp: find_Some_iff)
      have "distinct (map ca_entity (pc_candidates col))" using ready(1) [OF col(1)] by (simp add: column_ready_def strict_sorted_iff)
      from map_of_kept_of [OF this, of "build_of pick app t (pc_schema col)" e] comp Some look ready(3) [OF col(1)] col(2)
      have comp': "doc_component ?doc t e = (if e \<in> set es then (case find (\<lambda>sc. sc_type sc = t) (picked_at known present lookup e) of
          None \<Rightarrow> None | Some sc \<Rightarrow> fst (build_of pick app t (pc_schema col) (candidate_of (e, sc)))) else None)"
        by (auto split: option.splits)
      have "sc_schema sc = pc_schema col" if "fst (verdict_of known e (t, c)) = Some sc" for c sc
        using verdict_of_Some [OF that] ready(2) [OF col(1)] col(2) by simp
      with comp' at show ?thesis
        by (auto simp: interpret_component_def split: option.splits if_splits)
    qed
  qed
  ultimately show ?thesis using run ok(1,2) by (intro exI [of _ ?doc]) (simp add: surv_def)
qed

end

end
