(* ===== verification/Default_Policy.thy ===== *)
theory Default_Policy
  imports Parse_Correct
begin

text \<open>
  The library's own policy (parse.hh, default_parse_policy) keeps the contract, so parsing with it is exactly interpretation.
\<close>


subsection \<open>The default policy\<close>

text \<open>A search over a sorted vector finds an element exactly when there is one; over an unsorted one, only what is there.\<close>

lemma slot_find_finds:
  assumes "hi \<le> length xs"
  shows "\<exists>r. slot_find (map Some xs) ord lo hi = (Ok r :: nat option checked) \<and> (\<forall>i. r = Some i \<longrightarrow> i < length xs \<and> ord (xs ! i) = 0) \<and>
    (sorted (map f xs) \<and> (\<forall>v. (ord v < (0 :: int) \<longleftrightarrow> f v < (k :: 'k::linorder)) \<and> (ord v = 0 \<longleftrightarrow> f v = k)) \<longrightarrow>
      (r = None \<longrightarrow> (\<forall>j. lo \<le> j \<longrightarrow> j < hi \<longrightarrow> f (xs ! j) \<noteq> k)))"
  using assms
proof (induction "hi - lo" arbitrary: lo hi rule: less_induct)
  case less
  define mid where "mid = lo + (hi - lo) div 2"
  show ?case
  proof (cases "lo < hi")
    case True
    then have mid: "lo \<le> mid" "mid < hi" "mid < length xs" using less.prems by (auto simp: mid_def)
    then have rd: "slot_read (map Some xs) mid = (Ok (xs ! mid) :: (unit, 'a) result)" by (simp add: slot_read_def)
    have eq: "slot_find (map Some xs) ord lo hi = (if ord (xs ! mid) = 0 then Ok (Some mid)
        else if ord (xs ! mid) < 0 then slot_find (map Some xs) ord (mid + 1) hi else slot_find (map Some xs) ord lo mid :: nat option checked)"
      using True rd by (subst slot_find.simps) (simp add: Let_def mid_def [symmetric])
    have mono: "f (xs ! a) \<le> f (xs ! b)" if "sorted (map f xs)" "a \<le> b" "b < length xs" for a b
      using sorted_nth_mono [OF that(1), of a b] that by simp
    consider "ord (xs ! mid) = 0" | "ord (xs ! mid) < 0" | "ord (xs ! mid) > 0" by linarith
    then show ?thesis
    proof cases
      case 1
      with eq mid(3) show ?thesis by auto
    next
      case 2
      have "hi - (mid + 1) < hi - lo" using mid by simp
      from less.hyps [OF this less.prems] obtain r where r: "slot_find (map Some xs) ord (mid + 1) hi = (Ok r :: nat option checked)"
        "\<forall>i. r = Some i \<longrightarrow> i < length xs \<and> ord (xs ! i) = 0"
        "sorted (map f xs) \<and> (\<forall>v. (ord v < 0 \<longleftrightarrow> f v < k) \<and> (ord v = 0 \<longleftrightarrow> f v = k)) \<longrightarrow>
          (r = None \<longrightarrow> (\<forall>j. mid + 1 \<le> j \<longrightarrow> j < hi \<longrightarrow> f (xs ! j) \<noteq> k))" by blast
      have "f (xs ! j) \<noteq> k" if "sorted (map f xs)" "\<forall>v. (ord v < 0 \<longleftrightarrow> f v < k) \<and> (ord v = 0 \<longleftrightarrow> f v = k)" "j \<le> mid" for j
        using mono [OF that(1,3) mid(3)] that(2) 2 by auto
      then have "\<forall>j. lo \<le> j \<longrightarrow> j < hi \<longrightarrow> f (xs ! j) \<noteq> k"
        if "sorted (map f xs) \<and> (\<forall>v. (ord v < 0 \<longleftrightarrow> f v < k) \<and> (ord v = 0 \<longleftrightarrow> f v = k))" "r = None"
        using r(3) that by (metis Suc_eq_plus1 not_less_eq_eq)
      with r(1,2) 2 eq show ?thesis by (intro exI [of _ r]) simp
    next
      case 3
      have "mid - lo < hi - lo" "mid \<le> length xs" using mid by simp_all
      from less.hyps [OF this] obtain r where r: "slot_find (map Some xs) ord lo mid = (Ok r :: nat option checked)"
        "\<forall>i. r = Some i \<longrightarrow> i < length xs \<and> ord (xs ! i) = 0"
        "sorted (map f xs) \<and> (\<forall>v. (ord v < 0 \<longleftrightarrow> f v < k) \<and> (ord v = 0 \<longleftrightarrow> f v = k)) \<longrightarrow>
          (r = None \<longrightarrow> (\<forall>j. lo \<le> j \<longrightarrow> j < mid \<longrightarrow> f (xs ! j) \<noteq> k))" by blast
      have "f (xs ! j) \<noteq> k" if "sorted (map f xs)" "\<forall>v. (ord v < 0 \<longleftrightarrow> f v < k) \<and> (ord v = 0 \<longleftrightarrow> f v = k)" "mid \<le> j" "j < hi" for j
      proof -
        have "\<not> f (xs ! mid) < k" "f (xs ! mid) \<noteq> k" using that(2) 3 by (metis less_irrefl order_less_asym)+
        with mono [OF that(1,3)] that(4) less.prems show ?thesis by fastforce
      qed
      then have "\<forall>j. lo \<le> j \<longrightarrow> j < hi \<longrightarrow> f (xs ! j) \<noteq> k"
        if "sorted (map f xs) \<and> (\<forall>v. (ord v < 0 \<longleftrightarrow> f v < k) \<and> (ord v = 0 \<longleftrightarrow> f v = k))" "r = None"
        using r(3) that by (metis not_less)
      with r(1,2) 3 eq show ?thesis by (intro exI [of _ r]) simp
    qed
  qed (simp add: slot_find.simps)
qed

lemma contains_sorted_finds:
  "\<exists>c. contains_sorted ids i = Ok c \<and> (c \<longrightarrow> i \<in> set ids) \<and> (sorted ids \<longrightarrow> i \<in> set ids \<longrightarrow> c)"
proof -
  from slot_find_finds [OF order_refl, of "ids" "\<lambda>v. op_id_compare_bytes v i" 0 "\<lambda>v. v" i] obtain r where
    r: "slot_find (map Some ids) (\<lambda>v. op_id_compare_bytes v i) 0 (length ids) = (Ok r :: nat option checked)"
      "\<forall>j. r = Some j \<longrightarrow> j < length ids \<and> ids ! j = i" "sorted ids \<longrightarrow> r = None \<longrightarrow> (\<forall>j < length ids. ids ! j \<noteq> i)" by auto
  have "r \<noteq> None \<longrightarrow> i \<in> set ids" using r(2) by (metis not_None_eq nth_mem)
  moreover have "sorted ids \<longrightarrow> i \<in> set ids \<longrightarrow> r \<noteq> None" using r(3) by (metis in_set_conv_nth)
  ultimately show ?thesis using r(1) by (intro exI [of _ "r \<noteq> None"]) (simp add: contains_sorted_def)
qed

lemma contains_sorted_eq: "sorted ids \<Longrightarrow> contains_sorted ids i = Ok (i \<in> set ids)"
  using contains_sorted_finds [of ids i] by auto

text \<open>The policy's contract: a registry in order, and a closure sorted as \<^verbatim>\<open>collect_reachable\<close> returns it.\<close>

definition default_ok :: "default_parse_policy \<Rightarrow> bool" where
  "default_ok p \<longleftrightarrow> sorted (df_local_closure p) \<and>
     (case df_registry p of None \<Rightarrow> True | Some reg \<Rightarrow> registry_ok reg \<and> (\<forall>s \<in> set reg. cs_component_align s > 0))"

definition default_known :: "default_parse_policy \<Rightarrow> component_type_id \<Rightarrow> component_schema option" where
  "default_known p t = (case df_registry p of None \<Rightarrow> None | Some reg \<Rightarrow> schema_of reg t)"

definition default_present :: "entity_id \<Rightarrow> raw_entity \<Rightarrow> bool \<times> parse_report" where
  "default_present e raw =
     (case map_of (re_components raw) reserved_entity of
        None \<Rightarrow> (True, empty_report)
      | Some marker \<Rightarrow> alive_of marker (Property_path e reserved_entity reserved_alive))"

text \<open>A conflict resolves to the one local writer if there is exactly one, and to the smallest op id otherwise.\<close>

definition default_pick :: "default_parse_policy \<Rightarrow> property_path \<Rightarrow> property_value list \<Rightarrow> value_view option \<times> parse_report" where
  "default_pick p path ws =
     (let local = filter (\<lambda>w. pv_writer w \<in> set (df_local_closure p)) ws in
      if length local = 1 then report_choice DK_remote_conflict path (hd local) (length ws) empty_report
      else report_choice DK_multi_valued_conflict path (ws ! 0) (length ws) empty_report)"

lemma report_choice_add:
  "report_choice kind path w n r =
   (fst (report_choice kind path w n empty_report), report_add r (snd (report_choice kind path w n empty_report)))"
  by (simp add: report_choice_def push_report_add [symmetric])

lemma count_local:
  assumes "sorted closure"
  shows "rfold (\<lambda>i (local, n). rbind (vat ws i) (\<lambda>w. rbind (contains_sorted closure (pv_writer w)) (\<lambda>c.
      Ok (if c then (Some i, n + 1) else (local, n))))) [0..<length ws] (None, 0) =
    (let is = filter (\<lambda>i. pv_writer (ws ! i) \<in> set closure) [0..<length ws] in
     Ok (if is = [] then None else Some (last is), length is) :: (nat option \<times> nat) checked)"
proof -
  let ?f = "\<lambda>i (local, n). rbind (vat ws i) (\<lambda>w. rbind (contains_sorted closure (pv_writer w)) (\<lambda>c.
      Ok (if c then (Some i, n + 1) else (local, n)))) :: (nat option \<times> nat) checked"
  let ?is = "\<lambda>k. filter (\<lambda>i. pv_writer (ws ! i) \<in> set closure) [0..<k]"
  have "rfold ?f [0..<k] (None, 0) = Ok (if ?is k = [] then None else Some (last (?is k)), length (?is k))" if "k \<le> length ws" for k
    using that
  proof (induction k)
    case (Suc k)
    have "rfold ?f [0..<Suc k] (None, 0) = rbind (rfold ?f [0..<k] (None, 0)) (rfold ?f [k])"
      using rfold_append [of ?f "[0..<k]" "[k]" "(None, 0)"] by simp
    with Suc show ?case by (simp add: contains_sorted_eq [OF assms])
  qed simp
  then show ?thesis by (simp add: Let_def)
qed

lemma default_resolve_yields:
  assumes "default_ok p" "2 \<le> length ws"
  shows "yields (default_resolve p path ws) (default_pick p path ws)"
proof -
  let ?cl = "df_local_closure p"
  let ?is = "filter (\<lambda>i. pv_writer (ws ! i) \<in> set ?cl) [0..<length ws]"
  have srt: "sorted ?cl" using assms(1) by (simp add: default_ok_def)
  have loc: "filter (\<lambda>w. pv_writer w \<in> set ?cl) ws = map ((!) ws) ?is"
  proof -
    have "filter (\<lambda>w. pv_writer w \<in> set ?cl) (map ((!) ws) [0..<length ws]) = map ((!) ws) ?is" by (simp add: filter_map comp_def)
    then show ?thesis by (simp add: map_nth)
  qed
  have "default_resolve p path ws r = Ok (fst (default_pick p path ws), report_add r (snd (default_pick p path ws)))" for r
  proof (cases "length ?is = 1")
    case True
    then obtain i where i: "?is = [i]" by (auto simp: length_Suc_conv)
    then have "i \<in> set ?is" by simp
    then have "i < length ws" "?cl \<noteq> []" by auto
    with i assms(2) show ?thesis
      using report_choice_add [of DK_remote_conflict path "ws ! i" "length ws" r]
      by (simp add: default_resolve_def default_pick_def loc count_local [OF srt])
  next
    case False
    then have n: "(if ?cl \<noteq> [] then length ?is else 0) \<noteq> 1" by simp
    then show ?thesis
      using assms(2) False report_choice_add [of DK_multi_valued_conflict path "ws ! 0" "length ws" r]
      by (simp add: default_resolve_def default_pick_def loc count_local [OF srt] Let_def)
  qed
  then show ?thesis by (simp add: yields_def)
qed

lemma default_should_instantiate_yields:
  assumes "readable_entity raw"
  shows "yields (default_should_instantiate e raw) (default_present e raw)"
proof -
  have get: "entity_try_get raw reserved_entity = map_of (re_components raw) reserved_entity"
    using assms by (simp add: entity_try_get_def readable_entity_def level.lookup_map_of)
  show ?thesis
  proof (cases "map_of (re_components raw) reserved_entity")
    case (Some marker)
    then have "readable_component marker" using assms by (force simp: readable_entity_def dest: map_of_SomeD)
    from yieldsD [OF is_alive_yields [OF this]] Some get show ?thesis
      by (simp add: yields_def default_should_instantiate_def default_present_def)
  qed (simp add: yields_def default_should_instantiate_def default_present_def get)
qed

lemma default_query_schema_eq: "default_ok p \<Longrightarrow> default_query_schema p t = Ok (default_known p t)"
  by (auto simp: default_query_schema_def default_known_def default_ok_def registry_try_get_eq split: option.splits)

lemma default_known_schema: "default_ok p \<Longrightarrow> default_known p t = Some s \<Longrightarrow> cs_type s = t \<and> cs_component_align s > 0"
  by (auto simp: default_known_def default_ok_def schema_of_Some split: option.splits)

text \<open>The policies that keep the contract, as a type, so that the rules hold for every one of them.\<close>

typedef lawful_policy = "{p. default_ok p}" morphisms policy_of lawful
  by (rule exI [of _ "create_with_registry []"]) (simp add: default_ok_def create_with_registry_def registry_ok_def)

interpretation default_rules: parse_rules "default_policy (policy_of q)" "default_known (policy_of q)" default_present
  "default_pick (policy_of q)" for q
proof
  have ok: "default_ok (policy_of q)" using policy_of [of q] by simp
  show "po_query_schema (default_policy (policy_of q)) t = Ok (default_known (policy_of q) t)" for t
    by (simp add: default_policy_def default_query_schema_eq [OF ok])
  show "default_known (policy_of q) t = Some s \<Longrightarrow> cs_type s = t \<and> cs_component_align s > 0" for t s
    by (rule default_known_schema [OF ok])
  show "readable_entity raw \<Longrightarrow> yields (po_should_instantiate (default_policy (policy_of q)) e raw) (default_present e raw)" for raw e
    by (simp add: default_policy_def default_should_instantiate_yields)
  show "2 \<le> length ws \<Longrightarrow> yields (po_resolve (default_policy (policy_of q)) path ws) (default_pick (policy_of q) path ws)" for ws path
    by (simp add: default_policy_def default_resolve_yields [OF ok])
qed

subsection \<open>Parsing a raw document\<close>

definition readable_document :: "raw_document \<Rightarrow> bool" where
  "readable_document raw \<longleftrightarrow> sorted_wrt (<) (map fst (rd_entities raw)) \<and> (\<forall>e \<in> snd ` set (rd_entities raw). readable_entity e)"

lemma parse_document_eq:
  assumes p: "default_ok p" and raw: "readable_document raw"
  shows "\<exists>doc. parse_document sys app raw (default_policy p) r = Ok (doc, report_add r
      (parse_findings (default_known p) default_present (default_pick p) app (map_of (rd_entities raw)) (map fst (rd_entities raw)))) \<and>
    document_ok doc \<and> doc_entities doc = filter (survives (map_of (rd_entities raw)) default_present) (map fst (rd_entities raw)) \<and>
    doc_schemas doc \<subseteq> {s. \<exists>t. default_known p t = Some s} \<and>
    doc_component doc = interpret_component (default_known p) default_present (default_pick p) app (map_of (rd_entities raw))"
proof -
  have srt: "sorted_wrt (<) (map fst (rd_entities raw))" using raw by (simp add: readable_document_def)
  have get: "document_try_get_entity raw = map_of (rd_entities raw)"
    by (rule ext) (simp add: document_try_get_entity_def level.lookup_map_of [OF srt])
  have "readable_source (map_of (rd_entities raw)) (map fst (rd_entities raw))"
    using raw by (force simp: readable_source_def readable_document_def dest: map_of_SomeD)
  from default_rules.parse_from_eq [OF srt this, of sys app "lawful p" r] obtain doc where
    doc: "parse_document sys app raw (default_policy p) r = Ok (doc, report_add r
        (parse_findings (default_known p) default_present (default_pick p) app (map_of (rd_entities raw)) (map fst (rd_entities raw))))"
      "document_ok doc" "doc_entities doc = filter (survives (map_of (rd_entities raw)) default_present) (map fst (rd_entities raw))"
      "doc_schemas doc \<subseteq> {s. \<exists>t. default_known p t = Some s}"
      "\<forall>t e. doc_component doc t e = (if e \<in> fst ` set (rd_entities raw) then
        interpret_component (default_known p) default_present (default_pick p) app (map_of (rd_entities raw)) t e else None)"
    using p by (auto simp: lawful_inverse parse_document_def get)
  have "interpret_component (default_known p) default_present (default_pick p) app (map_of (rd_entities raw)) t e = None"
    if "e \<notin> fst ` set (rd_entities raw)" for t e
  proof -
    from that have "map_of (rd_entities raw) e = None" by (simp add: map_of_eq_None_iff)
    then show ?thesis by (simp add: interpret_component_def)
  qed
  with doc(5) have "doc_component doc = interpret_component (default_known p) default_present (default_pick p) app (map_of (rd_entities raw))"
    by (auto simp: fun_eq_iff)
  with doc(1-4) show ?thesis by blast
qed

subsection \<open>What the documentation promises of a parse\<close>

text \<open>
  The rules of docs/concepts/interpretation.md and parse_report.hh, stated on their own.  The stamp of a component is the whole
  integer its writers agree on, zero where none is stored or what is stored is no integer, and nothing where they disagree.
\<close>

definition stored_integer :: "value_view \<Rightarrow> int" where
  "stored_integer b = (case as_i64 b :: 64 word checked of Ok v \<Rightarrow> sint v | _ \<Rightarrow> 0)"

definition documented_stamp :: "raw_component \<Rightarrow> int option" where
  "documented_stamp c =
     (case property_of c reserved_schema_version of
        None \<Rightarrow> Some 0
      | Some prop \<Rightarrow>
          if \<forall>w \<in> set (rp_writers prop). \<forall>w' \<in> set (rp_writers prop). pv_value w = pv_value w'
          then Some (stored_integer (pv_value (hd (rp_writers prop)))) else None)"

text \<open>Dead only when every writer of \<^verbatim>\<open>$alive\<close> says false.\<close>

definition documented_dead :: "raw_component \<Rightarrow> bool" where
  "documented_dead c \<longleftrightarrow>
     (\<exists>prop. property_of c reserved_alive = Some prop \<and> (\<forall>w \<in> set (rp_writers prop). pv_value w = enc (VBool False)))"

definition documented_entity :: "raw_document \<Rightarrow> entity_id \<Rightarrow> raw_entity option" where
  "documented_entity raw e =
     (case map_of (rd_entities raw) e of
        None \<Rightarrow> None
      | Some ent \<Rightarrow>
          (case map_of (re_components ent) reserved_entity of
             None \<Rightarrow> Some ent
           | Some marker \<Rightarrow> if documented_dead marker then None else Some ent))"

text \<open>
  A component of an entity that is there, of a type the build knows and not dead itself, with the schema of its type; and
  whether its stamp is one this build does not understand.
\<close>

definition documented_candidate ::
  "default_parse_policy \<Rightarrow> raw_document \<Rightarrow> component_type_id \<Rightarrow> entity_id \<Rightarrow> (raw_component \<times> component_schema) option" where
  "documented_candidate p raw t e =
     (case documented_entity raw e of
        None \<Rightarrow> None
      | Some ent \<Rightarrow>
          (case (map_of (re_components ent) t, default_known p t) of
             (Some c, Some s) \<Rightarrow> if t = reserved_entity \<or> documented_dead c then None else Some (c, s)
           | _ \<Rightarrow> None))"

definition not_understood :: "raw_component \<Rightarrow> component_schema \<Rightarrow> bool" where
  "not_understood c s \<longleftrightarrow> (case documented_stamp c of None \<Rightarrow> True | Some n \<Rightarrow> n > sint (cs_current_version s))"

definition documented_component ::
  "default_parse_policy \<Rightarrow> 'c application \<Rightarrow> raw_document \<Rightarrow> component_type_id \<Rightarrow> entity_id \<Rightarrow> 'c option" where
  "documented_component p app raw t e =
     (case documented_candidate p raw t e of
        None \<Rightarrow> None
      | Some (c, s) \<Rightarrow>
          if not_understood c s then None
          else fst (program_of (value_of (default_pick p) c e t) (app (cs_parse_into s) e t (word_of_int (the (documented_stamp c))))))"

text \<open>The type of a schema version is a 32 bit integer, and so is every one a writer of this library stamps.\<close>

definition stamps_fit :: "raw_document \<Rightarrow> bool" where
  "stamps_fit raw \<longleftrightarrow> (\<forall>(e, ent) \<in> set (rd_entities raw). \<forall>(t, c) \<in> set (re_components ent). \<forall>n.
     documented_stamp c = Some n \<longrightarrow> - (2 ^ 31) \<le> n \<and> n < 2 ^ 31)"

lemma writers_agree_iff: "ws \<noteq> [] \<Longrightarrow> writers_agree ws \<longleftrightarrow> (\<forall>w \<in> set ws. \<forall>w' \<in> set ws. pv_value w = pv_value w')"
  by (cases ws) (auto simp: writers_agree_def list_all_iff)

lemma documented_dead_alive: "fst (alive_of c path) \<longleftrightarrow> \<not> documented_dead c"
  by (auto simp: alive_of_def documented_dead_def Let_def filter_id_conv split: option.split)

lemma documented_entity_survives: "documented_entity raw e \<noteq> None \<longleftrightarrow> survives (map_of (rd_entities raw)) default_present e"
  "documented_entity raw e = Some ent \<longleftrightarrow> map_of (rd_entities raw) e = Some ent \<and> fst (default_present e ent)"
  by (auto simp: documented_entity_def survives_def default_present_def documented_dead_alive split: option.splits)

lemma cut_to_32: "(ucast v :: 32 word) = word_of_int (sint (v :: 64 word))"
  by (rule bit_word_eqI) (auto simp: bit_simps min_def)

lemma version_of_documented:
  assumes c: "readable_component c" and fit: "\<And>n. documented_stamp c = Some n \<Longrightarrow> - (2 ^ 31) \<le> n \<and> n < 2 ^ 31"
  shows "rv_contested (version_of c) \<longleftrightarrow> documented_stamp c = None"
    "documented_stamp c = Some n \<Longrightarrow> sint (rv_version (version_of c)) = n \<and> rv_version (version_of c) = word_of_int n"
proof -
  show "rv_contested (version_of c) \<longleftrightarrow> documented_stamp c = None"
  proof (cases "property_of c reserved_schema_version")
    case (Some q)
    with readable_component_property [OF c] have "rp_writers q \<noteq> []" by (simp add: readable_property_def)
    from Some show ?thesis by (simp add: version_of_def documented_stamp_def no_version_def Let_def flip: writers_agree_iff [OF \<open>rp_writers q \<noteq> []\<close>])
  qed (simp add: version_of_def documented_stamp_def no_version_def)
  assume n: "documented_stamp c = Some n"
  have "rv_version (version_of c) = word_of_int n"
  proof (cases "property_of c reserved_schema_version")
    case (Some q)
    with readable_component_property [OF c] have ws: "rp_writers q \<noteq> []" by (simp add: readable_property_def)
    have "stored_version b = word_of_int (stored_integer b)" for b
      by (cases "as_i64 b :: 64 word checked") (simp_all add: stored_version_def stored_integer_def cut_to_32)
    then show ?thesis
      using Some ws n
      by (auto simp: version_of_def documented_stamp_def no_version_def Let_def hd_conv_nth split: if_splits simp flip: writers_agree_iff [OF ws])
  qed (use n in \<open>simp add: version_of_def documented_stamp_def no_version_def\<close>)
  moreover have "sint (word_of_int n :: 32 word) = n" using fit [OF n] by (simp add: signed_of_int signed_take_bit_int_eq_self)
  ultimately show "sint (rv_version (version_of c)) = n \<and> rv_version (version_of c) = word_of_int n" by simp
qed

lemma verdict_documented:
  assumes c: "readable_component c" and fit: "\<And>n. documented_stamp c = Some n \<Longrightarrow> - (2 ^ 31) \<le> n \<and> n < 2 ^ 31"
  shows "fst (verdict_of known e (t, c)) =
    (case known t of None \<Rightarrow> None
     | Some s \<Rightarrow> if t = reserved_entity \<or> documented_dead c \<or> not_understood c s then None
         else Some \<lparr>sc_type = t, sc_schema = s, sc_raw = c, sc_version = word_of_int (the (documented_stamp c))\<rparr>)"
  using version_of_documented [OF assms]
  by (cases "documented_stamp c") (auto simp: verdict_of_def not_understood_def documented_dead_alive Let_def split: option.split)

lemma readable_raw_component:
  assumes "readable_document raw" "documented_entity raw e = Some ent" "(t, c) \<in> set (re_components ent)"
  shows "readable_component c" "stamps_fit raw \<Longrightarrow> documented_stamp c = Some n \<Longrightarrow> - (2 ^ 31) \<le> n \<and> n < 2 ^ 31"
proof -
  have "(e, ent) \<in> set (rd_entities raw)" using assms(2) by (simp add: documented_entity_survives map_of_SomeD)
  note in_raw = this
  have "\<forall>x \<in> set (rd_entities raw). readable_entity (snd x)" using assms(1) by (simp add: readable_document_def)
  from bspec [OF this in_raw] have "\<forall>x \<in> set (re_components ent). readable_component (snd x)" by (simp add: readable_entity_def)
  from bspec [OF this assms(3)] show "readable_component c" by simp
  assume s: "stamps_fit raw" "documented_stamp c = Some n"
  have "\<forall>x \<in> set (rd_entities raw). \<forall>y \<in> set (re_components (snd x)). \<forall>n. documented_stamp (snd y) = Some n \<longrightarrow> - (2 ^ 31) \<le> n \<and> n < 2 ^ 31"
    using s(1) unfolding stamps_fit_def case_prod_unfold .
  from bspec [OF bspec [OF this in_raw, unfolded snd_conv] assms(3), unfolded snd_conv] s(2) show "- (2 ^ 31) \<le> n \<and> n < 2 ^ 31" by blast
qed

lemma interpret_documented:
  assumes "readable_document raw" "stamps_fit raw"
  shows "interpret_component (default_known p) default_present (default_pick p) app (map_of (rd_entities raw)) t e = documented_component p app raw t e"
proof (cases "documented_entity raw e")
  case None
  then have "\<not> survives (map_of (rd_entities raw)) default_present e" using documented_entity_survives(1) by blast
  with None show ?thesis
    by (auto simp: interpret_component_def survives_def documented_component_def documented_candidate_def split: option.splits)
next
  case (Some ent)
  then have ent: "map_of (rd_entities raw) e = Some ent" "fst (default_present e ent)" by (simp_all add: documented_entity_survives)
  show ?thesis
  proof (cases "map_of (re_components ent) t")
    case (Some c)
    note read = readable_raw_component [OF assms(1) \<open>documented_entity raw e = Some ent\<close> map_of_SomeD [OF Some]]
    have v: "fst (verdict_of (default_known p) e (t, c)) =
      (case default_known p t of None \<Rightarrow> None
       | Some s \<Rightarrow> if t = reserved_entity \<or> documented_dead c \<or> not_understood c s then None
           else Some \<lparr>sc_type = t, sc_schema = s, sc_raw = c, sc_version = word_of_int (the (documented_stamp c))\<rparr>)"
      by (rule verdict_documented [OF read(1) read(2) [OF assms(2)]])
    show ?thesis
      unfolding interpret_component_def ent(1) option.case Some v
      using ent(2) Some \<open>documented_entity raw e = Some ent\<close>
      by (auto simp: documented_component_def documented_candidate_def build_of_def candidate_of_def split: option.split)
  qed (use Some ent in \<open>simp add: interpret_component_def documented_component_def documented_candidate_def\<close>)
qed

subsection \<open>The diagnostics of a parse\<close>

abbreviation filed_as :: "diagnostic_kind \<Rightarrow> parse_report \<Rightarrow> diagnostic list" where
  "filed_as k r \<equiv> filter (\<lambda>d. dg_kind d = k) (pr_diagnostics r)"

lemma filed_as_simps [simp]:
  "pr_diagnostics empty_report = []" "pr_diagnostics (report_add a b) = pr_diagnostics a @ pr_diagnostics b"
  "pr_diagnostics (push_agreed g a) = pr_diagnostics a" "pr_diagnostics (push_diagnostic d a) = pr_diagnostics a @ [d]"
  "pr_diagnostics (reports rs) = concat (map pr_diagnostics rs)"
proof -
  show "pr_diagnostics (reports rs) = concat (map pr_diagnostics rs)"
    by (induction rs) (simp_all add: report_add_def empty_report_def)
qed (simp_all add: report_add_def empty_report_def push_agreed_def push_diagnostic_def)

lemma reading_files_conflicts:
  assumes "d \<in> set (pr_diagnostics (snd (program_of (value_of (default_pick p) c e t) prog)))"
  shows "dg_kind d \<in> {DK_remote_conflict, DK_multi_valued_conflict}"
  using assms
proof (induction prog)
  case (PP_get q k)
  have "d \<in> set (pr_diagnostics (snd (value_of (default_pick p) c e t q))) \<Longrightarrow> dg_kind d \<in> {DK_remote_conflict, DK_multi_valued_conflict}"
    by (auto simp: value_of_def default_pick_def report_choice_def Let_def split: option.splits if_splits)
  with PP_get show ?case by auto
qed simp

lemma alive_files: "d \<in> set (pr_diagnostics (snd (alive_of c path))) \<Longrightarrow> dg_kind d = DK_contested_alive"
  by (auto simp: alive_of_def Let_def split: option.splits if_splits)

lemma present_files: "d \<in> set (pr_diagnostics (snd (default_present e ent))) \<Longrightarrow> dg_kind d = DK_contested_alive"
  by (auto simp: default_present_def dest: alive_files split: option.splits)

lemma verdict_files:
  assumes c: "readable_component c" and fit: "\<And>n. documented_stamp c = Some n \<Longrightarrow> - (2 ^ 31) \<le> n \<and> n < 2 ^ 31"
  shows "d \<in> set (pr_diagnostics (snd (verdict_of known e (t, c)))) \<Longrightarrow> dg_kind d \<in> {DK_contested_alive, DK_unknown_schema_version}"
    "d \<in> set (pr_diagnostics (snd (verdict_of known e (t, c)))) \<and> dg_kind d = DK_unknown_schema_version \<longleftrightarrow>
      (\<exists>s. known t = Some s \<and> t \<noteq> reserved_entity \<and> \<not> documented_dead c \<and> not_understood c s \<and>
         d = \<lparr>dg_kind = DK_unknown_schema_version, dg_path = Property_path e t [], dg_chosen_writer = no_writer,
           dg_writer_count = (if documented_stamp c = None then 2 else 1)\<rparr>)"
proof -
  have newer: "rv_contested (version_of c) \<or> sint (rv_version (version_of c)) > sint (cs_current_version s) \<longleftrightarrow> not_understood c s" for s
    using version_of_documented [OF assms] by (cases "documented_stamp c") (auto simp: not_understood_def)
  have alive: "dg_kind d = DK_contested_alive" if "d \<in> set (pr_diagnostics (snd (alive_of c (Property_path e t reserved_alive))))" for d
    using alive_files [OF that] .
  show "d \<in> set (pr_diagnostics (snd (verdict_of known e (t, c)))) \<Longrightarrow> dg_kind d \<in> {DK_contested_alive, DK_unknown_schema_version}"
    by (auto simp: verdict_of_def Let_def dest!: alive split: option.splits if_splits)
  show "d \<in> set (pr_diagnostics (snd (verdict_of known e (t, c)))) \<and> dg_kind d = DK_unknown_schema_version \<longleftrightarrow>
      (\<exists>s. known t = Some s \<and> t \<noteq> reserved_entity \<and> \<not> documented_dead c \<and> not_understood c s \<and>
         d = \<lparr>dg_kind = DK_unknown_schema_version, dg_path = Property_path e t [], dg_chosen_writer = no_writer,
           dg_writer_count = (if documented_stamp c = None then 2 else 1)\<rparr>)"
    using version_of_documented(1) [OF assms]
    by (cases "known t") (auto simp: verdict_of_def Let_def newer [symmetric] documented_dead_alive dest: alive)
qed

text \<open>What selection files about the entities, and all that reading the components can file.\<close>

lemma findings_files:
  "d \<in> set (pr_diagnostics (parse_findings known default_present (default_pick p) app lookup es)) \<longleftrightarrow>
     (\<exists>e \<in> set es. \<exists>ent. lookup e = Some ent \<and> (d \<in> set (pr_diagnostics (snd (default_present e ent))) \<or>
        fst (default_present e ent) \<and> (\<exists>c \<in> set (re_components ent). d \<in> set (pr_diagnostics (snd (verdict_of known e c)))))) \<or>
     d \<in> unsupported_diagnostic ` set (unknown_in known default_present lookup es) \<or>
     d \<in> set (pr_diagnostics (reports (map (column_findings (default_pick p) app (picked known default_present lookup es))
        (sorted_list_of_set (set (map (\<lambda>x. sc_type (snd x)) (picked known default_present lookup es)))))))"
proof -
  have "d \<in> set (pr_diagnostics (gather_report known default_present lookup es)) \<longleftrightarrow>
    (\<exists>e \<in> set es. \<exists>ent. lookup e = Some ent \<and> (d \<in> set (pr_diagnostics (snd (default_present e ent))) \<or>
        fst (default_present e ent) \<and> (\<exists>c \<in> set (re_components ent). d \<in> set (pr_diagnostics (snd (verdict_of known e c))))))"
    by (force simp: gather_report_def entity_report_def split: option.splits if_splits)
  then show ?thesis by (simp add: parse_findings_def Let_def unsupported_report_def)
qed

lemma column_files:
  "d \<in> set (pr_diagnostics (column_findings (default_pick p) app ps t)) \<Longrightarrow> dg_kind d \<in> {DK_remote_conflict, DK_multi_valued_conflict}"
  by (auto simp: column_findings_def build_of_def dest!: reading_files_conflicts)

lemma unknown_in_documented:
  "set (unknown_in (default_known p) default_present (map_of (rd_entities raw)) (map fst (rd_entities raw))) =
    {t. t \<noteq> reserved_entity \<and> default_known p t = None \<and> (\<exists>e ent. documented_entity raw e = Some ent \<and> t \<in> fst ` set (re_components ent))}"
  (is "?L = ?R")
proof -
  have es: "e \<in> fst ` set (rd_entities raw)" if "map_of (rd_entities raw) e = Some ent" for e ent
    using map_of_SomeD [OF that] by force
  have "t \<in> ?L \<longleftrightarrow> (\<exists>e ent. map_of (rd_entities raw) e = Some ent \<and> fst (default_present e ent) \<and> t \<in> set (unknown_types (default_known p) ent))" for t
  proof -
    have "t \<in> ?L \<longleftrightarrow> (\<exists>e \<in> fst ` set (rd_entities raw). \<exists>ent. map_of (rd_entities raw) e = Some ent \<and> fst (default_present e ent) \<and>
        t \<in> set (unknown_types (default_known p) ent))"
      unfolding unknown_in_def set_concat set_map by (simp split: option.split) metis
    then show ?thesis using es by blast
  qed
  then show ?thesis by (simp add: set_eq_iff unknown_types_def documented_entity_survives) blast
qed

lemma documented_findings:
  fixes p :: default_parse_policy and app :: "'c application"
  assumes raw: "readable_document raw" "stamps_fit raw"
  defines "f \<equiv> parse_findings (default_known p) default_present (default_pick p) app (map_of (rd_entities raw)) (map fst (rd_entities raw))"
  shows "(\<exists>d \<in> set (pr_diagnostics f). dg_kind d = DK_unknown_schema_version \<and> dg_path d = Property_path e t []) \<longleftrightarrow>
      (\<exists>c s. documented_candidate p raw t e = Some (c, s) \<and> not_understood c s)"
    and "filed_as DK_unsupported_component_type f = map unsupported_diagnostic (sorted_list_of_set
      {t. t \<noteq> reserved_entity \<and> default_known p t = None \<and> (\<exists>e ent. documented_entity raw e = Some ent \<and> t \<in> fst ` set (re_components ent))})"
proof -
  let ?lookup = "map_of (rd_entities raw)"
  have es: "e \<in> set (map fst (rd_entities raw))" if "?lookup e = Some ent" for e ent using map_of_SomeD [OF that] by force
  have verdict: "(\<exists>d \<in> set (pr_diagnostics (snd (verdict_of (default_known p) e' c))). dg_kind d = DK_unknown_schema_version \<and> dg_path d = Property_path e t []) \<longleftrightarrow>
      e' = e \<and> fst c = t \<and> t \<noteq> reserved_entity \<and> \<not> documented_dead (snd c) \<and> (\<exists>s. default_known p t = Some s \<and> not_understood (snd c) s)"
    if "documented_entity raw e' = Some ent" "c \<in> set (re_components ent)" for e' ent c
  proof -
    obtain u cc where c: "c = (u, cc)" by (cases c)
    note read = readable_raw_component [OF raw(1) that(1), of u cc]
    have "(u, cc) \<in> set (re_components ent)" using that(2) c by simp
    note v = verdict_files(2) [OF read(1) [OF this] read(2) [OF this raw(2)], where known = "default_known p" and e = e' and t = u]
    show ?thesis unfolding c fst_conv snd_conv
    proof
      assume "\<exists>d \<in> set (pr_diagnostics (snd (verdict_of (default_known p) e' (u, cc)))). dg_kind d = DK_unknown_schema_version \<and> dg_path d = Property_path e t []"
      then obtain d where d: "d \<in> set (pr_diagnostics (snd (verdict_of (default_known p) e' (u, cc)))) \<and> dg_kind d = DK_unknown_schema_version"
        "dg_path d = Property_path e t []" by blast
      from iffD1 [OF v d(1)] d(2) show "e' = e \<and> u = t \<and> t \<noteq> reserved_entity \<and> \<not> documented_dead cc \<and>
        (\<exists>s. default_known p t = Some s \<and> not_understood cc s)" by auto
    next
      assume "e' = e \<and> u = t \<and> t \<noteq> reserved_entity \<and> \<not> documented_dead cc \<and> (\<exists>s. default_known p t = Some s \<and> not_understood cc s)"
      then have "\<exists>d. d \<in> set (pr_diagnostics (snd (verdict_of (default_known p) e' (u, cc)))) \<and> dg_kind d = DK_unknown_schema_version \<and>
          dg_path d = Property_path e t []"
        using v [where d = "\<lparr>dg_kind = DK_unknown_schema_version, dg_path = Property_path e t [], dg_chosen_writer = no_writer,
           dg_writer_count = (if documented_stamp cc = None then 2 else 1)\<rparr>"] by (intro exI [of _ "\<lparr>dg_kind = DK_unknown_schema_version,
             dg_path = Property_path e t [], dg_chosen_writer = no_writer, dg_writer_count = (if documented_stamp cc = None then 2 else 1)\<rparr>"]) simp
      then show "\<exists>d \<in> set (pr_diagnostics (snd (verdict_of (default_known p) e' (u, cc)))). dg_kind d = DK_unknown_schema_version \<and>
          dg_path d = Property_path e t []" by blast
    qed
  qed
  show "(\<exists>d \<in> set (pr_diagnostics f). dg_kind d = DK_unknown_schema_version \<and> dg_path d = Property_path e t []) \<longleftrightarrow>
      (\<exists>c s. documented_candidate p raw t e = Some (c, s) \<and> not_understood c s)"
  proof
    assume "\<exists>d \<in> set (pr_diagnostics f). dg_kind d = DK_unknown_schema_version \<and> dg_path d = Property_path e t []"
    then obtain d where d: "d \<in> set (pr_diagnostics f)" "dg_kind d = DK_unknown_schema_version" "dg_path d = Property_path e t []" by blast
    have "dg_kind d \<noteq> DK_contested_alive" "dg_kind d \<notin> {DK_remote_conflict, DK_multi_valued_conflict}" "\<nexists>u. d = unsupported_diagnostic u"
      using d(2) by (auto simp: unsupported_diagnostic_def)
    with d(1) obtain e' ent c where s: "?lookup e' = Some ent" "fst (default_present e' ent)" "c \<in> set (re_components ent)"
      "d \<in> set (pr_diagnostics (snd (verdict_of (default_known p) e' c)))"
      unfolding f_def findings_files by (auto dest: present_files column_files)
    then have ent: "documented_entity raw e' = Some ent" by (simp add: documented_entity_survives)
    with verdict [OF ent s(3)] s(4) d(2,3) have v: "e' = e" "fst c = t" "t \<noteq> reserved_entity" "\<not> documented_dead (snd c)"
      "\<exists>s. default_known p t = Some s \<and> not_understood (snd c) s" by blast+
    have "readable_entity ent" using raw(1) s(1) by (force simp: readable_document_def dest: map_of_SomeD)
    then have "map_of (re_components ent) t = Some (snd c)"
      using s(3) v(2) by (intro map_of_is_SomeI) (auto simp: readable_entity_def strict_sorted_iff)
    with v ent show "\<exists>c s. documented_candidate p raw t e = Some (c, s) \<and> not_understood c s"
      by (auto simp: documented_candidate_def)
  next
    assume "\<exists>c s. documented_candidate p raw t e = Some (c, s) \<and> not_understood c s"
    then obtain c s ent where c: "documented_entity raw e = Some ent" "map_of (re_components ent) t = Some c" "default_known p t = Some s"
      "t \<noteq> reserved_entity" "\<not> documented_dead c" "not_understood c s"
      by (auto simp: documented_candidate_def split: option.splits if_splits)
    from verdict [OF c(1) map_of_SomeD [OF c(2)]] c(3-6) obtain d where
      d: "d \<in> set (pr_diagnostics (snd (verdict_of (default_known p) e (t, c))))" "dg_kind d = DK_unknown_schema_version" "dg_path d = Property_path e t []"
      by auto
    have "d \<in> set (pr_diagnostics f)"
      unfolding f_def findings_files using d(1) map_of_SomeD [OF c(2)] c(1) es [of e ent] by (auto simp: documented_entity_survives)
    with d show "\<exists>d \<in> set (pr_diagnostics f). dg_kind d = DK_unknown_schema_version \<and> dg_path d = Property_path e t []" by blast
  qed
  show "filed_as DK_unsupported_component_type f = map unsupported_diagnostic (sorted_list_of_set
      {t. t \<noteq> reserved_entity \<and> default_known p t = None \<and> (\<exists>e ent. documented_entity raw e = Some ent \<and> t \<in> fst ` set (re_components ent))})"
  proof -
    have "filed_as DK_unsupported_component_type (gather_report (default_known p) default_present ?lookup (map fst (rd_entities raw))) = []"
    proof -
      have "dg_kind d \<noteq> DK_unsupported_component_type"
        if e: "?lookup e' = Some ent" "d \<in> set (pr_diagnostics (entity_report (default_known p) default_present e' ent))" for d e' ent
      proof (cases "d \<in> set (pr_diagnostics (snd (default_present e' ent)))")
        case False
        with e(2) obtain u c where c: "fst (default_present e' ent)" "(u, c) \<in> set (re_components ent)"
          "d \<in> set (pr_diagnostics (snd (verdict_of (default_known p) e' (u, c))))"
          by (auto simp: entity_report_def split: if_splits)
        have "documented_entity raw e' = Some ent" using e(1) c(1) by (simp add: documented_entity_survives)
        note read = readable_raw_component [OF raw(1) this c(2)]
        show ?thesis using verdict_files(1) [OF read(1) read(2) [OF raw(2)] c(3)] by auto
      qed (auto dest: present_files)
      then show ?thesis by (force simp: gather_report_def filter_empty_conv split: option.splits)
    qed
    moreover have "filed_as DK_unsupported_component_type (reports (map (column_findings (default_pick p) app ps) ts)) = []" for ps ts
      by (auto simp: filter_empty_conv dest!: column_files)
    ultimately show ?thesis
      by (simp add: f_def parse_findings_def Let_def unsupported_report_def unknown_in_documented filter_map comp_def unsupported_diagnostic_def)
  qed
qed

text \<open>
  C16. Parsing never refuses and never faults, and reads what the documentation promises.  Under the default policy every
  readable document whose stamps are 32 bit integers becomes a typed document with the documented entities; whether an entity
  has a component of any type, and what \<^verbatim>\<open>get\<close> returns for a type the build knows, is what presence, aliveness, the stamp and
  the multi-value rules say.  The report only grows, by findings that do not depend on what it held: an unknown schema version
  is reported exactly for the components whose writers disagree on the stamp or whose stamp is newer than the build's, and
  every type the build does not know exactly once, in order.  A stamp beyond 32 bits is left out: there the code reads only its
  low half (\<open>future_stamp_accepted\<close>).
\<close>

theorem parse_interprets:
  assumes "default_ok p" "readable_document raw" "stamps_fit raw"
  shows "\<exists>findings. (\<forall>r. \<exists>doc. parse_document sys app raw (default_policy p) r = Ok (doc, report_add r findings) \<and>
    (\<forall>e. doc_contains doc e = Ok (documented_entity raw e \<noteq> None)) \<and>
    (\<forall>t e. has_component doc t e = Ok (documented_component p app raw t e \<noteq> None)) \<and>
    (\<forall>s e. default_known p (cs_type s) = Some s \<longrightarrow> doc_get doc (cs_type s) (cs_type_key s) e = Ok (documented_component p app raw (cs_type s) e))) \<and>
    (\<forall>t e. (\<exists>d \<in> set (pr_diagnostics findings). dg_kind d = DK_unknown_schema_version \<and> dg_path d = Property_path e t []) \<longleftrightarrow>
       (\<exists>c s. documented_candidate p raw t e = Some (c, s) \<and> not_understood c s)) \<and>
    filter (\<lambda>d. dg_kind d = DK_unsupported_component_type) (pr_diagnostics findings) = map unsupported_diagnostic (sorted_list_of_set
       {t. t \<noteq> reserved_entity \<and> default_known p t = None \<and> (\<exists>e ent. documented_entity raw e = Some ent \<and> t \<in> fst ` set (re_components ent))})"
proof -
  let ?f = "parse_findings (default_known p) default_present (default_pick p) app (map_of (rd_entities raw)) (map fst (rd_entities raw))"
  have "\<exists>doc. parse_document sys app raw (default_policy p) r = Ok (doc, report_add r ?f) \<and>
    (\<forall>e. doc_contains doc e = Ok (documented_entity raw e \<noteq> None)) \<and>
    (\<forall>t e. has_component doc t e = Ok (documented_component p app raw t e \<noteq> None)) \<and>
    (\<forall>s e. default_known p (cs_type s) = Some s \<longrightarrow> doc_get doc (cs_type s) (cs_type_key s) e = Ok (documented_component p app raw (cs_type s) e))" for r
  proof -
  from parse_document_eq [OF assms(1,2), of sys app r] obtain doc where
    doc: "parse_document sys app raw (default_policy p) r = Ok (doc, report_add r ?f)"
      "document_ok doc" "doc_entities doc = filter (survives (map_of (rd_entities raw)) default_present) (map fst (rd_entities raw))"
      "doc_schemas doc \<subseteq> {s. \<exists>t. default_known p t = Some s}"
      "doc_component doc = interpret_component (default_known p) default_present (default_pick p) app (map_of (rd_entities raw))" by blast
  have comp: "doc_component doc t e = documented_component p app raw t e" for t e
    unfolding doc(5) by (rule interpret_documented [OF assms(2,3)])
  have "e \<in> set (doc_entities doc) \<longleftrightarrow> survives (map_of (rd_entities raw)) default_present e" for e
    by (auto simp: doc(3) survives_def image_iff split: option.splits dest!: map_of_SomeD) (metis fst_conv)
  then have contains: "doc_contains doc e = Ok (documented_entity raw e \<noteq> None)" for e
    using document_queries_ok(1) [OF doc(2)] documented_entity_survives(1) by simp
  have has: "has_component doc t e = Ok (documented_component p app raw t e \<noteq> None)" for t e
    using document_queries_ok(2) [OF doc(2)] by (simp only: comp)
  have get: "doc_get doc (cs_type s) (cs_type_key s) e = Ok (documented_component p app raw (cs_type s) e)"
    if "default_known p (cs_type s) = Some s" for s e
    unfolding comp [symmetric]
  proof (rule document_queries_ok(3) [OF doc(2)])
    show "\<forall>s' \<in> doc_schemas doc. cs_type s' = cs_type s \<longrightarrow> cs_type_key s' = cs_type_key s"
    proof (intro ballI impI)
      fix s' assume s': "s' \<in> doc_schemas doc" "cs_type s' = cs_type s"
      then obtain t where t: "default_known p t = Some s'" using doc(4) by blast
      with default_known_schema [OF assms(1) t] s'(2) that show "cs_type_key s' = cs_type_key s" by simp
    qed
  qed
  show ?thesis by (intro exI [of _ doc] conjI allI impI doc(1) contains has get)
  qed
  then show ?thesis by (intro exI [of _ ?f] conjI allI documented_findings [OF assms(2,3)])
qed

lemma encoded_value_enc: "encoded_value (enc v)"
  by (auto simp: encoded_value_def)

text \<open>
  One entity with two components, one of a type the build knows, with one contested property whose single local writer wins, and
  one of a type it does not; and one entity whose component is stamped by a newer build.
\<close>

definition sample_op :: "nat \<Rightarrow> op_id" where
  "sample_op n = Op_id (Hash256 (of_nat n) 0 0 0)"

definition sample_stamped :: "64 word \<Rightarrow> raw_component" where
  "sample_stamped n = \<lparr>rc_properties =
     [(reserved_schema_version, \<lparr>rp_writers = [\<lparr>pv_writer = sample_op 1, pv_value = enc (VInt n)\<rparr>]\<rparr>),
      ([120], \<lparr>rp_writers = [\<lparr>pv_writer = sample_op 1, pv_value = enc (VBool False)\<rparr>, \<lparr>pv_writer = sample_op 2, pv_value = enc (VBool True)\<rparr>]\<rparr>)]\<rparr>"

definition stamped_raw :: raw_document where
  "stamped_raw = \<lparr>rd_entities = [([5], \<lparr>re_components = [([1], sample_stamped 1), ([2], \<lparr>rc_properties = []\<rparr>)]\<rparr>),
     ([6], \<lparr>re_components = [([1], sample_stamped 2)]\<rparr>)]\<rparr>"

definition sample_raw :: raw_document where
  "sample_raw = \<lparr>rd_entities = [([5], \<lparr>re_components = [([1], \<lparr>rc_properties =
     [(reserved_schema_version, \<lparr>rp_writers = [\<lparr>pv_writer = sample_op 1, pv_value = enc (VInt 1)\<rparr>]\<rparr>),
      ([120], \<lparr>rp_writers = [\<lparr>pv_writer = sample_op 1, pv_value = enc (VBool False)\<rparr>, \<lparr>pv_writer = sample_op 2, pv_value = enc (VBool True)\<rparr>]\<rparr>)]\<rparr>)]\<rparr>)]\<rparr>"

definition sample_policy :: default_parse_policy where
  "sample_policy = \<lparr>df_registry = Some [sample_schema], df_local_closure = [sample_op 2]\<rparr>"

definition sample_app :: "nat application" where
  "sample_app address e t v = PP_get [120] (\<lambda>x. PP_return (if x = Some (enc (VBool True)) then Some (unat v) else None))"

lemma sample_stamp: "documented_stamp (sample_stamped n) = Some (sint n)"
proof -
  have "property_of (sample_stamped n) reserved_schema_version = Some \<lparr>rp_writers = [\<lparr>pv_writer = sample_op 1, pv_value = enc (VInt n)\<rparr>]\<rparr>"
    by (simp add: property_of_def sample_stamped_def)
  then show ?thesis by (simp add: documented_stamp_def stored_integer_def scalar_accessors_enc(2) del: enc.simps)
qed

lemma sample_parse_ok: "default_ok sample_policy" "readable_document sample_raw"
  by (simp_all add: default_ok_def sample_policy_def registry_ok_def sample_schema_def is_reserved_def readable_document_def
      sample_raw_def readable_entity_def readable_component_def readable_property_def encoded_value_enc reserved_schema_version_def
      del: enc.simps)

lemma stamped_raw_ok: "readable_document stamped_raw" "stamps_fit stamped_raw"
proof -
  have "readable_component (sample_stamped n)" for n
    by (simp add: sample_stamped_def readable_component_def readable_property_def encoded_value_enc reserved_schema_version_def del: enc.simps)
  then show "readable_document stamped_raw"
    by (simp add: readable_document_def stamped_raw_def readable_entity_def readable_component_def [of "\<lparr>rc_properties = []\<rparr>"])
  have "documented_stamp \<lparr>rc_properties = []\<rparr> = Some 0" by (simp add: documented_stamp_def property_of_def)
  then show "stamps_fit stamped_raw" by (simp add: stamps_fit_def stamped_raw_def sample_stamp)
qed

lemma sample_known: "default_known sample_policy t = (if t = [1] then Some sample_schema else None)"
  by (simp add: default_known_def sample_policy_def schema_of_def sample_schema_def)

lemma sample_candidate:
  "documented_candidate sample_policy stamped_raw [1] [5] = Some (sample_stamped 1, sample_schema)"
  "documented_candidate sample_policy stamped_raw [1] [6] = Some (sample_stamped 2, sample_schema)"
proof -
  have "\<not> documented_dead (sample_stamped n)" for n
    by (simp add: documented_dead_def property_of_def sample_stamped_def reserved_alive_def reserved_schema_version_def)
  then show "documented_candidate sample_policy stamped_raw [1] [5] = Some (sample_stamped 1, sample_schema)"
    "documented_candidate sample_policy stamped_raw [1] [6] = Some (sample_stamped 2, sample_schema)"
    by (simp_all add: documented_candidate_def documented_entity_def stamped_raw_def sample_known reserved_entity_def)
qed

lemma sample_interpreted: "documented_component sample_policy sample_app stamped_raw [1] [5] = Some 1"
proof -
  have "property_of (sample_stamped 1) [120] = Some \<lparr>rp_writers =
      [\<lparr>pv_writer = sample_op 1, pv_value = enc (VBool False)\<rparr>, \<lparr>pv_writer = sample_op 2, pv_value = enc (VBool True)\<rparr>]\<rparr>"
    by (simp add: property_of_def sample_stamped_def reserved_schema_version_def)
  then have "fst (value_of (default_pick sample_policy) (sample_stamped 1) [5] [1] [120]) = Some (enc (VBool True))"
    by (simp add: value_of_def writers_agree_def default_pick_def sample_policy_def report_choice_def sample_op_def)
  then show ?thesis
    by (simp add: documented_component_def sample_candidate not_understood_def sample_stamp sample_schema_def sample_app_def)
qed

lemma parse_interprets_witness:
  "\<exists>doc report. parse_document (\<lambda>_ _. (0, 0)) sample_app stamped_raw (default_policy sample_policy) empty_report = Ok (doc, report) \<and>
     doc_get doc [1] 9 [5] = Ok (Some 1) \<and>
     (\<exists>d \<in> set (pr_diagnostics report). dg_kind d = DK_unknown_schema_version \<and> dg_path d = Property_path [6] [1] [])"
proof -
  have known: "default_known sample_policy (cs_type sample_schema) = Some sample_schema" by (simp add: sample_known sample_schema_def)
  from parse_interprets [OF sample_parse_ok(1) stamped_raw_ok, of "\<lambda>_ _. (0, 0)" sample_app] obtain findings where f:
    "\<exists>doc. parse_document (\<lambda>_ _. (0, 0)) sample_app stamped_raw (default_policy sample_policy) empty_report = Ok (doc, report_add empty_report findings) \<and>
      (\<forall>s e. default_known sample_policy (cs_type s) = Some s \<longrightarrow> doc_get doc (cs_type s) (cs_type_key s) e =
         Ok (documented_component sample_policy sample_app stamped_raw (cs_type s) e)) \<and>
      (\<forall>t e. (\<exists>d \<in> set (pr_diagnostics findings). dg_kind d = DK_unknown_schema_version \<and> dg_path d = Property_path e t []) \<longleftrightarrow>
         (\<exists>c s. documented_candidate sample_policy stamped_raw t e = Some (c, s) \<and> not_understood c s))"
    by (elim exE conjE allE [of _ empty_report]) (rule that, blast)
  obtain doc where doc: "parse_document (\<lambda>_ _. (0, 0)) sample_app stamped_raw (default_policy sample_policy) empty_report = Ok (doc, findings)"
    "doc_get doc [1] 9 [5] = Ok (Some 1)"
  proof -
    assume use: "\<And>doc. parse_document (\<lambda>_ _. (0, 0)) sample_app stamped_raw (default_policy sample_policy) empty_report = Ok (doc, findings) \<Longrightarrow>
      doc_get doc [1] 9 [5] = Ok (Some 1) \<Longrightarrow> thesis"
    from f obtain doc where doc: "parse_document (\<lambda>_ _. (0, 0)) sample_app stamped_raw (default_policy sample_policy) empty_report =
        Ok (doc, report_add empty_report findings)"
      "\<forall>s e. default_known sample_policy (cs_type s) = Some s \<longrightarrow> doc_get doc (cs_type s) (cs_type_key s) e =
         Ok (documented_component sample_policy sample_app stamped_raw (cs_type s) e)" by blast
    have schema: "cs_type sample_schema = [1]" "cs_type_key sample_schema = 9" by (simp_all add: sample_schema_def)
    from doc(2) [rule_format, OF known, of "[5]"] have "doc_get doc [1] 9 [5] = Ok (Some 1)"
      unfolding schema sample_interpreted .
    with doc(1) show thesis by (intro use [of doc]) simp_all
  qed
  have "not_understood (sample_stamped 2) sample_schema" by (simp add: not_understood_def sample_stamp sample_schema_def)
  with f sample_candidate(2) have
    "\<exists>d \<in> set (pr_diagnostics findings). dg_kind d = DK_unknown_schema_version \<and> dg_path d = Property_path [6] [1] []" by blast
  with doc show ?thesis by blast
qed

text \<open>
  A stored version is cut to 32 bits before it is compared: a component stamped \<open>2 ^ 32 + 1\<close>, which no such build understands,
  is selected and parsed as one of version 1.
\<close>

lemma future_stamp_accepted:
  "documented_stamp (sample_stamped (2 ^ 32 + 1)) = Some (2 ^ 32 + 1)"
  "not_understood (sample_stamped (2 ^ 32 + 1)) sample_schema"
  "read_schema_version (sample_stamped (2 ^ 32 + 1)) = Ok \<lparr>rv_version = 1, rv_contested = False, rv_agreed_writers = 0\<rparr>"
proof -
  show stamp: "documented_stamp (sample_stamped (2 ^ 32 + 1)) = Some (2 ^ 32 + 1)" by (simp add: sample_stamp)
  then show "not_understood (sample_stamped (2 ^ 32 + 1)) sample_schema" by (simp add: not_understood_def sample_schema_def)
  have "component_try_get (sample_stamped (2 ^ 32 + 1)) reserved_schema_version =
      Some \<lparr>rp_writers = [\<lparr>pv_writer = sample_op 1, pv_value = enc (VInt (2 ^ 32 + 1))\<rparr>]\<rparr>"
  proof -
    have "readable_component (sample_stamped (2 ^ 32 + 1))"
      by (simp add: sample_stamped_def readable_component_def readable_property_def encoded_value_enc reserved_schema_version_def del: enc.simps)
    then show ?thesis by (simp add: readable_component_try_get property_of_def sample_stamped_def)
  qed
  then show "read_schema_version (sample_stamped (2 ^ 32 + 1)) = Ok \<lparr>rv_version = 1, rv_contested = False, rv_agreed_writers = 0\<rparr>"
    by (simp add: read_schema_version_def Let_def writers_agree_def no_version_def scalar_accessors_enc(2) del: enc.simps)
qed

subsection \<open>Extending the local closure\<close>

lemma extend_local_closure_fold:
  "\<exists>cl'. rfold (\<lambda>i closure. rbind (contains_sorted closure i) (\<lambda>c. Ok (if c then closure else closure @ [i]))) ops cl = (Ok cl' :: op_id list checked) \<and>
     set cl' = set cl \<union> set ops"
proof (induction ops arbitrary: cl)
  case (Cons i ops)
  from contains_sorted_finds [of cl i] obtain c where c: "contains_sorted cl i = Ok c" "c \<longrightarrow> i \<in> set cl" by blast
  from Cons [of "if c then cl else cl @ [i]"] c show ?case by (auto split: if_splits)
qed simp

text \<open>Known ops first and then new ones: each is recognised for what it is.\<close>

lemma extend_local_closure_known:
  "sorted cl \<Longrightarrow> set known \<subseteq> set cl \<Longrightarrow>
   rfold (\<lambda>i closure. rbind (contains_sorted closure i) (\<lambda>c. Ok (if c then closure else closure @ [i]))) known cl = (Ok cl :: op_id list checked)"
  by (induction known) (simp_all add: contains_sorted_eq)

lemma extend_local_closure_fresh:
  "distinct fresh \<Longrightarrow> set fresh \<inter> set cl = {} \<Longrightarrow>
   rfold (\<lambda>i closure. rbind (contains_sorted closure i) (\<lambda>c. Ok (if c then closure else closure @ [i]))) fresh cl = (Ok (cl @ fresh) :: op_id list checked)"
proof (induction fresh arbitrary: cl)
  case (Cons i fresh)
  from contains_sorted_finds [of cl i] Cons.prems have "contains_sorted cl i = Ok False" by auto
  with Cons.IH [of "cl @ [i]"] Cons.prems show ?case by auto
qed simp

text \<open>
  C39. Extending a local closure that \<^verbatim>\<open>collect_reachable\<close> produced never faults and adds exactly the ops given, whatever their
  order; a policy without a local branch keeps none.  Whenever the ops already known are listed before the new ones and no new
  op twice (in particular for a single op, the case of a session that advances its head one op at a time), the closure holds
  no op twice and is the very list the factory would have collected from any graph and heads that reach the old ops and the
  ones given.  A batch that lists a known op after a new one, or a new op twice, is left out here: then the same search can
  miss an op and repeat it in the list.
\<close>

theorem extend_local_closure_exact:
  assumes "default_ok p" "df_local_closure p = collect_reachable g0 heads0"
  shows "\<exists>p'. extend_local_closure ops p = Ok p' \<and> default_ok p' \<and> df_registry p' = df_registry p \<and>
    set (df_local_closure p') = (if df_local_closure p = [] then {} else set (df_local_closure p) \<union> set ops) \<and>
    (length ops \<le> 1 \<or> (\<exists>known fresh. ops = known @ fresh \<and> set known \<subseteq> set (df_local_closure p) \<and> distinct fresh \<and>
         set fresh \<inter> set (df_local_closure p) = {}) \<longrightarrow>
       distinct (df_local_closure p') \<and>
       (\<forall>reg g heads. df_local_closure p \<noteq> [] \<and> reach_until g (\<lambda>_. False) heads = set (df_local_closure p) \<union> set ops \<longrightarrow>
          df_local_closure p' = df_local_closure (create_with_local_heads reg g heads)))"
proof (cases "df_local_closure p = []")
  case True
  with assms show ?thesis by (auto simp: extend_local_closure_def)
next
  case False
  let ?cl = "df_local_closure p"
  have cl: "sorted ?cl" "distinct ?cl" using collect_reachable_spec [of g0 heads0] by (simp_all add: assms(2) strict_sorted_iff)
  obtain closure where c: "rfold (\<lambda>i closure. rbind (contains_sorted closure i) (\<lambda>c. Ok (if c then closure else closure @ [i]))) ops ?cl =
      (Ok closure :: op_id list checked)" "set closure = set ?cl \<union> set ops"
    using extend_local_closure_fold [of ops ?cl] by blast
  let ?p = "p\<lparr>df_local_closure := sort closure\<rparr>"
  have run: "extend_local_closure ops p = Ok ?p"
  proof (cases "ops = []")
    case True
    with c(1) have "closure = ?cl" by simp
    then show ?thesis using True cl(1) by (simp add: extend_local_closure_def sorted_sort_id)
  next
    case ops: False
    with c(1) False show ?thesis by (simp add: extend_local_closure_def cc_sort_eq_sort less_op_id_def [symmetric])
  qed
  have exact: "distinct closure"
    if "length ops \<le> 1 \<or> (\<exists>known fresh. ops = known @ fresh \<and> set known \<subseteq> set ?cl \<and> distinct fresh \<and> set fresh \<inter> set ?cl = {})"
  proof -
    have "\<exists>known fresh. ops = known @ fresh \<and> set known \<subseteq> set ?cl \<and> distinct fresh \<and> set fresh \<inter> set ?cl = {}" if "length ops \<le> 1"
    proof -
      from that consider "ops = []" | i where "ops = [i]" by (cases ops) auto
      then show ?thesis
      proof cases
        case (2 i)
        then show ?thesis
          by (cases "i \<in> set ?cl")
            (force intro: exI [of _ "[i]"] exI [of _ "[]"], force intro: exI [of _ "[]"] exI [of _ "[i]"])
      qed simp
    qed
    with that obtain known fresh where ops: "ops = known @ fresh" "set known \<subseteq> set ?cl" "distinct fresh" "set fresh \<inter> set ?cl = {}" by blast
    with c(1) extend_local_closure_known [OF cl(1) ops(2)] extend_local_closure_fresh [OF ops(3,4)] have "closure = ?cl @ fresh"
      by (simp add: rfold_append)
    with ops(3,4) cl(2) show ?thesis by auto
  qed
  have "sort closure = collect_reachable g heads" if "distinct closure" "reach_until g (\<lambda>_. False) heads = set ?cl \<union> set ops" for g heads
    using that c(2) collect_reachable_spec [of g heads] by (intro sorted_distinct_set_unique) (simp_all add: strict_sorted_iff)
  then show ?thesis
    using run exact False assms(1) c(2)
    by (intro exI [of _ ?p]) (simp add: default_ok_def create_with_local_heads_def create_with_registry_def)
qed

text \<open>A graph of three ops in a row; the policy is built at the second, the head moves on to the third.\<close>

definition sample_chain :: op_graph where
  "sample_chain = foldl (\<lambda>g o1. fst (graph_add g o1)) empty_graph
     [\<lparr>o_id = sample_op 3, o_parents = [], o_payload = None\<rparr>, \<lparr>o_id = sample_op 1, o_parents = [sample_op 3], o_payload = None\<rparr>,
      \<lparr>o_id = sample_op 2, o_parents = [sample_op 1], o_payload = None\<rparr>]"

lemma sample_chain_reach:
  "collect_reachable sample_chain [sample_op 1] = [sample_op 1, sample_op 3]"
  "collect_reachable sample_chain [sample_op 2] = [sample_op 1, sample_op 2, sample_op 3]"
  by code_simp+

lemma extend_local_closure_exact_witness:
  "\<exists>p'. extend_local_closure [sample_op 2] (create_with_local_heads [] sample_chain [sample_op 1]) = Ok p' \<and>
     df_local_closure p' = [sample_op 1, sample_op 2, sample_op 3]"
proof -
  let ?p = "create_with_local_heads [] sample_chain [sample_op 1]"
  have cl: "df_local_closure ?p = collect_reachable sample_chain [sample_op 1]" by (simp add: create_with_local_heads_def)
  have ok: "default_ok ?p"
    using collect_reachable_spec [of sample_chain "[sample_op 1]"]
    by (simp add: default_ok_def create_with_local_heads_def create_with_registry_def registry_ok_def strict_sorted_iff)
  have "reach_until sample_chain (\<lambda>_. False) [sample_op 2] = set (df_local_closure ?p) \<union> set [sample_op 2]"
    using collect_reachable_spec [of sample_chain "[sample_op 2]"] unfolding cl sample_chain_reach by auto
  moreover have "df_local_closure ?p \<noteq> []" unfolding cl sample_chain_reach by simp
  ultimately obtain p' where "extend_local_closure [sample_op 2] ?p = Ok p'"
    "df_local_closure p' = df_local_closure (create_with_local_heads [] sample_chain [sample_op 2])"
    using extend_local_closure_exact [OF ok cl, of "[sample_op 2]"] by auto
  then show ?thesis by (auto simp: create_with_local_heads_def sample_chain_reach)
qed

text \<open>
  The search runs over a vector that is no longer sorted once an op was appended, so an op already present can be added again.
\<close>

lemma extend_local_closure_duplicates:
  "rbind (extend_local_closure [sample_op 1, sample_op 2] sample_policy) (\<lambda>p. Ok (df_local_closure p)) =
    (Ok [sample_op 1, sample_op 2, sample_op 2] :: op_id list checked)"
  by code_simp

end
