(* ===== verification/Incremental_Parse.thy ===== *)
theory Incremental_Parse
  imports Default_Policy Change_Set Cache_Properties
begin

text \<open>
  Evolving a typed document from one op to another (incremental_parse.hh/.cc, change_summary.hh).  The snapshot cache is
  threaded through, as a lookup may change it.  The compaction test compares two \<^verbatim>\<open>f64\<close> products; it is a predicate of the
  options here, of the dead and the live bytes.
\<close>

subsection \<open>Change summaries\<close>

record entity_change =
  ec_entity :: entity_id
  ec_kind :: change_kind

record component_change =
  cg_entity :: entity_id
  cg_component :: component_type_id
  cg_kind :: change_kind

record change_summary =
  su_entities :: "entity_change list"
  su_components :: "component_change list"

definition empty_summary :: change_summary where
  "empty_summary = \<lparr>su_entities = [], su_components = []\<rparr>"

definition record_entity :: "entity_id \<Rightarrow> change_kind \<Rightarrow> change_summary \<Rightarrow> change_summary" where
  "record_entity e k out = out\<lparr>su_entities := su_entities out @ [\<lparr>ec_entity = e, ec_kind = k\<rparr>]\<rparr>"

definition record_component :: "entity_id \<Rightarrow> component_type_id \<Rightarrow> change_kind \<Rightarrow> change_summary \<Rightarrow> change_summary" where
  "record_component e t k out = out\<lparr>su_components := su_components out @ [\<lparr>cg_entity = e, cg_component = t, cg_kind = k\<rparr>]\<rparr>"

definition sort_summary :: "change_summary \<Rightarrow> change_summary" where
  "sort_summary out = out\<lparr>
     su_entities := cc_sort (\<lambda>a b. id_compare_bytes (ec_entity a) (ec_entity b) < 0) (su_entities out),
     su_components := cc_sort (\<lambda>a b.
       (let by_entity = id_compare_bytes (cg_entity a) (cg_entity b) in
        if by_entity \<noteq> 0 then by_entity < 0 else id_compare_bytes (cg_component a) (cg_component b) < 0)) (su_components out)\<rparr>"

subsection \<open>The chain back\<close>

datatype apply_fallback_reason = AF_none | AF_forced | AF_no_single_parent_chain | AF_chain_too_long | AF_structure_changed

record chain_walk =
  cw_found :: bool
  cw_reason :: apply_fallback_reason
  cw_ops :: "op list"

definition no_chain :: chain_walk where
  "no_chain = \<lparr>cw_found = False, cw_reason = AF_no_single_parent_chain, cw_ops = []\<rparr>"

fun walk_steps :: "op_graph \<Rightarrow> op_id \<Rightarrow> op_id \<Rightarrow> op list \<Rightarrow> nat \<Rightarrow> chain_walk" where
  "walk_steps g from at ops 0 = no_chain\<lparr>cw_reason := AF_chain_too_long\<rparr>"
| "walk_steps g from at ops (Suc n) =
     (case find_op g at of
        None \<Rightarrow> no_chain
      | Some o1 \<Rightarrow>
          if is_skeleton o1 \<or> length (o_parents o1) \<noteq> 1 then no_chain
          else if o_parents o1 ! 0 = from then no_chain\<lparr>cw_found := True, cw_ops := ops @ [o1]\<rparr>
          else walk_steps g from (o_parents o1 ! 0) (ops @ [o1]) n)"

definition walk_chain :: "op_graph \<Rightarrow> op_id \<Rightarrow> op_id \<Rightarrow> nat \<Rightarrow> chain_walk" where
  "walk_chain g from to max_ops =
     (if to = from then no_chain\<lparr>cw_found := contains_op g from\<rparr> else walk_steps g from to [] max_ops)"

definition add_assignments :: "op \<Rightarrow> change_set_builder \<Rightarrow> change_set_builder checked" where
  "add_assignments o1 b = rbind (op_assignment_list o1) (\<lambda>as. Ok (foldl (\<lambda>b a. builder_add b (a_path a)) b as))"

definition change_set_of :: "op list \<Rightarrow> change_set checked" where
  "change_set_of chain =
     rbind (rfold add_assignments chain (new_change_set_builder CG_property)) (\<lambda>b. Ok (fst (build_change_set b)))"

subsection \<open>The slow path\<close>

definition read_entities :: "'c document \<Rightarrow> entity_id list checked" where
  "read_entities d = rfold (\<lambda>i es. rbind (slot_read (td_entities d) i) (\<lambda>e. Ok (es @ [e]))) [0..<td_entity_count d] []"

definition record_all_components :: "'c document \<Rightarrow> entity_id \<Rightarrow> change_kind \<Rightarrow> change_summary \<Rightarrow> change_summary checked" where
  "record_all_components d e kind out =
     rfold (\<lambda>t out. rbind (has_component d t e) (\<lambda>b. Ok (if b then record_component e t kind out else out))) (component_types d) out"

definition record_removed :: "'c document \<Rightarrow> 'c document \<Rightarrow> entity_id \<Rightarrow> change_summary \<Rightarrow> change_summary checked" where
  "record_removed before after e out =
     rbind (doc_contains after e) (\<lambda>still.
       if still then Ok out
       else rbind (record_all_components before e CK_removed out) (\<lambda>out. Ok (record_entity e CK_removed out)))"

definition record_present :: "'c document \<Rightarrow> 'c document \<Rightarrow> entity_id \<Rightarrow> change_summary \<Rightarrow> change_summary checked" where
  "record_present before after e out =
     rbind (doc_contains before e) (\<lambda>was.
     rbind (record_all_components after e (if was then CK_modified else CK_added) out) (\<lambda>out.
     Ok (record_entity e (if was then CK_modified else CK_added) out)))"

type_synonym cache_state = "snapshot_cache option"

definition materialize_by :: "op_graph \<Rightarrow> op_id \<Rightarrow> entity_id list \<Rightarrow> cache_state \<Rightarrow> (raw_document \<times> cache_state) checked" where
  "materialize_by g to entities cache =
     (case cache of
        None \<Rightarrow> rbind (materialize_entities g [to] entities) (\<lambda>d. Ok (d, None))
      | Some c \<Rightarrow> rbind (materialize_through g [to] entities c) (\<lambda>(d, c). Ok (d, Some c)))"

text \<open>The summary of a document parsed afresh: everything.\<close>

definition conservative_summary :: "'c document \<Rightarrow> 'c document \<Rightarrow> change_summary \<Rightarrow> change_summary checked" where
  "conservative_summary before after out =
     rbind (read_entities before) (\<lambda>gone.
     rbind (rfold (record_removed before after) gone out) (\<lambda>out.
     rbind (read_entities after) (\<lambda>present.
     rbind (rfold (record_present before after) present out) (\<lambda>out.
     Ok (sort_summary out)))))"

definition full_reparse :: "system \<Rightarrow> 'c application \<Rightarrow> 'c document \<Rightarrow> op_graph \<Rightarrow> op_id \<Rightarrow> parse_policy \<Rightarrow> parse_report \<Rightarrow>
    change_summary \<Rightarrow> cache_state \<Rightarrow> ('c document \<times> parse_report \<times> change_summary \<times> cache_state) checked" where
  "full_reparse sys app before g to policy report out cache =
     rbind (materialize_by g to [] cache) (\<lambda>(raw, cache).
     rbind (parse_document sys app raw policy (clear_report report)) (\<lambda>(after, report).
     rbind (conservative_summary before after out) (\<lambda>out.
     Ok (after, report, out, cache))))"

subsection \<open>The fast path\<close>

type_synonym 'c evolving = "'c document \<times> parse_report \<times> component_type_id list \<times> change_summary"

text \<open>An entity that is gone: its components are reported before they go.\<close>

definition withdraw_entity :: "entity_id \<Rightarrow> 'c document \<Rightarrow> change_summary \<Rightarrow> ('c document \<times> change_summary) checked" where
  "withdraw_entity e d out =
     rbind (record_all_components d e CK_removed out) (\<lambda>out.
     rbind (remove_typed_entity e d) (\<lambda>(_, d). Ok (d, record_entity e CK_removed out)))"

definition drop_unwanted :: "selected_component list \<Rightarrow> entity_id \<Rightarrow> component_type_id \<Rightarrow> 'c document \<times> change_summary \<Rightarrow>
    ('c document \<times> change_summary) checked" where
  "drop_unwanted wanted e t st =
     (case st of (d, out) \<Rightarrow>
        if list_ex (\<lambda>sc. sc_type sc = t) wanted then Ok (d, out)
        else
          rbind (has_component d t e) (\<lambda>b.
            if b then rbind (remove_typed_component t e d) (\<lambda>(_, d). Ok (d, record_component e t CK_removed out)) else Ok (d, out)))"

definition set_selected :: "system \<Rightarrow> 'c application \<Rightarrow> parse_policy \<Rightarrow> entity_id \<Rightarrow> selected_component \<Rightarrow>
    'c document \<times> parse_report \<times> change_summary \<Rightarrow> ('c document \<times> parse_report \<times> change_summary) checked" where
  "set_selected sys app policy e sc st =
     (case st of (d, report, out) \<Rightarrow>
        (let reader = \<lparr>prd_raw = sc_raw sc, prd_policy = policy, prd_entity = e, prd_component = sc_type sc,
               prd_schema_version = sc_version sc\<rparr> in
         rbind (set_typed_component sys (sc_schema sc) e (parse_component_into app (cs_parse_into (sc_schema sc)) reader) (d, report))
           (\<lambda>(kind, d, report). Ok (d, report, record_component e (sc_type sc) kind out))))"

definition apply_entity :: "system \<Rightarrow> 'c application \<Rightarrow> parse_policy \<Rightarrow> (entity_id \<Rightarrow> raw_entity option) \<Rightarrow> entity_id \<Rightarrow> 'c evolving \<Rightarrow> 'c evolving checked" where
  "apply_entity sys app policy lookup e st =
     (case st of (d, report, unsupported, out) \<Rightarrow>
        rbind (case lookup e of
                 None \<Rightarrow> Ok (\<lparr>es_instantiate = False, es_components = []\<rparr>, report, unsupported)
               | Some ent \<Rightarrow> select_entity policy e ent (report, unsupported)) (\<lambda>(sel, report, unsupported).
        rbind (doc_contains d e) (\<lambda>was_present.
          if \<not> es_instantiate sel
          then if was_present then rbind (withdraw_entity e d out) (\<lambda>(d, out). Ok (d, report, unsupported, out))
               else Ok (d, report, unsupported, out)
          else
            rbind (if was_present then Ok (d, record_entity e CK_modified out)
                   else rbind (insert_entity sys e d) (\<lambda>(_, d). Ok (d, record_entity e CK_added out))) (\<lambda>(d, out).
            rbind (rfold (drop_unwanted (es_components sel) e) (component_types d) (d, out)) (\<lambda>(d, out).
            rbind (rfold (set_selected sys app policy e) (es_components sel) (d, report, out)) (\<lambda>(d, report, out).
            Ok (d, report, unsupported, out)))))))"

definition already_reported_unsupported :: "parse_report \<Rightarrow> component_type_id \<Rightarrow> bool" where
  "already_reported_unsupported report t =
     list_ex (\<lambda>d. dg_kind d = DK_unsupported_component_type \<and> pp_component (dg_path d) = t) (pr_diagnostics report)"

definition report_unsupported :: "component_type_id list \<Rightarrow> parse_report \<Rightarrow> parse_report" where
  "report_unsupported unsupported report =
     foldl (\<lambda>r t. if already_reported_unsupported r t then r else push_diagnostic (unsupported_diagnostic t) r) report
       (cc_sort (\<lambda>a b. id_compare_bytes a b < 0) unsupported)"

record incremental_apply_options =
  ao_max_chain_ops :: nat
  ao_cache :: cache_state
  ao_compacts :: "int \<Rightarrow> int \<Rightarrow> bool"
  ao_force_full_reparse :: bool

record incremental_apply_stats =
  as_took_fast_path :: bool
  as_fallback_reason :: apply_fallback_reason
  as_chain_ops :: nat
  as_touched_entities :: nat
  as_compacted :: bool

definition default_apply_stats :: incremental_apply_stats where
  "default_apply_stats = \<lparr>as_took_fast_path = False, as_fallback_reason = AF_none, as_chain_ops = 0, as_touched_entities = 0,
     as_compacted = False\<rparr>"

type_synonym 'c applied = "'c document \<times> parse_report \<times> change_summary \<times> cache_state \<times> incremental_apply_stats"

text \<open>The touched entities, one after the other, and what follows the last; whether the document was compacted comes last.\<close>

definition redecide :: "system \<Rightarrow> 'c application \<Rightarrow> parse_policy \<Rightarrow> (entity_id \<Rightarrow> raw_entity option) \<Rightarrow> entity_id list \<Rightarrow>
    (int \<Rightarrow> int \<Rightarrow> bool) \<Rightarrow> 'c document \<Rightarrow> parse_report \<Rightarrow> ('c document \<times> parse_report \<times> change_summary \<times> bool) checked" where
  "redecide sys app policy lookup touched compacts d report =
     rbind (rfold (apply_entity sys app policy lookup) touched (new_document_builder d, report, [], empty_summary))
       (\<lambda>(d, report, unsupported, out).
     (let report = report_unsupported unsupported report in
      rbind (dead_arena_bytes d) (\<lambda>dead.
      rbind (live_arena_bytes d) (\<lambda>alive.
      rbind (if compacts dead alive then rbind (compact sys d) (\<lambda>d. Ok (d, True)) else Ok (d, False)) (\<lambda>(d, compacted).
      Ok (fst (freeze d), report, sort_summary out, compacted))))))"

definition apply_touched :: "system \<Rightarrow> 'c application \<Rightarrow> 'c document \<Rightarrow> op_graph \<Rightarrow> op_id \<Rightarrow> parse_policy \<Rightarrow> parse_report \<Rightarrow>
    incremental_apply_options \<Rightarrow> entity_id list \<Rightarrow> incremental_apply_stats \<Rightarrow> 'c applied checked" where
  "apply_touched sys app d g to policy report options touched stats =
     rbind (materialize_by g to touched (ao_cache options)) (\<lambda>(raw, cache).
     rbind (drop_for_entities touched report) (\<lambda>report.
     rbind (redecide sys app policy (document_try_get_entity raw) touched (ao_compacts options) d report)
       (\<lambda>(d, report, out, compacted). Ok (d, report, out, cache, stats\<lparr>as_compacted := compacted\<rparr>))))"

definition apply_document :: "system \<Rightarrow> 'c application \<Rightarrow> 'c document \<Rightarrow> op_graph \<Rightarrow> op_id \<Rightarrow> op_id \<Rightarrow> parse_policy \<Rightarrow> parse_report \<Rightarrow>
    incremental_apply_options \<Rightarrow> 'c applied checked" where
  "apply_document sys app d g from to policy report options =
     (let chain = (if ao_force_full_reparse options then no_chain\<lparr>cw_reason := AF_forced\<rparr>
                   else walk_chain g from to (ao_max_chain_ops options)) in
      if \<not> cw_found chain
      then
        rbind (full_reparse sys app d g to policy report empty_summary (ao_cache options)) (\<lambda>(d, report, out, cache).
        Ok (d, report, out, cache, default_apply_stats\<lparr>as_fallback_reason := cw_reason chain\<rparr>))
      else
        rbind (change_set_of (cw_ops chain)) (\<lambda>dirty.
        rbind (coarsen_to dirty CG_entity) (\<lambda>dirty.
        rbind (change_set_entities dirty) (\<lambda>touched.
          (let stats = default_apply_stats\<lparr>as_took_fast_path := True, as_chain_ops := length (cw_ops chain),
                 as_touched_entities := length touched\<rparr> in
           if touched = [] then Ok (d, report, empty_summary, ao_cache options, stats)
           else apply_touched sys app d g to policy report options touched stats)))))"

subsection \<open>Raw documents, entity by entity\<close>

definition only_entity :: "entity_id \<Rightarrow> raw_document \<Rightarrow> raw_document" where
  "only_entity e d = \<lparr>rd_entities = filter (\<lambda>x. fst x = e) (rd_entities d)\<rparr>"

lemma map_of_filter_key: "map_of (filter (\<lambda>x. fst x = k) xs) i = (if i = k then map_of xs k else None)"
  by (induction xs) auto

lemma document_wf_lookup: "document_wf d \<Longrightarrow> document_try_get_entity d = map_of (rd_entities d)"
  by (rule ext) (simp add: document_wf_def document_try_get_entity_def level.lookup_map_of)

lemma only_entity_wf: "document_wf d \<Longrightarrow> document_wf (only_entity e d)"
proof -
  assume d: "document_wf d"
  have "sorted_wrt (<) (map fst xs) \<Longrightarrow> sorted_wrt (<) (map fst (filter P xs))" for P and xs :: "(entity_id \<times> raw_entity) list"
    by (simp add: sorted_wrt_map sorted_wrt_filter)
  with d show ?thesis by (auto simp: document_wf_def only_entity_def)
qed

lemma only_entity_get:
  assumes "document_wf d"
  shows "document_try_get (only_entity e d) p = (if pp_entity p = e then document_try_get d p else None)"
  unfolding document_try_get_def document_wf_lookup [OF assms] document_wf_lookup [OF only_entity_wf [OF assms]]
  by (simp add: only_entity_def map_of_filter_key)

text \<open>An entity is what its paths hold.\<close>

lemma entity_ext:
  assumes "document_wf d" "document_wf d'" "\<And>p. pp_entity p = e \<Longrightarrow> document_try_get d p = document_try_get d' p"
  shows "map_of (rd_entities d) e = map_of (rd_entities d') e"
proof -
  have "only_entity e d = only_entity e d'"
    using assms by (intro document_ext only_entity_wf) (simp_all add: only_entity_get)
  then have "filter (\<lambda>x. fst x = e) (rd_entities d) = filter (\<lambda>x. fst x = e) (rd_entities d')" by (simp add: only_entity_def)
  then show ?thesis using map_of_filter_key [of e "rd_entities d" e] map_of_filter_key [of e "rd_entities d'" e] by simp
qed

text \<open>What materialization returns can be parsed.\<close>

lemma op_assignment_list_encoded:
  assumes "payload_valid o1" "op_assignment_list o1 = Ok as" "a \<in> set as"
  shows "encoded_value (a_value a)"
proof (cases "o_payload o1")
  case None
  with assms(2,3) show ?thesis
    by (simp add: op_assignment_list_def op_assignments_def empty_cursor_def collect_assignments.simps at_end_def)
next
  case (Some p)
  show ?thesis
  proof (cases "assignment_bytes p = []")
    case True
    with Some assms(2,3) show ?thesis
      by (simp add: op_assignment_list_def op_assignments_def empty_cursor_def collect_assignments.simps at_end_def
          cursor_from_validated_bytes_def)
  next
    case False
    with assms(1) Some have "blob_body (assignment_bytes p)" by (simp add: payload_valid_def)
    then obtain bs where bs: "length bs < 2 ^ 32" "assignments_ok None bs" "assignment_bytes p = blob bs" by (auto simp: blob_body_def)
    then have ok: "\<forall>a \<in> set bs. assignment_ok a" by (simp add: assignments_ok_def)
    have "holds_at (blob bs) 5 (enc_assignments bs)" by (simp add: holds_at_def blob_def del: le_bytes.simps)
    from collect_assignments_enc [OF ok this]
    have "op_assignment_list o1 = Ok bs"
      using op_assignments_blob [OF Some bs(3,1), where 'e = unit] by (simp add: op_assignment_list_def)
    with assms(2,3) ok have "assignment_ok a" by simp
    moreover have "encoded_value of_null" unfolding encoded_value_def by (rule exI [of _ VNull]) (simp add: of_null_def)
    ultimately show ?thesis by (auto simp: assignment_ok_def value_ok_def encoded_value_def simp del: enc.simps split: if_splits)
  qed
qed

lemma assignment_encoded:
  assumes "payloads_valid g" "assignment_at g r p = Some a"
  shows "encoded_value (a_value a)"
proof -
  from assms(2) have a: "a \<in> set (op_writes g r)" by (auto simp: assignment_at_def dest: map_of_SomeD)
  then obtain o1 where o1: "find_op g r = Some o1" by (cases "find_op g r") (auto simp: op_writes_def)
  have "payload_valid o1" using assms(1) o1 by (auto simp: payloads_valid_def find_op_def dest: map_of_SomeD)
  from op_assignment_list_encoded [OF this op_writes_Ok(1) [OF assms(1) o1] a] show ?thesis .
qed

lemma readable_documentI:
  assumes wf: "document_wf d" and each: "\<And>p v. document_try_get d p = Some v \<Longrightarrow> readable_property v"
  shows "readable_document d"
proof -
  have "readable_property v" if "(e, ent) \<in> set (rd_entities d)" "(c, cmp) \<in> set (re_components ent)" "(q, v) \<in> set (rc_properties cmp)"
    for e ent c cmp q v
    using each [of "Property_path e c q" v] that document_try_get_Some_iff [OF wf, of "Property_path e c q" v]
    by (auto simp: in_flatten_iff)
  with wf show ?thesis
    by (force simp: readable_document_def readable_entity_def readable_component_def document_wf_def entity_wf_def component_wf_def)
qed

lemma current_document_readable:
  assumes "payloads_valid g" "current_document g heads es d"
  shows "readable_document d"
proof (rule readable_documentI)
  show "document_wf d" using assms(2) by (simp add: current_document_def)
  fix p v assume "document_try_get d p = Some v"
  with assms(2) have v: "rp_writers v \<noteq> []" "set (rp_writers v) = current_values g (history g) (reached g heads) p"
    by (auto simp: current_document_def)
  have "encoded_value (pv_value w)" if "w \<in> set (rp_writers v)" for w
    using that v(2) assignment_encoded [OF assms(1)] by (auto simp: current_values_def)
  with v(1) show "readable_property v" by (simp add: readable_property_def)
qed

subsection \<open>The chain is the whole delta\<close>

lemma walk_steps_untouched:
  assumes g: "graph_ok g" "payloads_valid g" "acyclic (history g)"
    and "cw_found (walk_steps g from at ops n)" "current_document g [from] [] raw0" "current_document g [at] [] raw1"
  shows "\<exists>more. cw_ops (walk_steps g from at ops n) = ops @ more \<and> (\<forall>o1 \<in> set more. find_op g (o_id o1) = Some o1) \<and>
    (\<forall>p. (\<forall>o1 \<in> set more. assignment_at g (o_id o1) p = None) \<longrightarrow> document_try_get raw1 p = document_try_get raw0 p)"
  using assms(4-6)
proof (induction n arbitrary: at ops raw1)
  case 0
  then show ?case by (simp add: no_chain_def)
next
  case (Suc n)
  from Suc.prems(1) obtain o1 where o1: "find_op g at = Some o1" by (auto simp: no_chain_def split: option.splits)
  have id: "o_id o1 = at" by (rule find_op_id [OF g(1) o1])
  from Suc.prems(1) o1 have sk: "\<not> is_skeleton o1" "length (o_parents o1) = 1" by (auto simp: no_chain_def split: if_splits)
  then obtain q where q: "o_parents o1 = [q]" by (auto simp: length_Suc_conv)
  have top: "document_try_get raw1 p = document_try_get rq p" if "current_document g [q] [] rq" "assignment_at g at p = None" for rq p
    using current_document_top [OF g(3) o1, of "[]" rq raw1] that Suc.prems(3) q by simp
  show ?case
  proof (cases "q = from")
    case True
    with Suc.prems(2) have "current_document g [q] [] raw0" by simp
    from top [OF this] True o1 sk q id show ?thesis by (intro exI [of _ "[o1]"]) (simp add: no_chain_def)
  next
    case False
    then have step: "walk_steps g from at ops (Suc n) = walk_steps g from q (ops @ [o1]) n" using o1 sk q by simp
    from materialize_current [OF g, of "[q]" "[]"] obtain rq where rq: "current_document g [q] [] rq" by blast
    from Suc.IH [OF _ Suc.prems(2) rq, of "ops @ [o1]"] Suc.prems(1) step obtain more where
      more: "cw_ops (walk_steps g from q (ops @ [o1]) n) = (ops @ [o1]) @ more" "\<forall>o1 \<in> set more. find_op g (o_id o1) = Some o1"
        "\<forall>p. (\<forall>o1 \<in> set more. assignment_at g (o_id o1) p = None) \<longrightarrow> document_try_get rq p = document_try_get raw0 p" by auto
    with step top [OF rq] o1 id show ?thesis by (intro exI [of _ "o1 # more"]) auto
  qed
qed

lemma walk_chain_untouched:
  assumes g: "graph_ok g" "payloads_valid g" "acyclic (history g)"
    and "cw_found (walk_chain g from to n)" "current_document g [from] [] raw0" "current_document g [to] [] raw1"
  shows "(\<forall>o1 \<in> set (cw_ops (walk_chain g from to n)). find_op g (o_id o1) = Some o1) \<and>
    (\<forall>p. (\<forall>o1 \<in> set (cw_ops (walk_chain g from to n)). assignment_at g (o_id o1) p = None) \<longrightarrow>
      document_try_get raw1 p = document_try_get raw0 p)"
proof (cases "to = from")
  case True
  with assms(5,6) current_document_unique have "raw1 = raw0" by blast
  with True show ?thesis by (simp add: walk_chain_def no_chain_def)
next
  case False
  with walk_steps_untouched [OF g _ assms(5,6), of "[]" n] assms(4) show ?thesis by (auto simp: walk_chain_def)
qed

text \<open>The entities an apply re-decides: exactly those a chain op assigned to.\<close>

definition chain_entities :: "op_graph \<Rightarrow> op list \<Rightarrow> entity_id set" where
  "chain_entities g ops = (\<Union>o1 \<in> set ops. (\<lambda>a. pp_entity (a_path a)) ` set (op_writes g (o_id o1)))"

lemma change_set_of_spec:
  assumes "payloads_valid g" "\<forall>o1 \<in> set ops. find_op g (o_id o1) = Some o1"
  shows "\<exists>dirty coarse es. change_set_of ops = Ok dirty \<and> coarsen_to dirty CG_entity = Ok coarse \<and>
    change_set_entities coarse = Ok es \<and> sorted_wrt (<) es \<and> set es = chain_entities g ops"
proof -
  have paths: "foldl (\<lambda>b a. builder_add b (a_path a)) b as = b\<lparr>cb_paths := cb_paths b @ map a_path as\<rparr>"
    if "\<not> cb_everything b" for as b
    using that by (induction as arbitrary: b) (simp_all add: builder_add_def)
  have "rfold add_assignments ops b = Ok (b\<lparr>cb_paths := cb_paths b @ concat (map (\<lambda>o1. map a_path (op_writes g (o_id o1))) ops)\<rparr>)"
    if "\<not> cb_everything b" "\<forall>o1 \<in> set ops. find_op g (o_id o1) = Some o1" for b ops
    using that
  proof (induction ops arbitrary: b)
    case (Cons o1 ops)
    have "op_assignment_list o1 = Ok (op_writes g (o_id o1))" using op_writes_Ok(1) [OF assms(1)] Cons.prems(2) by simp
    then have "add_assignments o1 b = Ok (b\<lparr>cb_paths := cb_paths b @ map a_path (op_writes g (o_id o1))\<rparr>)"
      using paths [OF Cons.prems(1)] by (simp add: add_assignments_def)
    with Cons.IH [of "b\<lparr>cb_paths := cb_paths b @ map a_path (op_writes g (o_id o1))\<rparr>"] Cons.prems show ?case by simp
  qed simp
  from this [of "new_change_set_builder CG_property", OF _ assms(2)]
  have dirty: "change_set_of ops = Ok (fst (build_change_set (new_change_set_builder CG_property
      \<lparr>cb_paths := concat (map (\<lambda>o1. map a_path (op_writes g (o_id o1))) ops)\<rparr>)))"
    by (simp add: change_set_of_def new_change_set_builder_def)
  define b where "b = new_change_set_builder CG_property \<lparr>cb_paths := concat (map (\<lambda>o1. map a_path (op_writes g (o_id o1))) ops)\<rparr>"
  have b: "cb_granularity b = CG_property" "\<not> cb_everything b" by (simp_all add: b_def new_change_set_builder_def)
  have built: "change_set_reachable (fst (build_change_set b))" by (rule cs_built)
  have gran: "cs_granularity (fst (build_change_set b)) = CG_property" "\<not> cs_everything (fst (build_change_set b))"
    using b by (simp_all add: build_change_set_def impl_normalize_def empty_change_set_def Let_def)
  note ok = change_set_reachable_ok [OF built]
  from coarsen_to_spec [OF ok, of CG_entity] gran obtain c where
    c: "coarsen_to (fst (build_change_set b)) CG_entity = Ok c" "change_set_ok c" "\<not> cs_everything c"
      "covered c = widened CG_entity (covered (fst (build_change_set b)))" by (auto simp: granularity_rank_def)
  have "change_set_reachable c" using built c(1) by (rule cs_coarsened)
  from change_set_entities_exact [OF this] c(3) obtain es where
    es: "change_set_entities c = Ok es" "sorted_wrt (<) es" "\<forall>e. e \<in> set es \<longleftrightarrow> covers_entity c e" by auto
  have "covers (fst (build_change_set b)) p \<longleftrightarrow> p \<in> set (cb_paths b)" for p
    unfolding covers_built b(1) using b(2) by (auto simp: blanked_def)
  then have cov: "covered (fst (build_change_set b)) = set (cb_paths b)" using covers_iff [OF ok] by blast
  have "covers_entity c e \<longleftrightarrow> (\<exists>p \<in> set (cb_paths b). pp_entity p = e)" for e
    unfolding covers_entity_iff [OF c(2)] c(4) cov
    by (auto simp: widened_def blanked_def; metis property_path.sel(1))
  moreover have "(\<exists>p \<in> set (cb_paths b). pp_entity p = e) \<longleftrightarrow> e \<in> chain_entities g ops" for e
    by (auto simp: b_def chain_entities_def)
  ultimately have "set es = chain_entities g ops" using es(3) by blast
  with dirty c(1) es(1,2) show ?thesis unfolding b_def [symmetric] by blast
qed

end
