(* ===== verification/Apply_Delta.thy ===== *)
theory Apply_Delta
  imports Incremental_Parse
begin

text \<open>
  The incremental apply is a re-parse: re-deciding one entity makes the document show what interpretation says of it and leaves the
  others alone, a chain of single-parent edges has no other delta than what its ops assigned to, and the slow path parses afresh.
\<close>

subsection \<open>Re-deciding one entity\<close>

lemma doc_component_listed:
  assumes "document_ok d" "doc_component d t e \<noteq> None"
  shows "t \<in> set (component_types d)"
proof -
  have "columns_hold (td_columns d) (doc_columns d)" using assms(1) by (simp add: document_ok_def document_holds_def)
  from columns_hold_types(1) [OF this] have "component_types d = map (\<lambda>(s, xs). cs_type s) (doc_columns d)"
    by (simp add: component_types_def)
  with assms(2) show ?thesis
    by (fastforce simp: doc_component_def component_in_def split: option.splits dest!: map_of_SomeD)
qed

lemma rfold_total: "(\<And>x st. \<exists>st'. f x st = Ok st') \<Longrightarrow> \<exists>st'. rfold f xs st = Ok st'"
proof (induction xs arbitrary: st)
  case (Cons x xs)
  from Cons.prems obtain st' where "f x st = Ok st'" by blast
  with Cons.IH [OF Cons.prems, of st'] show ?case by simp
qed simp

lemma record_all_components_total:
  assumes "document_ok d"
  shows "\<exists>out'. record_all_components d e k out = Ok out'"
  unfolding record_all_components_def by (rule rfold_total) (simp add: document_queries_ok(2) [OF assms])

lemma withdraw_entity_ok:
  assumes "document_ok d"
  shows "\<exists>d' out'. withdraw_entity e d out = Ok (d', out') \<and> document_ok d' \<and> doc_schemas d' \<subseteq> doc_schemas d \<and>
    set (doc_entities d') = set (doc_entities d) - {e} \<and>
    (\<forall>t x. doc_component d' t x = (if x = e then None else doc_component d t x))"
proof -
  from record_all_components_total [OF assms] obtain out' where out': "record_all_components d e CK_removed out = Ok out'" by blast
  from remove_typed_entity_ok [OF assms, of e] obtain d' where d': "remove_typed_entity e d = Ok (e \<in> set (doc_entities d), d')"
    "document_ok d'" "set (doc_entities d') = set (doc_entities d) - {e}" "doc_schemas d' \<subseteq> doc_schemas d"
    "\<forall>t x. doc_component d' t x = (if x = e then None else doc_component d t x)" by blast
  have "withdraw_entity e d out = Ok (d', record_entity e CK_removed out')" by (simp add: withdraw_entity_def out' d'(1))
  with d'(2-5) show ?thesis by blast
qed

lemma drop_unwanted_ok:
  assumes "document_ok d"
  shows "\<exists>d' out'. rfold (drop_unwanted wanted e) ts (d, out) = Ok (d', out') \<and> document_ok d' \<and> doc_schemas d' \<subseteq> doc_schemas d \<and>
    doc_entities d' = doc_entities d \<and>
    (\<forall>t x. doc_component d' t x = (if x = e \<and> t \<in> set ts \<and> t \<notin> sc_type ` set wanted then None else doc_component d t x))"
  using assms
proof (induction ts arbitrary: d out)
  case (Cons t ts)
  have wanted: "list_ex (\<lambda>sc. sc_type sc = t) wanted \<longleftrightarrow> t \<in> sc_type ` set wanted" by (auto simp: list_ex_iff)
  show ?case
  proof (cases "t \<in> sc_type ` set wanted \<or> doc_component d t e = None")
    case True
    then have "drop_unwanted wanted e t (d, out) = Ok (d, out)"
      by (auto simp: drop_unwanted_def wanted document_queries_ok(2) [OF Cons.prems])
    with Cons.IH [OF Cons.prems, of out] True show ?thesis by auto
  next
    case False
    from remove_typed_component_ok [OF Cons.prems, of t e] False obtain d1 where d1: "remove_typed_component t e d = Ok (True, d1)"
      "document_ok d1" "doc_entities d1 = doc_entities d" "doc_schemas d1 \<subseteq> doc_schemas d"
      "doc_component d1 = (doc_component d)(t := (doc_component d t)(e := None))" by auto
    have step: "drop_unwanted wanted e t (d, out) = Ok (d1, record_component e t CK_removed out)"
      using False by (auto simp: drop_unwanted_def wanted document_queries_ok(2) [OF Cons.prems] d1(1))
    from Cons.IH [OF d1(2), of "record_component e t CK_removed out"] obtain d' out' where
      "rfold (drop_unwanted wanted e) ts (d1, record_component e t CK_removed out) = Ok (d', out')" "document_ok d'"
      "doc_schemas d' \<subseteq> doc_schemas d1" "doc_entities d' = doc_entities d1"
      "\<forall>t x. doc_component d' t x = (if x = e \<and> t \<in> set ts \<and> t \<notin> sc_type ` set wanted then None else doc_component d1 t x)" by blast
    with step d1 False show ?thesis by (intro exI [of _ d'] exI [of _ out']) auto
  qed
qed simp

text \<open>A document that shows, at an entity, what interpreting a source gives there.\<close>

definition shows_at :: "(component_type_id \<Rightarrow> component_schema option) \<Rightarrow> (entity_id \<Rightarrow> raw_entity \<Rightarrow> bool \<times> parse_report) \<Rightarrow>
    (property_path \<Rightarrow> property_value list \<Rightarrow> value_view option \<times> parse_report) \<Rightarrow> 'c application \<Rightarrow>
    (entity_id \<Rightarrow> raw_entity option) \<Rightarrow> 'c document \<Rightarrow> entity_id \<Rightarrow> bool" where
  "shows_at known present pick app lookup d e \<longleftrightarrow> (e \<in> set (doc_entities d) \<longleftrightarrow> survives lookup present e) \<and>
     (\<forall>t. doc_component d t e = interpret_component known present pick app lookup t e)"

definition schemas_known :: "(component_type_id \<Rightarrow> component_schema option) \<Rightarrow> 'c document \<Rightarrow> bool" where
  "schemas_known known d \<longleftrightarrow> (\<forall>s \<in> doc_schemas d. known (cs_type s) = Some s)"

text \<open>Nothing but one entity differs.\<close>

definition same_elsewhere :: "entity_id \<Rightarrow> 'c document \<Rightarrow> 'c document \<Rightarrow> bool" where
  "same_elsewhere e d d' \<longleftrightarrow> (\<forall>x. x \<noteq> e \<longrightarrow> (x \<in> set (doc_entities d') \<longleftrightarrow> x \<in> set (doc_entities d)) \<and>
     (\<forall>t. doc_component d' t x = doc_component d t x))"

context parse_rules
begin

lemma set_selected_ok:
  fixes app :: "'c application"
  assumes movable: "\<forall>t s. known t = Some s \<longrightarrow> cs_relocate_range s \<noteq> 0"
    and "document_ok d" "schemas_known known d" "e \<in> set (doc_entities d)"
    and "\<forall>sc \<in> set scs. known (sc_type sc) = Some (sc_schema sc) \<and> readable_component (sc_raw sc)" "distinct (map sc_type scs)"
  shows "\<exists>d' r' out'. rfold (set_selected sys app policy e) scs (d, r, out) = Ok (d', r', out') \<and> document_ok d' \<and>
    schemas_known known d' \<and> doc_entities d' = doc_entities d \<and>
    (\<forall>t x. doc_component d' t x = (if x = e then (case find (\<lambda>sc. sc_type sc = t) scs of
         None \<Rightarrow> doc_component d t e
       | Some sc \<Rightarrow> fst (build_of pick app t (sc_schema sc) (candidate_of (e, sc)))) else doc_component d t x))"
  using assms(2-)
proof (induction scs arbitrary: d r out)
  case (Cons sc scs)
  let ?b = "build_of pick app (sc_type sc) (sc_schema sc) (candidate_of (e, sc))"
  let ?reader = "\<lparr>prd_raw = sc_raw sc, prd_policy = policy, prd_entity = e, prd_component = sc_type sc, prd_schema_version = sc_version sc\<rparr>"
  have known1: "known (sc_type sc) = Some (sc_schema sc)" and read: "readable_component (sc_raw sc)" using Cons.prems(4) by simp_all
  note schema = known_schema [OF known1]
  have con: "parse_component_into app (cs_parse_into (sc_schema sc)) ?reader r = Ok (fst ?b, report_add r (snd ?b))"
    using yieldsD [OF run_program_yields [of ?reader]] read by (simp add: parse_component_into_def build_of_def candidate_of_def)
  have "schema_fits (sc_schema sc) d"
    using movable known1 schema Cons.prems(2) by (auto simp: schema_fits_def schemas_known_def)
  from set_typed_component_ok [OF Cons.prems(1,3) this, of "parse_component_into app (cs_parse_into (sc_schema sc)) ?reader", OF con, of sys] obtain d1 k where d1:
    "set_typed_component sys (sc_schema sc) e (parse_component_into app (cs_parse_into (sc_schema sc)) ?reader) (d, r) =
      Ok (k, d1, report_add r (snd ?b))" "document_ok d1" "doc_entities d1 = doc_entities d"
    "doc_schemas d1 \<subseteq> insert (sc_schema sc) (doc_schemas d)"
    "doc_component d1 = (doc_component d)(sc_type sc := (doc_component d (sc_type sc))(e := fst ?b))"
    using schema by auto
  have sk: "schemas_known known d1" using d1(4) Cons.prems(2) known1 schema by (auto simp: schemas_known_def)
  have step: "set_selected sys app policy e sc (d, r, out) = Ok (d1, report_add r (snd ?b), record_component e (sc_type sc) k out)"
    by (simp add: set_selected_def Let_def d1(1))
  from Cons.IH [OF d1(2) sk, of "report_add r (snd ?b)" "record_component e (sc_type sc) k out"] Cons.prems(3-5) d1(3)
  obtain d' r' out' where d': "rfold (set_selected sys app policy e) scs
        (d1, report_add r (snd ?b), record_component e (sc_type sc) k out) = Ok (d', r', out')"
      "document_ok d'" "schemas_known known d'" "doc_entities d' = doc_entities d1"
      "\<forall>t x. doc_component d' t x = (if x = e then (case find (\<lambda>sc. sc_type sc = t) scs of
         None \<Rightarrow> doc_component d1 t e
       | Some sc \<Rightarrow> fst (build_of pick app t (sc_schema sc) (candidate_of (e, sc)))) else doc_component d1 t x)" by auto
  have "find (\<lambda>sc'. sc_type sc' = sc_type sc) scs = None" using Cons.prems(5) by (auto simp: find_None_iff image_iff)
  with d'(5) d1(5) have "\<forall>t x. doc_component d' t x = (if x = e then (case find (\<lambda>sc. sc_type sc = t) (sc # scs) of
         None \<Rightarrow> doc_component d t e
       | Some sc \<Rightarrow> fst (build_of pick app t (sc_schema sc) (candidate_of (e, sc)))) else doc_component d t x)"
    by (auto split: option.split)
  with d' d1(3) step show ?case by (intro exI [of _ d'] exI [of _ r'] exI [of _ out']) simp
qed simp

lemma interpret_find:
  assumes "readable_source lookup [e]"
  shows "interpret_component known present pick app lookup t e = (case find (\<lambda>sc. sc_type sc = t) (picked_at known present lookup e) of
    None \<Rightarrow> None | Some sc \<Rightarrow> fst (build_of pick app t (sc_schema sc) (candidate_of (e, sc))))"
  using readable_sourceD [OF assms, of e]
  by (auto simp: picked_at_def interpret_component_def selected_of_types(2) readable_entity_def strict_sorted_iff split: option.split)

lemma picked_at_ok:
  assumes "readable_source lookup [e]"
  shows "\<forall>sc \<in> set (picked_at known present lookup e). known (sc_type sc) = Some (sc_schema sc) \<and> readable_component (sc_raw sc)"
    and "distinct (map sc_type (picked_at known present lookup e))"
proof -
  show "distinct (map sc_type (picked_at known present lookup e))"
    using readable_sourceD [OF assms, of e]
    by (auto simp: picked_at_def readable_entity_def strict_sorted_iff selected_of_types(1) split: option.split)
  show "\<forall>sc \<in> set (picked_at known present lookup e). known (sc_type sc) = Some (sc_schema sc) \<and> readable_component (sc_raw sc)"
  proof
    fix sc assume "sc \<in> set (picked_at known present lookup e)"
    from picked_at_verdict [OF this] obtain raw where raw: "lookup e = Some raw" "known (sc_type sc) = Some (sc_schema sc)"
      "sc_raw sc \<in> snd ` set (re_components raw)" by blast
    with readable_sourceD [OF assms, of e raw] show "known (sc_type sc) = Some (sc_schema sc) \<and> readable_component (sc_raw sc)"
      by (auto simp: readable_entity_def)
  qed
qed

lemma apply_entity_ok:
  fixes app :: "'c application"
  assumes movable: "\<forall>t s. known t = Some s \<longrightarrow> cs_relocate_range s \<noteq> 0"
    and d: "document_ok d" "schemas_known known d" and read: "readable_source lookup0 [e]"
  shows "\<exists>d' r' u' out'. apply_entity sys app policy lookup0 e (d, r, u, out) = Ok (d', r', u', out') \<and> document_ok d' \<and>
    schemas_known known d' \<and> shows_at known present pick app lookup0 d' e \<and> same_elsewhere e d d'"
proof -
  let ?lookup = lookup0
  let ?picked = "picked_at known present ?lookup e"
  obtain r1 u1 where sel: "(case ?lookup e of None \<Rightarrow> Ok (\<lparr>es_instantiate = False, es_components = []\<rparr>, r, u)
      | Some ent \<Rightarrow> select_entity policy e ent (r, u)) =
      (Ok (\<lparr>es_instantiate = survives ?lookup present e, es_components = ?picked\<rparr>, r1, u1) ::
        (entity_selection \<times> parse_report \<times> component_type_id list) checked)"
  proof (cases "?lookup e")
    case None
    then show ?thesis using that by (simp add: survives_def picked_at_def)
  next
    case (Some ent)
    with readable_sourceD [OF read, of e ent] have "readable_entity ent" by simp
    from select_entity_eq [OF this, of e r u] Some show ?thesis using that by (simp add: survives_def picked_at_def)
  qed
  have gone: "?picked = []" if "\<not> survives ?lookup present e"
    using that by (auto simp: survives_def picked_at_def split: option.splits)
  show ?thesis
  proof (cases "survives ?lookup present e")
    case False
    note none = interpret_find [OF read, where app = app] gone [OF False]
    show ?thesis
    proof (cases "e \<in> set (doc_entities d)")
      case True
      from withdraw_entity_ok [OF d(1), of e out] obtain d' out' where d': "withdraw_entity e d out = Ok (d', out')" "document_ok d'"
        "doc_schemas d' \<subseteq> doc_schemas d" "set (doc_entities d') = set (doc_entities d) - {e}"
        "\<forall>t x. doc_component d' t x = (if x = e then None else doc_component d t x)" by blast
      have "schemas_known known d'" using d(2) d'(3) by (auto simp: schemas_known_def)
      moreover have "apply_entity sys app policy lookup0 e (d, r, u, out) = Ok (d', r1, u1, out')"
        by (simp add: apply_entity_def sel document_queries_ok(1) [OF d(1)] True False d'(1))
      moreover have "shows_at known present pick app ?lookup d' e" using d'(4,5) False none by (simp add: shows_at_def)
      moreover have "same_elsewhere e d d'" using d'(4,5) by (simp add: same_elsewhere_def)
      ultimately show ?thesis using d'(2) by blast
    next
      case absent: False
      have "doc_component d t e = None" for t using document_component_entity [OF d(1), of t e] absent by blast
      then have "shows_at known present pick app ?lookup d e" using False absent none by (simp add: shows_at_def)
      moreover have "apply_entity sys app policy lookup0 e (d, r, u, out) = Ok (d, r1, u1, out)"
        by (simp add: apply_entity_def sel document_queries_ok(1) [OF d(1)] absent False)
      ultimately show ?thesis using d by (auto simp: same_elsewhere_def)
    qed
  next
    case True
    obtain d1 out1 where d1: "(if e \<in> set (doc_entities d) then Ok (d, record_entity e CK_modified out)
        else rbind (insert_entity sys e d) (\<lambda>(_, d). Ok (d, record_entity e CK_added out))) = Ok (d1, out1)"
      "document_ok d1" "schemas_known known d1" "set (doc_entities d1) = insert e (set (doc_entities d))" "doc_component d1 = doc_component d"
    proof (cases "e \<in> set (doc_entities d)")
      case True
      with d that show ?thesis by auto
    next
      case False
      from insert_entity_ok [OF d(1), of sys e] False d(2) that show ?thesis by (force simp: schemas_known_def)
    qed
    from drop_unwanted_ok [OF d1(2), of ?picked e "component_types d1" out1] obtain d2 out2 where d2:
      "rfold (drop_unwanted ?picked e) (component_types d1) (d1, out1) = Ok (d2, out2)" "document_ok d2" "doc_schemas d2 \<subseteq> doc_schemas d1"
      "doc_entities d2 = doc_entities d1" "\<forall>t x. doc_component d2 t x =
        (if x = e \<and> t \<in> set (component_types d1) \<and> t \<notin> sc_type ` set ?picked then None else doc_component d1 t x)" by blast
    have sk2: "schemas_known known d2" using d1(3) d2(3) by (auto simp: schemas_known_def)
    have e2: "e \<in> set (doc_entities d2)" using d2(4) d1(4) by simp
    from set_selected_ok [OF movable d2(2) sk2 e2 picked_at_ok [OF read], of sys app r1 out2] obtain d3 r3 out3 where d3:
      "rfold (set_selected sys app policy e) ?picked (d2, r1, out2) = Ok (d3, r3, out3)" "document_ok d3" "schemas_known known d3"
      "doc_entities d3 = doc_entities d2" "\<forall>t x. doc_component d3 t x = (if x = e then (case find (\<lambda>sc. sc_type sc = t) ?picked of
         None \<Rightarrow> doc_component d2 t e
       | Some sc \<Rightarrow> fst (build_of pick app t (sc_schema sc) (candidate_of (e, sc)))) else doc_component d2 t x)" by blast
    have run: "apply_entity sys app policy lookup0 e (d, r, u, out) = Ok (d3, r3, u1, out3)"
      by (simp add: apply_entity_def sel document_queries_ok(1) [OF d(1)] True d1(1) d2(1) d3(1))
    have "doc_component d2 t e = None" if "find (\<lambda>sc. sc_type sc = t) ?picked = None" for t
    proof (cases "doc_component d1 t e")
      case None
      with d2(5) show ?thesis by simp
    next
      case Some
      then have "t \<in> set (component_types d1)" by (intro doc_component_listed [OF d1(2), of t e]) simp
      with that d2(5) show ?thesis by (auto simp: find_None_iff)
    qed
    then have "shows_at known present pick app ?lookup d3 e"
      using True e2 d3(4,5) by (auto simp: shows_at_def interpret_find [OF read] split: option.split)
    moreover have "same_elsewhere e d d3" using d1(4,5) d2(4,5) d3(4,5) by (auto simp: same_elsewhere_def)
    ultimately show ?thesis using run d3(2,3) by blast
  qed
qed

end

subsection \<open>Re-deciding the touched entities\<close>

lemma shows_at_local:
  "lookup e = lookup' e \<Longrightarrow> shows_at known present pick app lookup d e \<longleftrightarrow> shows_at known present pick app lookup' d e"
  by (simp add: shows_at_def survives_def interpret_component_def)

lemma shows_at_elsewhere:
  "same_elsewhere x d d' \<Longrightarrow> e \<noteq> x \<Longrightarrow> shows_at known present pick app lookup d' e \<longleftrightarrow> shows_at known present pick app lookup d e"
  by (simp add: same_elsewhere_def shows_at_def)

text \<open>Everything a document shows is unchanged, though its storage may not be.\<close>

definition same_view :: "'c document \<Rightarrow> 'c document \<Rightarrow> bool" where
  "same_view d d' \<longleftrightarrow> doc_entities d' = doc_entities d \<and> doc_component d' = doc_component d \<and> doc_schemas d' = doc_schemas d"

lemma shows_at_same_view:
  "same_view d d' \<Longrightarrow> shows_at known present pick app lookup d' e \<longleftrightarrow> shows_at known present pick app lookup d e"
  by (simp add: same_view_def shows_at_def)

context parse_rules
begin

lemma apply_entities_ok:
  fixes app :: "'c application"
  assumes movable: "\<forall>t s. known t = Some s \<longrightarrow> cs_relocate_range s \<noteq> 0"
    and "document_ok d" "schemas_known known d" "readable_source lookup0 es" "distinct es"
  shows "\<exists>d' r' u' out'. rfold (apply_entity sys app policy lookup0) es (d, r, u, out) = Ok (d', r', u', out') \<and> document_ok d' \<and>
    schemas_known known d' \<and> (\<forall>e \<in> set es. shows_at known present pick app lookup0 d' e) \<and>
    (\<forall>lookup. \<forall>e. e \<notin> set es \<longrightarrow> (shows_at known present pick app lookup d' e \<longleftrightarrow> shows_at known present pick app lookup d e))"
  using assms(2-)
proof (induction es arbitrary: d r u out)
  case (Cons e es)
  have "readable_source lookup0 [e]" "readable_source lookup0 es"
    using Cons.prems(3) by (simp_all add: readable_source_def)
  from apply_entity_ok [OF movable Cons.prems(1,2) this(1), of sys app r u out] obtain d1 r1 u1 out1 where d1:
    "apply_entity sys app policy lookup0 e (d, r, u, out) = Ok (d1, r1, u1, out1)" "document_ok d1" "schemas_known known d1"
    "shows_at known present pick app lookup0 d1 e" "same_elsewhere e d d1" by blast
  from Cons.IH [OF d1(2,3) \<open>readable_source lookup0 es\<close>, of r1 u1 out1] Cons.prems(4)
  obtain d' r' u' out' where d': "rfold (apply_entity sys app policy lookup0) es (d1, r1, u1, out1) = Ok (d', r', u', out')" "document_ok d'"
    "schemas_known known d'" "\<forall>e \<in> set es. shows_at known present pick app lookup0 d' e"
    "\<forall>lookup. \<forall>e. e \<notin> set es \<longrightarrow> (shows_at known present pick app lookup d' e \<longleftrightarrow> shows_at known present pick app lookup d1 e)" by auto
  have "\<forall>x \<in> set (e # es). shows_at known present pick app lookup0 d' x"
    using d'(4,5) d1(4) Cons.prems(4) by simp
  moreover have "\<forall>lookup. \<forall>x. x \<notin> set (e # es) \<longrightarrow> (shows_at known present pick app lookup d' x \<longleftrightarrow> shows_at known present pick app lookup d x)"
    using d'(5) shows_at_elsewhere [OF d1(5)] by simp
  moreover have "rfold (apply_entity sys app policy lookup0) (e # es) (d, r, u, out) = Ok (d', r', u', out')" using d1(1) d'(1) by simp
  ultimately show ?case using d'(2,3) by blast
qed simp

lemma redecide_ok:
  fixes app :: "'c application"
  assumes movable: "\<forall>t s. known t = Some s \<longrightarrow> cs_relocate_range s \<noteq> 0"
    and d: "document_ok d" "schemas_known known d" and read: "readable_source lookup0 touched" and es: "distinct touched"
  shows "\<exists>d' r' out' b. redecide sys app policy lookup0 touched compacts d r = Ok (d', r', out', b) \<and>
    document_ok d' \<and> schemas_known known d' \<and> (\<forall>e \<in> set touched. shows_at known present pick app lookup0 d' e) \<and>
    (\<forall>lookup. \<forall>e. e \<notin> set touched \<longrightarrow> (shows_at known present pick app lookup d' e \<longleftrightarrow> shows_at known present pick app lookup d e))"
proof -
  have new: "new_document_builder d = d" using d(1) by (simp add: new_document_builder_def document_ok_def)
  from apply_entities_ok [OF movable d read es, of sys app r "[]" empty_summary] obtain d1 r1 u1 out1 where d1:
    "rfold (apply_entity sys app policy lookup0) touched (d, r, [], empty_summary) = Ok (d1, r1, u1, out1)" "document_ok d1"
    "schemas_known known d1" "\<forall>e \<in> set touched. shows_at known present pick app lookup0 d1 e"
    "\<forall>lookup. \<forall>e. e \<notin> set touched \<longrightarrow> (shows_at known present pick app lookup d1 e \<longleftrightarrow> shows_at known present pick app lookup d e)" by blast
  from d1(2) obtain a where a: "td_arena d1 = Some a" by (auto simp: document_ok_def)
  let ?c = "compacts (da_dead_bytes a) (arena_live_bytes a)"
  obtain d2 b where d2: "(if ?c then rbind (compact sys d1) (\<lambda>d. Ok (d, True)) else Ok (d1, False)) =
      (Ok (d2, b) :: ('c document \<times> bool) checked)" "document_ok d2" "same_view d1 d2"
  proof (cases ?c)
    case True
    from compact_ok [OF d1(2), of sys] True that show ?thesis by (force simp: same_view_def)
  next
    case False
    with d1(2) that [of d1 False] show ?thesis by (simp add: same_view_def)
  qed
  have "redecide sys app policy lookup0 touched compacts d r = Ok (d2, report_unsupported u1 r1, sort_summary out1, b)"
    using d2(1) by (simp add: redecide_def new d1(1) dead_arena_bytes_def live_arena_bytes_def a Let_def freeze_def move_document_def)
  moreover have "schemas_known known d2" using d1(3) d2(3) by (simp add: schemas_known_def same_view_def)
  ultimately show ?thesis using d2(2) d1(4,5) shows_at_same_view [OF d2(3)] by blast
qed

end

subsection \<open>Applying\<close>

lemma chain_entities_untouched:
  "pp_entity q \<notin> chain_entities g ops \<Longrightarrow> \<forall>o1 \<in> set ops. assignment_at g (o_id o1) q = None"
  by (force simp: chain_entities_def assignment_at_def map_of_eq_None_iff)

lemma current_filtered:
  assumes "current_document g heads es d" "current_document g heads [] d'" "pp_entity q \<in> set es"
  shows "document_try_get d q = document_try_get d' q"
proof -
  have "document_try_get d q = Some v \<longleftrightarrow> document_try_get d' q = Some v" for v
    using assms by (simp add: current_document_def)
  then show ?thesis by (metis not_None_eq)
qed

text \<open>What a cache handed to the application must be: absent, or built over the same graph.\<close>

definition cache_fits :: "op_graph \<Rightarrow> cache_state \<Rightarrow> bool" where
  "cache_fits g cache \<longleftrightarrow> (case cache of None \<Rightarrow> True | Some c \<Rightarrow> \<exists>slack. cache_built slack g c)"

lemma materialize_by_ok:
  assumes g: "graph_ok g" "payloads_valid g" "acyclic (history g)" and "cache_fits g cache"
  shows "\<exists>raw cache'. materialize_by g to es cache = Ok (raw, cache') \<and> current_document g [to] es raw \<and> cache_fits g cache'"
proof (cases cache)
  case None
  with materialize_current [OF g, of "[to]" es] show ?thesis by (auto simp: materialize_by_def cache_fits_def)
next
  case (Some c)
  with assms(4) obtain slack where c: "cache_built slack g c" by (auto simp: cache_fits_def)
  from materialize_through_spec [OF g cache_built_ok [OF c g], of "[to]" es] obtain d where
    d: "materialize_through g [to] es c = Ok (d, sweep_finds g [to] c)" "current_document g [to] es d" by blast
  have "cache_built slack g (sweep_finds g [to] c)" using c d(1) by (rule built_materialize)
  with Some d show ?thesis by (auto simp: materialize_by_def cache_fits_def)
qed

text \<open>A document that shows exactly what interpreting a source under a policy gives.\<close>

definition shows_source :: "default_parse_policy \<Rightarrow> 'c application \<Rightarrow> (entity_id \<Rightarrow> raw_entity option) \<Rightarrow> 'c document \<Rightarrow> bool" where
  "shows_source p app lookup d \<longleftrightarrow> document_ok d \<and> schemas_known (default_known p) d \<and>
     (\<forall>e. shows_at (default_known p) default_present (default_pick p) app lookup d e)"

definition shows_document :: "default_parse_policy \<Rightarrow> 'c application \<Rightarrow> raw_document \<Rightarrow> 'c document \<Rightarrow> bool" where
  "shows_document p app raw d \<longleftrightarrow> shows_source p app (map_of (rd_entities raw)) d"

definition schemas_movable :: "default_parse_policy \<Rightarrow> bool" where
  "schemas_movable p \<longleftrightarrow> (\<forall>t s. default_known p t = Some s \<longrightarrow> cs_relocate_range s \<noteq> 0)"

lemma parse_from_shows:
  fixes app :: "'c application"
  assumes p: "default_ok p" and es: "sorted_wrt (<) es" and read: "readable_source lookup es" and rest: "\<And>e. e \<notin> set es \<Longrightarrow> lookup e = None"
  shows "\<exists>d r'. parse_from sys app es lookup (default_policy p) r = Ok (d, r') \<and> shows_source p app lookup d"
proof -
  from default_rules.parse_from_eq [OF es read, of sys app "lawful p" r] p obtain d where
    d: "parse_from sys app es lookup (default_policy p) r =
        Ok (d, report_add r (parse_findings (default_known p) default_present (default_pick p) app lookup es))"
      "document_ok d" "doc_entities d = filter (survives lookup default_present) es"
      "doc_schemas d \<subseteq> {s. \<exists>t. default_known p t = Some s}"
      "\<forall>t e. doc_component d t e = (if e \<in> set es then interpret_component (default_known p) default_present (default_pick p) app lookup t e else None)"
    by (auto simp: lawful_inverse)
  have "schemas_known (default_known p) d"
    using d(4) default_known_schema [OF p] by (fastforce simp: schemas_known_def)
  moreover have "shows_at (default_known p) default_present (default_pick p) app lookup d e" for e
  proof (cases "e \<in> set es")
    case False
    with d(3,5) rest [OF False] show ?thesis by (simp add: shows_at_def survives_def interpret_component_def)
  qed (use d(3,5) in \<open>simp add: shows_at_def\<close>)
  ultimately show ?thesis using d(1,2) by (auto simp: shows_source_def)
qed

lemma parse_shows:
  assumes "default_ok p" "readable_document raw"
  shows "\<exists>d r'. parse_document sys app raw (default_policy p) r = Ok (d, r') \<and> shows_document p app raw d"
proof -
  have srt: "sorted_wrt (<) (map fst (rd_entities raw))" using assms(2) by (simp add: readable_document_def)
  have get: "document_try_get_entity raw = map_of (rd_entities raw)"
    by (rule ext) (simp add: document_try_get_entity_def level.lookup_map_of [OF srt])
  have "readable_source (map_of (rd_entities raw)) (map fst (rd_entities raw))"
    using assms(2) by (force simp: readable_source_def readable_document_def dest: map_of_SomeD)
  from parse_from_shows [OF assms(1) srt this, of sys app r] show ?thesis
    by (auto simp: parse_document_def get shows_document_def map_of_eq_None_iff)
qed

lemma shows_source_unique:
  assumes "shows_source p app lookup d" "shows_source p app lookup d'"
  shows "doc_entities d = doc_entities d'" "doc_component d = doc_component d'"
proof -
  have "set (doc_entities d) = set (doc_entities d')" using assms by (auto simp: shows_source_def shows_at_def)
  with assms show "doc_entities d = doc_entities d'"
    by (intro sorted_wrt_less_unique document_ok_entities) (simp_all add: shows_source_def)
  show "doc_component d = doc_component d'" using assms by (auto simp: shows_source_def shows_at_def fun_eq_iff)
qed

text \<open>Re-deciding every entity whose source changed brings a document from one source to the other.\<close>

lemma redecide_shows:
  fixes app :: "'c application"
  assumes p: "default_ok p" "schemas_movable p" and d: "shows_source p app old d" and es: "distinct es"
    and read: "readable_source lookup es" and new: "\<And>e. e \<in> set es \<Longrightarrow> lookup e = new e" and kept: "\<And>e. e \<notin> set es \<Longrightarrow> new e = old e"
  shows "\<exists>d' r' out' b. redecide sys app (default_policy p) lookup es compacts d r = Ok (d', r', out', b) \<and> shows_source p app new d'"
proof -
  let ?known = "default_known p" and ?pick = "default_pick p"
  have ok: "document_ok d" "schemas_known ?known d" "\<And>e. shows_at ?known default_present ?pick app old d e"
    using d by (simp_all add: shows_source_def)
  from default_rules.redecide_ok [of "lawful p" d lookup es sys app compacts r] read p ok(1,2) es
  obtain d' r' out' b where d': "redecide sys app (default_policy p) lookup es compacts d r = Ok (d', r', out', b)" "document_ok d'"
    "schemas_known ?known d'" "\<forall>e \<in> set es. shows_at ?known default_present ?pick app lookup d' e"
    "\<forall>lookup. \<forall>e. e \<notin> set es \<longrightarrow> (shows_at ?known default_present ?pick app lookup d' e \<longleftrightarrow> shows_at ?known default_present ?pick app lookup d e)"
    by (auto simp: schemas_movable_def lawful_inverse)
  have "shows_at ?known default_present ?pick app new d' e" for e
  proof (cases "e \<in> set es")
    case True
    with d'(4) shows_at_local [of lookup e new, OF new [OF True]] show ?thesis by blast
  next
    case False
    from shows_at_local [of new e old, OF kept [OF False]] d'(5) False ok(3) show ?thesis by blast
  qed
  with d'(1-3) show ?thesis by (auto simp: shows_source_def)
qed

lemma shows_document_cong:
  assumes "shows_document p app raw d" "\<And>e. map_of (rd_entities raw') e = map_of (rd_entities raw) e"
  shows "shows_document p app raw' d"
proof -
  have "map_of (rd_entities raw') = map_of (rd_entities raw)" using assms(2) by (rule ext)
  with assms(1) show ?thesis by (simp add: shows_document_def)
qed

lemma read_entities_ok:
  assumes "document_ok d"
  shows "read_entities d = Ok (doc_entities d)"
proof -
  have "entities_hold d (doc_entities d)" using assms by (simp add: document_ok_def document_holds_def)
  then have s: "starts (td_entities d) (doc_entities d)" and n: "td_entity_count d = length (doc_entities d)"
    by (simp_all add: entities_hold_def)
  have "rfold (\<lambda>i es. rbind (slot_read (td_entities d) i) (\<lambda>e. Ok (es @ [e]))) [0..<k] [] =
      (Ok (take k (doc_entities d)) :: entity_id list checked)"
    if "k \<le> length (doc_entities d)" for k
    using that
  proof (induction k)
    case (Suc k)
    have "slot_read (td_entities d) k = (Ok (doc_entities d ! k) :: entity_id checked)" using Suc.prems by (intro slot_read_starts [OF s]) simp
    with Suc show ?case by (simp add: rfold_append take_Suc_conv_app_nth)
  qed simp
  then show ?thesis by (simp add: read_entities_def n)
qed

lemma conservative_summary_total:
  assumes d: "document_ok (new_document_builder d)" and ok: "document_ok d'"
  shows "\<exists>out'. conservative_summary d d' out = Ok out'"
proof -
  have same: "read_entities d = read_entities (new_document_builder d)" "doc_contains d = doc_contains (new_document_builder d)"
    "has_component d = has_component (new_document_builder d)" "component_types d = component_types (new_document_builder d)"
    by (auto simp: new_document_builder_def read_entities_def doc_contains_def has_component_def component_types_def try_find_column_def
        fun_eq_iff)
  have all: "record_all_components d = record_all_components (new_document_builder d)"
    by (simp add: record_all_components_def same fun_eq_iff)
  have removed: "\<exists>out'. record_removed d d' e out = Ok out'" for e out
    using record_all_components_total [OF d, of e CK_removed out] by (auto simp: record_removed_def document_queries_ok(1) [OF ok] all)
  have present: "\<exists>out'. record_present d d' e out = Ok out'" for e out
    using record_all_components_total [OF ok, of e "if e \<in> set (doc_entities (new_document_builder d)) then CK_modified else CK_added" out]
    by (auto simp: record_present_def document_queries_ok(1) [OF d] same)
  from rfold_total [of "record_removed d d'" "doc_entities (new_document_builder d)" out, OF removed] obtain out1 where
    out1: "rfold (record_removed d d') (doc_entities (new_document_builder d)) out = Ok out1" by blast
  from rfold_total [of "record_present d d'" "doc_entities d'" out1, OF present] obtain out2 where
    out2: "rfold (record_present d d') (doc_entities d') out1 = Ok out2" by blast
  show ?thesis by (simp add: conservative_summary_def same(1) read_entities_ok [OF d] read_entities_ok [OF ok] out1 out2)
qed

lemma full_reparse_ok:
  fixes app :: "'c application"
  assumes g: "graph_ok g" "payloads_valid g" "acyclic (history g)" and p: "default_ok p" and c: "cache_fits g cache"
    and d: "document_ok d" and raw1: "current_document g [to] [] raw1"
  shows "\<exists>d' r' out' cache'. full_reparse sys app d g to (default_policy p) r out cache = Ok (d', r', out', cache') \<and>
    shows_document p app raw1 d' \<and> cache_fits g cache'"
proof -
  from materialize_by_ok [OF g c, of to "[]"] current_document_unique [OF _ raw1] obtain cache' where
    m: "materialize_by g to [] cache = Ok (raw1, cache')" "cache_fits g cache'" by blast
  from parse_shows [OF p current_document_readable [OF g(2) raw1], of sys app "clear_report r"] obtain d' r' where
    d': "parse_document sys app raw1 (default_policy p) (clear_report r) = Ok (d', r')" "shows_document p app raw1 d'" by blast
  have "new_document_builder d = d" using d by (simp add: new_document_builder_def document_ok_def)
  with conservative_summary_total [of d d' out] d d'(2) obtain out' where "conservative_summary d d' out = Ok out'"
    by (auto simp: shows_document_def shows_source_def)
  then have "full_reparse sys app d g to (default_policy p) r out cache = Ok (d', r', out', cache')"
    by (simp add: full_reparse_def m(1) d'(1))
  with d'(2) m(2) show ?thesis by blast
qed

text \<open>The chain's delta: the entities it touches, and nothing else, may differ.\<close>

lemma chain_delta:
  assumes g: "graph_ok g" "payloads_valid g" "acyclic (history g)" and found: "cw_found (walk_chain g from to n)"
    and raw0: "current_document g [from] [] raw0" and raw1: "current_document g [to] [] raw1"
  shows "\<exists>dirty coarse es. change_set_of (cw_ops (walk_chain g from to n)) = Ok dirty \<and> coarsen_to dirty CG_entity = Ok coarse \<and>
    change_set_entities coarse = Ok es \<and> sorted_wrt (<) es \<and>
    (\<forall>e. e \<notin> set es \<longrightarrow> map_of (rd_entities raw1) e = map_of (rd_entities raw0) e)"
proof -
  note delta = walk_chain_untouched [OF g found raw0 raw1]
  from change_set_of_spec [OF g(2), of "cw_ops (walk_chain g from to n)"] delta obtain dirty coarse es where
    es: "change_set_of (cw_ops (walk_chain g from to n)) = Ok dirty" "coarsen_to dirty CG_entity = Ok coarse"
      "change_set_entities coarse = Ok es" "sorted_wrt (<) es" "set es = chain_entities g (cw_ops (walk_chain g from to n))" by blast
  have "map_of (rd_entities raw1) e = map_of (rd_entities raw0) e" if "e \<notin> set es" for e
  proof (rule entity_ext)
    show "document_wf raw1" "document_wf raw0" using raw0 raw1 by (simp_all add: current_document_def)
    show "document_try_get raw1 q = document_try_get raw0 q" if "pp_entity q = e" for q
      using delta that \<open>e \<notin> set es\<close> es(5) by (simp add: chain_entities_untouched)
  qed
  with es(1-4) show ?thesis by blast
qed

lemma filtered_lookup:
  assumes "current_document g heads es raw" "current_document g heads [] raw1" "e \<in> set es"
  shows "document_try_get_entity raw e = map_of (rd_entities raw1) e"
proof -
  have wf: "document_wf raw" "document_wf raw1" using assms(1,2) by (simp_all add: current_document_def)
  have "document_try_get raw q = document_try_get raw1 q" if "pp_entity q = e" for q
    using current_filtered [OF assms(1,2), of q] that assms(3) by simp
  then show ?thesis unfolding document_wf_lookup [OF wf(1)] by (rule entity_ext [OF wf])
qed

lemma apply_touched_shows:
  fixes app :: "'c application"
  assumes g: "graph_ok g" "payloads_valid g" "acyclic (history g)" and p: "default_ok p" "schemas_movable p"
    and c: "cache_fits g (ao_cache options)" and raw1: "current_document g [to] [] raw1" and d: "shows_document p app raw0 d"
    and es: "sorted_wrt (<) es" and kept: "\<forall>e. e \<notin> set es \<longrightarrow> map_of (rd_entities raw1) e = map_of (rd_entities raw0) e"
  shows "\<exists>d' r' out' cache b. apply_touched sys app d g to (default_policy p) r options es stats =
      Ok (d', r', out', cache, stats\<lparr>as_compacted := b\<rparr>) \<and> shows_document p app raw1 d' \<and> cache_fits g cache"
proof -
  from materialize_by_ok [OF g c, of to es] obtain raw cache where
    raw: "materialize_by g to es (ao_cache options) = Ok (raw, cache)" "current_document g [to] es raw" "cache_fits g cache" by blast
  note look = filtered_lookup [OF raw(2) raw1]
  have wf: "document_wf raw" using raw(2) by (simp add: current_document_def)
  have read: "readable_source (document_try_get_entity raw) es"
    using current_document_readable [OF g(2) raw(2)] unfolding document_wf_lookup [OF wf]
    by (force simp: readable_source_def readable_document_def dest: map_of_SomeD)
  from drop_for_entities_eq [OF es, of r] obtain r0 where r0: "drop_for_entities es r = Ok r0" by blast
  have "distinct es" using es by (simp add: strict_sorted_iff)
  from redecide_shows [OF p d [unfolded shows_document_def] this read look, of sys "ao_compacts options" r0] kept obtain d' r' out' b where
    "redecide sys app (default_policy p) (document_try_get_entity raw) es (ao_compacts options) d r0 = Ok (d', r', out', b)"
    "shows_document p app raw1 d'" by (auto simp: shows_document_def)
  with r0 raw(1,3) show ?thesis by (auto simp: apply_touched_def)
qed

text \<open>
  C14. Applying a delta is parsing afresh.  Given a document that shows what parsing \<open>from\<close> gives, \<open>apply\<close> never faults and leaves
  a document that shows what parsing \<open>to\<close> gives, entity by entity and component by component, whichever path it takes, with or
  without a cache; it takes the fast path exactly when a chain of allowed length leads back, unless it is forced not to.
\<close>

theorem apply_is_reparse:
  fixes app :: "'c application"
  assumes "graph_reachable g" "payloads_valid g" "acyclic (parent_edges g (\<lambda>_. False))"
    and "default_ok p" "schemas_movable p" "cache_fits g (ao_cache options)"
    and "materialize g [from] = Ok raw0" "shows_document p app raw0 d"
  shows "\<exists>d' r' changes cache stats raw1. apply_document sys app d g from to (default_policy p) r options = Ok (d', r', changes, cache, stats) \<and>
    materialize g [to] = Ok raw1 \<and> shows_document p app raw1 d' \<and> cache_fits g cache \<and>
    (\<exists>full fr. parse_document sys app raw1 (default_policy p) empty_report = Ok (full, fr) \<and>
       doc_entities d' = doc_entities full \<and> doc_component d' = doc_component full) \<and>
    (as_took_fast_path stats \<longleftrightarrow> \<not> ao_force_full_reparse options \<and> cw_found (walk_chain g from to (ao_max_chain_ops options)))"
proof -
  note g = graph_reachable_ok [OF assms(1)] assms(2,3)
  have raw0: "current_document g [from] [] raw0" using assms(7) current_iff_materialize [OF g] by (simp add: materialize_is_entities)
  from materialize_current [OF g, of "[to]" "[]"] obtain raw1 where
    raw1: "materialize g [to] = Ok raw1" "current_document g [to] [] raw1" by (auto simp: materialize_is_entities)
  define chain where "chain = (if ao_force_full_reparse options then no_chain\<lparr>cw_reason := AF_forced\<rparr>
      else walk_chain g from to (ao_max_chain_ops options))"
  have "\<exists>d' r' changes cache stats. apply_document sys app d g from to (default_policy p) r options = Ok (d', r', changes, cache, stats) \<and>
      shows_document p app raw1 d' \<and> cache_fits g cache \<and> (as_took_fast_path stats \<longleftrightarrow> cw_found chain)"
  proof (cases "cw_found chain")
    case False
    have "document_ok d" using assms(8) by (simp add: shows_document_def shows_source_def)
    from full_reparse_ok [OF g assms(4,6) this raw1(2), of sys app r empty_summary] False show ?thesis
      by (auto simp: apply_document_def chain_def [symmetric] Let_def default_apply_stats_def)
  next
    case found: True
    then have walk: "chain = walk_chain g from to (ao_max_chain_ops options)" by (auto simp: chain_def no_chain_def split: if_splits)
    from chain_delta [OF g found [unfolded walk] raw0 raw1(2), folded walk] obtain dirty coarse es where
      es: "change_set_of (cw_ops chain) = Ok dirty" "coarsen_to dirty CG_entity = Ok coarse" "change_set_entities coarse = Ok es"
        "sorted_wrt (<) es" and kept: "\<forall>e. e \<notin> set es \<longrightarrow> map_of (rd_entities raw1) e = map_of (rd_entities raw0) e" by blast
    note run = apply_document_def chain_def [symmetric] Let_def found es(1-3)
    show ?thesis
    proof (cases "es = []")
      case True
      then have "shows_document p app raw1 d" using shows_document_cong [OF assms(8)] kept by simp
      with True found assms(6) show ?thesis by (simp add: run default_apply_stats_def)
    next
      case False
      from apply_touched_shows [OF g assms(4-6) raw1(2) assms(8) es(4) kept, of sys r
        "default_apply_stats\<lparr>as_took_fast_path := True, as_chain_ops := length (cw_ops chain), as_touched_entities := length es\<rparr>"]
        False found show ?thesis by (fastforce simp: run)
    qed
  qed
  then obtain d' r' changes cache stats where
    run: "apply_document sys app d g from to (default_policy p) r options = Ok (d', r', changes, cache, stats)"
      "shows_document p app raw1 d'" "cache_fits g cache" "as_took_fast_path stats \<longleftrightarrow> cw_found chain" by blast
  from parse_shows [OF assms(4) current_document_readable [OF g(2) raw1(2)], of sys app empty_report] obtain full fr where
    full: "parse_document sys app raw1 (default_policy p) empty_report = Ok (full, fr)" "shows_document p app raw1 full" by blast
  have "cw_found chain \<longleftrightarrow> \<not> ao_force_full_reparse options \<and> cw_found (walk_chain g from to (ao_max_chain_ops options))"
    by (simp add: chain_def no_chain_def)
  with run full raw1(1) shows_source_unique [OF run(2) [unfolded shows_document_def] full(2) [unfolded shows_document_def]] show ?thesis by blast
qed

lemma sample_chain: "walk_chain sample_graph (Op_id (Hash256 1 0 0 0)) (Op_id (Hash256 2 0 0 0)) 64 =
  \<lparr>cw_found = True, cw_reason = AF_no_single_parent_chain, cw_ops = [sample_child]\<rparr>"
proof -
  have "find_op sample_graph (Op_id (Hash256 2 0 0 0)) = Some sample_child" by (simp add: find_op_def sample_graph_ops)
  moreover have "\<not> is_skeleton sample_child" "o_parents sample_child = [Op_id (Hash256 1 0 0 0)]" by (simp_all add: is_skeleton_def sample_child_def)
  ultimately have "walk_steps sample_graph (Op_id (Hash256 1 0 0 0)) (Op_id (Hash256 2 0 0 0)) [] (Suc n) =
      \<lparr>cw_found = True, cw_reason = AF_no_single_parent_chain, cw_ops = [sample_child]\<rparr>" for n
    by (simp add: no_chain_def)
  from this [of 63] show ?thesis by (simp add: walk_chain_def numeral_eq_Suc)
qed

definition sample_options :: incremental_apply_options where
  "sample_options = \<lparr>ao_max_chain_ops = 64, ao_cache = None, ao_compacts = \<lambda>dead alive. dead > alive, ao_force_full_reparse = False\<rparr>"

lemma apply_is_reparse_witness:
  "\<exists>raw0 d fr d' r' changes cache stats.
     materialize sample_graph [Op_id (Hash256 1 0 0 0)] = Ok raw0 \<and>
     parse_document (\<lambda>_ _. (0, 0)) sample_app raw0 (default_policy sample_policy) empty_report = Ok (d, fr) \<and>
     apply_document (\<lambda>_ _. (0, 0)) sample_app d sample_graph (Op_id (Hash256 1 0 0 0)) (Op_id (Hash256 2 0 0 0))
       (default_policy sample_policy) fr sample_options = Ok (d', r', changes, cache, stats) \<and> as_took_fast_path stats"
proof -
  let ?from = "Op_id (Hash256 1 0 0 0)" and ?to = "Op_id (Hash256 2 0 0 0)"
  note g = graph_reachable_ok [OF sample_graph_reachable] sample_payloads_valid sample_acyclic
  from materialize_current [OF g, of "[?from]" "[]"] obtain raw0 where
    raw0: "materialize sample_graph [?from] = Ok raw0" "current_document sample_graph [?from] [] raw0" by (auto simp: materialize_is_entities)
  from parse_shows [OF sample_parse_ok(1) current_document_readable [OF g(2) raw0(2)], of "\<lambda>_ _. (0, 0)" sample_app empty_report]
  obtain d fr where d: "parse_document (\<lambda>_ _. (0, 0)) sample_app raw0 (default_policy sample_policy) empty_report = Ok (d, fr)"
    "shows_document sample_policy sample_app raw0 d" by blast
  have "schemas_movable sample_policy"
    by (auto simp: schemas_movable_def default_known_def sample_policy_def schema_of_def sample_schema_def split: if_splits)
  moreover have "cache_fits sample_graph (ao_cache sample_options)" by (simp add: cache_fits_def sample_options_def)
  ultimately show ?thesis
    using apply_is_reparse [OF sample_graph_reachable sample_payloads_valid sample_acyclic sample_parse_ok(1) _ _ raw0(1) d(2), of sample_options
        "\<lambda>_ _. (0, 0)" ?to fr] raw0(1) d(1) sample_chain
    by (simp add: sample_options_def) blast
qed

end
