(* ===== verification/Compose.thy ===== *)
theory Compose
  imports Default_Policy Search
begin

text \<open>
  Composing several layers' raw documents, entity by entity (impl/compose.hh/.cc): the contributions of all layers, sorted so that
  the topmost layer of a path comes first, the runs of a component checked for disagreeing schema versions and emitted.  A layer is
  an optional raw document, as its view may hold a null pointer.
\<close>

type_synonym layer_view = "raw_document option"

record contribution =
  cn_component :: component_type_id
  cn_property :: property_id
  cn_writers :: raw_property
  cn_rank :: int

definition contribution_before :: "contribution \<Rightarrow> contribution \<Rightarrow> bool" where
  "contribution_before a b =
     (let by_component = id_compare_bytes (cn_component a) (cn_component b) in
      if by_component \<noteq> 0 then by_component < 0
      else
        (let by_property = id_compare_bytes (cn_property a) (cn_property b) in
         if by_property \<noteq> 0 then by_property < 0 else cn_rank a < cn_rank b))"

primrec winning_stamp :: "contribution list \<Rightarrow> value_view option checked" where
  "winning_stamp [] = Ok None"
| "winning_stamp (e # run) =
     (if cn_property e = reserved_schema_version \<and> \<not> is_multi_valued (cn_writers e)
      then rbind (single (cn_writers e)) (\<lambda>v. Ok (Some v)) else winning_stamp run)"

definition stamp_disagrees :: "contribution list \<Rightarrow> value_view \<Rightarrow> contribution \<Rightarrow> bool checked" where
  "stamp_disagrees run winning e =
     (if cn_property e \<noteq> reserved_schema_version \<or> is_multi_valued (cn_writers e) then Ok False
      else
        rbind (single (cn_writers e)) (\<lambda>v.
          if v = winning then Ok False
          else Ok (list_ex (\<lambda>other. cn_rank other = cn_rank e \<and> \<not> is_reserved (cn_property other)) run)))"

definition schema_versions_disagree :: "contribution list \<Rightarrow> bool checked" where
  "schema_versions_disagree run =
     rbind (winning_stamp run) (\<lambda>winning. case winning of None \<Rightarrow> Ok False | Some w \<Rightarrow> rany (stamp_disagrees run w) run)"

definition layer_contributions :: "layer_view list \<Rightarrow> entity_id \<Rightarrow> nat \<Rightarrow> contribution list" where
  "layer_contributions layers e i =
     (case layers ! i of
        None \<Rightarrow> []
      | Some doc \<Rightarrow>
          (case document_try_get_entity doc e of
             None \<Rightarrow> []
           | Some raw \<Rightarrow>
               (let rank = int (length layers) - 1 - int i in
                concat (map (\<lambda>(c, cmp). map (\<lambda>(p, v). \<lparr>cn_component = c, cn_property = p, cn_writers = v, cn_rank = rank\<rparr>)
                  (rc_properties cmp)) (re_components raw)))))"

definition push_property :: "component_type_id \<Rightarrow> property_id \<Rightarrow> raw_property \<Rightarrow> raw_entity \<Rightarrow> raw_entity" where
  "push_property c p v out =
     (let comps = (if re_components out = [] \<or> fst (last (re_components out)) \<noteq> c
                   then re_components out @ [(c, \<lparr>rc_properties = []\<rparr>)] else re_components out) in
      out\<lparr>re_components := butlast comps @
        [(fst (last comps), (snd (last comps))\<lparr>rc_properties := rc_properties (snd (last comps)) @ [(p, v)]\<rparr>)]\<rparr>)"

primrec emit_run :: "property_id option \<Rightarrow> contribution list \<Rightarrow> raw_entity \<Rightarrow> raw_entity" where
  "emit_run prev [] out = out"
| "emit_run prev (e # run) out =
     emit_run (Some (cn_property e)) run
       (if prev = Some (cn_property e) then out else push_property (cn_component e) (cn_property e) (cn_writers e) out)"

function compose_runs :: "entity_id \<Rightarrow> contribution list \<Rightarrow> raw_entity \<times> property_path list \<Rightarrow> (raw_entity \<times> property_path list) checked" where
  "compose_runs e [] st = Ok st"
| "compose_runs e (x # xs) st =
     (case st of (out, conflicts) \<Rightarrow>
        (let run = x # takeWhile (\<lambda>y. cn_component y = cn_component x) xs;
             rest = dropWhile (\<lambda>y. cn_component y = cn_component x) xs in
         rbind (schema_versions_disagree run) (\<lambda>drops.
           compose_runs e rest
             (if drops then (out, conflicts @ [Property_path e (cn_component x) []]) else (emit_run None run out, conflicts)))))"
  by pat_completeness auto
termination
  by (relation "measure (\<lambda>(e, xs, st). length xs)") (auto simp: length_dropWhile_le le_imp_less_Suc)

definition compose_one :: "layer_view list \<Rightarrow> entity_id \<Rightarrow> raw_entity list \<times> property_path list \<Rightarrow>
    (raw_entity list \<times> property_path list) checked" where
  "compose_one layers e st =
     (case st of (composed, conflicts) \<Rightarrow>
        (let scratch = cc_sort contribution_before (concat (map (layer_contributions layers e) [0..<length layers])) in
         rbind (compose_runs e scratch (\<lparr>re_components = []\<rparr>, conflicts)) (\<lambda>(out, conflicts). Ok (composed @ [out], conflicts))))"

record composed_document =
  cd_entities :: "entity_id list"
  cd_composed :: "raw_entity list"
  cd_schema_version_conflicts :: "property_path list"

definition compose :: "layer_view list \<Rightarrow> entity_id list \<Rightarrow> composed_document checked" where
  "compose layers entities =
     rbind (rfold (compose_one layers) entities ([], [])) (\<lambda>(composed, conflicts).
     Ok \<lparr>cd_entities = entities, cd_composed = composed, cd_schema_version_conflicts = conflicts\<rparr>)"

definition composed_try_get :: "composed_document \<Rightarrow> entity_id \<Rightarrow> raw_entity option" where
  "composed_try_get cd e =
     (case find_in_sorted (cd_entities cd) e (\<lambda>a b. id_compare_bytes a b < 0) of
        None \<Rightarrow> None
      | Some i \<Rightarrow> if re_components (cd_composed cd ! i) = [] then None else Some (cd_composed cd ! i))"

definition compose_entities :: "layer_view list \<Rightarrow> entity_id list" where
  "compose_entities layers =
     (let out = concat (map (\<lambda>d. case d of None \<Rightarrow> [] | Some doc \<Rightarrow> map fst (rd_entities doc)) layers);
          out = cc_sort (\<lambda>a b. id_compare_bytes a b < 0) out in
      foldl (\<lambda>kept e. if kept \<noteq> [] \<and> last kept = e then kept else kept @ [e]) [] out)"

subsection \<open>The first that has a value\<close>

primrec first_some :: "('a \<Rightarrow> 'b option) \<Rightarrow> 'a list \<Rightarrow> 'b option" where
  "first_some f [] = None"
| "first_some f (x # xs) = (case f x of None \<Rightarrow> first_some f xs | Some y \<Rightarrow> Some y)"

lemma first_some_None: "first_some f xs = None \<longleftrightarrow> (\<forall>x \<in> set xs. f x = None)"
  by (induction xs) (auto split: option.splits)

lemma first_some_append: "first_some f (xs @ ys) = (case first_some f xs of None \<Rightarrow> first_some f ys | Some y \<Rightarrow> Some y)"
  by (induction xs) (auto split: option.splits)

lemma first_some_filter: "(\<And>x. x \<in> set xs \<Longrightarrow> \<not> P x \<Longrightarrow> f x = None) \<Longrightarrow> first_some f (filter P xs) = first_some f xs"
  by (induction xs) (auto split: option.splits)

lemma map_of_first_some: "map_of (map (\<lambda>x. (f x, g x)) xs) k = first_some (\<lambda>x. if f x = k then Some (g x) else None) xs"
  by (induction xs) auto

text \<open>In a list sorted by rank among the elements that have a value, the first value is the one of the smallest rank.\<close>

lemma first_some_min:
  assumes "sorted_wrt (\<lambda>a b. f a \<noteq> None \<longrightarrow> f b \<noteq> None \<longrightarrow> r a \<le> (r b :: int)) xs"
    and "\<And>x y. x \<in> set xs \<Longrightarrow> y \<in> set xs \<Longrightarrow> f x \<noteq> None \<Longrightarrow> f y \<noteq> None \<Longrightarrow> r x = r y \<Longrightarrow> f x = f y"
    and "x \<in> set xs" "f x = Some w" "\<And>y. y \<in> set xs \<Longrightarrow> f y \<noteq> None \<Longrightarrow> r x \<le> r y"
  shows "first_some f xs = Some w"
  using assms
proof (induction xs)
  case (Cons a xs)
  show ?case
  proof (cases "f a")
    case None
    with Cons.prems(3,4) have "x \<in> set xs" by auto
    with None Cons.IH [OF _ _ this Cons.prems(4)] Cons.prems(1,2,5) show ?thesis by simp
  next
    case (Some v)
    have "r x \<le> r a" using Cons.prems(5) [of a] Some by simp
    moreover have "r a \<le> r x" using Cons.prems(1,3,4) Some by auto
    ultimately have "f a = f x" using Cons.prems(2) [of a x] Cons.prems(3,4) Some by simp
    with Some Cons.prems(4) show ?thesis by simp
  qed
qed simp

lemma first_some_rev:
  "first_some f (rev xs) = Some w \<Longrightarrow> \<exists>i < length xs. f (xs ! i) = Some w \<and> (\<forall>j < length xs. i < j \<longrightarrow> f (xs ! j) = None)"
proof (induction xs rule: rev_induct)
  case (snoc x xs)
  show ?case
  proof (cases "f x")
    case None
    with snoc obtain i where "i < length xs" "f (xs ! i) = Some w" "\<forall>j < length xs. i < j \<longrightarrow> f (xs ! j) = None" by auto
    with None show ?thesis by (intro exI [of _ i]) (auto simp: nth_append less_Suc_eq)
  next
    case (Some v)
    with snoc.prems show ?thesis by (intro exI [of _ "length xs"]) (auto simp: nth_append)
  qed
qed simp

subsection \<open>The contributions of an entity\<close>

text \<open>What one layer says of a path.\<close>

definition layer_value :: "layer_view \<Rightarrow> property_path \<Rightarrow> raw_property option" where
  "layer_value layer q = (case layer of None \<Rightarrow> None | Some d \<Rightarrow> document_try_get d q)"

definition layers_readable :: "layer_view list \<Rightarrow> bool" where
  "layers_readable layers \<longleftrightarrow> (\<forall>d. Some d \<in> set layers \<longrightarrow> readable_document d)"

lemma readable_try_get:
  assumes "readable_document d"
  shows "document_try_get_entity d = map_of (rd_entities d)"
    and "document_try_get_entity d e = Some raw \<Longrightarrow> readable_entity raw"
    and "document_try_get d (Property_path e c p) = (case document_try_get_entity d e of None \<Rightarrow> None | Some raw \<Rightarrow>
      (case map_of (re_components raw) c of None \<Rightarrow> None | Some cmp \<Rightarrow> map_of (rc_properties cmp) p))"
proof -
  have srt: "sorted_wrt (<) (map fst (rd_entities d))" using assms by (simp add: readable_document_def)
  show get: "document_try_get_entity d = map_of (rd_entities d)"
    by (rule ext) (simp add: document_try_get_entity_def level.lookup_map_of [OF srt])
  show ent: "readable_entity raw" if "document_try_get_entity d e = Some raw" for e raw
    using assms that unfolding get by (force simp: readable_document_def dest: map_of_SomeD)
  show "document_try_get d (Property_path e c p) = (case document_try_get_entity d e of None \<Rightarrow> None | Some raw \<Rightarrow>
      (case map_of (re_components raw) c of None \<Rightarrow> None | Some cmp \<Rightarrow> map_of (rc_properties cmp) p))"
  proof (cases "document_try_get_entity d e")
    case (Some raw)
    from ent [OF Some] have r: "sorted_wrt (<) (map fst (re_components raw))" "\<forall>c \<in> snd ` set (re_components raw). readable_component c"
      by (simp_all add: readable_entity_def)
    have "component_try_get cmp p = map_of (rc_properties cmp) p" if "map_of (re_components raw) c = Some cmp" for cmp
      using that r(2) by (force simp: component_try_get_def readable_component_def level.lookup_map_of dest: map_of_SomeD)
    with Some show ?thesis
      by (auto simp: document_try_get_def entity_try_get_def level.lookup_map_of [OF r(1)] split: option.split)
  qed (simp add: document_try_get_def)
qed

lemma layer_value_writers:
  assumes "layers_readable layers" "layer \<in> set layers" "layer_value layer q = Some v"
  shows "readable_property v"
proof -
  obtain e c p where q: "q = Property_path e c p" by (cases q)
  from assms(3) obtain d where d: "layer = Some d" "document_try_get d q = Some v" by (auto simp: layer_value_def split: option.splits)
  have rd: "readable_document d" using assms(1,2) d(1) by (simp add: layers_readable_def)
  from d(2) obtain raw cmp where raw: "document_try_get_entity d e = Some raw" "map_of (re_components raw) c = Some cmp"
    "map_of (rc_properties cmp) p = Some v"
    unfolding q readable_try_get(3) [OF rd] by (auto split: option.splits)
  from readable_try_get(2) [OF rd raw(1)] raw(2) have "readable_component cmp" by (force simp: readable_entity_def dest: map_of_SomeD)
  with raw(3) show ?thesis by (force simp: readable_component_def dest: map_of_SomeD)
qed

lemma layer_contributions_iff:
  assumes "layers_readable layers" "i < length layers"
  shows "x \<in> set (layer_contributions layers e i) \<longleftrightarrow> cn_rank x = int (length layers) - 1 - int i \<and>
    layer_value (layers ! i) (Property_path e (cn_component x) (cn_property x)) = Some (cn_writers x)"
proof (cases "layers ! i")
  case None
  then show ?thesis by (simp add: layer_contributions_def layer_value_def)
next
  case (Some d)
  have rd: "readable_document d" using assms Some by (metis layers_readable_def nth_mem)
  show ?thesis
  proof (cases "document_try_get_entity d e")
    case None
    with Some show ?thesis by (simp add: layer_contributions_def layer_value_def readable_try_get(3) [OF rd])
  next
    case (Some raw)
    from readable_try_get(2) [OF rd Some] have r: "distinct (map fst (re_components raw))"
      "\<forall>c \<in> snd ` set (re_components raw). readable_component c" by (simp_all add: readable_entity_def strict_sorted_iff)
    have props: "distinct (map fst (rc_properties cmp))" if "(c, cmp) \<in> set (re_components raw)" for c cmp
      using r(2) that by (force simp: readable_component_def strict_sorted_iff)
    have "layer_value (layers ! i) (Property_path e c p) = Some v \<longleftrightarrow>
        (\<exists>cmp. (c, cmp) \<in> set (re_components raw) \<and> (p, v) \<in> set (rc_properties cmp))" for c p v
      using r(1) props \<open>layers ! i = Some d\<close> Some
      by (auto simp: layer_value_def readable_try_get(3) [OF rd] split: option.splits dest: map_of_SomeD)
        (metis map_of_is_SomeI option.inject option.distinct(1))+
    then show ?thesis using \<open>layers ! i = Some d\<close> Some
      by (cases x) (force simp: layer_contributions_def Let_def)
  qed
qed

definition cn_key :: "contribution \<Rightarrow> component_type_id \<times> property_id \<times> int" where
  "cn_key x = (cn_component x, cn_property x, cn_rank x)"

lemma contribution_before_eq: "contribution_before a b \<longleftrightarrow> cn_key a < cn_key b"
  by (auto simp: contribution_before_def cn_key_def Let_def less_prod_def')

text \<open>The contributions in the order composition takes them: by component, property, and from the top.\<close>

definition contributions :: "layer_view list \<Rightarrow> entity_id \<Rightarrow> contribution list" where
  "contributions layers e = cc_sort contribution_before (concat (map (layer_contributions layers e) [0..<length layers]))"

lemma contributions_sorted: "sorted (map cn_key (contributions layers e))"
proof -
  have "contribution_before = (\<lambda>a b. cn_key a < cn_key b)" by (intro ext contribution_before_eq)
  then show ?thesis using cc_sort_sorted [of cn_key] by (simp add: contributions_def)
qed

lemma contributions_iff:
  assumes "layers_readable layers"
  shows "x \<in> set (contributions layers e) \<longleftrightarrow> (\<exists>i < length layers. cn_rank x = int (length layers) - 1 - int i \<and>
    layer_value (layers ! i) (Property_path e (cn_component x) (cn_property x)) = Some (cn_writers x))"
  using layer_contributions_iff [OF assms] by (force simp: contributions_def)

lemma contributions_writers:
  assumes "layers_readable layers" "x \<in> set (contributions layers e)"
  shows "readable_property (cn_writers x)"
  using assms(2) layer_value_writers [OF assms(1)] unfolding contributions_iff [OF assms(1)] by (metis nth_mem)

text \<open>The contributions of one component.\<close>

abbreviation run_of :: "contribution list \<Rightarrow> component_type_id \<Rightarrow> contribution list" where
  "run_of xs c \<equiv> filter (\<lambda>x. cn_component x = c) xs"

lemma sorted_runs:
  assumes "sorted (map cn_component (x # xs))"
  shows "takeWhile (\<lambda>y. cn_component y = cn_component x) xs = run_of xs (cn_component x)"
    and "dropWhile (\<lambda>y. cn_component y = cn_component x) xs = filter (\<lambda>y. cn_component y \<noteq> cn_component x) xs"
proof -
  have "takeWhile (\<lambda>y. cn_component y = c) xs = run_of xs c \<and>
      dropWhile (\<lambda>y. cn_component y = c) xs = filter (\<lambda>y. cn_component y \<noteq> c) xs"
    if "sorted (map cn_component xs)" "\<forall>y \<in> set xs. c \<le> cn_component y" for c
    using that
  proof (induction xs)
    case (Cons y xs)
    show ?case
    proof (cases "cn_component y = c")
      case False
      with Cons.prems have "\<forall>z \<in> set (y # xs). cn_component z \<noteq> c" by fastforce
      then show ?thesis using False by (auto simp: filter_empty_conv filter_id_conv)
    qed (use Cons in simp)
  qed simp
  with assms show "takeWhile (\<lambda>y. cn_component y = cn_component x) xs = run_of xs (cn_component x)"
    "dropWhile (\<lambda>y. cn_component y = cn_component x) xs = filter (\<lambda>y. cn_component y \<noteq> cn_component x) xs" by simp_all
qed

subsection \<open>Disagreeing stamps\<close>

definition stamp_of :: "contribution \<Rightarrow> value_view option" where
  "stamp_of x = (if cn_property x = reserved_schema_version \<and> length (rp_writers (cn_writers x)) = 1
     then Some (pv_value (rp_writers (cn_writers x) ! 0)) else None)"

definition run_disagrees :: "contribution list \<Rightarrow> bool" where
  "run_disagrees run \<longleftrightarrow> (\<exists>x \<in> set run. \<exists>v w. first_some stamp_of run = Some w \<and> stamp_of x = Some v \<and> v \<noteq> w \<and>
     (\<exists>y \<in> set run. cn_rank y = cn_rank x \<and> \<not> is_reserved (cn_property y)))"

lemma schema_versions_disagree_eq:
  assumes "\<And>x. x \<in> set run \<Longrightarrow> rp_writers (cn_writers x) \<noteq> []"
  shows "schema_versions_disagree run = Ok (run_disagrees run)"
proof -
  have one: "\<not> is_multi_valued (cn_writers x) \<longleftrightarrow> length (rp_writers (cn_writers x)) = 1" if "x \<in> set run" for x
    using assms [OF that] by (cases "rp_writers (cn_writers x)") (auto simp: is_multi_valued_def)
  have "winning_stamp xs = Ok (first_some stamp_of xs)" if "set xs \<subseteq> set run" for xs
    using that
  proof (induction xs)
    case (Cons x xs)
    then have "x \<in> set run" by simp
    with one Cons show ?case by (auto simp: stamp_of_def single_def check_def)
  qed simp
  moreover have "rany (stamp_disagrees run w) run = Ok (\<exists>x \<in> set run. \<exists>v. stamp_of x = Some v \<and> v \<noteq> w \<and>
      (\<exists>y \<in> set run. cn_rank y = cn_rank x \<and> \<not> is_reserved (cn_property y)))" for w
  proof (rule rany_eq)
    fix x assume "x \<in> set run"
    with one show "stamp_disagrees run w x = Ok (\<exists>v. stamp_of x = Some v \<and> v \<noteq> w \<and>
      (\<exists>y \<in> set run. cn_rank y = cn_rank x \<and> \<not> is_reserved (cn_property y)))"
      by (auto simp: stamp_disagrees_def stamp_of_def single_def check_def list_ex_iff)
  qed
  ultimately show ?thesis
    by (cases "first_some stamp_of run") (auto simp: schema_versions_disagree_def run_disagrees_def)
qed

subsection \<open>Emitting a component\<close>

primrec firsts :: "property_id option \<Rightarrow> contribution list \<Rightarrow> (property_id \<times> raw_property) list" where
  "firsts prev [] = []"
| "firsts prev (x # xs) =
     (if prev = Some (cn_property x) then [] else [(cn_property x, cn_writers x)]) @ firsts (Some (cn_property x)) xs"

lemma emit_run_tail:
  assumes "\<forall>x \<in> set run. cn_component x = c" "re_components out = A @ [(c, \<lparr>rc_properties = ps\<rparr>)]"
  shows "emit_run prev run out = out\<lparr>re_components := A @ [(c, \<lparr>rc_properties = ps @ firsts prev run\<rparr>)]\<rparr>"
  using assms
proof (induction run arbitrary: out prev ps)
  case (Cons x run)
  then have x: "cn_component x = c" by simp
  let ?out = "out\<lparr>re_components := A @ [(c, \<lparr>rc_properties = ps @ [(cn_property x, cn_writers x)]\<rparr>)]\<rparr>"
  have "push_property (cn_component x) (cn_property x) (cn_writers x) out = ?out"
    using Cons.prems(2) x by (simp add: push_property_def)
  with Cons.IH [of ?out "ps @ [(cn_property x, cn_writers x)]"] Cons.IH [of out ps] Cons.prems show ?case by simp
qed (cases out, simp)

lemma emit_run_new:
  assumes "\<forall>x \<in> set run. cn_component x = c" "run \<noteq> []" "re_components out = [] \<or> fst (last (re_components out)) \<noteq> c"
  shows "emit_run None run out = out\<lparr>re_components := re_components out @ [(c, \<lparr>rc_properties = firsts None run\<rparr>)]\<rparr>"
proof -
  obtain x xs where run: "run = x # xs" using assms(2) by (cases run) auto
  let ?out = "out\<lparr>re_components := re_components out @ [(c, \<lparr>rc_properties = [(cn_property x, cn_writers x)]\<rparr>)]\<rparr>"
  have "push_property (cn_component x) (cn_property x) (cn_writers x) out = ?out"
    using assms(1,3) run by (auto simp: push_property_def Let_def)
  with emit_run_tail [of xs c ?out] assms(1) run show ?thesis by simp
qed

lemma not_below:
  assumes "\<forall>y \<in> set xs. k \<le> f y" "p \<le> (k :: 'k::linorder)" "p \<noteq> k"
  shows "p \<notin> f ` set xs"
proof
  assume "p \<in> f ` set xs"
  then obtain y where "y \<in> set xs" "p = f y" by blast
  with assms(1) have "k \<le> p" by simp
  with assms(2,3) show False by simp
qed

lemma firsts_keys:
  assumes "sorted (map cn_property xs)" "\<And>q. prev = Some q \<Longrightarrow> \<forall>x \<in> set xs. q \<le> cn_property x"
  shows "set (map fst (firsts prev xs)) = cn_property ` set xs - set_option prev"
  using assms
proof (induction xs arbitrary: prev)
  case (Cons x xs)
  have srt: "sorted (map cn_property xs)" "\<forall>y \<in> set xs. cn_property x \<le> cn_property y" using Cons.prems(1) by simp_all
  from Cons.IH [of "Some (cn_property x)", OF srt(1)] srt(2)
  have IH: "fst ` set (firsts (Some (cn_property x)) xs) = cn_property ` set xs - {cn_property x}" by simp
  show ?case
  proof (cases "prev = Some (cn_property x)")
    case False
    have "q \<notin> cn_property ` set (x # xs)" if "prev = Some q" for q
    proof -
      have "q \<le> cn_property x" "q \<noteq> cn_property x" using Cons.prems(2) [OF that] False that by simp_all
      with not_below [OF srt(2) this] show ?thesis by simp
    qed
    then have "set_option prev \<inter> cn_property ` set (x # xs) = {}" by (cases prev) auto
    with False IH show ?thesis by (simp add: Diff_triv Int_commute)
  qed (use IH in auto)
qed simp

lemma firsts_spec:
  assumes "sorted (map cn_property xs)" "\<And>q. prev = Some q \<Longrightarrow> \<forall>x \<in> set xs. q \<le> cn_property x"
  shows "sorted_wrt (<) (map fst (firsts prev xs))"
    and "map_of (firsts prev xs) p = (if prev = Some p then None else map_of (map (\<lambda>x. (cn_property x, cn_writers x)) xs) p)"
    and "snd ` set (firsts prev xs) \<subseteq> cn_writers ` set xs"
proof -
  show "sorted_wrt (<) (map fst (firsts prev xs))"
    using assms
  proof (induction xs arbitrary: prev)
    case (Cons x xs)
    have srt: "sorted (map cn_property xs)" "\<forall>y \<in> set xs. cn_property x \<le> cn_property y" using Cons.prems(1) by simp_all
    have "fst ` set (firsts (Some (cn_property x)) xs) = cn_property ` set xs - {cn_property x}"
      using firsts_keys [of xs "Some (cn_property x)"] srt by simp
    moreover have "cn_property x < q" if "q \<in> cn_property ` set xs - {cn_property x}" for q
      using that srt(2) by (metis DiffE imageE insertCI le_neq_trans)
    ultimately have "\<forall>q \<in> fst ` set (firsts (Some (cn_property x)) xs). cn_property x < q" by metis
    with Cons.IH [of "Some (cn_property x)", OF srt(1)] srt(2) show ?case by simp
  qed simp
  show "map_of (firsts prev xs) p = (if prev = Some p then None else map_of (map (\<lambda>x. (cn_property x, cn_writers x)) xs) p)"
    using assms
  proof (induction xs arbitrary: prev)
    case (Cons x xs)
    have srt: "sorted (map cn_property xs)" "\<forall>y \<in> set xs. cn_property x \<le> cn_property y" using Cons.prems(1) by simp_all
    have IH: "map_of (firsts (Some (cn_property x)) xs) p =
        (if cn_property x = p then None else map_of (map (\<lambda>x. (cn_property x, cn_writers x)) xs) p)"
      using Cons.IH [of "Some (cn_property x)", OF srt(1)] srt(2) by simp
    show ?case
    proof (cases "prev = Some p \<and> p \<noteq> cn_property x")
      case True
      then have "p \<le> cn_property x" "p \<noteq> cn_property x" using Cons.prems(2) [of p] by simp_all
      then have "p \<notin> cn_property ` set xs" by (rule not_below [OF srt(2)])
      then have "map_of (map (\<lambda>x. (cn_property x, cn_writers x)) xs) p = None" by (simp add: map_of_eq_None_iff image_image)
      with True IH show ?thesis by simp
    next
      case False
      then consider "prev = Some p" "cn_property x = p" | "prev \<noteq> Some p" by blast
      then show ?thesis by cases (use IH in auto)
    qed
  qed simp
  show "snd ` set (firsts prev xs) \<subseteq> cn_writers ` set xs"
  proof (induction xs arbitrary: prev)
    case (Cons x xs)
    have "snd ` set (firsts prev (x # xs)) \<subseteq> insert (cn_writers x) (snd ` set (firsts (Some (cn_property x)) xs))" by auto
    with Cons.IH [of "Some (cn_property x)"] show ?case by (simp only: list.set image_insert) blast
  qed simp
qed

subsection \<open>All runs\<close>

text \<open>What composition keeps of an entity, and what it drops.\<close>

definition components_of :: "contribution list \<Rightarrow> component_type_id list" where
  "components_of xs = sorted_list_of_set (cn_component ` set xs)"

definition kept_components :: "contribution list \<Rightarrow> (component_type_id \<times> raw_component) list" where
  "kept_components xs = map (\<lambda>c. (c, \<lparr>rc_properties = firsts None (run_of xs c)\<rparr>))
     (filter (\<lambda>c. \<not> run_disagrees (run_of xs c)) (components_of xs))"

definition dropped_components :: "contribution list \<Rightarrow> component_type_id list" where
  "dropped_components xs = filter (\<lambda>c. run_disagrees (run_of xs c)) (components_of xs)"

lemma set_components_of: "set (components_of xs) = cn_component ` set xs"
  unfolding components_of_def by (rule set_sorted_list_of_set) simp

lemma components_of_Cons:
  assumes "sorted (map cn_component (x # xs))"
  shows "components_of (x # xs) = cn_component x # components_of (filter (\<lambda>y. cn_component y \<noteq> cn_component x) xs)"
proof (rule sorted_wrt_less_unique)
  show "sorted_wrt (<) (components_of (x # xs))" unfolding components_of_def by (rule strict_sorted_list_of_set)
  show "sorted_wrt (<) (cn_component x # components_of (filter (\<lambda>y. cn_component y \<noteq> cn_component x) xs))"
    using assms by (force simp: components_of_def)
  show "set (components_of (x # xs)) = set (cn_component x # components_of (filter (\<lambda>y. cn_component y \<noteq> cn_component x) xs))"
    unfolding set_components_of list.set by (auto simp: set_components_of)
qed

lemma compose_runs_eq:
  assumes "sorted (map cn_component xs)" "\<And>x. x \<in> set xs \<Longrightarrow> rp_writers (cn_writers x) \<noteq> []"
    and "\<And>c. c \<in> fst ` set (re_components out) \<Longrightarrow> c \<notin> cn_component ` set xs"
  shows "compose_runs e xs (out, conflicts) =
    Ok (out\<lparr>re_components := re_components out @ kept_components xs\<rparr>,
        conflicts @ map (\<lambda>c. Property_path e c []) (dropped_components xs))"
  using assms
proof (induction "length xs" arbitrary: xs out conflicts rule: less_induct)
  case less
  show ?case
  proof (cases xs)
    case Nil
    then show ?thesis by (simp add: kept_components_def dropped_components_def components_of_def)
  next
    case (Cons x ys)
    define c where "c = cn_component x"
    define rest where "rest = filter (\<lambda>y. cn_component y \<noteq> c) ys"
    have srt: "sorted (map cn_component (x # ys))" using less.prems(1) Cons by simp
    note runs = sorted_runs [OF srt, folded c_def]
    have run: "x # run_of ys c = run_of xs c" using Cons by (simp add: c_def)
    have other: "run_of xs d = run_of rest d" if "d \<noteq> c" for d
      using that Cons by (auto simp: rest_def c_def filter_filter intro: filter_cong)
    have comps: "components_of xs = c # components_of rest" unfolding Cons c_def rest_def by (rule components_of_Cons [OF srt])
    have c: "c \<notin> set (components_of rest)" by (auto simp: components_of_def rest_def)
    then have d: "d \<noteq> c" if "d \<in> set (components_of rest)" for d using that by blast
    have kept: "kept_components xs = (if run_disagrees (run_of xs c) then [] else [(c, \<lparr>rc_properties = firsts None (run_of xs c)\<rparr>)]) @ kept_components rest"
      using other d by (simp add: kept_components_def comps cong: map_cong filter_cong)
    have dropped: "dropped_components xs = (if run_disagrees (run_of xs c) then [c] else []) @ dropped_components rest"
      using other d by (simp add: dropped_components_def comps cong: filter_cong)
    have "rp_writers (cn_writers y) \<noteq> []" if "y \<in> set (run_of xs c)" for y using less.prems(2) that by simp
    note disagree = schema_versions_disagree_eq [OF this]
    have len: "length rest < length xs" using Cons by (simp add: rest_def le_imp_less_Suc)
    have rest_srt: "sorted (map cn_component rest)" using srt by (simp add: rest_def sorted_filter)
    have IH: "compose_runs e rest (out', conf') = Ok (out'\<lparr>re_components := re_components out' @ kept_components rest\<rparr>,
        conf' @ map (\<lambda>c. Property_path e c []) (dropped_components rest))"
      if "\<And>d. d \<in> fst ` set (re_components out') \<Longrightarrow> d \<notin> cn_component ` set rest" for out' conf'
      by (rule less.hyps [OF len rest_srt _ that]) (use less.prems(2) Cons in \<open>auto simp: rest_def\<close>)
    have step: "compose_runs e xs (out, conflicts) = compose_runs e rest
        (if run_disagrees (run_of xs c) then (out, conflicts @ [Property_path e c []]) else (emit_run None (run_of xs c) out, conflicts))"
      unfolding Cons compose_runs.simps Let_def split_conv c_def [symmetric] runs run [unfolded Cons]
      by (simp add: disagree [unfolded Cons] rest_def)
    have fresh: "re_components out = [] \<or> fst (last (re_components out)) \<noteq> c"
      using less.prems(3) [of c] Cons by (metis c_def imageI last_in_set list.set_intros(1))
    have nonempty: "run_of xs c \<noteq> []" using run by auto
    have emit: "emit_run None (run_of xs c) out = out\<lparr>re_components := re_components out @ [(c, \<lparr>rc_properties = firsts None (run_of xs c)\<rparr>)]\<rparr>"
      by (rule emit_run_new [OF _ nonempty fresh]) simp
    show ?thesis
    proof (cases "run_disagrees (run_of xs c)")
      case True
      have "d \<notin> cn_component ` set rest" if "d \<in> fst ` set (re_components out)" for d
        using less.prems(3) [OF that] Cons by (auto simp: rest_def)
      from IH [OF this] True step kept dropped show ?thesis by simp
    next
      case False
      let ?out = "out\<lparr>re_components := re_components out @ [(c, \<lparr>rc_properties = firsts None (run_of xs c)\<rparr>)]\<rparr>"
      have "d \<notin> cn_component ` set rest" if "d \<in> fst ` set (re_components ?out)" for d
        using less.prems(3) [of d] that Cons by (auto simp: rest_def)
      from IH [of ?out conflicts, OF this] have "compose_runs e rest (?out, conflicts) =
          Ok (out\<lparr>re_components := re_components out @ kept_components xs\<rparr>, conflicts @ map (\<lambda>c. Property_path e c []) (dropped_components xs))"
        using False kept dropped by simp
      with False step show ?thesis by (simp add: emit)
    qed
  qed
qed

end
