(* ===== verification/Compose_Correct.thy ===== *)
theory Compose_Correct
  imports Compose
begin

text \<open>
  Composition is replacement per path: the topmost layer that has a path decides it, and the components whose layers disagree about
  the schema version are dropped.  The sorted contributions are read from the top by \<open>first_some\<close>, which ties the sort to the order
  of the layers.
\<close>

subsection \<open>What composition means\<close>

text \<open>The topmost layer that has a path decides it.\<close>

definition topmost :: "layer_view list \<Rightarrow> property_path \<Rightarrow> raw_property option" where
  "topmost layers q = first_some (\<lambda>layer. layer_value layer q) (rev layers)"

text \<open>A layer's stamp of a component, and whether a layer that supplied data stamped it otherwise than the winning stamp.\<close>

definition stamp_value :: "raw_property \<Rightarrow> value_view option" where
  "stamp_value v = (if length (rp_writers v) = 1 then Some (pv_value (rp_writers v ! 0)) else None)"

definition layer_stamp :: "entity_id \<Rightarrow> component_type_id \<Rightarrow> layer_view \<Rightarrow> value_view option" where
  "layer_stamp e c layer = Option.bind (layer_value layer (Property_path e c reserved_schema_version)) stamp_value"

definition versions_disagree :: "layer_view list \<Rightarrow> entity_id \<Rightarrow> component_type_id \<Rightarrow> bool" where
  "versions_disagree layers e c \<longleftrightarrow> (\<exists>layer \<in> set layers. \<exists>v w. first_some (layer_stamp e c) (rev layers) = Some w \<and>
     layer_stamp e c layer = Some v \<and> v \<noteq> w \<and> (\<exists>p. \<not> is_reserved p \<and> layer_value layer (Property_path e c p) \<noteq> None))"

lemma run_sorted:
  "sorted_wrt (\<lambda>a b. cn_key a \<le> cn_key b) (run_of (contributions layers e) c)"
  using contributions_sorted [of layers e] by (simp add: sorted_map sorted_wrt_filter)

lemma run_first:
  assumes ok: "layers_readable layers"
  shows "first_some (\<lambda>x. if cn_property x = p then val (cn_writers x) else None) (run_of (contributions layers e) c) =
    first_some (\<lambda>layer. Option.bind (layer_value layer (Property_path e c p)) val) (rev layers)"
  (is "first_some ?f ?run = first_some ?g _")
proof (cases "first_some ?g (rev layers)")
  case None
  then have "\<forall>layer \<in> set layers. ?g layer = None" by (simp add: first_some_None)
  then have "\<forall>x \<in> set ?run. ?f x = None" by (auto simp: contributions_iff [OF ok]) (metis bind.bind_lunit nth_mem)
  then have "first_some ?f ?run = None" by (simp only: first_some_None)
  with None show ?thesis by simp
next
  case (Some w)
  from first_some_rev [OF Some] obtain i where i: "i < length layers" "?g (layers ! i) = Some w"
    "\<forall>j < length layers. i < j \<longrightarrow> ?g (layers ! j) = None" by blast
  from i(2) obtain v where v: "layer_value (layers ! i) (Property_path e c p) = Some v" "val v = Some w"
    by (auto simp: Option.bind_eq_Some_conv)
  let ?n = "int (length layers)"
  let ?x = "\<lparr>cn_component = c, cn_property = p, cn_writers = v, cn_rank = ?n - 1 - int i\<rparr>"
  have x: "?x \<in> set ?run" using i(1) v(1) by (auto simp: contributions_iff [OF ok])
  have srt: "sorted_wrt (\<lambda>a b. ?f a \<noteq> None \<longrightarrow> ?f b \<noteq> None \<longrightarrow> cn_rank a \<le> cn_rank b) ?run"
    by (rule sorted_wrt_mono_rel [OF _ run_sorted]) (auto simp: cn_key_def less_eq_prod_def split: if_splits)
  have at: "\<exists>j < length layers. cn_rank y = ?n - 1 - int j \<and> cn_property y = p \<and> layer_value (layers ! j) (Property_path e c p) = Some (cn_writers y)"
    if "y \<in> set ?run" "?f y \<noteq> None" for y
    using that by (auto simp: contributions_iff [OF ok] split: if_splits)
  have "first_some ?f ?run = Some w"
  proof (rule first_some_min [OF srt _ x])
    show "?f a = ?f b" if ab: "a \<in> set ?run" "b \<in> set ?run" "?f a \<noteq> None" "?f b \<noteq> None" "cn_rank a = cn_rank b" for a b
    proof -
      from at [OF ab(1,3)] obtain j where j: "j < length layers" "cn_rank a = ?n - 1 - int j" "cn_property a = p"
        "layer_value (layers ! j) (Property_path e c p) = Some (cn_writers a)" by blast
      from at [OF ab(2,4)] obtain k where k: "k < length layers" "cn_rank b = ?n - 1 - int k" "cn_property b = p"
        "layer_value (layers ! k) (Property_path e c p) = Some (cn_writers b)" by blast
      from j(2) k(2) ab(5) have "j = k" by linarith
      with j(4) k(4) have "cn_writers a = cn_writers b" by simp
      with j(3) k(3) show ?thesis by simp
    qed
    show "?f ?x = Some w" using v(2) by simp
    show "cn_rank ?x \<le> cn_rank y" if y: "y \<in> set ?run" "?f y \<noteq> None" for y
    proof -
      from at [OF y] obtain j where j: "j < length layers" "cn_rank y = ?n - 1 - int j" "cn_property y = p"
        "layer_value (layers ! j) (Property_path e c p) = Some (cn_writers y)" by blast
      have "?f y = val (cn_writers y)" using j(3) by simp
      moreover have "?g (layers ! j) = val (cn_writers y)" using j(4) by simp
      ultimately have "?g (layers ! j) = ?f y" by (rule trans [OF _ sym, rotated])
      with y(2) have "?g (layers ! j) \<noteq> None" by (simp only: not_False_eq_True)
      then have "\<not> i < j" using i(3) [rule_format, OF j(1)] by (rule contrapos_nn)
      with j(2) show ?thesis by simp
    qed
  qed
  with Some show ?thesis by simp
qed

lemma run_topmost:
  assumes "layers_readable layers"
  shows "map_of (map (\<lambda>x. (cn_property x, cn_writers x)) (run_of (contributions layers e) c)) p = topmost layers (Property_path e c p)"
  unfolding map_of_first_some topmost_def using run_first [OF assms, where p = p and val = Some and e = e and c = c] by simp

lemma run_disagrees_iff:
  assumes ok: "layers_readable layers"
  shows "run_disagrees (run_of (contributions layers e) c) \<longleftrightarrow> versions_disagree layers e c"
proof -
  let ?run = "run_of (contributions layers e) c" and ?n = "int (length layers)"
  have stamp: "stamp_of = (\<lambda>x. if cn_property x = reserved_schema_version then stamp_value (cn_writers x) else None)"
    by (auto simp: stamp_of_def stamp_value_def fun_eq_iff)
  have first: "first_some stamp_of ?run = first_some (layer_stamp e c) (rev layers)"
    unfolding stamp using run_first [OF ok, where p = reserved_schema_version and val = stamp_value and e = e and c = c] by (simp add: layer_stamp_def [abs_def])
  have member: "x \<in> set ?run \<longleftrightarrow> cn_component x = c \<and> (\<exists>i < length layers. cn_rank x = ?n - 1 - int i \<and>
      layer_value (layers ! i) (Property_path e c (cn_property x)) = Some (cn_writers x))" for x
    by (auto simp: contributions_iff [OF ok])
  have data: "(\<exists>y \<in> set ?run. cn_rank y = ?n - 1 - int i \<and> \<not> is_reserved (cn_property y)) \<longleftrightarrow>
      (\<exists>p. \<not> is_reserved p \<and> layer_value (layers ! i) (Property_path e c p) \<noteq> None)" if "i < length layers" for i
  proof
    assume "\<exists>y \<in> set ?run. cn_rank y = ?n - 1 - int i \<and> \<not> is_reserved (cn_property y)"
    then obtain y where y: "y \<in> set ?run" "cn_rank y = ?n - 1 - int i" "\<not> is_reserved (cn_property y)" by blast
    from y(1) obtain j where j: "j < length layers" "cn_rank y = ?n - 1 - int j"
      "layer_value (layers ! j) (Property_path e c (cn_property y)) = Some (cn_writers y)" unfolding member by blast
    from y(2) j(2) have "j = i" by linarith
    with y(3) j(3) show "\<exists>p. \<not> is_reserved p \<and> layer_value (layers ! i) (Property_path e c p) \<noteq> None" by blast
  next
    assume "\<exists>p. \<not> is_reserved p \<and> layer_value (layers ! i) (Property_path e c p) \<noteq> None"
    then obtain p v where p: "\<not> is_reserved p" "layer_value (layers ! i) (Property_path e c p) = Some v" by blast
    with that show "\<exists>y \<in> set ?run. cn_rank y = ?n - 1 - int i \<and> \<not> is_reserved (cn_property y)"
      by (intro bexI [of _ "\<lparr>cn_component = c, cn_property = p, cn_writers = v, cn_rank = ?n - 1 - int i\<rparr>"])
        (auto simp: contributions_iff [OF ok])
  qed
  have stamps: "(\<exists>x \<in> set ?run. cn_rank x = ?n - 1 - int i \<and> stamp_of x = Some v) \<longleftrightarrow> layer_stamp e c (layers ! i) = Some v"
    if "i < length layers" for i v
  proof
    assume "\<exists>x \<in> set ?run. cn_rank x = ?n - 1 - int i \<and> stamp_of x = Some v"
    then obtain x where x: "x \<in> set ?run" "cn_rank x = ?n - 1 - int i" "stamp_of x = Some v" by blast
    from x(1) obtain j where j: "j < length layers" "cn_rank x = ?n - 1 - int j"
      "layer_value (layers ! j) (Property_path e c (cn_property x)) = Some (cn_writers x)" unfolding member by blast
    from x(2) j(2) have "j = i" by linarith
    with x(3) j(3) show "layer_stamp e c (layers ! i) = Some v" by (simp add: stamp layer_stamp_def split: if_splits)
  next
    assume "layer_stamp e c (layers ! i) = Some v"
    then obtain u where u: "layer_value (layers ! i) (Property_path e c reserved_schema_version) = Some u" "stamp_value u = Some v"
      by (auto simp: layer_stamp_def Option.bind_eq_Some_conv)
    with that show "\<exists>x \<in> set ?run. cn_rank x = ?n - 1 - int i \<and> stamp_of x = Some v"
      by (intro bexI [of _ "\<lparr>cn_component = c, cn_property = reserved_schema_version, cn_writers = u, cn_rank = ?n - 1 - int i\<rparr>"])
        (auto simp: contributions_iff [OF ok] stamp)
  qed
  have "run_disagrees ?run \<longleftrightarrow> (\<exists>i < length layers. \<exists>v w. first_some stamp_of ?run = Some w \<and>
      (\<exists>x \<in> set ?run. cn_rank x = ?n - 1 - int i \<and> stamp_of x = Some v) \<and> v \<noteq> w \<and>
      (\<exists>y \<in> set ?run. cn_rank y = ?n - 1 - int i \<and> \<not> is_reserved (cn_property y)))"
  proof
    assume "run_disagrees ?run"
    then obtain x v w y where x: "x \<in> set ?run" "first_some stamp_of ?run = Some w" "stamp_of x = Some v" "v \<noteq> w"
      "y \<in> set ?run" "cn_rank y = cn_rank x" "\<not> is_reserved (cn_property y)" unfolding run_disagrees_def by blast
    from x(1) obtain i where i: "i < length layers" "cn_rank x = ?n - 1 - int i" unfolding member by blast
    show "\<exists>i < length layers. \<exists>v w. first_some stamp_of ?run = Some w \<and>
      (\<exists>x \<in> set ?run. cn_rank x = ?n - 1 - int i \<and> stamp_of x = Some v) \<and> v \<noteq> w \<and>
      (\<exists>y \<in> set ?run. cn_rank y = ?n - 1 - int i \<and> \<not> is_reserved (cn_property y))"
      by (rule exI [of _ i], intro conjI exI [of _ v] exI [of _ w] bexI [OF _ x(1)] bexI [OF _ x(5)] i x(2-4,7))
        (use i(2) x(6) in argo)
  next
    assume "\<exists>i < length layers. \<exists>v w. first_some stamp_of ?run = Some w \<and>
      (\<exists>x \<in> set ?run. cn_rank x = ?n - 1 - int i \<and> stamp_of x = Some v) \<and> v \<noteq> w \<and>
      (\<exists>y \<in> set ?run. cn_rank y = ?n - 1 - int i \<and> \<not> is_reserved (cn_property y))"
    then obtain i v w x y where x: "first_some stamp_of ?run = Some w" "x \<in> set ?run" "cn_rank x = ?n - 1 - int i" "stamp_of x = Some v"
      "v \<noteq> w" "y \<in> set ?run" "cn_rank y = ?n - 1 - int i" "\<not> is_reserved (cn_property y)" by blast
    have "cn_rank y = cn_rank x" using x(3,7) by argo
    with x show "run_disagrees ?run" unfolding run_disagrees_def by blast
  qed
  also have "\<dots> \<longleftrightarrow> (\<exists>i < length layers. \<exists>v w. first_some (layer_stamp e c) (rev layers) = Some w \<and> layer_stamp e c (layers ! i) = Some v \<and>
      v \<noteq> w \<and> (\<exists>p. \<not> is_reserved p \<and> layer_value (layers ! i) (Property_path e c p) \<noteq> None))"
    by (intro ex_cong1 conj_cong refl) (simp_all only: data stamps first)
  also have "\<dots> \<longleftrightarrow> versions_disagree layers e c"
    unfolding versions_disagree_def by (metis in_set_conv_nth)
  finally show ?thesis .
qed

text \<open>The composed entity.\<close>

definition composed_entity :: "layer_view list \<Rightarrow> entity_id \<Rightarrow> raw_entity option" where
  "composed_entity layers e =
     (let cs = kept_components (contributions layers e) in if cs = [] then None else Some \<lparr>re_components = cs\<rparr>)"

lemma map_of_kept:
  "map_of (kept_components xs) c =
    (if c \<in> set (components_of xs) \<and> \<not> run_disagrees (run_of xs c) then Some \<lparr>rc_properties = firsts None (run_of xs c)\<rparr> else None)"
proof -
  have "map_of (map (\<lambda>c. (c, f c)) cs) c = (if c \<in> set cs then Some (f c) else None)" for f :: "component_type_id \<Rightarrow> raw_component" and cs
    by (induction cs) auto
  then show ?thesis by (simp add: kept_components_def)
qed

lemma run_properties_sorted: "sorted (map cn_property (run_of (contributions layers e) c))"
  using run_sorted [where layers = layers and e = e and c = c] unfolding sorted_map
  by (rule sorted_wrt_mono_rel [rotated]) (auto simp: cn_key_def less_eq_prod_def)

lemma kept_components_readable:
  assumes "layers_readable layers"
  shows "readable_entity \<lparr>re_components = kept_components (contributions layers e)\<rparr>"
proof -
  let ?xs = "contributions layers e"
  have "map fst (kept_components ?xs) = filter (\<lambda>c. \<not> run_disagrees (run_of ?xs c)) (components_of ?xs)"
    by (simp add: kept_components_def comp_def)
  moreover have "sorted_wrt (<) (components_of ?xs)" unfolding components_of_def by (rule strict_sorted_list_of_set)
  ultimately have "sorted_wrt (<) (map fst (kept_components ?xs))" by (simp add: sorted_wrt_filter)
  moreover have "readable_component \<lparr>rc_properties = firsts None (run_of ?xs c)\<rparr>" for c
  proof -
    have "sorted_wrt (<) (map fst (firsts None (run_of ?xs c)))" "snd ` set (firsts None (run_of ?xs c)) \<subseteq> cn_writers ` set (run_of ?xs c)"
      using firsts_spec(1,3) [of "run_of ?xs c" None] run_properties_sorted by simp_all
    then show ?thesis using contributions_writers [OF assms] by (force simp: readable_component_def)
  qed
  ultimately show ?thesis by (auto simp: readable_entity_def kept_components_def)
qed

text \<open>A path of the composed entity: the topmost layer's, unless the component was dropped.\<close>

lemma kept_components_value:
  assumes "layers_readable layers"
  shows "(case map_of (kept_components (contributions layers e)) c of None \<Rightarrow> None | Some cmp \<Rightarrow> map_of (rc_properties cmp) p) =
    (if versions_disagree layers e c then None else topmost layers (Property_path e c p))"
proof -
  let ?xs = "contributions layers e"
  have val: "map_of (firsts None (run_of ?xs c)) p = topmost layers (Property_path e c p)"
    using firsts_spec(2) [of "run_of ?xs c" None p] run_properties_sorted run_topmost [OF assms] by simp
  have "topmost layers (Property_path e c p) = None" if "c \<notin> set (components_of ?xs)"
  proof -
    have "run_of ?xs c = []" using that by (auto simp: set_components_of filter_empty_conv)
    with val show ?thesis by simp
  qed
  with val show ?thesis by (simp add: map_of_kept run_disagrees_iff [OF assms])
qed

lemma compose_eq:
  assumes "layers_readable layers"
  shows "compose layers entities = Ok \<lparr>cd_entities = entities,
    cd_composed = map (\<lambda>e. \<lparr>re_components = kept_components (contributions layers e)\<rparr>) entities,
    cd_schema_version_conflicts = concat (map (\<lambda>e. map (\<lambda>c. Property_path e c []) (dropped_components (contributions layers e))) entities)\<rparr>"
proof -
  have one: "compose_one layers e (front, conf) = Ok (front @ [\<lparr>re_components = kept_components (contributions layers e)\<rparr>],
      conf @ map (\<lambda>c. Property_path e c []) (dropped_components (contributions layers e)))" for e front conf
  proof -
    have "sorted (map cn_component (contributions layers e))"
      using contributions_sorted [of layers e] unfolding sorted_map
      by (rule sorted_wrt_mono_rel [rotated]) (auto simp: cn_key_def less_eq_prod_def)
    moreover have "rp_writers (cn_writers x) \<noteq> []" if "x \<in> set (contributions layers e)" for x
      using contributions_writers [OF assms that] by (simp add: readable_property_def)
    ultimately show ?thesis using compose_runs_eq [of "contributions layers e" "\<lparr>re_components = []\<rparr>" e conf]
      by (simp add: compose_one_def contributions_def Let_def)
  qed
  have "rfold (compose_one layers) es (front, conf) = Ok (front @ map (\<lambda>e. \<lparr>re_components = kept_components (contributions layers e)\<rparr>) es,
      conf @ concat (map (\<lambda>e. map (\<lambda>c. Property_path e c []) (dropped_components (contributions layers e))) es))" for es front conf
    by (induction es arbitrary: front conf) (simp_all add: one)
  then show ?thesis by (simp add: compose_def)
qed

lemma composed_try_get_eq:
  assumes "layers_readable layers" "sorted_wrt (<) entities" "compose layers entities = Ok cd"
  shows "composed_try_get cd e = (if e \<in> set entities then composed_entity layers e else None)"
proof -
  have cd: "cd_entities cd = entities" "cd_composed cd = map (\<lambda>e. \<lparr>re_components = kept_components (contributions layers e)\<rparr>) entities"
    using assms(3) by (auto simp: compose_eq [OF assms(1)])
  show ?thesis
  proof (cases "find_in_sorted entities e (<)")
    case None
    then have "e \<notin> set entities" by (simp add: find_in_sorted_None [OF assms(2)])
    with None show ?thesis by (simp add: composed_try_get_def cd)
  next
    case (Some i)
    then have "i < length entities" "entities ! i = e" using find_in_sorted_Some [OF assms(2)] by blast+
    with Some show ?thesis by (auto simp: composed_try_get_def cd composed_entity_def Let_def)
  qed
qed

text \<open>Every entity some layer carries, once and in order.\<close>

lemma compose_entities_eq:
  "compose_entities layers = sorted_list_of_set (\<Union>d \<in> {d. Some d \<in> set layers}. fst ` set (rd_entities d))"
proof -
  let ?f = "\<lambda>kept e. if kept \<noteq> [] \<and> last kept = e then kept else kept @ [e]"
  have dedup: "sorted_wrt (<) (foldl ?f [] xs) \<and> set (foldl ?f [] xs) = set xs \<and> (xs \<noteq> [] \<longrightarrow> foldl ?f [] xs \<noteq> [] \<and> last (foldl ?f [] xs) = last xs)"
    if "sorted xs" for xs :: "entity_id list"
    using that
  proof (induction xs rule: rev_induct)
    case (snoc x xs)
    let ?r = "foldl ?f [] xs"
    have srt: "sorted xs" "\<forall>y \<in> set xs. y \<le> x" using snoc.prems by (simp_all add: sorted_append)
    note IH = snoc.IH [OF srt(1)]
    have "y \<le> last r" if "sorted_wrt (<) r" "y \<in> set r" for y and r :: "entity_id list"
      using that
    proof (induction r)
      case (Cons x r)
      show ?case
      proof (cases "r = []")
        case False
        then have "x < last r" using Cons.prems(1) by simp
        with False Cons show ?thesis by (auto simp: less_imp_le)
      qed (use Cons in simp)
    qed simp
    then have "y < x" if "y \<in> set ?r" "last ?r \<noteq> x" for y
    proof -
      have "xs \<noteq> []" using IH that(1) by auto
      then have "last ?r = last xs" "last xs \<in> set xs" using IH by simp_all
      with srt(2) that(2) have "last ?r < x" by (metis nless_le)
      moreover have "y \<le> last ?r" using \<open>\<And>y r. sorted_wrt (<) r \<Longrightarrow> y \<in> set r \<Longrightarrow> y \<le> last r\<close> IH that(1) by blast
      ultimately show ?thesis by simp
    qed
    with IH have "sorted_wrt (<) (?f ?r x)" by (cases "xs = []") (simp_all add: sorted_wrt_append)
    moreover have "set (?f ?r x) = insert x (set xs)" using IH by (auto dest: last_in_set)
    ultimately show ?case by simp
  qed simp
  let ?xs = "concat (map (\<lambda>d. case d of None \<Rightarrow> [] | Some doc \<Rightarrow> map fst (rd_entities doc)) layers)"
  have "set ?xs = (\<Union>d \<in> {d. Some d \<in> set layers}. fst ` set (rd_entities d))"
    by (force split: option.splits)
  moreover have "sorted (cc_sort (<) ?xs)" by (simp add: cc_sort_eq_sort)
  note dedup [OF this]
  ultimately have "sorted_wrt (<) (compose_entities layers)"
    "set (compose_entities layers) = (\<Union>d \<in> {d. Some d \<in> set layers}. fst ` set (rd_entities d))"
    by (simp_all add: compose_entities_def Let_def)
  then show ?thesis by (metis strict_sorted_equal strict_sorted_list_of_set set_sorted_list_of_set List.finite_set)
qed

lemma compose_entities_complete:
  assumes "layers_readable layers" "e \<notin> set (compose_entities layers)"
  shows "composed_entity layers e = None"
proof -
  have fin: "finite (\<Union>d \<in> {d. Some d \<in> set layers}. fst ` set (rd_entities d))"
    by (rule finite_subset [of _ "\<Union>d \<in> the ` set layers. fst ` set (rd_entities d)"]) (force, simp)
  have "layer_value layer (Property_path e c p) = None" if "layer \<in> set layers" for layer c p
  proof (cases layer)
    case (Some d)
    then have "readable_document d" using assms(1) that by (simp add: layers_readable_def)
    moreover have "e \<notin> fst ` set (rd_entities d)" using assms(2) that Some fin by (auto simp: compose_entities_eq)
    ultimately have "document_try_get_entity d e = None" by (simp add: readable_try_get(1) map_of_eq_None_iff)
    with Some \<open>readable_document d\<close> show ?thesis by (simp add: layer_value_def readable_try_get(3))
  qed (simp add: layer_value_def)
  then have "contributions layers e = []"
    using contributions_iff [OF assms(1), of _ e] by (metis all_nth_imp_all_set last_in_set nth_mem option.distinct(1))
  then show ?thesis by (simp add: composed_entity_def kept_components_def components_of_def)
qed

definition composed_value :: "composed_document \<Rightarrow> property_path \<Rightarrow> raw_property option" where
  "composed_value cd q =
     (case composed_try_get cd (pp_entity q) of
        None \<Rightarrow> None
      | Some raw \<Rightarrow>
          (case entity_try_get raw (pp_component q) of None \<Rightarrow> None | Some cmp \<Rightarrow> component_try_get cmp (pp_property q)))"

lemma composed_entity_readable: "layers_readable layers \<Longrightarrow> composed_entity layers e = Some raw \<Longrightarrow> readable_entity raw"
  using kept_components_readable [of layers e] by (auto simp: composed_entity_def Let_def split: if_splits)

lemma composed_entity_value:
  assumes "layers_readable layers"
  shows "(case composed_entity layers e of None \<Rightarrow> None | Some raw \<Rightarrow>
      (case entity_try_get raw c of None \<Rightarrow> None | Some cmp \<Rightarrow> component_try_get cmp p)) =
    (if versions_disagree layers e c then None else topmost layers (Property_path e c p))"
proof (cases "composed_entity layers e")
  case None
  then have "kept_components (contributions layers e) = []" by (simp add: composed_entity_def Let_def split: if_splits)
  with kept_components_value [OF assms, where e = e and c = c and p = p] None show ?thesis by simp
next
  case (Some raw)
  then have raw: "raw = \<lparr>re_components = kept_components (contributions layers e)\<rparr>" by (simp add: composed_entity_def Let_def split: if_splits)
  have r: "readable_entity raw" using kept_components_readable [OF assms] raw by simp
  then have "entity_try_get raw c = map_of (re_components raw) c" by (simp add: readable_entity_def entity_try_get_def level.lookup_map_of)
  moreover have "component_try_get cmp p = map_of (rc_properties cmp) p" if "map_of (re_components raw) c = Some cmp" for cmp
    using r that by (force simp: readable_entity_def readable_component_def component_try_get_def level.lookup_map_of dest: map_of_SomeD)
  ultimately show ?thesis using kept_components_value [OF assms, where e = e and c = c and p = p] Some raw
    by (cases "map_of (kept_components (contributions layers e)) c") simp_all
qed

lemma disagreeing_components:
  assumes "layers_readable layers"
  shows "set (dropped_components (contributions layers e)) = {c. versions_disagree layers e c}"
proof -
  have "c \<in> set (components_of (contributions layers e))" if "run_disagrees (run_of (contributions layers e) c)" for c
    using that by (auto simp: run_disagrees_def set_components_of)
  then show ?thesis by (auto simp: dropped_components_def run_disagrees_iff [OF assms])
qed

text \<open>
  C11. Composition is replacement per path: every path of a composed entity has the topmost layer's value, with all its writers, unless
  the layers that supplied data to its component disagree with the winning schema version stamp; exactly those components are
  dropped and recorded, once each, and what is left can be parsed.
\<close>

theorem compose_exact:
  assumes "layers_readable layers" "sorted_wrt (<) entities"
  shows "\<exists>cd. compose layers entities = Ok cd \<and>
    (\<forall>q. composed_value cd q =
       (if pp_entity q \<in> set entities \<and> \<not> versions_disagree layers (pp_entity q) (pp_component q) then topmost layers q else None)) \<and>
    distinct (cd_schema_version_conflicts cd) \<and>
    set (cd_schema_version_conflicts cd) = {Property_path e c [] |e c. e \<in> set entities \<and> versions_disagree layers e c} \<and>
    (\<forall>e raw. composed_try_get cd e = Some raw \<longrightarrow> readable_entity raw)"
proof -
  from compose_eq [OF assms(1)] obtain cd where cd: "compose layers entities = Ok cd"
    "cd_schema_version_conflicts cd = concat (map (\<lambda>e. map (\<lambda>c. Property_path e c []) (dropped_components (contributions layers e))) entities)"
    by fastforce
  note get = composed_try_get_eq [OF assms cd(1)]
  have "composed_value cd q = (if pp_entity q \<in> set entities \<and> \<not> versions_disagree layers (pp_entity q) (pp_component q)
      then topmost layers q else None)" for q
    using composed_entity_value [OF assms(1), where e = "pp_entity q" and c = "pp_component q" and p = "pp_property q"]
    by (simp add: composed_value_def get)
  moreover have "distinct (concat (map (\<lambda>e. map (\<lambda>c. Property_path e c []) (dropped_components (contributions layers e))) es))"
    if "distinct es" for es
    using that
  proof (induction es)
    case (Cons e es)
    have "distinct (components_of (contributions layers e))"
      using strict_sorted_list_of_set [of "cn_component ` set (contributions layers e)"] by (simp add: components_of_def strict_sorted_iff)
    then have "distinct (map (\<lambda>c. Property_path e c []) (dropped_components (contributions layers e)))"
      by (simp add: distinct_map inj_on_def dropped_components_def)
    with Cons show ?case by auto
  qed simp
  then have "distinct (cd_schema_version_conflicts cd)" using assms(2) cd(2) by (simp add: strict_sorted_iff)
  moreover have "set (cd_schema_version_conflicts cd) = {Property_path e c [] |e c. e \<in> set entities \<and> versions_disagree layers e c}"
    unfolding cd(2) by (auto simp: disagreeing_components [OF assms(1)])
  moreover have "\<forall>e raw. composed_try_get cd e = Some raw \<longrightarrow> readable_entity raw"
    using composed_entity_readable [OF assms(1)] by (simp add: get)
  ultimately show ?thesis using cd(1) by blast
qed

text \<open>A layer over a stamped base that overrides one property.\<close>

definition sample_override :: raw_document where
  "sample_override = \<lparr>rd_entities = [([5], \<lparr>re_components = [([1], \<lparr>rc_properties =
     [([120], \<lparr>rp_writers = [\<lparr>pv_writer = sample_op 3, pv_value = enc (VInt 7)\<rparr>]\<rparr>)]\<rparr>)]\<rparr>)]\<rparr>"

lemma sample_layers_readable: "layers_readable [Some sample_raw, None, Some sample_override]"
proof -
  have "readable_document sample_override"
    by (simp add: readable_document_def sample_override_def readable_entity_def readable_component_def readable_property_def
        encoded_value_enc del: enc.simps)
  with sample_parse_ok(2) show ?thesis by (auto simp: layers_readable_def)
qed

lemma sample_layer_values:
  "layer_value (Some sample_raw) (Property_path [5] [1] reserved_schema_version) =
     Some \<lparr>rp_writers = [\<lparr>pv_writer = sample_op 1, pv_value = enc (VInt 1)\<rparr>]\<rparr>"
  "layer_value (Some sample_override) (Property_path [5] [1] reserved_schema_version) = None"
  "layer_value (Some sample_override) (Property_path [5] [1] [120]) =
     Some \<lparr>rp_writers = [\<lparr>pv_writer = sample_op 3, pv_value = enc (VInt 7)\<rparr>]\<rparr>"
  using sample_layers_readable sample_parse_ok(2)
  by (simp_all add: layers_readable_def layer_value_def readable_try_get(1,3) sample_raw_def sample_override_def reserved_schema_version_def
      del: enc.simps)

lemma compose_exact_witness:
  "\<exists>cd. compose [Some sample_raw, None, Some sample_override] [[5]] = Ok cd \<and>
     composed_value cd (Property_path [5] [1] [120]) = Some \<lparr>rp_writers = [\<lparr>pv_writer = sample_op 3, pv_value = enc (VInt 7)\<rparr>]\<rparr> \<and>
     composed_value cd (Property_path [5] [1] reserved_schema_version) =
       Some \<lparr>rp_writers = [\<lparr>pv_writer = sample_op 1, pv_value = enc (VInt 1)\<rparr>]\<rparr>"
proof -
  let ?layers = "[Some sample_raw, None, Some sample_override]"
  have null: "layer_value None q = None" for q by (simp add: layer_value_def)
  have "\<not> versions_disagree ?layers [5] [1]"
    by (auto simp: versions_disagree_def layer_stamp_def null sample_layer_values simp del: enc.simps)
  moreover have "topmost ?layers (Property_path [5] [1] [120]) = Some \<lparr>rp_writers = [\<lparr>pv_writer = sample_op 3, pv_value = enc (VInt 7)\<rparr>]\<rparr>"
    "topmost ?layers (Property_path [5] [1] reserved_schema_version) = Some \<lparr>rp_writers = [\<lparr>pv_writer = sample_op 1, pv_value = enc (VInt 1)\<rparr>]\<rparr>"
    by (simp_all add: topmost_def null sample_layer_values del: enc.simps)
  ultimately show ?thesis using compose_exact [OF sample_layers_readable, of "[[5]]"] by (auto simp del: enc.simps)
qed

end
