(* ===== verification/Layer_Stack.thy ===== *)
theory Layer_Stack
  imports Apply_Delta Compose_Correct Direct_Layer
begin

text \<open>
  An ordered stack of layers, composed into one typed document (layer_stack.hh/.cc).  The op graphs, snapshot caches and direct
  layers a stack points to live outside it: a pointer is a key of the store \<open>layer_world\<close>, which every operation that writes
  through one returns.
\<close>

record layer_handle =
  lh_index :: "32 word"
  lh_generation :: "32 word"

definition no_handle :: layer_handle where
  "no_handle = \<lparr>lh_index = 0, lh_generation = 0\<rparr>"

definition handle_is_valid :: "layer_handle \<Rightarrow> bool" where
  "handle_is_valid h \<longleftrightarrow> lh_generation h \<noteq> 0"

record layer_world =
  lw_graphs :: "nat \<rightharpoonup> op_graph"
  lw_caches :: "nat \<rightharpoonup> snapshot_cache"
  lw_direct :: "nat \<rightharpoonup> direct_layer"

record stack_layer =
  ly_name :: str
  ly_generation :: "32 word"
  ly_muted :: bool
  ly_graph :: "nat option"
  ly_head :: op_id
  ly_cache :: "nat option"
  ly_direct :: "nat option"
  ly_recorded_head :: op_id
  ly_recorded_version :: "64 word"

record 'c layer_stack =
  ls_layers :: "stack_layer list"
  ls_materialized :: "raw_document list"
  ls_composed :: "'c document"
  ls_next_generation :: "32 word"
  ls_structure_dirty :: bool

definition new_layer_stack :: "'c layer_stack" where
  "new_layer_stack = \<lparr>ls_layers = [], ls_materialized = [], ls_composed = empty_document, ls_next_generation = 1,
     ls_structure_dirty = True\<rparr>"

definition is_graph :: "stack_layer \<Rightarrow> bool" where
  "is_graph l \<longleftrightarrow> ly_graph l \<noteq> None"

definition deref :: "(nat \<rightharpoonup> 'a) \<Rightarrow> nat option \<Rightarrow> 'a checked" where
  "deref store p = (case Option.bind p store of None \<Rightarrow> Fault | Some x \<Rightarrow> Ok x)"

definition empty_raw_document :: raw_document where
  "empty_raw_document = \<lparr>rd_entities = []\<rparr>"

subsection \<open>Structure\<close>

definition push_layer :: "stack_layer \<Rightarrow> 'c layer_stack \<Rightarrow> layer_handle \<times> 'c layer_stack" where
  "push_layer l st =
     (let generation = ls_next_generation st;
          layers = ls_layers st @ [l\<lparr>ly_generation := generation\<rparr>] in
      (\<lparr>lh_index = of_nat (length layers - 1), lh_generation = generation\<rparr>,
       st\<lparr>ls_layers := layers, ls_materialized := ls_materialized st @ [empty_raw_document],
          ls_next_generation := generation + 1, ls_structure_dirty := True\<rparr>))"

definition push_graph_layer :: "str \<Rightarrow> nat \<Rightarrow> op_id \<Rightarrow> nat option \<Rightarrow> 'c layer_stack \<Rightarrow> layer_handle \<times> 'c layer_stack" where
  "push_graph_layer name graph head cache st =
     push_layer \<lparr>ly_name = name, ly_generation = 0, ly_muted = False, ly_graph = Some graph, ly_head = head, ly_cache = cache,
       ly_direct = None, ly_recorded_head = no_writer, ly_recorded_version = 0\<rparr> st"

definition push_direct_layer :: "str \<Rightarrow> nat \<Rightarrow> 'c layer_stack \<Rightarrow> layer_handle \<times> 'c layer_stack" where
  "push_direct_layer name layer_ref st =
     push_layer \<lparr>ly_name = name, ly_generation = 0, ly_muted = False, ly_graph = None, ly_head = no_writer, ly_cache = None,
       ly_direct = Some layer_ref, ly_recorded_head = no_writer, ly_recorded_version = 0\<rparr> st"

definition stack_find :: "layer_handle \<Rightarrow> 'c layer_stack \<Rightarrow> nat option" where
  "stack_find h st =
     (if \<not> handle_is_valid h \<or> unat (lh_index h) \<ge> length (ls_layers st) then None
      else if ly_generation (ls_layers st ! unat (lh_index h)) = lh_generation h then Some (unat (lh_index h)) else None)"

definition set_head :: "layer_handle \<Rightarrow> op_id \<Rightarrow> 'c layer_stack \<Rightarrow> 'c layer_stack checked" where
  "set_head h head st =
     (case stack_find h st of
        None \<Rightarrow> Fault
      | Some i \<Rightarrow>
          rbind (check (is_graph (ls_layers st ! i))) (\<lambda>_.
          Ok (st\<lparr>ls_layers := (ls_layers st)[i := (ls_layers st ! i)\<lparr>ly_head := head\<rparr>]\<rparr>)))"

definition head_of :: "layer_handle \<Rightarrow> 'c layer_stack \<Rightarrow> op_id checked" where
  "head_of h st =
     (case stack_find h st of
        None \<Rightarrow> Fault
      | Some i \<Rightarrow> rbind (check (is_graph (ls_layers st ! i))) (\<lambda>_. Ok (ly_head (ls_layers st ! i))))"

definition set_muted :: "layer_handle \<Rightarrow> bool \<Rightarrow> 'c layer_stack \<Rightarrow> 'c layer_stack checked" where
  "set_muted h muted st =
     (case stack_find h st of
        None \<Rightarrow> Fault
      | Some i \<Rightarrow>
          if ly_muted (ls_layers st ! i) = muted then Ok st
          else Ok (st\<lparr>ls_layers := (ls_layers st)[i := (ls_layers st ! i)\<lparr>ly_muted := muted\<rparr>], ls_structure_dirty := True\<rparr>))"

definition is_muted :: "layer_handle \<Rightarrow> 'c layer_stack \<Rightarrow> bool checked" where
  "is_muted h st = (case stack_find h st of None \<Rightarrow> Fault | Some i \<Rightarrow> Ok (ly_muted (ls_layers st ! i)))"

definition layer_count :: "'c layer_stack \<Rightarrow> nat" where
  "layer_count st = length (ls_layers st)"

definition layer_at :: "nat \<Rightarrow> 'c layer_stack \<Rightarrow> layer_handle checked" where
  "layer_at i st =
     rbind (check (i < length (ls_layers st))) (\<lambda>_.
     Ok \<lparr>lh_index = of_nat i, lh_generation = ly_generation (ls_layers st ! i)\<rparr>)"

subsection \<open>What the layers say\<close>

definition view_layer :: "layer_world \<Rightarrow> 'c layer_stack \<Rightarrow> nat \<Rightarrow> layer_view list \<Rightarrow> layer_view list checked" where
  "view_layer w st i out =
     (let l = ls_layers st ! i in
      if ly_muted l then Ok out
      else if is_graph l then Ok (out @ [Some (ls_materialized st ! i)])
      else rbind (deref (lw_direct w) (ly_direct l)) (\<lambda>d. Ok (out @ [Some (sn_document (dl_doc d))])))"

definition impl_views :: "layer_world \<Rightarrow> 'c layer_stack \<Rightarrow> layer_view list checked" where
  "impl_views w st = rfold (view_layer w st) [0..<length (ls_layers st)] []"

text \<open>A graph layer materialized at its head; the cache it goes through is written back.\<close>

definition materialize_layer :: "stack_layer \<Rightarrow> entity_id list \<Rightarrow> layer_world \<Rightarrow> (raw_document \<times> layer_world) checked" where
  "materialize_layer l entities w =
     rbind (deref (lw_graphs w) (ly_graph l)) (\<lambda>g.
       case ly_cache l of
         None \<Rightarrow> rbind (materialize_by g (ly_head l) entities None) (\<lambda>(d, _). Ok (d, w))
       | Some k \<Rightarrow>
           rbind (deref (lw_caches w) (Some k)) (\<lambda>c.
           rbind (materialize_by g (ly_head l) entities (Some c)) (\<lambda>(d, c'). Ok (d, w\<lparr>lw_caches := (lw_caches w)(k := c')\<rparr>))))"

definition materialize_slot :: "stack_layer list \<Rightarrow> entity_id list \<Rightarrow> nat \<Rightarrow> layer_world \<times> raw_document list \<Rightarrow>
    (layer_world \<times> raw_document list) checked" where
  "materialize_slot layers entities i st =
     (case st of (w, docs) \<Rightarrow>
        if ly_muted (layers ! i) \<or> \<not> is_graph (layers ! i) then Ok (w, docs[i := empty_raw_document])
        else rbind (materialize_layer (layers ! i) entities w) (\<lambda>(d, w). Ok (w, docs[i := d])))"

definition impl_materialize :: "entity_id list \<Rightarrow> layer_world \<times> 'c layer_stack \<Rightarrow> (layer_world \<times> 'c layer_stack) checked" where
  "impl_materialize entities ws =
     (case ws of (w, st) \<Rightarrow>
        rbind (rfold (materialize_slot (ls_layers st) entities) [0..<length (ls_layers st)] (w, ls_materialized st)) (\<lambda>(w, docs).
        Ok (w, st\<lparr>ls_materialized := docs\<rparr>)))"

definition record_version :: "layer_world \<Rightarrow> nat \<Rightarrow> stack_layer list \<Rightarrow> stack_layer list checked" where
  "record_version w i layers =
     (let l = layers ! i in
      rbind (if ly_direct l = None then Ok 0 else rbind (deref (lw_direct w) (ly_direct l)) (\<lambda>d. Ok (dl_version d))) (\<lambda>version.
      Ok (layers[i := l\<lparr>ly_recorded_head := ly_head l, ly_recorded_version := version\<rparr>])))"

definition impl_record_versions :: "layer_world \<Rightarrow> 'c layer_stack \<Rightarrow> 'c layer_stack checked" where
  "impl_record_versions w st =
     rbind (rfold (record_version w) [0..<length (ls_layers st)] (ls_layers st)) (\<lambda>layers. Ok (st\<lparr>ls_layers := layers\<rparr>))"

definition discard_changes :: "stack_layer \<Rightarrow> layer_world \<Rightarrow> layer_world checked" where
  "discard_changes l w =
     (case ly_direct l of
        None \<Rightarrow> Ok w
      | Some k \<Rightarrow> rbind (deref (lw_direct w) (Some k)) (\<lambda>d. Ok (w\<lparr>lw_direct := (lw_direct w)(k \<mapsto> snd (impl_take_changes d))\<rparr>)))"

definition impl_discard_pending_changes :: "'c layer_stack \<Rightarrow> layer_world \<Rightarrow> layer_world checked" where
  "impl_discard_pending_changes st w = rfold discard_changes (ls_layers st) w"

subsection \<open>Composing\<close>

definition report_schema_version_conflicts :: "composed_document \<Rightarrow> parse_report \<Rightarrow> parse_report" where
  "report_schema_version_conflicts cd report =
     foldl (\<lambda>r path. push_diagnostic \<lparr>dg_kind = DK_layered_schema_version_conflict, dg_path = path, dg_chosen_writer = no_writer,
       dg_writer_count = 0\<rparr> r) report (cd_schema_version_conflicts cd)"

type_synonym 'c stacked = "layer_world \<times> 'c layer_stack \<times> parse_report \<times> change_summary"

definition stack_rebuild :: "system \<Rightarrow> 'c application \<Rightarrow> parse_policy \<Rightarrow> parse_report \<Rightarrow> layer_world \<times> 'c layer_stack \<Rightarrow> 'c stacked checked" where
  "stack_rebuild sys app policy report ws =
     rbind (impl_materialize [] ws) (\<lambda>(w, st).
     rbind (impl_views w st) (\<lambda>views.
     (let entities = compose_entities views in
      rbind (compose views entities) (\<lambda>composed.
      (let report = report_schema_version_conflicts composed (clear_report report) in
       rbind (parse_from sys app entities (composed_try_get composed) policy report) (\<lambda>(after, report).
       rbind (conservative_summary (ls_composed st) after empty_summary) (\<lambda>out.
       rbind (impl_discard_pending_changes st w) (\<lambda>w.
       rbind (impl_record_versions w (st\<lparr>ls_composed := after\<rparr>)) (\<lambda>st.
       Ok (w, st\<lparr>ls_structure_dirty := False\<rparr>, report, out))))))))))"

record layered_apply_options =
  lo_max_chain_ops :: nat
  lo_compacts :: "int \<Rightarrow> int \<Rightarrow> bool"
  lo_force_rebuild :: bool

record layered_apply_stats =
  la_took_fast_path :: bool
  la_fallback_reason :: apply_fallback_reason
  la_stale_layer :: layer_handle
  la_composed_entities :: nat
  la_compacted :: bool

definition default_layered_stats :: layered_apply_stats where
  "default_layered_stats = \<lparr>la_took_fast_path = False, la_fallback_reason = AF_none, la_stale_layer = no_handle,
     la_composed_entities = 0, la_compacted = False\<rparr>"

type_synonym 'c layered = "layer_world \<times> 'c layer_stack \<times> parse_report \<times> change_summary \<times> layered_apply_stats"

definition fall_back :: "system \<Rightarrow> 'c application \<Rightarrow> parse_policy \<Rightarrow> parse_report \<Rightarrow> layer_world \<times> 'c layer_stack \<Rightarrow>
    apply_fallback_reason \<times> layer_handle \<Rightarrow> 'c layered checked" where
  "fall_back sys app policy report ws why =
     rbind (stack_rebuild sys app policy report ws) (\<lambda>(w, st, report, out).
     Ok (w, st, report, out, default_layered_stats\<lparr>la_fallback_reason := fst why, la_stale_layer := snd why\<rparr>))"

text \<open>The deltas, pulled layer by layer: the changes of all of them, or why they cannot be told.\<close>

primrec pull_deltas :: "'c layer_stack \<Rightarrow> nat \<Rightarrow> nat list \<Rightarrow> change_set \<Rightarrow> layer_world \<Rightarrow>
    (layer_world \<times> ((apply_fallback_reason \<times> layer_handle) + change_set)) checked" where
  "pull_deltas st max_ops [] dirty w = Ok (w, Inr dirty)"
| "pull_deltas st max_ops (i # is) dirty w =
     (let l = ls_layers st ! i in
      if is_graph l
      then
        if ly_head l = ly_recorded_head l then pull_deltas st max_ops is dirty w
        else
          rbind (deref (lw_graphs w) (ly_graph l)) (\<lambda>g.
          (let chain = walk_chain g (ly_recorded_head l) (ly_head l) max_ops in
           if \<not> cw_found chain then rbind (layer_at i st) (\<lambda>h. Ok (w, Inl (cw_reason chain, h)))
           else
             rbind (change_set_of (cw_ops chain)) (\<lambda>delta.
             rbind (union_with dirty delta) (\<lambda>dirty. pull_deltas st max_ops is dirty w))))
      else
        rbind (deref (lw_direct w) (ly_direct l)) (\<lambda>d.
          if dl_version d = ly_recorded_version l then pull_deltas st max_ops is dirty w
          else
            rbind (union_with dirty (fst (impl_take_changes d))) (\<lambda>dirty.
            pull_deltas st max_ops is dirty
              (w\<lparr>lw_direct := (case ly_direct l of None \<Rightarrow> lw_direct w | Some k \<Rightarrow> (lw_direct w)(k \<mapsto> snd (impl_take_changes d)))\<rparr>))))"

definition recompose :: "system \<Rightarrow> 'c application \<Rightarrow> parse_policy \<Rightarrow> parse_report \<Rightarrow> layered_apply_options \<Rightarrow> entity_id list \<Rightarrow>
    layer_world \<times> 'c layer_stack \<Rightarrow> 'c layered checked" where
  "recompose sys app policy report options touched ws =
     (let stats = default_layered_stats\<lparr>la_took_fast_path := True, la_composed_entities := length touched\<rparr> in
      rbind (impl_materialize touched ws) (\<lambda>(w, st).
      rbind (impl_views w st) (\<lambda>views.
      rbind (compose views touched) (\<lambda>composed.
      rbind (drop_for_entities touched report) (\<lambda>report.
      rbind (redecide sys app policy (composed_try_get composed) touched (lo_compacts options) (ls_composed st)
               (report_schema_version_conflicts composed report)) (\<lambda>(d, report, out, compacted).
      rbind (impl_record_versions w (st\<lparr>ls_composed := d\<rparr>)) (\<lambda>st.
      Ok (w, st, report, out, stats\<lparr>la_compacted := compacted\<rparr>))))))))"

definition stack_apply :: "system \<Rightarrow> 'c application \<Rightarrow> parse_policy \<Rightarrow> parse_report \<Rightarrow> layered_apply_options \<Rightarrow>
    layer_world \<times> 'c layer_stack \<Rightarrow> 'c layered checked" where
  "stack_apply sys app policy report options ws =
     (case ws of (w, st) \<Rightarrow>
        if lo_force_rebuild options then fall_back sys app policy report (w, st) (AF_forced, no_handle)
        else if ls_structure_dirty st then fall_back sys app policy report (w, st) (AF_structure_changed, no_handle)
        else
          rbind (pull_deltas st (lo_max_chain_ops options) [0..<length (ls_layers st)] empty_change_set w) (\<lambda>(w, pulled).
            case pulled of
              Inl why \<Rightarrow> fall_back sys app policy report (w, st) why
            | Inr dirty \<Rightarrow>
                rbind (coarsen_to dirty CG_entity) (\<lambda>dirty.
                  if cs_everything dirty then fall_back sys app policy report (w, st) (AF_structure_changed, no_handle)
                  else
                    rbind (change_set_entities dirty) (\<lambda>touched.
                      if touched = []
                      then
                        rbind (impl_record_versions w st) (\<lambda>st.
                        Ok (w, st, report, empty_summary, default_layered_stats\<lparr>la_took_fast_path := True\<rparr>))
                      else recompose sys app policy report options touched (w, st)))))"

subsection \<open>Provenance\<close>

primrec provenance_from :: "property_path \<Rightarrow> 'c layer_stack \<Rightarrow> nat list \<Rightarrow> layer_world \<Rightarrow> (layer_handle \<times> layer_world) checked" where
  "provenance_from path st [] w = Ok (no_handle, w)"
| "provenance_from path st (i # is) w =
     (let l = ls_layers st ! i in
      if ly_muted l then provenance_from path st is w
      else
        rbind (if is_graph l then materialize_layer l [pp_entity path] w
               else rbind (deref (lw_direct w) (ly_direct l)) (\<lambda>d. Ok (sn_document (dl_doc d), w))) (\<lambda>(raw, w).
          if document_try_get raw path \<noteq> None then rbind (layer_at i st) (\<lambda>h. Ok (h, w))
          else provenance_from path st is w))"

definition provenance_of :: "property_path \<Rightarrow> layer_world \<times> 'c layer_stack \<Rightarrow> (layer_handle \<times> layer_world) checked" where
  "provenance_of path ws = (case ws of (w, st) \<Rightarrow> provenance_from path st (rev [0..<length (ls_layers st)]) w)"

end
