(* ===== verification/Layer_Reading.thy ===== *)
theory Layer_Reading
  imports Layer_Stack
begin

text \<open>
  Reading the layers of a stack: what a layer says, in full and restricted to some entities; materializing the graph layers through
  their caches; draining the direct layers and recording versions; and the rebuild, which leaves the document the composition of what
  the layers say, interpreted.
\<close>

subsection \<open>Layers that can be read\<close>

definition direct_encoded :: "direct_layer \<Rightarrow> bool" where
  "direct_encoded d \<longleftrightarrow> (\<forall>q v. layer_values d q = Some v \<longrightarrow> encoded_value v)"

text \<open>What a layer points to is there and in order.\<close>

definition graph_fits :: "op_graph \<Rightarrow> bool" where
  "graph_fits g \<longleftrightarrow> graph_reachable g \<and> payloads_valid g \<and> acyclic (parent_edges g (\<lambda>_. False))"

definition cache_ready :: "layer_world \<Rightarrow> op_graph \<Rightarrow> nat option \<Rightarrow> bool" where
  "cache_ready w g p \<longleftrightarrow> (\<forall>k. p = Some k \<longrightarrow> (\<exists>c slack. lw_caches w k = Some c \<and> cache_built slack g c))"

definition layer_fits :: "layer_world \<Rightarrow> stack_layer \<Rightarrow> bool" where
  "layer_fits w l \<longleftrightarrow>
     (case ly_graph l of
        Some gk \<Rightarrow> ly_direct l = None \<and> (\<exists>g. lw_graphs w gk = Some g \<and> graph_fits g \<and> cache_ready w g (ly_cache l))
      | None \<Rightarrow> \<exists>k d. ly_direct l = Some k \<and> lw_direct w k = Some d \<and> layer_ok d \<and> direct_encoded d)"

text \<open>A direct layer is in one place only, and a cache is shared between layers of one graph only.\<close>

definition layers_fit :: "layer_world \<Rightarrow> stack_layer list \<Rightarrow> bool" where
  "layers_fit w layers \<longleftrightarrow> (\<forall>l \<in> set layers. layer_fits w l) \<and>
     (\<forall>l \<in> set layers. \<forall>l' \<in> set layers. ly_cache l \<noteq> None \<longrightarrow> ly_cache l' = ly_cache l \<longrightarrow> ly_graph l' = ly_graph l) \<and>
     (\<forall>i < length layers. \<forall>j < length layers. i \<noteq> j \<longrightarrow> ly_direct (layers ! i) \<noteq> None \<longrightarrow>
        ly_direct (layers ! i) \<noteq> ly_direct (layers ! j))"

text \<open>What a layer says now, restricted to some entities; no entities is no restriction.\<close>

definition layer_says :: "layer_world \<Rightarrow> stack_layer \<Rightarrow> entity_id list \<Rightarrow> raw_document \<Rightarrow> bool" where
  "layer_says w l es raw \<longleftrightarrow>
     (case ly_graph l of
        Some gk \<Rightarrow> \<exists>g. lw_graphs w gk = Some g \<and> payloads_valid g \<and> current_document g [ly_head l] es raw
      | None \<Rightarrow> \<exists>k d. ly_direct l = Some k \<and> lw_direct w k = Some d \<and> layer_ok d \<and> direct_encoded d \<and> raw = sn_document (dl_doc d))"

lemma direct_readable:
  assumes "layer_ok d" "direct_encoded d"
  shows "readable_document (sn_document (dl_doc d))"
proof (rule readable_documentI)
  show "document_wf (sn_document (dl_doc d))" using assms(1) by (simp add: layer_ok_def snapshot_ok_def)
  fix q v assume v: "document_try_get (sn_document (dl_doc d)) q = Some v"
  with assms(1) obtain u where u: "rp_writers v = [\<lparr>pv_writer = dl_writer d, pv_value = u\<rparr>]" by (auto simp: layer_ok_def)
  with v have "layer_values d q = Some u" by (simp add: layer_values_def)
  with assms(2) u show "readable_property v" by (auto simp: readable_property_def direct_encoded_def)
qed

lemma layer_says_readable: "layer_says w l es raw \<Longrightarrow> readable_document raw"
  by (auto simp: layer_says_def direct_readable intro: current_document_readable split: option.splits)

lemma layer_says_unique: "layer_says w l es raw \<Longrightarrow> layer_says w l es raw' \<Longrightarrow> raw = raw'"
  by (auto simp: layer_says_def intro: current_document_unique split: option.splits)

lemma layer_says_direct: "\<not> is_graph l \<Longrightarrow> layer_says w l es raw \<longleftrightarrow> layer_says w l [] raw"
  by (simp add: layer_says_def is_graph_def split: option.splits)

text \<open>A restricted reading agrees with the full one on the entities it is restricted to.\<close>

lemma layer_says_filtered:
  assumes "layer_says w l es raw" "layer_says w l [] full" "e \<in> set es"
  shows "document_try_get_entity raw e = document_try_get_entity full e"
proof (cases "ly_graph l")
  case None
  with assms(1,2) show ?thesis by (auto simp: layer_says_def)
next
  case (Some gk)
  with assms obtain g where g: "current_document g [ly_head l] es raw" "current_document g [ly_head l] [] full"
    by (auto simp: layer_says_def)
  then have "document_wf full" by (simp add: current_document_def)
  with filtered_lookup [OF g assms(3)] show ?thesis by (simp add: document_wf_lookup)
qed

lemma layer_fits_says: "layer_fits w l \<Longrightarrow> \<exists>raw. layer_says w l es raw"
proof (cases "ly_graph l")
  case (Some gk)
  assume "layer_fits w l"
  with Some obtain g where g: "lw_graphs w gk = Some g" "graph_reachable g" "payloads_valid g" "acyclic (parent_edges g (\<lambda>_. False))"
    by (auto simp: layer_fits_def graph_fits_def)
  from materialize_current [OF graph_reachable_ok [OF g(2)] g(3,4), of "[ly_head l]" es] Some g(1,3) show ?thesis
    by (auto simp: layer_says_def)
qed (auto simp: layer_fits_def layer_says_def)

subsection \<open>Materializing the graph layers\<close>

text \<open>Only the caches differ.\<close>

definition same_but_caches :: "layer_world \<Rightarrow> layer_world \<Rightarrow> bool" where
  "same_but_caches w w' \<longleftrightarrow> lw_graphs w' = lw_graphs w \<and> lw_direct w' = lw_direct w"

lemma same_but_caches_says: "same_but_caches w w' \<Longrightarrow> layer_says w' l es raw \<longleftrightarrow> layer_says w l es raw"
  by (simp add: same_but_caches_def layer_says_def split: option.split)

lemma same_but_caches_trans [trans]: "same_but_caches w w' \<Longrightarrow> same_but_caches w' w'' \<Longrightarrow> same_but_caches w w''"
  by (simp add: same_but_caches_def)

lemma materialize_layer_ok:
  assumes fit: "layers_fit w layers" and l: "l \<in> set layers" "is_graph l"
  shows "\<exists>raw w'. materialize_layer l es w = Ok (raw, w') \<and> layer_says w l es raw \<and> layers_fit w' layers \<and> same_but_caches w w'"
proof -
  from l(2) obtain gk where gk: "ly_graph l = Some gk" by (auto simp: is_graph_def)
  have fits: "layer_fits w l" using fit l(1) by (simp add: layers_fit_def)
  with gk obtain g where g: "lw_graphs w gk = Some g" "graph_reachable g" "payloads_valid g" "acyclic (parent_edges g (\<lambda>_. False))"
    by (auto simp: layer_fits_def graph_fits_def)
  note ok = graph_reachable_ok [OF g(2)] g(3,4)
  have says: "layer_says w l es raw" if "current_document g [ly_head l] es raw" for raw
    using that gk g by (simp add: layer_says_def)
  show ?thesis
  proof (cases "ly_cache l")
    case None
    have "cache_fits g None" by (simp add: cache_fits_def)
    from materialize_by_ok [OF ok this, of "ly_head l" es] obtain raw c' where
      "materialize_by g (ly_head l) es None = Ok (raw, c')" "current_document g [ly_head l] es raw" by blast
    with None gk g(1) fit says show ?thesis by (auto simp: materialize_layer_def deref_def same_but_caches_def)
  next
    case (Some k)
    with fits gk g(1) obtain c slack where c: "lw_caches w k = Some c" "cache_built slack g c" by (auto simp: layer_fits_def cache_ready_def)
    then have "cache_fits g (Some c)" by (auto simp: cache_fits_def)
    from materialize_by_ok [OF ok this, of "ly_head l" es] obtain raw c' where
      m: "materialize_by g (ly_head l) es (Some c) = Ok (raw, c')" "current_document g [ly_head l] es raw" "cache_fits g c'" by blast
    from m(1) obtain c1 where c1: "c' = Some c1" by (auto simp: materialize_by_def rbind_eq_Ok)
    with m(3) obtain slack1 where built: "cache_built slack1 g c1" by (auto simp: cache_fits_def)
    let ?w = "w\<lparr>lw_caches := (lw_caches w)(k := c')\<rparr>"
    have "layer_fits ?w l'" if l': "l' \<in> set layers" for l'
    proof -
      have old: "layer_fits w l'" using fit l' by (simp add: layers_fit_def)
      have shared: "ly_graph l' = Some gk" if "ly_cache l' = Some k"
        using fit l' l(1) Some gk that unfolding layers_fit_def by (metis option.distinct(1))
      show ?thesis
      proof (cases "ly_graph l'")
        case None
        with old show ?thesis by (simp add: layer_fits_def)
      next
        case (Some gk')
        with old obtain g' where g': "lw_graphs w gk' = Some g'" "graph_fits g'" "cache_ready w g' (ly_cache l')" "ly_direct l' = None"
          by (auto simp: layer_fits_def)
        have "cache_ready ?w g' (ly_cache l')"
          unfolding cache_ready_def
        proof (intro allI impI)
          fix k' assume k': "ly_cache l' = Some k'"
          show "\<exists>c slack. lw_caches ?w k' = Some c \<and> cache_built slack g' c"
          proof (cases "k' = k")
            case True
            with shared k' Some g'(1) g(1) have "g' = g" by simp
            with True c1 built show ?thesis by auto
          next
            case False
            with g'(3) k' show ?thesis by (simp add: cache_ready_def)
          qed
        qed
        with Some g' show ?thesis by (simp add: layer_fits_def)
      qed
    qed
    then have "\<forall>l' \<in> set layers. layer_fits ?w l'" by blast
    with fit have fit': "layers_fit ?w layers" unfolding layers_fit_def by blast
    have run: "materialize_layer l es w = Ok (raw, ?w)" using Some gk g(1) c(1) m(1) by (simp add: materialize_layer_def deref_def)
    show ?thesis
    proof (intro exI conjI)
      show "materialize_layer l es w = Ok (raw, ?w)" by (rule run)
      show "layer_says w l es raw" by (rule says [OF m(2)])
      show "layers_fit ?w layers" by (rule fit')
      show "same_but_caches w ?w" by (simp add: same_but_caches_def)
    qed
  qed
qed

lemma materialize_slots_ok:
  assumes "layers_fit w layers" "length docs = length layers" "set is \<subseteq> {..<length layers}"
  shows "\<exists>w' docs'. rfold (materialize_slot layers es) is (w, docs) = Ok (w', docs') \<and> length docs' = length layers \<and>
    layers_fit w' layers \<and> same_but_caches w w' \<and>
    (\<forall>i < length layers. (i \<notin> set is \<longrightarrow> docs' ! i = docs ! i) \<and>
       (i \<in> set is \<longrightarrow> \<not> ly_muted (layers ! i) \<longrightarrow> is_graph (layers ! i) \<longrightarrow> layer_says w (layers ! i) es (docs' ! i)))"
  using assms
proof (induction "is" arbitrary: w docs)
  case Nil
  then show ?case by (simp add: same_but_caches_def)
next
  case (Cons i "is")
  have i: "i < length layers" using Cons.prems(3) by simp
  obtain w1 raw where step: "materialize_slot layers es i (w, docs) = Ok (w1, docs[i := raw])" "layers_fit w1 layers" "same_but_caches w w1"
    "\<not> ly_muted (layers ! i) \<Longrightarrow> is_graph (layers ! i) \<Longrightarrow> layer_says w (layers ! i) es raw"
  proof (cases "ly_muted (layers ! i) \<or> \<not> is_graph (layers ! i)")
    case True
    with that [of w empty_raw_document] Cons.prems(1) show ?thesis by (auto simp: materialize_slot_def same_but_caches_def)
  next
    case False
    with materialize_layer_ok [OF Cons.prems(1) nth_mem [OF i], of es] that show ?thesis by (auto simp: materialize_slot_def)
  qed
  from Cons.IH [OF step(2), of "docs[i := raw]"] Cons.prems(2,3) obtain w' docs' where IH:
    "rfold (materialize_slot layers es) is (w1, docs[i := raw]) = Ok (w', docs')" "length docs' = length layers" "layers_fit w' layers"
    "same_but_caches w1 w'" "\<forall>j < length layers. (j \<notin> set is \<longrightarrow> docs' ! j = docs[i := raw] ! j) \<and>
       (j \<in> set is \<longrightarrow> \<not> ly_muted (layers ! j) \<longrightarrow> is_graph (layers ! j) \<longrightarrow> layer_says w1 (layers ! j) es (docs' ! j))" by auto
  have "(j \<notin> set (i # is) \<longrightarrow> docs' ! j = docs ! j) \<and> (j \<in> set (i # is) \<longrightarrow> \<not> ly_muted (layers ! j) \<longrightarrow> is_graph (layers ! j) \<longrightarrow>
      layer_says w (layers ! j) es (docs' ! j))" if "j < length layers" for j
    using IH(5) [rule_format, OF that] that i step(4) Cons.prems(2) same_but_caches_says [OF step(3)] by (cases "j \<in> set is"; cases "j = i") auto
  with IH(1-4) step(1,3) same_but_caches_trans show ?case by auto
qed

text \<open>The views of a stack over some documents, bottom first.\<close>

definition views_of :: "stack_layer list \<Rightarrow> raw_document list \<Rightarrow> layer_view list" where
  "views_of layers docs = map (\<lambda>i. Some (docs ! i)) (filter (\<lambda>i. \<not> ly_muted (layers ! i)) [0..<length layers])"

lemma impl_views_eq:
  assumes "\<And>i. i < length (ls_layers st) \<Longrightarrow> \<not> ly_muted (ls_layers st ! i) \<Longrightarrow> is_graph (ls_layers st ! i) \<Longrightarrow> docs ! i = ls_materialized st ! i"
    and "\<And>i. i < length (ls_layers st) \<Longrightarrow> \<not> is_graph (ls_layers st ! i) \<Longrightarrow> layer_says w (ls_layers st ! i) es (docs ! i)"
  shows "impl_views w st = Ok (views_of (ls_layers st) docs)"
proof -
  let ?ls = "ls_layers st"
  have one: "view_layer w st i out = Ok (out @ (if ly_muted (?ls ! i) then [] else [Some (docs ! i)]))" if "i < length ?ls" for i out
  proof (cases "ly_muted (?ls ! i) \<or> is_graph (?ls ! i)")
    case True
    with assms(1) [OF that] show ?thesis by (auto simp: view_layer_def Let_def)
  next
    case False
    with assms(2) [OF that] obtain k d where "ly_direct (?ls ! i) = Some k" "lw_direct w k = Some d" "docs ! i = sn_document (dl_doc d)"
      by (auto simp: layer_says_def is_graph_def)
    with False show ?thesis by (simp add: view_layer_def Let_def deref_def)
  qed
  have "rfold (view_layer w st) is out = Ok (out @ map (\<lambda>i. Some (docs ! i)) (filter (\<lambda>i. \<not> ly_muted (?ls ! i)) is))"
    if "set is \<subseteq> {..<length ?ls}" for "is" out
    using that by (induction "is" arbitrary: out) (auto simp: one)
  from this [of "[0..<length ?ls]" "[]"] show ?thesis by (simp add: impl_views_def views_of_def atLeast0LessThan)
qed

lemma views_readable:
  assumes "\<And>i. i < length layers \<Longrightarrow> \<not> ly_muted (layers ! i) \<Longrightarrow> readable_document (docs ! i)"
  shows "layers_readable (views_of layers docs)"
  using assms by (auto simp: layers_readable_def views_of_def)

text \<open>Composition at an entity depends on what the layers say of that entity only.\<close>

lemma composed_entity_cong:
  assumes "\<And>i. i < length layers \<Longrightarrow> \<not> ly_muted (layers ! i) \<Longrightarrow> document_try_get_entity (docs ! i) e = document_try_get_entity (docs' ! i) e"
  shows "composed_entity (views_of layers docs) e = composed_entity (views_of layers docs') e"
proof -
  let ?is = "filter (\<lambda>i. \<not> ly_muted (layers ! i)) [0..<length layers]"
  have "layer_contributions (map (\<lambda>i. Some (docs ! i)) ?is) e j = layer_contributions (map (\<lambda>i. Some (docs' ! i)) ?is) e j" if "j < length ?is" for j
  proof -
    have "?is ! j \<in> set ?is" using that by (rule nth_mem)
    then have "document_try_get_entity (docs ! (?is ! j)) e = document_try_get_entity (docs' ! (?is ! j)) e" using assms by simp
    with that show ?thesis by (simp add: layer_contributions_def split: option.split)
  qed
  then have "map (layer_contributions (views_of layers docs) e) [0..<length (views_of layers docs)] =
      map (layer_contributions (views_of layers docs') e) [0..<length (views_of layers docs')]"
    by (simp add: views_of_def)
  then have "contributions (views_of layers docs) e = contributions (views_of layers docs') e" by (simp only: contributions_def)
  then show ?thesis by (simp add: composed_entity_def)
qed

subsection \<open>Draining, recording\<close>

text \<open>Only pending changes were taken.\<close>

definition drained :: "layer_world \<Rightarrow> layer_world \<Rightarrow> bool" where
  "drained w w' \<longleftrightarrow> lw_graphs w' = lw_graphs w \<and>
     (\<forall>k. lw_direct w' k = lw_direct w k \<or> (\<exists>d. lw_direct w k = Some d \<and> lw_direct w' k = Some (snd (impl_take_changes d))))"

lemma take_changes_simps [simp]:
  "dl_doc (snd (impl_take_changes d)) = dl_doc d" "dl_version (snd (impl_take_changes d)) = dl_version d"
  "dl_writer (snd (impl_take_changes d)) = dl_writer d"
  "snd (impl_take_changes (snd (impl_take_changes d))) = snd (impl_take_changes d)"
  by (simp_all add: impl_take_changes_def)

lemma take_changes_ok: "layer_ok d \<Longrightarrow> layer_ok (snd (impl_take_changes d))" "direct_encoded (snd (impl_take_changes d)) = direct_encoded d"
  by (simp_all add: impl_take_changes_def layer_ok_def direct_encoded_def layer_values_def new_change_set_builder_def)

lemma drained_refl [simp]: "drained w w"
  by (simp add: drained_def)

lemma drained_trans: "drained w w' \<Longrightarrow> drained w' w'' \<Longrightarrow> drained w w''"
proof -
  assume a: "drained w w'" "drained w' w''"
  have "lw_direct w'' k = lw_direct w k \<or> (\<exists>d. lw_direct w k = Some d \<and> lw_direct w'' k = Some (snd (impl_take_changes d)))" for k
  proof -
    from a have "lw_direct w' k = lw_direct w k \<or> (\<exists>d. lw_direct w k = Some d \<and> lw_direct w' k = Some (snd (impl_take_changes d)))"
      "lw_direct w'' k = lw_direct w' k \<or> (\<exists>d. lw_direct w' k = Some d \<and> lw_direct w'' k = Some (snd (impl_take_changes d)))"
      unfolding drained_def by blast+
    then show ?thesis
    proof (elim disjE exE conjE)
      fix d d' assume d: "lw_direct w k = Some d" "lw_direct w' k = Some (snd (impl_take_changes d))" "lw_direct w' k = Some d'"
        "lw_direct w'' k = Some (snd (impl_take_changes d'))"
      then have "lw_direct w'' k = Some (snd (impl_take_changes d))" by auto
      with d(1) show ?thesis by blast
    qed metis+
  qed
  then show ?thesis using a by (simp add: drained_def)
qed

lemma same_but_caches_drained: "same_but_caches w w' \<Longrightarrow> drained w w'"
  by (simp add: same_but_caches_def drained_def)

lemma drained_direct:
  assumes "drained w w'" "lw_direct w k = Some d"
  shows "\<exists>d'. lw_direct w' k = Some d' \<and> dl_doc d' = dl_doc d \<and> dl_version d' = dl_version d \<and>
    (layer_ok d \<longrightarrow> layer_ok d') \<and> direct_encoded d' = direct_encoded d"
proof -
  have "lw_direct w' k = lw_direct w k \<or> (\<exists>d. lw_direct w k = Some d \<and> lw_direct w' k = Some (snd (impl_take_changes d)))"
    using assms(1) unfolding drained_def by blast
  then have "lw_direct w' k = Some d \<or> lw_direct w' k = Some (snd (impl_take_changes d))" using assms(2) by auto
  then show ?thesis
  proof
    assume "lw_direct w' k = Some (snd (impl_take_changes d))"
    then show ?thesis using take_changes_ok [of d] by (intro exI [of _ "snd (impl_take_changes d)"]) simp
  qed simp
qed

lemma drained_says: "drained w w' \<Longrightarrow> layer_says w l es raw \<Longrightarrow> layer_says w' l es raw"
proof (cases "ly_graph l")
  case None
  assume dr: "drained w w'" and "layer_says w l es raw"
  with None obtain k d where d: "ly_direct l = Some k" "lw_direct w k = Some d" "layer_ok d" "direct_encoded d" "raw = sn_document (dl_doc d)"
    by (auto simp: layer_says_def)
  from drained_direct [OF dr d(2)] d None show ?thesis by (auto simp: layer_says_def)
qed (auto simp: layer_says_def drained_def)

lemma drained_fits:
  assumes "drained w w'" "lw_caches w' = lw_caches w" "layers_fit w layers"
  shows "layers_fit w' layers"
proof -
  have "layer_fits w' l" if fit: "layer_fits w l" for l
  proof (cases "ly_graph l")
    case None
    with fit obtain k d where d: "ly_direct l = Some k" "lw_direct w k = Some d" "layer_ok d" "direct_encoded d"
      by (auto simp: layer_fits_def)
    from drained_direct [OF assms(1) d(2)] d None show ?thesis by (auto simp: layer_fits_def)
  next
    case (Some gk)
    have "lw_graphs w' = lw_graphs w" using assms(1) by (simp add: drained_def)
    with Some fit assms(2) show ?thesis by (simp add: layer_fits_def cache_ready_def)
  qed
  then have "\<forall>l \<in> set layers. layer_fits w' l" using assms(3) by (simp add: layers_fit_def)
  with assms(3) show ?thesis unfolding layers_fit_def by blast
qed

text \<open>A layer with its versions recorded.\<close>

definition recorded :: "layer_world \<Rightarrow> stack_layer \<Rightarrow> stack_layer" where
  "recorded w l = l\<lparr>ly_recorded_head := ly_head l,
     ly_recorded_version := (case Option.bind (ly_direct l) (lw_direct w) of None \<Rightarrow> 0 | Some d \<Rightarrow> dl_version d)\<rparr>"

lemma recorded_simps [simp]:
  "ly_graph (recorded w l) = ly_graph l" "ly_direct (recorded w l) = ly_direct l" "ly_cache (recorded w l) = ly_cache l"
  "ly_head (recorded w l) = ly_head l" "ly_muted (recorded w l) = ly_muted l" "ly_generation (recorded w l) = ly_generation l"
  "ly_recorded_head (recorded w l) = ly_head l" "is_graph (recorded w l) = is_graph l"
  by (simp_all add: recorded_def is_graph_def)

lemma recorded_says [simp]: "layer_says w' (recorded w l) es raw = layer_says w' l es raw"
  by (simp add: layer_says_def split: option.split)

lemma recorded_fits [simp]: "layer_fits w' (recorded w l) = layer_fits w' l"
  by (simp add: layer_fits_def split: option.split)

lemma layers_fit_recorded: "layers_fit w' (map (recorded w) layers) = layers_fit w' layers"
  by (auto simp: layers_fit_def)

lemma views_of_recorded: "views_of (map (recorded w) layers) docs = views_of layers docs"
  unfolding views_of_def by (intro map_cong filter_cong) simp_all

lemma record_version_eq:
  assumes "layers_fit w layers" "k < length layers" "ls ! k = layers ! k"
  shows "record_version w k ls = Ok (ls[k := recorded w (layers ! k)])"
proof -
  have "layer_fits w (layers ! k)" using assms(1,2) by (simp add: layers_fit_def)
  then show ?thesis using assms(3)
    by (auto simp: record_version_def Let_def deref_def recorded_def layer_fits_def split: option.splits)
qed

lemma impl_record_versions_eq:
  assumes "layers_fit w (ls_layers st)"
  shows "impl_record_versions w st = Ok (st\<lparr>ls_layers := map (recorded w) (ls_layers st)\<rparr>)"
proof -
  let ?ls = "ls_layers st"
  have "rfold (record_version w) [0..<k] ?ls = (Ok (map (recorded w) (take k ?ls) @ drop k ?ls) :: stack_layer list checked)"
    if "k \<le> length ?ls" for k
    using that
  proof (induction k)
    case (Suc k)
    let ?m = "map (recorded w) (take k ?ls) @ drop k ?ls"
    have "?m ! k = ?ls ! k" using Suc.prems by (simp add: nth_append)
    from record_version_eq [OF assms _ this] Suc.prems
    have step: "record_version w k ?m = Ok (?m[k := recorded w (?ls ! k)])" by simp
    have "?m[k := recorded w (?ls ! k)] = map (recorded w) (take (Suc k) ?ls) @ drop (Suc k) ?ls"
      using Suc.prems by (simp add: list_update_append take_Suc_conv_app_nth Cons_nth_drop_Suc [symmetric])
    with step Suc show ?case by (simp add: rfold_append)
  qed simp
  from this [of "length ?ls"] show ?thesis by (simp add: impl_record_versions_def)
qed

lemma discard_all_ok:
  assumes "\<And>l. l \<in> set layers \<Longrightarrow> layer_fits w l"
  shows "\<exists>w'. rfold discard_changes layers w = Ok w' \<and> drained w w' \<and> lw_caches w' = lw_caches w"
  using assms
proof (induction layers arbitrary: w)
  case (Cons l layers)
  obtain w1 where w1: "discard_changes l w = Ok w1" "drained w w1" "lw_caches w1 = lw_caches w"
  proof (cases "ly_direct l")
    case None
    with that [of w] show ?thesis by (simp add: discard_changes_def)
  next
    case (Some k)
    with Cons.prems [of l] obtain d where d: "lw_direct w k = Some d" by (auto simp: layer_fits_def split: option.splits)
    with that [of "w\<lparr>lw_direct := (lw_direct w)(k \<mapsto> snd (impl_take_changes d))\<rparr>"] Some show ?thesis
      by (simp add: discard_changes_def deref_def drained_def)
  qed
  have fit: "layer_fits w1 l'" if "l' \<in> set layers" for l'
  proof -
    have "layers_fit w [l']" using Cons.prems [of l'] that by (simp add: layers_fit_def)
    from drained_fits [OF w1(2,3) this] show ?thesis by (simp add: layers_fit_def)
  qed
  from Cons.IH [of w1, OF fit] obtain w' where w': "rfold discard_changes layers w1 = Ok w'" "drained w1 w'" "lw_caches w' = lw_caches w1" by blast
  with w1 drained_trans show ?case by auto
qed simp

subsection \<open>A stack in order\<close>

definition stack_fits :: "layer_world \<Rightarrow> 'c layer_stack \<Rightarrow> bool" where
  "stack_fits w st \<longleftrightarrow> layers_fit w (ls_layers st) \<and> length (ls_materialized st) = length (ls_layers st) \<and>
     document_ok (new_document_builder (ls_composed st))"

text \<open>The composed document is what parsing the composition of these documents gives.\<close>

definition shows_layers :: "default_parse_policy \<Rightarrow> 'c application \<Rightarrow> raw_document list \<Rightarrow> 'c layer_stack \<Rightarrow> bool" where
  "shows_layers p app docs st \<longleftrightarrow> shows_source p app (composed_entity (views_of (ls_layers st) docs)) (ls_composed st)"

definition now_says :: "layer_world \<Rightarrow> stack_layer list \<Rightarrow> raw_document list \<Rightarrow> bool" where
  "now_says w layers docs \<longleftrightarrow> length docs = length layers \<and> (\<forall>i < length layers. layer_says w (layers ! i) [] (docs ! i))"

lemma layers_say:
  assumes "layers_fit w layers"
  shows "\<exists>docs. now_says w layers docs"
proof -
  have "\<forall>l \<in> set layers. \<exists>raw. layer_says w l [] raw" using assms layer_fits_says by (auto simp: layers_fit_def)
  then obtain f where "\<forall>l \<in> set layers. layer_says w l [] (f l)" by metis
  then show ?thesis by (intro exI [of _ "map f layers"]) (simp add: now_says_def)
qed

lemma now_says_unique:
  assumes "now_says w layers docs" "now_says w layers docs'"
  shows "docs = docs'"
  by (rule nth_equalityI) (use assms in \<open>auto simp: now_says_def intro: layer_says_unique\<close>)

lemma now_says_drained: "drained w w' \<Longrightarrow> now_says w layers docs \<Longrightarrow> now_says w' layers docs"
  by (simp add: now_says_def drained_says)

lemma now_says_recorded [simp]: "now_says w' (map (recorded w) layers) docs \<longleftrightarrow> now_says w' layers docs"
  by (simp add: now_says_def)

lemma shows_layers_ok: "shows_layers p app docs st \<Longrightarrow> document_ok (new_document_builder (ls_composed st))"
  by (auto simp: shows_layers_def shows_source_def document_ok_def new_document_builder_def)

lemma stack_rebuild_ok:
  fixes app :: "'c application"
  assumes st: "stack_fits w st" and p: "default_ok p"
  shows "\<exists>w' st' r' out. stack_rebuild sys app (default_policy p) r (w, st) = Ok (w', st', r', out) \<and> drained w w' \<and>
    stack_fits w' st' \<and> \<not> ls_structure_dirty st' \<and> ls_layers st' = map (recorded w') (ls_layers st) \<and>
    (\<forall>docs. now_says w (ls_layers st) docs \<longrightarrow> shows_layers p app docs st')"
proof -
  let ?ls = "ls_layers st"
  have fit: "layers_fit w ?ls" and len: "length (ls_materialized st) = length ?ls"
    and old: "document_ok (new_document_builder (ls_composed st))" using st by (simp_all add: stack_fits_def)
  from layers_say [OF fit] obtain nows where nows: "now_says w ?ls nows" by blast
  from materialize_slots_ok [OF fit len, of "[0..<length ?ls]" "[]"] atLeast0LessThan obtain w1 docs where m:
    "rfold (materialize_slot ?ls []) [0..<length ?ls] (w, ls_materialized st) = Ok (w1, docs)" "length docs = length ?ls"
    "layers_fit w1 ?ls" "same_but_caches w w1"
    "\<forall>i < length ?ls. \<not> ly_muted (?ls ! i) \<longrightarrow> is_graph (?ls ! i) \<longrightarrow> layer_says w (?ls ! i) [] (docs ! i)" by auto
  let ?st = "st\<lparr>ls_materialized := docs\<rparr>"
  have mat: "impl_materialize [] (w, st) = Ok (w1, ?st)" by (simp add: impl_materialize_def m(1))
  have views: "impl_views w1 ?st = Ok (views_of ?ls nows)"
  proof -
    have "impl_views w1 ?st = Ok (views_of (ls_layers ?st) nows)"
    proof (rule impl_views_eq)
      show "nows ! i = ls_materialized ?st ! i" if "i < length (ls_layers ?st)" "\<not> ly_muted (ls_layers ?st ! i)" "is_graph (ls_layers ?st ! i)" for i
        using m(5) [rule_format, of i] nows that layer_says_unique by (auto simp: now_says_def)
      show "layer_says w1 (ls_layers ?st ! i) [] (nows ! i)" if "i < length (ls_layers ?st)" "\<not> is_graph (ls_layers ?st ! i)" for i
        using nows that same_but_caches_says [OF m(4)] by (simp add: now_says_def)
    qed
    then show ?thesis by simp
  qed
  let ?v = "views_of ?ls nows" and ?es = "compose_entities (views_of ?ls nows)"
  have readable: "layers_readable ?v" using nows by (intro views_readable) (auto simp: now_says_def intro: layer_says_readable)
  have es: "sorted_wrt (<) ?es" unfolding compose_entities_eq by (rule strict_sorted_list_of_set)
  from compose_eq [OF readable, of ?es] obtain cd where cd: "compose ?v ?es = Ok cd" by blast
  have get: "composed_try_get cd = composed_entity ?v"
    using composed_try_get_eq [OF readable es cd] compose_entities_complete [OF readable] by (auto simp: fun_eq_iff)
  have src: "readable_source (composed_entity ?v) ?es" using composed_entity_readable [OF readable] by (auto simp: readable_source_def)
  from parse_from_shows [OF p es src compose_entities_complete [OF readable], of sys app "report_schema_version_conflicts cd (clear_report r)"]
  obtain d r' where d: "parse_from sys app ?es (composed_entity ?v) (default_policy p) (report_schema_version_conflicts cd (clear_report r)) = Ok (d, r')"
    "shows_source p app (composed_entity ?v) d" by blast
  have dok: "document_ok d" using d(2) by (simp add: shows_source_def)
  from conservative_summary_total [OF old dok, of empty_summary] obtain out where out: "conservative_summary (ls_composed st) d empty_summary = Ok out" by blast
  have "layer_fits w1 l" if "l \<in> set ?ls" for l using m(3) that by (simp add: layers_fit_def)
  from discard_all_ok [OF this] obtain w2 where w2: "rfold discard_changes ?ls w1 = Ok w2" "drained w1 w2" "lw_caches w2 = lw_caches w1" by blast
  have fit2: "layers_fit w2 ?ls" by (rule drained_fits [OF w2(2,3) m(3)])
  let ?st' = "st\<lparr>ls_materialized := docs, ls_composed := d, ls_layers := map (recorded w2) ?ls, ls_structure_dirty := False\<rparr>"
  have "impl_record_versions w2 (?st\<lparr>ls_composed := d\<rparr>) = Ok (?st\<lparr>ls_composed := d, ls_layers := map (recorded w2) ?ls\<rparr>)"
    using impl_record_versions_eq [of w2 "?st\<lparr>ls_composed := d\<rparr>"] fit2 by simp
  then have run: "stack_rebuild sys app (default_policy p) r (w, st) = Ok (w2, ?st', r', out)"
    by (simp add: stack_rebuild_def mat views cd get d(1) out impl_discard_pending_changes_def w2(1) Let_def)
  have dr: "drained w w2" using drained_trans [OF same_but_caches_drained [OF m(4)] w2(2)] .
  have shows': "shows_layers p app docs' ?st'" if "now_says w ?ls docs'" for docs'
    using d(2) now_says_unique [OF that nows] by (simp add: shows_layers_def views_of_recorded)
  have "stack_fits w2 ?st'"
    using fit2 m(2) shows_layers_ok [OF shows' [OF nows]] by (simp add: stack_fits_def layers_fit_recorded)
  with run dr shows' show ?thesis by (intro exI [of _ w2] exI [of _ ?st'] exI [of _ r'] exI [of _ out]) simp
qed

end
