(* ===== verification/Layer_Apply.thy ===== *)
theory Layer_Apply
  imports Layer_Reading
begin

text \<open>
  Applying a stack: the deltas pulled layer by layer cover every entity at which a layer says something else than when it was last
  composed, so recomposing those entities leaves what a rebuild leaves.
\<close>

subsection \<open>What a layer said when it was last composed\<close>

text \<open>
  A graph layer: what its recorded head says.  A direct layer: what it says now, up to the entities its pending changes name, and
  exactly that while its version is the recorded one; versions only grow.
\<close>

definition layer_was :: "layer_world \<Rightarrow> stack_layer \<Rightarrow> raw_document \<Rightarrow> bool" where
  "layer_was w l raw \<longleftrightarrow>
     (case ly_graph l of
        Some gk \<Rightarrow> \<exists>g. lw_graphs w gk = Some g \<and> current_document g [ly_recorded_head l] [] raw
      | None \<Rightarrow> \<exists>k d. ly_direct l = Some k \<and> lw_direct w k = Some d \<and>
          ly_recorded_version l \<le> dl_version d \<and> (dl_version d = ly_recorded_version l \<longrightarrow> raw = sn_document (dl_doc d)) \<and>
          (\<forall>e. e \<notin> pp_entity ` set (cb_paths (dl_changes d)) \<longrightarrow>
             document_try_get_entity raw e = document_try_get_entity (sn_document (dl_doc d)) e))"

definition was_says :: "layer_world \<Rightarrow> stack_layer list \<Rightarrow> raw_document list \<Rightarrow> bool" where
  "was_says w layers docs \<longleftrightarrow> length docs = length layers \<and> (\<forall>i < length layers. layer_was w (layers ! i) (docs ! i))"

lemma layer_was_recorded:
  assumes "layer_says w l [] raw"
  shows "layer_was w (recorded w l) raw"
proof (cases "ly_graph l")
  case None
  with assms obtain k d where "ly_direct l = Some k" "lw_direct w k = Some d" "raw = sn_document (dl_doc d)" by (auto simp: layer_says_def)
  with None show ?thesis by (simp add: layer_was_def recorded_def)
qed (use assms in \<open>auto simp: layer_was_def layer_says_def\<close>)

lemma was_says_recorded: "now_says w layers docs \<Longrightarrow> was_says w (map (recorded w) layers) docs"
  by (simp add: now_says_def was_says_def layer_was_recorded)

text \<open>The document a stack keeps is the one it was left with by the last pass over its layers.\<close>

definition in_step :: "default_parse_policy \<Rightarrow> 'c application \<Rightarrow> layer_world \<Rightarrow> 'c layer_stack \<Rightarrow> bool" where
  "in_step p app w st \<longleftrightarrow> (\<exists>docs. was_says w (ls_layers st) docs \<and> shows_layers p app docs st)"

subsection \<open>Pulling the deltas\<close>

definition dirty_at :: "change_set \<Rightarrow> entity_id \<Rightarrow> bool" where
  "dirty_at s e \<longleftrightarrow> (\<exists>p \<in> covered s. pp_entity p = e)"

lemma dirty_at_union:
  assumes "change_set_reachable a" "change_set_reachable b"
  shows "\<exists>c. union_with a b = Ok c \<and> change_set_reachable c \<and> (\<forall>e. dirty_at a e \<or> dirty_at b e \<longrightarrow> dirty_at c e)"
proof -
  from union_with_spec [OF assms [THEN change_set_reachable_ok]] obtain c where
    c: "union_with a b = Ok c" "covered c = widened (coarser_of (cs_granularity a) (cs_granularity b)) (covered a \<union> covered b)" by blast
  then have "covered a \<union> covered b \<subseteq> covered c" using widened_superset by metis
  with c(1) cs_united [OF assms c(1)] show ?thesis by (auto simp: dirty_at_def)
qed

lemma dirty_at_built: "p \<in> set (cb_paths b) \<Longrightarrow> dirty_at (fst (build_change_set b)) (pp_entity p)"
  unfolding dirty_at_def build_change_set_spec(2) by blast

lemma dirty_entities:
  assumes "change_set_reachable s"
  shows "\<exists>c. coarsen_to s CG_entity = Ok c \<and> (\<not> cs_everything c \<longrightarrow>
    (\<exists>es. change_set_entities c = Ok es \<and> sorted_wrt (<) es \<and> (\<forall>e. e \<in> set es \<longleftrightarrow> dirty_at s e)))"
proof -
  note ok = change_set_reachable_ok [OF assms]
  have "granularity_rank (cs_granularity s) \<le> granularity_rank CG_entity" by (cases "cs_granularity s") (simp_all add: granularity_rank_def)
  from coarsen_to_spec [OF ok this] obtain c where c: "coarsen_to s CG_entity = Ok c" "change_set_ok c"
    "covered c = widened CG_entity (covered s)" by blast
  have "covers_entity c e \<longleftrightarrow> dirty_at s e" for e
    unfolding covers_entity_iff [OF c(2)] c(3) dirty_at_def by (auto simp: widened_def blanked_def)
  moreover have "change_set_reachable c" using assms c(1) by (rule cs_coarsened)
  ultimately show ?thesis using change_set_entities_exact [of c] c(1) by auto
qed

lemma walk_chain_reason: "\<not> cw_found (walk_chain g from to n) \<Longrightarrow> cw_reason (walk_chain g from to n) \<noteq> AF_none"
proof -
  have "\<not> cw_found (walk_steps g from at ops n) \<Longrightarrow> cw_reason (walk_steps g from at ops n) \<noteq> AF_none" for at ops
    by (induction n arbitrary: at ops) (auto simp: no_chain_def split: option.splits)
  then show "\<not> cw_found (walk_chain g from to n) \<Longrightarrow> cw_reason (walk_chain g from to n) \<noteq> AF_none"
    by (auto simp: walk_chain_def no_chain_def split: if_splits)
qed

lemma chain_dirty:
  assumes g: "graph_fits g" and found: "cw_found (walk_chain g from to n)"
    and raw0: "current_document g [from] [] raw0" and raw1: "current_document g [to] [] raw1"
  shows "\<exists>dirty. change_set_of (cw_ops (walk_chain g from to n)) = Ok dirty \<and> change_set_reachable dirty \<and>
    (\<forall>e. \<not> dirty_at dirty e \<longrightarrow> document_try_get_entity raw0 e = document_try_get_entity raw1 e)"
proof -
  have ok: "graph_ok g" "payloads_valid g" "acyclic (history g)" using g graph_reachable_ok by (auto simp: graph_fits_def)
  from chain_delta [OF ok found raw0 raw1] obtain dirty coarse es where
    es: "change_set_of (cw_ops (walk_chain g from to n)) = Ok dirty" "coarsen_to dirty CG_entity = Ok coarse"
      "change_set_entities coarse = Ok es" and kept: "\<forall>e. e \<notin> set es \<longrightarrow> map_of (rd_entities raw1) e = map_of (rd_entities raw0) e" by blast
  obtain b where b: "dirty = fst (build_change_set b)" using es(1) by (auto simp: change_set_of_def rbind_eq_Ok)
  then have reach: "change_set_reachable dirty" by (simp add: cs_built)
  have "\<not> cs_everything coarse" using es(3) by (auto simp: change_set_entities_def check_def split: if_splits)
  with dirty_entities [OF reach] es(2,3) have "\<forall>e. e \<in> set es \<longleftrightarrow> dirty_at dirty e" by auto
  moreover have "document_wf raw0" "document_wf raw1" using raw0 raw1 by (simp_all add: current_document_def)
  ultimately show ?thesis using es(1) reach kept by (auto simp: document_wf_lookup)
qed

lemma pull_one_drained:
  assumes "layers_fit w layers" "i < length layers" "j < length layers" "i \<noteq> j" "ly_direct (layers ! i) = Some k"
    and "layer_was w (layers ! j) raw"
  shows "layer_was (w\<lparr>lw_direct := (lw_direct w)(k \<mapsto> d)\<rparr>) (layers ! j) raw"
proof -
  have "ly_direct (layers ! i) \<noteq> ly_direct (layers ! j)" using assms(1-5) unfolding layers_fit_def by blast
  with assms(5,6) show ?thesis by (auto simp: layer_was_def split: option.splits)
qed

lemma pull_deltas_ok:
  fixes st :: "'c layer_stack"
  assumes "layers_fit w (ls_layers st)" "set is \<subseteq> {..<length (ls_layers st)}" "distinct is" "change_set_reachable dirty"
    and "\<forall>i \<in> set is. layer_was w (ls_layers st ! i) (olds ! i)" "now_says w (ls_layers st) nows"
  shows "\<exists>w' res. pull_deltas st n is dirty w = Ok (w', res) \<and> drained w w' \<and> lw_caches w' = lw_caches w \<and>
    (\<forall>why. res = Inl why \<longrightarrow> fst why \<noteq> AF_none) \<and> (\<forall>all. res = Inr all \<longrightarrow> change_set_reachable all \<and> (\<forall>e. dirty_at dirty e \<longrightarrow> dirty_at all e) \<and>
      (\<forall>i \<in> set is. \<forall>e. \<not> dirty_at all e \<longrightarrow> document_try_get_entity (olds ! i) e = document_try_get_entity (nows ! i) e))"
  using assms
proof (induction "is" arbitrary: w dirty)
  case (Cons i "is")
  let ?l = "ls_layers st ! i"
  have i: "i < length (ls_layers st)" "i \<notin> set is" using Cons.prems(2,3) by simp_all
  have fit: "layer_fits w ?l" using Cons.prems(1) i(1) by (simp add: layers_fit_def)
  have was: "layer_was w ?l (olds ! i)" using Cons.prems(5) by simp
  have now: "layer_says w ?l [] (nows ! i)" using Cons.prems(6) i(1) by (simp add: now_says_def)
  have rest: "set is \<subseteq> {..<length (ls_layers st)}" "distinct is" "\<forall>j \<in> set is. layer_was w (ls_layers st ! j) (olds ! j)"
    using Cons.prems(2,3,5) by simp_all
  have go: ?case
    if step: "pull_deltas st n (i # is) dirty w = pull_deltas st n is dirty1 w1" "drained w w1" "lw_caches w1 = lw_caches w"
      and d1: "change_set_reachable dirty1" "\<forall>e. dirty_at dirty e \<longrightarrow> dirty_at dirty1 e"
        "\<forall>e. \<not> dirty_at dirty1 e \<longrightarrow> document_try_get_entity (olds ! i) e = document_try_get_entity (nows ! i) e"
      and was1: "\<forall>j \<in> set is. layer_was w1 (ls_layers st ! j) (olds ! j)" for dirty1 w1
  proof -
    from Cons.IH [OF drained_fits [OF step(2,3) Cons.prems(1)] rest(1,2) d1(1) was1 now_says_drained [OF step(2) Cons.prems(6)]]
    obtain w' res where r: "pull_deltas st n is dirty1 w1 = Ok (w', res)" "drained w1 w'" "lw_caches w' = lw_caches w1"
      "\<forall>why. res = Inl why \<longrightarrow> fst why \<noteq> AF_none" "\<forall>all. res = Inr all \<longrightarrow> change_set_reachable all \<and> (\<forall>e. dirty_at dirty1 e \<longrightarrow> dirty_at all e) \<and>
        (\<forall>i \<in> set is. \<forall>e. \<not> dirty_at all e \<longrightarrow> document_try_get_entity (olds ! i) e = document_try_get_entity (nows ! i) e)" by blast
    show ?thesis
    proof (intro exI conjI)
      show "pull_deltas st n (i # is) dirty w = Ok (w', res)" using step(1) r(1) by (rule trans)
      show "drained w w'" using drained_trans [OF step(2) r(2)] .
      show "lw_caches w' = lw_caches w" using step(3) r(3) by simp
      show "\<forall>why. res = Inl why \<longrightarrow> fst why \<noteq> AF_none" by (rule r(4))
      show "\<forall>all. res = Inr all \<longrightarrow> change_set_reachable all \<and> (\<forall>e. dirty_at dirty e \<longrightarrow> dirty_at all e) \<and>
        (\<forall>i \<in> set (i # is). \<forall>e. \<not> dirty_at all e \<longrightarrow> document_try_get_entity (olds ! i) e = document_try_get_entity (nows ! i) e)"
      proof (intro allI impI)
        fix all assume "res = Inr all"
        with r(5) have all: "change_set_reachable all" "\<forall>e. dirty_at dirty1 e \<longrightarrow> dirty_at all e"
          "\<forall>i \<in> set is. \<forall>e. \<not> dirty_at all e \<longrightarrow> document_try_get_entity (olds ! i) e = document_try_get_entity (nows ! i) e" by blast+
        have "\<not> dirty_at all e \<Longrightarrow> document_try_get_entity (olds ! i) e = document_try_get_entity (nows ! i) e" for e
          using all(2) d1(3) by blast
        with all d1(2) show "change_set_reachable all \<and> (\<forall>e. dirty_at dirty e \<longrightarrow> dirty_at all e) \<and>
          (\<forall>i \<in> set (i # is). \<forall>e. \<not> dirty_at all e \<longrightarrow> document_try_get_entity (olds ! i) e = document_try_get_entity (nows ! i) e)" by simp
      qed
    qed
  qed
  show ?case
  proof (cases "ly_graph ?l")
    case (Some gk)
    from fit Some obtain g where g: "lw_graphs w gk = Some g" "graph_fits g" by (auto simp: layer_fits_def)
    have old: "current_document g [ly_recorded_head ?l] [] (olds ! i)" using was Some g(1) by (simp add: layer_was_def)
    have new: "current_document g [ly_head ?l] [] (nows ! i)" using now Some g(1) by (simp add: layer_says_def)
    have graph: "is_graph ?l" using Some by (simp add: is_graph_def)
    have derefs: "deref (lw_graphs w) (ly_graph ?l) = Ok g" using Some g(1) by (simp add: deref_def)
    show ?thesis
    proof (cases "ly_head ?l = ly_recorded_head ?l")
      case True
      with old new current_document_unique have "olds ! i = nows ! i" by metis
      with True graph Cons.prems(4) rest(3) show ?thesis by (intro go [of dirty w]) (simp_all add: Let_def)
    next
      case False
      let ?chain = "walk_chain g (ly_recorded_head ?l) (ly_head ?l) n"
      show ?thesis
      proof (cases "cw_found ?chain")
        case found: False
        have "layer_at i st = Ok \<lparr>lh_index = of_nat i, lh_generation = ly_generation ?l\<rparr>" using i(1) by (simp add: layer_at_def check_def)
        with False graph derefs found walk_chain_reason show ?thesis by (simp add: Let_def)
      next
        case True
        from chain_dirty [OF g(2) True old new] obtain delta where delta: "change_set_of (cw_ops ?chain) = Ok delta" "change_set_reachable delta"
          "\<forall>e. \<not> dirty_at delta e \<longrightarrow> document_try_get_entity (olds ! i) e = document_try_get_entity (nows ! i) e" by blast
        from dirty_at_union [OF Cons.prems(4) delta(2)] obtain d1 where d1: "union_with dirty delta = Ok d1" "change_set_reachable d1"
          "\<forall>e. dirty_at dirty e \<or> dirty_at delta e \<longrightarrow> dirty_at d1 e" by blast
        show ?thesis
        proof (rule go [of d1 w])
          show "pull_deltas st n (i # is) dirty w = pull_deltas st n is d1 w"
            using False graph derefs True delta(1) d1(1) by (simp add: Let_def)
        qed (use delta(3) d1 rest(3) in auto)
      qed
    qed
  next
    case None
    with fit obtain k d where d: "ly_direct ?l = Some k" "lw_direct w k = Some d" "layer_ok d" "direct_encoded d"
      by (auto simp: layer_fits_def)
    have raw: "nows ! i = sn_document (dl_doc d)" using now None d(1,2) by (simp add: layer_says_def)
    have old: "dl_version d = ly_recorded_version ?l \<longrightarrow> olds ! i = nows ! i"
      "\<forall>e. e \<notin> pp_entity ` set (cb_paths (dl_changes d)) \<longrightarrow> document_try_get_entity (olds ! i) e = document_try_get_entity (nows ! i) e"
      using was None d(1,2) by (simp_all add: layer_was_def raw)
    have direct: "\<not> is_graph ?l" using None by (simp add: is_graph_def)
    have derefs: "deref (lw_direct w) (ly_direct ?l) = Ok d" using d(1,2) by (simp add: deref_def)
    show ?thesis
    proof (cases "dl_version d = ly_recorded_version ?l")
      case True
      with direct derefs old(1) Cons.prems(4) rest(3) show ?thesis by (intro go [of dirty w]) (simp_all add: Let_def)
    next
      case False
      let ?delta = "fst (impl_take_changes d)"
      let ?w = "w\<lparr>lw_direct := (lw_direct w)(k \<mapsto> snd (impl_take_changes d))\<rparr>"
      have delta: "change_set_reachable ?delta" by (simp add: impl_take_changes_def cs_built)
      have named: "dirty_at ?delta e" if "e \<in> pp_entity ` set (cb_paths (dl_changes d))" for e
        using that dirty_at_built by (auto simp: impl_take_changes_def)
      from dirty_at_union [OF Cons.prems(4) delta] obtain d1 where d1: "union_with dirty ?delta = Ok d1" "change_set_reachable d1"
        "\<forall>e. dirty_at dirty e \<or> dirty_at ?delta e \<longrightarrow> dirty_at d1 e" by blast
      show ?thesis
      proof (rule go [of d1 ?w])
        show "pull_deltas st n (i # is) dirty w = pull_deltas st n is d1 ?w"
          using False direct derefs d(1) d1(1) by (simp add: Let_def)
        show "drained w ?w" using d(2) by (simp add: drained_def)
        show "\<forall>e. \<not> dirty_at d1 e \<longrightarrow> document_try_get_entity (olds ! i) e = document_try_get_entity (nows ! i) e"
          using old(2) named d1(3) by blast
        show "\<forall>j \<in> set is. layer_was ?w (ls_layers st ! j) (olds ! j)"
        proof
          fix j assume j: "j \<in> set is"
          with rest(1) i have "j < length (ls_layers st)" "i \<noteq> j" by auto
          from pull_one_drained [OF Cons.prems(1) i(1) this d(1)] rest(3) j show "layer_was ?w (ls_layers st ! j) (olds ! j)" by blast
        qed
      qed (use d1 in auto)
    qed
  qed
qed simp

subsection \<open>Applying what the layers changed\<close>

text \<open>After a pass, the document shows what the layers say, and the stack has recorded their versions.\<close>

definition caught_up :: "default_parse_policy \<Rightarrow> 'c application \<Rightarrow> layer_world \<Rightarrow> 'c layer_stack \<Rightarrow> layer_world \<times> 'c layer_stack \<Rightarrow> bool" where
  "caught_up p app w st ws' \<longleftrightarrow> (case ws' of (w', st') \<Rightarrow> stack_fits w' st' \<and> drained w w' \<and> \<not> ls_structure_dirty st' \<and>
     ls_layers st' = map (recorded w') (ls_layers st) \<and> (\<forall>docs. now_says w (ls_layers st) docs \<longrightarrow> shows_layers p app docs st'))"

lemma caught_up_in_step:
  assumes "stack_fits w st" "caught_up p app w st (w', st')"
  shows "in_step p app w' st'"
proof -
  from assms(1) layers_say obtain docs where docs: "now_says w (ls_layers st) docs" by (auto simp: stack_fits_def)
  have c: "drained w w'" "ls_layers st' = map (recorded w') (ls_layers st)" "shows_layers p app docs st'"
    using assms(2) docs by (simp_all add: caught_up_def)
  from was_says_recorded [OF now_says_drained [OF c(1) docs]] c(2,3) show ?thesis by (auto simp: in_step_def)
qed

lemma fall_back_ok:
  fixes app :: "'c application"
  assumes "stack_fits w st" "default_ok p" "fst why \<noteq> AF_none"
  shows "\<exists>w' st' r' out stats. fall_back sys app (default_policy p) r (w, st) why = Ok (w', st', r', out, stats) \<and>
    caught_up p app w st (w', st') \<and> (la_fallback_reason stats = AF_none \<longleftrightarrow> la_took_fast_path stats)"
proof -
  from stack_rebuild_ok [OF assms(1,2), of sys app r] obtain w' st' r' out where
    "stack_rebuild sys app (default_policy p) r (w, st) = Ok (w', st', r', out)" "drained w w'" "stack_fits w' st'"
    "\<not> ls_structure_dirty st'" "ls_layers st' = map (recorded w') (ls_layers st)"
    "\<forall>docs. now_says w (ls_layers st) docs \<longrightarrow> shows_layers p app docs st'" by blast
  then show ?thesis using assms(3) by (simp add: fall_back_def caught_up_def default_layered_stats_def)
qed

lemma recompose_ok:
  fixes app :: "'c application"
  assumes st: "stack_fits w st" "\<not> ls_structure_dirty st" and p: "default_ok p" "schemas_movable p"
    and nows: "now_says w (ls_layers st) nows" and olds: "shows_layers p app olds st"
    and es: "sorted_wrt (<) es"
    and kept: "\<And>i e. i < length (ls_layers st) \<Longrightarrow> e \<notin> set es \<Longrightarrow>
      document_try_get_entity (olds ! i) e = document_try_get_entity (nows ! i) e"
  shows "\<exists>w' st' r' out stats. recompose sys app (default_policy p) r options es (w, st) = Ok (w', st', r', out, stats) \<and>
    caught_up p app w st (w', st') \<and> la_took_fast_path stats \<and> la_fallback_reason stats = AF_none"
proof -
  let ?ls = "ls_layers st"
  have fit: "layers_fit w ?ls" and len: "length (ls_materialized st) = length ?ls" using st by (simp_all add: stack_fits_def)
  from materialize_slots_ok [OF fit len, of "[0..<length ?ls]" es] atLeast0LessThan obtain w1 docs where m:
    "rfold (materialize_slot ?ls es) [0..<length ?ls] (w, ls_materialized st) = Ok (w1, docs)" "length docs = length ?ls"
    "layers_fit w1 ?ls" "same_but_caches w w1"
    "\<forall>i < length ?ls. \<not> ly_muted (?ls ! i) \<longrightarrow> is_graph (?ls ! i) \<longrightarrow> layer_says w (?ls ! i) es (docs ! i)" by auto
  let ?st = "st\<lparr>ls_materialized := docs\<rparr>"
  define parts where "parts = map (\<lambda>i. if is_graph (?ls ! i) then docs ! i else nows ! i) [0..<length ?ls]"
  have mat: "impl_materialize es (w, st) = Ok (w1, ?st)" by (simp add: impl_materialize_def m(1))
  have says: "layer_says w (?ls ! i) es (parts ! i)" if "i < length ?ls" "\<not> ly_muted (?ls ! i)" for i
    using that m(5) nows layer_says_direct [of "?ls ! i" w es] by (auto simp: parts_def now_says_def)
  have views: "impl_views w1 ?st = Ok (views_of ?ls parts)"
  proof -
    have "impl_views w1 ?st = Ok (views_of (ls_layers ?st) parts)"
    proof (rule impl_views_eq)
      show "parts ! i = ls_materialized ?st ! i" if "i < length (ls_layers ?st)" "\<not> ly_muted (ls_layers ?st ! i)" "is_graph (ls_layers ?st ! i)" for i
        using that by (simp add: parts_def)
      show "layer_says w1 (ls_layers ?st ! i) [] (parts ! i)" if "i < length (ls_layers ?st)" "\<not> is_graph (ls_layers ?st ! i)" for i
        using nows that same_but_caches_says [OF m(4)] by (simp add: now_says_def parts_def)
    qed
    then show ?thesis by simp
  qed
  let ?v = "views_of ?ls parts"
  have readable: "layers_readable ?v" by (rule views_readable) (rule layer_says_readable [OF says])
  from compose_eq [OF readable, of es] obtain cd where cd: "compose ?v es = Ok cd" by blast
  have get: "composed_try_get cd e = (if e \<in> set es then composed_entity ?v e else None)" for e
    by (rule composed_try_get_eq [OF readable es cd])
  have src: "readable_source (composed_try_get cd) es" using composed_entity_readable [OF readable] by (auto simp: readable_source_def get)
  have new: "composed_try_get cd e = composed_entity (views_of ?ls nows) e" if e: "e \<in> set es" for e
  proof -
    have "composed_entity ?v e = composed_entity (views_of ?ls nows) e"
    proof (rule composed_entity_cong)
      fix i assume i: "i < length ?ls" "\<not> ly_muted (?ls ! i)"
      have "layer_says w (?ls ! i) [] (nows ! i)" using nows i(1) by (simp add: now_says_def)
      from layer_says_filtered [OF says [OF i] this e]
      show "document_try_get_entity (parts ! i) e = document_try_get_entity (nows ! i) e" .
    qed
    with e show ?thesis by (simp add: get)
  qed
  have same: "composed_entity (views_of ?ls nows) e = composed_entity (views_of ?ls olds) e" if "e \<notin> set es" for e
    by (rule composed_entity_cong) (simp add: kept that)
  from drop_for_entities_eq [OF es, of r] obtain r0 where r0: "drop_for_entities es r = Ok r0" by blast
  have "distinct es" using es by (simp add: strict_sorted_iff)
  from redecide_shows [OF p olds [unfolded shows_layers_def] this src new same, of sys "lo_compacts options" "report_schema_version_conflicts cd r0"]
  obtain d r' out b where d: "redecide sys app (default_policy p) (composed_try_get cd) es (lo_compacts options) (ls_composed st)
      (report_schema_version_conflicts cd r0) = Ok (d, r', out, b)" "shows_source p app (composed_entity (views_of ?ls nows)) d" by blast
  let ?st' = "st\<lparr>ls_materialized := docs, ls_composed := d, ls_layers := map (recorded w1) ?ls\<rparr>"
  have "impl_record_versions w1 (?st\<lparr>ls_composed := d\<rparr>) = Ok ?st'"
    using impl_record_versions_eq [of w1 "?st\<lparr>ls_composed := d\<rparr>"] m(3) by simp
  then have run: "\<exists>stats. recompose sys app (default_policy p) r options es (w, st) = Ok (w1, ?st', r', out, stats) \<and> la_took_fast_path stats \<and> la_fallback_reason stats = AF_none"
    by (simp add: recompose_def mat views cd r0 d(1) default_layered_stats_def)
  have shows': "shows_layers p app docs' ?st'" if "now_says w ?ls docs'" for docs'
    using d(2) now_says_unique [OF that nows] by (simp add: shows_layers_def views_of_recorded)
  have "stack_fits w1 ?st'"
    using m(2,3) shows_layers_ok [OF shows' [OF nows]] by (simp add: stack_fits_def layers_fit_recorded)
  with shows' same_but_caches_drained [OF m(4)] st(2) have "caught_up p app w st (w1, ?st')" by (simp add: caught_up_def)
  with run show ?thesis by blast
qed

lemma stack_apply_ok:
  fixes app :: "'c application"
  assumes st: "stack_fits w st" and p: "default_ok p" "schemas_movable p" and step: "ls_structure_dirty st \<or> in_step p app w st"
  shows "\<exists>w' st' r' out stats. stack_apply sys app (default_policy p) r options (w, st) = Ok (w', st', r', out, stats) \<and>
    caught_up p app w st (w', st') \<and> (la_fallback_reason stats = AF_none \<longleftrightarrow> la_took_fast_path stats)"
proof (cases "lo_force_rebuild options \<or> ls_structure_dirty st")
  case True
  define why where "why = (if lo_force_rebuild options then AF_forced else AF_structure_changed, no_handle)"
  have "stack_apply sys app (default_policy p) r options (w, st) = fall_back sys app (default_policy p) r (w, st) why"
    using True by (auto simp: stack_apply_def why_def)
  with fall_back_ok [OF st p(1), of why sys app r] show ?thesis by (auto simp: why_def)
next
  case False
  let ?ls = "ls_layers st"
  have fit: "layers_fit w ?ls" using st by (simp add: stack_fits_def)
  from False step obtain olds where olds: "was_says w ?ls olds" "shows_layers p app olds st" by (auto simp: in_step_def)
  from layers_say [OF fit] obtain nows where nows: "now_says w ?ls nows" by blast
  have "\<forall>i \<in> set [0..<length ?ls]. layer_was w (?ls ! i) (olds ! i)" using olds(1) by (simp add: was_says_def)
  from pull_deltas_ok [OF fit _ _ cs_default this nows, of "lo_max_chain_ops options"] obtain w1 res where
    pull: "pull_deltas st (lo_max_chain_ops options) [0..<length ?ls] empty_change_set w = Ok (w1, res)" "drained w w1" "lw_caches w1 = lw_caches w"
    "\<forall>why. res = Inl why \<longrightarrow> fst why \<noteq> AF_none" "\<forall>all. res = Inr all \<longrightarrow> change_set_reachable all \<and>
      (\<forall>i \<in> set [0..<length ?ls]. \<forall>e. \<not> dirty_at all e \<longrightarrow> document_try_get_entity (olds ! i) e = document_try_get_entity (nows ! i) e)"
    by (auto simp: atLeast0LessThan)
  have st1: "stack_fits w1 st" using st drained_fits [OF pull(2,3) fit] by (simp add: stack_fits_def)
  have nows1: "now_says w1 ?ls nows" by (rule now_says_drained [OF pull(2) nows])
  have rest: "caught_up p app w st ws'" if "caught_up p app w1 st ws'" for ws'
    using that now_says_drained [OF pull(2)] drained_trans [OF pull(2)] by (auto simp: caught_up_def)
  show ?thesis
  proof (cases res)
    case (Inl why)
    with pull(4) have "fst why \<noteq> AF_none" by simp
    from fall_back_ok [OF st1 p(1) this, of sys app r] obtain w' st' r' out stats where
      fb: "fall_back sys app (default_policy p) r (w1, st) why = Ok (w', st', r', out, stats)" "caught_up p app w1 st (w', st')"
      "la_fallback_reason stats = AF_none \<longleftrightarrow> la_took_fast_path stats" by blast
    have "stack_apply sys app (default_policy p) r options (w, st) = Ok (w', st', r', out, stats)"
      using False pull(1) Inl fb(1) by (simp add: stack_apply_def)
    with fb(2,3) rest show ?thesis by blast
  next
    case (Inr all)
    with pull(5) have reach: "change_set_reachable all" and kept0: "\<And>i e. i < length ?ls \<Longrightarrow> \<not> dirty_at all e \<Longrightarrow>
        document_try_get_entity (olds ! i) e = document_try_get_entity (nows ! i) e" by auto
    from dirty_entities [OF reach] obtain c where c: "coarsen_to all CG_entity = Ok c" "\<not> cs_everything c \<longrightarrow>
      (\<exists>es. change_set_entities c = Ok es \<and> sorted_wrt (<) es \<and> (\<forall>e. e \<in> set es \<longleftrightarrow> dirty_at all e))" by blast
    show ?thesis
    proof (cases "cs_everything c")
      case True
      from fall_back_ok [OF st1 p(1), of "(AF_structure_changed, no_handle)" sys app r] obtain w' st' r' out stats where
        fb: "fall_back sys app (default_policy p) r (w1, st) (AF_structure_changed, no_handle) = Ok (w', st', r', out, stats)"
        "caught_up p app w1 st (w', st')" "la_fallback_reason stats = AF_none \<longleftrightarrow> la_took_fast_path stats" by auto
      have "stack_apply sys app (default_policy p) r options (w, st) = Ok (w', st', r', out, stats)"
        using False pull(1) Inr c(1) True fb(1) by (simp add: stack_apply_def)
      with fb(2,3) rest show ?thesis by blast
    next
      case everything: False
      with c(2) obtain es where es: "change_set_entities c = Ok es" "sorted_wrt (<) es" "\<forall>e. e \<in> set es \<longleftrightarrow> dirty_at all e" by blast
      have kept: "document_try_get_entity (olds ! i) e = document_try_get_entity (nows ! i) e" if "i < length ?ls" "e \<notin> set es" for i e
        using kept0 that es(3) by blast
      show ?thesis
      proof (cases "es = []")
        case True
        let ?st' = "st\<lparr>ls_layers := map (recorded w1) ?ls\<rparr>"
        have run: "stack_apply sys app (default_policy p) r options (w, st) =
            Ok (w1, ?st', r, empty_summary, default_layered_stats\<lparr>la_took_fast_path := True\<rparr>)"
          using False pull(1) Inr c(1) everything es(1) True impl_record_versions_eq [of w1 st] st1 by (simp add: stack_apply_def stack_fits_def)
        have "composed_entity (views_of ?ls nows) e = composed_entity (views_of ?ls olds) e" for e
          by (rule composed_entity_cong) (simp add: kept True)
        then have "composed_entity (views_of ?ls nows) = composed_entity (views_of ?ls olds)" by (rule ext)
        then have "shows_layers p app docs ?st'" if "now_says w1 ?ls docs" for docs
          using olds(2) now_says_unique [OF that nows1] by (simp add: shows_layers_def views_of_recorded)
        with st1 False have "caught_up p app w1 st (w1, ?st')" by (simp add: caught_up_def stack_fits_def layers_fit_recorded)
        with run rest show ?thesis by (auto simp: default_layered_stats_def)
      next
        case nonempty: False
        have "\<not> ls_structure_dirty st" using False by simp
        from recompose_ok [OF st1 this p nows1 olds(2) es(2) kept, of sys r options] obtain w' st' r' out stats where
          rc: "recompose sys app (default_policy p) r options es (w1, st) = Ok (w', st', r', out, stats)" "caught_up p app w1 st (w', st')"
          "la_took_fast_path stats" "la_fallback_reason stats = AF_none" by blast
        have "stack_apply sys app (default_policy p) r options (w, st) = Ok (w', st', r', out, stats)"
          using False pull(1) Inr c(1) everything es(1) nonempty rc(1) by (simp add: stack_apply_def)
        with rc(2-4) rest show ?thesis by blast
      qed
    qed
  qed
qed

end
