(* ===== verification/Layer_Session.thy ===== *)
theory Layer_Session
  imports Layer_Apply
begin

text \<open>
  Whole sessions with a stack: edits of direct layers and of graphs keep what the stack knows of them true, so \<open>apply\<close> agrees with
  \<open>rebuild\<close> wherever a session has led, and provenance names the layer the composition takes a path from.
\<close>

subsection \<open>Direct layers, edit by edit\<close>

inductive direct_edit :: "direct_layer \<Rightarrow> direct_layer \<Rightarrow> bool" where
  edit_set: "encoded_value v \<Longrightarrow> direct_edit d (layer_set slack q v d)"
| edit_abstain: "direct_edit d (layer_abstain q d)"
| edit_mark: "direct_edit d (mark_dirty q d)"
| edit_begin: "begin_rebuild d = Ok d' \<Longrightarrow> direct_edit d d'"
| edit_finish: "finish_rebuild d = Ok d' \<Longrightarrow> direct_edit d d'"
| edit_clear: "layer_clear d = Ok d' \<Longrightarrow> direct_edit d d'"

text \<open>The version moved \<open>n\<close> times, and what changed is among the pending changes.\<close>

definition edited :: "nat \<Rightarrow> direct_layer \<Rightarrow> direct_layer \<Rightarrow> bool" where
  "edited n d d' \<longleftrightarrow> layer_ok d' \<and> (direct_encoded d \<longrightarrow> direct_encoded d') \<and> dl_version d' = dl_version d + of_nat n \<and>
     (n = 0 \<longrightarrow> dl_doc d' = dl_doc d) \<and> set (layer_dirty d) \<subseteq> set (layer_dirty d') \<and> dl_writer d' = dl_writer d \<and>
     (\<forall>q. q \<notin> set (layer_dirty d') \<longrightarrow> layer_values d' q = layer_values d q)"

lemma edited_refl: "layer_ok d \<Longrightarrow> edited 0 d d"
  by (simp add: edited_def)

lemma edited_trans:
  assumes "edited n d d'" "edited m d' d''"
  shows "edited (n + m) d d''"
proof -
  have "layer_values d'' q = layer_values d q" if "q \<notin> set (layer_dirty d'')" for q
  proof -
    have "q \<notin> set (layer_dirty d')" using assms(2) that by (auto simp: edited_def)
    with that assms show ?thesis by (simp add: edited_def)
  qed
  with assms show ?thesis by (auto simp: edited_def)
qed

lemma edited_withdraw:
  assumes ok: "layer_ok d"
  shows "edited (if layer_values d q = None then 0 else 1) d (impl_withdraw q d)"
proof -
  note spec = withdraw_spec [OF ok, of q]
  have "dl_writer (impl_withdraw q d) = dl_writer d" by (simp add: impl_withdraw_def mark_dirty_def)
  moreover have "dl_version (impl_withdraw q d) = dl_version d + of_nat (if layer_values d q = None then 0 else 1)"
    "layer_values d q = None \<Longrightarrow> dl_doc (impl_withdraw q d) = dl_doc d"
    by (simp_all add: impl_withdraw_def mark_dirty_def layer_values_def)
  ultimately show ?thesis using spec by (auto simp: edited_def direct_encoded_def)
qed

lemma edited_withdraw_all:
  "layer_ok d \<Longrightarrow> \<exists>n \<le> length ps. edited n d (foldl (\<lambda>l p. impl_withdraw p l) d ps)"
proof (induction ps arbitrary: d)
  case Nil
  then show ?case using edited_refl by auto
next
  case (Cons p ps)
  from Cons.IH [OF withdraw_spec(1) [OF Cons.prems, of p]] obtain n where
    n: "n \<le> length ps" "edited n (impl_withdraw p d) (foldl (\<lambda>l p. impl_withdraw p l) (impl_withdraw p d) ps)" by blast
  from edited_trans [OF edited_withdraw [OF Cons.prems, of p] n(2)] n(1)
  show ?case by (intro exI [of _ "(if layer_values d p = None then 0 else 1) + n"]) (simp split: if_splits)
qed

lemma edited_set:
  assumes ok: "layer_ok d" and v: "encoded_value v"
  shows "edited (if layer_values d q = Some v then 0 else 1) d (layer_set slack q v d)"
proof -
  note spec = layer_set_spec [OF ok, of slack q v]
  have wf: "document_wf (sn_document (dl_doc d))" using ok by (simp add: layer_ok_def snapshot_ok_def)
  have "dl_version (layer_set slack q v d) = dl_version d + of_nat (if layer_values d q = Some v then 0 else 1)"
    "layer_values d q = Some v \<Longrightarrow> dl_doc (layer_set slack q v d) = dl_doc d"
    using if_changed_eq [OF wf, of slack q "dl_writer d" v] layer_old [OF ok, of q]
    by (auto simp: layer_set_def mark_dirty_def impl_note_written_def Let_def)
  with spec v show ?thesis by (auto simp: edited_def direct_encoded_def)
qed

lemma edited_note: "layer_ok d \<Longrightarrow> edited 0 d (impl_note_written q d)"
  by (simp add: edited_def direct_encoded_def) (simp add: impl_note_written_def)

lemma clear_dirty:
  "\<not> cb_everything b \<Longrightarrow> foldl (\<lambda>b fe. builder_add b (fst fe)) b xs = b\<lparr>cb_paths := cb_paths b @ map fst xs\<rparr>"
  by (induction xs arbitrary: b) (simp_all add: builder_add_def)

lemma edited_clear:
  assumes ok: "layer_ok d" and run: "layer_clear d = Ok d'"
  shows "edited 1 d d'"
proof -
  have ch: "\<not> cb_everything (dl_changes d)" using ok by (simp add: layer_ok_def)
  have d': "d' = d\<lparr>dl_changes := (dl_changes d)\<lparr>cb_paths := layer_dirty d @ map fst (flatten (sn_document (dl_doc d)))\<rparr>,
      dl_doc := empty_snapshot, dl_version := dl_version d + 1\<rparr>"
    using run by (auto simp: layer_clear_def rbind_eq_Ok clear_dirty [OF ch])
  have empty: "layer_values d' q = None" for q by (simp add: d' layer_values_def)
  have "layer_ok d'" using ok snapshot_reachable_ok [OF snapshot_reachable.default] by (simp add: layer_ok_def d')
  moreover have "layer_values d q = None" if "q \<notin> set (map fst (flatten (sn_document (dl_doc d))))" for q
    using that layer_values_flatten(2) [OF ok] by auto
  ultimately show ?thesis by (auto simp: edited_def empty direct_encoded_def) (simp_all add: d')
qed

lemma direct_edit_edited:
  assumes "direct_edit d d'" "layer_ok d"
  shows "\<exists>n \<le> Suc (length (flatten (sn_document (dl_doc d)))). edited n d d'"
  using assms
proof (induction rule: direct_edit.induct)
  case (edit_set v d slack q)
  then show ?case using edited_set [of d v q slack] by (auto split: if_splits)
next
  case (edit_abstain d q)
  then have "layer_ok (impl_note_written q d)" by simp
  from edited_trans [OF edited_note edited_withdraw [OF this, of q]] edit_abstain show ?case
    by (auto simp: layer_abstain_def split: if_splits)
next
  case (edit_mark d q)
  have "edited 1 d (mark_dirty q d)"
    using edit_mark by (simp add: edited_def direct_encoded_def) (auto simp: mark_dirty_def builder_add_def)
  then show ?case by fastforce
next
  case (edit_begin d d')
  then have d': "d' = d\<lparr>dl_rebuilding := True, dl_inserted := False, dl_written := []\<rparr>"
    by (simp add: begin_rebuild_def rbind_eq_Ok)
  have "edited 0 d d'" using edit_begin.prems by (simp add: edited_def direct_encoded_def d')
  then show ?case by blast
next
  case (edit_clear d d')
  then show ?case using edited_clear by fastforce
next
  case (edit_finish d d')
  let ?l = "d\<lparr>dl_rebuilding := False\<rparr>"
  have skip: "edited 0 d (d\<lparr>dl_rebuilding := b, dl_written := ws\<rparr>)" if "layer_ok d" for b ws and d :: direct_layer
    using that by (simp add: edited_def direct_encoded_def)
  show ?case
  proof (cases "\<not> dl_inserted ?l \<and> int (length (dl_written ?l)) = sn_property_count (dl_doc ?l)")
    case True
    with edit_finish.hyps have "d' = ?l\<lparr>dl_written := []\<rparr>" by (simp add: finish_rebuild_def rbind_eq_Ok Let_def)
    with skip [OF edit_finish.prems] show ?thesis by fastforce
  next
    case False
    define s where "s = d\<lparr>dl_rebuilding := False, dl_written := cc_sort (\<lambda>a b. path_compare_bytes a b < 0) (dl_written d)\<rparr>"
    define stale where "stale = stale_paths (sn_document (dl_doc d)) (dl_written s)"
    have d': "d' = foldl (\<lambda>l p. impl_withdraw p l) s stale\<lparr>dl_written := []\<rparr>"
      using False edit_finish.hyps by (auto simp: finish_rebuild_def rbind_eq_Ok Let_def s_def stale_def)
    have s0: "edited 0 d s" unfolding s_def by (rule skip [OF edit_finish.prems])
    then have ok: "layer_ok s" by (simp add: edited_def)
    from edited_withdraw_all [OF this, of stale] obtain n where
      n: "n \<le> length stale" "edited n s (foldl (\<lambda>l p. impl_withdraw p l) s stale)" by blast
    then have "layer_ok (foldl (\<lambda>l p. impl_withdraw p l) s stale)" by (simp add: edited_def)
    then have "edited 0 (foldl (\<lambda>l p. impl_withdraw p l) s stale) d'" by (simp add: edited_def direct_encoded_def d')
    from edited_trans [OF edited_trans [OF s0 n(2)] this] have "edited n d d'" by simp
    moreover have "length stale \<le> length (flatten (sn_document (dl_doc d)))"
    proof -
      have "sorted (dl_written s)" by (simp add: s_def cc_sort_eq_sort)
      from stale_paths_spec [OF this] show ?thesis unfolding stale_def by (metis length_filter_le length_map)
    qed
    ultimately show ?thesis using n(1) by (intro exI [of _ n]) simp
  qed
qed

lemma layer_lookup:
  assumes "layer_ok d"
  shows "document_try_get (sn_document (dl_doc d)) q = map_option (\<lambda>u. \<lparr>rp_writers = [\<lparr>pv_writer = dl_writer d, pv_value = u\<rparr>]\<rparr>) (layer_values d q)"
proof (cases "document_try_get (sn_document (dl_doc d)) q")
  case (Some v)
  with assms obtain u where "rp_writers v = [\<lparr>pv_writer = dl_writer d, pv_value = u\<rparr>]" by (auto simp: layer_ok_def)
  with Some show ?thesis by (cases v) (simp add: layer_values_def)
qed (simp add: layer_values_def)

lemma edited_entity:
  assumes "layer_ok d" "edited n d d'" "e \<notin> pp_entity ` set (layer_dirty d')"
  shows "document_try_get_entity (sn_document (dl_doc d')) e = document_try_get_entity (sn_document (dl_doc d)) e"
proof -
  have ok': "layer_ok d'" using assms(2) by (simp add: edited_def)
  have wf: "document_wf (sn_document (dl_doc d'))" "document_wf (sn_document (dl_doc d))"
    using assms(1) ok' by (simp_all add: layer_ok_def snapshot_ok_def)
  have "document_try_get (sn_document (dl_doc d')) q = document_try_get (sn_document (dl_doc d)) q" if "pp_entity q = e" for q
  proof -
    have "q \<notin> set (layer_dirty d')" using assms(3) that by auto
    with assms(2) show ?thesis by (simp add: layer_lookup [OF assms(1)] layer_lookup [OF ok'] edited_def)
  qed
  from entity_ext [OF wf this] show ?thesis by (simp add: document_wf_lookup [OF wf(1)] document_wf_lookup [OF wf(2)])
qed

lemma no_wrap_le:
  fixes v :: "64 word"
  assumes "unat v + n < 2 ^ 64"
  shows "v \<le> v + of_nat n" "v + of_nat n = v \<longleftrightarrow> n = 0"
proof -
  have n: "unat (of_nat n :: 64 word) = n" using assms by (simp add: unsigned_of_nat take_bit_nat_eq_self)
  with assms show "v \<le> v + of_nat n" by (subst no_olen_add_nat) simp
  show "v + of_nat n = v \<longleftrightarrow> n = 0" using n by auto
qed

lemma edit_keeps_was:
  assumes d: "lw_direct w k = Some d" "layer_ok d" and ed: "edited n d d'" and n: "unat (dl_version d) + n < 2 ^ 64"
    and was: "layer_was w l raw"
  shows "layer_was (w\<lparr>lw_direct := (lw_direct w)(k \<mapsto> d')\<rparr>) l raw"
proof (cases "ly_graph l = None \<and> ly_direct l = Some k")
  case False
  with was show ?thesis by (auto simp: layer_was_def split: option.splits)
next
  case True
  with was d(1) have old: "ly_recorded_version l \<le> dl_version d" "dl_version d = ly_recorded_version l \<longrightarrow> raw = sn_document (dl_doc d)"
    "\<forall>e. e \<notin> pp_entity ` set (layer_dirty d) \<longrightarrow> document_try_get_entity raw e = document_try_get_entity (sn_document (dl_doc d)) e"
    by (simp_all add: layer_was_def)
  have v: "dl_version d' = dl_version d + of_nat n" "set (layer_dirty d) \<subseteq> set (layer_dirty d')" "n = 0 \<longrightarrow> dl_doc d' = dl_doc d"
    using ed by (simp_all add: edited_def)
  have up: "dl_version d \<le> dl_version d'" using no_wrap_le(1) [OF n] v(1) by simp
  have "raw = sn_document (dl_doc d')" if eq: "dl_version d' = ly_recorded_version l"
  proof -
    have "dl_version d' = dl_version d" using up old(1) eq by simp
    with no_wrap_le(2) [OF n] v(1) have "n = 0" by simp
    with v(3) old(2) eq \<open>dl_version d' = dl_version d\<close> show ?thesis by simp
  qed
  moreover have "document_try_get_entity raw e = document_try_get_entity (sn_document (dl_doc d')) e"
    if "e \<notin> pp_entity ` set (layer_dirty d')" for e
  proof -
    have "e \<notin> pp_entity ` set (layer_dirty d)" using that v(2) by blast
    with old(3) edited_entity [OF d(2) ed that] show ?thesis by simp
  qed
  ultimately show ?thesis using True up old(1) by (simp add: layer_was_def)
qed

lemma edit_keeps_fit:
  assumes fit: "layers_fit w layers" and d: "lw_direct w k = Some d" and ed: "layer_ok d \<Longrightarrow> edited n d d'"
  shows "layers_fit (w\<lparr>lw_direct := (lw_direct w)(k \<mapsto> d')\<rparr>) layers"
proof -
  let ?w = "w\<lparr>lw_direct := (lw_direct w)(k \<mapsto> d')\<rparr>"
  have "layer_fits ?w l" if l: "layer_fits w l" for l
  proof (cases "ly_graph l = None \<and> ly_direct l = Some k")
    case True
    with l d have "layer_ok d" "direct_encoded d" by (auto simp: layer_fits_def)
    with ed True show ?thesis by (auto simp: layer_fits_def edited_def)
  next
    case False
    with l show ?thesis by (auto simp: layer_fits_def cache_ready_def split: option.splits)
  qed
  then have "\<forall>l \<in> set layers. layer_fits ?w l" using fit by (simp add: layers_fit_def)
  with fit show ?thesis unfolding layers_fit_def by blast
qed

subsection \<open>Sessions\<close>

text \<open>An op added to a graph changes nothing below a head that was there.\<close>

lemma grown_keeps_was:
  assumes g: "lw_graphs w gk = Some g" and x: "\<not> contains_op g (o_id x)" "\<forall>r o1. find_op g r = Some o1 \<longrightarrow> o_id x \<notin> set (o_parents o1)"
    and rec: "ly_graph l = Some gk \<Longrightarrow> ly_recorded_head l \<noteq> o_id x" and was: "layer_was w l raw"
  shows "layer_was (w\<lparr>lw_graphs := (lw_graphs w)(gk \<mapsto> fst (graph_add g x))\<rparr>) l raw"
proof (cases "ly_graph l = Some gk")
  case False
  with was show ?thesis by (auto simp: layer_was_def split: option.splits)
next
  case True
  let ?g = "fst (graph_add g x)"
  have "current_document ?g [ly_recorded_head l] [] raw \<longleftrightarrow> current_document g [ly_recorded_head l] [] raw"
  proof (rule current_document_agree)
    fix r assume "r \<in> reached g [ly_recorded_head l]"
    then have "contains_op g r" by (rule reached_contains)
    with x(1) have rx: "r \<noteq> o_id x" by auto
    then show "find_op g r = find_op ?g r" by (simp add: graph_add_find [OF x(1)])
    show "history g `` {r} = history ?g `` {r}"
      using rx x(2) by (auto simp: parent_edges_def graph_add_find [OF x(1)] contains_op_def split: if_splits)
  next
    fix h assume "h \<in> set [ly_recorded_head l]"
    with rec [OF True] show "contains_op g h \<longleftrightarrow> contains_op ?g h" by (simp add: graph_add_find [OF x(1)] contains_op_def)
  qed
  with True was g show ?thesis by (simp add: layer_was_def)
qed

text \<open>
  What a program does with a stack: it pushes layers that fit beside the others, moves heads, mutes, edits a direct layer while its
  version counter has room, adds ops that nothing refers to yet, rebuilds and applies, in any order.
\<close>

inductive stack_session :: "system \<Rightarrow> 'c application \<Rightarrow> default_parse_policy \<Rightarrow> layer_world \<Rightarrow> 'c layer_stack \<Rightarrow> bool" for sys app p where
  ss_new: "stack_session sys app p w new_layer_stack"
| ss_push_graph: "stack_session sys app p w st \<Longrightarrow> push_graph_layer name gk head cache st = (h, st') \<Longrightarrow> layers_fit w (ls_layers st') \<Longrightarrow>
    stack_session sys app p w st'"
| ss_push_direct: "stack_session sys app p w st \<Longrightarrow> push_direct_layer name k st = (h, st') \<Longrightarrow> layers_fit w (ls_layers st') \<Longrightarrow>
    stack_session sys app p w st'"
| ss_set_head: "stack_session sys app p w st \<Longrightarrow> set_head h head st = Ok st' \<Longrightarrow> stack_session sys app p w st'"
| ss_set_muted: "stack_session sys app p w st \<Longrightarrow> set_muted h b st = Ok st' \<Longrightarrow> stack_session sys app p w st'"
| ss_edit: "stack_session sys app p w st \<Longrightarrow> lw_direct w k = Some d \<Longrightarrow> direct_edit d d' \<Longrightarrow>
    unat (dl_version d) + Suc (length (flatten (sn_document (dl_doc d)))) < 2 ^ 64 \<Longrightarrow>
    stack_session sys app p (w\<lparr>lw_direct := (lw_direct w)(k \<mapsto> d')\<rparr>) st"
| ss_grow: "stack_session sys app p w st \<Longrightarrow> lw_graphs w gk = Some g \<Longrightarrow> \<not> contains_op g (o_id x) \<Longrightarrow>
    \<forall>r o1. find_op g r = Some o1 \<longrightarrow> o_id x \<notin> set (o_parents o1) \<Longrightarrow>
    \<forall>l \<in> set (ls_layers st). ly_graph l = Some gk \<longrightarrow> ly_recorded_head l \<noteq> o_id x \<Longrightarrow>
    layers_fit (w\<lparr>lw_graphs := (lw_graphs w)(gk \<mapsto> fst (graph_add g x))\<rparr>) (ls_layers st) \<Longrightarrow>
    stack_session sys app p (w\<lparr>lw_graphs := (lw_graphs w)(gk \<mapsto> fst (graph_add g x))\<rparr>) st"
| ss_rebuild: "stack_session sys app p w st \<Longrightarrow> stack_rebuild sys app (default_policy p) r (w, st) = Ok (w', st', r', out) \<Longrightarrow>
    stack_session sys app p w' st'"
| ss_apply: "stack_session sys app p w st \<Longrightarrow> stack_apply sys app (default_policy p) r options (w, st) = Ok (w', st', r', out, stats) \<Longrightarrow>
    stack_session sys app p w' st'"

definition stack_ready :: "default_parse_policy \<Rightarrow> 'c application \<Rightarrow> layer_world \<Rightarrow> 'c layer_stack \<Rightarrow> bool" where
  "stack_ready p app w st \<longleftrightarrow> stack_fits w st \<and> (ls_structure_dirty st \<or> in_step p app w st)"

lemma set_layer_simps:
  assumes "i < length layers" "ly_graph l' = ly_graph (layers ! i)" "ly_direct l' = ly_direct (layers ! i)" "ly_cache l' = ly_cache (layers ! i)"
  shows "layers_fit w (layers[i := l']) \<longleftrightarrow> layers_fit w layers"
proof -
  have same: "ly_graph (layers[i := l'] ! j) = ly_graph (layers ! j)" "ly_direct (layers[i := l'] ! j) = ly_direct (layers ! j)"
    "ly_cache (layers[i := l'] ! j) = ly_cache (layers ! j)" for j
    using assms by (cases "j = i"; simp)+
  then have "layer_fits w (layers[i := l'] ! j) = layer_fits w (layers ! j)" for j by (simp only: layer_fits_def same)
  with same show ?thesis unfolding layers_fit_def all_set_conv_all_nth length_list_update by (simp only:)
qed

lemma stack_session_ready:
  fixes app :: "'c application"
  assumes "stack_session sys app p w st" "default_ok p" "schemas_movable p"
  shows "stack_ready p app w st"
  using assms
proof (induction rule: stack_session.induct)
  case (ss_new w)
  have "document_ok (new_document_builder (empty_document :: 'c document))" by (rule document_ok_empty)
  then show ?case by (simp add: stack_ready_def stack_fits_def new_layer_stack_def layers_fit_def)
next
  case (ss_push_graph w st name gk head cache h st')
  then show ?case by (auto simp: stack_ready_def stack_fits_def push_graph_layer_def push_layer_def Let_def)
next
  case (ss_push_direct w st name k h st')
  then show ?case by (auto simp: stack_ready_def stack_fits_def push_direct_layer_def push_layer_def Let_def)
next
  case (ss_set_head w st h head st')
  then obtain i where i: "i < length (ls_layers st)"
    "st' = st\<lparr>ls_layers := (ls_layers st)[i := (ls_layers st ! i)\<lparr>ly_head := head\<rparr>]\<rparr>"
    by (auto simp: set_head_def stack_find_def rbind_eq_Ok split: option.splits if_splits intro: that [of "unat (lh_index h)"])
  have fit: "layers_fit w (ls_layers st') \<longleftrightarrow> layers_fit w (ls_layers st)" using set_layer_simps [OF i(1)] by (simp add: i(2))
  have at: "ls_layers st' ! j = (if j = i then (ls_layers st ! i)\<lparr>ly_head := head\<rparr> else ls_layers st ! j)" for j
    using i(1) by (simp add: i(2) nth_list_update)
  have "layer_was w (l\<lparr>ly_head := head\<rparr>) = layer_was w l" for l by (rule ext) (simp add: layer_was_def split: option.split)
  then have was: "layer_was w (ls_layers st' ! j) = layer_was w (ls_layers st ! j)" "ly_muted (ls_layers st' ! j) = ly_muted (ls_layers st ! j)" for j
    using i(1) by (auto simp: at fun_eq_iff)
  have views: "views_of (ls_layers st') docs = views_of (ls_layers st) docs" for docs
    unfolding views_of_def was(2) by (simp add: i(2))
  have "in_step p app w st'" if "in_step p app w st"
    using that was(1) by (auto simp: in_step_def was_says_def shows_layers_def views) (auto simp: i(2))
  with ss_set_head.IH [OF ss_set_head.prems] fit show ?case by (auto simp: stack_ready_def stack_fits_def i(2))
next
  case (ss_set_muted w st h b st')
  note ready = ss_set_muted.IH [OF ss_set_muted.prems]
  from ss_set_muted.hyps(2) consider "st' = st" | i where "i < length (ls_layers st)"
    "st' = st\<lparr>ls_layers := (ls_layers st)[i := (ls_layers st ! i)\<lparr>ly_muted := b\<rparr>], ls_structure_dirty := True\<rparr>"
  proof (cases "stack_find h st")
    case None
    with ss_set_muted.hyps(2) show ?thesis by (simp add: set_muted_def)
  next
    case (Some i)
    then have "i < length (ls_layers st)" by (auto simp: stack_find_def split: if_splits)
    moreover have "Ok st' = (if ly_muted (ls_layers st ! i) = b then Ok st else
        Ok (st\<lparr>ls_layers := (ls_layers st)[i := (ls_layers st ! i)\<lparr>ly_muted := b\<rparr>], ls_structure_dirty := True\<rparr>) :: 'c layer_stack checked)"
      unfolding ss_set_muted.hyps(2) [symmetric] by (simp add: set_muted_def Some)
    ultimately show ?thesis
      by (cases "ly_muted (ls_layers st ! i) = b") (rule that(1), simp, rule that(2) [of i], simp_all)
  qed
  then show ?case
  proof cases
    case (2 i)
    have "layers_fit w (ls_layers st') \<longleftrightarrow> layers_fit w (ls_layers st)" using set_layer_simps [OF 2(1)] by (simp add: 2(2))
    with ready show ?thesis by (simp add: stack_ready_def stack_fits_def 2(2))
  qed (use ready in simp)
next
  case (ss_edit w st k d d')
  note ready = ss_edit.IH [OF ss_edit.prems]
  let ?w = "w\<lparr>lw_direct := (lw_direct w)(k \<mapsto> d')\<rparr>"
  from direct_edit_edited [OF ss_edit.hyps(3)] obtain n where
    n: "layer_ok d \<longrightarrow> n \<le> Suc (length (flatten (sn_document (dl_doc d)))) \<and> edited n d d'" by metis
  have fit: "layers_fit w (ls_layers st)" using ready by (simp add: stack_ready_def stack_fits_def)
  have fit': "layers_fit ?w (ls_layers st)" using n by (intro edit_keeps_fit [OF fit ss_edit.hyps(2), of n]) simp
  have was: "layer_was ?w l raw" if l: "l \<in> set (ls_layers st)" "layer_was w l raw" for l raw
  proof (cases "ly_graph l = None \<and> ly_direct l = Some k")
    case True
    with fit l(1) ss_edit.hyps(2) have "layer_ok d" by (auto simp: layers_fit_def layer_fits_def)
    with n ss_edit.hyps(4) show ?thesis by (intro edit_keeps_was [OF ss_edit.hyps(2) _ _ _ l(2), of n]) simp_all
  next
    case False
    with l(2) show ?thesis by (auto simp: layer_was_def split: option.splits)
  qed
  have "in_step p app ?w st" if "in_step p app w st"
    using that was by (auto simp: in_step_def was_says_def)
  with ready fit' show ?case by (auto simp: stack_ready_def stack_fits_def)
next
  case (ss_grow w st gk g x)
  note ready = ss_grow.IH [OF ss_grow.prems]
  let ?w = "w\<lparr>lw_graphs := (lw_graphs w)(gk \<mapsto> fst (graph_add g x))\<rparr>"
  have was: "layer_was ?w l raw" if l: "l \<in> set (ls_layers st)" "layer_was w l raw" for l raw
    using ss_grow.hyps(5) l(1) by (intro grown_keeps_was [OF ss_grow.hyps(2-4) _ l(2)]) simp
  have "in_step p app ?w st" if "in_step p app w st"
    using that was by (auto simp: in_step_def was_says_def)
  with ready ss_grow.hyps(6) show ?case by (auto simp: stack_ready_def stack_fits_def)
next
  case (ss_rebuild w st r w' st' r' out)
  have fits: "stack_fits w st" using ss_rebuild by (simp add: stack_ready_def)
  from stack_rebuild_ok [OF this ss_rebuild.prems(1), of sys app r] ss_rebuild.hyps(2) have "caught_up p app w st (w', st')"
    by (auto simp: caught_up_def)
  with caught_up_in_step [OF fits] show ?case by (simp add: stack_ready_def caught_up_def)
next
  case (ss_apply w st r options w' st' r' out stats)
  have fits: "stack_fits w st" "ls_structure_dirty st \<or> in_step p app w st" using ss_apply by (simp_all add: stack_ready_def)
  from stack_apply_ok [OF fits(1) ss_apply.prems fits(2), of sys r options] ss_apply.hyps(2) have "caught_up p app w st (w', st')" by auto
  with caught_up_in_step [OF fits(1)] show ?case by (simp add: stack_ready_def caught_up_def)
qed

text \<open>
  C15. In any session of pushes, head moves, muting, direct edits, growing graphs, rebuilds and applies, \<open>apply\<close> never faults and
  leaves the document a rebuild would leave at that point, whichever path it takes: every entity and component of the composition of
  what the layers say now, interpreted.  Its stats name a reason exactly when it fell back.
\<close>

theorem layered_apply_is_rebuild:
  fixes app :: "'c application"
  assumes "stack_session sys app p w st" "default_ok p" "schemas_movable p"
  shows "\<exists>w1 st1 r1 out1 stats w2 st2 r2 out2.
    stack_apply sys app (default_policy p) r options (w, st) = Ok (w1, st1, r1, out1, stats) \<and>
    stack_rebuild sys app (default_policy p) r' (w, st) = Ok (w2, st2, r2, out2) \<and>
    doc_entities (ls_composed st1) = doc_entities (ls_composed st2) \<and> doc_component (ls_composed st1) = doc_component (ls_composed st2) \<and>
    (\<exists>docs. now_says w (ls_layers st) docs \<and> now_says w1 (ls_layers st1) docs \<and> shows_layers p app docs st1) \<and>
    (la_fallback_reason stats = AF_none \<longleftrightarrow> la_took_fast_path stats)"
proof -
  from stack_session_ready [OF assms] have ready: "stack_fits w st" "ls_structure_dirty st \<or> in_step p app w st"
    by (simp_all add: stack_ready_def)
  from stack_apply_ok [OF ready(1) assms(2,3) ready(2), of sys r options] obtain w1 st1 r1 out1 stats where
    a: "stack_apply sys app (default_policy p) r options (w, st) = Ok (w1, st1, r1, out1, stats)" "caught_up p app w st (w1, st1)"
      "la_fallback_reason stats = AF_none \<longleftrightarrow> la_took_fast_path stats" by blast
  from stack_rebuild_ok [OF ready(1) assms(2), of sys app r'] obtain w2 st2 r2 out2 where
    b: "stack_rebuild sys app (default_policy p) r' (w, st) = Ok (w2, st2, r2, out2)"
      "\<forall>docs. now_says w (ls_layers st) docs \<longrightarrow> shows_layers p app docs st2" "ls_layers st2 = map (recorded w2) (ls_layers st)" by blast
  from ready(1) layers_say obtain docs where docs: "now_says w (ls_layers st) docs" by (auto simp: stack_fits_def)
  from a(2) docs have a': "ls_layers st1 = map (recorded w1) (ls_layers st)" "drained w w1" "shows_layers p app docs st1"
    by (simp_all add: caught_up_def)
  have "shows_source p app (composed_entity (views_of (ls_layers st) docs)) (ls_composed st1)"
    "shows_source p app (composed_entity (views_of (ls_layers st) docs)) (ls_composed st2)"
    using a'(1,3) b(2,3) docs by (simp_all add: shows_layers_def views_of_recorded)
  note same = shows_source_unique [OF this]
  have "now_says w1 (ls_layers st1) docs" using now_says_drained [OF a'(2) docs] a'(1) by simp
  with a(1,3) a'(3) b(1) docs same show ?thesis by blast
qed


subsection \<open>A session\<close>

definition sample_world :: layer_world where
  "sample_world = \<lparr>lw_graphs = [0 \<mapsto> sample_graph], lw_caches = Map.empty,
     lw_direct = [0 \<mapsto> new_direct_layer (\<lambda>_. Hash256 0 0 0 0) []]\<rparr>"

definition sample_stack :: "nat layer_stack" where
  "sample_stack = snd (push_graph_layer [117] 0 (Op_id (Hash256 1 0 0 0)) None (snd (push_direct_layer [98] 0 new_layer_stack)))"

lemma sample_layers:
  "ls_layers sample_stack =
    [\<lparr>ly_name = [98], ly_generation = 1, ly_muted = False, ly_graph = None, ly_head = no_writer, ly_cache = None,
       ly_direct = Some 0, ly_recorded_head = no_writer, ly_recorded_version = 0\<rparr>,
     \<lparr>ly_name = [117], ly_generation = 2, ly_muted = False, ly_graph = Some 0, ly_head = Op_id (Hash256 1 0 0 0), ly_cache = None,
       ly_direct = None, ly_recorded_head = no_writer, ly_recorded_version = 0\<rparr>]"
  by (simp add: sample_stack_def push_graph_layer_def push_direct_layer_def push_layer_def new_layer_stack_def Let_def)

lemma sample_world_fits: "layers_fit sample_world (ls_layers sample_stack)"
proof -
  have "layer_ok (new_direct_layer H [])" for H
    using snapshot_reachable_ok [OF snapshot_reachable.default] by (simp add: layer_ok_def new_direct_layer_def new_change_set_builder_def)
  moreover have "direct_encoded (new_direct_layer H [])" for H by (simp add: direct_encoded_def layer_values_def new_direct_layer_def)
  moreover have "graph_fits sample_graph" using sample_graph_reachable sample_payloads_valid sample_acyclic by (simp add: graph_fits_def)
  ultimately show ?thesis
    by (auto simp: sample_layers layers_fit_def layer_fits_def cache_ready_def sample_world_def less_Suc_eq)
qed

lemma sample_session: "stack_session sys app p sample_world sample_stack"
proof -
  let ?st = "snd (push_direct_layer [98] 0 new_layer_stack) :: nat layer_stack"
  have "layers_fit sample_world (take 1 (ls_layers sample_stack))" using sample_world_fits by (simp add: sample_layers layers_fit_def)
  moreover have "ls_layers ?st = take 1 (ls_layers sample_stack)"
    by (simp add: sample_layers) (simp add: push_direct_layer_def push_layer_def new_layer_stack_def Let_def)
  ultimately have "stack_session sys app p sample_world ?st" by (intro ss_push_direct [OF ss_new surjective_pairing]) simp
  from ss_push_graph [OF this, of "[117]" 0 "Op_id (Hash256 1 0 0 0)" None] sample_world_fits show ?thesis
    by (auto simp: sample_stack_def intro: surjective_pairing)
qed

lemma layered_apply_is_rebuild_witness:
  "\<exists>w st w1 st1 r1 out1 stats.
     stack_session (\<lambda>_ _. (0, 0)) sample_app sample_policy w st \<and> \<not> ls_structure_dirty st \<and>
     map ly_head (ls_layers st) = [no_writer, Op_id (Hash256 2 0 0 0)] \<and>
     map ly_recorded_head (ls_layers st) = [no_writer, Op_id (Hash256 1 0 0 0)] \<and>
     stack_apply (\<lambda>_ _. (0, 0)) sample_app (default_policy sample_policy) empty_report
       \<lparr>lo_max_chain_ops = 64, lo_compacts = \<lambda>dead alive. dead > alive, lo_force_rebuild = False\<rparr> (w, st) = Ok (w1, st1, r1, out1, stats)"
proof -
  let ?p = sample_policy
  have movable: "schemas_movable ?p"
    by (auto simp: schemas_movable_def default_known_def sample_policy_def schema_of_def sample_schema_def split: if_splits)
  note p = sample_parse_ok(1) movable
  have start: "stack_session (\<lambda>_ _. (0, 0)) sample_app ?p sample_world sample_stack" by (rule sample_session)
  from stack_session_ready [OF start p] have "stack_fits sample_world sample_stack"
    by (simp add: stack_ready_def)
  from stack_rebuild_ok [OF this p(1), of "\<lambda>_ _. (0, 0)" sample_app empty_report] obtain w st r out where
    re: "stack_rebuild (\<lambda>_ _. (0, 0)) sample_app (default_policy ?p) empty_report (sample_world, sample_stack) = Ok (w, st, r, out)"
      "\<not> ls_structure_dirty st" "ls_layers st = map (recorded w) (ls_layers sample_stack)" by blast
  let ?h = "\<lparr>lh_index = 1, lh_generation = 2\<rparr> :: layer_handle"
  have "stack_find ?h st = Some 1" by (simp add: stack_find_def re(3) sample_layers handle_is_valid_def)
  then obtain st' where st': "set_head ?h (Op_id (Hash256 2 0 0 0)) st = Ok st'" "ls_structure_dirty st' = ls_structure_dirty st"
    "ls_layers st' = (ls_layers st)[1 := (ls_layers st ! 1)\<lparr>ly_head := Op_id (Hash256 2 0 0 0)\<rparr>]"
    by (simp add: set_head_def check_def re(3) sample_layers is_graph_def)
  have session: "stack_session (\<lambda>_ _. (0, 0)) sample_app ?p w st'"
    by (rule ss_set_head [OF ss_rebuild [OF start re(1)] st'(1)])
  have "map ly_head (ls_layers st') = [no_writer, Op_id (Hash256 2 0 0 0)]"
    "map ly_recorded_head (ls_layers st') = [no_writer, Op_id (Hash256 1 0 0 0)]" by (simp_all add: st'(3) re(3) sample_layers)
  moreover from layered_apply_is_rebuild [OF session p, of empty_report
    "\<lparr>lo_max_chain_ops = 64, lo_compacts = \<lambda>dead alive. dead > alive, lo_force_rebuild = False\<rparr>" empty_report]
  obtain w1 st1 r1 out1 stats where "stack_apply (\<lambda>_ _. (0, 0)) sample_app (default_policy sample_policy) empty_report
       \<lparr>lo_max_chain_ops = 64, lo_compacts = \<lambda>dead alive. dead > alive, lo_force_rebuild = False\<rparr> (w, st') = Ok (w1, st1, r1, out1, stats)"
    by blast
  ultimately show ?thesis using session st'(2) re(2) by (intro exI conjI) simp_all
qed

subsection \<open>Provenance\<close>

text \<open>The topmost unmuted layer that has a path.\<close>

definition owner :: "stack_layer list \<Rightarrow> raw_document list \<Rightarrow> property_path \<Rightarrow> nat option" where
  "owner layers docs path = find (\<lambda>i. \<not> ly_muted (layers ! i) \<and> document_try_get (docs ! i) path \<noteq> None) (rev [0..<length layers])"

lemma provenance_from_ok:
  fixes st :: "'c layer_stack"
  assumes "layers_fit w (ls_layers st)" "set is \<subseteq> {..<length (ls_layers st)}" "now_says w (ls_layers st) docs"
  shows "\<exists>h w'. provenance_from path st is w = Ok (h, w') \<and> layers_fit w' (ls_layers st) \<and> same_but_caches w w' \<and>
    (case find (\<lambda>i. \<not> ly_muted (ls_layers st ! i) \<and> document_try_get (docs ! i) path \<noteq> None) is of
       None \<Rightarrow> h = no_handle | Some i \<Rightarrow> layer_at i st = Ok h)"
  using assms
proof (induction "is" arbitrary: w)
  case Nil
  then show ?case by (simp add: same_but_caches_def)
next
  case (Cons i "is")
  let ?l = "ls_layers st ! i" and ?has = "\<lambda>i. \<not> ly_muted (ls_layers st ! i) \<and> document_try_get (docs ! i) path \<noteq> None"
  have i: "i < length (ls_layers st)" and rest: "set is \<subseteq> {..<length (ls_layers st)}" using Cons.prems(2) by simp_all
  have full: "layer_says w ?l [] (docs ! i)" using Cons.prems(3) i by (simp add: now_says_def)
  show ?case
  proof (cases "ly_muted ?l")
    case True
    with Cons.IH [OF Cons.prems(1) rest Cons.prems(3)] show ?thesis by simp
  next
    case False
    obtain raw w1 where raw: "(if is_graph ?l then materialize_layer ?l [pp_entity path] w
        else rbind (deref (lw_direct w) (ly_direct ?l)) (\<lambda>d. Ok (sn_document (dl_doc d), w))) = Ok (raw, w1)"
      "layers_fit w1 (ls_layers st)" "same_but_caches w w1" "layer_says w ?l [pp_entity path] raw"
    proof (cases "is_graph ?l")
      case True
      with materialize_layer_ok [OF Cons.prems(1) nth_mem [OF i] True, of "[pp_entity path]"] that show ?thesis by auto
    next
      case direct: False
      with full obtain k d where "ly_direct ?l = Some k" "lw_direct w k = Some d" "docs ! i = sn_document (dl_doc d)"
        by (auto simp: layer_says_def is_graph_def)
      with that [of "docs ! i" w] direct full Cons.prems(1) layer_says_direct [OF direct, of w "[pp_entity path]"] show ?thesis
        by (simp add: deref_def same_but_caches_def)
    qed
    have get: "document_try_get raw path = document_try_get (docs ! i) path"
      using layer_says_filtered [OF raw(4) full] by (simp add: document_try_get_def)
    have step: "provenance_from path st (i # is) w = (if document_try_get (docs ! i) path \<noteq> None
        then rbind (layer_at i st) (\<lambda>h. Ok (h, w1)) else provenance_from path st is w1)"
      using False raw(1) by (simp add: Let_def get)
    have at: "layer_at i st = Ok \<lparr>lh_index = of_nat i, lh_generation = ly_generation ?l\<rparr>" using i by (simp add: layer_at_def check_def)
    have "now_says w1 (ls_layers st) docs" using Cons.prems(3) same_but_caches_says [OF raw(3)] by (simp add: now_says_def)
    from Cons.IH [OF raw(2) rest this] obtain h w' where h: "provenance_from path st is w1 = Ok (h, w')" "layers_fit w' (ls_layers st)"
      "same_but_caches w1 w'" "case find ?has is of None \<Rightarrow> h = no_handle | Some i \<Rightarrow> layer_at i st = Ok h" by blast
    show ?thesis
    proof (cases "document_try_get (docs ! i) path")
      case None
      with step h False same_but_caches_trans [OF raw(3) h(3)] show ?thesis by auto
    next
      case (Some v)
      with step at raw(2,3) False show ?thesis by auto
    qed
  qed
qed

lemma topmost_owner:
  "topmost (views_of layers docs) path = (case owner layers docs path of None \<Rightarrow> None | Some i \<Rightarrow> document_try_get (docs ! i) path)"
proof -
  have "first_some (\<lambda>layer. layer_value layer path) (map (\<lambda>i. Some (docs ! i)) (filter (\<lambda>i. \<not> ly_muted (layers ! i)) is)) =
    (case find (\<lambda>i. \<not> ly_muted (layers ! i) \<and> document_try_get (docs ! i) path \<noteq> None) is of
       None \<Rightarrow> None | Some i \<Rightarrow> document_try_get (docs ! i) path)" for "is"
    by (induction "is") (auto simp: layer_value_def split: option.split)
  from this [of "rev [0..<length layers]"] show ?thesis by (simp add: topmost_def views_of_def owner_def rev_map rev_filter)
qed

text \<open>What composing the layers takes at a path is what its owner has there.\<close>

lemma composition_from_owner:
  assumes "now_says w layers docs"
  defines "views \<equiv> views_of layers docs"
  shows "\<exists>cd. compose views (compose_entities views) = Ok cd \<and>
    composed_value cd path = (if versions_disagree views (pp_entity path) (pp_component path) then None
      else case owner layers docs path of None \<Rightarrow> None | Some i \<Rightarrow> document_try_get (docs ! i) path)"
proof -
  have readable: "layers_readable views"
    using assms(1) unfolding views_def by (intro views_readable) (auto simp: now_says_def intro: layer_says_readable)
  have es: "sorted_wrt (<) (compose_entities views)" unfolding compose_entities_eq by (rule strict_sorted_list_of_set)
  from compose_eq [OF readable, of "compose_entities views"] obtain cd where cd: "compose views (compose_entities views) = Ok cd" by blast
  have "composed_try_get cd = composed_entity views"
    using composed_try_get_eq [OF readable es cd] compose_entities_complete [OF readable] by (auto simp: fun_eq_iff)
  then have "composed_value cd path = (if versions_disagree views (pp_entity path) (pp_component path) then None else topmost views path)"
    using composed_entity_value [OF readable, where e = "pp_entity path" and c = "pp_component path" and p = "pp_property path"] by (simp add: composed_value_def)
  with cd show ?thesis by (auto simp: views_def topmost_owner)
qed

text \<open>
  C40. In any session, asking where a path comes from never faults, whatever the layers say.  It names the topmost unmuted layer
  that has the path, or no layer when none has it; and what the composition of the layers holds at that path is exactly what
  that layer says there, unless the composition dropped the component because its layers disagree about the schema version.
  It changes nothing but what the caches hold, and the stack can go on as before.
\<close>

theorem provenance_exact:
  fixes app :: "'c application"
  assumes "stack_session sys app p w st" "default_ok p" "schemas_movable p"
  shows "\<exists>h w'. provenance_of path (w, st) = Ok (h, w') \<and>
    lw_graphs w' = lw_graphs w \<and> lw_direct w' = lw_direct w \<and> stack_ready p app w' st \<and> (\<exists>docs. now_says w (ls_layers st) docs) \<and>
    (\<forall>docs. now_says w (ls_layers st) docs \<longrightarrow>
       (case owner (ls_layers st) docs path of
          None \<Rightarrow> h = no_handle
        | Some i \<Rightarrow> layer_at i st = Ok h \<and> document_try_get (docs ! i) path \<noteq> None) \<and>
       (\<exists>cd. compose (views_of (ls_layers st) docs) (compose_entities (views_of (ls_layers st) docs)) = Ok cd \<and>
          composed_value cd path =
            (if versions_disagree (views_of (ls_layers st) docs) (pp_entity path) (pp_component path) then None
             else case owner (ls_layers st) docs path of None \<Rightarrow> None | Some i \<Rightarrow> document_try_get (docs ! i) path)))"
proof -
  from stack_session_ready [OF assms] have ready: "stack_fits w st" "ls_structure_dirty st \<or> in_step p app w st" by (simp_all add: stack_ready_def)
  then have fit: "layers_fit w (ls_layers st)" by (simp add: stack_fits_def)
  have found: "\<exists>h w'. provenance_of path (w, st) = Ok (h, w') \<and> layers_fit w' (ls_layers st) \<and> same_but_caches w w' \<and>
      (case owner (ls_layers st) docs path of None \<Rightarrow> h = no_handle | Some i \<Rightarrow> layer_at i st = Ok h)"
    if "now_says w (ls_layers st) docs" for docs
    using provenance_from_ok [OF fit _ that, of "rev [0..<length (ls_layers st)]" path]
    by (auto simp: provenance_of_def owner_def atLeast0LessThan)
  from layers_say [OF fit] obtain docs where docs: "now_says w (ls_layers st) docs" by blast
  from found [OF docs] obtain h w' where h: "provenance_of path (w, st) = Ok (h, w')" "layers_fit w' (ls_layers st)" "same_but_caches w w'" by blast
  have "layer_was w' l raw = layer_was w l raw" for l raw
    using h(3) by (simp add: layer_was_def same_but_caches_def split: option.split)
  then have ready': "stack_ready p app w' st" using ready h(2) by (simp add: stack_ready_def stack_fits_def in_step_def was_says_def)
  have names: "case owner (ls_layers st) docs path of None \<Rightarrow> h = no_handle
      | Some i \<Rightarrow> layer_at i st = Ok h \<and> document_try_get (docs ! i) path \<noteq> None"
    if "now_says w (ls_layers st) docs" for docs
  proof -
    have "document_try_get (docs ! i) path \<noteq> None" if "owner (ls_layers st) docs path = Some i" for i
      using that by (auto simp: owner_def find_Some_iff)
    with found [OF that] h(1) show ?thesis by (auto split: option.splits)
  qed
  show ?thesis
    using h(1,3) ready' docs names composition_from_owner
    by (intro exI [of _ h] exI [of _ w'] conjI allI impI) (auto simp: same_but_caches_def)
qed

text \<open>Two direct layers; an entity is written in the lower one, and one of its properties in the upper one too.\<close>

definition direct_world :: layer_world where
  "direct_world = \<lparr>lw_graphs = Map.empty, lw_caches = Map.empty,
     lw_direct = [0 \<mapsto> new_direct_layer (\<lambda>_. Hash256 7 0 0 0) [98], 1 \<mapsto> new_direct_layer (\<lambda>_. Hash256 8 0 0 0) [116]]\<rparr>"

definition direct_stack :: "nat layer_stack" where
  "direct_stack = snd (push_direct_layer [116] 1 (snd (push_direct_layer [98] 0 new_layer_stack)))"

definition edited_world :: layer_world where
  "edited_world = direct_world\<lparr>lw_direct := (lw_direct direct_world)(0 \<mapsto>
     layer_set (\<lambda>_. 0) (Property_path [5] [1] [120]) (enc (VBool True)) (new_direct_layer (\<lambda>_. Hash256 7 0 0 0) [98]))\<rparr>"

lemma direct_layers:
  "ls_layers direct_stack =
    [\<lparr>ly_name = [98], ly_generation = 1, ly_muted = False, ly_graph = None, ly_head = no_writer, ly_cache = None,
       ly_direct = Some 0, ly_recorded_head = no_writer, ly_recorded_version = 0\<rparr>,
     \<lparr>ly_name = [116], ly_generation = 2, ly_muted = False, ly_graph = None, ly_head = no_writer, ly_cache = None,
       ly_direct = Some 1, ly_recorded_head = no_writer, ly_recorded_version = 0\<rparr>]"
  by (simp add: direct_stack_def push_direct_layer_def push_layer_def new_layer_stack_def Let_def)

lemma new_direct_layer_ok: "layer_ok (new_direct_layer H name)" "direct_encoded (new_direct_layer H name)"
  "layer_values (new_direct_layer H name) q = None"
  using snapshot_reachable_ok [OF snapshot_reachable.default]
  by (simp_all add: layer_ok_def new_direct_layer_def new_change_set_builder_def direct_encoded_def layer_values_def)

lemma edited_session: "stack_session sys app p edited_world direct_stack"
proof -
  let ?st = "snd (push_direct_layer [98] 0 new_layer_stack) :: nat layer_stack"
  have "layers_fit direct_world (ls_layers direct_stack)"
    using new_direct_layer_ok by (auto simp: direct_layers layers_fit_def layer_fits_def cache_ready_def direct_world_def less_Suc_eq)
  moreover from this have "layers_fit direct_world (take 1 (ls_layers direct_stack))" by (simp add: direct_layers layers_fit_def)
  moreover have "ls_layers ?st = take 1 (ls_layers direct_stack)"
    by (simp add: direct_layers) (simp add: push_direct_layer_def push_layer_def new_layer_stack_def Let_def)
  ultimately have "stack_session sys app p direct_world direct_stack"
    unfolding direct_stack_def
    by (intro ss_push_direct [OF ss_push_direct [OF ss_new surjective_pairing] surjective_pairing]) (simp_all add: direct_stack_def)
  then show ?thesis
    unfolding edited_world_def
  proof (rule ss_edit)
    show "lw_direct direct_world 0 = Some (new_direct_layer (\<lambda>_. Hash256 7 0 0 0) [98])" by (simp add: direct_world_def)
    show "direct_edit (new_direct_layer (\<lambda>_. Hash256 7 0 0 0) [98])
        (layer_set (\<lambda>_. 0) (Property_path [5] [1] [120]) (enc (VBool True)) (new_direct_layer (\<lambda>_. Hash256 7 0 0 0) [98]))"
      by (rule edit_set) (rule encoded_value_enc)
    show "unat (dl_version (new_direct_layer (\<lambda>_. Hash256 7 0 0 0) [98])) +
        Suc (length (flatten (sn_document (dl_doc (new_direct_layer (\<lambda>_. Hash256 7 0 0 0) [98]))))) < 2 ^ 64"
      by (simp add: new_direct_layer_def empty_snapshot_def flatten_def)
  qed
qed

lemma provenance_exact_witness:
  "\<exists>w' w''. provenance_of (Property_path [5] [1] [120]) (edited_world, direct_stack) = Ok (\<lparr>lh_index = 0, lh_generation = 1\<rparr>, w') \<and>
     provenance_of (Property_path [5] [1] [121]) (edited_world, direct_stack) = Ok (no_handle, w'')"
proof -
  have p: "default_ok sample_policy" "schemas_movable sample_policy"
    using sample_parse_ok(1)
    by (auto simp: schemas_movable_def default_known_def sample_policy_def schema_of_def sample_schema_def split: if_splits)
  let ?d = "layer_set (\<lambda>_. 0) (Property_path [5] [1] [120]) (enc (VBool True)) (new_direct_layer (\<lambda>_. Hash256 7 0 0 0) [98])"
  let ?e = "new_direct_layer (\<lambda>_. Hash256 8 0 0 0) [116]"
  have vals: "document_try_get (sn_document (dl_doc ?d)) q \<noteq> None \<longleftrightarrow> q = Property_path [5] [1] [120]"
    "document_try_get (sn_document (dl_doc ?e)) q = None" for q
    using layer_lookup [OF layer_set_spec(1) [OF new_direct_layer_ok(1)]] layer_lookup [OF new_direct_layer_ok(1)]
    by (simp_all add: layer_set_spec(2) [OF new_direct_layer_ok(1)] new_direct_layer_ok(3) del: enc.simps)
  have docs: "docs ! 0 = sn_document (dl_doc ?d) \<and> docs ! 1 = sn_document (dl_doc ?e)" if "now_says edited_world (ls_layers direct_stack) docs" for docs
    using that by (auto simp: now_says_def layer_says_def direct_layers edited_world_def direct_world_def less_Suc_eq simp del: enc.simps)
  have own: "owner (ls_layers direct_stack) docs q = (if q = Property_path [5] [1] [120] then Some 0 else None)"
    if "now_says edited_world (ls_layers direct_stack) docs" for docs q
    using docs [OF that] vals by (simp add: owner_def direct_layers upt_rec)
  have run: "\<exists>h w' docs. provenance_of q (edited_world, direct_stack) = Ok (h, w') \<and> now_says edited_world (ls_layers direct_stack) docs \<and>
      (case owner (ls_layers direct_stack) docs q of None \<Rightarrow> h = no_handle
       | Some i \<Rightarrow> layer_at i direct_stack = Ok h \<and> document_try_get (docs ! i) q \<noteq> None)" for q
    using provenance_exact [OF edited_session p, where path = q] by blast
  have at: "layer_at 0 direct_stack = Ok \<lparr>lh_index = 0, lh_generation = 1\<rparr>" by (simp add: layer_at_def check_def direct_layers)
  from run [of "Property_path [5] [1] [120]"] obtain w' where
    "provenance_of (Property_path [5] [1] [120]) (edited_world, direct_stack) = Ok (\<lparr>lh_index = 0, lh_generation = 1\<rparr>, w')"
    by (auto simp: own at)
  moreover from run [of "Property_path [5] [1] [121]"] obtain w'' where
    "provenance_of (Property_path [5] [1] [121]) (edited_world, direct_stack) = Ok (no_handle, w'')"
    by (auto simp: own)
  ultimately show ?thesis by blast
qed

end
